(* ===== verification/Prelude.thy ===== *)
theory Prelude
  imports Main "HOL-Library.Word"
begin

text \<open>
  The library every component rests on: the machine integer types of the C sources, the
  arithmetic of \<^verbatim>\<open>size_t\<close> (64 bits wide here), the reading of byte strings as big-endian
  and little-endian numbers, and the lemmas that turn the shift-and-or loops of the
  code into arithmetic on natural numbers.  The collection \<open>byte_simps\<close> gathers the
  rewrite rules of the second kind.
\<close>

unbundle bit_operations_syntax

named_theorems byte_simps
named_theorems result_simps

section \<open>Machine integers\<close>

type_synonym u8 = "8 word"
type_synonym u16 = "16 word"
type_synonym u32 = "32 word"
type_synonym u64 = "64 word"
type_synonym bytes = "8 word list"

text \<open>
  Sizes are natural numbers; where the code lets a \<^verbatim>\<open>size_t\<close> wrap around (and usually
  checks for it afterwards) the model uses the wrapping addition \<open>size_add\<close>.
\<close>

definition SIZE_MAX :: nat where
  "SIZE_MAX = 2 ^ 64 - 1"

definition size_add :: "nat \<Rightarrow> nat \<Rightarrow> nat" where
  "size_add a b = (a + b) mod 2 ^ 64"

definition size_mul :: "nat \<Rightarrow> nat \<Rightarrow> nat" where
  "size_mul a b = (a * b) mod 2 ^ 64"

lemma size_add_no_wrap: "a + b < 2 ^ 64 \<Longrightarrow> size_add a b = a + b"
  by (simp add: size_add_def)

lemma size_add_wraps:
  assumes "a < 2 ^ 64" and "b < 2 ^ 64"
  shows "size_add a b < a \<longleftrightarrow> 2 ^ 64 \<le> a + b"
proof (cases "a + b < 2 ^ 64")
  case True
  then show ?thesis by (simp add: size_add_def)
next
  case False
  then have "(a + b) mod 2 ^ 64 = a + b - 2 ^ 64"
    using assms by (subst mod_if) (simp add: mod_if)
  with False assms show ?thesis by (simp add: size_add_def)
qed

section \<open>Shifts, masks and single bytes\<close>

lemma or_disjoint_add:
  fixes x y :: "'a::len word"
  assumes "x AND y = 0"
  shows "x OR y = x + y"
  using assms by (simp add: disjunctive_add_eq_or)

lemma push_bit_or_ucast:
  fixes r :: "'a::len word" and b :: "'b::len word"
  assumes "unat b < 2 ^ n"
  shows "push_bit n r OR ucast b = push_bit n r + ucast b"
proof (rule or_disjoint_add, rule bit_eqI)
  fix i
  have *: "bit b k \<Longrightarrow> k < n" for k
  proof -
    assume "bit b k"
    then have "bit (unat b) k" by (simp add: bit_unsigned_iff bit_imp_le_length)
    moreover have "take_bit n (unat b) = unat b"
      using assms by (simp add: take_bit_nat_eq_self)
    ultimately show "k < n" by (metis bit_take_bit_iff)
  qed
  show "bit (push_bit n r AND ucast b) i = bit (0::'a word) i"
    using * [of i] by (auto simp: bit_simps)
qed

lemma unat_push_or:
  fixes r :: "'a::len word" and b :: "'b::len word"
  assumes "unat r * 2 ^ n + unat b < 2 ^ LENGTH('a)" and "unat b < 2 ^ n"
  shows "unat (push_bit n r OR ucast b) = unat r * 2 ^ n + unat b"
proof -
  have r: "unat r * 2 ^ n < 2 ^ LENGTH('a)" and b: "unat b < 2 ^ LENGTH('a)"
    using assms(1) by simp_all
  have 1: "unat (push_bit n r) = unat r * 2 ^ n"
    using r by (simp add: unsigned_push_bit_eq push_bit_eq_mult take_bit_nat_eq_self
        del: push_bit_eq_mult flip: push_bit_eq_mult)
  have 2: "unat (ucast b :: 'a word) = unat b"
    using b by (simp add: unsigned_ucast_eq take_bit_nat_eq_self)
  show ?thesis
    unfolding push_bit_or_ucast [OF assms(2)]
    using assms(1) by (simp add: unat_word_ariths 1 2)
qed

lemma unat_less_256 [simp]: "unat (b::u8) < 256"
  using unsigned_less [of b] by simp

lemma unat_le_255 [simp]: "unat (b::u8) \<le> 255"
  using unat_less_256 [of b] by linarith

lemma unat_byte_of_nat [byte_simps]: "unat (of_nat n :: u8) = n mod 256"
  by (simp add: unat_of_nat)

lemma byte_of_nat_unat [simp]: "(of_nat (unat (b::u8)) :: u8) = b"
  by simp

lemma byte_of_nat_eqI: "n mod 256 = unat b \<Longrightarrow> (of_nat n :: u8) = b"
  by (simp only: word_unat_eq_iff unat_byte_of_nat)

lemma ucast_byte_unat [byte_simps]:
  "(ucast (w::'a::len word) :: u8) = of_nat (unat w)"
  by (simp add: word_eq_iff_unsigned unsigned_ucast_eq unat_of_nat take_bit_eq_mod)

lemma byte_and_mask [byte_simps]: "unat ((b::u8) AND 0x7f) = unat b mod 128"
proof -
  have "b AND 0x7f = b AND mask 7" by (simp add: mask_eq_exp_minus_1)
  then show ?thesis
    by (simp add: take_bit_eq_mask [symmetric] unsigned_take_bit_eq take_bit_eq_mod unat_mod)
qed

lemma unat_ucast_up:
  "LENGTH('a) \<le> LENGTH('b) \<Longrightarrow> unat (ucast (w::'a::len word) :: 'b::len word) = unat w"
  by (simp add: unsigned_ucast_eq take_bit_nat_eq_self_iff)
    (meson less_le_trans one_le_numeral power_increasing unsigned_less)

lemma unat_and_mask: "unat (w AND mask n) = unat w mod 2 ^ n"
  by (simp only: take_bit_eq_mask [symmetric] unsigned_take_bit_eq) (simp only: take_bit_eq_mod)

lemma unat_and_mask_less: "unat (w AND mask n) < 2 ^ n"
  by (simp add: unat_and_mask)

lemma eq_of_nat_unat: "unat w = n \<Longrightarrow> w = of_nat n"
  by (auto simp: word_unat_eq_iff)

lemma unat_drop_bit_div [byte_simps]: "unat (drop_bit n w) = unat w div 2 ^ n"
  by (simp only: unat_drop_bit_eq) (simp only: drop_bit_eq_div)

lemma drop_bit_eq_0_unat: "drop_bit n w = 0 \<longleftrightarrow> unat w < 2 ^ n"
  by (simp only: word_unat_eq_iff unat_drop_bit_div unsigned_0 div_eq_0_iff) simp

lemma bit_byte_7: "bit (b::u8) 7 \<longleftrightarrow> 128 \<le> unat b"
proof -
  have "bit b 7 \<longleftrightarrow> bit (unat b) 7" by (simp add: bit_unsigned_iff)
  also have "\<dots> \<longleftrightarrow> odd (unat b div 128)" by (simp add: bit_iff_odd)
  also have "\<dots> \<longleftrightarrow> 128 \<le> unat b"
  proof -
    have "unat b div 128 = 0 \<or> unat b div 128 = 1" using unat_less_256 [of b] by linarith
    then show ?thesis by (auto simp: div_eq_0_iff)
  qed
  finally show ?thesis .
qed

lemma byte_high_bit [byte_simps]: "(b::u8) AND 0x80 = 0 \<longleftrightarrow> unat b < 128"
proof -
  have "(0x80::u8) = push_bit 7 1" by simp
  then have "b AND 0x80 = 0 \<longleftrightarrow> \<not> bit b 7"
    by (metis and_exp_eq_0_iff_not_bit push_bit_of_1)
  then show ?thesis by (simp add: bit_byte_7 not_le)
qed

section \<open>Byte strings as numbers\<close>

text \<open>Big-endian and little-endian values, and the fixed-width encodings.\<close>

primrec be_nat :: "bytes \<Rightarrow> nat" where
  "be_nat [] = 0"
| "be_nat (b # bs) = unat b * 256 ^ length bs + be_nat bs"

primrec be_bytes :: "nat \<Rightarrow> nat \<Rightarrow> bytes" where
  "be_bytes 0 v = []"
| "be_bytes (Suc n) v = be_bytes n (v div 256) @ [of_nat v]"

primrec le_nat :: "bytes \<Rightarrow> nat" where
  "le_nat [] = 0"
| "le_nat (b # bs) = unat b + 256 * le_nat bs"

primrec le_bytes :: "nat \<Rightarrow> nat \<Rightarrow> bytes" where
  "le_bytes 0 v = []"
| "le_bytes (Suc n) v = of_nat v # le_bytes n (v div 256)"

lemma length_be_bytes [simp]: "length (be_bytes n v) = n"
  by (induction n arbitrary: v) simp_all

lemma length_le_bytes [simp]: "length (le_bytes n v) = n"
  by (induction n arbitrary: v) simp_all

lemma be_nat_append: "be_nat (xs @ ys) = be_nat xs * 256 ^ length ys + be_nat ys"
  by (induction xs) (simp_all add: power_add algebra_simps)

lemma be_nat_snoc [simp]: "be_nat (xs @ [b]) = be_nat xs * 256 + unat b"
  by (simp add: be_nat_append)

lemma be_nat_less: "be_nat bs < 256 ^ length bs"
proof (induction bs)
  case (Cons b bs)
  have "unat b * 256 ^ length bs \<le> 255 * 256 ^ length bs"
    by (intro mult_le_mono1) (rule unat_le_255)
  with Cons show ?case by (simp only: be_nat.simps length_Cons power_Suc)
qed simp

lemma le_nat_less: "le_nat bs < 256 ^ length bs"
proof (induction bs)
  case (Cons b bs)
  have "unat b \<le> 255" by (rule unat_le_255)
  with Cons show ?case by (simp only: le_nat.simps length_Cons power_Suc)
qed simp

lemma be_nat_be_bytes: "be_nat (be_bytes n v) = v mod 256 ^ n"
proof (induction n arbitrary: v)
  case (Suc n)
  have "v mod (256 * 256 ^ n) = 256 * (v div 256 mod 256 ^ n) + v mod 256"
    by (rule mod_mult2_eq)
  then show ?case by (simp add: Suc byte_simps)
qed simp

lemma le_nat_le_bytes: "le_nat (le_bytes n v) = v mod 256 ^ n"
proof (induction n arbitrary: v)
  case (Suc n)
  have "v mod (256 * 256 ^ n) = 256 * (v div 256 mod 256 ^ n) + v mod 256"
    by (rule mod_mult2_eq)
  then show ?case by (simp add: Suc byte_simps)
qed simp

lemma be_bytes_be_nat: "be_bytes (length bs) (be_nat bs) = bs"
proof (induction bs rule: rev_induct)
  case (snoc b bs)
  have "(be_nat bs * 256 + unat b) div 256 = be_nat bs" by simp
  moreover have "(of_nat (be_nat bs * 256 + unat b) :: u8) = b"
    by (rule byte_of_nat_eqI) simp
  ultimately show ?case using snoc by simp
qed simp

lemma le_bytes_le_nat: "le_bytes (length bs) (le_nat bs) = bs"
proof (induction bs)
  case (Cons b bs)
  have "(unat b + 256 * le_nat bs) div 256 = le_nat bs" by simp
  moreover have "(of_nat (unat b + 256 * le_nat bs) :: u8) = b"
    by (rule byte_of_nat_eqI) simp
  ultimately show ?case using Cons by simp
qed simp

lemma be_nat_inject: "length xs = length ys \<Longrightarrow> be_nat xs = be_nat ys \<Longrightarrow> xs = ys"
  by (metis be_bytes_be_nat)

text \<open>
  The loop \<^verbatim>\<open>result <<= 8; result |= data[i]\<close> of the readers: in an accumulator wide
  enough it computes the big-endian value.
\<close>

definition be_loop :: "'a::len word \<Rightarrow> bytes \<Rightarrow> 'a word" where
  "be_loop r bs = foldl (\<lambda>r b. push_bit 8 r OR ucast b) r bs"

lemma be_loop_simps [simp]:
  "be_loop r [] = r"
  "be_loop r (b # bs) = be_loop (push_bit 8 r OR ucast b) bs"
  by (simp_all add: be_loop_def)

lemma unat_be_loop_gen:
  "unat (r :: 'a::len word) * 256 ^ length bs + be_nat bs < 2 ^ LENGTH('a) \<Longrightarrow>
    unat (be_loop r bs) = unat r * 256 ^ length bs + be_nat bs"
proof (induction bs arbitrary: r)
  case (Cons b bs)
  have "unat r * 2 ^ 8 + unat b \<le> (unat r * 256 + unat b) * 256 ^ length bs"
    by simp
  also have "\<dots> < 2 ^ LENGTH('a)"
    using Cons.prems by (simp add: algebra_simps)
  finally have *: "unat (push_bit 8 r OR ucast b) = unat r * 2 ^ 8 + unat b"
    by (intro unat_push_or) simp_all
  from Cons.prems show ?case
    by (simp add: Cons.IH * algebra_simps)
qed simp

lemma unat_be_loop:
  assumes "8 * length bs \<le> LENGTH('a)"
  shows "unat (be_loop (0 :: 'a::len word) bs) = be_nat bs"
proof -
  have "be_nat bs < 256 ^ length bs" by (rule be_nat_less)
  also have "\<dots> = (2::nat) ^ (8 * length bs)" by (simp add: power_mult)
  also have "\<dots> \<le> 2 ^ LENGTH('a)" using assms by (intro power_increasing) simp_all
  finally show ?thesis by (subst unat_be_loop_gen) simp_all
qed

section \<open>Results\<close>

text \<open>
  A C function that returns 0 or 1, writes an output parameter on success and moves a
  cursor or a buffer is modelled as \<open>'a option \<times> 's\<close>: the output if it returned 1,
  and the state it leaves behind in either case.  \<open>chain\<close> is the idiom
  \<^verbatim>\<open>if (!f(s, &v)) return 0; ...\<close>.
\<close>

definition chain ::
  "'a option \<times> 's \<Rightarrow> ('a \<Rightarrow> 's \<Rightarrow> 'b option \<times> 's) \<Rightarrow> 'b option \<times> 's" where
  "chain r k = (case r of (None, s) \<Rightarrow> (None, s) | (Some v, s) \<Rightarrow> k v s)"

lemma chain_simps [simp]:
  "chain (None, s) k = (None, s)"
  "chain (Some v, s) k = k v s"
  by (simp_all add: chain_def)

lemma chain_eq_Some:
  "chain r k = (Some w, t) \<longleftrightarrow> (\<exists>v s. r = (Some v, s) \<and> k v s = (Some w, t))"
  by (cases r; cases "fst r") (auto simp: chain_def)

lemma chain_SomeE [elim]:
  assumes "chain r k = (Some w, t)"
  obtains v s where "r = (Some v, s)" and "k v s = (Some w, t)"
  using assms by (auto simp: chain_eq_Some)

end
