(* ===== verification/Mem.thy ===== *)
theory Mem
  imports Prelude
begin

text \<open>
  \<^verbatim>\<open>BoringSSL/crypto/mem.c\<close> and \<^verbatim>\<open>BoringSSL/crypto/buf/buf.c\<close>: allocation with a size
  prefix, memory and string primitives, and the growable \<^verbatim>\<open>BUF_MEM\<close>.

  The C library's \<^verbatim>\<open>malloc\<close> is a parameter \<open>m\<close>: \<open>m n\<close> is the \<open>n\<close> bytes (with arbitrary
  contents) it returns, or \<open>None\<close>.  That it hands out as many bytes as asked for, and never
  \<^verbatim>\<open>PTRDIFF_MAX\<close> or more, is the hypothesis \<open>malloc_spec\<close>.  A null buffer is the empty list.
  A C string is the list of its bytes; reading at its end gives the terminating NUL.
\<close>

type_synonym malloc = "nat \<Rightarrow> bytes option"

definition malloc_spec :: "malloc \<Rightarrow> bool" where
  "malloc_spec m \<longleftrightarrow> (\<forall>n raw. m n = Some raw \<longrightarrow> length raw = n \<and> n < 2 ^ 63)"

text \<open>An allocator that zeroes its memory and only fails where it must: the witnesses use it.\<close>

definition zero_malloc :: malloc where
  "zero_malloc n = (if n < 2 ^ 63 then Some (replicate n 0) else None)"

text \<open>An allocator with memory left for every request below the limit.\<close>

definition malloc_total :: "malloc \<Rightarrow> bool" where
  "malloc_total m \<longleftrightarrow> (\<forall>n<2 ^ 63. m n \<noteq> None)"

lemma malloc_zero_malloc [simp]: "malloc_spec zero_malloc" "malloc_total zero_malloc"
  by (simp_all add: malloc_spec_def malloc_total_def zero_malloc_def)

section \<open>Allocation\<close>

record block =
  blk_size :: nat
  blk_data :: bytes

definition OPENSSL_MALLOC_PREFIX :: nat where
  "OPENSSL_MALLOC_PREFIX = 8"

definition mem_write :: "bytes \<Rightarrow> nat \<Rightarrow> bytes \<Rightarrow> bytes" where
  "mem_write buf pos bs = take pos buf @ bs @ drop (pos + length bs) buf"

definition OPENSSL_malloc :: "malloc \<Rightarrow> nat \<Rightarrow> block option" where
  "OPENSSL_malloc m sz =
     (case m (size_add sz OPENSSL_MALLOC_PREFIX) of
        None \<Rightarrow> None
      | Some ptr \<Rightarrow> Some \<lparr>blk_size = sz, blk_data = drop OPENSSL_MALLOC_PREFIX ptr\<rparr>)"

definition OPENSSL_realloc :: "malloc \<Rightarrow> block option \<Rightarrow> nat \<Rightarrow> block option" where
  "OPENSSL_realloc m orig new_size =
     (case orig of
        None \<Rightarrow> OPENSSL_malloc m new_size
      | Some b \<Rightarrow>
          (case OPENSSL_malloc m new_size of
             None \<Rightarrow> None
           | Some ret \<Rightarrow>
               (let to_copy = (if blk_size b < new_size then blk_size b else new_size)
                in Some (ret\<lparr>blk_data := mem_write (blk_data ret) 0 (take to_copy (blk_data b))\<rparr>))))"

lemma length_mem_write: "pos + length bs \<le> length buf \<Longrightarrow> length (mem_write buf pos bs) = length buf"
  by (simp add: mem_write_def)

lemma take_mem_write [simp]: "pos \<le> length buf \<Longrightarrow> take (pos + length bs) (mem_write buf pos bs) = take pos buf @ bs"
  by (simp add: mem_write_def)

lemma take_mem_write_le: "n \<le> pos \<Longrightarrow> pos \<le> length buf \<Longrightarrow> take n (mem_write buf pos bs) = take n buf"
  by (simp add: mem_write_def min_def)

lemma take_mem_write_within:
  assumes "pos + length d \<le> n" and "n \<le> length buf"
  shows "take n (mem_write buf pos d) = mem_write (take n buf) pos d"
proof -
  from assms have "min pos n = pos" "min (length buf) pos = pos" by simp_all
  with assms show ?thesis by (simp add: mem_write_def drop_take)
qed

lemma nth_mem_write:
  assumes "pos + length bs \<le> length buf" and "j < length buf"
  shows "mem_write buf pos bs ! j = (if pos \<le> j \<and> j < pos + length bs then bs ! (j - pos) else buf ! j)"
  using assms by (auto simp: mem_write_def nth_append min_def)

lemma mem_write_one: "pos < length buf \<Longrightarrow> buf[pos := x] = mem_write buf pos [x]"
  by (simp add: mem_write_def upd_conv_take_nth_drop)

text \<open>
  Freeing overwrites the whole allocation, the size prefix included, before \<^verbatim>\<open>free\<close> gets it; the value is the memory
  as \<^verbatim>\<open>free\<close> gets it.
\<close>

definition OPENSSL_cleanse :: "bytes \<Rightarrow> nat \<Rightarrow> bytes" where
  "OPENSSL_cleanse ptr len = mem_write ptr 0 (replicate len 0)"

definition OPENSSL_free :: "block option \<Rightarrow> bytes option" where
  "OPENSSL_free orig_ptr =
     (case orig_ptr of
        None \<Rightarrow> None
      | Some b \<Rightarrow>
          let ptr = le_bytes 8 (blk_size b) @ blk_data b
          in Some (OPENSSL_cleanse ptr (size_add (blk_size b) OPENSSL_MALLOC_PREFIX)))"

lemma OPENSSL_free_zero:
  assumes "length (blk_data b) = blk_size b" and "blk_size b + 8 < 2 ^ 64"
  shows "OPENSSL_free (Some b) = Some (replicate (blk_size b + 8) 0)"
  using assms
  by (simp add: OPENSSL_free_def OPENSSL_cleanse_def OPENSSL_MALLOC_PREFIX_def size_add_no_wrap mem_write_def Let_def)

lemma OPENSSL_malloc_Some:
  assumes "malloc_spec m" and "OPENSSL_malloc m sz = Some b" and "sz < 2 ^ 64 - 8"
  shows "blk_size b = sz" and "length (blk_data b) = sz" and "sz + 8 < 2 ^ 63"
  using assms
  by (auto simp: OPENSSL_malloc_def OPENSSL_MALLOC_PREFIX_def malloc_spec_def size_add_no_wrap
      split: option.splits dest!: spec)

lemma OPENSSL_realloc_Some:
  assumes "malloc_spec m" and "OPENSSL_realloc m (Some b) sz = Some r" and "sz < 2 ^ 64 - 8"
    and "length (blk_data b) = blk_size b"
  shows "blk_size r = sz" and "length (blk_data r) = sz" and "sz + 8 < 2 ^ 63"
    and "n \<le> blk_size b \<Longrightarrow> n \<le> sz \<Longrightarrow> take n (blk_data r) = take n (blk_data b)"
proof -
  from assms(2) obtain q where q: "OPENSSL_malloc m sz = Some q"
    and r: "r = q\<lparr>blk_data := mem_write (blk_data q) 0 (take (min (blk_size b) sz) (blk_data b))\<rparr>"
    by (auto simp: OPENSSL_realloc_def Let_def min_def split: option.splits if_splits)
  note * = OPENSSL_malloc_Some [OF assms(1) q assms(3)]
  show "blk_size r = sz" and "sz + 8 < 2 ^ 63" using * r by simp_all
  show "length (blk_data r) = sz"
    using * r assms(4) by (simp add: length_mem_write)
  show "take n (blk_data r) = take n (blk_data b)" if "n \<le> blk_size b" "n \<le> sz"
    using that * r assms(4) by (simp add: mem_write_def)
qed

lemma OPENSSL_malloc_total: "malloc_total m \<Longrightarrow> sz + 8 < 2 ^ 63 \<Longrightarrow> OPENSSL_malloc m sz \<noteq> None"
  by (auto simp: OPENSSL_malloc_def OPENSSL_MALLOC_PREFIX_def malloc_total_def size_add_no_wrap
      split: option.splits)

lemma OPENSSL_realloc_total:
  "malloc_total m \<Longrightarrow> sz + 8 < 2 ^ 63 \<Longrightarrow> OPENSSL_realloc m b sz \<noteq> None"
  using OPENSSL_malloc_total [of m sz]
  by (auto simp: OPENSSL_realloc_def Let_def split: option.splits)

section \<open>Comparison and hashing\<close>

text \<open>The loop of \<^verbatim>\<open>CRYPTO_memcmp\<close> over the first \<open>len\<close> bytes of two buffers.\<close>

definition CRYPTO_memcmp :: "bytes \<Rightarrow> bytes \<Rightarrow> nat \<Rightarrow> u8" where
  "CRYPTO_memcmp a b len = foldl (\<lambda>x i. x OR (a ! i XOR b ! i)) 0 [0..<len]"

lemma CRYPTO_memcmp_zero:
  assumes "len \<le> length a" and "len \<le> length b"
  shows "CRYPTO_memcmp a b len = 0 \<longleftrightarrow> take len a = take len b"
proof -
  have or0: "(x::u8) OR y = 0 \<longleftrightarrow> x = 0 \<and> y = 0" for x y
    by (auto simp: bit_eq_iff bit_simps)
  have xor0: "(x::u8) XOR y = 0 \<longleftrightarrow> x = y" for x y
    by (auto simp: bit_eq_iff bit_simps)
  have "foldl (\<lambda>x i. x OR (a ! i XOR b ! i)) x ys = 0 \<longleftrightarrow> x = 0 \<and> (\<forall>i\<in>set ys. a ! i = b ! i)"
    for x ys
    by (induction ys arbitrary: x) (auto simp: or0 xor0)
  then have "CRYPTO_memcmp a b len = 0 \<longleftrightarrow> (\<forall>i<len. a ! i = b ! i)"
    by (auto simp: CRYPTO_memcmp_def)
  also have "\<dots> \<longleftrightarrow> take len a = take len b"
    using assms by (auto simp: list_eq_iff_nth_eq)
  finally show ?thesis .
qed

definition OPENSSL_hash32 :: "bytes \<Rightarrow> u32" where
  "OPENSSL_hash32 inp = foldl (\<lambda>h b. (h XOR ucast b) * 16777619) 2166136261 inp"

primrec OPENSSL_strnlen_from :: "nat \<Rightarrow> nat \<Rightarrow> bytes \<Rightarrow> nat" where
  "OPENSSL_strnlen_from i 0 s = i"
| "OPENSSL_strnlen_from i (Suc n) s =
     (case s of [] \<Rightarrow> i | c # s' \<Rightarrow> if c = 0 then i else OPENSSL_strnlen_from (Suc i) n s')"

definition OPENSSL_strnlen :: "bytes \<Rightarrow> nat \<Rightarrow> nat" where
  "OPENSSL_strnlen s len = OPENSSL_strnlen_from 0 len s"

lemma OPENSSL_strnlen_from_eq:
  "OPENSSL_strnlen_from i n s = i + length (takeWhile (\<lambda>c. c \<noteq> 0) (take n s))"
  by (induction n arbitrary: i s) (auto split: list.splits)

lemma OPENSSL_strnlen_eq: "OPENSSL_strnlen s n = length (takeWhile (\<lambda>c. c \<noteq> 0) (take n s))"
  by (simp add: OPENSSL_strnlen_def OPENSSL_strnlen_from_eq)

definition OPENSSL_strdup :: "malloc \<Rightarrow> bytes \<Rightarrow> bytes option" where
  "OPENSSL_strdup m s =
     (let len = length (takeWhile (\<lambda>c. c \<noteq> 0) s) + 1 in
      case OPENSSL_malloc m len of
        None \<Rightarrow> None
      | Some ret \<Rightarrow> Some (mem_write (blk_data ret) 0 (take len (s @ [0]))))"

lemma OPENSSL_strdup_eq:
  assumes "malloc_spec m" and "OPENSSL_strdup m s = Some r" and "length s < 2 ^ 62"
  shows "r = takeWhile (\<lambda>c. c \<noteq> 0) s @ [0]"
proof -
  let ?n = "length (takeWhile (\<lambda>c. c \<noteq> 0) s)"
  have le: "?n \<le> length s" by (rule length_takeWhile_le)
  obtain b where b: "OPENSSL_malloc m (?n + 1) = Some b" and r: "r = mem_write (blk_data b) 0 (take (?n + 1) (s @ [0]))"
    using assms(2) by (auto simp: OPENSSL_strdup_def Let_def split: option.splits)
  have "?n + 1 < 2 ^ 64 - 8" using le assms(3) by simp
  from OPENSSL_malloc_Some(2) [OF assms(1) b this] have "length (blk_data b) = ?n + 1" .
  moreover have "take (?n + 1) (s @ [0]) = takeWhile (\<lambda>c. c \<noteq> 0) s @ [0]"
    by (induction s) auto
  ultimately show ?thesis by (simp add: r mem_write_def)
qed

section \<open>Case-insensitive comparison\<close>

definition OPENSSL_tolower :: "int \<Rightarrow> int" where
  "OPENSSL_tolower c = (if 65 \<le> c \<and> c \<le> 90 then c + (97 - 65) else c)"

text \<open>\<^verbatim>\<open>char\<close> is signed: a byte is read as two's complement.\<close>

definition c_char :: "bytes \<Rightarrow> int" where
  "c_char s = (case s of [] \<Rightarrow> 0 | c # _ \<Rightarrow> sint c)"

function OPENSSL_strcasecmp :: "bytes \<Rightarrow> bytes \<Rightarrow> int" where
  "OPENSSL_strcasecmp a b =
     (let aa = OPENSSL_tolower (c_char a); bb = OPENSSL_tolower (c_char b)
      in if aa < bb then -1 else if aa > bb then 1 else if aa = 0 then 0
         else OPENSSL_strcasecmp (tl a) (tl b))"
  by pat_completeness auto
termination
  by (relation "measure (\<lambda>(a, b). length a)")
    (auto simp: c_char_def OPENSSL_tolower_def split: list.splits if_splits)

declare OPENSSL_strcasecmp.simps [simp del]

primrec OPENSSL_strncasecmp :: "nat \<Rightarrow> bytes \<Rightarrow> bytes \<Rightarrow> int" where
  "OPENSSL_strncasecmp 0 a b = 0"
| "OPENSSL_strncasecmp (Suc n) a b =
     (let aa = OPENSSL_tolower (c_char a); bb = OPENSSL_tolower (c_char b)
      in if aa < bb then -1 else if aa > bb then 1 else if aa = 0 then 0
         else OPENSSL_strncasecmp n (tl a) (tl b))"

text \<open>The contents of a C string, lower-cased: what the comparisons compare.\<close>

definition folded :: "bytes \<Rightarrow> int list" where
  "folded s = map (\<lambda>c. OPENSSL_tolower (sint c)) (takeWhile (\<lambda>c. c \<noteq> 0) s)"

lemma sint_eq_0_iff [simp]: "sint (c::u8) = 0 \<longleftrightarrow> c = 0"
  by (metis signed_0 signed_eq_0_iff)

lemma OPENSSL_tolower_0 [simp]:
  "OPENSSL_tolower c = 0 \<longleftrightarrow> c = 0"
  "0 = OPENSSL_tolower c \<longleftrightarrow> c = 0"
  "OPENSSL_tolower 0 = 0"
  by (auto simp: OPENSSL_tolower_def)

lemma folded_step:
  "OPENSSL_tolower (c_char s) = 0 \<Longrightarrow> folded s = []"
  "OPENSSL_tolower (c_char s) \<noteq> 0 \<Longrightarrow> folded s = OPENSSL_tolower (c_char s) # folded (tl s)"
  by (cases s; simp add: folded_def c_char_def)+

lemma OPENSSL_strcasecmp_0: "OPENSSL_strcasecmp a b = 0 \<longleftrightarrow> folded a = folded b"
proof (induction a b rule: OPENSSL_strcasecmp.induct)
  case (1 a b)
  let ?a = "OPENSSL_tolower (c_char a)" and ?b = "OPENSSL_tolower (c_char b)"
  consider "?a = ?b" "?a = 0" | "?a = ?b" "?a \<noteq> 0" | "?a \<noteq> ?b" by blast
  then show ?case
  proof cases
    case 1
    then show ?thesis
      using folded_step(1) [of a] folded_step(1) [of b] by (subst OPENSSL_strcasecmp.simps) simp
  next
    case 2
    then have "OPENSSL_strcasecmp a b = OPENSSL_strcasecmp (tl a) (tl b)"
      by (subst OPENSSL_strcasecmp.simps) simp
    with 2 show ?thesis
      using "1.IH" [OF refl refl] folded_step(2) [of a] folded_step(2) [of b] by simp
  next
    case 3
    then have "OPENSSL_strcasecmp a b \<noteq> 0" by (subst OPENSSL_strcasecmp.simps) (simp add: Let_def)
    moreover have "folded a \<noteq> folded b"
      using 3 folded_step [of a] folded_step [of b] by (metis list.inject list.distinct(1))
    ultimately show ?thesis by simp
  qed
qed

lemma OPENSSL_strncasecmp_0: "OPENSSL_strncasecmp n a b = 0 \<longleftrightarrow> take n (folded a) = take n (folded b)"
proof (induction n arbitrary: a b)
  case (Suc n)
  let ?a = "OPENSSL_tolower (c_char a)" and ?b = "OPENSSL_tolower (c_char b)"
  show ?case
    using folded_step [of a] folded_step [of b]
    by (cases "?a = 0"; cases "?b = 0") (auto simp: Let_def Suc.IH)
qed simp

section \<open>Properties\<close>

text \<open>The comparison of \<^verbatim>\<open>CRYPTO_memcmp\<close>, which never branches on the data, returns zero exactly when the two
  memory areas hold the same bytes.
\<close>

theorem memcmp_decides_equality:
  "CRYPTO_memcmp a b (min (length a) (length b)) = 0 \<longleftrightarrow> (\<exists>rest. a = b @ rest \<or> b = a @ rest)"
proof -
  have "take (min (length a) (length b)) a = take (min (length a) (length b)) b \<longleftrightarrow>
      (\<exists>rest. a = b @ rest \<or> b = a @ rest)"
    by (cases "length a \<le> length b") (auto simp: min_def, (metis append_take_drop_id)+)
  then show ?thesis by (simp add: CRYPTO_memcmp_zero)
qed

text \<open>\<^verbatim>\<open>OPENSSL_strcasecmp\<close> and \<^verbatim>\<open>OPENSSL_strncasecmp\<close> return 0 exactly for strings that agree up to the case of ASCII
  letters (within the first \<^verbatim>\<open>n\<close> characters for the bounded one); bytes above 127, negative as \<^verbatim>\<open>char\<close>,
  are compared as they are.
\<close>

theorem strcasecmp_decides_folded_equality:
  "(OPENSSL_strcasecmp a b = 0 \<longleftrightarrow> folded a = folded b) \<and>
   (OPENSSL_strncasecmp n a b = 0 \<longleftrightarrow> take n (folded a) = take n (folded b))"
  by (simp add: OPENSSL_strcasecmp_0 OPENSSL_strncasecmp_0)

end
