(* ===== verification/Buf.thy ===== *)
theory Buf
  imports Mem
begin

text \<open>
  \<^verbatim>\<open>BoringSSL/crypto/buf/buf.c\<close>: the growable \<^verbatim>\<open>BUF_MEM\<close> with its over-allocation, and the
  bounded string operations.  \<open>buf_ok\<close> is the invariant that relates the three fields;
  \<open>buf_contents\<close> is the byte string a buffer stands for.
\<close>

section \<open>BUF\_MEM\<close>

record buf_mem =
  bm_length :: nat
  bm_data :: bytes
  bm_max :: nat

definition BUF_MEM_new :: "malloc \<Rightarrow> buf_mem option" where
  "BUF_MEM_new m =
     (case OPENSSL_malloc m 24 of
        None \<Rightarrow> None
      | Some _ \<Rightarrow> Some \<lparr>bm_length = 0, bm_data = [], bm_max = 0\<rparr>)"

definition BUF_MEM_reserve :: "malloc \<Rightarrow> buf_mem \<Rightarrow> nat \<Rightarrow> bool \<times> buf_mem" where
  "BUF_MEM_reserve m buf cap =
     (if bm_max buf \<ge> cap then (True, buf)
      else let n = size_add cap 3 in
        if n < cap then (False, buf)
        else let n = n div 3; alloc_size = size_mul n 4 in
          if alloc_size div 4 \<noteq> n then (False, buf)
          else case OPENSSL_realloc m (Some \<lparr>blk_size = bm_max buf, blk_data = bm_data buf\<rparr>) alloc_size of
              None \<Rightarrow> (False, buf)
            | Some new_buf \<Rightarrow> (True, buf\<lparr>bm_data := blk_data new_buf, bm_max := alloc_size\<rparr>))"

definition BUF_MEM_grow :: "malloc \<Rightarrow> buf_mem \<Rightarrow> nat \<Rightarrow> nat \<times> buf_mem" where
  "BUF_MEM_grow m buf len =
     (case BUF_MEM_reserve m buf len of
        (False, buf) \<Rightarrow> (0, buf)
      | (True, buf) \<Rightarrow>
          (let buf = (if bm_length buf < len
                      then buf\<lparr>bm_data := mem_write (bm_data buf) (bm_length buf)
                                 (replicate (len - bm_length buf) 0)\<rparr>
                      else buf)
           in (len, buf\<lparr>bm_length := len\<rparr>)))"

definition BUF_MEM_grow_clean :: "malloc \<Rightarrow> buf_mem \<Rightarrow> nat \<Rightarrow> nat \<times> buf_mem" where
  "BUF_MEM_grow_clean m buf len = BUF_MEM_grow m buf len"

definition BUF_MEM_append :: "malloc \<Rightarrow> buf_mem \<Rightarrow> bytes \<Rightarrow> bool \<times> buf_mem" where
  "BUF_MEM_append m buf inp =
     (let len = length inp; new_len = size_add (bm_length buf) len in
      if new_len < len then (False, buf)
      else case BUF_MEM_reserve m buf new_len of
          (False, buf) \<Rightarrow> (False, buf)
        | (True, buf) \<Rightarrow>
            (True, buf\<lparr>bm_data := mem_write (bm_data buf) (bm_length buf) inp, bm_length := new_len\<rparr>))"

definition buf_ok :: "buf_mem \<Rightarrow> bool" where
  "buf_ok b \<longleftrightarrow> bm_length b \<le> bm_max b \<and> length (bm_data b) = bm_max b \<and> bm_max b < 2 ^ 63"

definition buf_contents :: "buf_mem \<Rightarrow> bytes" where
  "buf_contents b = take (bm_length b) (bm_data b)"

lemma BUF_MEM_new_ok: "BUF_MEM_new m = Some b \<Longrightarrow> buf_ok b \<and> buf_contents b = []"
  by (auto simp: BUF_MEM_new_def buf_ok_def buf_contents_def split: option.splits)

text \<open>The 4/3 over-allocation is at least the capacity asked for.\<close>

lemma four_thirds_enough: "(cap::nat) \<le> (cap + 3) div 3 * 4"
  by linarith

text \<open>
  All capacities.  The checks of \<^verbatim>\<open>BUF_MEM_reserve\<close> refuse those from \<open>3 * 2 ^ 62 - 3\<close> on.  Just below, for
  six capacities, the rounded size is \<open>2 ^ 64 - 8\<close> or \<open>2 ^ 64 - 4\<close>: it passes both checks, but the size prefix,
  which \<^verbatim>\<open>OPENSSL_malloc\<close> adds without a check, wraps it around to a request for no byte or for four.
\<close>

definition reserve_limit :: nat where
  "reserve_limit = 3 * 2 ^ 62 - 9"

lemma four_thirds_cases:
  assumes "cap < 2 ^ 64"
  shows "(cap + 3) div 3 * 4 < 2 ^ 64 - 8 \<longleftrightarrow> cap < reserve_limit"
    and "cap + 3 < 2 ^ 64 \<and> (cap + 3) div 3 < 2 ^ 62 \<longleftrightarrow> cap < reserve_limit + 6"
    and "reserve_limit \<le> cap \<Longrightarrow> cap < reserve_limit + 6 \<Longrightarrow>
      (cap + 3) div 3 * 4 = (if cap < reserve_limit + 3 then 2 ^ 64 - 8 else 2 ^ 64 - 4)"
proof -
  show "(cap + 3) div 3 * 4 < 2 ^ 64 - 8 \<longleftrightarrow> cap < reserve_limit"
    by (simp add: reserve_limit_def) linarith
  show "cap + 3 < 2 ^ 64 \<and> (cap + 3) div 3 < 2 ^ 62 \<longleftrightarrow> cap < reserve_limit + 6"
    by (simp add: reserve_limit_def) linarith
  show "(cap + 3) div 3 * 4 = (if cap < reserve_limit + 3 then 2 ^ 64 - 8 else 2 ^ 64 - 4)"
    if "reserve_limit \<le> cap" "cap < reserve_limit + 6"
    using that by (simp add: reserve_limit_def) linarith
qed

lemma BUF_MEM_reserve_eq:
  assumes "cap < 2 ^ 64"
  shows "BUF_MEM_reserve m b cap =
    (if cap \<le> bm_max b then (True, b)
     else if reserve_limit + 6 \<le> cap then (False, b)
     else case OPENSSL_realloc m (Some \<lparr>blk_size = bm_max b, blk_data = bm_data b\<rparr>) ((cap + 3) div 3 * 4) of
         None \<Rightarrow> (False, b)
       | Some q \<Rightarrow> (True, b\<lparr>bm_data := blk_data q, bm_max := (cap + 3) div 3 * 4\<rparr>))"
proof -
  let ?n = "(cap + 3) div 3"
  have wrap: "size_add cap 3 < cap \<longleftrightarrow> \<not> cap + 3 < 2 ^ 64"
    using size_add_wraps [of cap 3] assms by auto
  show ?thesis
  proof (cases "cap + 3 < 2 ^ 64 \<and> ?n < 2 ^ 62")
    case True
    then have "size_add cap 3 = cap + 3" "size_mul ?n 4 = ?n * 4" by (simp_all add: size_add_no_wrap size_mul_def)
    moreover from True have "\<not> reserve_limit + 6 \<le> cap" using four_thirds_cases(2) [OF assms] by simp
    ultimately show ?thesis by (simp add: BUF_MEM_reserve_def Let_def split: option.splits)
  next
    case False
    then have "reserve_limit + 6 \<le> cap" using four_thirds_cases(2) [OF assms] by (simp only: not_less)
    moreover have "size_mul ?n 4 div 4 \<noteq> ?n" if "cap + 3 < 2 ^ 64"
    proof -
      have "size_mul ?n 4 div 4 < 2 ^ 62" by (simp add: size_mul_def less_mult_imp_div_less)
      with that False show ?thesis by auto
    qed
    ultimately show ?thesis
      using wrap by (cases "cap + 3 < 2 ^ 64") (simp_all add: BUF_MEM_reserve_def Let_def size_add_no_wrap)
  qed
qed

lemma BUF_MEM_reserve_below:
  assumes "malloc_spec m" and "buf_ok b" and "cap < reserve_limit" and "BUF_MEM_reserve m b cap = (r, b')"
  shows "buf_ok b' \<and> buf_contents b' = buf_contents b \<and> bm_length b' = bm_length b \<and> (r \<longrightarrow> cap \<le> bm_max b')"
proof -
  let ?sz = "(cap + 3) div 3 * 4" and ?o = "Some \<lparr>blk_size = bm_max b, blk_data = bm_data b\<rparr>"
  have cap: "cap < 2 ^ 64" using assms(3) by (simp add: reserve_limit_def)
  have small: "?sz < 2 ^ 64 - 8" using four_thirds_cases(1) [OF cap] assms(3) by simp
  note eq = BUF_MEM_reserve_eq [OF cap, of m b]
  show ?thesis
  proof (cases "cap \<le> bm_max b \<or> OPENSSL_realloc m ?o ?sz = None")
    case True
    then have "b' = b" "r \<longrightarrow> cap \<le> bm_max b" using assms(3,4) eq by (auto split: if_splits)
    with assms(2) show ?thesis by simp
  next
    case False
    then obtain q where "OPENSSL_realloc m ?o ?sz = Some q" by auto
    note q = this OPENSSL_realloc_Some [OF assms(1) this small]
    have b': "b' = b\<lparr>bm_data := blk_data q, bm_max := ?sz\<rparr>" using False q(1) assms(3,4) eq by simp
    have "bm_length b \<le> ?sz"
      using assms(2) False four_thirds_enough [of cap] unfolding buf_ok_def by linarith
    with q(2-) assms(2) four_thirds_enough [of cap] show ?thesis
      by (auto simp: b' buf_ok_def buf_contents_def)
  qed
qed

lemma BUF_MEM_reserve_ok:
  assumes "malloc_spec m" and "buf_ok b" and "cap < 2 ^ 63" and "BUF_MEM_reserve m b cap = (r, b')"
  shows "buf_ok b'" and "buf_contents b' = buf_contents b" and "bm_length b' = bm_length b"
    and "r \<Longrightarrow> cap \<le> bm_max b'"
proof -
  have "cap < reserve_limit" using assms(3) by (simp add: reserve_limit_def)
  from BUF_MEM_reserve_below [OF assms(1,2) this assms(4)]
  show "buf_ok b'" and "buf_contents b' = buf_contents b" and "bm_length b' = bm_length b"
    and "r \<Longrightarrow> cap \<le> bm_max b'" by simp_all
qed

lemma BUF_MEM_reserve_gap:
  assumes "buf_ok b" and "reserve_limit \<le> cap" and "cap < reserve_limit + 6"
    and "BUF_MEM_reserve m b cap = (r, b')"
  shows "r \<longleftrightarrow> m (if cap < reserve_limit + 3 then 0 else 4) \<noteq> None"
    and "if r then 2 ^ 64 - 8 \<le> bm_max b' else b' = b"
proof -
  let ?sz = "(cap + 3) div 3 * 4" and ?o = "Some \<lparr>blk_size = bm_max b, blk_data = bm_data b\<rparr>"
  have cap: "cap < 2 ^ 64" using assms(3) by (simp add: reserve_limit_def)
  note sz = four_thirds_cases(3) [OF cap assms(2,3)]
  have "size_add ?sz 8 = (if cap < reserve_limit + 3 then 0 else 4)" by (simp add: sz size_add_def)
  then have fails: "OPENSSL_realloc m ?o ?sz = None \<longleftrightarrow> m (if cap < reserve_limit + 3 then 0 else 4) = None"
    by (simp add: OPENSSL_realloc_def OPENSSL_malloc_def OPENSSL_MALLOC_PREFIX_def Let_def split: option.splits)
  have "\<not> cap \<le> bm_max b" using assms(1,2) by (simp add: buf_ok_def reserve_limit_def)
  then have "(r, b') = (case OPENSSL_realloc m ?o ?sz of None \<Rightarrow> (False, b)
      | Some q \<Rightarrow> (True, b\<lparr>bm_data := blk_data q, bm_max := ?sz\<rparr>))"
    using BUF_MEM_reserve_eq [OF cap, of m b] assms(3,4) by simp
  moreover have "2 ^ 64 - 8 \<le> ?sz" by (simp add: sz)
  ultimately show "r \<longleftrightarrow> m (if cap < reserve_limit + 3 then 0 else 4) \<noteq> None"
    and "if r then 2 ^ 64 - 8 \<le> bm_max b' else b' = b"
    using fails by (auto split: option.splits)
qed

lemma BUF_MEM_grow_ok:
  assumes "malloc_spec m" and "buf_ok b" and "len < 2 ^ 63" and "BUF_MEM_grow m b len = (r, b')"
  shows "buf_ok b'"
    and "r = 0 \<and> len \<noteq> 0 \<Longrightarrow> buf_contents b' = buf_contents b"
    and "r = len \<and> len \<noteq> 0 \<Longrightarrow>
      buf_contents b' = take len (buf_contents b) @ replicate (len - bm_length b) 0"
proof -
  obtain ok b1 where r1: "BUF_MEM_reserve m b len = (ok, b1)" by fastforce
  note b1 = BUF_MEM_reserve_ok [OF assms(1-3) r1]
  have shrink: "take len (bm_data b1) = take len (buf_contents b)" if "len \<le> bm_length b"
    using that b1(2,3) by (metis buf_contents_def min.absorb1 take_take)
  have "buf_ok b' \<and> (r = 0 \<and> len \<noteq> 0 \<longrightarrow> buf_contents b' = buf_contents b)
    \<and> (r = len \<and> len \<noteq> 0 \<longrightarrow> buf_contents b' = take len (buf_contents b) @ replicate (len - bm_length b) 0)"
    using assms(2,4) b1 shrink
    by (cases ok)
      (auto simp: BUF_MEM_grow_def Let_def r1 buf_ok_def buf_contents_def
        mem_write_def min_def split: if_splits)
  then show "buf_ok b'"
    and "r = 0 \<and> len \<noteq> 0 \<Longrightarrow> buf_contents b' = buf_contents b"
    and "r = len \<and> len \<noteq> 0 \<Longrightarrow>
      buf_contents b' = take len (buf_contents b) @ replicate (len - bm_length b) 0" by simp_all
qed

lemma BUF_MEM_append_ok:
  assumes "malloc_spec m" and "buf_ok b" and "bm_length b + length inp < 2 ^ 63"
    and "BUF_MEM_append m b inp = (r, b')"
  shows "buf_ok b'" and "buf_contents b' = buf_contents b @ (if r then inp else [])"
proof -
  have len: "size_add (bm_length b) (length inp) = bm_length b + length inp"
    using assms(3) by (simp add: size_add_no_wrap)
  obtain ok b1 where r1: "BUF_MEM_reserve m b (bm_length b + length inp) = (ok, b1)" by fastforce
  note b1 = BUF_MEM_reserve_ok [OF assms(1-3) r1]
  have "buf_ok b' \<and> buf_contents b' = buf_contents b @ (if r then inp else [])"
    using assms(4) b1 assms(2)
    by (cases ok) (auto simp: BUF_MEM_append_def Let_def len r1 buf_ok_def buf_contents_def
        length_mem_write)
  then show "buf_ok b'" and "buf_contents b' = buf_contents b @ (if r then inp else [])" by simp_all
qed

section \<open>Strings\<close>

definition BUF_strnlen :: "bytes \<Rightarrow> nat \<Rightarrow> nat" where
  "BUF_strnlen str max_len = OPENSSL_strnlen_from 0 max_len str"

definition BUF_strndup :: "malloc \<Rightarrow> bytes \<Rightarrow> nat \<Rightarrow> bytes option" where
  "BUF_strndup m str sz =
     (let sz = BUF_strnlen str sz; alloc_size = size_add sz 1 in
      if alloc_size < sz then None
      else case OPENSSL_malloc m alloc_size of
          None \<Rightarrow> None
        | Some ret \<Rightarrow> Some ((mem_write (blk_data ret) 0 (take sz str))[sz := 0]))"

definition c_string :: "bytes \<Rightarrow> bytes" where
  "c_string s = takeWhile (\<lambda>c. c \<noteq> 0) s"

definition BUF_strdup :: "malloc \<Rightarrow> bytes \<Rightarrow> bytes option" where
  "BUF_strdup m str = BUF_strndup m str (length (c_string str))"

definition BUF_memdup :: "malloc \<Rightarrow> bytes \<Rightarrow> nat \<Rightarrow> bytes option" where
  "BUF_memdup m data sz =
     (if sz = 0 then None
      else case OPENSSL_malloc m sz of
          None \<Rightarrow> None
        | Some ret \<Rightarrow> Some (mem_write (blk_data ret) 0 (take sz data)))"

function BUF_strlcpy_from :: "nat \<Rightarrow> nat \<Rightarrow> bytes \<Rightarrow> bytes \<Rightarrow> nat \<Rightarrow> nat \<times> bytes" where
  "BUF_strlcpy_from l i dst src dst_size =
     (if dst_size > 1 \<and> src \<noteq> [] \<and> hd src \<noteq> 0
      then BUF_strlcpy_from (Suc l) (Suc i) (dst[i := hd src]) (tl src) (dst_size - 1)
      else (l + length (c_string src), if dst_size \<noteq> 0 then dst[i := 0] else dst))"
  by pat_completeness auto
termination
  by (relation "measure (\<lambda>(l, i, dst, src, n). n)") auto

declare BUF_strlcpy_from.simps [simp del]

definition BUF_strlcpy :: "bytes \<Rightarrow> bytes \<Rightarrow> nat \<Rightarrow> nat \<times> bytes" where
  "BUF_strlcpy dst src dst_size = BUF_strlcpy_from 0 0 dst src dst_size"

primrec BUF_strlcat_from :: "nat \<Rightarrow> nat \<Rightarrow> bytes \<Rightarrow> bytes \<Rightarrow> nat \<times> bytes" where
  "BUF_strlcat_from 0 i dst src =
     (let (r, dst) = BUF_strlcpy_from 0 i dst src 0 in (i + r, dst))"
| "BUF_strlcat_from (Suc n) i dst src =
     (if dst ! i \<noteq> 0 then BUF_strlcat_from n (Suc i) dst src
      else let (r, dst) = BUF_strlcpy_from 0 i dst src (Suc n) in (i + r, dst))"

definition BUF_strlcat :: "bytes \<Rightarrow> bytes \<Rightarrow> nat \<Rightarrow> nat \<times> bytes" where
  "BUF_strlcat dst src dst_size = BUF_strlcat_from dst_size 0 dst src"

lemma BUF_strlcpy_from_spec:
  assumes "i + dst_size \<le> length dst" and "0 < dst_size"
  shows "BUF_strlcpy_from l i dst src dst_size =
    (l + length (c_string src), mem_write dst i (take (dst_size - 1) (c_string src) @ [0]))"
  using assms
proof (induction l i dst src dst_size rule: BUF_strlcpy_from.induct)
  case (1 l i dst src dst_size)
  show ?case
  proof (cases "dst_size > 1 \<and> src \<noteq> [] \<and> hd src \<noteq> 0")
    case True
    then obtain c cs where src: "src = c # cs" "c \<noteq> 0" by (cases src) auto
    obtain k where k: "dst_size = Suc (Suc k)" using True by (cases dst_size; cases "dst_size - 1") auto
    have "mem_write (dst[i := c]) (Suc i) (take k (c_string cs) @ [0])
        = mem_write dst i (c # take k (c_string cs) @ [0])"
      using "1.prems" k by (simp add: mem_write_def take_Suc_conv_app_nth list_update_append
          upd_conv_take_nth_drop add.commute)
    with True 1 src k show ?thesis
      by (subst BUF_strlcpy_from.simps) (simp add: c_string_def)
  next
    case False
    with "1.prems" have *: "take (dst_size - 1) (c_string src) = []"
      by (cases src) (auto simp: c_string_def)
    have "BUF_strlcpy_from l i dst src dst_size = (l + length (c_string src), dst[i := 0])"
      by (subst BUF_strlcpy_from.simps) (use False "1.prems"(2) in \<open>simp only: if_False if_True neq0_conv simp_thms\<close>)
    with "1.prems" show ?thesis
      unfolding * by (simp add: mem_write_def upd_conv_take_nth_drop)
  qed
qed

lemma BUF_strlcpy_zero: "BUF_strlcpy_from l i dst src 0 = (l + length (c_string src), dst)"
  by (subst BUF_strlcpy_from.simps) simp

lemma BUF_strlcpy_spec:
  assumes "dst_size \<le> length dst" and "0 < dst_size"
  shows "BUF_strlcpy dst src dst_size =
    (length (c_string src), mem_write dst 0 (take (dst_size - 1) (c_string src) @ [0]))"
  using assms by (simp add: BUF_strlcpy_def BUF_strlcpy_from_spec)

lemma BUF_strlcat_from_spec:
  assumes "i + n \<le> length dst" and "k < n" and "\<forall>j<k. dst ! (i + j) \<noteq> 0" and "dst ! (i + k) = 0"
  shows "BUF_strlcat_from n i dst src =
    (i + k + length (c_string src), mem_write dst (i + k) (take (n - k - 1) (c_string src) @ [0]))"
  using assms
proof (induction n arbitrary: i k)
  case (Suc n)
  show ?case
  proof (cases k)
    case 0
    with Suc.prems show ?thesis by (simp add: BUF_strlcpy_from_spec)
  next
    case (Suc k')
    have "dst ! i \<noteq> 0" using Suc.prems(3) Suc by force
    moreover have "\<forall>j<k'. dst ! (Suc i + j) \<noteq> 0" using Suc.prems(3) Suc
      by (metis Suc_less_eq add_Suc_right add_Suc)
    ultimately show ?thesis using Suc.IH [of "Suc i" k'] Suc.prems Suc by simp
  qed
qed simp

section \<open>Properties\<close>

lemma BUF_MEM_append_total:
  assumes "malloc_total m" and "bm_length b + length inp \<le> 2 ^ 61"
  shows "fst (BUF_MEM_append m b inp)"
proof -
  let ?n = "bm_length b + length inp"
  have n: "?n < 2 ^ 63" using assms(2) by (rule le_less_trans) simp
  then have len: "size_add (bm_length b) (length inp) = ?n" by (simp add: size_add_no_wrap)
  have "(?n + 3) div 3 * 4 + 8 < 2 ^ 63" using assms(2) by simp
  then have "OPENSSL_realloc m (Some \<lparr>blk_size = bm_max b, blk_data = bm_data b\<rparr>) ((?n + 3) div 3 * 4) \<noteq> None"
    by (rule OPENSSL_realloc_total [OF assms(1)])
  then have "fst (BUF_MEM_reserve m b ?n)"
    using n by (auto simp: BUF_MEM_reserve_def Let_def size_add_no_wrap size_mul_def)
  then show ?thesis
    by (cases "BUF_MEM_reserve m b ?n") (simp add: BUF_MEM_append_def Let_def len split: bool.splits)
qed

text \<open>A sequence of appends; the results say which of them succeeded.\<close>

primrec append_all :: "malloc \<Rightarrow> buf_mem \<Rightarrow> bytes list \<Rightarrow> bool list \<times> buf_mem" where
  "append_all m b [] = ([], b)"
| "append_all m b (inp # inps) =
     (case BUF_MEM_append m b inp of (r, b) \<Rightarrow>
        case append_all m b inps of (rs, b) \<Rightarrow> (r # rs, b))"

lemma append_all_contents:
  assumes "malloc_spec m" and "buf_ok b" and "bm_length b + length (concat inps) < 2 ^ 63"
    and "append_all m b inps = (rs, b')"
  shows "buf_ok b' \<and> length rs = length inps \<and>
    buf_contents b' = buf_contents b @ concat (map snd (filter fst (zip rs inps)))"
  using assms(2-)
proof (induction inps arbitrary: b rs)
  case (Cons inp inps)
  obtain r b1 where a: "BUF_MEM_append m b inp = (r, b1)" by fastforce
  obtain rs1 where as: "append_all m b1 inps = (rs1, b')" and rs: "rs = r # rs1"
    using Cons.prems(3) a by (auto split: prod.splits)
  have fit: "bm_length b + length inp < 2 ^ 63" using Cons.prems(2) by simp
  note A = BUF_MEM_append_ok [OF assms(1) Cons.prems(1) fit a]
  have "bm_length b1 = length (buf_contents b1)" "bm_length b = length (buf_contents b)"
    using A(1) Cons.prems(1) by (simp_all add: buf_ok_def buf_contents_def)
  with A(2) Cons.prems(2) have "bm_length b1 + length (concat inps) < 2 ^ 63"
    by (auto split: if_splits)
  from Cons.IH [OF A(1) this as] A(2) rs show ?case by simp
qed simp

text \<open>C33.
  Any sequence of \<^verbatim>\<open>BUF_MEM_append\<close> calls on a fresh buffer keeps the buffer's invariant, and its contents are the
  concatenation of exactly the inputs whose call succeeded, whichever allocations fail.
\<close>

theorem appends_accumulate:
  assumes "malloc_spec m" and "BUF_MEM_new m = Some b" and "length (concat inps) < 2 ^ 63"
    and "append_all m b inps = (rs, b')"
  shows "buf_ok b' \<and> buf_contents b' = concat (map snd (filter fst (zip rs inps)))"
proof -
  have "buf_ok b" "buf_contents b = []" "bm_length b = 0"
    using BUF_MEM_new_ok [OF assms(2)] assms(2) by (auto simp: BUF_MEM_new_def split: option.splits)
  with append_all_contents [OF assms(1) _ _ assms(4)] assms(3) show ?thesis by simp
qed

lemma appends_accumulate_witness:
  "\<exists>b rs b'. BUF_MEM_new zero_malloc = Some b \<and> append_all zero_malloc b [[1, 2], [3]] = (rs, b') \<and>
     buf_contents b' = concat (map snd (filter fst (zip rs [[1, 2], [3]])))"
proof -
  obtain b where b: "BUF_MEM_new zero_malloc = Some b"
    by (simp add: BUF_MEM_new_def OPENSSL_malloc_def OPENSSL_MALLOC_PREFIX_def zero_malloc_def size_add_def)
  obtain rs b' where a: "append_all zero_malloc b [[1, 2], [3]] = (rs, b')" by fastforce
  from appends_accumulate [OF malloc_zero_malloc(1) b _ a] b a show ?thesis by auto
qed

text \<open>\<^verbatim>\<open>BUF_MEM_append\<close> succeeds, and the contents are extended by the input, whenever the allocator has memory and the
  new length is at most 2^61.
\<close>

theorem append_succeeds:
  assumes "malloc_spec m" and "malloc_total m" and "buf_ok b" and "bm_length b + length inp \<le> 2 ^ 61"
  shows "\<exists>b'. BUF_MEM_append m b inp = (True, b') \<and> buf_ok b' \<and> buf_contents b' = buf_contents b @ inp"
proof -
  have n: "bm_length b + length inp < 2 ^ 63" using assms(4) by (rule le_less_trans) simp
  obtain b' where a: "BUF_MEM_append m b inp = (True, b')"
    using BUF_MEM_append_total [OF assms(2,4)] by (cases "BUF_MEM_append m b inp") auto
  from BUF_MEM_append_ok [OF assms(1,3) n a] a show ?thesis by auto
qed

lemma append_succeeds_witness:
  "\<exists>b'. BUF_MEM_append zero_malloc \<lparr>bm_length = 0, bm_data = [], bm_max = 0\<rparr> [7] = (True, b') \<and>
     buf_contents b' = [7]"
  using append_succeeds [of zero_malloc "\<lparr>bm_length = 0, bm_data = [], bm_max = 0\<rparr>" "[7]"]
  by (auto simp: buf_ok_def buf_contents_def)

text \<open>C34.
  What \<^verbatim>\<open>BUF_MEM_reserve\<close> does for every capacity a \<^verbatim>\<open>size_t\<close> can hold, every allocator and every buffer that satisfies the invariant.
  Below 3 * 2^62 - 9 the invariant and the contents are kept, and success means that the capacity is there.  From 3 * 2^62 - 3 on it
  fails and changes nothing.  For the six capacities in between it is unsound: it asks \<^verbatim>\<open>malloc\<close> for no byte at all or for four, since the size
  prefix of \<^verbatim>\<open>OPENSSL_malloc\<close> wraps around, and if it gets them it reports success, with a \<^verbatim>\<open>max\<close> of at least 2^64 - 8.
\<close>

theorem reserve_bounds:
  assumes "malloc_spec m" and "buf_ok b" and "cap < 2 ^ 64" and "BUF_MEM_reserve m b cap = (r, b')"
  shows "if cap < 3 * 2 ^ 62 - 9
    then buf_ok b' \<and> buf_contents b' = buf_contents b \<and> bm_length b' = bm_length b \<and> (r \<longrightarrow> cap \<le> bm_max b')
    else if cap < 3 * 2 ^ 62 - 3
    then (r \<longleftrightarrow> m (if cap < 3 * 2 ^ 62 - 6 then 0 else 4) \<noteq> None) \<and> (if r then 2 ^ 64 - 8 \<le> bm_max b' else b' = b)
    else \<not> r \<and> b' = b"
proof -
  consider (small) "cap < reserve_limit" | (gap) "reserve_limit \<le> cap" "cap < reserve_limit + 6" | (big) "reserve_limit + 6 \<le> cap"
    by linarith
  then show ?thesis
  proof cases
    case small
    from BUF_MEM_reserve_below [OF assms(1,2) small assms(4)] small show ?thesis by (simp add: reserve_limit_def)
  next
    case gap
    from BUF_MEM_reserve_gap [OF assms(2) gap assms(4)] gap show ?thesis by (simp add: reserve_limit_def)
  next
    case big
    have "\<not> cap \<le> bm_max b" using big assms(2) by (simp add: buf_ok_def reserve_limit_def)
    with BUF_MEM_reserve_eq [OF assms(3), of m b] big assms(4) have "\<not> r \<and> b' = b" by auto
    then show ?thesis using big by (simp add: reserve_limit_def)
  qed
qed

lemma reserve_bounds_witness:
  "\<exists>b'. BUF_MEM_reserve zero_malloc \<lparr>bm_length = 0, bm_data = [], bm_max = 0\<rparr> (3 * 2 ^ 62 - 6) = (True, b') \<and>
     2 ^ 64 - 8 \<le> bm_max b'"
proof -
  let ?b = "\<lparr>bm_length = 0, bm_data = [], bm_max = 0\<rparr>"
  obtain r b' where r: "BUF_MEM_reserve zero_malloc ?b (3 * 2 ^ 62 - 6) = (r, b')" by fastforce
  have "buf_ok ?b" by (simp add: buf_ok_def)
  from reserve_bounds [OF malloc_zero_malloc(1) this _ r] have "r \<and> 2 ^ 64 - 8 \<le> bm_max b'"
    by (simp add: zero_malloc_def split: if_splits)
  with r show ?thesis by auto
qed

text \<open>\<^verbatim>\<open>BUF_strlcat\<close> on a destination that holds a terminated string within its size appends as much of the source as fits, always
  terminates the result within the size, leaves the rest of the memory alone and returns the length it tried to make.
\<close>

theorem strlcat_appends:
  assumes "dst_size \<le> length dst" and "length (c_string dst) < dst_size"
  shows "BUF_strlcat dst src dst_size =
    (length (c_string dst) + length (c_string src),
     c_string dst @ take (dst_size - length (c_string dst) - 1) (c_string src) @ [0] @
       drop (length (c_string dst) + length (take (dst_size - length (c_string dst) - 1) (c_string src)) + 1) dst)"
proof -
  let ?k = "length (c_string dst)"
  have k: "?k < length dst" using assms by linarith
  have "dst ! j \<noteq> 0" if "j < ?k" for j
  proof -
    have "c_string dst ! j \<noteq> 0" using nth_mem [OF that] unfolding c_string_def by (rule set_takeWhileD [THEN conjunct2])
    moreover have "c_string dst ! j = dst ! j" using that unfolding c_string_def by (rule takeWhile_nth)
    ultimately show ?thesis by simp
  qed
  moreover have "dst ! ?k = 0"
    using nth_length_takeWhile [of "\<lambda>c. c \<noteq> 0" dst] k by (simp add: c_string_def)
  ultimately have "BUF_strlcat dst src dst_size = (?k + length (c_string src),
      mem_write dst ?k (take (dst_size - ?k - 1) (c_string src) @ [0]))"
    using BUF_strlcat_from_spec [of 0 dst_size dst ?k src] assms by (simp add: BUF_strlcat_def)
  moreover have "take ?k dst = c_string dst"
    unfolding c_string_def by (rule takeWhile_eq_take [symmetric])
  ultimately show ?thesis by (simp add: mem_write_def)
qed

lemma strlcat_appends_witness:
  "BUF_strlcat [1, 2, 0, 9, 9] [3, 4, 5, 0] 4 = (5, [1, 2, 3, 0, 9])"
  using strlcat_appends [of 4 "[1, 2, 0, 9, 9]" "[3, 4, 5, 0]"] by (simp add: c_string_def)

end
