(* ===== verification/Cbs.thy ===== *)
theory Cbs
  imports Buf
begin

text \<open>
  \<^verbatim>\<open>BoringSSL/crypto/bytestring/cbs.c\<close>: the byte-string reader.  A \<^verbatim>\<open>CBS\<close> (a pointer and a
  length) is the list of the bytes it still covers.  A reader returns its output and the
  \<^verbatim>\<open>CBS\<close> it leaves behind, also when it fails: several of the functions have consumed a
  prefix by then.  What an output parameter holds after a failure is not modelled, and an
  output the caller passes as null is dropped by the caller.
\<close>

type_synonym cbs = bytes

section \<open>Cursor operations\<close>

definition CBS_init :: "bytes \<Rightarrow> nat \<Rightarrow> cbs" where
  "CBS_init data len = take len data"

definition CBS_len :: "cbs \<Rightarrow> nat" where
  "CBS_len cbs = length cbs"

definition CBS_data :: "cbs \<Rightarrow> bytes" where
  "CBS_data cbs = cbs"

definition cbs_get :: "cbs \<Rightarrow> nat \<Rightarrow> bytes option \<times> cbs" where
  "cbs_get cbs n =
     (if CBS_len cbs < n then (None, cbs) else (Some (take n cbs), drop n cbs))"

definition CBS_skip :: "cbs \<Rightarrow> nat \<Rightarrow> unit option \<times> cbs" where
  "CBS_skip cbs len = chain (cbs_get cbs len) (\<lambda>_ cbs. (Some (), cbs))"

definition CBS_stow :: "malloc \<Rightarrow> cbs \<Rightarrow> bytes option" where
  "CBS_stow m cbs =
     (if CBS_len cbs = 0 then Some [] else BUF_memdup m (CBS_data cbs) (CBS_len cbs))"

definition CBS_strdup :: "malloc \<Rightarrow> cbs \<Rightarrow> bytes option" where
  "CBS_strdup m cbs = BUF_strndup m (CBS_data cbs) (CBS_len cbs)"

definition CBS_contains_zero_byte :: "cbs \<Rightarrow> bool" where
  "CBS_contains_zero_byte cbs = list_ex (\<lambda>b. b = 0) cbs"

definition CBS_mem_equal :: "cbs \<Rightarrow> bytes \<Rightarrow> nat \<Rightarrow> bool" where
  "CBS_mem_equal cbs data len =
     (if len \<noteq> CBS_len cbs then False else CRYPTO_memcmp cbs data len = 0)"

definition cbs_get_u :: "cbs \<Rightarrow> nat \<Rightarrow> u32 option \<times> cbs" where
  "cbs_get_u cbs len = chain (cbs_get cbs len) (\<lambda>data cbs. (Some (be_loop 0 data), cbs))"

definition CBS_get_u8 :: "cbs \<Rightarrow> u8 option \<times> cbs" where
  "CBS_get_u8 cbs = chain (cbs_get cbs 1) (\<lambda>v cbs. (Some (hd v), cbs))"

definition CBS_get_u16 :: "cbs \<Rightarrow> u16 option \<times> cbs" where
  "CBS_get_u16 cbs = chain (cbs_get_u cbs 2) (\<lambda>v cbs. (Some (ucast v), cbs))"

definition CBS_get_u24 :: "cbs \<Rightarrow> u32 option \<times> cbs" where
  "CBS_get_u24 cbs = cbs_get_u cbs 3"

definition CBS_get_u32 :: "cbs \<Rightarrow> u32 option \<times> cbs" where
  "CBS_get_u32 cbs = cbs_get_u cbs 4"

definition CBS_get_last_u8 :: "cbs \<Rightarrow> u8 option \<times> cbs" where
  "CBS_get_last_u8 cbs =
     (if CBS_len cbs = 0 then (None, cbs)
      else (Some (cbs ! (CBS_len cbs - 1)), take (CBS_len cbs - 1) cbs))"

definition CBS_get_bytes :: "cbs \<Rightarrow> nat \<Rightarrow> cbs option \<times> cbs" where
  "CBS_get_bytes cbs len = chain (cbs_get cbs len) (\<lambda>v cbs. (Some (CBS_init v len), cbs))"

definition CBS_copy_bytes :: "cbs \<Rightarrow> nat \<Rightarrow> bytes option \<times> cbs" where
  "CBS_copy_bytes cbs len = chain (cbs_get cbs len) (\<lambda>v cbs. (Some v, cbs))"

definition cbs_get_length_prefixed :: "cbs \<Rightarrow> nat \<Rightarrow> cbs option \<times> cbs" where
  "cbs_get_length_prefixed cbs len_len =
     chain (cbs_get_u cbs len_len) (\<lambda>len cbs. CBS_get_bytes cbs (unat len))"

definition CBS_get_u8_length_prefixed :: "cbs \<Rightarrow> cbs option \<times> cbs" where
  "CBS_get_u8_length_prefixed cbs = cbs_get_length_prefixed cbs 1"

definition CBS_get_u16_length_prefixed :: "cbs \<Rightarrow> cbs option \<times> cbs" where
  "CBS_get_u16_length_prefixed cbs = cbs_get_length_prefixed cbs 2"

definition CBS_get_u24_length_prefixed :: "cbs \<Rightarrow> cbs option \<times> cbs" where
  "CBS_get_u24_length_prefixed cbs = cbs_get_length_prefixed cbs 3"

section \<open>Tags and lengths of ASN.1 elements\<close>

definition CBS_ASN1_TAG_SHIFT :: nat where
  "CBS_ASN1_TAG_SHIFT = 24"

definition CBS_ASN1_CONSTRUCTED :: u32 where
  "CBS_ASN1_CONSTRUCTED = 0x20000000"

definition CBS_ASN1_TAG_NUMBER_MASK :: u32 where
  "CBS_ASN1_TAG_NUMBER_MASK = 0x1fffffff"

definition CBS_ASN1_BOOLEAN :: u32 where "CBS_ASN1_BOOLEAN = 0x1"
definition CBS_ASN1_INTEGER :: u32 where "CBS_ASN1_INTEGER = 0x2"
definition CBS_ASN1_OCTETSTRING :: u32 where "CBS_ASN1_OCTETSTRING = 0x4"

text \<open>The do-while loop of \<^verbatim>\<open>parse_base128_integer\<close>, with the value \<open>v\<close> read so far.\<close>

fun parse_base128_loop :: "u64 \<Rightarrow> cbs \<Rightarrow> u64 option \<times> cbs" where
  "parse_base128_loop v [] = (None, [])"
| "parse_base128_loop v (b # cbs) =
     (if drop_bit (64 - 7) v \<noteq> 0 then (None, cbs)
      else if v = 0 \<and> b = 0x80 then (None, cbs)
      else let v = push_bit 7 v OR ucast (b AND 0x7f) in
        if b AND 0x80 \<noteq> 0 then parse_base128_loop v cbs else (Some v, cbs))"

definition parse_base128_integer :: "cbs \<Rightarrow> u64 option \<times> cbs" where
  "parse_base128_integer cbs = parse_base128_loop 0 cbs"

definition parse_asn1_tag :: "cbs \<Rightarrow> u32 option \<times> cbs" where
  "parse_asn1_tag cbs =
     chain (CBS_get_u8 cbs) (\<lambda>tag_byte cbs.
       let tag = push_bit CBS_ASN1_TAG_SHIFT (ucast tag_byte AND 0xe0);
           tag_number = ucast (tag_byte AND 0x1f)
       in if tag_number = 0x1f
          then chain (parse_base128_integer cbs) (\<lambda>v cbs.
            if v > ucast CBS_ASN1_TAG_NUMBER_MASK \<or> v < 0x1f then (None, cbs)
            else (Some (tag OR ucast v), cbs))
          else (Some (tag OR tag_number), cbs))"

text \<open>The output of the element parsers: the element, its tag and the length of its header.\<close>

record asn1_element =
  el_out :: cbs
  el_tag :: u32
  el_header_len :: nat

definition get_element :: "cbs \<Rightarrow> nat \<Rightarrow> u32 \<Rightarrow> nat \<Rightarrow> asn1_element option \<times> cbs" where
  "get_element cbs len tag header_len =
     chain (CBS_get_bytes cbs len) (\<lambda>out cbs.
       (Some \<lparr>el_out = out, el_tag = tag, el_header_len = header_len\<rparr>, cbs))"

definition cbs_get_any_asn1_element :: "cbs \<Rightarrow> bool \<Rightarrow> asn1_element option \<times> cbs" where
  "cbs_get_any_asn1_element cbs ber_ok =
     (case parse_asn1_tag cbs of
        (None, _) \<Rightarrow> (None, cbs)
      | (Some tag, header) \<Rightarrow>
     (case CBS_get_u8 header of
        (None, _) \<Rightarrow> (None, cbs)
      | (Some length_byte, header) \<Rightarrow>
     (let header_len = CBS_len cbs - CBS_len header in
      if length_byte AND 0x80 = 0
      then get_element cbs (size_add (unat length_byte) header_len) tag header_len
      else
        let num_bytes = unat (length_byte AND 0x7f) in
        if ber_ok \<and> tag AND CBS_ASN1_CONSTRUCTED \<noteq> 0 \<and> num_bytes = 0
        then get_element cbs header_len tag header_len
        else if num_bytes = 0 \<or> num_bytes > 4 then (None, cbs)
        else case cbs_get_u header num_bytes of
            (None, _) \<Rightarrow> (None, cbs)
          | (Some len32, header) \<Rightarrow>
              (if len32 < 128 then (None, cbs)
               else if drop_bit ((num_bytes - 1) * 8) len32 = 0 then (None, cbs)
               else
                 let len = unat len32 in
                 if size_add (size_add len header_len) num_bytes < len then (None, cbs)
                 else get_element cbs (size_add len (size_add header_len num_bytes)) tag
                        (size_add header_len num_bytes)))))"

definition CBS_get_any_asn1_element :: "cbs \<Rightarrow> asn1_element option \<times> cbs" where
  "CBS_get_any_asn1_element cbs = cbs_get_any_asn1_element cbs False"

definition CBS_get_any_ber_asn1_element :: "cbs \<Rightarrow> asn1_element option \<times> cbs" where
  "CBS_get_any_ber_asn1_element cbs = cbs_get_any_asn1_element cbs True"

definition CBS_get_any_asn1 :: "cbs \<Rightarrow> (cbs \<times> u32) option \<times> cbs" where
  "CBS_get_any_asn1 cbs =
     chain (CBS_get_any_asn1_element cbs) (\<lambda>el cbs.
       case CBS_skip (el_out el) (el_header_len el) of
         (None, _) \<Rightarrow> (None, cbs)
       | (Some _, out) \<Rightarrow> (Some (out, el_tag el), cbs))"

definition cbs_get_asn1 :: "cbs \<Rightarrow> u32 \<Rightarrow> bool \<Rightarrow> cbs option \<times> cbs" where
  "cbs_get_asn1 cbs tag_value skip_header =
     chain (CBS_get_any_asn1_element cbs) (\<lambda>el cbs.
       if el_tag el \<noteq> tag_value then (None, cbs)
       else if skip_header then
         (case CBS_skip (el_out el) (el_header_len el) of
            (None, _) \<Rightarrow> (None, cbs)
          | (Some _, out) \<Rightarrow> (Some out, cbs))
       else (Some (el_out el), cbs))"

definition CBS_get_asn1 :: "cbs \<Rightarrow> u32 \<Rightarrow> cbs option \<times> cbs" where
  "CBS_get_asn1 cbs tag_value = cbs_get_asn1 cbs tag_value True"

definition CBS_get_asn1_element :: "cbs \<Rightarrow> u32 \<Rightarrow> cbs option \<times> cbs" where
  "CBS_get_asn1_element cbs tag_value = cbs_get_asn1 cbs tag_value False"

definition CBS_peek_asn1_tag :: "cbs \<Rightarrow> u32 \<Rightarrow> bool" where
  "CBS_peek_asn1_tag cbs tag_value =
     (if CBS_len cbs < 1 then False else fst (parse_asn1_tag cbs) = Some tag_value)"

section \<open>Typed elements\<close>

primrec asn1_uint64_loop :: "u64 \<Rightarrow> bytes \<Rightarrow> u64 option" where
  "asn1_uint64_loop out [] = Some out"
| "asn1_uint64_loop out (b # bs) =
     (if drop_bit 56 out \<noteq> 0 then None else asn1_uint64_loop (push_bit 8 out OR ucast b) bs)"

definition CBS_get_asn1_uint64 :: "cbs \<Rightarrow> u64 option \<times> cbs" where
  "CBS_get_asn1_uint64 cbs =
     chain (CBS_get_asn1 cbs CBS_ASN1_INTEGER) (\<lambda>bytes cbs.
       let len = CBS_len bytes in
       if len = 0 then (None, cbs)
       else if bytes ! 0 AND 0x80 \<noteq> 0 then (None, cbs)
       else if bytes ! 0 = 0 \<and> len > 1 \<and> bytes ! 1 AND 0x80 = 0 then (None, cbs)
       else (asn1_uint64_loop 0 bytes, cbs))"

definition CBS_get_asn1_bool :: "cbs \<Rightarrow> int option \<times> cbs" where
  "CBS_get_asn1_bool cbs =
     chain (CBS_get_asn1 cbs CBS_ASN1_BOOLEAN) (\<lambda>bytes cbs.
       if CBS_len bytes \<noteq> 1 then (None, cbs)
       else let v = bytes ! 0 in
         if v \<noteq> 0 \<and> v \<noteq> 0xff then (None, cbs)
         else (Some (if v = 0 then 0 else 1), cbs))"

text \<open>The output of \<^verbatim>\<open>CBS_get_optional_asn1\<close>: the contents, or \<open>None\<close> when not present.\<close>

definition CBS_get_optional_asn1 :: "cbs \<Rightarrow> u32 \<Rightarrow> cbs option option \<times> cbs" where
  "CBS_get_optional_asn1 cbs tag =
     (if CBS_peek_asn1_tag cbs tag
      then chain (CBS_get_asn1 cbs tag) (\<lambda>out cbs. (Some (Some out), cbs))
      else (Some None, cbs))"

definition CBS_get_optional_asn1_octet_string :: "cbs \<Rightarrow> u32 \<Rightarrow> (cbs \<times> bool) option \<times> cbs" where
  "CBS_get_optional_asn1_octet_string cbs tag =
     chain (CBS_get_optional_asn1 cbs tag) (\<lambda>present cbs.
       case present of
         Some child \<Rightarrow>
           (case CBS_get_asn1 child CBS_ASN1_OCTETSTRING of
              (None, _) \<Rightarrow> (None, cbs)
            | (Some out, child) \<Rightarrow>
                if CBS_len child \<noteq> 0 then (None, cbs) else (Some (out, True), cbs))
       | None \<Rightarrow> (Some (CBS_init [] 0, False), cbs))"

definition CBS_get_optional_asn1_uint64 :: "cbs \<Rightarrow> u32 \<Rightarrow> u64 \<Rightarrow> u64 option \<times> cbs" where
  "CBS_get_optional_asn1_uint64 cbs tag default_value =
     chain (CBS_get_optional_asn1 cbs tag) (\<lambda>present cbs.
       case present of
         Some child \<Rightarrow>
           (case CBS_get_asn1_uint64 child of
              (None, _) \<Rightarrow> (None, cbs)
            | (Some out, child) \<Rightarrow> if CBS_len child \<noteq> 0 then (None, cbs) else (Some out, cbs))
       | None \<Rightarrow> (Some default_value, cbs))"

definition CBS_get_optional_asn1_bool :: "cbs \<Rightarrow> u32 \<Rightarrow> int \<Rightarrow> int option \<times> cbs" where
  "CBS_get_optional_asn1_bool cbs tag default_value =
     chain (CBS_get_optional_asn1 cbs tag) (\<lambda>present cbs.
       case present of
         Some child \<Rightarrow>
           (case CBS_get_asn1 child CBS_ASN1_BOOLEAN of
              (None, _) \<Rightarrow> (None, cbs)
            | (Some child2, child) \<Rightarrow>
                if CBS_len child2 \<noteq> 1 \<or> CBS_len child \<noteq> 0 then (None, cbs)
                else let boolean = child2 ! 0 in
                  if boolean = 0 then (Some 0, cbs)
                  else if boolean = 0xff then (Some 1, cbs)
                  else (None, cbs))
       | None \<Rightarrow> (Some default_value, cbs))"

section \<open>Bit strings\<close>

definition CBS_is_valid_asn1_bitstring :: "cbs \<Rightarrow> bool" where
  "CBS_is_valid_asn1_bitstring cbs =
     (case CBS_get_u8 cbs of
        (None, _) \<Rightarrow> False
      | (Some num_unused_bits, inp) \<Rightarrow>
          if num_unused_bits > 7 then False
          else if num_unused_bits = 0 then True
          else case CBS_get_last_u8 inp of
              (None, _) \<Rightarrow> False
            | (Some last_byte, _) \<Rightarrow> last_byte AND (push_bit (unat num_unused_bits) 1 - 1) = 0)"

definition CBS_asn1_bitstring_has_bit :: "cbs \<Rightarrow> u32 \<Rightarrow> bool" where
  "CBS_asn1_bitstring_has_bit cbs b =
     (if \<not> CBS_is_valid_asn1_bitstring cbs then False
      else let byte_num = unat (drop_bit 3 b + 1); bit_num = unat (7 - (b AND 7)) in
        byte_num < CBS_len cbs \<and> cbs ! byte_num AND push_bit bit_num 1 \<noteq> 0)"

end
