(* ===== verification/Codec.thy ===== *)
theory Codec
  imports Prelude
begin

text \<open>
  The interface between writers and readers of byte strings.  A reader takes a byte string
  and returns a value and the rest (or fails); a writer turns a value into bytes.  The
  locale \<open>codec\<close> states the promise a reader's client relies on, that what was written is read
  back whatever follows it; \<open>canonical_codec\<close> adds that the reader accepts nothing else, which makes
  the encoding unique.  Sequences of values are read back as sequences.
\<close>

locale codec =
  fixes enc :: "'a \<Rightarrow> bytes"
    and dec :: "bytes \<Rightarrow> 'a option \<times> bytes"
    and valid :: "'a \<Rightarrow> bool"
  assumes dec_enc: "valid v \<Longrightarrow> dec (enc v @ rest) = (Some v, rest)"
begin

lemma dec_enc_Nil: "valid v \<Longrightarrow> dec (enc v) = (Some v, [])"
  using dec_enc [of v "[]"] by simp

lemma prefix_free:
  assumes "valid v" and "valid w" and "enc v @ r = enc w @ s"
  shows "v = w \<and> r = s"
  by (metis assms dec_enc option.inject prod.inject)

lemma enc_inject: "valid v \<Longrightarrow> valid w \<Longrightarrow> enc v = enc w \<Longrightarrow> v = w"
  using prefix_free [of v w "[]" "[]"] by simp

lemma not_proper_prefix:
  assumes "valid v" and "valid w" and "enc w = enc v @ r"
  shows "r = []"
  using prefix_free [of v w r "[]"] assms by simp

end

text \<open>Reading a given number of values one after the other.\<close>

primrec dec_list :: "(bytes \<Rightarrow> 'a option \<times> bytes) \<Rightarrow> nat \<Rightarrow> bytes \<Rightarrow> 'a list option \<times> bytes" where
  "dec_list dec 0 bs = (Some [], bs)"
| "dec_list dec (Suc n) bs =
     chain (dec bs) (\<lambda>v bs. chain (dec_list dec n bs) (\<lambda>vs bs. (Some (v # vs), bs)))"

context codec
begin

lemma dec_list_enc:
  assumes "\<forall>v\<in>set vs. valid v"
  shows "dec_list dec (length vs) (concat (map enc vs) @ rest) = (Some vs, rest)"
  using assms by (induction vs) (simp_all add: dec_enc)

lemma concat_inject:
  assumes "\<forall>v\<in>set vs. valid v" and "\<forall>w\<in>set ws. valid w" and "length vs = length ws"
    and "concat (map enc vs) = concat (map enc ws)"
  shows "vs = ws"
  by (metis assms dec_list_enc option.inject prod.inject)

end

locale canonical_codec = codec +
  assumes enc_dec: "dec bs = (Some v, rest) \<Longrightarrow> valid v \<and> bs = enc v @ rest"
begin

lemma dec_iff: "dec bs = (Some v, rest) \<longleftrightarrow> valid v \<and> bs = enc v @ rest"
  using dec_enc enc_dec by blast

lemma dec_list_iff:
  "dec_list dec n bs = (Some vs, rest) \<longleftrightarrow>
    length vs = n \<and> (\<forall>v\<in>set vs. valid v) \<and> bs = concat (map enc vs) @ rest"
proof
  show "dec_list dec n bs = (Some vs, rest)"
    if "length vs = n \<and> (\<forall>v\<in>set vs. valid v) \<and> bs = concat (map enc vs) @ rest"
    using that dec_list_enc by blast
  show "length vs = n \<and> (\<forall>v\<in>set vs. valid v) \<and> bs = concat (map enc vs) @ rest"
    if "dec_list dec n bs = (Some vs, rest)"
    using that
    by (induction n arbitrary: bs vs) (auto simp: chain_eq_Some dest!: enc_dec)
qed

lemma dec_unique:
  assumes "dec bs = (Some v, rest)" and "dec bs' = (Some v, rest)"
  shows "bs = bs'"
  using assms by (simp add: dec_iff)

end

end
