(* ===== verification/Der.thy ===== *)
theory Der
  imports Cbs Codec
begin

text \<open>
  What the readers of \<^verbatim>\<open>cbs.c\<close> accept, stated against the encodings of X.690: fixed-width
  integers, length-prefixed strings, base-128 integers, identifier octets, definite lengths
  and whole elements.  For each the reader accepts exactly the canonical encoding; the
  interpretations of \<open>canonical_codec\<close> at the end of each section say so.
\<close>

section \<open>Fixed-width integers and length prefixes\<close>

lemma cbs_get_iff: "cbs_get cbs n = (Some v, rest) \<longleftrightarrow> length v = n \<and> cbs = v @ rest"
  by (auto simp: cbs_get_def CBS_len_def)

lemma cbs_get_append [simp]: "length v = n \<Longrightarrow> cbs_get (v @ rest) n = (Some v, rest)"
  by (simp add: cbs_get_iff)

lemma CBS_get_bytes_iff: "CBS_get_bytes cbs n = (Some v, rest) \<longleftrightarrow> length v = n \<and> cbs = v @ rest"
  by (auto simp: CBS_get_bytes_def chain_eq_Some cbs_get_iff CBS_init_def)

lemma CBS_get_u8_simps [simp]:
  "CBS_get_u8 [] = (None, [])"
  "CBS_get_u8 (b # cbs) = (Some b, cbs)"
  by (simp_all add: CBS_get_u8_def cbs_get_def CBS_len_def)

lemma cbs_get_u_iff:
  assumes "n \<le> 4"
  shows "cbs_get_u cbs n = (Some w, rest) \<longleftrightarrow>
    unat w < 256 ^ n \<and> cbs = be_bytes n (unat w) @ rest"
proof
  assume "cbs_get_u cbs n = (Some w, rest)"
  then obtain v where v: "length v = n" "cbs = v @ rest" "w = be_loop 0 v"
    by (auto simp: cbs_get_u_def chain_eq_Some cbs_get_iff)
  with assms have "unat w = be_nat v" by (simp add: unat_be_loop)
  with v show "unat w < 256 ^ n \<and> cbs = be_bytes n (unat w) @ rest"
    using be_nat_less [of v] be_bytes_be_nat [of v] by simp
next
  assume *: "unat w < 256 ^ n \<and> cbs = be_bytes n (unat w) @ rest"
  then have "unat (be_loop 0 (be_bytes n (unat w)) :: u32) = unat w"
    using assms by (simp add: unat_be_loop be_nat_be_bytes)
  with * show "cbs_get_u cbs n = (Some w, rest)"
    by (simp add: cbs_get_u_def word_unat_eq_iff)
qed

text \<open>Writers: the big-endian encoding of a value below \<open>256 ^ n\<close>.\<close>

definition enc_uint :: "nat \<Rightarrow> 'a::len word \<Rightarrow> bytes" where
  "enc_uint n w = be_bytes n (unat w)"

definition fits :: "nat \<Rightarrow> 'a::len word \<Rightarrow> bool" where
  "fits n w \<longleftrightarrow> unat w < 256 ^ n"

interpretation u8: canonical_codec "enc_uint 1" CBS_get_u8 "\<lambda>_::u8. True"
proof unfold_locales
  fix v :: u8 and rest bs :: bytes
  show "CBS_get_u8 (enc_uint 1 v @ rest) = (Some v, rest)"
    by (simp add: enc_uint_def)
  show "CBS_get_u8 bs = (Some v, rest) \<Longrightarrow> True \<and> bs = enc_uint 1 v @ rest"
    by (cases bs) (simp_all add: enc_uint_def)
qed

interpretation u16: canonical_codec "enc_uint 2" CBS_get_u16 "\<lambda>_::u16. True"
proof unfold_locales
  fix v :: u16 and rest bs :: bytes
  have *: "unat (ucast v :: u32) = unat v" by (simp add: unat_ucast_up)
  have "unat v < 256 ^ 2" using unsigned_less [of v] by simp
  with * have "cbs_get_u (enc_uint 2 v @ rest) 2 = (Some (ucast v), rest)"
    by (simp add: cbs_get_u_iff enc_uint_def)
  moreover have "ucast (ucast v :: u32) = v" by (rule bit_word_eqI) (simp add: bit_simps)
  ultimately show "CBS_get_u16 (enc_uint 2 v @ rest) = (Some v, rest)"
    by (simp add: CBS_get_u16_def)
  assume "CBS_get_u16 bs = (Some v, rest)"
  then obtain w where w: "cbs_get_u bs 2 = (Some w, rest)" "v = ucast w"
    by (auto simp: CBS_get_u16_def chain_eq_Some)
  then have "unat w = unat v"
    by (simp add: cbs_get_u_iff unsigned_ucast_eq take_bit_nat_eq_self)
  with w show "True \<and> bs = enc_uint 2 v @ rest"
    by (simp add: cbs_get_u_iff enc_uint_def)
qed

interpretation u24: canonical_codec "enc_uint 3" CBS_get_u24 "fits 3"
  by unfold_locales (simp_all add: CBS_get_u24_def cbs_get_u_iff enc_uint_def fits_def)

interpretation u32: canonical_codec "enc_uint 4" CBS_get_u32 "\<lambda>_::u32. True"
proof unfold_locales
  fix v :: u32 and rest bs :: bytes
  have "unat v < 256 ^ 4" using unsigned_less [of v] by simp
  then show "CBS_get_u32 (enc_uint 4 v @ rest) = (Some v, rest)"
    by (simp add: CBS_get_u32_def cbs_get_u_iff enc_uint_def)
  show "CBS_get_u32 bs = (Some v, rest) \<Longrightarrow> True \<and> bs = enc_uint 4 v @ rest"
    by (simp add: CBS_get_u32_def cbs_get_u_iff enc_uint_def)
qed

definition enc_prefixed :: "nat \<Rightarrow> bytes \<Rightarrow> bytes" where
  "enc_prefixed n bs = be_bytes n (length bs) @ bs"

lemma cbs_get_length_prefixed_iff:
  assumes "n \<le> 4"
  shows "cbs_get_length_prefixed cbs n = (Some v, rest) \<longleftrightarrow>
    length v < 256 ^ n \<and> cbs = enc_prefixed n v @ rest"
proof
  assume "cbs_get_length_prefixed cbs n = (Some v, rest)"
  then obtain w s where "cbs_get_u cbs n = (Some w, s)" "CBS_get_bytes s (unat w) = (Some v, rest)"
    by (auto simp: cbs_get_length_prefixed_def chain_eq_Some)
  then show "length v < 256 ^ n \<and> cbs = enc_prefixed n v @ rest"
    using assms by (auto simp: cbs_get_u_iff CBS_get_bytes_iff enc_prefixed_def)
next
  assume *: "length v < 256 ^ n \<and> cbs = enc_prefixed n v @ rest"
  have "256 ^ n \<le> (256::nat) ^ 4" using assms by (intro power_increasing) simp_all
  with * have 1: "unat (of_nat (length v) :: u32) = length v"
    by (simp add: unat_of_nat take_bit_nat_eq_self)
  with * assms have "cbs_get_u cbs n = (Some (of_nat (length v)), v @ rest)"
    by (simp add: cbs_get_u_iff enc_prefixed_def)
  then show "cbs_get_length_prefixed cbs n = (Some v, rest)"
    by (simp add: cbs_get_length_prefixed_def 1 CBS_get_bytes_iff)
qed

interpretation p8: canonical_codec "enc_prefixed 1" CBS_get_u8_length_prefixed "\<lambda>v. length v < 256 ^ 1"
  by unfold_locales (simp_all add: CBS_get_u8_length_prefixed_def cbs_get_length_prefixed_iff)

interpretation p16: canonical_codec "enc_prefixed 2" CBS_get_u16_length_prefixed "\<lambda>v. length v < 256 ^ 2"
  by unfold_locales (simp_all add: CBS_get_u16_length_prefixed_def cbs_get_length_prefixed_iff)

interpretation p24: canonical_codec "enc_prefixed 3" CBS_get_u24_length_prefixed "\<lambda>v. length v < 256 ^ 3"
  by unfold_locales (simp_all add: CBS_get_u24_length_prefixed_def cbs_get_length_prefixed_iff)

section \<open>Base-128 integers\<close>

text \<open>The digits but the last carry the continuation bit; the first is not a padding zero.\<close>

fun base128_hi :: "nat \<Rightarrow> bytes" where
  "base128_hi n = (if n = 0 then [] else base128_hi (n div 128) @ [of_nat (128 + n mod 128)])"

declare base128_hi.simps [simp del]

definition base128 :: "nat \<Rightarrow> bytes" where
  "base128 n = base128_hi (n div 128) @ [of_nat (n mod 128)]"

lemma base128_hi_0 [simp]: "base128_hi 0 = []"
  by (simp add: base128_hi.simps)

lemma base128_hi_pos: "0 < n \<Longrightarrow> base128_hi n = base128_hi (n div 128) @ [of_nat (128 + n mod 128)]"
  by (subst base128_hi.simps) simp

lemma unat_shift7:
  assumes "unat (v::u64) < 2 ^ 57"
  shows "unat (push_bit 7 v OR ucast ((b::u8) AND 0x7f)) = unat v * 128 + unat b mod 128"
proof -
  have "unat v * 2 ^ 7 + unat (b AND 0x7f) < 2 ^ 64"
    using assms mod_less_divisor [of 128 "unat b"] unfolding byte_and_mask by simp
  then show ?thesis by (subst unat_push_or) (simp_all add: byte_and_mask)
qed

lemma drop_bit_57: "drop_bit (64 - 7) (v::u64) = 0 \<longleftrightarrow> unat v < 2 ^ 57"
  by (simp only: drop_bit_eq_0_unat) simp

lemma high_byte_mod: "128 \<le> (x::nat) \<Longrightarrow> x < 256 \<Longrightarrow> 128 + x mod 128 = x"
  by (simp add: le_mod_geq)

lemma base128_step:
  fixes b :: u8 and v :: u64
  assumes "drop_bit (64 - 7) v = 0" and "\<not> (v = 0 \<and> b = 0x80)"
  defines "w \<equiv> push_bit 7 v OR ucast (b AND 0x7f)"
  shows "unat w = unat v * 128 + unat b mod 128"
    and "b AND 0x80 \<noteq> 0 \<Longrightarrow> base128_hi (unat w) = base128_hi (unat v) @ [b]"
    and "b AND 0x80 = 0 \<Longrightarrow> base128 (unat w) = base128_hi (unat v) @ [b]"
proof -
  show w: "unat w = unat v * 128 + unat b mod 128"
    using assms(1) unfolding w_def drop_bit_57 by (rule unat_shift7)
  have div: "unat w div 128 = unat v" and mod: "unat w mod 128 = unat b mod 128"
    by (simp_all add: w)
  show "base128_hi (unat w) = base128_hi (unat v) @ [b]" if "b AND 0x80 \<noteq> 0"
  proof -
    have b: "128 \<le> unat b" using that by (simp add: byte_high_bit)
    then have b': "128 + unat b mod 128 = unat b"
      using unat_less_256 by (rule high_byte_mod)
    have "unat w \<noteq> 0"
    proof
      assume "unat w = 0"
      with w have "unat v = 0" "unat b = 128" using b' by simp_all
      with assms(2) show False by (simp add: word_unat_eq_iff)
    qed
    with div mod b' show ?thesis by (simp add: base128_hi_pos)
  qed
  show "base128 (unat w) = base128_hi (unat v) @ [b]" if "b AND 0x80 = 0"
    using that div mod by (simp add: base128_def byte_high_bit)
qed

lemma parse_base128_loop_sound:
  "parse_base128_loop v cbs = (Some w, rest) \<Longrightarrow>
    \<exists>ds. cbs = ds @ rest \<and> base128 (unat w) = base128_hi (unat v) @ ds"
proof (induction v cbs rule: parse_base128_loop.induct)
  case (2 v b cbs)
  let ?v = "push_bit 7 v OR ucast (b AND 0x7f) :: u64"
  from "2.prems" have ok: "drop_bit (64 - 7) v = 0" "\<not> (v = 0 \<and> b = 0x80)"
    by (auto split: if_splits)
  note step = base128_step [OF ok]
  show ?case
  proof (cases "b AND 0x80 = 0")
    case True
    with "2.prems" ok have "w = ?v" "rest = cbs" by (auto simp: Let_def split: if_splits)
    with step(3) True show ?thesis by auto
  next
    case False
    with "2.prems" ok have "parse_base128_loop ?v cbs = (Some w, rest)"
      by (auto simp: Let_def split: if_splits)
    with "2.IH" ok False obtain ds where "cbs = ds @ rest"
      "base128 (unat w) = base128_hi (unat ?v) @ ds" by auto
    with step(2) [OF False] show ?thesis by auto
  qed
qed simp

lemma parse_base128_loop_hi:
  "n < 2 ^ 64 \<Longrightarrow> parse_base128_loop 0 (base128_hi n @ ys) = parse_base128_loop (of_nat n) ys"
proof (induction n arbitrary: ys rule: base128_hi.induct)
  case (1 n)
  show ?case
  proof (cases "n = 0")
    case False
    define b v where "b = (of_nat (128 + n mod 128) :: u8)" and "v = (of_nat (n div 128) :: u64)"
    have n: "unat v = n div 128"
      using "1.prems" by (simp add: v_def unat_of_nat take_bit_nat_eq_self_iff)
    have b: "unat b = 128 + n mod 128" unfolding b_def by (simp only: unat_byte_of_nat) simp
    have "n div 128 < 2 ^ 57" using "1.prems" by simp
    with n have ok1: "drop_bit (64 - 7) v = 0" by (simp only: drop_bit_57)
    have "v = 0 \<Longrightarrow> n div 128 = 0" using n by simp
    moreover have "b = 0x80 \<Longrightarrow> n mod 128 = 0" using b by simp
    ultimately have ok2: "\<not> (v = 0 \<and> b = 0x80)"
      using False by (metis div_mult_mod_eq add.right_neutral mult_zero_left)
    have ok3: "b AND 0x80 \<noteq> 0" using b by (simp only: byte_high_bit)
    note ok = ok1 ok2 ok3
    have "unat (push_bit 7 v OR ucast (b AND 0x7f)) = n"
      unfolding base128_step(1) [OF ok(1,2)] n b by simp
    then have "push_bit 7 v OR ucast (b AND 0x7f) = (of_nat n :: u64)"
      by (rule eq_of_nat_unat)
    moreover have "base128_hi n = base128_hi (n div 128) @ [b]"
      using False by (simp add: base128_hi_pos b_def)
    moreover have "parse_base128_loop 0 (base128_hi (n div 128) @ b # ys) = parse_base128_loop v (b # ys)"
      using "1.IH" False "1.prems" by (simp add: v_def)
    ultimately show ?thesis using ok by (auto simp: Let_def)
  qed simp
qed

lemma parse_base128_base128:
  assumes "n < 2 ^ 64"
  shows "parse_base128_integer (base128 n @ rest) = (Some (of_nat n), rest)"
proof -
  define b v where "b = (of_nat (n mod 128) :: u8)" and "v = (of_nat (n div 128) :: u64)"
  have n: "unat v = n div 128"
    using assms by (simp add: v_def unat_of_nat take_bit_nat_eq_self_iff)
  have b: "unat b = n mod 128"
    using mod_less_divisor [of 128 n] unfolding b_def by (simp only: unat_byte_of_nat) simp
  have "n div 128 < 2 ^ 57" using assms by simp
  with n have ok1: "drop_bit (64 - 7) v = 0" by (simp only: drop_bit_57)
  have ok3: "b AND 0x80 = 0" using b by (simp add: byte_high_bit)
  then have ok2: "\<not> (v = 0 \<and> b = 0x80)" by auto
  note ok = ok1 ok2 ok3
  have "unat (push_bit 7 v OR ucast (b AND 0x7f)) = n"
    unfolding base128_step(1) [OF ok(1,2)] n b by simp
  then have "push_bit 7 v OR ucast (b AND 0x7f) = (of_nat n :: u64)"
    by (rule eq_of_nat_unat)
  moreover have "parse_base128_loop 0 (base128_hi (n div 128) @ b # rest) = parse_base128_loop v (b # rest)"
    using parse_base128_loop_hi [of "n div 128"] assms by (simp add: v_def)
  moreover have "base128 n = base128_hi (n div 128) @ [b]" by (simp add: base128_def b_def)
  ultimately show ?thesis using ok by (auto simp: parse_base128_integer_def Let_def)
qed

interpretation b128: canonical_codec "\<lambda>v. base128 (unat v)" parse_base128_integer "\<lambda>_. True"
proof unfold_locales
  fix v :: u64 and rest bs :: bytes
  show "parse_base128_integer (base128 (unat v) @ rest) = (Some v, rest)"
    using parse_base128_base128 [of "unat v" rest] unsigned_less [of v] by simp
  assume "parse_base128_integer bs = (Some v, rest)"
  then show "True \<and> bs = base128 (unat v) @ rest"
    using parse_base128_loop_sound [of 0 bs v rest] by (auto simp: parse_base128_integer_def)
qed

section \<open>Identifier octets\<close>

definition asn1_identifier :: "u32 \<Rightarrow> bytes" where
  "asn1_identifier tag =
     (let tag_bits = ucast (drop_bit CBS_ASN1_TAG_SHIFT tag) AND 0xe0;
          tag_number = tag AND CBS_ASN1_TAG_NUMBER_MASK
      in if 0x1f \<le> tag_number then (tag_bits OR 0x1f) # base128 (unat tag_number)
         else [tag_bits OR ucast tag_number])"

lemma tag_masks:
  "(0xe0::u8) = push_bit 5 (mask 3)" "(0xe0::u32) = push_bit 5 (mask 3)"
  "(0x1f::u8) = mask 5" "(0x1f::u32) = mask 5" "CBS_ASN1_TAG_NUMBER_MASK = mask 29"
  by (simp_all add: mask_eq_exp_minus_1 CBS_ASN1_TAG_NUMBER_MASK_def)

lemma bit_below:
  fixes n :: "'a::len word"
  assumes "unat n < 2 ^ k" and "bit n i"
  shows "i < k"
proof -
  have "bit (unat n) i" using assms(2) by (simp add: bit_unsigned_iff bit_imp_le_length)
  moreover have "take_bit k (unat n) = unat n" using assms(1) by (simp add: take_bit_nat_eq_self)
  ultimately show ?thesis by (metis bit_take_bit_iff)
qed

lemma tag_compose:
  fixes tb :: u8 and n :: u32
  assumes "unat n < 2 ^ 29"
  defines "tag \<equiv> push_bit CBS_ASN1_TAG_SHIFT (ucast tb AND 0xe0) OR n"
  shows "tag AND CBS_ASN1_TAG_NUMBER_MASK = n"
    and "ucast (drop_bit CBS_ASN1_TAG_SHIFT tag) AND 0xe0 = tb AND 0xe0"
proof -
  have n: "bit n i \<Longrightarrow> i < 29" for i using bit_below [OF assms(1)] .
  show "tag AND CBS_ASN1_TAG_NUMBER_MASK = n"
    by (rule bit_word_eqI) (auto simp: tag_def tag_masks CBS_ASN1_TAG_SHIFT_def bit_simps dest: n)
  show "ucast (drop_bit CBS_ASN1_TAG_SHIFT tag) AND 0xe0 = tb AND 0xe0"
    by (rule bit_word_eqI) (auto simp: tag_def tag_masks CBS_ASN1_TAG_SHIFT_def bit_simps dest: n)
qed

lemma tag_decompose:
  "push_bit CBS_ASN1_TAG_SHIFT (ucast (ucast (drop_bit CBS_ASN1_TAG_SHIFT tag) AND (0xe0::u8)) AND 0xe0)
     OR (tag AND CBS_ASN1_TAG_NUMBER_MASK) = (tag::u32)"
  by (rule bit_word_eqI) (auto simp: tag_masks CBS_ASN1_TAG_SHIFT_def bit_simps)

lemma byte_split: "((tb::u8) AND 0xe0) OR (tb AND 0x1f) = tb"
  by (rule bit_word_eqI) (auto simp: tag_masks bit_simps)

lemma low_five: "unat ((tb::u8) AND 0x1f) < 2 ^ 5"
  unfolding tag_masks by (rule unat_and_mask_less)

lemma identifier_byte:
  fixes bits l :: u8
  assumes "bits AND 0xe0 = bits" and "unat l < 2 ^ 5"
  shows "(bits OR l) AND 0x1f = l" and "(bits OR l) AND 0xe0 = bits"
    and "ucast (bits OR l) AND (0xe0::u32) = ucast bits AND 0xe0"
proof -
  have l: "bit l i \<Longrightarrow> i < 5" for i using bit_below [OF assms(2)] .
  have b: "bit bits i \<Longrightarrow> 5 \<le> i" for i
    using assms(1) by (metis (full_types) bit_and_iff bit_push_bit_iff tag_masks(1))
  have b8: "bit bits i \<Longrightarrow> i < 8" for i by (rule bit_imp_le_length [where 'a = 8, simplified])
  show "(bits OR l) AND 0x1f = l"
    by (rule bit_word_eqI) (auto simp: tag_masks bit_simps dest: l b)
  show "(bits OR l) AND 0xe0 = bits"
    by (rule bit_word_eqI) (auto simp: tag_masks bit_simps dest: l b b8)
  show "ucast (bits OR l) AND (0xe0::u32) = ucast bits AND 0xe0"
    by (rule bit_word_eqI) (auto simp: tag_masks bit_simps dest: l b b8)
qed

lemma parse_asn1_tag_sound:
  assumes "parse_asn1_tag cbs = (Some tag, rest)"
  shows "cbs = asn1_identifier tag @ rest"
proof -
  from assms obtain tb s where cbs: "cbs = tb # s"
    by (cases cbs) (auto simp: parse_asn1_tag_def)
  let ?low = "tb AND 0x1f"
  have ucl: "unat (ucast ?low :: u32) = unat ?low" by (rule unat_ucast_up) simp
  have low31: "(ucast ?low :: u32) = 0x1f \<longleftrightarrow> ?low = 0x1f"
    using ucl by (simp add: word_unat_eq_iff)
  show ?thesis
  proof (cases "?low = 0x1f")
    case False
    with assms cbs low31 have tag: "tag = push_bit CBS_ASN1_TAG_SHIFT (ucast tb AND 0xe0) OR ucast ?low"
      and s: "s = rest" by (auto simp: parse_asn1_tag_def Let_def)
    have "unat (ucast ?low :: u32) < 2 ^ 29" using ucl low_five [of tb] by simp
    note c = tag_compose [OF this, of tb, folded tag]
    have "unat ?low < 31" using False low_five [of tb] by (simp add: word_unat_eq_iff)
    then have "\<not> 0x1f \<le> (ucast ?low :: u32)" using ucl by (simp add: word_le_nat_alt)
    moreover have "ucast (ucast ?low :: u32) = ?low" by (rule bit_word_eqI) (simp add: bit_simps)
    ultimately show ?thesis
      using c byte_split [of tb] cbs s by (simp add: asn1_identifier_def)
  next
    case True
    with assms cbs low31 obtain v where v: "parse_base128_integer s = (Some v, rest)"
      and bounds: "\<not> v > ucast CBS_ASN1_TAG_NUMBER_MASK" "\<not> v < 0x1f"
      and tag: "tag = push_bit CBS_ASN1_TAG_SHIFT (ucast tb AND 0xe0) OR ucast v"
      by (auto simp: parse_asn1_tag_def Let_def chain_eq_Some split: if_splits)
    have v29: "unat v < 2 ^ 29"
      using bounds(1) by (simp add: CBS_ASN1_TAG_NUMBER_MASK_def word_less_nat_alt)
    then have ucv: "unat (ucast v :: u32) = unat v"
      by (simp add: unsigned_ucast_eq take_bit_nat_eq_self)
    then have "unat (ucast v :: u32) < 2 ^ 29" using v29 by simp
    note c = tag_compose [OF this, of tb, folded tag]
    have "(0x1f::u32) \<le> ucast v"
      using bounds(2) ucv by (simp add: word_le_nat_alt word_less_nat_alt)
    moreover have "s = base128 (unat v) @ rest" using v by (simp add: b128.dec_iff)
    ultimately show ?thesis
      using c byte_split [of tb] cbs ucv True by (simp add: asn1_identifier_def)
  qed
qed

lemma parse_asn1_tag_complete: "parse_asn1_tag (asn1_identifier tag @ rest) = (Some tag, rest)"
proof -
  define bits :: u8 where "bits = ucast (drop_bit CBS_ASN1_TAG_SHIFT tag) AND 0xe0"
  define n where "n = tag AND CBS_ASN1_TAG_NUMBER_MASK"
  have bits: "bits AND 0xe0 = bits" by (simp add: bits_def ac_simps)
  have n29: "unat n < 2 ^ 29"
    unfolding n_def tag_masks by (rule unat_and_mask_less)
  have dec: "push_bit CBS_ASN1_TAG_SHIFT (ucast bits AND 0xe0) OR n = tag"
    unfolding bits_def n_def by (rule tag_decompose)
  show ?thesis
  proof (cases "0x1f \<le> n")
    case True
    then have id: "asn1_identifier tag = (bits OR 0x1f) # base128 (unat n)"
      by (simp add: asn1_identifier_def bits_def n_def)
    note ib = identifier_byte [OF bits, of "0x1f"]
    have "parse_base128_integer (base128 (unat (ucast n :: u64)) @ rest) = (Some (ucast n), rest)"
      by (rule b128.dec_enc) simp
    then have "parse_base128_integer (base128 (unat n) @ rest) = (Some (ucast n), rest)"
      by (simp add: unat_ucast_up)
    moreover have "\<not> (ucast n :: u64) > ucast CBS_ASN1_TAG_NUMBER_MASK" "\<not> (ucast n :: u64) < 0x1f"
      using n29 True by (simp_all add: word_less_nat_alt word_le_nat_alt unat_ucast_up
          CBS_ASN1_TAG_NUMBER_MASK_def)
    moreover have "ucast (ucast n :: u64) = n" by (rule bit_word_eqI) (simp add: bit_simps)
    ultimately show ?thesis using ib dec by (simp add: id parse_asn1_tag_def del: push_bit_and)
  next
    case False
    then have n31: "unat n < 31" by (simp add: word_le_nat_alt)
    then have ucn: "unat (ucast n :: u8) = unat n"
      by (simp add: unsigned_ucast_eq take_bit_nat_eq_self)
    have id: "asn1_identifier tag = [bits OR ucast n]"
      using False by (simp add: asn1_identifier_def bits_def n_def)
    have "unat (ucast n :: u8) < 2 ^ 5" using ucn n31 by simp
    note ib = identifier_byte [OF bits this]
    have uback: "(ucast (ucast n :: u8) :: u32) = n"
      using n31 by (simp add: word_unat_eq_iff unat_ucast_up ucn)
    then have "(ucast (ucast n :: u8) :: u32) \<noteq> 0x1f" using n31 by (auto simp: word_unat_eq_iff)
    with ib dec uback show ?thesis by (simp add: id parse_asn1_tag_def del: push_bit_and)
  qed
qed

interpretation tag: canonical_codec asn1_identifier parse_asn1_tag "\<lambda>_. True"
  by unfold_locales (simp_all add: parse_asn1_tag_complete parse_asn1_tag_sound)

lemma length_base128_hi: "n < 128 ^ k \<Longrightarrow> length (base128_hi n) \<le> k"
proof (induction k arbitrary: n)
  case (Suc k)
  then have "n div 128 < 128 ^ k" by (simp add: div_less_iff_less_mult mult.commute)
  with Suc.IH show ?case by (cases "n = 0") (simp_all add: base128_hi_pos)
qed simp

lemma length_asn1_identifier: "0 < length (asn1_identifier tag)" "length (asn1_identifier tag) \<le> 6"
proof -
  have "unat (tag AND CBS_ASN1_TAG_NUMBER_MASK) < 2 ^ 29"
    unfolding tag_masks by (rule unat_and_mask_less)
  then have "unat (tag AND CBS_ASN1_TAG_NUMBER_MASK) div 128 < 128 ^ 4" by simp
  from length_base128_hi [OF this]
  show "length (asn1_identifier tag) \<le> 6" by (simp add: asn1_identifier_def base128_def Let_def)
  show "0 < length (asn1_identifier tag)" by (simp add: asn1_identifier_def Let_def)
qed

section \<open>Lengths and whole elements\<close>

definition length_octets :: "nat \<Rightarrow> nat" where
  "length_octets n =
     (if n \<le> 0x7f then 0 else if n \<le> 0xff then 1 else if n \<le> 0xffff then 2
      else if n \<le> 0xffffff then 3 else 4)"

definition asn1_length :: "nat \<Rightarrow> bytes" where
  "asn1_length n =
     (if n \<le> 0x7f then [of_nat n]
      else of_nat (0x80 + length_octets n) # be_bytes (length_octets n) n)"

definition asn1_header :: "u32 \<Rightarrow> nat \<Rightarrow> bytes" where
  "asn1_header tag n = asn1_identifier tag @ asn1_length n"

definition asn1_tlv :: "bytes \<times> u32 \<Rightarrow> bytes" where
  "asn1_tlv v = asn1_header (snd v) (length (fst v)) @ fst v"

lemma length_octets_iff:
  assumes "n < 2 ^ 32" and "0 < k" and "k \<le> 4"
  shows "length_octets n = k \<longleftrightarrow> 128 \<le> n \<and> n < 256 ^ k \<and> 256 ^ (k - 1) \<le> n"
proof -
  from assms(2,3) have "k = 1 \<or> k = 2 \<or> k = 3 \<or> k = 4" by auto
  with assms(1) show ?thesis by (auto simp: length_octets_def)
qed

lemma length_octets_le: "length_octets n \<le> 4"
  by (simp add: length_octets_def)

text \<open>
  Everything of the element parser after the identifier and the first length octet.  The
  two overflow tests of the source cannot fire here: a header has at most 11 bytes.
\<close>

lemma element_after_tag:
  fixes lb :: u8 and tag :: u32
  defines "h \<equiv> length (asn1_identifier tag) + 1"
  shows "cbs_get_any_asn1_element (asn1_identifier tag @ lb # s) ber_ok =
    (let cbs = asn1_identifier tag @ lb # s; k = unat lb mod 128 in
     if unat lb < 128 then get_element cbs (unat lb + h) tag h
     else if ber_ok \<and> tag AND CBS_ASN1_CONSTRUCTED \<noteq> 0 \<and> k = 0 then get_element cbs h tag h
     else if k = 0 \<or> k > 4 then (None, cbs)
     else case cbs_get_u s k of
        (None, _) \<Rightarrow> (None, cbs)
      | (Some n, _) \<Rightarrow>
          if length_octets (unat n) \<noteq> k then (None, cbs)
          else get_element cbs (unat n + (h + k)) tag (h + k))"
proof -
  have h: "h \<le> 7" using length_asn1_identifier(2) [of tag] by (simp add: h_def)
  let ?cbs = "asn1_identifier tag @ lb # s"
  have hl: "CBS_len ?cbs - CBS_len s = h" by (simp add: h_def CBS_len_def)
  have sa: "size_add (unat lb) h = unat lb + h"
  proof (rule size_add_no_wrap)
    have "unat lb + h < 300" using h unat_less_256 [of lb] by linarith
    then show "unat lb + h < 2 ^ 64" by simp
  qed
  let ?k = "unat lb mod 128"
  have k: "unat (lb AND 0x7f) = ?k" by (rule byte_and_mask)
  have cond: "n < 128 \<or> drop_bit ((?k - 1) * 8) n = 0 \<longleftrightarrow> length_octets (unat n) \<noteq> ?k"
    and adds: "size_add h ?k = h + ?k" "size_add (size_add (unat n) h) ?k = unat n + h + ?k"
      "size_add (unat n) (h + ?k) = unat n + (h + ?k)"
    if "cbs_get_u s ?k = (Some n, r)" "?k \<noteq> 0" "?k \<le> 4" for n r
  proof -
    have n32: "unat n < 2 ^ 32" using unsigned_less [of n] by simp
    have nk: "unat n < 256 ^ ?k" using that by (simp add: cbs_get_u_iff)
    have "drop_bit ((?k - 1) * 8) n = 0 \<longleftrightarrow> unat n < 256 ^ (?k - 1)"
      by (simp only: drop_bit_eq_0_unat) (simp add: power_mult mult.commute)
    moreover have "n < 128 \<longleftrightarrow> unat n < 128" by (simp add: word_less_nat_alt)
    ultimately show "n < 128 \<or> drop_bit ((?k - 1) * 8) n = 0 \<longleftrightarrow> length_octets (unat n) \<noteq> ?k"
      using length_octets_iff [OF n32, of ?k] that(2,3) nk by auto
    show "size_add h ?k = h + ?k" "size_add (size_add (unat n) h) ?k = unat n + h + ?k"
      "size_add (unat n) (h + ?k) = unat n + (h + ?k)"
      using h that(3) n32 by (simp_all add: size_add_no_wrap)
  qed
  note unfold = cbs_get_any_asn1_element_def parse_asn1_tag_complete CBS_get_u8_simps
  consider (short) "unat lb < 128"
    | (other) "128 \<le> unat lb" "(ber_ok \<and> tag AND CBS_ASN1_CONSTRUCTED \<noteq> 0 \<and> ?k = 0) \<or> ?k = 0 \<or> ?k > 4"
    | (long) "128 \<le> unat lb" "?k \<noteq> 0" "?k \<le> 4" by linarith
  then show ?thesis
  proof cases
    case short
    then show ?thesis by (simp add: unfold Let_def hl sa byte_high_bit)
  next
    case other
    then show ?thesis by (auto simp: unfold Let_def hl k byte_high_bit)
  next
    case long
    obtain q r where q: "cbs_get_u s ?k = (q, r)" by fastforce
    show ?thesis
    proof (cases q)
      case None
      with long q show ?thesis by (simp add: unfold Let_def hl k byte_high_bit)
    next
      case (Some n)
      with q have u: "cbs_get_u s ?k = (Some n, r)" by simp
      note facts = cond [OF u long(2,3)] adds [OF u long(2,3)]
      show ?thesis
      proof (cases "length_octets (unat n) = ?k")
        case True
        then show ?thesis
          using long u facts by (simp add: unfold Let_def hl k byte_high_bit)
      next
        case False
        then have "n < 128 \<or> drop_bit ((?k - 1) * 8) n = 0" using facts(1) by simp
        with False show ?thesis
          using long u by (auto simp: unfold Let_def hl k byte_high_bit)
      qed
    qed
  qed
qed

lemma get_element_iff:
  "get_element cbs n tag h = (Some e, rest) \<longleftrightarrow>
    n \<le> length cbs \<and> e = \<lparr>el_out = take n cbs, el_tag = tag, el_header_len = h\<rparr> \<and> rest = drop n cbs"
  by (auto simp: get_element_def chain_eq_Some CBS_get_bytes_def cbs_get_def CBS_len_def CBS_init_def)

text \<open>
  An element in definite form: its header, then its contents.  The indefinite form, which
  only the BER parser accepts, has \<open>80\<close> for a length and is cut off after its header.
\<close>

definition definite :: "asn1_element \<Rightarrow> bytes \<Rightarrow> bool" where
  "definite e c \<longleftrightarrow> length c < 2 ^ 32 \<and> el_out e = asn1_header (el_tag e) (length c) @ c
     \<and> el_header_len e = length (asn1_header (el_tag e) (length c))"

definition indefinite :: "asn1_element \<Rightarrow> bool" where
  "indefinite e \<longleftrightarrow> el_tag e AND CBS_ASN1_CONSTRUCTED \<noteq> 0
     \<and> el_out e = asn1_identifier (el_tag e) @ [0x80] \<and> el_header_len e = length (el_out e)"

lemma length_asn1_length: "length (asn1_length n) = 1 + length_octets n"
  by (simp add: asn1_length_def length_octets_def)

lemma asn1_element_complete:
  assumes "definite e c"
  shows "cbs_get_any_asn1_element (el_out e @ rest) ber_ok = (Some e, rest)"
proof -
  define n where "n = length c"
  have n32: "n < 2 ^ 32" and out: "el_out e = asn1_header (el_tag e) n @ c"
    and hl: "el_header_len e = length (asn1_header (el_tag e) n)"
    using assms by (auto simp: definite_def n_def)
  have e: "e = \<lparr>el_out = el_out e, el_tag = el_tag e, el_header_len = el_header_len e\<rparr>" by simp
  show ?thesis
  proof (cases "n \<le> 0x7f")
    case True
    then have len: "asn1_length n = [of_nat n]" "unat (of_nat n :: u8) = n"
      by (simp_all add: asn1_length_def byte_simps)
    with True out hl e show ?thesis
      by (simp add: asn1_header_def element_after_tag Let_def get_element_iff n_def)
  next
    case False
    define k where "k = length_octets n"
    have k: "0 < k" "k \<le> 4" using False by (simp_all add: k_def length_octets_def)
    then have nk: "n < 256 ^ k" using length_octets_iff [OF n32 k] by (simp add: k_def)
    define lb :: u8 where "lb = of_nat (0x80 + k)"
    have lb: "unat lb = 0x80 + k" unfolding lb_def using k(2) by (simp only: unat_byte_of_nat) simp
    have len: "asn1_length n = lb # be_bytes k n"
      using False by (simp add: asn1_length_def k_def lb_def)
    have un: "unat (of_nat n :: u32) = n" using n32 by (simp add: unat_of_nat take_bit_nat_eq_self)
    then have u: "cbs_get_u (be_bytes k n @ c @ rest) k = (Some (of_nat n), c @ rest)"
      using k nk by (simp add: cbs_get_u_iff)
    have "unat lb mod 128 = k" using k lb by simp
    then show ?thesis
      using k lb len u un out hl e k_def
      by (simp add: asn1_header_def element_after_tag Let_def get_element_iff n_def)
  qed
qed

lemma asn1_element_indefinite:
  assumes "indefinite e"
  shows "cbs_get_any_asn1_element (el_out e @ rest) True = (Some e, rest)"
  using assms by (cases e) (simp add: indefinite_def element_after_tag Let_def get_element_iff)

lemma asn1_element_sound:
  assumes "cbs_get_any_asn1_element cbs ber_ok = (Some e, rest)"
  shows "cbs = el_out e @ rest" and "(ber_ok \<and> indefinite e) \<or> (\<exists>c. definite e c)"
proof -
  from assms obtain tag hd1 where "parse_asn1_tag cbs = (Some tag, hd1)"
    by (auto simp: cbs_get_any_asn1_element_def split: option.splits prod.splits)
  moreover from this assms obtain lb s where "hd1 = lb # s"
    by (cases hd1) (auto simp: cbs_get_any_asn1_element_def)
  ultimately have cbs: "cbs = asn1_identifier tag @ lb # s"
    by (simp add: tag.dec_iff)
  let ?h = "length (asn1_identifier tag) + 1" and ?k = "unat lb mod 128"
  note res = assms [unfolded cbs element_after_tag Let_def]
  have get: "cbs = el_out e @ rest" "el_out e = take m cbs" "m \<le> length cbs" "el_tag e = tag"
      "el_header_len e = h"
    if "get_element cbs m tag h = (Some e, rest)" for m h
    using that by (auto simp: get_element_iff)
  consider (short) "unat lb < 128" "get_element cbs (unat lb + ?h) tag ?h = (Some e, rest)"
    | (indef) "128 \<le> unat lb" "ber_ok" "tag AND CBS_ASN1_CONSTRUCTED \<noteq> 0" "?k = 0"
        "get_element cbs ?h tag ?h = (Some e, rest)"
    | (long) n r where "128 \<le> unat lb" "0 < ?k" "?k \<le> 4" "cbs_get_u s ?k = (Some n, r)"
        "length_octets (unat n) = ?k" "get_element cbs (unat n + (?h + ?k)) tag (?h + ?k) = (Some e, rest)"
    using res by (auto simp: cbs split: if_splits option.splits prod.splits)
  then have "cbs = el_out e @ rest \<and> ((ber_ok \<and> indefinite e) \<or> (\<exists>c. definite e c))"
  proof cases
    case short
    note g = get [OF short(2)]
    let ?c = "take (unat lb) s"
    have l: "length ?c = unat lb" using g(3) by (simp add: cbs)
    have len: "asn1_length (unat lb) = [lb]" using short(1) by (simp add: asn1_length_def)
    have "el_out e = asn1_identifier tag @ lb # ?c" using g(2) by (simp add: cbs)
    then have "definite e ?c"
      unfolding definite_def asn1_header_def g(4,5) l len using short(1) by simp
    with g(1) show ?thesis by blast
  next
    case indef
    note g = get [OF indef(5)]
    have "unat lb = 128" using indef(1,4) unat_less_256 high_byte_mod [of "unat lb"] by simp
    then have "lb = 0x80" by (simp add: word_unat_eq_iff)
    moreover have "el_out e = asn1_identifier tag @ [lb]" using g(2) by (simp add: cbs)
    ultimately have "indefinite e" using indef(3) by (simp add: indefinite_def g(4,5))
    with g(1) indef(2) show ?thesis by blast
  next
    case long
    note g = get [OF long(6)]
    have s: "s = be_bytes ?k (unat n) @ r" using long(3,4) by (simp add: cbs_get_u_iff)
    let ?c = "take (unat n) r"
    have l: "length ?c = unat n" using g(3) by (simp add: cbs s)
    have "unat lb = 0x80 + ?k" using high_byte_mod [OF long(1) unat_less_256] by simp
    then have "lb = of_nat (0x80 + ?k)" by (rule eq_of_nat_unat)
    moreover have "\<not> unat n \<le> 0x7f" using long(2,5) by (auto simp: length_octets_def)
    ultimately have len: "asn1_length (unat n) = lb # be_bytes ?k (unat n)"
      unfolding asn1_length_def long(5) by (simp only: if_False)
    have "el_out e = asn1_identifier tag @ lb # be_bytes ?k (unat n) @ ?c" using g(2) by (simp add: cbs s)
    moreover have "unat n < 2 ^ 32" using unsigned_less [of n] by simp
    ultimately have "definite e ?c"
      unfolding definite_def asn1_header_def g(4,5) l len by simp
    with g(1) show ?thesis by blast
  qed
  then show "cbs = el_out e @ rest" and "(ber_ok \<and> indefinite e) \<or> (\<exists>c. definite e c)"
    by blast+
qed

lemma CBS_get_any_asn1_element_iff:
  "CBS_get_any_asn1_element cbs = (Some e, rest) \<longleftrightarrow> cbs = el_out e @ rest \<and> (\<exists>c. definite e c)"
  unfolding CBS_get_any_asn1_element_def
  using asn1_element_sound [of cbs False e rest] asn1_element_complete [of e _ rest False] by blast

lemma definite_mk:
  "length c < 2 ^ 32 \<Longrightarrow> definite \<lparr>el_out = asn1_tlv (c, tag), el_tag = tag,
     el_header_len = length (asn1_header tag (length c))\<rparr> c"
  by (simp add: definite_def asn1_tlv_def)

lemma definiteE:
  assumes "definite e c"
  obtains "length c < 2 ^ 32" and "el_out e = asn1_tlv (c, el_tag e)"
    and "drop (el_header_len e) (el_out e) = c" and "el_header_len e \<le> length (el_out e)"
  using assms by (auto simp: definite_def asn1_tlv_def)

lemma CBS_get_any_asn1_element_tlv:
  assumes "length c < 2 ^ 32"
  shows "CBS_get_any_asn1_element (asn1_tlv (c, tag) @ rest) =
    (Some \<lparr>el_out = asn1_tlv (c, tag), el_tag = tag,
       el_header_len = length (asn1_header tag (length c))\<rparr>, rest)"
  using definite_mk [OF assms, of tag] unfolding CBS_get_any_asn1_element_iff by auto

lemma CBS_skip_iff: "CBS_skip cbs n = (Some u, rest) \<longleftrightarrow> n \<le> length cbs \<and> rest = drop n cbs"
  by (auto simp: CBS_skip_def chain_eq_Some cbs_get_def CBS_len_def)

lemma CBS_skip_append [simp]: "CBS_skip (xs @ ys) (length xs) = (Some (), ys)"
  by (simp add: CBS_skip_iff)

lemma definite_skip: "definite e c \<Longrightarrow> CBS_skip (el_out e) (el_header_len e) = (Some (), c)"
  by (auto simp: CBS_skip_iff elim!: definiteE)

lemma skip_tlv [simp]:
  "CBS_skip (asn1_tlv (c, tag)) (length (asn1_header tag (length c))) = (Some (), c)"
  by (simp add: asn1_tlv_def)

lemma CBS_get_any_asn1_iff:
  "CBS_get_any_asn1 cbs = (Some v, rest) \<longleftrightarrow> length (fst v) < 2 ^ 32 \<and> cbs = asn1_tlv v @ rest"
proof
  assume a: "CBS_get_any_asn1 cbs = (Some v, rest)"
  then obtain e s where e: "CBS_get_any_asn1_element cbs = (Some e, s)"
    by (auto simp: CBS_get_any_asn1_def chain_eq_Some)
  then obtain c where c: "definite e c" "cbs = el_out e @ s"
    by (auto simp: CBS_get_any_asn1_element_iff)
  with a e have "v = (c, el_tag e)" "s = rest"
    by (simp_all add: CBS_get_any_asn1_def definite_skip)
  with c show "length (fst v) < 2 ^ 32 \<and> cbs = asn1_tlv v @ rest"
    by (elim definiteE) simp
next
  assume *: "length (fst v) < 2 ^ 32 \<and> cbs = asn1_tlv v @ rest"
  obtain c tag where v: "v = (c, tag)" by (cases v)
  with * show "CBS_get_any_asn1 cbs = (Some v, rest)"
    by (simp add: CBS_get_any_asn1_def CBS_get_any_asn1_element_tlv)
qed

interpretation tlv: canonical_codec asn1_tlv CBS_get_any_asn1 "\<lambda>v. length (fst v) < 2 ^ 32"
  by unfold_locales (simp_all add: CBS_get_any_asn1_iff)

lemma CBS_get_asn1_iff:
  "CBS_get_asn1 cbs tag = (Some c, rest) \<longleftrightarrow> length c < 2 ^ 32 \<and> cbs = asn1_tlv (c, tag) @ rest"
proof
  assume a: "CBS_get_asn1 cbs tag = (Some c, rest)"
  then obtain e s where e: "CBS_get_any_asn1_element cbs = (Some e, s)"
    by (auto simp: CBS_get_asn1_def cbs_get_asn1_def chain_eq_Some)
  then obtain d where d: "definite e d" "cbs = el_out e @ s"
    by (auto simp: CBS_get_any_asn1_element_iff)
  with a e have "d = c" "el_tag e = tag" "s = rest"
    by (simp_all add: CBS_get_asn1_def cbs_get_asn1_def definite_skip split: if_splits)
  with d show "length c < 2 ^ 32 \<and> cbs = asn1_tlv (c, tag) @ rest"
    by (elim definiteE) simp
next
  assume "length c < 2 ^ 32 \<and> cbs = asn1_tlv (c, tag) @ rest"
  then show "CBS_get_asn1 cbs tag = (Some c, rest)"
    by (simp add: CBS_get_asn1_def cbs_get_asn1_def CBS_get_any_asn1_element_tlv)
qed

lemma CBS_get_asn1_element_out:
  "CBS_get_asn1_element cbs tag = (Some out, rest) \<longleftrightarrow>
    (\<exists>c. length c < 2 ^ 32 \<and> out = asn1_tlv (c, tag) \<and> cbs = out @ rest)"
proof
  assume "CBS_get_asn1_element cbs tag = (Some out, rest)"
  then obtain e where e: "CBS_get_any_asn1_element cbs = (Some e, rest)" "el_tag e = tag" "out = el_out e"
    by (auto simp: CBS_get_asn1_element_def cbs_get_asn1_def chain_eq_Some split: if_splits)
  then obtain c where "definite e c" "cbs = el_out e @ rest"
    by (auto simp: CBS_get_any_asn1_element_iff)
  with e show "\<exists>c. length c < 2 ^ 32 \<and> out = asn1_tlv (c, tag) \<and> cbs = out @ rest"
    by (metis definiteE)
next
  assume "\<exists>c. length c < 2 ^ 32 \<and> out = asn1_tlv (c, tag) \<and> cbs = out @ rest"
  then show "CBS_get_asn1_element cbs tag = (Some out, rest)"
    by (auto simp: CBS_get_asn1_element_def cbs_get_asn1_def CBS_get_any_asn1_element_tlv)
qed

lemma CBS_peek_asn1_tag_identifier:
  "CBS_peek_asn1_tag (asn1_identifier t @ rest) tag \<longleftrightarrow> t = tag"
  using length_asn1_identifier(1) [of t]
  by (auto simp: CBS_peek_asn1_tag_def CBS_len_def parse_asn1_tag_complete)

section \<open>Integers and booleans\<close>

text \<open>The minimal two's-complement contents of a non-negative INTEGER.\<close>

fun der_uint :: "nat \<Rightarrow> bytes" where
  "der_uint n = (if n < 128 then [of_nat n] else der_uint (n div 256) @ [of_nat n])"

declare der_uint.simps [simp del]

definition minimal_uint :: "bytes \<Rightarrow> bool" where
  "minimal_uint bs \<longleftrightarrow> bs \<noteq> [] \<and> unat (bs ! 0) < 128
     \<and> \<not> (bs ! 0 = 0 \<and> length bs > 1 \<and> unat (bs ! 1) < 128)"

lemma be_nat_ge_hd: "be_nat (b # bs) \<ge> unat b * 256 ^ length bs"
  by simp

lemma minimal_uint_ge:
  assumes "minimal_uint bs" and "length bs > 1"
  shows "128 \<le> be_nat bs"
proof -
  from assms(2) obtain x y zs where bs: "bs = x # y # zs"
    by (cases bs; cases "tl bs") auto
  have p: "1 \<le> (256::nat) ^ length zs" by simp
  show ?thesis
  proof (cases "x = 0")
    case True
    then have "128 \<le> unat y" using assms bs by (simp add: minimal_uint_def)
    then have "128 * 1 \<le> unat y * 256 ^ length zs" using p by (intro mult_le_mono)
    then show ?thesis using bs by simp
  next
    case False
    then have "1 \<le> unat x" by (metis One_nat_def Suc_leI unat_gt_0)
    then have "1 * (256 * 1) \<le> unat x * (256 * 256 ^ length zs)" using p by (intro mult_le_mono) simp_all
    then have "128 \<le> unat x * (256 * 256 ^ length zs)" by simp
    then show ?thesis using bs by (simp add: trans_le_add1)
  qed
qed

lemma minimal_uint_der_uint: "minimal_uint bs \<Longrightarrow> bs = der_uint (be_nat bs)"
proof (induction bs rule: rev_induct)
  case (snoc b xs)
  show ?case
  proof (cases "xs = []")
    case True
    with snoc.prems show ?thesis by (subst der_uint.simps) (simp add: minimal_uint_def)
  next
    case False
    with snoc.prems have "minimal_uint xs"
      by (auto simp: minimal_uint_def nth_append split: if_splits)
    with snoc.IH have IH: "xs = der_uint (be_nat xs)" .
    have ge: "\<not> be_nat (xs @ [b]) < 128"
      using minimal_uint_ge [OF snoc.prems] False by (simp add: not_less)
    have d: "be_nat (xs @ [b]) div 256 = be_nat xs" by simp
    have m: "(of_nat (be_nat (xs @ [b])) :: u8) = b" by (rule byte_of_nat_eqI) simp
    show ?thesis
      by (subst der_uint.simps) (simp only: ge d m if_False IH [symmetric])
  qed
qed (simp add: minimal_uint_def)

lemma der_uint_nonempty [simp]: "der_uint n \<noteq> []"
  by (subst der_uint.simps) simp

lemma be_nat_der_uint: "be_nat (der_uint n) = n"
proof (induction n rule: der_uint.induct)
  case (1 n)
  then show ?case by (subst der_uint.simps) (auto simp: byte_simps)
qed

lemma minimal_der_uint: "minimal_uint (der_uint n)"
proof (induction n rule: der_uint.induct)
  case (1 n)
  show ?case
  proof (cases "n < 128")
    case True
    then show ?thesis by (subst der_uint.simps) (simp add: minimal_uint_def byte_simps)
  next
    case False
    let ?xs = "der_uint (n div 256)"
    have IH: "minimal_uint ?xs" using 1 False by simp
    have e: "der_uint n = ?xs @ [of_nat n]" using False by (subst der_uint.simps) simp
    show ?thesis
    proof (cases "length ?xs = 1")
      case True
      then obtain x where x: "?xs = [x]" by (metis length_Suc_conv length_0_conv One_nat_def)
      then have "unat x = n div 256" using be_nat_der_uint [of "n div 256"] by simp
      then have "x = 0 \<Longrightarrow> n < 256" by (simp add: div_eq_0_iff)
      with False IH x show ?thesis
        by (auto simp: e minimal_uint_def byte_simps)
    next
      case False
      then have "1 < length ?xs" using der_uint_nonempty [of "n div 256"]
        by (metis One_nat_def length_0_conv less_one linorder_neqE_nat)
      then show ?thesis using IH by (auto simp: e minimal_uint_def nth_append)
    qed
  qed
qed

lemma length_der_uint: "n < 128 * 256 ^ k \<Longrightarrow> length (der_uint n) \<le> Suc k"
proof (induction k arbitrary: n)
  case (Suc k)
  then have "n div 256 < 128 * 256 ^ k" by (simp add: div_less_iff_less_mult mult.commute)
  with Suc.IH show ?case by (subst der_uint.simps) simp
qed (simp add: der_uint.simps)

lemma asn1_uint64_loop_eq:
  "asn1_uint64_loop out bs =
    (if unat out * 256 ^ length bs + be_nat bs < 2 ^ 64
     then Some (of_nat (unat out * 256 ^ length bs + be_nat bs)) else None)"
proof (induction bs arbitrary: out)
  case Nil
  then show ?case using unsigned_less [of out] by simp
next
  case (Cons b bs)
  have d: "drop_bit 56 out \<noteq> 0 \<longleftrightarrow> 2 ^ 56 \<le> unat out"
    by (simp only: drop_bit_eq_0_unat not_less)
  show ?case
  proof (cases "2 ^ 56 \<le> unat out")
    case True
    have "2 ^ 56 * 256 ^ 1 \<le> unat out * 256 ^ length (b # bs)"
      using True by (intro mult_le_mono power_increasing) simp_all
    with True d show ?thesis by simp
  next
    case False
    have "unat out * 2 ^ 8 + unat b < 2 ^ 64"
    proof -
      have "unat out \<le> 2 ^ 56 - 1" using False by simp
      then have "unat out * 256 + unat b \<le> (2 ^ 56 - 1) * 256 + 255"
        by (intro add_mono mult_le_mono) simp_all
      then show ?thesis by simp
    qed
    then have "unat (push_bit 8 out OR ucast b) = unat out * 2 ^ 8 + unat b"
      by (intro unat_push_or) simp_all
    with False d Cons.IH show ?thesis by (simp add: algebra_simps)
  qed
qed

lemma CBS_get_asn1_uint64_iff:
  "CBS_get_asn1_uint64 cbs = (Some v, rest) \<longleftrightarrow>
    cbs = asn1_tlv (der_uint (unat v), CBS_ASN1_INTEGER) @ rest"
proof
  assume "CBS_get_asn1_uint64 cbs = (Some v, rest)"
  then obtain bs where bs: "CBS_get_asn1 cbs CBS_ASN1_INTEGER = (Some bs, rest)"
    and min: "minimal_uint bs" and v: "asn1_uint64_loop 0 bs = Some v"
    by (auto simp: CBS_get_asn1_uint64_def chain_eq_Some Let_def minimal_uint_def CBS_len_def
        byte_high_bit split: if_splits)
  have "unat v = be_nat bs"
    using v by (auto simp: asn1_uint64_loop_eq unat_of_nat take_bit_nat_eq_self split: if_splits)
  then show "cbs = asn1_tlv (der_uint (unat v), CBS_ASN1_INTEGER) @ rest"
    using bs minimal_uint_der_uint [OF min] by (simp add: CBS_get_asn1_iff)
next
  assume cbs: "cbs = asn1_tlv (der_uint (unat v), CBS_ASN1_INTEGER) @ rest"
  let ?bs = "der_uint (unat v)"
  have v64: "unat v < 2 ^ 64" using unsigned_less [of v] by simp
  then have loop: "asn1_uint64_loop 0 ?bs = Some v"
    by (simp add: asn1_uint64_loop_eq be_nat_der_uint)
  have "unat v < 128 * 256 ^ 8" using v64 by simp
  then have "length ?bs < 2 ^ 32" using length_der_uint [of "unat v" 8] by simp
  with cbs have "CBS_get_asn1 cbs CBS_ASN1_INTEGER = (Some ?bs, rest)"
    by (simp add: CBS_get_asn1_iff)
  with minimal_der_uint [of "unat v"] loop show "CBS_get_asn1_uint64 cbs = (Some v, rest)"
    by (auto simp: CBS_get_asn1_uint64_def Let_def minimal_uint_def CBS_len_def byte_high_bit)
qed

interpretation uint64: canonical_codec "\<lambda>v. asn1_tlv (der_uint (unat v), CBS_ASN1_INTEGER)"
    CBS_get_asn1_uint64 "\<lambda>_. True"
  by unfold_locales (simp_all add: CBS_get_asn1_uint64_iff)

definition der_bool :: "int \<Rightarrow> bytes" where
  "der_bool v = asn1_tlv ([if v = 0 then 0 else 0xff], CBS_ASN1_BOOLEAN)"

lemma CBS_get_asn1_bool_iff:
  "CBS_get_asn1_bool cbs = (Some v, rest) \<longleftrightarrow> v \<in> {0, 1} \<and> cbs = der_bool v @ rest"
proof
  assume "CBS_get_asn1_bool cbs = (Some v, rest)"
  then obtain bs where bs: "CBS_get_asn1 cbs CBS_ASN1_BOOLEAN = (Some bs, rest)"
    and one: "length bs = 1" and v: "bs ! 0 = 0 \<and> v = 0 \<or> bs ! 0 = 0xff \<and> v = 1"
    by (auto simp: CBS_get_asn1_bool_def chain_eq_Some CBS_len_def Let_def split: if_splits)
  from one obtain b where "bs = [b]" by (auto simp: length_Suc_conv)
  with bs v show "v \<in> {0, 1} \<and> cbs = der_bool v @ rest"
    by (auto simp: CBS_get_asn1_iff der_bool_def)
next
  assume *: "v \<in> {0, 1} \<and> cbs = der_bool v @ rest"
  then have "CBS_get_asn1 cbs CBS_ASN1_BOOLEAN = (Some [if v = 0 then 0 else 0xff], rest)"
    by (simp add: CBS_get_asn1_iff der_bool_def)
  with * show "CBS_get_asn1_bool cbs = (Some v, rest)"
    by (auto simp: CBS_get_asn1_bool_def CBS_len_def)
qed

interpretation bool: canonical_codec der_bool CBS_get_asn1_bool "\<lambda>v. v \<in> {0, 1}"
  by unfold_locales (simp_all add: CBS_get_asn1_bool_iff)

text \<open>Optional fields: present with that tag, and then well formed, or absent and defaulted.\<close>

lemma CBS_get_optional_asn1_iff:
  "CBS_get_optional_asn1 cbs tag = (Some r, rest) \<longleftrightarrow>
    (case r of
       Some c \<Rightarrow> length c < 2 ^ 32 \<and> cbs = asn1_tlv (c, tag) @ rest
     | None \<Rightarrow> \<not> CBS_peek_asn1_tag cbs tag \<and> rest = cbs)"
proof -
  have "CBS_peek_asn1_tag (asn1_tlv (c, tag) @ rest) tag" for c
    using CBS_peek_asn1_tag_identifier [of tag _ tag] by (simp add: asn1_tlv_def asn1_header_def)
  then show ?thesis
    by (auto simp: CBS_get_optional_asn1_def chain_eq_Some CBS_get_asn1_iff split: option.splits)
qed

lemma CBS_get_optional_asn1_uint64_present:
  assumes "CBS_get_optional_asn1_uint64 cbs tag d = (Some v, rest)" and "CBS_peek_asn1_tag cbs tag"
  shows "cbs = asn1_tlv (asn1_tlv (der_uint (unat v), CBS_ASN1_INTEGER), tag) @ rest"
proof -
  from assms(1) obtain r s where r: "CBS_get_optional_asn1 cbs tag = (Some r, s)"
    by (auto simp: CBS_get_optional_asn1_uint64_def chain_eq_Some)
  from r assms(2) obtain child where child: "r = Some child" "cbs = asn1_tlv (child, tag) @ s"
    by (cases r) (auto simp: CBS_get_optional_asn1_iff)
  obtain q t where q: "CBS_get_asn1_uint64 child = (q, t)" by fastforce
  from assms(1) r child(1) q have "q = Some v" "t = []" "s = rest"
    by (cases q; simp add: CBS_get_optional_asn1_uint64_def CBS_len_def split: if_splits)+
  with q child show ?thesis by (simp add: CBS_get_asn1_uint64_iff)
qed

section \<open>Bit strings\<close>

lemma low_bits_zero:
  assumes "n < 8"
  shows "(b::u8) AND (push_bit n 1 - 1) = 0 \<longleftrightarrow> unat b mod 2 ^ n = 0"
proof -
  have m: "(push_bit n 1 - 1 :: u8) = mask n" by (simp add: mask_eq_exp_minus_1 push_bit_of_1)
  show ?thesis unfolding m by (simp only: word_unat_eq_iff unat_and_mask unsigned_0)
qed

text \<open>
  A valid BIT STRING has a first octet of at most 7 and, when it is not 0, a last octet
  whose that many low bits exist and are 0.
\<close>

lemma CBS_is_valid_asn1_bitstring_iff:
  "CBS_is_valid_asn1_bitstring cbs \<longleftrightarrow>
    (\<exists>u body. cbs = u # body \<and> unat u \<le> 7
       \<and> (u = 0 \<or> (body \<noteq> [] \<and> unat (last body) mod 2 ^ unat u = 0)))"
proof (cases cbs)
  case Nil
  then show ?thesis by (simp add: CBS_is_valid_asn1_bitstring_def)
next
  case (Cons u body)
  have big: "u > 7 \<longleftrightarrow> 7 < unat u" by (simp add: word_less_nat_alt)
  show ?thesis
  proof (cases "7 < unat u \<or> u = 0 \<or> body = []")
    case True
    with Cons big show ?thesis
      by (auto simp: CBS_is_valid_asn1_bitstring_def CBS_get_last_u8_def CBS_len_def)
  next
    case False
    then have "CBS_is_valid_asn1_bitstring cbs \<longleftrightarrow>
        last body AND (push_bit (unat u) 1 - 1) = 0"
      using Cons big by (simp add: CBS_is_valid_asn1_bitstring_def CBS_get_last_u8_def CBS_len_def
          last_conv_nth)
    also have "\<dots> \<longleftrightarrow> unat (last body) mod 2 ^ unat u = 0"
      using False by (intro low_bits_zero) simp
    finally show ?thesis using False Cons by auto
  qed
qed

text \<open>Bit \<open>i\<close> of a BIT STRING, counted from the most significant bit of the first octet.\<close>

lemma CBS_asn1_bitstring_has_bit_iff:
  assumes "CBS_is_valid_asn1_bitstring (u # body)"
  shows "CBS_asn1_bitstring_has_bit (u # body) i \<longleftrightarrow>
    unat i div 8 < length body \<and> bit (body ! (unat i div 8)) (7 - unat i mod 8)"
proof -
  have "unat (drop_bit 3 i) + 1 < 2 ^ 32"
  proof -
    have "unat i < 2 ^ 32" using unsigned_less [of i] by simp
    then show ?thesis by (simp add: unat_drop_bit_div)
  qed
  then have byte: "unat (drop_bit 3 i + 1) = unat i div 8 + 1"
    by (simp add: unat_word_ariths unat_drop_bit_div)
  have m: "unat (i AND 7) = unat i mod 8"
    using unat_and_mask [of i 3] by (simp add: mask_eq_exp_minus_1)
  then have "(i AND 7) \<le> 7" by (simp add: word_le_nat_alt)
  then have sub: "unat (7 - (i AND 7)) = 7 - unat i mod 8"
    by (simp add: unat_sub m)
  have b: "(x::u8) AND push_bit k 1 \<noteq> 0 \<longleftrightarrow> bit x k" for x k
    by (metis and_exp_eq_0_iff_not_bit push_bit_of_1)
  show ?thesis
    unfolding CBS_asn1_bitstring_has_bit_def Let_def byte sub b
    using assms by (simp add: CBS_len_def)
qed

section \<open>Properties\<close>

lemma uint64_element_short: "length (asn1_tlv (der_uint (unat (v :: u64)), CBS_ASN1_INTEGER)) < 2 ^ 32"
proof -
  have "unat v < 2 ^ 64" using unsigned_less [of v] by simp
  then have "length (der_uint (unat v)) \<le> 9" using length_der_uint [of "unat v" 8] by simp
  then show ?thesis
    by (simp add: asn1_tlv_def asn1_header_def asn1_length_def asn1_identifier_def Let_def CBS_ASN1_INTEGER_def
        CBS_ASN1_TAG_SHIFT_def CBS_ASN1_TAG_NUMBER_MASK_def)
qed

text \<open>The tag parser accepts exactly one spelling of every tag: what \<^verbatim>\<open>parse_asn1_tag\<close> reads as \<open>t\<close> is the identifier of \<open>t\<close> with
  the shortest form of its number (and every 32-bit tag value without number bits above 29 has one).
\<close>

theorem tag_parser_canonical:
  "parse_asn1_tag bs = (Some t, rest) \<longleftrightarrow> bs = asn1_identifier t @ rest"
  by (simp add: tag.dec_iff)

text \<open>C29.
  The element parser \<^verbatim>\<open>CBS_get_any_asn1\<close> reads contents \<open>c\<close> with tag \<open>t\<close> exactly when the input starts with the DER encoding of that
  element, with its length in the shortest form and below 2^32: no other encoding is accepted.
\<close>

theorem element_parser_canonical:
  "CBS_get_any_asn1 bs = (Some (c, t), rest) \<longleftrightarrow> length c < 2 ^ 32 \<and> bs = asn1_tlv (c, t) @ rest"
  by (simp add: tlv.dec_iff)

text \<open>\<^verbatim>\<open>CBS_get_asn1_uint64\<close> reads \<open>v\<close> exactly from the INTEGER element with the minimal two's complement contents of \<open>v\<close>: negative and
  padded contents and values of more than 64 bits are rejected.
\<close>

theorem uint64_parser_canonical:
  "CBS_get_asn1_uint64 bs = (Some v, rest) \<longleftrightarrow>
    bs = asn1_tlv (der_uint (unat v), CBS_ASN1_INTEGER) @ rest"
  by (rule CBS_get_asn1_uint64_iff)

text \<open>An optional field is parsed strictly: \<^verbatim>\<open>CBS_get_optional_asn1_uint64\<close> gives the default, reading nothing, exactly when the next tag is
  another one, and otherwise exactly the value whose minimal INTEGER is all that the explicit tag contains; everything else fails.
\<close>

theorem optional_uint64_strict:
  "CBS_get_optional_asn1_uint64 cbs tag d = (Some v, rest) \<longleftrightarrow>
    (if CBS_peek_asn1_tag cbs tag
     then cbs = asn1_tlv (asn1_tlv (der_uint (unat v), CBS_ASN1_INTEGER), tag) @ rest
     else v = d \<and> rest = cbs)"
proof (cases "CBS_peek_asn1_tag cbs tag")
  case True
  have "CBS_get_optional_asn1_uint64 cbs tag d = (Some v, rest)"
    if cbs: "cbs = asn1_tlv (asn1_tlv (der_uint (unat v), CBS_ASN1_INTEGER), tag) @ rest"
  proof -
    let ?c = "asn1_tlv (der_uint (unat v), CBS_ASN1_INTEGER)"
    have "CBS_get_asn1_uint64 ?c = (Some v, [])" by (simp add: CBS_get_asn1_uint64_iff)
    moreover have "CBS_get_optional_asn1 cbs tag = (Some (Some ?c), rest)"
      using cbs uint64_element_short [of v] by (simp add: CBS_get_optional_asn1_iff)
    ultimately show ?thesis by (simp add: CBS_get_optional_asn1_uint64_def CBS_len_def)
  qed
  with True CBS_get_optional_asn1_uint64_present show ?thesis by auto
next
  case False
  then have "CBS_get_optional_asn1 cbs tag = (Some None, cbs)" by (simp add: CBS_get_optional_asn1_iff)
  with False show ?thesis by (auto simp: CBS_get_optional_asn1_uint64_def)
qed

text \<open>In a valid BIT STRING \<^verbatim>\<open>CBS_asn1_bitstring_has_bit\<close> reads bit \<open>i\<close> counted from the most significant bit of the first contents octet, and
  gives 0 beyond the last octet.
\<close>

theorem bitstring_bits:
  assumes "CBS_is_valid_asn1_bitstring (u # body)"
  shows "CBS_asn1_bitstring_has_bit (u # body) i \<longleftrightarrow>
    unat i div 8 < length body \<and> bit (body ! (unat i div 8)) (7 - unat i mod 8)"
  by (rule CBS_asn1_bitstring_has_bit_iff [OF assms])

lemma bitstring_bits_witness:
  "CBS_asn1_bitstring_has_bit [5, 0xa0] 2 \<longleftrightarrow> bit (0xa0 :: u8) 5"
  using bitstring_bits [of 5 "[0xa0]" 2] by (simp add: CBS_is_valid_asn1_bitstring_iff)

end
