(* ===== verification/Sorting.thy ===== *)
theory Sorting
  imports Main "HOL-Library.Multiset"
begin

text \<open>
  The C library's \<^verbatim>\<open>qsort\<close> and \<^verbatim>\<open>bsearch\<close>.  The C standard leaves open how equal elements are ordered and which of several
  matches is found; the locale \<open>sorting_library\<close> states what it does promise for a comparison function that is an order, and the
  functions \<open>qsort\<close> and \<open>bsearch\<close> are one library that keeps the promise.
\<close>

text \<open>A comparison function in the sense of the standard: a total preorder.\<close>

definition compare_ok :: "('a \<Rightarrow> 'a \<Rightarrow> int) \<Rightarrow> bool" where
  "compare_ok c \<longleftrightarrow> (\<forall>x y. c x y = 0 \<longleftrightarrow> c y x = 0) \<and> (\<forall>x y. c x y < 0 \<longleftrightarrow> 0 < c y x) \<and>
     (\<forall>x y z. c x y \<le> 0 \<longrightarrow> c y z \<le> 0 \<longrightarrow> c x z \<le> 0)"

abbreviation ascending :: "('a \<Rightarrow> 'a \<Rightarrow> int) \<Rightarrow> 'a list \<Rightarrow> bool" where
  "ascending c xs \<equiv> sorted_wrt (\<lambda>x y. c x y \<le> 0) xs"

lemma compare_okD:
  assumes "compare_ok c"
  shows "c x y = 0 \<longleftrightarrow> c y x = 0" and "c x y < 0 \<longleftrightarrow> 0 < c y x" and "c x y \<le> 0 \<Longrightarrow> c y z \<le> 0 \<Longrightarrow> c x z \<le> 0"
    and "c x x = 0"
proof -
  show "c x y = 0 \<longleftrightarrow> c y x = 0" and "c x y < 0 \<longleftrightarrow> 0 < c y x" and "c x y \<le> 0 \<Longrightarrow> c y z \<le> 0 \<Longrightarrow> c x z \<le> 0"
    using assms unfolding compare_ok_def by blast+
  have "c x x < 0 \<longleftrightarrow> 0 < c x x" using assms unfolding compare_ok_def by blast
  then show "c x x = 0" by linarith
qed

lemma compare_ok_le: "compare_ok c \<Longrightarrow> \<not> c x y \<le> 0 \<Longrightarrow> c y x \<le> 0"
  using compare_okD(2) [of c y x] by linarith

locale sorting_library =
  fixes qs :: "('a \<Rightarrow> 'a \<Rightarrow> int) \<Rightarrow> 'a list \<Rightarrow> 'a list"
    and bs :: "('a \<Rightarrow> 'a \<Rightarrow> int) \<Rightarrow> 'a \<Rightarrow> 'a list \<Rightarrow> nat option"
  assumes qs_mset: "compare_ok c \<Longrightarrow> mset (qs c xs) = mset xs"
    and qs_ascending: "compare_ok c \<Longrightarrow> ascending c (qs c xs)"
    and bs_Some: "compare_ok c \<Longrightarrow> ascending c xs \<Longrightarrow> bs c p xs = Some i \<Longrightarrow> i < length xs \<and> c p (xs ! i) = 0"
    and bs_None: "compare_ok c \<Longrightarrow> ascending c xs \<Longrightarrow> bs c p xs = None \<Longrightarrow> x \<in> set xs \<Longrightarrow> c p x \<noteq> 0"
begin

lemma qs_length: "compare_ok c \<Longrightarrow> length (qs c xs) = length xs"
  by (metis qs_mset size_mset)

lemma bs_iff:
  assumes "compare_ok c" and "ascending c xs"
  shows "bs c p xs = None \<longleftrightarrow> (\<forall>x\<in>set xs. c p x \<noteq> 0)"
  using bs_None [OF assms] bs_Some [OF assms, of p] by (cases "bs c p xs") (auto dest: nth_mem)

end

section \<open>A library\<close>

primrec insert_by :: "('a \<Rightarrow> 'a \<Rightarrow> int) \<Rightarrow> 'a \<Rightarrow> 'a list \<Rightarrow> 'a list" where
  "insert_by cmp x [] = [x]"
| "insert_by cmp x (y # ys) = (if cmp x y \<le> 0 then x # y # ys else y # insert_by cmp x ys)"

definition qsort :: "('a \<Rightarrow> 'a \<Rightarrow> int) \<Rightarrow> 'a list \<Rightarrow> 'a list" where
  "qsort cmp xs = foldr (insert_by cmp) xs []"

function bsearch_between :: "('a \<Rightarrow> 'a \<Rightarrow> int) \<Rightarrow> 'a \<Rightarrow> 'a list \<Rightarrow> nat \<Rightarrow> nat \<Rightarrow> nat option" where
  "bsearch_between cmp key xs l u =
     (if l < u then
        let idx = (l + u) div 2; r = cmp key (xs ! idx) in
        if r < 0 then bsearch_between cmp key xs l idx
        else if r > 0 then bsearch_between cmp key xs (idx + 1) u
        else Some idx
      else None)"
  by pat_completeness auto
termination
  by (relation "measure (\<lambda>(_, _, _, l, u). u - l)") auto

declare bsearch_between.simps [simp del]

definition bsearch :: "('a \<Rightarrow> 'a \<Rightarrow> int) \<Rightarrow> 'a \<Rightarrow> 'a list \<Rightarrow> nat option" where
  "bsearch cmp key xs = bsearch_between cmp key xs 0 (length xs)"

lemma mset_insert_by [simp]: "mset (insert_by c x ys) = add_mset x (mset ys)"
  by (induction ys) auto

lemma mset_qsort [simp]: "mset (qsort c xs) = mset xs"
  by (induction xs) (simp_all add: qsort_def)

lemma ascending_insert_by:
  assumes "compare_ok c"
  shows "ascending c ys \<Longrightarrow> ascending c (insert_by c x ys)"
proof (induction ys)
  case (Cons y ys)
  have "set (insert_by c x ys) = insert x (set ys)"
    by (metis mset_insert_by set_mset_add_mset_insert set_mset_mset)
  with Cons compare_okD(3) [OF assms] compare_ok_le [OF assms, of x y] show ?case by auto
qed simp

lemma ascending_qsort: "compare_ok c \<Longrightarrow> ascending c (qsort c xs)"
  by (induction xs) (simp_all add: qsort_def ascending_insert_by)

lemma bsearch_between_Some:
  "bsearch_between c key xs l u = Some i \<Longrightarrow> u \<le> length xs \<Longrightarrow> i < length xs \<and> c key (xs ! i) = 0"
proof (induction c key xs l u rule: bsearch_between.induct)
  case (1 c key xs l u)
  show ?case
  proof (cases "l < u")
    case True
    then have "(l + u) div 2 < u" by simp
    with 1 True show ?thesis
      by (subst (asm) (3) bsearch_between.simps) (auto simp: Let_def split: if_splits)
  qed (use 1 in \<open>simp add: bsearch_between.simps\<close>)
qed

lemma bsearch_between_None:
  assumes "compare_ok c" and "ascending c xs"
  shows "bsearch_between c key xs l u = None \<Longrightarrow> u \<le> length xs \<Longrightarrow> \<forall>j. l \<le> j \<and> j < u \<longrightarrow> c key (xs ! j) \<noteq> 0"
proof (induction "u - l" arbitrary: l u rule: less_induct)
  case less
  show ?case
  proof (intro allI impI)
    fix j assume j: "l \<le> j \<and> j < u"
    let ?i = "(l + u) div 2"
    have i: "l \<le> ?i" "?i < u" using j by auto
    have le: "c (xs ! a) (xs ! b) \<le> 0" if "a < b" "b < length xs" for a b
      using assms(2) that by (simp add: sorted_wrt_iff_nth_less)
    note O = compare_okD [OF assms(1)]
    consider "c key (xs ! ?i) < 0" | "c key (xs ! ?i) > 0" | "c key (xs ! ?i) = 0" by linarith
    then show "c key (xs ! j) \<noteq> 0"
    proof cases
      case 1
      then have rec: "bsearch_between c key xs l ?i = None"
        using less.prems(1) i by (subst (asm) bsearch_between.simps) (simp add: Let_def)
      show ?thesis
      proof (cases "j < ?i")
        case True
        with less.hyps [OF _ rec] i j less.prems(2) show ?thesis by auto
      next
        case False
        then have "j = ?i \<or> c (xs ! ?i) (xs ! j) \<le> 0" using le [of ?i j] j less.prems(2) by linarith
        with 1 O(1) [of key "xs ! j"] O(3) [of "xs ! ?i" "xs ! j" key] O(2) [of key "xs ! ?i"] show ?thesis
          by (metis less_irrefl not_le order_refl)
      qed
    next
      case 2
      then have rec: "bsearch_between c key xs (?i + 1) u = None"
        using less.prems(1) i by (subst (asm) bsearch_between.simps) (simp add: Let_def)
      show ?thesis
      proof (cases "?i < j")
        case True
        with less.hyps [OF _ rec] i j less.prems(2) show ?thesis by auto
      next
        case False
        then have "j = ?i \<or> c (xs ! j) (xs ! ?i) \<le> 0" using le [of j ?i] i less.prems(2) by linarith
        with 2 O(3) [of key "xs ! j" "xs ! ?i"] show ?thesis
          by (metis less_irrefl not_le order_refl)
      qed
    next
      case 3
      with less.prems(1) i show ?thesis by (subst (asm) bsearch_between.simps) (simp add: Let_def)
    qed
  qed
qed

interpretation libc: sorting_library qsort bsearch
proof unfold_locales
  fix c :: "'a \<Rightarrow> 'a \<Rightarrow> int" and xs p i x
  assume c: "compare_ok c"
  show "mset (qsort c xs) = mset xs" by simp
  show "ascending c (qsort c xs)" using c by (rule ascending_qsort)
  show "i < length xs \<and> c p (xs ! i) = 0" if "bsearch c p xs = Some i"
    using bsearch_between_Some that by (fastforce simp: bsearch_def)
  show "c p x \<noteq> 0" if "ascending c xs" "bsearch c p xs = None" "x \<in> set xs"
    using bsearch_between_None [OF c that(1), of p 0 "length xs"] that
    by (auto simp: bsearch_def in_set_conv_nth)
qed

end
