(* ===== verification/Cbb.thy ===== *)
theory Cbb
  imports Der Sorting
begin

text \<open>
  \<^verbatim>\<open>BoringSSL/crypto/bytestring/cbb.c\<close>: the byte builder.  A \<^verbatim>\<open>CBB\<close> and its pending descendants
  share one \<^verbatim>\<open>cbb_buffer_st\<close>; the state \<open>cbb_state\<close> is that buffer (\<open>None\<close> for a null \<^verbatim>\<open>base\<close>) and
  the chain of pending children below the \<^verbatim>\<open>CBB\<close> an operation is called on.  Detaching a child
  (its \<^verbatim>\<open>base\<close> becomes null) removes it from the chain.  An operation returns \<open>Some ()\<close> for 1 and \<open>None\<close>
  for 0, with the state it leaves.  An operation on a child runs under its parent by \<open>on_child\<close>.
\<close>

section \<open>State\<close>

record cbb_buffer =
  bb_buf :: bytes
  bb_len :: nat
  bb_cap :: nat
  bb_can_resize :: bool
  bb_error :: bool

datatype cbb =
  CBB (offset: nat) (pending_len_len: nat) (pending_is_asn1: bool) (is_top_level: bool)
    (child: "cbb option")

type_synonym cbb_state = "cbb_buffer option \<times> cbb"
type_synonym cbb_result = "unit option \<times> cbb_state"

fun set_child :: "cbb option \<Rightarrow> cbb \<Rightarrow> cbb" where
  "set_child ch (CBB off pll asn1 toplevel _) = CBB off pll asn1 toplevel ch"

lemma set_child_simps [simp]:
  "offset (set_child ch c) = offset c" "pending_len_len (set_child ch c) = pending_len_len c"
  "pending_is_asn1 (set_child ch c) = pending_is_asn1 c"
  "is_top_level (set_child ch c) = is_top_level c" "child (set_child ch c) = ch"
  "set_child ch (set_child ch' c) = set_child ch c"
  by (cases c; simp)+

definition on_child :: "(cbb_state \<Rightarrow> cbb_result) \<Rightarrow> cbb_state \<Rightarrow> cbb_result" where
  "on_child f s =
     (case child (snd s) of
        None \<Rightarrow> (None, s)
      | Some c \<Rightarrow> (case f (fst s, c) of (r, base, c) \<Rightarrow> (r, base, set_child (Some c) (snd s))))"

section \<open>Life cycle\<close>

definition CBB_zero :: cbb_state where
  "CBB_zero = (None, CBB 0 0 False False None)"

definition cbb_init :: "malloc \<Rightarrow> bytes \<Rightarrow> nat \<Rightarrow> cbb_result" where
  "cbb_init m buf cap =
     (case OPENSSL_malloc m 32 of
        None \<Rightarrow> (None, CBB_zero)
      | Some _ \<Rightarrow>
          (Some (), Some \<lparr>bb_buf = buf, bb_len = 0, bb_cap = cap, bb_can_resize = True,
                          bb_error = False\<rparr>, CBB 0 0 False True None))"

definition CBB_init :: "malloc \<Rightarrow> nat \<Rightarrow> cbb_result" where
  "CBB_init m initial_capacity =
     (case OPENSSL_malloc m initial_capacity of
        None \<Rightarrow>
          if initial_capacity > 0 then (None, CBB_zero) else cbb_init m [] initial_capacity
      | Some buf \<Rightarrow> cbb_init m (blk_data buf) initial_capacity)"

definition CBB_init_fixed :: "malloc \<Rightarrow> bytes \<Rightarrow> nat \<Rightarrow> cbb_result" where
  "CBB_init_fixed m buf len =
     (case cbb_init m buf len of
        (None, s) \<Rightarrow> (None, s)
      | (Some _, base, c) \<Rightarrow> (Some (), map_option (\<lambda>b. b\<lparr>bb_can_resize := False\<rparr>) base, c))"

definition CBB_cleanup :: "cbb_state \<Rightarrow> cbb_state" where
  "CBB_cleanup s = (None, snd s)"

section \<open>The buffer\<close>

definition cbb_buffer_reserve :: "malloc \<Rightarrow> cbb_buffer option \<Rightarrow> nat \<Rightarrow> unit option \<times> cbb_buffer option" where
  "cbb_buffer_reserve m base_ptr len =
     (case base_ptr of
        None \<Rightarrow> (None, None)
      | Some base \<Rightarrow>
          let newlen = size_add (bb_len base) len; err = (None, Some (base\<lparr>bb_error := True\<rparr>)) in
          if newlen < bb_len base then err
          else if newlen > bb_cap base then
            (let newcap = size_mul (bb_cap base) 2 in
             if \<not> bb_can_resize base then err
             else
               let newcap = (if newcap < bb_cap base \<or> newcap < newlen then newlen else newcap) in
               case OPENSSL_realloc m (Some \<lparr>blk_size = bb_cap base, blk_data = bb_buf base\<rparr>) newcap of
                 None \<Rightarrow> err
               | Some newbuf \<Rightarrow> (Some (), Some (base\<lparr>bb_buf := blk_data newbuf, bb_cap := newcap\<rparr>)))
          else (Some (), Some base))"

definition cbb_buffer_add :: "malloc \<Rightarrow> cbb_buffer option \<Rightarrow> nat \<Rightarrow> nat option \<times> cbb_buffer option" where
  "cbb_buffer_add m base len =
     chain (cbb_buffer_reserve m base len) (\<lambda>_ base.
       case base of
         None \<Rightarrow> (None, None)
       | Some b \<Rightarrow> (Some (bb_len b), Some (b\<lparr>bb_len := bb_len b + len\<rparr>)))"

text \<open>
  The loop \<^verbatim>\<open>for (i = n - 1; i < n; i--) { buf[pos + i] = v; v >>= 8; }\<close>: the buffer, and what is left of
  the value.
\<close>

primrec store_be :: "bytes \<Rightarrow> nat \<Rightarrow> nat \<Rightarrow> nat \<Rightarrow> bytes \<times> nat" where
  "store_be buf pos 0 v = (buf, v)"
| "store_be buf pos (Suc n) v = store_be (buf[pos + n := of_nat v]) pos n (v div 256)"

definition cbb_buffer_add_u :: "malloc \<Rightarrow> cbb_buffer option \<Rightarrow> u32 \<Rightarrow> nat \<Rightarrow> unit option \<times> cbb_buffer option" where
  "cbb_buffer_add_u m base v len_len =
     (if len_len = 0 then (Some (), base)
      else chain (cbb_buffer_add m base len_len) (\<lambda>pos base.
        case base of
          None \<Rightarrow> (None, None)
        | Some b \<Rightarrow>
            (case store_be (bb_buf b) pos len_len (unat v) of (buf, v) \<Rightarrow>
               if v \<noteq> 0 then (None, Some (b\<lparr>bb_buf := buf, bb_error := True\<rparr>))
               else (Some (), Some (b\<lparr>bb_buf := buf\<rparr>)))))"

section \<open>Flushing\<close>

text \<open>The choice of the length form: its size, its first byte, and the length still to be written.\<close>

definition asn1_length_form :: "nat \<Rightarrow> nat \<times> u8 \<times> nat" where
  "asn1_length_form len =
     (if len > 0xffffff then (5, 0x80 OR 4, len)
      else if len > 0xffff then (4, 0x80 OR 3, len)
      else if len > 0xff then (3, 0x80 OR 2, len)
      else if len > 0x7f then (2, 0x80 OR 1, len)
      else (1, of_nat len, 0))"

text \<open>
  The part of \<^verbatim>\<open>CBB_flush\<close> that writes the length prefix of a child: moving the contents along
  for a long ASN.1 length, then storing the length bytes.
\<close>

definition make_space :: "malloc \<Rightarrow> cbb_buffer \<Rightarrow> nat \<Rightarrow> nat \<Rightarrow> nat \<Rightarrow> unit option \<times> cbb_buffer" where
  "make_space m base child_start len_len len =
     (if len_len \<noteq> 1 then
        (let extra_bytes = len_len - 1 in
         case cbb_buffer_add m (Some base) extra_bytes of
           (Some _, Some b) \<Rightarrow>
             (Some (), b\<lparr>bb_buf := mem_write (bb_buf b) (child_start + extra_bytes)
                           (take len (drop child_start (bb_buf b)))\<rparr>)
         | (_, Some b) \<Rightarrow> (None, b\<lparr>bb_error := True\<rparr>)
         | (_, None) \<Rightarrow> (None, base\<lparr>bb_error := True\<rparr>))
      else (Some (), base))"

definition store_length :: "cbb_buffer \<Rightarrow> nat \<Rightarrow> nat \<Rightarrow> nat \<Rightarrow> unit option \<times> cbb_buffer" where
  "store_length b off len_len len =
     (case store_be (bb_buf b) off len_len len of (buf, rest) \<Rightarrow>
        if rest \<noteq> 0 then (None, b\<lparr>bb_buf := buf, bb_error := True\<rparr>)
        else (Some (), b\<lparr>bb_buf := buf\<rparr>))"

definition write_prefix :: "malloc \<Rightarrow> cbb_buffer \<Rightarrow> cbb \<Rightarrow> nat \<Rightarrow> nat \<Rightarrow> unit option \<times> cbb_buffer" where
  "write_prefix m base c child_start len =
     (if pending_is_asn1 c then
        (if len > 0xfffffffe then (None, base\<lparr>bb_error := True\<rparr>)
         else case asn1_length_form len of (len_len, initial_length_byte, len) \<Rightarrow>
           chain (make_space m base child_start len_len len) (\<lambda>_ b.
             store_length (b\<lparr>bb_buf := (bb_buf b)[offset c := initial_length_byte]\<rparr>)
               (offset c + 1) (len_len - 1) len))
      else store_length base (offset c) (pending_len_len c) len)"

fun cbb_flush :: "malloc \<Rightarrow> cbb_buffer \<Rightarrow> cbb \<Rightarrow> unit option \<times> cbb_buffer \<times> cbb" where
  "cbb_flush m base (CBB off pll asn1 toplevel ch) =
     (if bb_error base then (None, base, CBB off pll asn1 toplevel ch)
      else case ch of
          None \<Rightarrow> (Some (), base, CBB off pll asn1 toplevel None)
        | Some c \<Rightarrow>
            if pending_len_len c = 0 then (Some (), base, CBB off pll asn1 toplevel ch)
            else
              (let child_start = size_add (offset c) (pending_len_len c) in
               case cbb_flush m base c of (r, base, c') \<Rightarrow>
                 if r = None \<or> child_start < offset c' \<or> bb_len base < child_start
                 then (None, base\<lparr>bb_error := True\<rparr>, CBB off pll asn1 toplevel (Some c'))
                 else
                   (case write_prefix m base c' child_start (bb_len base - child_start) of
                      (None, base) \<Rightarrow> (None, base, CBB off pll asn1 toplevel (Some c'))
                    | (Some _, base) \<Rightarrow> (Some (), base, CBB off pll asn1 toplevel None))))"

definition CBB_flush :: "malloc \<Rightarrow> cbb_state \<Rightarrow> cbb_result" where
  "CBB_flush m s =
     (case fst s of
        None \<Rightarrow> (None, s)
      | Some base \<Rightarrow> (case cbb_flush m base (snd s) of (r, base, c) \<Rightarrow> (r, Some base, c)))"

text \<open>The output of \<^verbatim>\<open>CBB_finish\<close>: the buffer and its length, for the pointers that are not null.\<close>

definition CBB_finish ::
  "malloc \<Rightarrow> bool \<Rightarrow> bool \<Rightarrow> cbb_state \<Rightarrow> (bytes option \<times> nat option) option \<times> cbb_state" where
  "CBB_finish m want_data want_len s =
     (if \<not> is_top_level (snd s) then (None, s)
      else chain (CBB_flush m s) (\<lambda>_ s.
        case fst s of
          None \<Rightarrow> (None, s)
        | Some b \<Rightarrow>
            if bb_can_resize b \<and> (\<not> want_data \<or> \<not> want_len) then (None, s)
            else (Some (if want_data then Some (bb_buf b) else None,
                        if want_len then Some (bb_len b) else None), CBB_cleanup s)))"

definition CBB_data :: "cbb_buffer \<Rightarrow> cbb \<Rightarrow> bytes" where
  "CBB_data base cbb = drop (offset cbb + pending_len_len cbb) (bb_buf base)"

definition CBB_len :: "cbb_buffer \<Rightarrow> cbb \<Rightarrow> nat" where
  "CBB_len base cbb = bb_len base - offset cbb - pending_len_len cbb"

section \<open>Adding data\<close>

definition buffer_op ::
  "(cbb_buffer option \<Rightarrow> unit option \<times> cbb_buffer option) \<Rightarrow> cbb_state \<Rightarrow> cbb_result" where
  "buffer_op f s = (case f (fst s) of (r, base) \<Rightarrow> (r, base, snd s))"

definition fill :: "nat \<Rightarrow> bytes \<Rightarrow> cbb_buffer option \<Rightarrow> unit option \<times> cbb_buffer option" where
  "fill pos data base = (Some (), map_option (\<lambda>b. b\<lparr>bb_buf := mem_write (bb_buf b) pos data\<rparr>) base)"

definition cbb_add_length_prefixed :: "malloc \<Rightarrow> cbb_state \<Rightarrow> nat \<Rightarrow> cbb_result" where
  "cbb_add_length_prefixed m s len_len =
     chain (CBB_flush m s) (\<lambda>_ (base, cbb).
       case cbb_buffer_add m base len_len of
         (None, base) \<Rightarrow> (None, base, cbb)
       | (Some off, base) \<Rightarrow>
           (case fill off (replicate len_len 0) base of (_, base) \<Rightarrow>
              (Some (), base, set_child (Some (CBB off len_len False False None)) cbb)))"

definition CBB_add_u8_length_prefixed :: "malloc \<Rightarrow> cbb_state \<Rightarrow> cbb_result" where
  "CBB_add_u8_length_prefixed m s = cbb_add_length_prefixed m s 1"

definition CBB_add_u16_length_prefixed :: "malloc \<Rightarrow> cbb_state \<Rightarrow> cbb_result" where
  "CBB_add_u16_length_prefixed m s = cbb_add_length_prefixed m s 2"

definition CBB_add_u24_length_prefixed :: "malloc \<Rightarrow> cbb_state \<Rightarrow> cbb_result" where
  "CBB_add_u24_length_prefixed m s = cbb_add_length_prefixed m s 3"

text \<open>
  \<^verbatim>\<open>CBB_add_bytes\<close> copies \<open>data\<close>; the caller of \<^verbatim>\<open>CBB_add_space\<close> writes the bytes it was given room
  for, which are the argument \<open>data\<close> here.
\<close>

definition CBB_add_bytes :: "malloc \<Rightarrow> cbb_state \<Rightarrow> bytes \<Rightarrow> cbb_result" where
  "CBB_add_bytes m s data =
     chain (CBB_flush m s) (\<lambda>_. buffer_op (\<lambda>base.
       chain (cbb_buffer_add m base (length data)) (\<lambda>dest. fill dest data)))"

definition CBB_add_space :: "malloc \<Rightarrow> cbb_state \<Rightarrow> nat \<Rightarrow> nat option \<times> cbb_state" where
  "CBB_add_space m s len =
     chain (CBB_flush m s) (\<lambda>_ (base, cbb).
       case cbb_buffer_add m base len of (r, base) \<Rightarrow> (r, base, cbb))"

definition CBB_reserve :: "malloc \<Rightarrow> cbb_state \<Rightarrow> nat \<Rightarrow> cbb_result" where
  "CBB_reserve m s len =
     chain (CBB_flush m s) (\<lambda>_. buffer_op (\<lambda>base. cbb_buffer_reserve m base len))"

definition CBB_did_write :: "cbb_state \<Rightarrow> nat \<Rightarrow> cbb_result" where
  "CBB_did_write s len =
     (case fst s of
        None \<Rightarrow> (None, s)
      | Some b \<Rightarrow>
          let newlen = size_add (bb_len b) len in
          if child (snd s) \<noteq> None \<or> newlen < bb_len b \<or> newlen > bb_cap b then (None, s)
          else (Some (), Some (b\<lparr>bb_len := newlen\<rparr>), snd s))"

definition CBB_add_u8 :: "malloc \<Rightarrow> cbb_state \<Rightarrow> u8 \<Rightarrow> cbb_result" where
  "CBB_add_u8 m s v =
     chain (CBB_flush m s) (\<lambda>_. buffer_op (\<lambda>base. cbb_buffer_add_u m base (ucast v) 1))"

definition CBB_add_u16 :: "malloc \<Rightarrow> cbb_state \<Rightarrow> u16 \<Rightarrow> cbb_result" where
  "CBB_add_u16 m s v =
     chain (CBB_flush m s) (\<lambda>_. buffer_op (\<lambda>base. cbb_buffer_add_u m base (ucast v) 2))"

definition CBB_add_u24 :: "malloc \<Rightarrow> cbb_state \<Rightarrow> u32 \<Rightarrow> cbb_result" where
  "CBB_add_u24 m s v =
     chain (CBB_flush m s) (\<lambda>_. buffer_op (\<lambda>base. cbb_buffer_add_u m base v 3))"

definition CBB_add_u32 :: "malloc \<Rightarrow> cbb_state \<Rightarrow> u32 \<Rightarrow> cbb_result" where
  "CBB_add_u32 m s v =
     chain (CBB_flush m s) (\<lambda>_. buffer_op (\<lambda>base. cbb_buffer_add_u m base v 4))"

definition CBB_discard_child :: "cbb_state \<Rightarrow> cbb_state" where
  "CBB_discard_child s =
     (case child (snd s) of
        None \<Rightarrow> s
      | Some c \<Rightarrow> (map_option (\<lambda>b. b\<lparr>bb_len := offset c\<rparr>) (fst s), set_child None (snd s)))"

section \<open>ASN.1 elements\<close>

text \<open>The number of 7-bit groups, and the loop that adds them from the most significant one.\<close>

function base128_len :: "u64 \<Rightarrow> nat" where
  "base128_len copy = (if copy > 0 then Suc (base128_len (drop_bit 7 copy)) else 0)"
  by auto
termination
  by (relation "measure unat")
    (auto simp: unat_drop_bit_div word_gt_0 unat_gt_0 intro!: div_less_dividend)

declare base128_len.simps [simp del]

primrec add_base128_groups :: "malloc \<Rightarrow> u64 \<Rightarrow> nat \<Rightarrow> cbb_state \<Rightarrow> cbb_result" where
  "add_base128_groups m v 0 s = (Some (), s)"
| "add_base128_groups m v (Suc i) s =
     (let byte = ucast (drop_bit (7 * i) v) AND 0x7f;
          byte = (if i \<noteq> 0 then byte OR 0x80 else byte)
      in chain (CBB_add_u8 m s byte) (\<lambda>_ s. add_base128_groups m v i s))"

definition add_base128_integer :: "malloc \<Rightarrow> cbb_state \<Rightarrow> u64 \<Rightarrow> cbb_result" where
  "add_base128_integer m s v =
     (let len_len = base128_len v; len_len = (if len_len = 0 then 1 else len_len)
      in add_base128_groups m v len_len s)"

definition CBB_add_asn1 :: "malloc \<Rightarrow> cbb_state \<Rightarrow> u32 \<Rightarrow> cbb_result" where
  "CBB_add_asn1 m s tag =
     chain (CBB_flush m s) (\<lambda>_ s.
       let tag_bits = ucast (drop_bit CBS_ASN1_TAG_SHIFT tag) AND 0xe0;
           tag_number = tag AND CBS_ASN1_TAG_NUMBER_MASK
       in chain
            (if tag_number \<ge> 0x1f
             then chain (CBB_add_u8 m s (tag_bits OR 0x1f)) (\<lambda>_ s.
               add_base128_integer m s (ucast tag_number))
             else CBB_add_u8 m s (tag_bits OR ucast tag_number)) (\<lambda>_ s.
          case fst s of
            None \<Rightarrow> (None, s)
          | Some b \<Rightarrow> chain (CBB_add_u8 m s 0) (\<lambda>_ (base, cbb).
              (Some (), base, set_child (Some (CBB (bb_len b) 1 True False None)) cbb))))"

primrec add_asn1_uint64_bytes :: "malloc \<Rightarrow> u64 \<Rightarrow> nat \<Rightarrow> bool \<Rightarrow> cbb_state \<Rightarrow> bool option \<times> cbb_state" where
  "add_asn1_uint64_bytes m value 0 started s = (Some started, s)"
| "add_asn1_uint64_bytes m value (Suc k) started s =
     (let byte = ucast (drop_bit (8 * k) value AND 0xff) :: u8
      in if \<not> started \<and> byte = 0 then add_asn1_uint64_bytes m value k started s
         else chain
           (if \<not> started \<and> byte AND 0x80 \<noteq> 0 then on_child (\<lambda>c. CBB_add_u8 m c 0) s
            else (Some (), s)) (\<lambda>_ s.
           chain (on_child (\<lambda>c. CBB_add_u8 m c byte) s) (\<lambda>_ s.
             add_asn1_uint64_bytes m value k True s)))"

definition CBB_add_asn1_uint64 :: "malloc \<Rightarrow> cbb_state \<Rightarrow> u64 \<Rightarrow> cbb_result" where
  "CBB_add_asn1_uint64 m s value =
     chain (CBB_add_asn1 m s CBS_ASN1_INTEGER) (\<lambda>_ s.
     chain (add_asn1_uint64_bytes m value 8 False s) (\<lambda>started s.
     chain (if \<not> started then on_child (\<lambda>c. CBB_add_u8 m c 0) s else (Some (), s)) (\<lambda>_ s.
       CBB_flush m s)))"

definition CBB_add_asn1_octet_string :: "malloc \<Rightarrow> cbb_state \<Rightarrow> bytes \<Rightarrow> cbb_result" where
  "CBB_add_asn1_octet_string m s data =
     chain (CBB_add_asn1 m s CBS_ASN1_OCTETSTRING) (\<lambda>_ s.
     chain (on_child (\<lambda>c. CBB_add_bytes m c data) s) (\<lambda>_ s. CBB_flush m s))"

definition CBB_add_asn1_bool :: "malloc \<Rightarrow> cbb_state \<Rightarrow> int \<Rightarrow> cbb_result" where
  "CBB_add_asn1_bool m s value =
     chain (CBB_add_asn1 m s CBS_ASN1_BOOLEAN) (\<lambda>_ s.
     chain (on_child (\<lambda>c. CBB_add_u8 m c (if value \<noteq> 0 then 0xff else 0)) s) (\<lambda>_ s.
       CBB_flush m s))"

section \<open>Object identifiers\<close>

text \<open>
  The loop of \<^verbatim>\<open>parse_dotted_decimal\<close>, with \<^verbatim>\<open>*out\<close> and \<^verbatim>\<open>seen_digit\<close>: the value, and what is left
  after the component and its dot.
\<close>

definition ascii_dot :: u8 where "ascii_dot = 0x2e"

fun dotted_decimal_loop :: "u64 \<Rightarrow> bool \<Rightarrow> cbs \<Rightarrow> u64 option \<times> cbs" where
  "dotted_decimal_loop out seen_digit [] = (if seen_digit then Some out else None, [])"
| "dotted_decimal_loop out seen_digit (u # cbs) =
     (if u = ascii_dot \<and> CBS_len cbs > 0 then (if seen_digit then Some out else None, cbs)
      else if u < 0x30 \<or> u > 0x39 \<or> (seen_digit \<and> out = 0) \<or> out > 0xffffffffffffffff div 10
              \<or> out * 10 > 0xffffffffffffffff - ucast (u - 0x30)
      then (None, cbs)
      else dotted_decimal_loop (out * 10 + ucast (u - 0x30)) True cbs)"

definition parse_dotted_decimal :: "cbs \<Rightarrow> u64 option \<times> cbs" where
  "parse_dotted_decimal cbs = dotted_decimal_loop 0 False cbs"

lemma dotted_decimal_loop_shorter:
  "dotted_decimal_loop out seen cbs = (Some v, rest) \<Longrightarrow> length rest \<le> length cbs"
  by (induction out seen cbs rule: dotted_decimal_loop.induct)
    (auto split: if_splits)

lemma parse_dotted_decimal_shorter:
  assumes "parse_dotted_decimal cbs = (Some v, rest)"
  shows "length rest < length cbs"
proof (cases cbs)
  case Nil
  with assms show ?thesis by (simp add: parse_dotted_decimal_def)
next
  case (Cons u us)
  with assms show ?thesis
    by (auto simp: parse_dotted_decimal_def split: if_splits dest: dotted_decimal_loop_shorter)
qed

function oid_components :: "malloc \<Rightarrow> cbs \<Rightarrow> cbb_state \<Rightarrow> cbb_result" where
  "oid_components m cbs s =
     (if CBS_len cbs > 0 then
        (case parse_dotted_decimal cbs of
           (None, _) \<Rightarrow> (None, s)
         | (Some a, cbs) \<Rightarrow>
             chain (add_base128_integer m s a) (\<lambda>_ s. oid_components m cbs s))
      else (Some (), s))"
  by auto
termination
  by (relation "measure (\<lambda>(_, cbs, _). length cbs)") (auto dest: parse_dotted_decimal_shorter sym)

declare oid_components.simps [simp del]

definition CBB_add_asn1_oid_from_text :: "malloc \<Rightarrow> cbb_state \<Rightarrow> bytes \<Rightarrow> nat \<Rightarrow> cbb_result" where
  "CBB_add_asn1_oid_from_text m s text len =
     chain (CBB_flush m s) (\<lambda>_ s.
       let cbs = CBS_init text len in
       case parse_dotted_decimal cbs of
         (None, _) \<Rightarrow> (None, s)
       | (Some a, cbs) \<Rightarrow>
           (case parse_dotted_decimal cbs of
              (None, _) \<Rightarrow> (None, s)
            | (Some b, cbs) \<Rightarrow>
                if a > 2 \<or> (a < 2 \<and> b > 39) \<or> b > 0xffffffffffffffff - 80 then (None, s)
                else chain (add_base128_integer m s (40 * a + b)) (\<lambda>_ s.
                  oid_components m cbs s)))"

section \<open>Sets of elements\<close>

text \<open>
  \<^verbatim>\<open>OPENSSL_memcmp\<close> on two byte strings of one length.  Elements that compare equal are equal byte strings, so \<open>qsort\<close> stands for
  every implementation of the C library function.
\<close>

fun OPENSSL_memcmp :: "bytes \<Rightarrow> bytes \<Rightarrow> int" where
  "OPENSSL_memcmp (a # as) (b # bs) =
     (if a \<noteq> b then int (unat a) - int (unat b) else OPENSSL_memcmp as bs)"
| "OPENSSL_memcmp _ _ = 0"

definition compare_set_of_element :: "cbs \<Rightarrow> cbs \<Rightarrow> int" where
  "compare_set_of_element a b =
     (let a_len = CBS_len a; b_len = CBS_len b;
          min_len = (if a_len < b_len then a_len else b_len);
          ret = OPENSSL_memcmp (take min_len (CBS_data a)) (take min_len (CBS_data b))
      in if ret \<noteq> 0 then ret
         else if a_len = b_len then 0
         else if a_len < b_len then -1 else 1)"

lemma any_asn1_element_shorter:
  assumes "CBS_get_any_asn1_element cbs = (Some e, rest)"
  shows "length rest < length cbs"
proof -
  obtain c where "cbs = el_out e @ rest" and "definite e c"
    using assms by (auto simp: CBS_get_any_asn1_element_iff)
  then show ?thesis
    using length_asn1_identifier(1) [of "el_tag e"] by (simp add: definite_def asn1_header_def)
qed

text \<open>The loop that counts the elements, and the loop that stores them.\<close>

function count_elements :: "cbs \<Rightarrow> nat option" where
  "count_elements cbs =
     (if CBS_len cbs \<noteq> 0 then
        (case CBS_get_any_asn1_element cbs of
           (None, _) \<Rightarrow> None
         | (Some _, cbs) \<Rightarrow> map_option Suc (count_elements cbs))
      else Some 0)"
  by auto
termination
  by (relation "measure length") (auto dest: any_asn1_element_shorter sym)

declare count_elements.simps [simp del]

primrec get_elements :: "nat \<Rightarrow> cbs \<Rightarrow> cbs list option" where
  "get_elements 0 cbs = Some []"
| "get_elements (Suc n) cbs =
     (case CBS_get_any_asn1_element cbs of
        (None, _) \<Rightarrow> None
      | (Some e, cbs) \<Rightarrow> map_option ((#) (el_out e)) (get_elements n cbs))"

primrec add_elements :: "malloc \<Rightarrow> cbs list \<Rightarrow> cbb_state \<Rightarrow> cbb_result" where
  "add_elements m [] s = (Some (), s)"
| "add_elements m (c # cs) s = chain (CBB_add_bytes m s (CBS_data c)) (\<lambda>_ s. add_elements m cs s)"

definition CBB_flush_asn1_set_of :: "malloc \<Rightarrow> cbb_state \<Rightarrow> cbb_result" where
  "CBB_flush_asn1_set_of m s =
     chain (CBB_flush m s) (\<lambda>_ s.
       case fst s of
         None \<Rightarrow> (None, s)
       | Some base \<Rightarrow>
           let buf_len = CBB_len base (snd s) in
           case count_elements (CBS_init (CBB_data base (snd s)) buf_len) of
             None \<Rightarrow> (None, s)
           | Some num_children \<Rightarrow>
               if num_children < 2 then (Some (), s)
               else if num_children > SIZE_MAX div 16 then (None, s)
               else
                 (case (BUF_memdup m (CBB_data base (snd s)) buf_len, OPENSSL_malloc m (num_children * 16)) of
                    (Some buf, Some _) \<Rightarrow>
                      (case get_elements num_children (CBS_init buf buf_len) of
                         None \<Rightarrow> (None, s)
                       | Some children \<Rightarrow>
                           add_elements m (qsort compare_set_of_element children)
                             (Some (base\<lparr>bb_len := offset (snd s) + pending_len_len (snd s)\<rparr>), snd s))
                  | _ \<Rightarrow> (None, s)))"

end
