(* ===== verification/CbbWriter.thy ===== *)
theory CbbWriter
  imports Cbb
begin

text \<open>
  What the builder of \<open>Cbb\<close> does.  \<open>buf_inv\<close> and \<open>cbb_shape\<close> are the invariants of the buffer and of the chain
  of pending children, \<open>cbb_body\<close> says what bytes a builder stands for while length prefixes are still
  pending.  \<open>adds m f d ok\<close> is the contract of every operation: it appends \<open>d\<close>, and (given room) succeeds
  exactly if \<open>ok\<close>.  The contract composes over \<open>chain\<close> and over children, and at the end says what
  \<^verbatim>\<open>CBB_finish\<close> returns.
\<close>

section \<open>The buffer, proved\<close>

definition buf_inv :: "cbb_buffer \<Rightarrow> bool" where
  "buf_inv b \<longleftrightarrow> bb_len b \<le> bb_cap b \<and> length (bb_buf b) = bb_cap b \<and> bb_cap b + 8 < 2 ^ 63"

definition written :: "cbb_buffer \<Rightarrow> bytes" where
  "written b = take (bb_len b) (bb_buf b)"

text \<open>There is room for \<open>n\<close> bytes in all: in the buffer, or because it can grow.\<close>

definition room :: "malloc \<Rightarrow> cbb_buffer \<Rightarrow> nat \<Rightarrow> bool" where
  "room m b n \<longleftrightarrow>
     n \<le> bb_cap b \<or> (malloc_total m \<and> bb_can_resize b \<and> bb_cap b \<le> 2 ^ 62 \<and> n \<le> 2 ^ 61)"

definition updated :: "malloc \<Rightarrow> cbb_buffer \<Rightarrow> cbb_buffer \<Rightarrow> bytes \<Rightarrow> bool" where
  "updated m b b' w \<longleftrightarrow>
     buf_inv b' \<and> written b' = w \<and> bb_error b' = bb_error b \<and> bb_can_resize b' = bb_can_resize b \<and>
     (\<forall>n. length w \<le> n \<longrightarrow> room m b n \<longrightarrow> room m b' n)"

lemma length_written: "buf_inv b \<Longrightarrow> length (written b) = bb_len b"
  by (simp add: buf_inv_def written_def)

lemma updatedD:
  assumes "updated m b b' w"
  shows "buf_inv b'" "written b' = w" "bb_error b' = bb_error b" "bb_can_resize b' = bb_can_resize b"
    "bb_len b' = length w"
  using assms length_written [of b'] by (auto simp: updated_def)

lemma updated_room: "updated m b b' w \<Longrightarrow> room m b n \<Longrightarrow> length w \<le> n \<Longrightarrow> room m b' n"
  by (simp add: updated_def)

lemma updated_refl: "buf_inv b \<Longrightarrow> updated m b b (written b)"
  by (simp add: updated_def)

lemma updated_trans:
  "updated m b b' w \<Longrightarrow> updated m b' b'' w' \<Longrightarrow> length w \<le> length w' \<Longrightarrow> updated m b b'' w'"
  by (auto simp: updated_def)

text \<open>Overwriting bytes below the length, in place.\<close>

lemma updated_overwrite:
  assumes "buf_inv b" and "pos + length d \<le> bb_len b"
  shows "updated m b (b\<lparr>bb_buf := mem_write (bb_buf b) pos d\<rparr>) (mem_write (written b) pos d)"
  using assms take_mem_write_within [of pos d "bb_len b" "bb_buf b"]
  by (auto simp: updated_def buf_inv_def written_def length_mem_write room_def)

lemma cbb_buffer_reserve_Some:
  assumes "malloc_spec m" and inv: "buf_inv b" and "n < 2 ^ 63"
    and "cbb_buffer_reserve m (Some b) n = (Some u, ob)"
  obtains b' where "ob = Some b'" and "updated m b b' (written b)" and "bb_len b' = bb_len b"
    and "bb_len b + n \<le> bb_cap b'"
    and "\<And>k. room m b k \<Longrightarrow> bb_len b + n \<le> k \<Longrightarrow> room m b' k"
proof -
  have b: "bb_len b \<le> bb_cap b" "length (bb_buf b) = bb_cap b" "bb_cap b + 8 < 2 ^ 63"
    using inv by (simp_all add: buf_inv_def)
  then have add: "size_add (bb_len b) n = bb_len b + n" and mul: "size_mul (bb_cap b) 2 = bb_cap b * 2"
    using assms(3) by (simp_all add: size_add_def size_mul_def)
  show thesis
  proof (cases "bb_len b + n \<le> bb_cap b")
    case True
    with assms(4) add have "ob = Some b" by (simp add: cbb_buffer_reserve_def)
    with True updated_refl [OF inv] that show thesis by blast
  next
    case False
    define newcap where "newcap = (if bb_cap b * 2 < bb_len b + n then bb_len b + n else bb_cap b * 2)"
    from False assms(4) add mul have r: "bb_can_resize b"
      "OPENSSL_realloc m (Some \<lparr>blk_size = bb_cap b, blk_data = bb_buf b\<rparr>) newcap \<noteq> None"
      by (auto simp: cbb_buffer_reserve_def Let_def newcap_def split: if_splits option.splits)
    then obtain q where q:
      "OPENSSL_realloc m (Some \<lparr>blk_size = bb_cap b, blk_data = bb_buf b\<rparr>) newcap = Some q" by blast
    from False assms(4) add mul r(1) q have ob: "ob = Some (b\<lparr>bb_buf := blk_data q, bb_cap := newcap\<rparr>)"
      by (simp add: cbb_buffer_reserve_def Let_def newcap_def split: if_splits)
    have lim: "newcap < 2 ^ 64 - 8" using b assms(3) by (simp add: newcap_def)
    note * = OPENSSL_realloc_Some [OF assms(1) q lim]
    have le: "bb_len b \<le> newcap" "bb_len b + n \<le> newcap" "bb_cap b \<le> newcap"
      using b False by (simp_all add: newcap_def)
    have len: "length (blk_data q) = newcap" and lim: "newcap + 8 < 2 ^ 63"
      and tk: "take (bb_len b) (blk_data q) = take (bb_len b) (bb_buf b)"
      using * b le by simp_all
    have rm: "room m (b\<lparr>bb_buf := blk_data q, bb_cap := newcap\<rparr>) k"
      if "room m b k" "bb_len b + n \<le> k" for k
      using that False le unfolding room_def by (auto simp: newcap_def)
    have rm': "room m (b\<lparr>bb_buf := blk_data q, bb_cap := newcap\<rparr>) k" if "room m b k" for k
      using rm [of k] that le(3) False
      by (cases "bb_len b + n \<le> k") (auto simp: room_def newcap_def)
    show thesis
      by (rule that [OF ob]) (use rm rm' len lim tk le in
          \<open>simp_all add: updated_def buf_inv_def written_def\<close>)
  qed
qed

lemma cbb_buffer_reserve_total:
  assumes inv: "buf_inv b" and "room m b k" and "bb_len b + n \<le> k" and "n < 2 ^ 63"
  shows "fst (cbb_buffer_reserve m (Some b) n) \<noteq> None"
proof -
  have b: "bb_len b \<le> bb_cap b" "length (bb_buf b) = bb_cap b" "bb_cap b + 8 < 2 ^ 63"
    using inv by (simp_all add: buf_inv_def)
  then have add: "size_add (bb_len b) n = bb_len b + n" and mul: "size_mul (bb_cap b) 2 = bb_cap b * 2"
    using assms(4) by (simp_all add: size_add_def size_mul_def)
  show ?thesis
  proof (cases "bb_len b + n \<le> bb_cap b")
    case False
    with assms(2,3) have r: "malloc_total m" "bb_can_resize b" "bb_cap b \<le> 2 ^ 62" "bb_len b + n \<le> 2 ^ 61"
      by (auto simp: room_def)
    define newcap where "newcap = (if bb_cap b * 2 < bb_len b + n then bb_len b + n else bb_cap b * 2)"
    have "newcap + 8 < 2 ^ 63" using r False by (auto simp: newcap_def)
    then obtain q where
      "OPENSSL_realloc m (Some \<lparr>blk_size = bb_cap b, blk_data = bb_buf b\<rparr>) newcap = Some q"
      using OPENSSL_realloc_total [OF r(1)] by blast
    moreover have "\<not> newcap < bb_cap b" "(if bb_cap b * 2 < bb_cap b \<or> bb_cap b * 2 < bb_len b + n
      then bb_len b + n else bb_cap b * 2) = newcap" by (auto simp: newcap_def)
    ultimately show ?thesis
      using False r(2) by (simp add: cbb_buffer_reserve_def Let_def add mul)
  qed (simp add: cbb_buffer_reserve_def add)
qed

lemma cbb_buffer_add_Some:
  assumes "malloc_spec m" and "buf_inv b" and "n < 2 ^ 63"
    and "cbb_buffer_add m (Some b) n = (Some pos, ob)"
  obtains b' where "ob = Some b'" and "pos = bb_len b" and "bb_len b' = bb_len b + n" and "buf_inv b'"
    and "\<And>d. length d = n \<Longrightarrow> updated m b (b'\<lparr>bb_buf := mem_write (bb_buf b') pos d\<rparr>) (written b @ d)"
    and "take (bb_len b) (bb_buf b') = written b"
    and "\<exists>d. length d = n \<and> updated m b b' (written b @ d)"
proof -
  from assms(4) obtain u ob' where r: "cbb_buffer_reserve m (Some b) n = (Some u, ob')"
    and k: "(case ob' of None \<Rightarrow> (None, None)
      | Some b \<Rightarrow> (Some (bb_len b), Some (b\<lparr>bb_len := bb_len b + n\<rparr>))) = (Some pos, ob)"
    unfolding cbb_buffer_add_def by (rule chain_SomeE)
  obtain b' where b': "ob' = Some b'" "updated m b b' (written b)" "bb_len b' = bb_len b"
    "bb_len b + n \<le> bb_cap b'" "\<And>k. room m b k \<Longrightarrow> bb_len b + n \<le> k \<Longrightarrow> room m b' k"
    using cbb_buffer_reserve_Some [OF assms(1-3) r] by blast
  define b2 where "b2 = b'\<lparr>bb_len := bb_len b' + n\<rparr>"
  have pos: "pos = bb_len b" and ob: "ob = Some b2" using k b'(1,3) by (auto simp: b2_def)
  have inv: "buf_inv b'" "written b' = written b" using b'(2) by (simp_all add: updatedD)
  then have inv2: "buf_inv b2" using b'(3,4) by (simp add: b2_def buf_inv_def)
  have tk: "take (bb_len b) (bb_buf b2) = written b"
    using inv(2) b'(3) by (simp add: b2_def written_def)
  have len: "length (written b) = bb_len b" using assms(2) by (rule length_written)
  have cap: "bb_len b + n \<le> length (bb_buf b2)" using inv2 b'(3) by (simp add: buf_inv_def b2_def)
  have rm: "room m b k \<Longrightarrow> bb_len b + n \<le> k \<Longrightarrow> room m (b2\<lparr>bb_buf := x\<rparr>) k" for k x
    using b'(5) [of k] by (simp add: room_def b2_def)
  have up: "updated m b (b2\<lparr>bb_buf := mem_write (bb_buf b2) pos d\<rparr>) (written b @ d)"
    if "length d = n" for d
    using inv2 rm len that cap tk take_mem_write [of pos "bb_buf b2" d] b'(2,3)
    by (simp add: updated_def pos b2_def buf_inv_def length_mem_write)
      (simp add: written_def)
  have "written b2 = written b @ take n (drop (bb_len b) (bb_buf b2))"
    using tk b'(3) by (simp add: written_def b2_def take_add)
  moreover have "length (take n (drop (bb_len b) (bb_buf b2))) = n" using cap by simp
  moreover have "updated m b b2 (written b2)"
    using inv2 rm [of _ "bb_buf b2"] len b'(2,3) length_written [OF inv2]
    by (simp add: updated_def b2_def)
  ultimately have "\<exists>d. length d = n \<and> updated m b b2 (written b @ d)" by metis
  with that [OF ob pos _ inv2 up tk] show thesis using b'(3) by (simp add: b2_def)
qed

lemma cbb_buffer_add_total:
  assumes "malloc_spec m" and "buf_inv b" and "room m b k" and "bb_len b + n \<le> k" and "n < 2 ^ 63"
  shows "fst (cbb_buffer_add m (Some b) n) \<noteq> None"
proof -
  obtain u ob where r: "cbb_buffer_reserve m (Some b) n = (Some u, ob)"
    using cbb_buffer_reserve_total [OF assms(2-5)] by (metis not_None_eq prod.collapse)
  from cbb_buffer_reserve_Some [OF assms(1,2,5) r] obtain b' where "ob = Some b'" by blast
  with r show ?thesis by (simp add: cbb_buffer_add_def)
qed

lemma store_be_eq:
  "pos + n \<le> length buf \<Longrightarrow> store_be buf pos n v = (mem_write buf pos (be_bytes n v), v div 256 ^ n)"
proof (induction n arbitrary: buf v)
  case 0
  then show ?case by (simp add: mem_write_def)
next
  case (Suc n)
  then have "store_be buf pos (Suc n) v =
    (mem_write (buf[pos + n := of_nat v]) pos (be_bytes n (v div 256)), v div 256 div 256 ^ n)" by simp
  moreover have "mem_write (buf[pos + n := of_nat v]) pos (be_bytes n (v div 256)) =
    mem_write buf pos (be_bytes (Suc n) v)"
    using Suc.prems by (simp add: mem_write_def upd_conv_take_nth_drop take_add)
  ultimately show ?case by (simp add: div_mult2_eq)
qed

text \<open>Overwriting the bytes between \<open>pre\<close> and \<open>post\<close>.\<close>

lemma mem_write_middle:
  "pos = length pre \<Longrightarrow> length d = length mid \<Longrightarrow> mem_write (pre @ mid @ post) pos d = pre @ d @ post"
  by (simp add: mem_write_def)

lemma updated_middle:
  assumes "buf_inv b" and "written b = pre @ mid @ post" and "length d = length mid"
  shows "updated m b (b\<lparr>bb_buf := mem_write (bb_buf b) (length pre) d\<rparr>) (pre @ d @ post)"
proof -
  have "length pre + length d \<le> bb_len b"
    using length_written [OF assms(1)] assms(2,3) by simp
  from updated_overwrite [OF assms(1) this, of m] show ?thesis
    using assms(2,3) by (simp add: mem_write_middle)
qed

section \<open>Length prefixes, proved\<close>

definition prefix_bytes :: "cbb \<Rightarrow> nat \<Rightarrow> bytes" where
  "prefix_bytes c n = (if pending_is_asn1 c then asn1_length n else be_bytes (pending_len_len c) n)"

definition prefix_fits :: "cbb \<Rightarrow> nat \<Rightarrow> bool" where
  "prefix_fits c n \<longleftrightarrow>
     (if pending_is_asn1 c then n \<le> 0xfffffffe else n < 256 ^ pending_len_len c)"

lemma prefix_set_child [simp]:
  "prefix_bytes (set_child ch c) = prefix_bytes c" "prefix_fits (set_child ch c) = prefix_fits c"
  by (simp_all add: prefix_bytes_def prefix_fits_def fun_eq_iff)

lemma asn1_length_form_eq:
  "asn1_length_form n =
     (1 + length_octets n, hd (asn1_length n), if length_octets n = 0 then 0 else n)"
  by (simp add: asn1_length_form_def length_octets_def asn1_length_def)

lemma asn1_length_Cons: "asn1_length n = hd (asn1_length n) # be_bytes (length_octets n) n"
  by (simp add: asn1_length_def length_octets_def)

lemma less_length_octets: "n \<le> 0xfffffffe \<Longrightarrow> length_octets n \<noteq> 0 \<Longrightarrow> n < 256 ^ length_octets n"
  by (auto simp: length_octets_def)

lemma store_length_Some:
  assumes inv: "buf_inv b" and w: "written b = pre @ x @ post" and x: "length x = k"
    and "store_length b (length pre) k n = (Some u, b')"
  shows "n < 256 ^ k" and "updated m b b' (pre @ be_bytes k n @ post)"
proof -
  have "length pre + k \<le> length (bb_buf b)"
    using length_written [OF inv] inv w x by (simp add: buf_inv_def)
  note st = store_be_eq [OF this, of n]
  show "n < 256 ^ k"
    using assms(4) by (auto simp: store_length_def st div_eq_0_iff split: if_splits)
  have b': "b' = b\<lparr>bb_buf := mem_write (bb_buf b) (length pre) (be_bytes k n)\<rparr>"
    using assms(4) by (auto simp: store_length_def st split: if_splits)
  show "updated m b b' (pre @ be_bytes k n @ post)"
    unfolding b' by (rule updated_middle [OF inv w]) (simp add: x)
qed

lemma store_length_total:
  assumes "off + k \<le> length (bb_buf b)" and "n < 256 ^ k"
  shows "fst (store_length b off k n) \<noteq> None"
  using store_be_eq [OF assms(1), of n] assms(2) by (simp add: store_length_def)

text \<open>Storing the length of an element over the placeholder \<open>x\<close> and the space \<open>y\<close> made for it.\<close>

lemma asn1_prefix_written:
  assumes inv: "buf_inv b" and w: "written b = pre @ x # y @ body" and y: "length y = length_octets n"
    and r: "store_length (b\<lparr>bb_buf := (bb_buf b)[length pre := hd (asn1_length n)]\<rparr>) (length pre + 1)
      (length_octets n) (if length_octets n = 0 then 0 else n) = (Some u, b')"
  shows "updated m b b' (pre @ asn1_length n @ body)"
proof -
  let ?k = "length_octets n" and ?h = "[hd (asn1_length n)]"
  define b1 where "b1 = b\<lparr>bb_buf := mem_write (bb_buf b) (length pre) ?h\<rparr>"
  have "length pre < length (bb_buf b)"
    using length_written [OF inv] w inv by (simp add: buf_inv_def)
  then have r1: "store_length b1 (length (pre @ ?h)) ?k (if ?k = 0 then 0 else n) = (Some u, b')"
    using r by (simp add: b1_def mem_write_one)
  have up1: "updated m b b1 (pre @ ?h @ y @ body)"
    unfolding b1_def by (rule updated_middle [OF inv, of _ "[x]"]) (use w in auto)
  have "updated m b1 b' ((pre @ ?h) @ be_bytes ?k (if ?k = 0 then 0 else n) @ body)"
    by (rule store_length_Some(2) [OF updatedD(1) [OF up1] _ y r1]) (simp add: updatedD(2) [OF up1])
  moreover have "be_bytes ?k (if ?k = 0 then 0 else n) = be_bytes ?k n" by simp
  ultimately have "updated m b1 b' (pre @ (?h @ be_bytes ?k n) @ body)" by (simp only: append_assoc)
  then have "updated m b1 b' (pre @ asn1_length n @ body)"
    by (simp only: asn1_length_Cons [of n, symmetric] append_Cons append_Nil)
  from updated_trans [OF up1 this] show ?thesis by (simp add: y length_asn1_length)
qed

text \<open>Making space for a long length: the contents move along by \<open>k\<close> bytes.\<close>

lemma make_space_Some:
  assumes "malloc_spec m" and inv: "buf_inv b" and w: "written b = pre @ x # body" and k: "k \<le> 4"
    and n: "k \<noteq> 0 \<Longrightarrow> n = length body"
    and r: "make_space m b (length pre + 1) (1 + k) n = (Some u, b')"
  shows "\<exists>y. length y = k \<and> updated m b b' (pre @ x # y @ body)"
proof (cases "k = 0")
  case True
  with r have "updated m b b' (written b)" using updated_refl [OF inv, of m] by (simp add: make_space_def)
  with True show ?thesis by (simp add: w)
next
  case False
  then obtain pos b1 where add: "cbb_buffer_add m (Some b) k = (Some pos, Some b1)"
    and b': "b' = b1\<lparr>bb_buf := mem_write (bb_buf b1) (length pre + 1 + k)
      (take (length body) (drop (length pre + 1) (bb_buf b1)))\<rparr>"
    using r n by (auto simp: make_space_def split: option.splits prod.splits)
  have "k < 2 ^ 63" using k by (rule order_le_less_trans) simp
  from cbb_buffer_add_Some [OF assms(1) inv this add] obtain d where
    d: "length d = k" "updated m b b1 (written b @ d)" and tk: "take (bb_len b) (bb_buf b1) = written b"
    by (metis option.inject)
  have len: "bb_len b = length pre + 1 + length body"
    using length_written [OF inv] w by simp
  have "drop (length pre + 1) (take (bb_len b) (bb_buf b1)) = body" by (simp add: tk w)
  then have body: "take (length body) (drop (length pre + 1) (bb_buf b1)) = body"
    by (simp add: drop_take len)
  define full where "full = body @ d"
  have "written b1 = pre @ x # full" using updatedD(2) [OF d(2)] by (simp add: w full_def)
  then have "written b1 = (pre @ x # take k full) @ drop k full @ []" by simp
  from updated_middle [OF updatedD(1) [OF d(2)] this, of body m]
  have "updated m b1 (b1\<lparr>bb_buf := mem_write (bb_buf b1) (length pre + 1 + k) body\<rparr>)
      (pre @ x # take k full @ body)"
    by (simp add: d(1) full_def [THEN arg_cong [where f = length]])
  then have "updated m b1 b' (pre @ x # take k full @ body)" by (simp only: b' body)
  with d(2) have "updated m b b' (pre @ x # take k full @ body)"
    by (rule updated_trans) (simp add: w d(1) full_def)
  moreover have "length (take k full) = k" by (simp add: full_def d(1))
  ultimately show ?thesis by blast
qed

lemma write_prefix_Some:
  assumes "malloc_spec m" and inv: "buf_inv b" and w: "written b = pre @ ph @ body"
    and off: "offset c = length pre" and pll: "length ph = pending_len_len c"
    and asn1: "pending_is_asn1 c \<Longrightarrow> pending_len_len c = 1"
    and r: "write_prefix m b c (offset c + pending_len_len c) (length body) = (Some u, b')"
  shows "prefix_fits c (length body)" and "updated m b b' (pre @ prefix_bytes c (length body) @ body)"
proof -
  let ?n = "length body" and ?k = "length_octets (length body)"
  have "prefix_fits c ?n \<and> updated m b b' (pre @ prefix_bytes c ?n @ body)"
  proof (cases "pending_is_asn1 c")
    case False
    then show ?thesis
      using store_length_Some [OF inv w pll, of ?n u b'] r off
      by (simp add: write_prefix_def prefix_fits_def prefix_bytes_def)
  next
    case True
    obtain x where ph: "ph = [x]" using asn1 [OF True] pll by (cases ph) auto
    have n: "?n \<le> 0xfffffffe" using r True by (auto simp: write_prefix_def split: if_splits)
    with r True have r: "chain (make_space m b (length pre + 1) (1 + ?k) (if ?k = 0 then 0 else ?n))
        (\<lambda>_ b. store_length (b\<lparr>bb_buf := (bb_buf b)[length pre := hd (asn1_length ?n)]\<rparr>)
          (length pre + 1) ?k (if ?k = 0 then 0 else ?n)) = (Some u, b')"
      by (simp add: write_prefix_def asn1_length_form_eq off asn1)
    then obtain v b2 where
      mv: "make_space m b (length pre + 1) (1 + ?k) (if ?k = 0 then 0 else ?n) = (Some v, b2)"
      and st: "store_length (b2\<lparr>bb_buf := (bb_buf b2)[length pre := hd (asn1_length ?n)]\<rparr>)
          (length pre + 1) ?k (if ?k = 0 then 0 else ?n) = (Some u, b')" by (rule chain_SomeE)
    obtain y where y: "length y = ?k" and up: "updated m b b2 (pre @ x # y @ body)"
      using make_space_Some [OF assms(1) inv _ length_octets_le _ mv, of x body] w ph by auto
    from updated_trans [OF up asn1_prefix_written [OF updatedD(1,2) [OF up] y st]] True n show ?thesis
      by (simp add: prefix_fits_def prefix_bytes_def y length_asn1_length)
  qed
  then show "prefix_fits c ?n" and "updated m b b' (pre @ prefix_bytes c ?n @ body)" by simp_all
qed

lemma write_prefix_total:
  assumes "malloc_spec m" and inv: "buf_inv b" and w: "written b = pre @ ph @ body"
    and off: "offset c = length pre" and pll: "length ph = pending_len_len c"
    and asn1: "pending_is_asn1 c \<Longrightarrow> pending_len_len c = 1"
    and fits: "prefix_fits c (length body)"
    and room: "room m b k" "length (pre @ prefix_bytes c (length body) @ body) \<le> k"
  shows "fst (write_prefix m b c (offset c + pending_len_len c) (length body)) \<noteq> None"
proof (cases "pending_is_asn1 c")
  case False
  moreover have "offset c + pending_len_len c \<le> length (bb_buf b)"
    using length_written [OF inv] inv w off pll by (simp add: buf_inv_def)
  ultimately show ?thesis
    using fits store_length_total [of "offset c" "pending_len_len c" b "length body"]
    by (simp add: write_prefix_def prefix_fits_def)
next
  case True
  let ?n = "length body" and ?k = "length_octets (length body)"
  obtain x where ph: "ph = [x]" using asn1 [OF True] pll by (cases ph) auto
  have n: "?n \<le> 0xfffffffe" using fits True by (simp add: prefix_fits_def)
  have "bb_len b + ?k \<le> k"
    using room(2) length_written [OF inv] True w ph by (simp add: prefix_bytes_def length_asn1_length)
  moreover have "?k < 2 ^ 63" by (rule order_le_less_trans [OF length_octets_le]) simp
  ultimately have ad: "fst (cbb_buffer_add m (Some b) ?k) \<noteq> None"
    using cbb_buffer_add_total [OF assms(1) inv room(1)] by simp
  have "fst (make_space m b (length pre + 1) (1 + ?k) (if ?k = 0 then 0 else ?n)) \<noteq> None"
  proof (cases "?k = 0")
    case False
    from ad obtain pos ob where add: "cbb_buffer_add m (Some b) ?k = (Some pos, ob)"
      by (metis not_None_eq prod.collapse)
    from cbb_buffer_add_Some [OF assms(1) inv \<open>?k < 2 ^ 63\<close> add] obtain b' where "ob = Some b'" by blast
    with add False show ?thesis by (simp add: make_space_def)
  qed (simp add: make_space_def)
  then obtain v b2 where
    mv: "make_space m b (length pre + 1) (1 + ?k) (if ?k = 0 then 0 else ?n) = (Some v, b2)"
    by (metis not_None_eq prod.collapse)
  obtain y where y: "length y = ?k" and up: "updated m b b2 (pre @ x # y @ body)"
    using make_space_Some [OF assms(1) inv _ length_octets_le _ mv, of x body] w ph by auto
  have "length pre + 1 + ?k \<le> length (bb_buf b2)"
    using updatedD(1,5) [OF up] y by (simp add: buf_inv_def)
  then have "fst (store_length (b2\<lparr>bb_buf := (bb_buf b2)[length pre := hd (asn1_length ?n)]\<rparr>)
      (length pre + 1) ?k (if ?k = 0 then 0 else ?n)) \<noteq> None"
    using less_length_octets [OF n] by (intro store_length_total) auto
  with mv True n show ?thesis
    by (simp add: write_prefix_def asn1_length_form_eq off asn1)
qed

section \<open>What a builder stands for\<close>

text \<open>
  \<open>cbb_body w c\<close> is what the \<^verbatim>\<open>CBB\<close> \<open>c\<close> will hold once its pending children are flushed, when the
  bytes written so far are \<open>w\<close>: every pending child contributes its length prefix and its body.
\<close>

abbreviation body_start :: "cbb \<Rightarrow> nat" where
  "body_start c \<equiv> offset c + pending_len_len c"

fun cbb_body :: "bytes \<Rightarrow> cbb \<Rightarrow> bytes" where
  "cbb_body w (CBB off pll asn1 toplevel None) = drop (off + pll) w"
| "cbb_body w (CBB off pll asn1 toplevel (Some c)) =
     drop (off + pll) (take (offset c) w) @ prefix_bytes c (length (cbb_body w c)) @ cbb_body w c"

fun cbb_fits :: "bytes \<Rightarrow> cbb \<Rightarrow> bool" where
  "cbb_fits w (CBB off pll asn1 toplevel None) \<longleftrightarrow> True"
| "cbb_fits w (CBB off pll asn1 toplevel (Some c)) \<longleftrightarrow>
     prefix_fits c (length (cbb_body w c)) \<and> cbb_fits w c"

text \<open>The shape of a chain of pending children over \<open>n\<close> written bytes.\<close>

fun cbb_shape :: "nat \<Rightarrow> cbb \<Rightarrow> bool" where
  "cbb_shape n (CBB off pll asn1 toplevel None) \<longleftrightarrow> off + pll \<le> n"
| "cbb_shape n (CBB off pll asn1 toplevel (Some c)) \<longleftrightarrow>
     off + pll \<le> offset c \<and> 0 < pending_len_len c \<and> (pending_is_asn1 c \<longrightarrow> pending_len_len c = 1) \<and>
     cbb_shape n c"

lemma body_start_le: "cbb_shape n c \<Longrightarrow> body_start c \<le> n"
  by (induction n c rule: cbb_shape.induct) auto

lemma set_child_None_eq: "set_child None c = CBB (offset c) (pending_len_len c) (pending_is_asn1 c) (is_top_level c) None"
  by (cases c) simp

lemma length_prefix_ge:
  "(pending_is_asn1 c \<Longrightarrow> pending_len_len c = 1) \<Longrightarrow> pending_len_len c \<le> length (prefix_bytes c n)"
  by (simp add: prefix_bytes_def length_asn1_length)

lemma cbb_body_length: "cbb_shape (length w) c \<Longrightarrow> length w \<le> body_start c + length (cbb_body w c)"
proof (induction w c rule: cbb_body.induct)
  case (2 w off pll asn1 toplevel c)
  then show ?case using length_prefix_ge [of c "length (cbb_body w c)"] body_start_le [of "length w" c]
    by auto
qed simp

section \<open>Flushing, proved\<close>

lemma cbb_flush_keeps:
  "cbb_flush m b c = (r, b', c') \<Longrightarrow> set_child None c' = set_child None c"
  by (cases c) (auto simp: Let_def split: if_splits option.splits prod.splits)

lemma cbb_flush_Some:
  assumes "malloc_spec m" and "buf_inv b" and "cbb_shape (bb_len b) c"
    and "cbb_flush m b c = (Some u, b', c')"
  shows "cbb_fits (written b) c \<and> c' = set_child None c \<and> \<not> bb_error b \<and>
    updated m b b' (take (body_start c) (written b) @ cbb_body (written b) c)"
  using assms
proof (induction m b c arbitrary: u b' c' rule: cbb_flush.induct)
  case (1 m b off pll asn1 toplevel ch)
  show ?case
  proof (cases ch)
    case None
    with "1.prems" show ?thesis
      using updated_refl [of b m] length_written [of b] by (auto split: if_splits)
  next
    case (Some c)
    let ?w = "written b" and ?s = "offset c + pending_len_len c"
    have shape: "off + pll \<le> offset c" "0 < pending_len_len c"
      "pending_is_asn1 c \<Longrightarrow> pending_len_len c = 1" "cbb_shape (bb_len b) c"
      using "1.prems"(3) Some by simp_all
    have err: "\<not> bb_error b" using "1.prems"(4) by (simp split: if_splits)
    have le: "?s \<le> bb_len b" using body_start_le [OF shape(4)] .
    have lw: "length ?w = bb_len b" using "1.prems"(2) by (rule length_written)
    have "bb_len b < 2 ^ 64" using "1.prems"(2) by (simp add: buf_inv_def)
    then have add: "size_add (offset c) (pending_len_len c) = ?s" using le by (simp add: size_add_def)
    obtain b1 c1 where f: "cbb_flush m b c = (Some (), b1, c1)"
      and wp: "write_prefix m b1 c1 ?s (bb_len b1 - ?s) = (Some (), b')"
      and c': "c' = CBB off pll asn1 toplevel None"
      using "1.prems"(4) Some err shape(2)
      by (auto simp: Let_def add split: prod.splits if_splits option.splits)
    from "1.IH" [OF err Some _ refl "1.prems"(1) "1.prems"(2) shape(4) f] shape(2)
    have IH: "cbb_fits ?w c" "c1 = set_child None c" "updated m b b1 (take ?s ?w @ cbb_body ?w c)"
      by auto
    let ?pre = "take (offset c) ?w" and ?ph = "take (pending_len_len c) (drop (offset c) ?w)"
    let ?body = "cbb_body ?w c"
    have w1: "written b1 = ?pre @ ?ph @ ?body"
      using updatedD(2) [OF IH(3)] by (simp add: take_add)
    have len1: "bb_len b1 - ?s = length ?body"
      using updatedD(5) [OF IH(3)] le lw by simp
    have wp': "write_prefix m b1 c1 (offset c1 + pending_len_len c1) (length ?body) = (Some (), b')"
      using wp len1 IH(2) by simp
    note wps = write_prefix_Some [OF "1.prems"(1) updatedD(1) [OF IH(3)] w1 _ _ _ wp']
    have fits: "prefix_fits c1 (length ?body)"
      and up: "updated m b1 b' (?pre @ prefix_bytes c1 (length ?body) @ ?body)"
      by (rule wps; use le lw shape IH(2) in simp)+
    have same: "prefix_fits c1 n = prefix_fits c n" "prefix_bytes c1 n = prefix_bytes c n" for n
      using IH(2) by simp_all
    have "length (take ?s ?w @ ?body) \<le> length (?pre @ prefix_bytes c1 (length ?body) @ ?body)"
      using le lw length_prefix_ge [OF shape(3), of "length ?body"] by (simp add: same)
    from updated_trans [OF IH(3) up this]
    have "updated m b b' (take (off + pll) ?pre @ drop (off + pll) ?pre @ prefix_bytes c (length ?body) @ ?body)"
      by (simp only: same append_assoc [symmetric] append_take_drop_id)
    then have "updated m b b' (take (off + pll) ?w @ cbb_body ?w (CBB off pll asn1 toplevel (Some c)))"
      using shape(1) by (simp add: min_absorb1)
    with fits IH(1) c' err Some show ?thesis by (simp add: same)
  qed
qed

lemma cbb_flush_total:
  assumes "malloc_spec m" and "buf_inv b" and "cbb_shape (bb_len b) c"
    and "\<not> bb_error b" and "cbb_fits (written b) c"
    and "room m b k" and "body_start c + length (cbb_body (written b) c) \<le> k"
  shows "fst (cbb_flush m b c) \<noteq> None"
  using assms
proof (induction m b c rule: cbb_flush.induct)
  case (1 m b off pll asn1 toplevel ch)
  show ?case
  proof (cases ch)
    case None
    with "1.prems" show ?thesis by simp
  next
    case (Some c)
    let ?w = "written b" and ?s = "offset c + pending_len_len c"
    have shape: "off + pll \<le> offset c" "0 < pending_len_len c"
      "pending_is_asn1 c \<Longrightarrow> pending_len_len c = 1" "cbb_shape (bb_len b) c"
      using "1.prems"(3) Some by simp_all
    have le: "?s \<le> bb_len b" using body_start_le [OF shape(4)] .
    have lw: "length ?w = bb_len b" using "1.prems"(2) by (rule length_written)
    have "bb_len b < 2 ^ 64" using "1.prems"(2) by (simp add: buf_inv_def)
    then have add: "size_add (offset c) (pending_len_len c) = ?s" using le by (simp add: size_add_def)
    let ?pre = "take (offset c) ?w" and ?ph = "take (pending_len_len c) (drop (offset c) ?w)"
    let ?body = "cbb_body ?w c"
    have fits: "prefix_fits c (length ?body)" "cbb_fits ?w c" using "1.prems"(5) Some by simp_all
    have tot: "offset c + length (prefix_bytes c (length ?body)) + length ?body \<le> k"
      using "1.prems"(7) Some shape(1) le lw by simp
    with length_prefix_ge [OF shape(3), of "length ?body"] have "?s + length ?body \<le> k" by simp
    from "1.IH" [OF "1.prems"(4) Some _ refl "1.prems"(1) "1.prems"(2) shape(4) "1.prems"(4) fits(2) "1.prems"(6) this] shape(2)
    obtain b1 c1 where f: "cbb_flush m b c = (Some (), b1, c1)"
      by (cases "cbb_flush m b c") auto
    from cbb_flush_Some [OF "1.prems"(1) "1.prems"(2) shape(4) f]
    have IH: "c1 = set_child None c" "updated m b b1 (take ?s ?w @ ?body)" by auto
    have w1: "written b1 = ?pre @ ?ph @ ?body"
      using updatedD(2) [OF IH(2)] by (simp add: take_add)
    have len1: "bb_len b1 = ?s + length ?body"
      using updatedD(5) [OF IH(2)] le lw by simp
    have room1: "room m b1 k"
      using updated_room [OF IH(2) "1.prems"(6)] \<open>?s + length ?body \<le> k\<close> le lw by simp
    have "fst (write_prefix m b1 c1 (offset c1 + pending_len_len c1) (length ?body)) \<noteq> None"
      by (rule write_prefix_total [OF "1.prems"(1) updatedD(1) [OF IH(2)] w1 _ _ _ _ room1])
        (use le lw shape IH(1) fits tot in simp_all)
    then obtain b2 where "write_prefix m b1 c1 ?s (length ?body) = (Some (), b2)"
      using IH(1) by (cases "write_prefix m b1 c1 ?s (length ?body)") auto
    then show ?thesis
      using Some "1.prems"(4) f shape(2) len1 IH(1) by (simp add: Let_def add)
  qed
qed

section \<open>The contract of the operations\<close>

fun cbb_ok :: "cbb_state \<Rightarrow> bool" where
  "cbb_ok (None, c) \<longleftrightarrow> False"
| "cbb_ok (Some b, c) \<longleftrightarrow> buf_inv b \<and> \<not> bb_error b \<and> cbb_shape (bb_len b) c"

fun cbb_before :: "cbb_state \<Rightarrow> bytes" where
  "cbb_before (None, c) = []"
| "cbb_before (Some b, c) = take (body_start c) (written b)"

fun cbb_contents :: "cbb_state \<Rightarrow> bytes" where
  "cbb_contents (None, c) = []"
| "cbb_contents (Some b, c) = cbb_body (written b) c"

fun pending_fit :: "cbb_state \<Rightarrow> bool" where
  "pending_fit (None, c) \<longleftrightarrow> False"
| "pending_fit (Some b, c) \<longleftrightarrow> cbb_fits (written b) c"

fun cbb_room :: "malloc \<Rightarrow> cbb_state \<Rightarrow> nat \<Rightarrow> bool" where
  "cbb_room m (None, c) n \<longleftrightarrow> False"
| "cbb_room m (Some b, c) n \<longleftrightarrow> room m b n"

definition cbb_total :: "cbb_state \<Rightarrow> nat" where
  "cbb_total s = body_start (snd s) + length (cbb_contents s)"

fun cbb_resizes :: "cbb_state \<Rightarrow> bool" where
  "cbb_resizes (None, c) \<longleftrightarrow> False"
| "cbb_resizes (Some b, c) \<longleftrightarrow> bb_can_resize b"

text \<open>What an operation on a \<^verbatim>\<open>CBB\<close> leaves alone: its place in the buffer and all before its body.\<close>

definition frame :: "malloc \<Rightarrow> cbb_state \<Rightarrow> cbb_state \<Rightarrow> bool" where
  "frame m s s' \<longleftrightarrow>
     cbb_ok s' \<and> cbb_before s' = cbb_before s \<and> set_child None (snd s') = set_child None (snd s) \<and>
     cbb_resizes s' = cbb_resizes s \<and>
     (\<forall>k. cbb_total s' \<le> k \<longrightarrow> cbb_room m s k \<longrightarrow> cbb_room m s' k)"

text \<open>
  \<open>adds m f d ok\<close>: if \<open>f\<close> succeeds, it has appended \<open>d\<close>; the pending lengths fit after it only if they did
  before and \<open>ok\<close> holds; and in that case \<open>f\<close> does succeed when there is room.
\<close>

definition adds :: "malloc \<Rightarrow> (cbb_state \<Rightarrow> cbb_result) \<Rightarrow> bytes \<Rightarrow> bool \<Rightarrow> bool" where
  "adds m f d ok \<longleftrightarrow>
     (\<forall>s s'. cbb_ok s \<longrightarrow> f s = (Some (), s') \<longrightarrow>
        frame m s s' \<and> cbb_contents s' = cbb_contents s @ d \<and>
        (pending_fit s' \<longrightarrow> pending_fit s \<and> ok)) \<and>
     (\<forall>s k. cbb_ok s \<longrightarrow> pending_fit s \<longrightarrow> ok \<longrightarrow> cbb_room m s k \<longrightarrow> cbb_total s + length d \<le> k \<longrightarrow>
        (\<exists>s'. f s = (Some (), s') \<and> pending_fit s'))"

lemma addsD:
  assumes "adds m f d ok" and "cbb_ok s" and "f s = (Some (), s')"
  shows "frame m s s'" "cbb_contents s' = cbb_contents s @ d" "pending_fit s' \<Longrightarrow> pending_fit s"
    "pending_fit s' \<Longrightarrow> ok"
  using assms unfolding adds_def by blast+

lemma adds_total:
  assumes "adds m f d ok" and "cbb_ok s" and "pending_fit s" and "ok" and "cbb_room m s k"
    and "cbb_total s + length d \<le> k"
  obtains s' where "f s = (Some (), s')" and "pending_fit s'"
  using assms unfolding adds_def by blast

lemma frameD:
  assumes "frame m s s'"
  shows "cbb_ok s'" "cbb_before s' = cbb_before s" "set_child None (snd s') = set_child None (snd s)"
    "cbb_resizes s' = cbb_resizes s" "cbb_total s' \<le> k \<Longrightarrow> cbb_room m s k \<Longrightarrow> cbb_room m s' k"
  using assms by (auto simp: frame_def)

lemma same_place:
  "set_child None c = set_child None c' \<Longrightarrow>
    offset c = offset c' \<and> pending_len_len c = pending_len_len c' \<and> pending_is_asn1 c = pending_is_asn1 c'
    \<and> is_top_level c = is_top_level c'"
  by (simp add: set_child_None_eq)

lemma frame_total:
  "frame m s s' \<Longrightarrow> cbb_contents s' = cbb_contents s @ d \<Longrightarrow> cbb_total s' = cbb_total s + length d"
  by (simp add: cbb_total_def frame_def same_place [of "snd s'" "snd s"])

lemma frame_refl: "cbb_ok s \<Longrightarrow> frame m s s"
  by (simp add: frame_def)

lemma frame_trans:
  "frame m s s' \<Longrightarrow> frame m s' s'' \<Longrightarrow> cbb_total s' \<le> cbb_total s'' \<Longrightarrow> frame m s s''"
  unfolding frame_def by (metis order_trans)

lemma adds_id [intro]: "adds m (\<lambda>s. (Some (), s)) [] True"
  by (simp add: adds_def frame_refl)

lemma adds_chain [intro]:
  assumes f: "adds m f d ok" and g: "adds m g e ok'"
  shows "adds m (\<lambda>s. chain (f s) (\<lambda>_ s. g s)) (d @ e) (ok \<and> ok')"
  unfolding adds_def
proof (intro conjI allI impI)
  fix s s' assume s: "cbb_ok s" and r: "chain (f s) (\<lambda>_ s. g s) = (Some (), s')"
  then obtain s1 where 1: "f s = (Some (), s1)" and 2: "g s1 = (Some (), s')"
    by (auto simp: chain_eq_Some)
  note F = addsD [OF f s 1]
  note G = addsD [OF g frameD(1) [OF F(1)] 2]
  show "frame m s s'"
    using frame_trans [OF F(1) G(1)] frame_total [OF G(1,2)] by simp
  show "cbb_contents s' = cbb_contents s @ d @ e" using F(2) G(2) by simp
  assume "pending_fit s'"
  then show "pending_fit s" and ok and ok' using F(3,4) G(3,4) by blast+
next
  fix s k assume a: "cbb_ok s" "pending_fit s" "ok \<and> ok'" "cbb_room m s k"
    "cbb_total s + length (d @ e) \<le> k"
  have "cbb_total s + length d \<le> k" using a(5) by simp
  from adds_total [OF f a(1,2) _ a(4) this] a(3)
  obtain s1 where 1: "f s = (Some (), s1)" "pending_fit s1" by blast
  note F = addsD [OF f a(1) 1(1)]
  have "cbb_total s1 + length e \<le> k" using frame_total [OF F(1,2)] a(5) by simp
  moreover from this have "cbb_room m s1 k" using frameD(5) [OF F(1) _ a(4)] by simp
  ultimately obtain s' where "g s1 = (Some (), s')" "pending_fit s'"
    using adds_total [OF g frameD(1) [OF F(1)] 1(2)] a(3) by blast
  with 1 show "\<exists>s'. chain (f s) (\<lambda>_ s. g s) = (Some (), s') \<and> pending_fit s'" by simp
qed

lemma adds_cong: "adds m f d ok \<Longrightarrow> d = d' \<Longrightarrow> ok = ok' \<Longrightarrow> adds m f d' ok'"
  by simp

lemma CBB_flush_Some:
  assumes "malloc_spec m" and "cbb_ok s" and "CBB_flush m s = (Some (), s')"
  shows "frame m s s'" "cbb_contents s' = cbb_contents s" "pending_fit s" "child (snd s') = None"
proof -
  obtain b c where s: "s = (Some b, c)" "buf_inv b" "cbb_shape (bb_len b) c"
    using assms(2) by (cases s rule: cbb_ok.cases) auto
  obtain b' c' where f: "cbb_flush m b c = (Some (), b', c')" and s': "s' = (Some b', c')"
    using assms(3) by (auto simp: CBB_flush_def s split: prod.splits)
  from cbb_flush_Some [OF assms(1) s(2,3) f]
  have F: "cbb_fits (written b) c" "c' = set_child None c" "\<not> bb_error b"
    "updated m b b' (take (body_start c) (written b) @ cbb_body (written b) c)" by auto
  have le: "body_start c \<le> length (written b)"
    using body_start_le [OF s(3)] by (simp add: length_written [OF s(2)])
  note U = updatedD [OF F(4)]
  have body: "cbb_body (written b') c' = cbb_body (written b) c"
    using F(2) le U(2) by (cases c) simp
  have shape: "cbb_shape (bb_len b') c'"
    using F(2) le U(5) by (cases c) simp
  show "frame m s s'"
    unfolding frame_def
    using s s' F U shape le body updated_room [OF F(4)] by (simp add: cbb_total_def)
  show "cbb_contents s' = cbb_contents s" "pending_fit s" "child (snd s') = None"
    using s s' F body by simp_all
qed

lemma no_child_fit: "cbb_ok s \<Longrightarrow> child (snd s) = None \<Longrightarrow> pending_fit s"
  by (cases s; cases "fst s"; cases "snd s") auto

lemma adds_flush: "malloc_spec m \<Longrightarrow> adds m (CBB_flush m) [] True"
  unfolding adds_def
proof (intro conjI allI impI)
  fix s s' assume m: "malloc_spec m" and a: "cbb_ok s" "CBB_flush m s = (Some (), s')"
  note F = CBB_flush_Some [OF m a]
  show "frame m s s'" "cbb_contents s' = cbb_contents s @ []" using F by simp_all
  show "pending_fit s" True using F by simp_all
next
  fix s k assume m: "malloc_spec m" and a: "cbb_ok s" "pending_fit s" "cbb_room m s k"
    "cbb_total s + length ([]::bytes) \<le> k"
  obtain b c where s: "s = (Some b, c)" "buf_inv b" "cbb_shape (bb_len b) c" "\<not> bb_error b"
    using a(1) by (cases s rule: cbb_ok.cases) auto
  have "fst (cbb_flush m b c) \<noteq> None"
    by (rule cbb_flush_total [OF m s(2,3,4), of k]) (use a s in \<open>simp_all add: cbb_total_def\<close>)
  then obtain s' where s': "CBB_flush m s = (Some (), s')"
    by (cases "cbb_flush m b c") (auto simp: CBB_flush_def s)
  note F = CBB_flush_Some [OF m a(1) s']
  from s' no_child_fit [OF frameD(1) [OF F(1)] F(4)]
  show "\<exists>s'. CBB_flush m s = (Some (), s') \<and> pending_fit s'" by blast
qed

text \<open>An operation on the buffer that appends \<open>d\<close>.\<close>

definition appends ::
  "malloc \<Rightarrow> (cbb_buffer option \<Rightarrow> unit option \<times> cbb_buffer option) \<Rightarrow> bytes \<Rightarrow> bool \<Rightarrow> bool" where
  "appends m f d ok \<longleftrightarrow>
     (\<forall>b ob. buf_inv b \<longrightarrow> f (Some b) = (Some (), ob) \<longrightarrow>
        ok \<and> (\<exists>b'. ob = Some b' \<and> updated m b b' (written b @ d))) \<and>
     (\<forall>b k. buf_inv b \<longrightarrow> ok \<longrightarrow> room m b k \<longrightarrow> bb_len b + length d \<le> k \<longrightarrow> fst (f (Some b)) \<noteq> None)"

lemma adds_append:
  assumes m: "malloc_spec m" and f: "appends m f d ok"
  shows "adds m (\<lambda>s. chain (CBB_flush m s) (\<lambda>_. buffer_op f)) d ok"
  unfolding adds_def
proof (intro conjI allI impI)
  fix s s' assume s: "cbb_ok s" and r: "chain (CBB_flush m s) (\<lambda>_. buffer_op f) = (Some (), s')"
  then obtain s1 where 1: "CBB_flush m s = (Some (), s1)" and 2: "buffer_op f s1 = (Some (), s')"
    by (auto simp: chain_eq_Some)
  note F = CBB_flush_Some [OF m s 1]
  obtain b c where s1: "s1 = (Some b, c)" "buf_inv b" "cbb_shape (bb_len b) c" "\<not> bb_error b"
    using frameD(1) [OF F(1)] by (cases s1 rule: cbb_ok.cases) auto
  obtain ob where fb: "f (Some b) = (Some (), ob)" "s' = (ob, c)"
    using 2 by (auto simp: buffer_op_def s1 split: prod.splits)
  then obtain b' where b': "ok" "ob = Some b'" "updated m b b' (written b @ d)"
    using f s1(2) unfolding appends_def by blast
  note U = updatedD [OF b'(3)]
  have lw: "length (written b) = bb_len b" using s1(2) by (rule length_written)
  have c: "child c = None" using F(4) s1 by simp
  have le: "body_start c \<le> length (written b)" using body_start_le [OF s1(3)] by (simp add: lw)
  have shape: "cbb_shape (bb_len b') c" using c le U(5) by (cases c) simp
  have cont: "cbb_contents s' = cbb_contents s1 @ d"
    using c le U(2) by (cases c) (simp add: fb s1 b')
  have fr: "frame m s1 s'"
    unfolding frame_def
    using s1 fb b' U shape le updated_room [OF b'(3)] cont c
    by (cases c) (simp add: cbb_total_def)
  show "frame m s s'" using frame_trans [OF F(1) fr] frame_total [OF fr cont] by simp
  show "cbb_contents s' = cbb_contents s @ d" using cont F(2) by simp
  show "pending_fit s" "ok" using F(3) b'(1) by simp_all
next
  fix s k assume a: "cbb_ok s" "pending_fit s" "ok" "cbb_room m s k" "cbb_total s + length d \<le> k"
  have "cbb_total s + length [] \<le> k" using a(5) by simp
  from adds_total [OF adds_flush [OF m] a(1,2) TrueI a(4) this]
  obtain s1 where 1: "CBB_flush m s = (Some (), s1)" by blast
  note F = CBB_flush_Some [OF m a(1) 1]
  obtain b c where s1: "s1 = (Some b, c)" "buf_inv b" "cbb_shape (bb_len b) c" "\<not> bb_error b"
    using frameD(1) [OF F(1)] by (cases s1 rule: cbb_ok.cases) auto
  have c: "child c = None" using F(4) s1 by simp
  have "cbb_total s1 + length d \<le> k" using frame_total [OF F(1), of "[]"] F(2) a(5) by simp
  moreover have "bb_len b \<le> cbb_total s1"
    using cbb_body_length [of "written b" c] s1 by (simp add: cbb_total_def length_written)
  moreover have "cbb_room m s1 k" using frameD(5) [OF F(1) _ a(4)] calculation by simp
  ultimately have "fst (f (Some b)) \<noteq> None"
    using f s1 a(3) unfolding appends_def by simp
  then obtain ob where fb: "f (Some b) = (Some (), ob)" by (cases "f (Some b)") auto
  then obtain b' where "ob = Some b'" using f s1(2) unfolding appends_def by blast
  with fb 1 s1 c show "\<exists>s'. chain (CBB_flush m s) (\<lambda>_. buffer_op f) = (Some (), s') \<and> pending_fit s'"
    by (cases c) (simp add: buffer_op_def)
qed

section \<open>Bytes and integers\<close>

lemma appends_fill:
  assumes "malloc_spec m" and "length data < 2 ^ 63"
  shows "appends m (\<lambda>base. chain (cbb_buffer_add m base (length data)) (\<lambda>dest. fill dest data)) data True"
  unfolding appends_def
proof (intro conjI allI impI)
  fix b ob
  assume inv: "buf_inv b"
    and r: "chain (cbb_buffer_add m (Some b) (length data)) (\<lambda>dest. fill dest data) = (Some (), ob)"
  then obtain pos ob' where add: "cbb_buffer_add m (Some b) (length data) = (Some pos, ob')"
    and ob: "fill pos data ob' = (Some (), ob)" by (auto elim: chain_SomeE)
  obtain b' where "ob' = Some b'"
    "updated m b (b'\<lparr>bb_buf := mem_write (bb_buf b') pos data\<rparr>) (written b @ data)"
    using cbb_buffer_add_Some [OF assms(1) inv assms(2) add] by blast
  with ob show "\<exists>b'. ob = Some b' \<and> updated m b b' (written b @ data)" by (auto simp: fill_def)
next
  fix b k assume a: "buf_inv b" "room m b k" "bb_len b + length data \<le> k"
  from cbb_buffer_add_total [OF assms(1) a assms(2)]
  show "fst (chain (cbb_buffer_add m (Some b) (length data)) (\<lambda>dest. fill dest data)) \<noteq> None"
    by (cases "cbb_buffer_add m (Some b) (length data)") (auto simp: fill_def)
qed simp

lemma appends_add_u:
  assumes m: "malloc_spec m" and n: "0 < n" "n < 2 ^ 63"
  shows "appends m (\<lambda>base. cbb_buffer_add_u m base v n) (be_bytes n (unat v)) (unat v < 256 ^ n)"
  unfolding appends_def
proof (intro conjI allI impI)
  fix b ob
  assume inv: "buf_inv b" and r: "cbb_buffer_add_u m (Some b) v n = (Some (), ob)"
  then obtain pos ob' where add: "cbb_buffer_add m (Some b) n = (Some pos, ob')"
    using n by (auto simp: cbb_buffer_add_u_def elim: chain_SomeE)
  obtain b' where b': "ob' = Some b'" "pos = bb_len b" "bb_len b' = bb_len b + n" "buf_inv b'"
    "\<And>d. length d = n \<Longrightarrow> updated m b (b'\<lparr>bb_buf := mem_write (bb_buf b') pos d\<rparr>) (written b @ d)"
    using cbb_buffer_add_Some [OF m inv n(2) add] by metis
  have "pos + n \<le> length (bb_buf b')" using b'(2-4) by (simp add: buf_inv_def)
  note st = store_be_eq [OF this, of "unat v"]
  show "unat v < 256 ^ n"
    using r n add b'(1) by (auto simp: cbb_buffer_add_u_def st div_eq_0_iff split: if_splits)
  have "ob = Some (b'\<lparr>bb_buf := mem_write (bb_buf b') pos (be_bytes n (unat v))\<rparr>)"
    using r n add b'(1) by (auto simp: cbb_buffer_add_u_def st split: if_splits)
  then show "\<exists>b''. ob = Some b'' \<and> updated m b b'' (written b @ be_bytes n (unat v))"
    using b'(5) by simp
next
  fix b k
  assume a: "buf_inv b" "unat v < 256 ^ n" "room m b k" "bb_len b + length (be_bytes n (unat v)) \<le> k"
  have "fst (cbb_buffer_add m (Some b) n) \<noteq> None"
    using cbb_buffer_add_total [OF m a(1,3) _ n(2)] a(4) by simp
  then obtain pos ob' where add: "cbb_buffer_add m (Some b) n = (Some pos, ob')"
    by (cases "cbb_buffer_add m (Some b) n") auto
  obtain b' where b': "ob' = Some b'" "pos = bb_len b" "bb_len b' = bb_len b + n" "buf_inv b'"
    using cbb_buffer_add_Some [OF m a(1) n(2) add] by metis
  have "pos + n \<le> length (bb_buf b')" using b' by (simp add: buf_inv_def)
  note st = store_be_eq [OF this, of "unat v"]
  show "fst (cbb_buffer_add_u m (Some b) v n) \<noteq> None"
    using n add b'(1) a(2) by (simp add: cbb_buffer_add_u_def st)
qed

lemma adds_bytes:
  "malloc_spec m \<Longrightarrow> length data < 2 ^ 63 \<Longrightarrow> adds m (\<lambda>s. CBB_add_bytes m s data) data True"
  unfolding CBB_add_bytes_def by (intro adds_append appends_fill)

lemma adds_uint:
  assumes "malloc_spec m"
  shows "adds m (\<lambda>s. CBB_add_u8 m s v8) [v8] True"
    and "adds m (\<lambda>s. CBB_add_u16 m s v16) (be_bytes 2 (unat v16)) True"
    and "adds m (\<lambda>s. CBB_add_u24 m s v24) (be_bytes 3 (unat v24)) (unat v24 < 256 ^ 3)"
    and "adds m (\<lambda>s. CBB_add_u32 m s v32) (be_bytes 4 (unat v32)) True"
proof -
  have A: "adds m (\<lambda>s. chain (CBB_flush m s) (\<lambda>_. buffer_op (\<lambda>base. cbb_buffer_add_u m base v n)))
    (be_bytes n (unat v)) (unat v < 256 ^ n)" if "0 < n" "n < 2 ^ 63" for v n
    using assms that by (intro adds_append appends_add_u)
  have u: "unat (ucast v8 :: u32) = unat v8" "unat (ucast v16 :: u32) = unat v16"
    by (simp_all add: unat_ucast_up)
  have l: "unat v8 < 256" "unat v16 < 256 ^ 2" "unat v32 < 256 ^ 4"
    using unsigned_less [of v16] unsigned_less [of v32] by simp_all
  show "adds m (\<lambda>s. CBB_add_u8 m s v8) [v8] True"
    using A [of 1 "ucast v8"] l by (simp add: CBB_add_u8_def u)
  show "adds m (\<lambda>s. CBB_add_u16 m s v16) (be_bytes 2 (unat v16)) True"
    using A [of 2 "ucast v16"] l by (simp add: CBB_add_u16_def u)
  show "adds m (\<lambda>s. CBB_add_u24 m s v24) (be_bytes 3 (unat v24)) (unat v24 < 256 ^ 3)"
    using A [of 3 v24] by (simp add: CBB_add_u24_def)
  show "adds m (\<lambda>s. CBB_add_u32 m s v32) (be_bytes 4 (unat v32)) True"
    using A [of 4 v32] l by (simp add: CBB_add_u32_def)
qed

section \<open>Base-128 integers, written\<close>

primrec base128_groups :: "u64 \<Rightarrow> nat \<Rightarrow> bytes" where
  "base128_groups v 0 = []"
| "base128_groups v (Suc i) =
     (let byte = ucast (drop_bit (7 * i) v) AND 0x7f
      in (if i \<noteq> 0 then byte OR 0x80 else byte) # base128_groups v i)"

lemma adds_base128_groups:
  "malloc_spec m \<Longrightarrow> adds m (add_base128_groups m v n) (base128_groups v n) True"
proof (induction n)
  case 0
  show ?case using adds_id by (simp add: fun_eq_iff)
next
  case (Suc n)
  let ?byte = "let byte = ucast (drop_bit (7 * n) v) AND 0x7f in if n \<noteq> 0 then byte OR 0x80 else byte"
  have "adds m (\<lambda>s. chain (CBB_add_u8 m s ?byte) (\<lambda>_ s. add_base128_groups m v n s))
    ([?byte] @ base128_groups v n) (True \<and> True)"
    using Suc by (intro adds_chain adds_uint)
  moreover have "add_base128_groups m v (Suc n) =
    (\<lambda>s. chain (CBB_add_u8 m s ?byte) (\<lambda>_ s. add_base128_groups m v n s))"
    by (simp add: Let_def fun_eq_iff)
  ultimately show ?case by (simp add: Let_def)
qed

lemma unat_septet:
  "unat (ucast (w :: u64) AND 0x7f :: u8) = unat w mod 128"
  "unat ((ucast (w :: u64) AND 0x7f OR 0x80) :: u8) = 128 + unat w mod 128"
proof -
  show 1: "unat (ucast w AND 0x7f :: u8) = unat w mod 128" for w :: u64
    by (simp only: byte_and_mask) (simp add: unsigned_ucast_eq take_bit_eq_mod mod_mod_cancel)
  have "(ucast w AND 0x7f OR 0x80) = (ucast w AND 0x7f) + (0x80 :: u8)"
    by (rule or_disjoint_add, subst byte_high_bit, subst 1) simp
  moreover have "unat ((ucast w AND 0x7f) + (0x80 :: u8)) = unat (ucast w AND 0x7f :: u8) + 128"
    by (subst unat_plus_if') (use 1 [of w] in simp)
  ultimately show "unat ((ucast w AND 0x7f OR 0x80) :: u8) = 128 + unat w mod 128"
    using 1 [of w] by simp
qed

lemma base128_hi_map:
  "base128_hi (unat v) = map (\<lambda>i. ucast (drop_bit (7 * i) v) AND 0x7f OR 0x80) (rev [0..<base128_len v])"
proof (induction v rule: base128_len.induct)
  case (1 v)
  show ?case
  proof (cases "v > 0")
    case True
    then have "0 < unat v" by (simp add: word_gt_0 unat_gt_0)
    moreover have "unat v div 128 = unat (drop_bit 7 v)" by (simp add: unat_drop_bit_div)
    moreover have "(of_nat (128 + unat v mod 128) :: u8) = ucast v AND 0x7f OR 0x80"
      by (simp only: unat_septet(2) [symmetric] byte_of_nat_unat)
    moreover have "rev [0..<Suc n] = map Suc (rev [0..<n]) @ [0]" for n
      by (simp only: upt_conv_Cons [OF zero_less_Suc] map_Suc_upt rev_map [symmetric] rev.simps)
    ultimately show ?thesis
      using 1 [OF True] True
      by (simp add: base128_hi_pos base128_len.simps [of v] comp_def algebra_simps del: upt_Suc)
  qed (simp add: word_gt_0 base128_len.simps [of 0])
qed

lemma base128_groups_len:
  "base128_groups v (if base128_len v = 0 then 1 else base128_len v) = base128 (unat v)"
proof -
  have groups: "base128_groups v (Suc n) =
    map (\<lambda>i. ucast (drop_bit (7 * i) (drop_bit 7 v)) AND 0x7f OR 0x80) (rev [0..<n]) @ [ucast v AND 0x7f]" for n
    by (induction n) (simp_all add: Let_def algebra_simps)
  have last: "(of_nat (unat v mod 128) :: u8) = ucast v AND 0x7f"
    by (simp only: unat_septet(1) [symmetric] byte_of_nat_unat)
  have "unat v div 128 = unat (drop_bit 7 v)" by (simp add: unat_drop_bit_div)
  then have b: "base128 (unat v) = base128_groups v (Suc (base128_len (drop_bit 7 v)))"
    by (simp only: base128_def base128_hi_map groups last)
  show ?thesis
  proof (cases "v > 0")
    case True
    then show ?thesis by (simp only: b base128_len.simps [of v] if_True nat.distinct if_False)
  next
    case False
    then have "v = 0" by (simp add: word_gt_0)
    then show ?thesis using b by (simp add: base128_len.simps [of 0])
  qed
qed

lemma adds_base128_integer:
  "malloc_spec m \<Longrightarrow> adds m (\<lambda>s. add_base128_integer m s v) (base128 (unat v)) True"
  using adds_base128_groups [of m v "if base128_len v = 0 then 1 else base128_len v"]
  by (simp only: add_base128_integer_def Let_def base128_groups_len)

section \<open>Children\<close>

text \<open>
  \<open>opened m s s' p n asn1\<close>: from \<open>s\<close>, an operation has appended what makes the contents \<open>p\<close> and left open a
  child with a prefix of \<open>n\<close> placeholder bytes.
\<close>

definition opened :: "malloc \<Rightarrow> cbb_state \<Rightarrow> cbb_state \<Rightarrow> bytes \<Rightarrow> nat \<Rightarrow> bool \<Rightarrow> bool" where
  "opened m s s' p n asn1 \<longleftrightarrow>
     frame m s s' \<and>
     (\<exists>b c off. s' = (Some b, c) \<and> child c = Some (CBB off n asn1 False None) \<and>
        off + n = bb_len b \<and> drop (body_start c) (take off (written b)) = p)"

definition opens :: "malloc \<Rightarrow> (cbb_state \<Rightarrow> cbb_result) \<Rightarrow> bytes \<Rightarrow> nat \<Rightarrow> bool \<Rightarrow> bool" where
  "opens m f h n asn1 \<longleftrightarrow>
     (\<forall>s s'. cbb_ok s \<longrightarrow> f s = (Some (), s') \<longrightarrow>
        pending_fit s \<and> opened m s s' (cbb_contents s @ h) n asn1) \<and>
     (\<forall>s k. cbb_ok s \<longrightarrow> pending_fit s \<longrightarrow> cbb_room m s k \<longrightarrow> cbb_total s + length h + n \<le> k \<longrightarrow>
        (\<exists>s'. f s = (Some (), s')))"

definition closes :: "(cbb_state \<Rightarrow> cbb_result) \<Rightarrow> bool" where
  "closes f \<longleftrightarrow> (\<forall>s s'. cbb_ok s \<longrightarrow> f s = (Some (), s') \<longrightarrow> child (snd s') = None)"

lemma closesD: "closes f \<Longrightarrow> cbb_ok s \<Longrightarrow> f s = (Some (), s') \<Longrightarrow> child (snd s') = None"
  unfolding closes_def by blast

lemma closes_chain:
  "adds m f d ok \<Longrightarrow> closes g \<Longrightarrow> closes (\<lambda>s. chain (f s) (\<lambda>_ s. g s))"
  unfolding closes_def
proof (intro allI impI)
  fix s s' assume a: "adds m f d ok" "cbb_ok s"
    and g: "\<forall>s s'. cbb_ok s \<longrightarrow> g s = (Some (), s') \<longrightarrow> child (snd s') = None"
    and "chain (f s) (\<lambda>_ s. g s) = (Some (), s')"
  then obtain s1 where "f s = (Some (), s1)" "g s1 = (Some (), s')"
    by (auto simp: chain_eq_Some)
  with g frameD(1) [OF addsD(1) [OF a]] show "child (snd s') = None" by blast
qed

lemma closes_append: "malloc_spec m \<Longrightarrow> closes (\<lambda>s. chain (CBB_flush m s) (\<lambda>_. buffer_op f))"
  unfolding closes_def
proof (intro allI impI)
  fix s s' assume m: "malloc_spec m" "cbb_ok s"
    and "chain (CBB_flush m s) (\<lambda>_. buffer_op f) = (Some (), s')"
  then obtain s1 where "CBB_flush m s = (Some (), s1)" "buffer_op f s1 = (Some (), s')"
    by (auto simp: chain_eq_Some)
  with CBB_flush_Some(4) [OF m] show "child (snd s') = None"
    by (cases "f (fst s1)") (auto simp: buffer_op_def)
qed

lemma closes_flush: "malloc_spec m \<Longrightarrow> closes (CBB_flush m)"
  unfolding closes_def using CBB_flush_Some(4) by blast

lemma closes_u8: "malloc_spec m \<Longrightarrow> closes (\<lambda>s. CBB_add_u8 m s v)"
  unfolding CBB_add_u8_def by (rule closes_append)

lemma closes_base128: "malloc_spec m \<Longrightarrow> closes (\<lambda>s. add_base128_integer m s v)"
proof -
  assume m: "malloc_spec m"
  have "closes (add_base128_groups m v (Suc n))" for n
  proof (induction n)
    case 0
    show ?case using closes_u8 [OF m] by (simp add: closes_def chain_eq_Some Let_def)
  next
    case (Suc n)
    let ?byte = "let byte = ucast (drop_bit (7 * Suc n) v) AND 0x7f in if Suc n \<noteq> 0 then byte OR 0x80 else byte"
    have "closes (\<lambda>s. chain (CBB_add_u8 m s ?byte) (\<lambda>_ s. add_base128_groups m v (Suc n) s))"
      using Suc by (intro closes_chain [OF adds_uint(1) [OF m]])
    moreover have "add_base128_groups m v (Suc (Suc n)) =
      (\<lambda>s. chain (CBB_add_u8 m s ?byte) (\<lambda>_ s. add_base128_groups m v (Suc n) s))"
      by (rule ext) (simp only: add_base128_groups.simps(2) [of m v "Suc n"] Let_def)
    ultimately show ?case by (simp only:)
  qed
  then have "closes (add_base128_groups m v (if base128_len v = 0 then 1 else base128_len v))"
    by (cases "base128_len v") (simp_all only: One_nat_def if_True if_False nat.distinct refl)
  then show ?thesis by (simp only: add_base128_integer_def Let_def)
qed

lemma opens_child:
  assumes f: "adds m f (h @ zeros) True" and zeros: "length zeros = n"
    and n: "0 < n" "asn1 \<Longrightarrow> n = 1"
    and closed: "closes f"
    and g: "\<And>s. cbb_ok s \<Longrightarrow> g s =
      (case f s of
         (None, s') \<Rightarrow> (None, s')
       | (Some _, base, c) \<Rightarrow>
           (Some (), base, set_child (Some (CBB (bb_len (the base) - n) n asn1 False None)) c))"
  shows "opens m g h n asn1"
  unfolding opens_def
proof (intro conjI allI impI)
  fix s s' assume s: "cbb_ok s" and r: "g s = (Some (), s')"
  then obtain ob c where fs: "f s = (Some (), ob, c)"
    and s': "s' = (ob, set_child (Some (CBB (bb_len (the ob) - n) n asn1 False None)) c)"
    using g by (auto split: prod.splits option.splits)
  note F = addsD [OF f s fs]
  obtain b where b: "ob = Some b" "buf_inv b" "\<not> bb_error b" "cbb_shape (bb_len b) c"
    using frameD(1) [OF F(1)] by (cases ob) auto
  have c: "child c = None" using closesD [OF closed s fs] by simp
  then show "pending_fit s" using F(3) no_child_fit [OF frameD(1) [OF F(1)]] by simp
  define off where "off = bb_len b - n"
  have lw: "length (written b) = bb_len b" using b(2) by (rule length_written)
  have le: "body_start c \<le> bb_len b" using body_start_le [OF b(4)] .
  have cont: "drop (body_start c) (written b) = (cbb_contents s @ h) @ zeros"
    using F(2) b c by (cases c) simp
  from arg_cong [OF this, of length] zeros lw le
  have off: "body_start c \<le> off" "off + n = bb_len b"
    "body_start c + (length (cbb_contents s) + length h) = off" by (auto simp: off_def)
  have "drop (body_start c) (take off (written b)) = take (off - body_start c) ((cbb_contents s @ h) @ zeros)"
    by (simp only: cont [symmetric] take_drop) (use off(1) in simp)
  also have "\<dots> = cbb_contents s @ h"
    using arg_cong [OF cont, of length] lw zeros off by simp
  finally have p: "drop (body_start c) (take off (written b)) = cbb_contents s @ h" .
  have s'': "s' = (Some b, set_child (Some (CBB off n asn1 False None)) c)"
    using s' by (simp add: b off_def)
  have ok: "cbb_ok s'"
    using b off n le s'' by (cases c) simp
  have tot: "cbb_total (ob, c) \<le> cbb_total s'"
    using length_prefix_ge [of "CBB off n asn1 False None" 0] n off b s'' lw c cont zeros
    by (cases c) (auto simp: cbb_total_def)
  have "frame m (ob, c) s'"
    unfolding frame_def using ok s'' b by (simp add: set_child_None_eq)
  from frame_trans [OF F(1) this tot]
  show "opened m s s' (cbb_contents s @ h) n asn1"
    unfolding opened_def using s'' p off by auto
next
  fix s k assume a: "cbb_ok s" "pending_fit s" "cbb_room m s k" "cbb_total s + length h + n \<le> k"
  have "cbb_total s + length (h @ zeros) \<le> k" using a(4) zeros by simp
  from adds_total [OF f a(1,2) TrueI a(3) this] obtain s1 where "f s = (Some (), s1)" by blast
  with g [OF a(1)] show "\<exists>s'. g s = (Some (), s')" by (cases s1) simp
qed

text \<open>Filling the child that has been opened.\<close>

lemma opened_child:
  assumes "opened m s s' p n asn1" and body: "adds m f d ok" and r: "on_child f s' = (Some (), s'')"
  defines "c \<equiv> CBB 0 n asn1 False None"
  shows "frame m s s''" and "cbb_contents s'' = p @ prefix_bytes c (length d) @ d"
    and "pending_fit s'' \<Longrightarrow> prefix_fits c (length d) \<and> ok"
proof -
  obtain b pc off where s': "s' = (Some b, pc)" and ch: "child pc = Some (CBB off n asn1 False None)"
    and off: "off + n = bb_len b" and p: "drop (body_start pc) (take off (written b)) = p"
    and fr: "frame m s s'"
    using assms(1) by (auto simp: opened_def)
  let ?ch = "CBB off n asn1 False None"
  have b: "buf_inv b" "\<not> bb_error b" "cbb_shape (bb_len b) pc"
    using frameD(1) [OF fr] s' by simp_all
  have shape: "body_start pc \<le> off" "0 < n" "asn1 \<Longrightarrow> n = 1"
    using b(3) ch by (cases pc; simp)+
  have lw: "length (written b) = bb_len b" using b(1) by (rule length_written)
  have ok: "cbb_ok (Some b, ?ch)" using b off by simp
  obtain ob ch' where f: "f (Some b, ?ch) = (Some (), ob, ch')"
    and s'': "s'' = (ob, set_child (Some ch') pc)"
    using r s' ch by (auto simp: on_child_def split: prod.splits)
  note F = addsD [OF body ok f]
  obtain b' where b': "ob = Some b'" "buf_inv b'" "\<not> bb_error b'" "cbb_shape (bb_len b') ch'"
    using frameD(1) [OF F(1)] by (cases ob) auto
  have pl: "offset ch' = off" "pending_len_len ch' = n" "pending_is_asn1 ch' = asn1"
    using same_place [OF frameD(3) [OF F(1)]] by simp_all
  have before: "take (off + n) (written b') = take (off + n) (written b)"
    using frameD(2) [OF F(1)] pl b' by simp
  have before': "take k (written b') = take k (written b)" if "k \<le> off + n" for k
    using arg_cong [OF before, of "take k"] that by (simp add: min_def)
  have cont: "cbb_body (written b') ch' = d"
    using F(2) b'(1) off lw by simp
  have pfx: "prefix_bytes ch' = prefix_bytes c" "prefix_fits ch' = prefix_fits c"
    using pl by (simp_all add: c_def prefix_bytes_def prefix_fits_def fun_eq_iff)
  have C: "cbb_contents s'' = p @ prefix_bytes c (length d) @ d"
    using s'' b'(1) pl cont before' [of off] p pfx by (cases pc) simp
  then show "cbb_contents s'' = p @ prefix_bytes c (length d) @ d" .
  show "prefix_fits c (length d) \<and> ok" if "pending_fit s''"
    using that s'' b'(1) cont pfx F(4) by (cases pc) simp
  have ok'': "cbb_ok s''" using s'' b' pl shape by (cases pc) simp
  have lp: "off = body_start pc + length p" using p off lw shape(1) by auto
  have "cbb_total s' \<le> cbb_total s''"
  proof -
    have "cbb_body (written b) ?ch = []" using off lw by simp
    then have "cbb_contents s' = p @ prefix_bytes c 0"
      using s' ch p by (cases pc) (simp add: c_def prefix_bytes_def)
    moreover have "length (prefix_bytes c 0) \<le> length (prefix_bytes c (length d))"
      by (simp add: prefix_bytes_def c_def length_asn1_length length_octets_def)
    ultimately show ?thesis using C s' s'' by (simp add: cbb_total_def)
  qed
  moreover have "frame m s' s''"
    unfolding frame_def
  proof (intro conjI allI impI ok'')
    show "cbb_before s'' = cbb_before s'"
      using s' s'' b'(1) before' [of "body_start pc"] shape(1) by simp
    show "set_child None (snd s'') = set_child None (snd s')" using s' s'' by simp
    show "cbb_resizes s'' = cbb_resizes s'" using frameD(4) [OF F(1)] s' s'' b'(1) by simp
    fix k assume k: "cbb_total s'' \<le> k" "cbb_room m s' k"
    have "cbb_total (ob, ch') \<le> cbb_total s''"
      using C s'' pl b'(1) cont lp length_prefix_ge [of c "length d"] shape(3)
      by (simp add: cbb_total_def c_def)
    with k frameD(5) [OF F(1), of k] s' s'' show "cbb_room m s'' k" by (simp add: b'(1))
  qed
  ultimately show "frame m s s''" using frame_trans [OF fr] by blast
qed

lemma opened_child_total:
  assumes "opened m s s' p n asn1" and body: "adds m f d ok" and ok
  defines "c \<equiv> CBB 0 n asn1 False None"
  assumes fits: "prefix_fits c (length d)"
    and room: "cbb_room m s k" "body_start (snd s) + length p + length (prefix_bytes c (length d)) + length d \<le> k"
  shows "\<exists>s''. on_child f s' = (Some (), s'') \<and> pending_fit s''"
proof -
  obtain b pc off where s': "s' = (Some b, pc)" and ch: "child pc = Some (CBB off n asn1 False None)"
    and off: "off + n = bb_len b" and p: "drop (body_start pc) (take off (written b)) = p"
    and fr: "frame m s s'"
    using assms(1) by (auto simp: opened_def)
  let ?ch = "CBB off n asn1 False None"
  have b: "buf_inv b" "\<not> bb_error b" "cbb_shape (bb_len b) pc"
    using frameD(1) [OF fr] s' by simp_all
  have shape: "body_start pc \<le> off" "0 < n" "asn1 \<Longrightarrow> n = 1"
    using b(3) ch by (cases pc; simp)+
  have lw: "length (written b) = bb_len b" using b(1) by (rule length_written)
  have lp: "off = body_start pc + length p" using p off lw shape(1) by auto
  have ok': "cbb_ok (Some b, ?ch)" using b off by simp
  have place: "body_start pc = body_start (snd s)"
    using same_place [OF frameD(3) [OF fr]] s' by simp
  have pn: "length (prefix_bytes c 0) = n" "n \<le> length (prefix_bytes c (length d))"
    using length_prefix_ge [of c "length d"] shape(3)
    by (auto simp: c_def prefix_bytes_def length_asn1_length length_octets_def)
  have cb: "cbb_body (written b) ?ch = []" using off lw by simp
  then have "cbb_contents s' = p @ prefix_bytes c 0"
    using s' ch p by (cases pc) (simp add: c_def prefix_bytes_def)
  then have "cbb_total s' \<le> k" using room(2) pn s' place by (simp add: cbb_total_def)
  then have "cbb_room m s' k" using frameD(5) [OF fr _ room(1)] by simp
  then have rm: "cbb_room m (Some b, ?ch) k" using s' by simp
  have tot: "cbb_total (Some b, ?ch) + length d \<le> k"
    using room(2) pn place lp off lw by (simp add: cbb_total_def)
  have "pending_fit (Some b, ?ch)" by simp
  from adds_total [OF body ok' this \<open>ok\<close> rm tot]
  obtain s2 where f: "f (Some b, ?ch) = (Some (), s2)" "pending_fit s2" by blast
  obtain ob ch' where s2: "s2 = (ob, ch')" by (cases s2)
  note F = addsD [OF body ok' f(1)]
  obtain b' where b': "ob = Some b'" using frameD(1) [OF F(1)] s2 by (cases ob) auto
  have "prefix_fits ch' = prefix_fits c"
    using same_place [OF frameD(3) [OF F(1)]] s2 by (simp add: c_def prefix_fits_def fun_eq_iff)
  moreover have "cbb_body (written b') ch' = d" using F(2) s2 b' cb by simp
  ultimately have "pending_fit (ob, set_child (Some ch') pc)"
    using f(2) s2 b' fits by (cases pc) simp
  then show ?thesis using f(1) s' ch s2 by (simp add: on_child_def)
qed

lemma adds_child:
  assumes f: "opens m f h n asn1" and g: "adds m g d ok" and n: "asn1 \<Longrightarrow> n = 1"
  defines "c \<equiv> CBB 0 n asn1 False None"
  shows "adds m (\<lambda>s. chain (f s) (\<lambda>_. on_child g)) (h @ prefix_bytes c (length d) @ d)
    (prefix_fits c (length d) \<and> ok)"
  unfolding adds_def
proof (intro conjI allI impI)
  fix s s' assume s: "cbb_ok s" and r: "chain (f s) (\<lambda>_. on_child g) = (Some (), s')"
  then obtain s1 where 1: "f s = (Some (), s1)" and 2: "on_child g s1 = (Some (), s')"
    by (auto simp: chain_eq_Some)
  have F: "pending_fit s" "opened m s s1 (cbb_contents s @ h) n asn1"
    using f s 1 unfolding opens_def by blast+
  note G = opened_child [OF F(2) g 2]
  show "frame m s s'" using G(1) .
  show "cbb_contents s' = cbb_contents s @ h @ prefix_bytes c (length d) @ d"
    using G(2) by (simp add: c_def)
  show "pending_fit s" using F(1) .
  show "prefix_fits c (length d)" ok if "pending_fit s'" using G(3) [OF that] by (simp_all add: c_def)
next
  fix s k assume a: "cbb_ok s" "pending_fit s" "prefix_fits c (length d) \<and> ok" "cbb_room m s k"
    "cbb_total s + length (h @ prefix_bytes c (length d) @ d) \<le> k"
  have "n \<le> length (prefix_bytes c (length d))"
    using length_prefix_ge [of c] n by (simp add: c_def)
  then have "cbb_total s + length h + n \<le> k" using a(5) by simp
  with f a obtain s1 where 1: "f s = (Some (), s1)" unfolding opens_def by blast
  then have op: "opened m s s1 (cbb_contents s @ h) n asn1"
    using f a(1) unfolding opens_def by blast
  have "prefix_fits (CBB 0 n asn1 False None) (length d)" ok using a(3) by (simp_all add: c_def)
  from opened_child_total [OF op g this(2,1) a(4)] a(5)
  obtain s' where "on_child g s1 = (Some (), s')" "pending_fit s'"
    by (auto simp: cbb_total_def c_def)
  with 1 show "\<exists>s'. chain (f s) (\<lambda>_. on_child g) = (Some (), s') \<and> pending_fit s'" by simp
qed

lemma add_length_prefixed_eq:
  assumes "malloc_spec m" and "0 < n" and "n < 2 ^ 63" and "cbb_ok s"
  shows "cbb_add_length_prefixed m s n =
    (case CBB_add_bytes m s (replicate n 0) of
       (None, s') \<Rightarrow> (None, s')
     | (Some _, base, c) \<Rightarrow>
         (Some (), base, set_child (Some (CBB (bb_len (the base) - n) n False False None)) c))"
proof (cases "CBB_flush m s")
  case fl: (fields r base c)
  show ?thesis
  proof (cases r)
    case (Some u)
    then have fl: "CBB_flush m s = (Some (), base, c)" using fl by simp
    obtain b where s1: "base = Some b" "buf_inv b"
      using frameD(1) [OF CBB_flush_Some(1) [OF assms(1,4) fl]] by (cases base) auto
    obtain r' ob where add: "cbb_buffer_add m (Some b) n = (r', ob)" by (cases "cbb_buffer_add m (Some b) n")
    show ?thesis
    proof (cases r')
      case (Some pos)
      with cbb_buffer_add_Some [OF assms(1) s1(2) assms(3)] add
      obtain b' where "ob = Some b'" "pos = bb_len b" "bb_len b' = bb_len b + n" by metis
      with fl s1 add Some show ?thesis
        by (simp add: cbb_add_length_prefixed_def CBB_add_bytes_def buffer_op_def fill_def)
    qed (simp add: cbb_add_length_prefixed_def CBB_add_bytes_def buffer_op_def fl s1 add)
  qed (simp add: cbb_add_length_prefixed_def CBB_add_bytes_def fl)
qed

lemma opens_length_prefixed:
  assumes "malloc_spec m" and "0 < n" and "n < 2 ^ 63"
  shows "opens m (\<lambda>s. cbb_add_length_prefixed m s n) [] n False"
proof (rule opens_child [where f = "\<lambda>s. CBB_add_bytes m s (replicate n 0)"])
  show "adds m (\<lambda>s. CBB_add_bytes m s (replicate n 0)) ([] @ replicate n 0) True"
    using adds_bytes [of m "replicate n 0"] assms by simp
  show "closes (\<lambda>s. CBB_add_bytes m s (replicate n 0))"
    unfolding CBB_add_bytes_def by (rule closes_append [OF assms(1)])
qed (use assms add_length_prefixed_eq in simp_all)

text \<open>The identifier octets that \<^verbatim>\<open>CBB_add_asn1\<close> writes, then its placeholder.\<close>

definition add_identifier :: "malloc \<Rightarrow> u32 \<Rightarrow> cbb_state \<Rightarrow> cbb_result" where
  "add_identifier m tag s =
     (let tag_bits = ucast (drop_bit CBS_ASN1_TAG_SHIFT tag) AND 0xe0;
          tag_number = tag AND CBS_ASN1_TAG_NUMBER_MASK
      in if tag_number \<ge> 0x1f
         then chain (CBB_add_u8 m s (tag_bits OR 0x1f)) (\<lambda>_ s. add_base128_integer m s (ucast tag_number))
         else CBB_add_u8 m s (tag_bits OR ucast tag_number))"

lemma adds_identifier:
  assumes "malloc_spec m"
  shows "adds m (add_identifier m tag) (asn1_identifier tag) True"
proof -
  let ?bits = "ucast (drop_bit CBS_ASN1_TAG_SHIFT tag) AND 0xe0 :: u8" and ?n = "tag AND CBS_ASN1_TAG_NUMBER_MASK"
  have "unat (ucast ?n :: u64) = unat ?n" by (simp add: unat_ucast_up)
  then have hi: "adds m (\<lambda>s. chain (CBB_add_u8 m s (?bits OR 0x1f)) (\<lambda>_ s. add_base128_integer m s (ucast ?n)))
    ([?bits OR 0x1f] @ base128 (unat ?n)) (True \<and> True)"
    using assms adds_base128_integer [of m "ucast ?n"] by (intro adds_chain adds_uint) simp_all
  have lo: "adds m (\<lambda>s. CBB_add_u8 m s (?bits OR ucast ?n)) [?bits OR ucast ?n] True"
    using assms by (rule adds_uint)
  have eq: "add_identifier m tag = (if ?n \<ge> 0x1f
    then \<lambda>s. chain (CBB_add_u8 m s (?bits OR 0x1f)) (\<lambda>_ s. add_base128_integer m s (ucast ?n))
    else (\<lambda>s. CBB_add_u8 m s (?bits OR ucast ?n)))"
    by (simp add: add_identifier_def Let_def fun_eq_iff)
  show ?thesis using hi lo by (simp add: eq asn1_identifier_def Let_def)
qed

lemma closes_identifier: "malloc_spec m \<Longrightarrow> closes (add_identifier m tag)"
  using closes_u8 [of m] closes_chain [OF adds_uint(1) closes_base128, of m m]
  by (simp add: closes_def add_identifier_def Let_def)

lemma CBB_add_asn1_eq:
  fixes tag :: u32
  assumes m: "malloc_spec m" and s: "cbb_ok s"
  defines "hdr \<equiv> \<lambda>s. chain (CBB_flush m s) (\<lambda>_ s. add_identifier m tag s)"
  shows "CBB_add_asn1 m s tag =
    (case chain (hdr s) (\<lambda>_ s. CBB_add_u8 m s 0) of
       (None, s') \<Rightarrow> (None, s')
     | (Some _, base, c) \<Rightarrow>
         (Some (), base, set_child (Some (CBB (bb_len (the base) - 1) 1 True False None)) c))"
proof -
  have split: "CBB_add_asn1 m s tag =
    chain (hdr s) (\<lambda>_ s.
      case fst s of
        None \<Rightarrow> (None, s)
      | Some b \<Rightarrow> chain (CBB_add_u8 m s 0) (\<lambda>_ (base, cbb).
          (Some (), base, set_child (Some (CBB (bb_len b) 1 True False None)) cbb)))"
    by (cases "CBB_flush m s"; cases "fst (CBB_flush m s)")
      (simp_all add: CBB_add_asn1_def add_identifier_def Let_def hdr_def)
  have A: "adds m hdr ([] @ asn1_identifier tag) (True \<and> True)"
    unfolding hdr_def using m by (intro adds_chain adds_flush adds_identifier)
  have C: "closes hdr"
    unfolding hdr_def by (rule closes_chain [OF adds_flush [OF m] closes_identifier [OF m]])
  have len: "bb_len b2 = bb_len b1 + 1"
    if 1: "hdr s = (Some (), Some b1, c1)" and 2: "CBB_add_u8 m (Some b1, c1) 0 = (Some (), Some b2, c2)"
    for b1 c1 b2 c2
  proof -
    note H = frameD(1) [OF addsD(1) [OF A s 1]]
    note U = addsD [OF adds_uint(1) [OF m] H 2]
    have "cbb_total (Some b, c) = bb_len b" if "child c = None" "cbb_ok (Some b, c)" for b c
      using that by (cases c) (simp add: cbb_total_def length_written)
    from this [of c1 b1] this [of c2 b2] show ?thesis
      using frame_total [OF U(1,2)] frameD(1) [OF U(1)] H closesD [OF C s 1] closesD [OF closes_u8 [OF m] H 2]
      by simp
  qed
  show ?thesis
  proof (cases "hdr s")
    case hs: (fields r base c)
    show ?thesis
    proof (cases r)
      case (Some u)
      then have 1: "hdr s = (Some (), base, c)" using hs by simp
      have ok1: "cbb_ok (base, c)" using frameD(1) [OF addsD(1) [OF A s 1]] .
      then obtain b where b: "base = Some b" by (cases base) auto
      show ?thesis
      proof (cases "CBB_add_u8 m (base, c) 0")
        case u: (fields r' base' c')
        show ?thesis
        proof (cases r')
          case (Some u')
          then have 2: "CBB_add_u8 m (base, c) 0 = (Some (), base', c')" using u by simp
          obtain b' where b': "base' = Some b'"
            using frameD(1) [OF addsD(1) [OF adds_uint(1) [OF m] ok1 2]] by (cases base') auto
          have "bb_len b' - 1 = bb_len b" using len [of b c b' c'] 1 2 b b' by simp
          with 1 2 show ?thesis by (simp only: split b b') simp
        qed (simp add: split 1 b u [unfolded b])
      qed
    qed (simp add: split hs)
  qed
qed

lemma opens_asn1:
  assumes m: "malloc_spec m"
  shows "opens m (\<lambda>s. CBB_add_asn1 m s tag) (asn1_identifier tag) 1 True"
proof (rule opens_child [where f = "\<lambda>s. chain (chain (CBB_flush m s) (\<lambda>_ s. add_identifier m tag s))
    (\<lambda>_ s. CBB_add_u8 m s 0)" and zeros = "[0]"])
  have A: "adds m (\<lambda>s. chain (CBB_flush m s) (\<lambda>_ s. add_identifier m tag s))
    ([] @ asn1_identifier tag) (True \<and> True)"
    using m by (intro adds_chain adds_flush adds_identifier)
  from adds_chain [OF A adds_uint(1) [OF m, of 0]]
  show "adds m (\<lambda>s. chain (chain (CBB_flush m s) (\<lambda>_ s. add_identifier m tag s)) (\<lambda>_ s. CBB_add_u8 m s 0))
    (asn1_identifier tag @ [0]) True" by simp
  show "closes (\<lambda>s. chain (chain (CBB_flush m s) (\<lambda>_ s. add_identifier m tag s)) (\<lambda>_ s. CBB_add_u8 m s 0))"
    by (rule closes_chain [OF A closes_u8 [OF m]])
qed (use m CBB_add_asn1_eq in simp_all)

section \<open>Containers and ASN.1 values\<close>

lemma adds_prefixed:
  assumes "malloc_spec m" and "0 < n" and "n < 2 ^ 63" and "adds m f d ok"
  shows "adds m (\<lambda>s. chain (cbb_add_length_prefixed m s n) (\<lambda>_. on_child f))
    (enc_prefixed n d) (length d < 256 ^ n \<and> ok)"
  using adds_child [OF opens_length_prefixed [OF assms(1-3)] assms(4)]
  by (simp add: prefix_bytes_def prefix_fits_def enc_prefixed_def)

lemma adds_asn1:
  assumes "malloc_spec m" and "adds m f d ok"
  shows "adds m (\<lambda>s. chain (CBB_add_asn1 m s tag) (\<lambda>_. on_child f))
    (asn1_tlv (d, tag)) (length d \<le> 0xfffffffe \<and> ok)"
  using adds_child [OF opens_asn1 [OF assms(1)] assms(2), of tag]
  by (simp add: prefix_bytes_def prefix_fits_def asn1_tlv_def asn1_header_def)

lemma chain_assoc: "chain (chain r f) g = chain r (\<lambda>v s. chain (f v s) g)"
  by (cases r; cases "fst r") (auto simp: chain_def)

lemma adds_then_flush:
  assumes "malloc_spec m" and "adds m f d ok"
  shows "adds m (\<lambda>s. chain (f s) (\<lambda>_ s. CBB_flush m s)) d ok"
  using adds_chain [OF assms(2) adds_flush [OF assms(1)]] by simp

lemma adds_octet_string:
  assumes "malloc_spec m" and "length data < 2 ^ 63"
  shows "adds m (\<lambda>s. CBB_add_asn1_octet_string m s data) (asn1_tlv (data, CBS_ASN1_OCTETSTRING))
    (length data \<le> 0xfffffffe)"
  using adds_then_flush [OF assms(1) adds_asn1 [OF assms(1) adds_bytes [OF assms]]]
  by (simp add: CBB_add_asn1_octet_string_def chain_assoc)

lemma adds_bool:
  assumes "malloc_spec m"
  shows "adds m (\<lambda>s. CBB_add_asn1_bool m s v) (der_bool v) True"
  using adds_then_flush [OF assms(1) adds_asn1 [OF assms(1) adds_uint(1) [OF assms(1)]]]
  by (simp add: CBB_add_asn1_bool_def chain_assoc der_bool_def)

text \<open>The bytes that the loop of \<^verbatim>\<open>CBB_add_asn1_uint64\<close> adds are the minimal two's complement form.\<close>

primrec add_u8s :: "malloc \<Rightarrow> bytes \<Rightarrow> cbb_state \<Rightarrow> cbb_result" where
  "add_u8s m [] s = (Some (), s)"
| "add_u8s m (b # bs) s = chain (CBB_add_u8 m s b) (\<lambda>_ s. add_u8s m bs s)"

primrec uint64_bytes :: "nat \<Rightarrow> bool \<Rightarrow> nat \<Rightarrow> bytes" where
  "uint64_bytes v started 0 = []"
| "uint64_bytes v started (Suc k) =
     (let byte = of_nat (v div 256 ^ k) in
      if \<not> started \<and> byte = 0 then uint64_bytes v started k
      else (if \<not> started \<and> byte AND 0x80 \<noteq> 0 then [0] else []) @ byte # uint64_bytes v True k)"

lemma adds_u8s: "malloc_spec m \<Longrightarrow> adds m (add_u8s m bs) bs True"
proof (induction bs)
  case Nil
  show ?case using adds_id by (simp add: fun_eq_iff)
next
  case (Cons b bs)
  then have "adds m (\<lambda>s. chain (CBB_add_u8 m s b) (\<lambda>_ s. add_u8s m bs s)) ([b] @ bs) (True \<and> True)"
    by (intro adds_chain adds_uint)
  then show ?case by (simp add: fun_eq_iff [symmetric])
qed

lemma on_child_chain:
  "chain (on_child f s) (\<lambda>_ s. on_child g s) = on_child (\<lambda>s. chain (f s) (\<lambda>_ s. g s)) s"
  by (cases "child (snd s)"; simp add: on_child_def)
    (cases "f (fst s, the (child (snd s)))"; cases "fst (f (fst s, the (child (snd s))))";
      auto split: prod.splits)

lemma on_child_keeps: "on_child f s = (Some u, s') \<Longrightarrow> child (snd s') \<noteq> None"
  by (auto simp: on_child_def split: option.splits prod.splits)

lemma on_child_id: "child (snd s) \<noteq> None \<Longrightarrow> on_child (\<lambda>s. (Some (), s)) s = (Some (), s)"
  by (cases s; cases "snd s") (auto simp: on_child_def)

lemma add_u8s_fun:
  "add_u8s m [] = (\<lambda>s. (Some (), s))"
  "add_u8s m (b # bs) = (\<lambda>s. chain (CBB_add_u8 m s b) (\<lambda>_ s. add_u8s m bs s))"
  by (simp_all add: fun_eq_iff)

lemma chain_unit: "chain r (\<lambda>_ s. (Some (), s)) = r"
  by (cases r; cases "fst r") auto

lemma add_u8s_append:
  "add_u8s m (xs @ ys) s = chain (add_u8s m xs s) (\<lambda>_ s. add_u8s m ys s)"
  by (induction xs arbitrary: s) (simp_all add: chain_assoc)

lemma value_byte: "(ucast (drop_bit (8 * k) (value :: u64) AND 0xff) :: u8) = of_nat (unat value div 256 ^ k)"
proof (rule sym, rule byte_of_nat_eqI)
  have "drop_bit (8 * k) value AND 0xff = drop_bit (8 * k) value AND mask 8" by (simp add: mask_eq_exp_minus_1)
  then have "unat (ucast (drop_bit (8 * k) value AND 0xff) :: u8) = unat (drop_bit (8 * k) value AND mask 8) mod 256"
    by (simp only: unsigned_ucast_eq) (simp add: take_bit_eq_mod)
  then show "unat value div 256 ^ k mod 256 = unat (ucast (drop_bit (8 * k) value AND 0xff) :: u8)"
    by (simp only: unat_and_mask unat_drop_bit_div) (simp add: power_mult)
qed

lemma add_asn1_uint64_bytes_eq:
  assumes "child (snd s) \<noteq> None"
  shows "add_asn1_uint64_bytes m value k started s =
    chain (on_child (add_u8s m (uint64_bytes (unat value) started k)) s)
      (\<lambda>_ s. (Some (started \<or> uint64_bytes (unat value) started k \<noteq> []), s))"
  using assms
proof (induction k arbitrary: started s)
  case 0
  then show ?case by (simp add: add_u8s_fun on_child_id)
next
  case (Suc k)
  define byte :: u8 where "byte = of_nat (unat value div 256 ^ k)"
  define rest where "rest = uint64_bytes (unat value) True k"
  show ?case
  proof (cases "\<not> started \<and> byte = 0")
    case True
    then show ?thesis
      using Suc by (simp add: value_byte Let_def byte_def)
  next
    case False
    define pad where "pad = (if \<not> started \<and> byte AND 0x80 \<noteq> 0 then [0::u8] else [])"
    have pad: "(if \<not> started \<and> byte AND 0x80 \<noteq> 0 then on_child (\<lambda>c. CBB_add_u8 m c 0) s else (Some (), s))
      = on_child (add_u8s m pad) s"
      using on_child_id [OF Suc.prems] by (simp add: pad_def add_u8s_fun chain_unit)
    have one: "on_child (\<lambda>c. CBB_add_u8 m c byte) = on_child (add_u8s m [byte])"
      by (simp add: add_u8s_fun chain_unit)
    have bytes: "uint64_bytes (unat value) started (Suc k) = pad @ [byte] @ rest"
      using False by (auto simp: Let_def byte_def [symmetric] pad_def rest_def)
    have step: "add_asn1_uint64_bytes m value (Suc k) started s =
      chain (on_child (add_u8s m pad) s) (\<lambda>_ s. chain (on_child (add_u8s m [byte]) s)
        (\<lambda>_ s. add_asn1_uint64_bytes m value k True s))"
      using False by (simp only: add_asn1_uint64_bytes.simps value_byte Let_def
          byte_def [symmetric] pad one if_False)
    also have "\<dots> = chain (on_child (add_u8s m pad) s) (\<lambda>_ s. chain (on_child (add_u8s m [byte]) s)
        (\<lambda>_ s. chain (on_child (add_u8s m rest) s) (\<lambda>_ s. (Some True, s))))"
      using Suc.IH [of _ True, folded rest_def]
      by (auto simp: chain_def split: prod.splits option.splits dest: on_child_keeps)
    also have "\<dots> = chain (on_child (add_u8s m (pad @ [byte] @ rest)) s) (\<lambda>_ s. (Some True, s))"
      by (simp only: add_u8s_append [abs_def] on_child_chain [symmetric] chain_assoc)
    finally show ?thesis by (simp only: bytes) simp
  qed
qed

lemma be_bytes_front: "be_bytes (Suc k) v = of_nat (v div 256 ^ k) # be_bytes k v"
  by (induction k arbitrary: v) (simp_all add: div_mult2_eq)

lemma be_nat_0_Cons [simp]: "be_nat (0 # bs) = be_nat bs"
  by simp

lemma uint64_bytes_eq:
  "uint64_bytes v True k = be_bytes k v"
  "uint64_bytes v False k =
     (let s = dropWhile (\<lambda>b. b = 0) (be_bytes k v)
      in if s \<noteq> [] \<and> 128 \<le> unat (hd s) then 0 # s else s)"
proof -
  show 1: "uint64_bytes v True k = be_bytes k v" for k
    by (induction k) (simp_all add: be_bytes_front Let_def del: be_bytes.simps(2))
  show "uint64_bytes v False k =
     (let s = dropWhile (\<lambda>b. b = 0) (be_bytes k v)
      in if s \<noteq> [] \<and> 128 \<le> unat (hd s) then 0 # s else s)"
    by (induction k) (auto simp: be_bytes_front Let_def 1 byte_high_bit not_less simp del: be_bytes.simps(2))
qed

lemma be_nat_dropWhile: "be_nat (dropWhile (\<lambda>b. b = 0) bs) = be_nat bs"
  by (induction bs) simp_all

lemma uint64_der:
  assumes "v < 2 ^ 64"
  shows "(if uint64_bytes v False 8 = [] then [0] else uint64_bytes v False 8) = der_uint v"
proof -
  let ?bs = "if uint64_bytes v False 8 = [] then [0] else uint64_bytes v False 8"
  let ?s = "dropWhile (\<lambda>b. b = 0) (be_bytes 8 v)"
  have "be_nat ?s = v" using assms by (simp add: be_nat_dropWhile be_nat_be_bytes)
  then have "be_nat ?bs = v" by (cases ?s) (auto simp: uint64_bytes_eq Let_def)
  moreover have "hd ?s \<noteq> 0" if "?s \<noteq> []" using hd_dropWhile [OF that] .
  then have "minimal_uint ?bs"
    by (cases ?s) (auto simp: uint64_bytes_eq Let_def minimal_uint_def)
  ultimately show ?thesis using minimal_uint_der_uint [of ?bs] by simp
qed

lemma adds_uint64:
  assumes "malloc_spec m"
  shows "adds m (\<lambda>s. CBB_add_asn1_uint64 m s v) (asn1_tlv (der_uint (unat v), CBS_ASN1_INTEGER)) True"
proof -
  let ?bs = "uint64_bytes (unat v) False 8" and ?d = "der_uint (unat v)"
  have "unat v < 2 ^ 64" using unsigned_less [of v] by simp
  then have d: "(if ?bs = [] then [0] else ?bs) = ?d" by (rule uint64_der)
  have "length ?d \<le> 9"
    using length_der_uint [of "unat v" 8] \<open>unat v < 2 ^ 64\<close> by simp
  then have "adds m (\<lambda>s. chain (chain (CBB_add_asn1 m s CBS_ASN1_INTEGER) (\<lambda>_. on_child (add_u8s m ?d)))
      (\<lambda>_ s. CBB_flush m s)) (asn1_tlv (?d, CBS_ASN1_INTEGER)) True"
    using adds_then_flush [OF assms adds_asn1 [OF assms adds_u8s [OF assms, of ?d]], of CBS_ASN1_INTEGER]
    by simp
  moreover have "CBB_add_asn1_uint64 m s v =
    chain (chain (CBB_add_asn1 m s CBS_ASN1_INTEGER) (\<lambda>_. on_child (add_u8s m ?d))) (\<lambda>_ s. CBB_flush m s)" for s
  proof -
    have body: "chain (add_asn1_uint64_bytes m v 8 False s) (\<lambda>started s.
      chain (if \<not> started then on_child (\<lambda>c. CBB_add_u8 m c 0) s else (Some (), s)) k) =
      chain (on_child (add_u8s m ?d) s) k" if "child (snd s) \<noteq> None" for s and k :: "unit \<Rightarrow> cbb_state \<Rightarrow> cbb_result"
    proof (cases "?bs = []")
      case True
      with d have "?d = [0]" by simp
      with True show ?thesis
        using that by (simp add: add_asn1_uint64_bytes_eq add_u8s_fun on_child_id chain_unit)
    next
      case False
      then show ?thesis
        using that d by (simp add: add_asn1_uint64_bytes_eq chain_assoc)
    qed
    have "CBB_add_asn1 m s t = (Some u, s') \<Longrightarrow> child (snd s') \<noteq> None" for t u s'
      by (auto simp: CBB_add_asn1_def chain_eq_Some Let_def split: option.splits)
    then show ?thesis
      using body [of _ "\<lambda>_ s. CBB_flush m s"]
      by (cases "CBB_add_asn1 m s CBS_ASN1_INTEGER"; cases "fst (CBB_add_asn1 m s CBS_ASN1_INTEGER)")
        (auto simp: CBB_add_asn1_uint64_def chain_assoc)
  qed
  ultimately show ?thesis by simp
qed

section \<open>From \<^verbatim>\<open>CBB_init\<close> to \<^verbatim>\<open>CBB_finish\<close>\<close>

lemma CBB_init_Some:
  assumes "malloc_spec m" and "cap < 2 ^ 63" and "CBB_init m cap = (Some (), s)"
  shows "cbb_ok s" and "cbb_contents s = []" and "cbb_resizes s" and "child (snd s) = None"
    and "is_top_level (snd s)" and "body_start (snd s) = 0"
    and "malloc_total m \<Longrightarrow> cap \<le> 2 ^ 62 \<Longrightarrow> n \<le> 2 ^ 61 \<Longrightarrow> cbb_room m s n"
proof -
  obtain buf where buf: "length buf = cap" "cap + 8 < 2 ^ 63" and init: "cbb_init m buf cap = (Some (), s)"
  proof (cases "OPENSSL_malloc m cap")
    case None
    with assms(3) have "cap = 0" "cbb_init m [] cap = (Some (), s)"
      by (auto simp: CBB_init_def split: if_splits)
    then show thesis using that [of "[]"] by simp
  next
    case (Some q)
    have "cap < 2 ^ 64 - 8" using assms(2) by simp
    with OPENSSL_malloc_Some [OF assms(1) Some] assms(3) Some that [of "blk_data q"]
    show thesis by (simp add: CBB_init_def)
  qed
  have s: "s = (Some \<lparr>bb_buf = buf, bb_len = 0, bb_cap = cap, bb_can_resize = True, bb_error = False\<rparr>,
      CBB 0 0 False True None)"
    using init by (auto simp: cbb_init_def split: option.splits)
  show "cbb_ok s" "cbb_contents s = []" "cbb_resizes s" "child (snd s) = None" "is_top_level (snd s)"
    "body_start (snd s) = 0"
    using buf by (simp_all add: s buf_inv_def written_def)
  show "cbb_room m s n" if "malloc_total m" "cap \<le> 2 ^ 62" "n \<le> 2 ^ 61"
    using that by (simp add: s room_def)
qed

lemma CBB_finish_Some:
  assumes "malloc_spec m" and "cbb_ok s" and "body_start (snd s) = 0"
    and "CBB_finish m True True s = (Some (Some buf, Some len), s')"
  shows "take len buf = cbb_contents s" and "pending_fit s"
proof -
  obtain s1 where fl: "CBB_flush m s = (Some (), s1)"
    and k: "(case fst s1 of None \<Rightarrow> (None, s1) | Some b \<Rightarrow>
      (Some (Some (bb_buf b), Some (bb_len b)), CBB_cleanup s1)) = (Some (Some buf, Some len), s')"
  proof -
    have "chain (CBB_flush m s) (\<lambda>_ s. case fst s of None \<Rightarrow> (None, s) | Some b \<Rightarrow>
      (Some (Some (bb_buf b), Some (bb_len b)), CBB_cleanup s)) = (Some (Some buf, Some len), s')"
      using assms(4)
      by (cases "CBB_flush m s"; cases "fst (CBB_flush m s)"; cases "fst (snd (CBB_flush m s))")
        (auto simp: CBB_finish_def split: if_splits)
    then show thesis using that by (auto simp: chain_eq_Some)
  qed
  note F = CBB_flush_Some [OF assms(1,2) fl]
  obtain b c where s1: "s1 = (Some b, c)" "bb_buf b = buf" "bb_len b = len"
    using k by (cases s1; cases "fst s1") auto
  have "body_start c = 0" using same_place [OF frameD(3) [OF F(1)]] assms(3) s1 by simp
  with F(2,4) s1 show "take len buf = cbb_contents s"
    by (cases c) (auto simp: written_def)
  show "pending_fit s" using F(3) .
qed

lemma CBB_finish_total:
  assumes "malloc_spec m" and "cbb_ok s" and "is_top_level (snd s)" and "pending_fit s"
    and "cbb_room m s k" and "cbb_total s \<le> k"
  shows "\<exists>buf len s'. CBB_finish m True True s = (Some (Some buf, Some len), s')"
proof -
  have "cbb_total s + length [] \<le> k" using assms(6) by simp
  from adds_total [OF adds_flush [OF assms(1)] assms(2,4) TrueI assms(5) this]
  obtain s1 where fl: "CBB_flush m s = (Some (), s1)" by blast
  obtain b c where "s1 = (Some b, c)"
    using frameD(1) [OF CBB_flush_Some(1) [OF assms(1,2) fl]] by (cases s1 rule: cbb_ok.cases) auto
  with fl assms(3) show ?thesis by (simp add: CBB_finish_def)
qed

text \<open>Building a whole message: initialise, write, finish.\<close>

definition cbb_build :: "malloc \<Rightarrow> nat \<Rightarrow> (cbb_state \<Rightarrow> cbb_result) \<Rightarrow> bytes option" where
  "cbb_build m cap f =
     fst (chain (chain (CBB_init m cap) (\<lambda>_. f)) (\<lambda>_ s.
       case CBB_finish m True True s of
         (Some (Some buf, Some len), s) \<Rightarrow> (Some (take len buf), s)
       | (_, s) \<Rightarrow> (None, s)))"

lemma cbb_build_Some:
  assumes "malloc_spec m" and "cap < 2 ^ 63" and f: "adds m f d ok" and "cbb_build m cap f = Some out"
  shows "out = d" and ok
proof -
  obtain s where i: "CBB_init m cap = (Some (), s)" and "fst (CBB_init m cap) \<noteq> None"
    using assms(4) by (cases "CBB_init m cap"; cases "fst (CBB_init m cap)") (auto simp: cbb_build_def)
  then obtain s1 where f1: "f s = (Some (), s1)"
    using assms(4) by (cases "f s"; cases "fst (f s)") (auto simp: cbb_build_def)
  obtain buf len s2 where fin: "CBB_finish m True True s1 = (Some (Some buf, Some len), s2)"
    and out: "out = take len buf"
    using assms(4) i f1 by (auto simp: cbb_build_def split: prod.splits option.splits)
  note I = CBB_init_Some [OF assms(1,2) i]
  note F = addsD [OF f I(1) f1]
  have "body_start (snd s1) = 0" using same_place [OF frameD(3) [OF F(1)]] I(6) by simp
  from CBB_finish_Some [OF assms(1) frameD(1) [OF F(1)] this fin]
  show "out = d" and ok using F(2,4) I(2) out by simp_all
qed

lemma CBB_init_total:
  assumes "malloc_spec m" and "malloc_total m" and "cap \<le> 2 ^ 62"
  shows "\<exists>s. CBB_init m cap = (Some (), s)"
proof -
  have "cap + 8 < 2 ^ 63" using assms(3) by (rule le_less_trans [OF add_right_mono]) simp
  from OPENSSL_malloc_total [OF assms(2) this] OPENSSL_malloc_total [OF assms(2), of 32]
  show ?thesis by (auto simp: CBB_init_def cbb_init_def)
qed

lemma cbb_build_total:
  assumes "malloc_spec m" and "malloc_total m" and "cap \<le> 2 ^ 62" and f: "adds m f d ok" and ok
    and "length d \<le> 2 ^ 61"
  shows "cbb_build m cap f = Some d"
proof -
  have cap: "cap < 2 ^ 63" using assms(3) by (rule le_less_trans) simp
  obtain s where i: "CBB_init m cap = (Some (), s)" using CBB_init_total [OF assms(1-3)] by blast
  note I = CBB_init_Some [OF assms(1) cap i]
  have room: "cbb_room m s (length d)" using I(7) assms(2,3,6) by blast
  have tot: "cbb_total s = 0" using I(2,6) by (simp add: cbb_total_def)
  from adds_total [OF f I(1) no_child_fit [OF I(1,4)] \<open>ok\<close> room] tot
  obtain s1 where f1: "f s = (Some (), s1)" "pending_fit s1" by auto
  note F = addsD [OF f I(1) f1(1)]
  have tot1: "cbb_total s1 = length d" using frame_total [OF F(1,2)] tot by simp
  then have room1: "cbb_room m s1 (length d)" using frameD(5) [OF F(1) _ room] by simp
  have "is_top_level (snd s1)" using same_place [OF frameD(3) [OF F(1)]] I(5) by simp
  from CBB_finish_total [OF assms(1) frameD(1) [OF F(1)] this f1(2) room1] tot1
  obtain buf len s2 where fin: "CBB_finish m True True s1 = (Some (Some buf, Some len), s2)" by auto
  then have "cbb_build m cap f = Some (take len buf)" by (simp add: cbb_build_def i f1)
  with cbb_build_Some [OF assms(1) cap f this] show ?thesis by simp
qed

end
