(* ===== verification/Asn1.thy ===== *)
theory Asn1
  imports CbbWriter
begin

text \<open>
  Writers and readers together.  The locale \<open>writer\<close> states what a client of the builder needs of an
  operation that writes values of one type; \<open>wire_format\<close> joins it to the \<open>canonical_codec\<close> of the
  reader, and says that what is built is read back.  The interpretations are the \<^verbatim>\<open>CBB_add_\<close>
  functions with the \<^verbatim>\<open>CBS_get_\<close> functions.  \<open>cbb_doc\<close> describes messages with nested children, and
  \<open>emit\<close> the calls that build them.
\<close>

section \<open>Writers\<close>

text \<open>\<open>sane\<close> are the values a C caller can pass, \<open>ok\<close> those that fit the format.\<close>

locale writer =
  fixes wr :: "malloc \<Rightarrow> 'a \<Rightarrow> cbb_state \<Rightarrow> cbb_result"
    and enc :: "'a \<Rightarrow> bytes"
    and sane :: "'a \<Rightarrow> bool"
    and ok :: "'a \<Rightarrow> bool"
  assumes wr: "malloc_spec m \<Longrightarrow> sane v \<Longrightarrow> adds m (wr m v) (enc v) (ok v)"
begin

lemma build_sound:
  assumes "malloc_spec m" and "cap < 2 ^ 63" and "sane v" and "cbb_build m cap (wr m v) = Some out"
  shows "out = enc v" and "ok v"
  using cbb_build_Some [OF assms(1,2) wr [OF assms(1,3)] assms(4)] by simp_all

lemma build_total:
  assumes "malloc_spec m" and "malloc_total m" and "cap \<le> 2 ^ 62" and "sane v" and "ok v"
    and "length (enc v) \<le> 2 ^ 61"
  shows "cbb_build m cap (wr m v) = Some (enc v)"
  using cbb_build_total [OF assms(1-3) wr [OF assms(1,4)] assms(5,6)] .

end

text \<open>Writing a list of values, one after the other.\<close>

primrec wr_list :: "(malloc \<Rightarrow> 'a \<Rightarrow> cbb_state \<Rightarrow> cbb_result) \<Rightarrow> malloc \<Rightarrow> 'a list \<Rightarrow> cbb_state \<Rightarrow> cbb_result" where
  "wr_list wr m [] s = (Some (), s)"
| "wr_list wr m (v # vs) s = chain (wr m v s) (\<lambda>_ s. wr_list wr m vs s)"

context writer
begin

lemma adds_list:
  assumes m: "malloc_spec m"
  shows "\<forall>v\<in>set vs. sane v \<Longrightarrow>
    adds m (wr_list wr m vs) (concat (map enc vs)) (\<forall>v\<in>set vs. ok v)"
proof (induction vs)
  case Nil
  have "wr_list wr m [] = (\<lambda>s. (Some (), s))" by (simp add: fun_eq_iff)
  then show ?case using adds_id by simp
next
  case (Cons v vs)
  then have "adds m (\<lambda>s. chain (wr m v s) (\<lambda>_ s. wr_list wr m vs s))
    (enc v @ concat (map enc vs)) (ok v \<and> (\<forall>v\<in>set vs. ok v))"
    by (intro adds_chain wr m) simp_all
  moreover have "wr_list wr m (v # vs) = (\<lambda>s. chain (wr m v s) (\<lambda>_ s. wr_list wr m vs s))"
    by (simp add: fun_eq_iff)
  ultimately show ?case by simp
qed

end

locale wire_format = writer wr enc sane ok + canonical_codec enc dec valid
  for wr :: "malloc \<Rightarrow> 'a \<Rightarrow> cbb_state \<Rightarrow> cbb_result" and enc sane ok dec valid +
  assumes ok_valid: "sane v \<Longrightarrow> ok v \<Longrightarrow> valid v"
begin

text \<open>What has been built is read back, whatever follows it, and nothing else is read as that value.\<close>

lemma build_read:
  assumes "malloc_spec m" and "cap < 2 ^ 63" and "sane v" and "cbb_build m cap (wr m v) = Some out"
  shows "dec (out @ rest) = (Some v, rest)"
  using build_sound [OF assms] ok_valid [OF assms(3)] dec_enc by simp

lemma read_build:
  assumes "malloc_spec m" and "malloc_total m" and "cap \<le> 2 ^ 62" and "sane v" and "ok v"
    and "dec bs = (Some v, rest)" and "length bs \<le> 2 ^ 61"
  shows "\<exists>out. cbb_build m cap (wr m v) = Some out \<and> bs = out @ rest"
proof -
  have bs: "bs = enc v @ rest" using assms(6) by (simp add: dec_iff)
  with assms(7) have "length (enc v) \<le> 2 ^ 61" by simp
  from build_total [OF assms(1-5) this] bs show ?thesis by blast
qed

lemma build_list_read:
  assumes "malloc_spec m" and "cap < 2 ^ 63" and "\<forall>v\<in>set vs. sane v"
    and "cbb_build m cap (wr_list wr m vs) = Some out"
  shows "dec_list dec (length vs) (out @ rest) = (Some vs, rest)"
proof -
  note B = cbb_build_Some [OF assms(1,2) adds_list [OF assms(1,3)] assms(4)]
  then have "\<forall>v\<in>set vs. valid v" using assms(3) ok_valid by blast
  from dec_list_enc [OF this] B(1) show ?thesis by simp
qed

end

section \<open>The formats\<close>

interpretation wu8: wire_format "\<lambda>m v s. CBB_add_u8 m s v" "enc_uint 1" "\<lambda>_. True" "\<lambda>_. True"
  CBS_get_u8 "\<lambda>_. True"
  by unfold_locales (use adds_uint(1) in \<open>auto simp: enc_uint_def\<close>)

interpretation wu16: wire_format "\<lambda>m v s. CBB_add_u16 m s v" "enc_uint 2" "\<lambda>_. True" "\<lambda>_. True"
  CBS_get_u16 "\<lambda>_. True"
  by unfold_locales (use adds_uint(2) in \<open>auto simp: enc_uint_def\<close>)

interpretation wu24: wire_format "\<lambda>m v s. CBB_add_u24 m s v" "enc_uint 3" "\<lambda>_. True" "fits 3"
  CBS_get_u24 "fits 3"
  by unfold_locales (use adds_uint(3) in \<open>auto simp: enc_uint_def fits_def\<close>)

interpretation wu32: wire_format "\<lambda>m v s. CBB_add_u32 m s v" "enc_uint 4" "\<lambda>_. True" "\<lambda>_. True"
  CBS_get_u32 "\<lambda>_. True"
  by unfold_locales (use adds_uint(4) in \<open>auto simp: enc_uint_def\<close>)

interpretation wb128: wire_format "\<lambda>m v s. add_base128_integer m s v" "\<lambda>v. base128 (unat v)" "\<lambda>_. True" "\<lambda>_. True"
  parse_base128_integer "\<lambda>_. True"
  by unfold_locales (use adds_base128_integer in auto)

interpretation wuint64: wire_format "\<lambda>m v s. CBB_add_asn1_uint64 m s v"
  "\<lambda>v. asn1_tlv (der_uint (unat v), CBS_ASN1_INTEGER)" "\<lambda>_. True" "\<lambda>_. True" CBS_get_asn1_uint64 "\<lambda>_. True"
  by unfold_locales (use adds_uint64 in auto)

interpretation wbool: wire_format "\<lambda>m v s. CBB_add_asn1_bool m s v" der_bool "\<lambda>v. v \<in> {0, 1}" "\<lambda>_. True"
  CBS_get_asn1_bool "\<lambda>v. v \<in> {0, 1}"
  by unfold_locales (use adds_bool in auto)

interpretation woctets: wire_format "\<lambda>m v s. CBB_add_asn1_octet_string m s v"
  "\<lambda>d. asn1_tlv (d, CBS_ASN1_OCTETSTRING)" "\<lambda>d. length d < 2 ^ 63" "\<lambda>d. length d \<le> 0xfffffffe"
  "\<lambda>cbs. CBS_get_asn1 cbs CBS_ASN1_OCTETSTRING" "\<lambda>d. length d < 2 ^ 32"
  by unfold_locales (use adds_octet_string in \<open>auto simp: CBS_get_asn1_iff\<close>)

section \<open>Messages with nested children\<close>

text \<open>Raw bytes, length-prefixed vectors and ASN.1 elements, with the calls that write them.\<close>

datatype cbb_doc =
    Bytes bytes
  | Prefixed nat "cbb_doc list"
  | Element u32 "cbb_doc list"

fun emit :: "malloc \<Rightarrow> cbb_doc \<Rightarrow> cbb_state \<Rightarrow> cbb_result"
  and emits :: "malloc \<Rightarrow> cbb_doc list \<Rightarrow> cbb_state \<Rightarrow> cbb_result" where
  "emit m (Bytes data) s = CBB_add_bytes m s data"
| "emit m (Prefixed n ds) s = chain (cbb_add_length_prefixed m s n) (\<lambda>_. on_child (emits m ds))"
| "emit m (Element tag ds) s = chain (CBB_add_asn1 m s tag) (\<lambda>_. on_child (emits m ds))"
| "emits m [] s = (Some (), s)"
| "emits m (d # ds) s = chain (emit m d s) (\<lambda>_ s. emits m ds s)"

fun doc_bytes :: "cbb_doc \<Rightarrow> bytes" where
  "doc_bytes (Bytes data) = data"
| "doc_bytes (Prefixed n ds) = enc_prefixed n (concat (map doc_bytes ds))"
| "doc_bytes (Element tag ds) = asn1_tlv (concat (map doc_bytes ds), tag)"

text \<open>A length prefix has one to three bytes; every body fits its prefix.\<close>

fun doc_sane :: "cbb_doc \<Rightarrow> bool" where
  "doc_sane (Bytes data) \<longleftrightarrow> length data < 2 ^ 63"
| "doc_sane (Prefixed n ds) \<longleftrightarrow> 1 \<le> n \<and> n \<le> 3 \<and> list_all doc_sane ds"
| "doc_sane (Element tag ds) \<longleftrightarrow> list_all doc_sane ds"

fun doc_ok :: "cbb_doc \<Rightarrow> bool" where
  "doc_ok (Bytes data) \<longleftrightarrow> True"
| "doc_ok (Prefixed n ds) \<longleftrightarrow> length (concat (map doc_bytes ds)) < 256 ^ n \<and> list_all doc_ok ds"
| "doc_ok (Element tag ds) \<longleftrightarrow> length (concat (map doc_bytes ds)) \<le> 0xfffffffe \<and> list_all doc_ok ds"

lemma adds_emits:
  assumes m: "malloc_spec m" and ds: "\<And>d. d \<in> set ds \<Longrightarrow> adds m (emit m d) (doc_bytes d) (doc_ok d)"
  shows "adds m (emits m ds) (concat (map doc_bytes ds)) (list_all doc_ok ds)"
  using ds
proof (induction ds)
  case Nil
  have "emits m [] = (\<lambda>s. (Some (), s))" by (simp add: fun_eq_iff)
  then show ?case using adds_id by simp
next
  case (Cons d ds)
  then have "adds m (\<lambda>s. chain (emit m d s) (\<lambda>_ s. emits m ds s))
    (doc_bytes d @ concat (map doc_bytes ds)) (doc_ok d \<and> list_all doc_ok ds)"
    by (intro adds_chain) simp_all
  moreover have "emits m (d # ds) = (\<lambda>s. chain (emit m d s) (\<lambda>_ s. emits m ds s))"
    by (simp add: fun_eq_iff)
  ultimately show ?case by simp
qed

lemma adds_emit:
  "malloc_spec m \<Longrightarrow> doc_sane d \<Longrightarrow> adds m (emit m d) (doc_bytes d) (doc_ok d)"
proof (induction d rule: doc_bytes.induct)
  case (1 data)
  have "emit m (Bytes data) = (\<lambda>s. CBB_add_bytes m s data)" by (simp add: fun_eq_iff)
  then show ?case using adds_bytes [of m data] 1 by simp
next
  case (2 n ds)
  then have n: "0 < n" "n < 2 ^ 63" by (auto intro: order_le_less_trans)
  have "adds m (emits m ds) (concat (map doc_bytes ds)) (list_all doc_ok ds)"
    using 2 by (intro adds_emits) (auto simp: list_all_iff)
  moreover have "emit m (Prefixed n ds) = (\<lambda>s. chain (cbb_add_length_prefixed m s n) (\<lambda>_. on_child (emits m ds)))"
    by (simp add: fun_eq_iff)
  ultimately show ?case using adds_prefixed [OF 2(2) n] by simp
next
  case (3 tag ds)
  have "adds m (emits m ds) (concat (map doc_bytes ds)) (list_all doc_ok ds)"
    using 3 by (intro adds_emits) (auto simp: list_all_iff)
  moreover have "emit m (Element tag ds) = (\<lambda>s. chain (CBB_add_asn1 m s tag) (\<lambda>_. on_child (emits m ds)))"
    by (simp add: fun_eq_iff)
  ultimately show ?case using adds_asn1 [OF 3(2)] by simp
qed

interpretation doc: writer emit doc_bytes doc_sane doc_ok
  by unfold_locales (rule adds_emit)

end
