(* ===== verification/SetOf.thy ===== *)
theory SetOf
  imports Asn1 "HOL-Library.List_Lexorder"
begin

text \<open>
  \<^verbatim>\<open>CBB_flush_asn1_set_of\<close> (\<^verbatim>\<open>cbb.c\<close>): the elements of a SET OF are sorted by their encodings.  The
  comparison function of the source is the lexicographic order on byte strings, so the \<^verbatim>\<open>qsort\<close> call
  is sorting in that order.
\<close>

section \<open>The order\<close>

lemma compare_set_of_element_simps [simp]:
  "compare_set_of_element [] [] = 0"
  "compare_set_of_element [] (b # bs) = -1"
  "compare_set_of_element (a # as) [] = 1"
  "compare_set_of_element (a # as) (b # bs) =
     (if a = b then compare_set_of_element as bs else int (unat a) - int (unat b))"
  by (simp_all add: compare_set_of_element_def CBS_len_def CBS_data_def Let_def word_uint_eq_iff [symmetric])

lemma compare_set_of_element_le: "compare_set_of_element a b \<le> 0 \<longleftrightarrow> a \<le> b"
proof (induction a arbitrary: b)
  case Nil
  show ?case by (cases b) simp_all
next
  case (Cons x a)
  show ?case
  proof (cases b)
    case (Cons y b')
    then show ?thesis
      using Cons.IH [of b'] by (auto simp: word_less_def word_uint_eq_iff)
  qed simp
qed

lemma qsort_compare: "qsort compare_set_of_element xs = sort xs"
proof -
  have "insert_by compare_set_of_element x ys = insort x ys" for x ys
    by (induction ys) (simp_all add: compare_set_of_element_le)
  then have "insert_by compare_set_of_element = insort" by (simp add: fun_eq_iff)
  then show ?thesis by (simp add: qsort_def sort_key_def)
qed

section \<open>The elements\<close>

abbreviation tlv_ok :: "bytes \<times> u32 \<Rightarrow> bool" where
  "tlv_ok e \<equiv> length (fst e) < 2 ^ 32"

lemma asn1_tlv_nonempty [simp]: "asn1_tlv e \<noteq> []"
  using length_asn1_identifier(1) [of "snd e"] by (auto simp: asn1_tlv_def asn1_header_def)

lemma element_tlv:
  assumes "CBS_get_any_asn1_element cbs = (Some e, rest)"
  obtains t where "tlv_ok t" and "el_out e = asn1_tlv t" and "cbs = asn1_tlv t @ rest"
proof -
  obtain c where "cbs = el_out e @ rest" and "definite e c"
    using assms by (auto simp: CBS_get_any_asn1_element_iff)
  with that [of "(c, el_tag e)"] show thesis by (auto elim!: definiteE)
qed

lemma count_elements_Some:
  "count_elements cbs = Some n \<Longrightarrow>
    \<exists>es. length es = n \<and> (\<forall>e\<in>set es. tlv_ok e) \<and> cbs = concat (map asn1_tlv es)"
proof (induction cbs arbitrary: n rule: count_elements.induct)
  case (1 cbs)
  show ?case
  proof (cases "cbs = []")
    case True
    with 1(2) have "n = 0" by (subst (asm) count_elements.simps) (simp add: CBS_len_def)
    with True show ?thesis by (intro exI [of _ "[]"]) simp
  next
    case False
    then obtain e rest k where g: "CBS_get_any_asn1_element cbs = (Some e, rest)"
      and k: "count_elements rest = Some k" "n = Suc k"
      using 1(2) by (subst (asm) count_elements.simps) (auto simp: CBS_len_def split: prod.splits option.splits)
    obtain t where t: "tlv_ok t" "cbs = asn1_tlv t @ rest" using g by (rule element_tlv)
    from 1(1) [OF _ g [symmetric] refl k(1)] False obtain es where
      "length es = k" "\<forall>e\<in>set es. tlv_ok e" "rest = concat (map asn1_tlv es)"
      by (auto simp: CBS_len_def)
    with t k(2) show ?thesis by (intro exI [of _ "t # es"]) simp
  qed
qed

lemma count_elements_tlvs:
  "\<forall>e\<in>set es. tlv_ok e \<Longrightarrow> count_elements (concat (map asn1_tlv es)) = Some (length es)"
proof (induction es)
  case (Cons e es)
  then show ?case
    using CBS_get_any_asn1_element_tlv [of "fst e" "snd e" "concat (map asn1_tlv es)"]
    by (subst count_elements.simps) (simp add: CBS_len_def)
qed (simp add: count_elements.simps CBS_len_def)

lemma get_elements_tlvs:
  "\<forall>e\<in>set es. tlv_ok e \<Longrightarrow> get_elements (length es) (concat (map asn1_tlv es)) = Some (map asn1_tlv es)"
proof (induction es)
  case (Cons e es)
  then show ?case
    using CBS_get_any_asn1_element_tlv [of "fst e" "snd e" "concat (map asn1_tlv es)"] by simp
qed simp

lemma adds_elements:
  assumes "malloc_spec m"
  shows "\<forall>c\<in>set cs. length c < 2 ^ 63 \<Longrightarrow> adds m (add_elements m cs) (concat cs) True"
proof (induction cs)
  case Nil
  have "add_elements m [] = (\<lambda>s. (Some (), s))" by (simp add: fun_eq_iff)
  then show ?case using adds_id by simp
next
  case (Cons c cs)
  then have "adds m (\<lambda>s. chain (CBB_add_bytes m s c) (\<lambda>_ s. add_elements m cs s)) (c @ concat cs) (True \<and> True)"
    by (intro adds_chain adds_bytes assms) simp_all
  moreover have "add_elements m (c # cs) = (\<lambda>s. chain (CBB_add_bytes m s c) (\<lambda>_ s. add_elements m cs s))"
    by (simp add: fun_eq_iff CBS_data_def)
  ultimately show ?case by simp
qed

section \<open>\<^verbatim>\<open>CBB_flush_asn1_set_of\<close>\<close>

lemma flushed_contents:
  assumes "cbb_ok (Some b, c)" and "child c = None"
  shows "CBS_init (CBB_data b c) (CBB_len b c) = cbb_contents (Some b, c)"
  using assms
  by (cases c) (simp add: CBS_init_def CBB_data_def CBB_len_def written_def drop_take)

lemma memdup_take:
  assumes "malloc_spec m" and "sz < 2 ^ 64 - 8" and "sz \<le> length data"
    and "BUF_memdup m data sz = Some buf"
  shows "take sz buf = take sz data"
proof -
  obtain q where q: "OPENSSL_malloc m sz = Some q" and buf: "buf = mem_write (blk_data q) 0 (take sz data)"
    using assms(4) by (auto simp: BUF_memdup_def split: if_splits option.splits)
  show ?thesis using assms(3) by (simp add: buf mem_write_def)
qed

text \<open>Rewinding the builder to the start of its contents.\<close>

lemma rewound:
  assumes "cbb_ok (Some b, c)" and "child c = None"
  defines "s \<equiv> (Some (b\<lparr>bb_len := body_start c\<rparr>), c)"
  shows "cbb_ok s" and "cbb_contents s = []" and "cbb_before s = cbb_before (Some b, c)"
    and "cbb_resizes s = cbb_resizes (Some b, c)" and "cbb_room m s k = cbb_room m (Some b, c) k"
    and "pending_fit s"
  using assms by (cases c; auto simp: buf_inv_def written_def room_def min_def)+

lemma set_of_sorted:
  assumes m: "malloc_spec m" and s: "cbb_ok s" and r: "CBB_flush_asn1_set_of m s = (Some (), s')"
  shows "\<exists>es. (\<forall>e\<in>set es. tlv_ok e) \<and> cbb_contents s = concat (map asn1_tlv es) \<and>
      cbb_contents s' = concat (sort (map asn1_tlv es)) \<and> cbb_ok s' \<and> cbb_before s' = cbb_before s"
proof -
  obtain s1 where fl: "CBB_flush m s = (Some (), s1)"
    using r by (auto simp: CBB_flush_asn1_set_of_def chain_eq_Some)
  note F = CBB_flush_Some [OF m s fl]
  obtain b c where s1: "s1 = (Some b, c)" using frameD(1) [OF F(1)] by (cases s1 rule: cbb_ok.cases) auto
  have ok: "cbb_ok (Some b, c)" and c: "child c = None" using frameD(1) [OF F(1)] F(4) s1 by simp_all
  let ?cs = "cbb_contents (Some b, c)" and ?n = "CBB_len b c"
  note cs = flushed_contents [OF ok c]
  have same: "?cs = cbb_contents s" "cbb_before (Some b, c) = cbb_before s"
    using F(2) frameD(2) [OF F(1)] s1 by simp_all
  obtain n where n: "count_elements ?cs = Some n"
    using r by (auto simp: CBB_flush_asn1_set_of_def fl s1 cs Let_def split: option.splits)
  then obtain es where es: "length es = n" "\<forall>e\<in>set es. tlv_ok e" "?cs = concat (map asn1_tlv es)"
    using count_elements_Some by blast
  show ?thesis
  proof (cases "n < 2")
    case True
    then have "s' = s1" using r by (simp add: CBB_flush_asn1_set_of_def fl s1 cs n Let_def del: cbb_contents.simps)
    moreover have "sort (map asn1_tlv es) = map asn1_tlv es"
      using True es(1) by (cases es; cases "tl es") auto
    ultimately show ?thesis using es ok same s1 by (intro exI [of _ es]) simp
  next
    case False
    let ?s0 = "(Some (b\<lparr>bb_len := body_start c\<rparr>), c)"
    obtain buf x where buf: "BUF_memdup m (CBB_data b c) ?n = Some buf"
      and x: "OPENSSL_malloc m (n * 16) = Some x" and lim: "\<not> n > SIZE_MAX div 16"
      using r False
      by (auto simp: CBB_flush_asn1_set_of_def fl s1 cs n Let_def simp del: cbb_contents.simps
        split: if_splits option.splits)
    have "?n < 2 ^ 64 - 8" "?n \<le> length (CBB_data b c)"
      using ok by (auto simp: buf_inv_def CBB_len_def CBB_data_def)
    from memdup_take [OF m this buf] have init: "CBS_init buf ?n = ?cs"
      using cs by (simp add: CBS_init_def)
    have ge: "get_elements n ?cs = Some (map asn1_tlv es)" using get_elements_tlvs es by auto
    have ad: "add_elements m (sort (map asn1_tlv es)) ?s0 = (Some (), s')"
      using r False lim
      by (simp add: CBB_flush_asn1_set_of_def fl s1 cs n Let_def buf x init ge qsort_compare
          del: cbb_contents.simps)
    have "length (asn1_tlv e) < 2 ^ 63" if "e \<in> set es" for e
    proof -
      have "length (asn1_tlv e) \<le> length ?cs" using that es(3) by (simp add: length_concat member_le_sum_list)
      also have "\<dots> < 2 ^ 63" using ok c by (cases c) (auto simp: buf_inv_def written_def)
      finally show ?thesis .
    qed
    then have "\<forall>c\<in>set (sort (map asn1_tlv es)). length c < 2 ^ 63" by auto
    note A = addsD [OF adds_elements [OF m this] rewound(1) [OF ok c] ad]
    show ?thesis
      using es(2,3) A(2) frameD(1,2) [OF A(1)] same rewound(2,3) [OF ok c]
      by (intro exI [of _ es]) simp
  qed
qed

section \<open>Properties\<close>

text \<open>C32.
  \<^verbatim>\<open>CBB_flush_asn1_set_of\<close>, when it succeeds, has split the contents into DER elements and leaves the same elements sorted by their
  encodings (a prefix first), as DER requires of a SET OF, with everything written before them unchanged.
\<close>

theorem set_of_is_sorted:
  assumes "malloc_spec m" and "cbb_ok s" and "CBB_flush_asn1_set_of m s = (Some (), s')"
  shows "\<exists>es. (\<forall>e\<in>set es. tlv_ok e) \<and> cbb_contents s = concat (map asn1_tlv es) \<and>
      cbb_contents s' = concat (sort (map asn1_tlv es)) \<and> cbb_ok s' \<and> cbb_before s' = cbb_before s"
  by (rule set_of_sorted [OF assms])

definition set_of_example :: cbb_state where
  "set_of_example = (Some \<lparr>bb_buf = [5, 0, 2, 1, 9], bb_len = 5, bb_cap = 5, bb_can_resize = True, bb_error = False\<rparr>,
     CBB 0 0 False True None)"

lemma set_of_is_sorted_witness:
  "\<exists>es s'. CBB_flush_asn1_set_of zero_malloc set_of_example = (Some (), s') \<and>
     cbb_contents set_of_example = concat (map asn1_tlv es) \<and> cbb_contents s' = concat (sort (map asn1_tlv es))"
proof -
  let ?es = "[([], 5), ([9], 2)] :: (bytes \<times> u32) list"
  have b: "map asn1_tlv ?es = [[5, 0], [2, 1, 9]]"
    by (simp add: asn1_tlv_def asn1_header_def asn1_identifier_def asn1_length_def CBS_ASN1_TAG_SHIFT_def
        CBS_ASN1_TAG_NUMBER_MASK_def)
  have ok: "\<forall>e\<in>set ?es. tlv_ok e" by simp
  have "count_elements [5, 0, 2, 1, 9] = Some (length ?es)"
    "get_elements (length ?es) [5, 0, 2, 1, 9] = Some [[5, 0], [2, 1, 9]]"
    using count_elements_tlvs [OF ok] get_elements_tlvs [OF ok] unfolding b by simp_all
  then have "count_elements [5, 0, 2, 1, 9] = Some 2" "get_elements 2 [5, 0, 2, 1, 9] = Some [[5, 0], [2, 1, 9]]"
    by (simp_all only: list.size) (simp_all add: numeral_2_eq_2)
  then have "fst (CBB_flush_asn1_set_of zero_malloc set_of_example) = Some ()"
    by (simp add: set_of_example_def CBB_flush_asn1_set_of_def CBB_flush_def CBB_len_def CBB_data_def CBS_init_def
        BUF_memdup_def OPENSSL_malloc_def OPENSSL_MALLOC_PREFIX_def zero_malloc_def size_add_def mem_write_def
        SIZE_MAX_def qsort_def CBB_add_bytes_def buffer_op_def cbb_buffer_add_def cbb_buffer_reserve_def fill_def
        CBS_data_def CBS_len_def)
  then obtain s' where r: "CBB_flush_asn1_set_of zero_malloc set_of_example = (Some (), s')"
    by (cases "CBB_flush_asn1_set_of zero_malloc set_of_example") auto
  have "cbb_ok set_of_example" by (simp add: set_of_example_def buf_inv_def)
  from set_of_is_sorted [OF malloc_zero_malloc(1) this r] r show ?thesis by blast
qed

end
