(* ===== verification/Oid.thy ===== *)
theory Oid
  imports Asn1
begin

text \<open>
  Object identifiers: \<^verbatim>\<open>CBB_add_asn1_oid_from_text\<close> (\<^verbatim>\<open>cbb.c\<close>) and \<^verbatim>\<open>CBS_asn1_oid_to_text\<close> (\<^verbatim>\<open>cbs.c\<close>) convert
  between dotted decimal text and the DER contents.  Both are shown to implement the same bijection
  between valid component lists, their text and their DER form.
\<close>

section \<open>To text\<close>

text \<open>\<^verbatim>\<open>BIO_snprintf(buf, sizeof(buf), "%" PRIu64, v)\<close>; the buffer has room for all digits.\<close>

fun decimal :: "nat \<Rightarrow> bytes" where
  "decimal n = (if n < 10 then [of_nat (0x30 + n)] else decimal (n div 10) @ [of_nat (0x30 + n mod 10)])"

declare decimal.simps [simp del]

definition add_decimal :: "malloc \<Rightarrow> cbb_state \<Rightarrow> u64 \<Rightarrow> cbb_result" where
  "add_decimal m out v = CBB_add_bytes m out (decimal (unat v))"

lemma parse_base128_shorter:
  assumes "parse_base128_integer cbs = (Some v, rest)"
  shows "length rest < length cbs"
  using assms by (auto simp: b128.dec_iff base128_def)

function oid_text_components :: "malloc \<Rightarrow> cbs \<Rightarrow> cbb_state \<Rightarrow> cbb_result" where
  "oid_text_components m copy s =
     (if CBS_len copy \<noteq> 0 then
        (case parse_base128_integer copy of
           (None, _) \<Rightarrow> (None, s)
         | (Some v, copy) \<Rightarrow>
             chain (CBB_add_u8 m s ascii_dot) (\<lambda>_ s. chain (add_decimal m s v) (\<lambda>_ s.
               oid_text_components m copy s)))
      else (Some (), s))"
  by auto
termination
  by (relation "measure (\<lambda>(_, cbs, _). length cbs)") (auto dest: parse_base128_shorter sym)

declare oid_text_components.simps [simp del]

definition oid_text :: "malloc \<Rightarrow> cbs \<Rightarrow> cbb_state \<Rightarrow> cbb_result" where
  "oid_text m cbs s =
     (case parse_base128_integer cbs of
        (None, _) \<Rightarrow> (None, s)
      | (Some v, copy) \<Rightarrow>
          chain
            (if v \<ge> 80 then
               chain (CBB_add_bytes m s [0x32, ascii_dot]) (\<lambda>_ s. add_decimal m s (v - 80))
             else
               chain (add_decimal m s (v div 40)) (\<lambda>_ s. chain (CBB_add_u8 m s ascii_dot) (\<lambda>_ s.
                 add_decimal m s (v mod 40)))) (\<lambda>_ s.
          chain (oid_text_components m copy s) (\<lambda>_ s. CBB_add_u8 m s 0)))"

text \<open>The result is the C string up to and including its NUL.\<close>

definition CBS_asn1_oid_to_text :: "malloc \<Rightarrow> cbs \<Rightarrow> bytes option" where
  "CBS_asn1_oid_to_text m cbs = cbb_build m 32 (oid_text m cbs)"

section \<open>Decimal components\<close>

text \<open>A component ends with the string, or at a dot that is not the last character.\<close>

definition component_text :: "nat \<Rightarrow> bytes \<Rightarrow> bytes" where
  "component_text n rest = decimal n @ (if rest = [] then [] else ascii_dot # rest)"

definition digit :: "u8 \<Rightarrow> bool" where
  "digit u \<longleftrightarrow> 0x30 \<le> u \<and> u \<le> 0x39"

lemma digit_iff: "digit u \<longleftrightarrow> 48 \<le> unat u \<and> unat u \<le> 57"
  by (simp add: digit_def word_le_nat_alt)

lemma digit_value: "digit u \<Longrightarrow> unat (ucast (u - 0x30) :: u64) = unat u - 48"
  by (simp add: digit_iff unat_ucast_up unat_sub word_le_nat_alt)

text \<open>One round of the loop: the overflow tests are exact.\<close>

lemma digit_step:
  fixes out :: u64
  assumes "digit u"
  shows "(out > 0xffffffffffffffff div 10 \<or> out * 10 > 0xffffffffffffffff - ucast (u - 0x30))
      \<longleftrightarrow> 2 ^ 64 \<le> unat out * 10 + (unat u - 48)"
    and "unat out * 10 + (unat u - 48) < 2 ^ 64 \<Longrightarrow>
      unat (out * 10 + ucast (u - 0x30)) = unat out * 10 + (unat u - 48)"
proof -
  let ?d = "ucast (u - 0x30) :: u64"
  have d: "unat ?d = unat u - 48" "unat u - 48 \<le> 9"
  proof -
    show "unat ?d = unat u - 48" using assms by (rule digit_value)
    have "unat u \<le> 57" using assms by (simp add: digit_iff)
    then show "unat u - 48 \<le> 9" by linarith
  qed
  have "?d \<le> 0xffffffffffffffff" by (simp add: word_le_nat_alt d) (use d in linarith)
  then have sub: "unat (0xffffffffffffffff - ?d) = 0xffffffffffffffff - (unat u - 48)"
    by (simp add: unat_sub d)
  have mul: "unat (out * 10) = unat out * 10" if "unat out * 10 < 2 ^ 64"
    using that by (simp add: unat_mult_lem [THEN iffD1])
  have div: "unat (0xffffffffffffffff div 10 :: u64) = 0xffffffffffffffff div 10"
    by (simp add: unat_div)
  show "(out > 0xffffffffffffffff div 10 \<or> out * 10 > 0xffffffffffffffff - ?d)
      \<longleftrightarrow> 2 ^ 64 \<le> unat out * 10 + (unat u - 48)"
  proof (cases "out > 0xffffffffffffffff div 10")
    case True
    then have "unat out > 0xffffffffffffffff div 10" by (simp add: word_less_nat_alt div)
    then show ?thesis using True by simp
  next
    case False
    then have "unat out \<le> 0xffffffffffffffff div 10" by (simp add: word_less_nat_alt div)
    then have "unat out * 10 < 2 ^ 64" by simp
    then show ?thesis using False d(2) by (simp add: word_less_nat_alt mul sub) linarith
  qed
  assume lt: "unat out * 10 + (unat u - 48) < 2 ^ 64"
  then have "unat (out * 10) + unat ?d < 2 ^ 64" using mul d by simp
  then have "unat (out * 10 + ?d) = unat (out * 10) + unat ?d"
    by (simp add: unat_add_lem [THEN iffD1])
  with mul d lt show "unat (out * 10 + ?d) = unat out * 10 + (unat u - 48)" by simp
qed

lemma decimal_digits: "list_all digit (decimal n)" "decimal n \<noteq> []"
proof (induction n rule: decimal.induct)
  case (1 n)
  have d: "digit (of_nat (0x30 + k))" if "k < 10" for k
    unfolding digit_iff by (simp only: unat_byte_of_nat) (use that in simp)
  { case 1 then show ?case using "1.IH" d [of n] d [of "n mod 10"] by (subst decimal.simps) simp }
  { case 2 then show ?case by (subst decimal.simps) simp }
qed

definition from_digits :: "nat \<Rightarrow> bytes \<Rightarrow> nat" where
  "from_digits = foldl (\<lambda>a u. a * 10 + (unat u - 48))"

lemma from_digits_simps [simp]:
  "from_digits a [] = a" "from_digits a (u # ds) = from_digits (a * 10 + (unat u - 48)) ds"
  "from_digits a (xs @ ys) = from_digits (from_digits a xs) ys"
  by (simp_all add: from_digits_def)

lemma from_digits_ge: "a \<le> from_digits a ds"
proof (induction ds arbitrary: a)
  case (Cons u ds)
  have "a \<le> a * 10 + (unat u - 48)" by linarith
  also have "\<dots> \<le> from_digits a (u # ds)" using Cons.IH by simp
  finally show ?case .
qed simp

lemma digit_not_dot: "digit u \<Longrightarrow> u \<noteq> ascii_dot"
  by (auto simp: digit_iff ascii_dot_def)

definition after_component :: "bytes \<Rightarrow> bytes" where
  "after_component rest = (if rest = [] then [] else ascii_dot # rest)"

lemma dotted_decimal_loop_iff:
  "dotted_decimal_loop out seen cbs = (Some v, rest) \<longleftrightarrow>
    (\<exists>ds. list_all digit ds \<and> cbs = ds @ after_component rest \<and> from_digits (unat out) ds = unat v \<and>
      (ds = [] \<longrightarrow> seen) \<and> (ds \<noteq> [] \<and> seen \<longrightarrow> out \<noteq> 0) \<and>
      (\<not> seen \<and> ds \<noteq> [] \<and> unat out * 10 + (unat (hd ds) - 48) = 0 \<longrightarrow> tl ds = []))"
proof (induction cbs arbitrary: out seen)
  case Nil
  show ?case by (auto simp: after_component_def word_unat_eq_iff [symmetric])
next
  case (Cons u cbs)
  have nil: "[] @ after_component rest = u # cbs \<longleftrightarrow> u = ascii_dot \<and> rest = cbs \<and> cbs \<noteq> []"
    by (auto simp: after_component_def)
  have split: "(\<exists>ds. P ds) \<longleftrightarrow> P [] \<or> (\<exists>d ds. P (d # ds))" for P :: "bytes \<Rightarrow> bool"
    by (metis list.exhaust)
  consider "u = ascii_dot" "cbs \<noteq> []" | "digit u" | "\<not> digit u" "\<not> (u = ascii_dot \<and> cbs \<noteq> [])"
    by blast
  then show ?case
  proof cases
    case 1
    then have "\<not> digit u" using digit_not_dot by blast
    with 1 nil show ?thesis
      by (subst split) (auto simp: CBS_len_def word_unat_eq_iff [symmetric])
  next
    case 2
    let ?n = "unat out * 10 + (unat u - 48)" and ?out = "out * 10 + ucast (u - 0x30)"
    note step = digit_step [OF 2, of out]
    have ud: "u \<noteq> ascii_dot" "\<not> (u < 0x30 \<or> u > 0x39)"
      using digit_not_dot [OF 2] 2 by (auto simp: digit_def not_less)
    show ?thesis
    proof (cases "(seen \<and> out = 0) \<or> 2 ^ 64 \<le> ?n")
      case True
      have "unat v < 2 ^ 64" using unsigned_less [of v] by simp
      then have "2 ^ 64 \<le> ?n \<Longrightarrow> from_digits ?n ds \<noteq> unat v" for ds
        using from_digits_ge [of ?n ds] by auto
      with True ud step show ?thesis
        by (subst split) (auto simp: CBS_len_def after_component_def)
    next
      case False
      then have n: "?n < 2 ^ 64" "unat ?out = ?n" using step(2) by simp_all
      have "dotted_decimal_loop out seen (u # cbs) = dotted_decimal_loop ?out True cbs"
        using False ud step(1) by (auto simp: CBS_len_def)
      then have "dotted_decimal_loop out seen (u # cbs) = (Some v, rest) \<longleftrightarrow>
        (\<exists>ds. list_all digit ds \<and> cbs = ds @ after_component rest \<and> from_digits ?n ds = unat v \<and>
          (ds \<noteq> [] \<longrightarrow> ?n \<noteq> 0))"
        by (simp only: Cons.IH n word_unat_eq_iff [of ?out] unat_0) simp
      also have "\<dots> \<longleftrightarrow> (\<exists>ds. list_all digit (u # ds) \<and> u # cbs = (u # ds) @ after_component rest \<and>
          from_digits (unat out) (u # ds) = unat v \<and> (seen \<longrightarrow> out \<noteq> 0) \<and>
          (\<not> seen \<and> ?n = 0 \<longrightarrow> ds = []))"
        using False 2 by (auto simp: word_unat_eq_iff)
      finally show ?thesis
        using nil ud by (subst split) auto
    qed
  next
    case 3
    then have "dotted_decimal_loop out seen (u # cbs) = (None, cbs)"
      by (auto simp: CBS_len_def digit_def not_le)
    with 3 nil show ?thesis by (subst split) auto
  qed
qed

lemma from_digits_decimal: "from_digits 0 (decimal n) = n"
proof (induction n rule: decimal.induct)
  case (1 n)
  have d: "unat (of_nat (0x30 + k) :: u8) - 48 = k" if "k < 10" for k
    by (simp only: unat_byte_of_nat) (use that in simp)
  show ?case
    using 1 d [of n] d [of "n mod 10"] by (subst decimal.simps) (simp del: of_nat_add)
qed

lemma decimal_from_digits:
  "list_all digit ds \<Longrightarrow> ds \<noteq> [] \<Longrightarrow> (hd ds = 0x30 \<Longrightarrow> tl ds = []) \<Longrightarrow> decimal (from_digits 0 ds) = ds"
proof (induction ds rule: rev_induct)
  case (snoc u ds)
  have u: "48 \<le> unat u" "unat u \<le> 57" using snoc.prems(1) by (simp_all add: digit_iff)
  have of: "(of_nat (0x30 + (unat u - 48)) :: u8) = u" using u by simp
  show ?case
  proof (cases "ds = []")
    case True
    have "unat u - 48 < 10" using u by linarith
    with True of show ?thesis by (subst decimal.simps) (simp del: of_nat_add)
  next
    case False
    have lead: "hd ds \<noteq> 0x30" using snoc.prems(3) False by auto
    have IH: "decimal (from_digits 0 ds) = ds" using snoc.IH snoc.prems(1) False lead by simp
    have pos: "0 < from_digits 0 ds"
    proof -
      obtain x xs where ds: "ds = x # xs" using False by (cases ds) auto
      have "digit x" "x \<noteq> 0x30" using snoc.prems(1) lead ds by simp_all
      then have "0 < unat x - 48" by (auto simp: digit_iff word_unat_eq_iff)
      with from_digits_ge [of "unat x - 48" xs] show ?thesis by (simp add: ds)
    qed
    let ?n = "from_digits 0 ds * 10 + (unat u - 48)"
    have "unat u - 48 < 10" using u by linarith
    then have "\<not> ?n < 10" "?n div 10 = from_digits 0 ds" "?n mod 10 = unat u - 48"
      using pos by simp_all
    then have "decimal ?n = ds @ [of_nat (0x30 + (unat u - 48))]"
      by (subst decimal.simps) (simp only: IH if_False)
    then show ?thesis by (simp only: of from_digits_simps)
  qed
qed simp

lemma hd_decimal: "0 < n \<Longrightarrow> 48 < unat (hd (decimal n))"
proof (induction n rule: decimal.induct)
  case (1 n)
  show ?case
  proof (cases "n < 10")
    case True
    have "unat (of_nat (0x30 + n) :: u8) = 0x30 + n"
      by (simp only: unat_byte_of_nat) (use True in simp)
    with True 1 show ?thesis by (subst decimal.simps) (simp del: of_nat_add)
  next
    case False
    then have "48 < unat (hd (decimal (n div 10)))" using 1 by simp
    with False show ?thesis using decimal_digits(2) by (subst decimal.simps) simp
  qed
qed

lemma parse_dotted_decimal_iff:
  "parse_dotted_decimal cbs = (Some v, rest) \<longleftrightarrow> cbs = component_text (unat v) rest"
proof
  assume "parse_dotted_decimal cbs = (Some v, rest)"
  then obtain ds where ds: "list_all digit ds" "cbs = ds @ after_component rest"
    "from_digits 0 ds = unat v" "ds \<noteq> []" "unat (hd ds) - 48 = 0 \<Longrightarrow> tl ds = []"
    by (auto simp: parse_dotted_decimal_def dotted_decimal_loop_iff)
  have "decimal (from_digits 0 ds) = ds"
    by (rule decimal_from_digits [OF ds(1,4)]) (use ds(5) in simp)
  with ds(2,3) show "cbs = component_text (unat v) rest"
    by (simp add: component_text_def after_component_def)
next
  assume cbs: "cbs = component_text (unat v) rest"
  have lead: "unat (hd (decimal n)) - 48 = 0 \<Longrightarrow> tl (decimal n) = []" for n
    using hd_decimal [of n] by (cases "n = 0") (simp_all add: decimal.simps [of 0])
  let ?ds = "decimal (unat v)"
  have "list_all digit ?ds \<and> cbs = ?ds @ after_component rest \<and> from_digits (unat (0 :: u64)) ?ds = unat v \<and>
      (?ds = [] \<longrightarrow> False) \<and> (?ds \<noteq> [] \<and> False \<longrightarrow> (0 :: u64) \<noteq> 0) \<and>
      (\<not> False \<and> ?ds \<noteq> [] \<and> unat (0 :: u64) * 10 + (unat (hd ?ds) - 48) = 0 \<longrightarrow> tl ?ds = [])"
    using decimal_digits [of "unat v"] lead [of "unat v"]
    by (simp add: cbs from_digits_decimal component_text_def after_component_def)
  then show "parse_dotted_decimal cbs = (Some v, rest)"
    unfolding parse_dotted_decimal_def dotted_decimal_loop_iff by (rule exI)
qed

section \<open>Object identifiers, their text and their contents octets\<close>

primrec dotted :: "u64 list \<Rightarrow> bytes" where
  "dotted [] = []"
| "dotted (c # cs) = component_text (unat c) (dotted cs)"

fun oid_valid :: "u64 list \<Rightarrow> bool" where
  "oid_valid (a # b # cs) \<longleftrightarrow> a \<le> 2 \<and> (a < 2 \<longrightarrow> b \<le> 39) \<and> b \<le> 0xffffffffffffffff - 80"
| "oid_valid _ \<longleftrightarrow> False"

fun oid_der :: "u64 list \<Rightarrow> bytes" where
  "oid_der (a # b # cs) = concat (map (\<lambda>c. base128 (unat c)) ((40 * a + b) # cs))"
| "oid_der _ = []"

lemma dotted_Cons:
  "dotted (c # cs) = decimal (unat c) @ concat (map (\<lambda>c. ascii_dot # decimal (unat c)) cs)"
proof (induction cs arbitrary: c)
  case (Cons d cs)
  then have "dotted (d # cs) \<noteq> []" using decimal_digits(2) by simp
  then have "dotted (c # d # cs) = decimal (unat c) @ ascii_dot # dotted (d # cs)"
    by (simp only: dotted.simps(2) [of c] component_text_def if_False)
  with Cons show ?case by simp
qed (simp add: component_text_def)

lemma component_text_nonempty [simp]: "component_text n rest \<noteq> []"
  using decimal_digits(2) by (simp add: component_text_def)

lemma adds_oid_components:
  assumes "malloc_spec m"
  shows "adds m (oid_components m (dotted cs)) (concat (map (\<lambda>c. base128 (unat c)) cs)) True"
proof (induction cs)
  case Nil
  have "oid_components m [] = (\<lambda>s. (Some (), s))"
    by (simp add: fun_eq_iff CBS_len_def oid_components.simps)
  then show ?case using adds_id by simp
next
  case (Cons c cs)
  have "parse_dotted_decimal (dotted (c # cs)) = (Some c, dotted cs)"
    by (simp add: parse_dotted_decimal_iff)
  then have "oid_components m (dotted (c # cs)) =
    (\<lambda>s. chain (add_base128_integer m s c) (\<lambda>_ s. oid_components m (dotted cs) s))"
    by (intro ext, subst oid_components.simps) (simp add: CBS_len_def)
  then show ?case using adds_chain [OF adds_base128_integer [OF assms] Cons] by simp
qed

lemma oid_components_None:
  "(\<nexists>cs. cbs = dotted cs) \<Longrightarrow> fst (oid_components m cbs s) = None"
proof (induction m cbs s rule: oid_components.induct)
  case (1 m cbs s)
  then have ne: "CBS_len cbs > 0" by (metis CBS_len_def dotted.simps(1) length_greater_0_conv)
  show ?case
  proof (cases "parse_dotted_decimal cbs")
    case p: (Pair r rest)
    show ?thesis
    proof (cases r)
      case None
      with p ne show ?thesis by (subst oid_components.simps) simp
    next
      case (Some a)
      with p have "cbs = component_text (unat a) rest" by (simp add: parse_dotted_decimal_iff)
      with 1(2) have "\<nexists>cs. rest = dotted cs" by (metis dotted.simps(2))
      then have "fst (oid_components m rest t) = None" if "add_base128_integer m s a = (Some u, t)" for u t
        using 1(1) ne p Some that by simp
      with p ne Some show ?thesis
        by (subst oid_components.simps)
          (cases "add_base128_integer m s a"; cases "fst (add_base128_integer m s a)"; simp)
    qed
  qed
qed

lemma adds_oid_from_text:
  assumes m: "malloc_spec m" and valid: "oid_valid cs"
  shows "adds m (\<lambda>s. CBB_add_asn1_oid_from_text m s (dotted cs) (length (dotted cs))) (oid_der cs) True"
proof -
  obtain a b cs' where cs: "cs = a # b # cs'"
    and ab: "a \<le> 2" "a < 2 \<longrightarrow> b \<le> 39" "b \<le> 0xffffffffffffffff - 80"
    using valid by (cases cs rule: oid_valid.cases) auto
  have p: "parse_dotted_decimal (dotted cs) = (Some a, dotted (b # cs'))"
    "parse_dotted_decimal (dotted (b # cs')) = (Some b, dotted cs')"
    by (simp_all add: parse_dotted_decimal_iff cs)
  have ok: "\<not> (a > 2 \<or> (a < 2 \<and> b > 39) \<or> b > 0xffffffffffffffff - 80)"
    using ab by (auto simp: not_less)
  have "(\<lambda>s. CBB_add_asn1_oid_from_text m s (dotted cs) (length (dotted cs))) =
    (\<lambda>s. chain (CBB_flush m s) (\<lambda>_ s. chain (add_base128_integer m s (40 * a + b))
      (\<lambda>_ s. oid_components m (dotted cs') s)))"
    by (rule ext) (simp only: CBB_add_asn1_oid_from_text_def CBS_init_def take_all order_refl Let_def
        p prod.case option.case ok if_False)
  then show ?thesis
    using adds_chain [OF adds_flush [OF m] adds_chain [OF adds_base128_integer [OF m]
          adds_oid_components [OF m]], of "40 * a + b" cs']
    by (simp add: cs)
qed

lemma oid_from_text_None:
  assumes "\<nexists>cs. oid_valid cs \<and> take len text = dotted cs"
  shows "fst (CBB_add_asn1_oid_from_text m s text len) = None"
proof (cases "CBB_flush m s")
  case fl: (fields r base c)
  define t where "t = (base, c)"
  note fl = fl [folded t_def]
  show ?thesis
  proof (cases "parse_dotted_decimal (take len text)")
    case p: (Pair ra c1)
    show ?thesis
    proof (cases "parse_dotted_decimal c1")
      case q: (Pair rb c2)
      show ?thesis
      proof (cases "r = None \<or> ra = None \<or> rb = None")
        case True
        with fl p q show ?thesis
          by (cases r; cases ra; auto simp: CBB_add_asn1_oid_from_text_def CBS_init_def Let_def)
      next
        case False
        then obtain u a b where r: "r = Some u" "ra = Some a" "rb = Some b" by auto
        with p q have c: "take len text = component_text (unat a) (component_text (unat b) c2)"
          by (simp add: parse_dotted_decimal_iff)
        show ?thesis
        proof (cases "\<exists>cs. c2 = dotted cs")
          case True
          then obtain cs where "c2 = dotted cs" ..
          with c have "take len text = dotted (a # b # cs)" by simp
          with assms have "\<not> oid_valid (a # b # cs)" by blast
          then have "a > 2 \<or> (a < 2 \<and> b > 39) \<or> b > 0xffffffffffffffff - 80"
            by (auto simp: not_le)
          then show ?thesis
            by (simp add: CBB_add_asn1_oid_from_text_def CBS_init_def fl p q r Let_def)
        next
          case False
          have "fst (chain (add_base128_integer m t v) (\<lambda>_ s. oid_components m c2 s)) = None" for v
            using oid_components_None [OF False]
            by (cases "add_base128_integer m t v"; cases "fst (add_base128_integer m t v)"; simp)
          then show ?thesis
            by (simp add: CBB_add_asn1_oid_from_text_def CBS_init_def fl p q r Let_def)
        qed
      qed
    qed
  qed
qed

section \<open>The text of contents octets\<close>

lemma decimal_short: "n < 2 ^ 64 \<Longrightarrow> length (decimal n) < 2 ^ 63"
proof -
  have "n < 10 ^ Suc k \<Longrightarrow> length (decimal n) \<le> Suc k" for k
  proof (induction k arbitrary: n)
    case (Suc k)
    then have "n div 10 < 10 ^ Suc k" by (simp add: div_less_iff_less_mult mult.commute)
    with Suc.IH show ?case by (subst decimal.simps) simp
  qed (simp add: decimal.simps)
  from this [of 19] have "length (decimal n) \<le> 20" if "n < 2 ^ 64" using that by simp
  then show "n < 2 ^ 64 \<Longrightarrow> length (decimal n) < 2 ^ 63" by fastforce
qed

lemma adds_decimal: "malloc_spec m \<Longrightarrow> adds m (\<lambda>s. add_decimal m s v) (decimal (unat v)) True"
proof -
  assume "malloc_spec m"
  moreover have "unat v < 2 ^ 64" using unsigned_less [of v] by simp
  ultimately show ?thesis
    unfolding add_decimal_def by (intro adds_bytes decimal_short)
qed

lemma adds_oid_text_components:
  fixes cs :: "u64 list"
  assumes "malloc_spec m"
  shows "adds m (oid_text_components m (concat (map (\<lambda>c. base128 (unat c)) cs)))
    (concat (map (\<lambda>c. ascii_dot # decimal (unat c)) cs)) True"
proof (induction cs)
  case Nil
  have "oid_text_components m [] = (\<lambda>s. (Some (), s))"
    by (simp add: fun_eq_iff CBS_len_def oid_text_components.simps)
  then show ?case using adds_id by simp
next
  case (Cons c cs)
  let ?cs = "concat (map (\<lambda>c. base128 (unat c)) cs)"
  have p: "parse_base128_integer (base128 (unat c) @ ?cs) = (Some c, ?cs)"
    by (simp add: b128.dec_iff)
  have "base128 (unat c) \<noteq> []" by (simp add: base128_def)
  then have "oid_text_components m (concat (map (\<lambda>c. base128 (unat c)) (c # cs))) =
    (\<lambda>s. chain (CBB_add_u8 m s ascii_dot) (\<lambda>_ s. chain (add_decimal m s c) (\<lambda>_ s.
       oid_text_components m ?cs s)))"
    by (intro ext, subst oid_text_components.simps) (simp add: CBS_len_def p)
  then show ?case
    using adds_chain [OF adds_uint(1) [OF assms, of ascii_dot] adds_chain [OF adds_decimal [OF assms] Cons]]
    by simp
qed

lemma oid_text_components_None:
  "(\<nexists>cs :: u64 list. cbs = concat (map (\<lambda>c. base128 (unat c)) cs)) \<Longrightarrow>
    fst (oid_text_components m cbs s) = None"
proof (induction m cbs s rule: oid_text_components.induct)
  case (1 m cbs s)
  then have ne: "CBS_len cbs \<noteq> 0"
    by (metis CBS_len_def concat.simps(1) length_0_conv list.simps(8))
  show ?case
  proof (cases "parse_base128_integer cbs")
    case p: (Pair r rest)
    show ?thesis
    proof (cases r)
      case None
      with p ne show ?thesis by (subst oid_text_components.simps) simp
    next
      case (Some a)
      with p have "cbs = base128 (unat a) @ rest" by (simp add: b128.dec_iff)
      then have "cbs = concat (map (\<lambda>c. base128 (unat c)) (a # cs))"
        if "rest = concat (map (\<lambda>c. base128 (unat c)) cs)" for cs using that by simp
      with 1(2) have nex: "\<nexists>cs :: u64 list. rest = concat (map (\<lambda>c. base128 (unat c)) cs)" by blast
      have "fst (oid_text_components m rest t) = None"
        if "CBB_add_u8 m s ascii_dot = (Some u, q)" "add_decimal m q a = (Some u', t)" for u q u' t
        using 1(1) ne p Some that nex by simp
      with p ne Some show ?thesis
        by (subst oid_text_components.simps)
          (auto simp: chain_def split: prod.splits option.splits)
    qed
  qed
qed

lemma unat_first_arc:
  assumes "oid_valid (a # b # cs)"
  shows "unat (40 * a + b) = 40 * unat a + unat b"
proof -
  have "unat a \<le> 2" "unat b \<le> 0xffffffffffffffff - 80"
    using assms by (auto simp: word_le_nat_alt)
  moreover from this have "unat (40 * a) = 40 * unat a" by (simp add: unat_mult_lem [THEN iffD1])
  ultimately show ?thesis by (simp add: unat_add_lem [THEN iffD1])
qed

text \<open>The first number on the wire splits into the first two components in one way.\<close>

lemma first_arcs:
  assumes "v = 40 * a + b" and "oid_valid (a # b # cs)"
  shows "v \<ge> 80 \<longleftrightarrow> a = 2" and "a = 2 \<Longrightarrow> v - 80 = b" and "v < 80 \<Longrightarrow> v div 40 = a \<and> v mod 40 = b"
proof -
  have v: "unat v = 40 * unat a + unat b" using unat_first_arc [OF assms(2)] assms(1) by simp
  have ab: "unat a \<le> 2" "unat a < 2 \<Longrightarrow> unat b \<le> 39"
    using assms(2) by (auto simp: word_le_nat_alt word_less_nat_alt)
  have a2: "a = 2 \<longleftrightarrow> unat a = 2" by (simp add: word_unat_eq_iff)
  show ge: "v \<ge> 80 \<longleftrightarrow> a = 2"
    unfolding a2 word_le_nat_alt v using ab by (cases "unat a < 2") auto
  show "v - 80 = b" if "a = 2" using assms(1) that by simp
  show "v div 40 = a \<and> v mod 40 = b" if "v < 80"
  proof -
    have "a \<noteq> 2" using that ge by (metis not_le)
    then have "unat b < 40" using ab a2 by linarith
    with v show ?thesis by (simp add: word_unat_eq_iff unat_div unat_mod)
  qed
qed

lemma every_first_arc:
  fixes v :: u64
  shows "\<exists>a b. v = 40 * a + b \<and> oid_valid (a # b # cs)"
proof (cases "v \<ge> 80")
  case True
  moreover have "unat v < 2 ^ 64" using unsigned_less [of v] by simp
  ultimately have "v - 80 \<le> 0xffffffffffffffff - 80" by (simp add: word_le_nat_alt unat_sub)
  then have "oid_valid (2 # (v - 80) # cs)" by simp
  moreover have "v = 40 * 2 + (v - 80)" by simp
  ultimately show ?thesis by blast
next
  case False
  then have v: "unat v < 80" by (simp add: word_le_nat_alt not_le)
  have ab: "unat (v div 40) = unat v div 40" "unat (v mod 40) = unat v mod 40"
    by (simp_all add: unat_div unat_mod)
  have "v = 40 * (v div 40) + v mod 40" by (metis word_mod_div_equality mult.commute)
  moreover have "oid_valid ((v div 40) # (v mod 40) # cs)"
  proof -
    have "unat v div 40 < 2" "unat v mod 40 < 40"
      using v by (simp_all add: div_less_iff_less_mult)
    then have "unat v div 40 \<le> 2" "unat v mod 40 \<le> 39" "unat v mod 40 \<le> 0xffffffffffffffff - 80"
      by linarith+
    then show ?thesis by (simp add: word_le_nat_alt word_less_nat_alt unat_sub ab)
  qed
  ultimately show ?thesis by blast
qed

lemma adds_oid_text:
  assumes m: "malloc_spec m" and valid: "oid_valid cs"
  shows "adds m (oid_text m (oid_der cs)) (dotted cs @ [0]) True"
proof -
  obtain a b cs' where cs: "cs = a # b # cs'" using valid by (cases cs rule: oid_valid.cases) auto
  define v where "v = 40 * a + b"
  let ?tail = "concat (map (\<lambda>c. base128 (unat c)) cs')"
  let ?text = "concat (map (\<lambda>c. ascii_dot # decimal (unat c)) cs')"
  note arcs = first_arcs [OF v_def valid [unfolded cs]]
  have der: "oid_der cs = base128 (unat v) @ ?tail" by (simp add: cs v_def)
  have p: "parse_base128_integer (base128 (unat v) @ ?tail) = (Some v, ?tail)"
    by (simp add: b128.dec_iff)
  have dot: "dotted cs = decimal (unat a) @ ascii_dot # decimal (unat b) @ ?text"
    by (simp add: cs dotted_Cons del: dotted.simps)
  note T = adds_chain [OF adds_oid_text_components [OF m, of cs'] adds_uint(1) [OF m, of 0]]
  show ?thesis
  proof (cases "v \<ge> 80")
    case True
    have "decimal (unat a) = [0x32]" using True arcs(1) by (simp add: decimal.simps)
    moreover have "adds m (\<lambda>s. chain (chain (CBB_add_bytes m s [0x32, ascii_dot]) (\<lambda>_ s. add_decimal m s (v - 80)))
        (\<lambda>_ s. chain (oid_text_components m ?tail s) (\<lambda>_ s. CBB_add_u8 m s 0)))
      (([0x32, ascii_dot] @ decimal (unat (v - 80))) @ ?text @ [0]) ((True \<and> True) \<and> True \<and> True)"
      using m by (intro adds_chain T adds_decimal adds_bytes) simp_all
    moreover have "v - 80 = b" using True arcs by simp
    ultimately show ?thesis
      using True by (simp add: oid_text_def [abs_def] p der dot)
  next
    case False
    have "adds m (\<lambda>s. chain (chain (add_decimal m s (v div 40)) (\<lambda>_ s. chain (CBB_add_u8 m s ascii_dot)
          (\<lambda>_ s. add_decimal m s (v mod 40))))
        (\<lambda>_ s. chain (oid_text_components m ?tail s) (\<lambda>_ s. CBB_add_u8 m s 0)))
      ((decimal (unat (v div 40)) @ [ascii_dot] @ decimal (unat (v mod 40))) @ ?text @ [0])
      ((True \<and> True \<and> True) \<and> True \<and> True)"
      using m by (intro adds_chain T adds_decimal adds_uint)
    moreover have "v div 40 = a" "v mod 40 = b" using False arcs(3) by simp_all
    ultimately show ?thesis
      using False by (simp add: oid_text_def [abs_def] p der dot)
  qed
qed

lemma oid_text_None:
  assumes "\<nexists>cs. oid_valid cs \<and> cbs = oid_der cs"
  shows "fst (oid_text m cbs s) = None"
proof (cases "parse_base128_integer cbs")
  case p: (Pair r rest)
  show ?thesis
  proof (cases r)
    case None
    with p show ?thesis by (simp add: oid_text_def)
  next
    case (Some v)
    have cbs: "cbs = base128 (unat v) @ rest" using p Some by (simp add: b128.dec_iff)
    have "\<nexists>cs :: u64 list. rest = concat (map (\<lambda>c. base128 (unat c)) cs)"
    proof
      assume "\<exists>cs :: u64 list. rest = concat (map (\<lambda>c. base128 (unat c)) cs)"
      then obtain cs :: "u64 list" where rest: "rest = concat (map (\<lambda>c. base128 (unat c)) cs)" ..
      obtain a b where ab: "v = 40 * a + b" "oid_valid (a # b # cs)" using every_first_arc by blast
      then have "cbs = oid_der (a # b # cs)" using cbs rest by simp
      with ab(2) assms show False by blast
    qed
    note none = oid_text_components_None [OF this]
    have "fst (chain q (\<lambda>_ s. chain (oid_text_components m rest s) f)) = None"
      for q :: cbb_result and f :: "unit \<Rightarrow> cbb_state \<Rightarrow> cbb_result"
    proof -
      have "chain (oid_text_components m rest t) f = (None, snd (oid_text_components m rest t))" for t
        using none [of m t] by (cases "oid_text_components m rest t") simp
      then show ?thesis by (cases q; cases "fst q") auto
    qed
    then show ?thesis using p Some by (simp add: oid_text_def)
  qed
qed

end
