(* ===== verification/Ber.thy ===== *)
theory Ber
  imports Asn1
begin

text \<open>
  \<^verbatim>\<open>BoringSSL/crypto/bytestring/ber.c\<close>: the conversion of BER to DER.  The result of
  \<^verbatim>\<open>cbs_find_ber\<close> is \<open>None\<close> for an error, else \<^verbatim>\<open>*ber_found\<close>.  \<^verbatim>\<open>cbs_convert_ber\<close> moves its input and
  writes to its output; in the model it returns both.  Its recursion for an indefinite length
  leaves off where the element ended, so termination needs that the input never grows.
\<close>

section \<open>The program\<close>

definition kMaxDepth :: nat where "kMaxDepth = 2048"

definition is_string_type :: "u32 \<Rightarrow> bool" where
  "is_string_type tag \<longleftrightarrow>
     tag AND NOT CBS_ASN1_CONSTRUCTED
       \<in> {0x3, 0x4, 0xc, 0x12, 0x13, 0x14, 0x15, 0x16, 0x19, 0x1a, 0x1b, 0x1c, 0x1e}"

lemma ber_element_shorter:
  assumes "CBS_get_any_ber_asn1_element cbs = (Some e, rest)"
  shows "length rest < length cbs" and "0 < el_header_len e"
    and "el_header_len e \<le> length (el_out e)" and "length (el_out e) \<le> length cbs"
proof -
  from assms have "cbs = el_out e @ rest" "indefinite e \<or> (\<exists>c. definite e c)"
    using asn1_element_sound [of cbs True e rest] by (auto simp: CBS_get_any_ber_asn1_element_def)
  then show "length rest < length cbs" and "0 < el_header_len e"
    and "el_header_len e \<le> length (el_out e)" and "length (el_out e) \<le> length cbs"
    using length_asn1_identifier(1) [of "el_tag e"]
    by (auto simp: indefinite_def definite_def asn1_header_def)
qed

lemma skip_shorter:
  "CBS_skip cbs n = (Some u, rest) \<Longrightarrow> 0 < n \<Longrightarrow> 0 < length cbs \<Longrightarrow> length rest < length cbs"
  by (simp add: CBS_skip_iff)

text \<open>The test for an indefinite length: nothing after the header, which ends in \<^verbatim>\<open>0x80\<close>.\<close>

definition indefinite_length :: "asn1_element \<Rightarrow> bool" where
  "indefinite_length e \<longleftrightarrow>
     CBS_len (el_out e) = el_header_len e \<and> el_header_len e > 0
     \<and> CBS_data (el_out e) ! (el_header_len e - 1) = 0x80"

text \<open>
  Every call of \<^verbatim>\<open>cbs_find_ber\<close>, nested ones too, starts by clearing \<^verbatim>\<open>*ber_found\<close>; the loop carries
  the flag \<open>found\<close> as the last call left it.
\<close>

function cbs_find_ber :: "cbs \<Rightarrow> nat \<Rightarrow> bool option"
  and find_ber_loop :: "cbs \<Rightarrow> nat \<Rightarrow> bool \<Rightarrow> bool option" where
  "cbs_find_ber orig_in depth =
     (if depth > kMaxDepth then None else find_ber_loop (CBS_init (CBS_data orig_in) (CBS_len orig_in)) depth False)"
| "find_ber_loop inp depth found =
     (if CBS_len inp > 0 then
        (case CBS_get_any_ber_asn1_element inp of
           (None, _) \<Rightarrow> None
         | (Some e, inp) \<Rightarrow>
             if indefinite_length e then Some True
             else if el_tag e AND CBS_ASN1_CONSTRUCTED \<noteq> 0 then
               (if is_string_type (el_tag e) then Some True
                else case CBS_skip (el_out e) (el_header_len e) of
                    (None, _) \<Rightarrow> None
                  | (Some _, contents) \<Rightarrow>
                      (case cbs_find_ber contents (depth + 1) of
                         None \<Rightarrow> None
                       | Some found \<Rightarrow> find_ber_loop inp depth found))
             else find_ber_loop inp depth found)
      else Some found)"
  by pat_completeness auto
termination
proof (relation "measure (case_sum (\<lambda>(inp, _). 2 * length inp + 1) (\<lambda>(inp, _). 2 * length inp))",
    goal_cases)
  case (3 inp depth found r rest e u contents)
  then show ?case
    using ber_element_shorter [of inp e rest] skip_shorter [of "el_out e" "el_header_len e" _ contents] by force
next
  case 4
  then show ?case by (force dest: ber_element_shorter(1) [OF sym])
next
  case 5
  then show ?case by (force dest: ber_element_shorter(1) [OF sym])
qed (simp_all add: CBS_init_def CBS_data_def CBS_len_def)

declare cbs_find_ber.simps [simp del] find_ber_loop.simps [simp del]

definition is_eoc :: "nat \<Rightarrow> cbs \<Rightarrow> bool" where
  "is_eoc header_len contents \<longleftrightarrow>
     header_len = 2 \<and> CBS_len contents = 2 \<and> OPENSSL_memcmp (CBS_data contents) [0, 0] = 0"

text \<open>
  Where the contents of an element go: to a new child, or for a fragment of a string to the output
  itself.  The result is the string tag for the children.
\<close>

definition open_output :: "malloc \<Rightarrow> asn1_element \<Rightarrow> u32 \<Rightarrow> cbb_state \<Rightarrow> u32 option \<times> cbb_state" where
  "open_output m e string_tag s =
     (if string_tag \<noteq> 0 then
        (if el_tag e AND NOT CBS_ASN1_CONSTRUCTED \<noteq> string_tag then (None, s) else (Some string_tag, s))
      else
        (let constructed_string = el_tag e AND CBS_ASN1_CONSTRUCTED \<noteq> 0 \<and> is_string_type (el_tag e);
             out_tag = (if constructed_string then el_tag e AND NOT CBS_ASN1_CONSTRUCTED else el_tag e)
         in chain (CBB_add_asn1 m s out_tag) (\<lambda>_ s.
              (Some (if constructed_string then out_tag else string_tag), s))))"

definition out_contents :: "u32 \<Rightarrow> cbb_state \<Rightarrow> cbb_state" where
  "out_contents string_tag s = (if string_tag \<noteq> 0 then s else (fst s, the (child (snd s))))"

definition back_to_out :: "u32 \<Rightarrow> cbb_state \<Rightarrow> cbb_state \<Rightarrow> cbb_state" where
  "back_to_out string_tag s t = (if string_tag \<noteq> 0 then t else (fst t, set_child (Some (snd t)) (snd s)))"

function (domintros) cbs_convert_ber ::
  "malloc \<Rightarrow> cbs \<Rightarrow> cbb_state \<Rightarrow> u32 \<Rightarrow> bool \<Rightarrow> nat \<Rightarrow> unit option \<times> cbs \<times> cbb_state" where
  "cbs_convert_ber m inp s string_tag looking_for_eoc depth =
     (if depth > kMaxDepth then (None, inp, s)
      else if CBS_len inp > 0 then
        (case CBS_get_any_ber_asn1_element inp of
           (None, inp) \<Rightarrow> (None, inp, s)
         | (Some e, inp) \<Rightarrow>
             if is_eoc (el_header_len e) (el_out e) then (if looking_for_eoc then Some () else None, inp, s)
             else case open_output m e string_tag s of
                 (None, s) \<Rightarrow> (None, inp, s)
               | (Some child_string_tag, s) \<Rightarrow>
                   if indefinite_length e then
                     (case cbs_convert_ber m inp (out_contents string_tag s) child_string_tag True (depth + 1) of
                        (None, inp, t) \<Rightarrow> (None, inp, back_to_out string_tag s t)
                      | (Some _, inp, t) \<Rightarrow>
                          (case CBB_flush m (back_to_out string_tag s t) of
                             (None, s) \<Rightarrow> (None, inp, s)
                           | (Some _, s) \<Rightarrow> cbs_convert_ber m inp s string_tag looking_for_eoc depth))
                   else case CBS_skip (el_out e) (el_header_len e) of
                       (None, _) \<Rightarrow> (None, inp, s)
                     | (Some _, contents) \<Rightarrow>
                         (case (if el_tag e AND CBS_ASN1_CONSTRUCTED \<noteq> 0
                                then (case cbs_convert_ber m contents (out_contents string_tag s)
                                             child_string_tag False (depth + 1) of (r, _, t) \<Rightarrow> (r, t))
                                else CBB_add_bytes m (out_contents string_tag s) (CBS_data contents)) of
                            (None, t) \<Rightarrow> (None, inp, back_to_out string_tag s t)
                          | (Some _, t) \<Rightarrow>
                              (case CBB_flush m (back_to_out string_tag s t) of
                                 (None, s) \<Rightarrow> (None, inp, s)
                               | (Some _, s) \<Rightarrow> cbs_convert_ber m inp s string_tag looking_for_eoc depth)))
      else (if looking_for_eoc then None else Some (), inp, s))"
  by pat_completeness auto

text \<open>The recursion for the contents of a definite-length element, and the copy of a primitive.\<close>

lemma cbs_convert_ber_shrinks:
  "cbs_convert_ber_dom (m, inp, s, string_tag, eoc, depth) \<Longrightarrow>
    cbs_convert_ber m inp s string_tag eoc depth = (Some (), rest, s') \<Longrightarrow> length rest \<le> length inp"
proof (induction arbitrary: rest s' rule: cbs_convert_ber.pinduct)
  case (1 m inp s string_tag eoc depth)
  note dom = 1(1) and IH = 1(2-5) and r = 1(6)
  show ?case
  proof (cases "\<not> depth > kMaxDepth \<and> CBS_len inp > 0")
    case False
    with r show ?thesis by (auto simp: cbs_convert_ber.psimps [OF dom] split: if_splits)
  next
    case go: True
    with r obtain e inp1 where e: "CBS_get_any_ber_asn1_element inp = (Some e, inp1)"
      by (cases "CBS_get_any_ber_asn1_element inp"; cases "fst (CBS_get_any_ber_asn1_element inp)")
        (auto simp: cbs_convert_ber.psimps [OF dom])
    note sh = ber_element_shorter(1) [OF e]
    show ?thesis
    proof (cases "is_eoc (el_header_len e) (el_out e)")
      case True
      with go e r sh show ?thesis by (auto simp: cbs_convert_ber.psimps [OF dom] split: if_splits)
    next
      case eoc: False
      with go e r obtain tag s1 where op: "open_output m e string_tag s = (Some tag, s1)"
        by (cases "open_output m e string_tag s"; cases "fst (open_output m e string_tag s)")
          (auto simp: cbs_convert_ber.psimps [OF dom])
      note pre = conjunct1 [OF go] conjunct2 [OF go] e [symmetric] refl eoc op [symmetric] refl
      show ?thesis
      proof (cases "indefinite_length e")
        case True
        with go e eoc op r obtain inp2 t s2
          where A: "cbs_convert_ber m inp1 (out_contents string_tag s1) tag True (depth + 1) = (Some (), inp2, t)"
          and B: "CBB_flush m (back_to_out string_tag s1 t) = (Some (), s2)"
          and C: "cbs_convert_ber m inp2 s2 string_tag eoc depth = (Some (), rest, s')"
          by (auto simp: cbs_convert_ber.psimps [OF dom] split: prod.splits option.splits)
        have "length inp2 \<le> length inp1" by (rule IH(1) [OF pre True A])
        moreover have "length rest \<le> length inp2"
          by (rule IH(2) [OF pre True A [symmetric] refl refl B [symmetric] refl C])
        ultimately show ?thesis using sh by simp
      next
        case False
        let ?body = "\<lambda>contents. if el_tag e AND CBS_ASN1_CONSTRUCTED \<noteq> 0
          then (case cbs_convert_ber m contents (out_contents string_tag s1) tag False (depth + 1) of (r, _, t) \<Rightarrow> (r, t))
          else CBB_add_bytes m (out_contents string_tag s1) (CBS_data contents)"
        obtain u contents where sk: "CBS_skip (el_out e) (el_header_len e) = (Some u, contents)"
          using False go e eoc op r
          by (cases "CBS_skip (el_out e) (el_header_len e)"; cases "fst (CBS_skip (el_out e) (el_header_len e))")
            (auto simp: cbs_convert_ber.psimps [OF dom])
        obtain t where A: "?body contents = (Some (), t)"
          using False go e eoc op sk r
          by (cases "?body contents"; cases "fst (?body contents)") (auto simp: cbs_convert_ber.psimps [OF dom])
        obtain s2 where B: "CBB_flush m (back_to_out string_tag s1 t) = (Some (), s2)"
          using False go e eoc op sk A r
          by (cases "CBB_flush m (back_to_out string_tag s1 t)"; cases "fst (CBB_flush m (back_to_out string_tag s1 t))")
            (auto simp: cbs_convert_ber.psimps [OF dom])
        have C: "cbs_convert_ber m inp1 s2 string_tag eoc depth = (Some (), rest, s')"
          using False go e eoc op sk A B r by (simp add: cbs_convert_ber.psimps [OF dom])
        have "length rest \<le> length inp1"
          by (rule IH(4) [OF pre False sk [symmetric] refl A [symmetric] refl B [symmetric] refl C])
        with sh show ?thesis by simp
      qed
    qed
  qed
qed

termination cbs_convert_ber
proof (relation "measure (\<lambda>(m, inp, s, string_tag, eoc, depth). length inp)", goal_cases)
  case (2 m inp s string_tag eoc depth r inp1 e)
  then show ?case using ber_element_shorter(1) [of inp e inp1] by simp
next
  case (3 m inp s string_tag eoc depth r inp1 e xa s1 tag xb yb u inp2 t)
  have "cbs_convert_ber m inp1 (out_contents string_tag s1) tag True (depth + 1) = (Some (), inp2, t)"
    using 3(9-11) by simp
  from cbs_convert_ber_shrinks [OF 3(14) this] have "length inp2 \<le> length inp1" .
  with 3(3,4) ber_element_shorter(1) [of inp e inp1] show ?case by simp
next
  case (4 m inp s string_tag eoc depth r inp1 e xa ya tag xb contents)
  then show ?case
    using ber_element_shorter [of inp e inp1] skip_shorter [of "el_out e" "el_header_len e" _ contents] by force
next
  case (5 m inp s string_tag eoc depth r inp1 e)
  then show ?case using ber_element_shorter(1) [of inp e inp1] by simp
qed simp

declare cbs_convert_ber.simps [simp del]

text \<open>The result of \<^verbatim>\<open>CBS_asn1_ber_to_der\<close>: an error, no conversion needed, or the converted bytes.\<close>

definition CBS_asn1_ber_to_der :: "malloc \<Rightarrow> cbs \<Rightarrow> bytes option option \<times> cbs" where
  "CBS_asn1_ber_to_der m inp =
     (case cbs_find_ber inp 0 of
        None \<Rightarrow> (None, inp)
      | Some conversion_needed \<Rightarrow>
          if \<not> conversion_needed then (Some None, inp)
          else case CBB_init m (CBS_len inp) of
              (None, _) \<Rightarrow> (None, inp)
            | (Some _, cbb) \<Rightarrow>
                (case cbs_convert_ber m inp cbb 0 False 0 of
                   (None, inp, _) \<Rightarrow> (None, inp)
                 | (Some _, inp, cbb) \<Rightarrow>
                     (case fst (CBB_finish m True True cbb) of
                        Some (Some out, Some out_len) \<Rightarrow> (Some (Some (take out_len out)), inp)
                      | _ \<Rightarrow> (None, inp))))"

text \<open>
  The loop over the chunks of a constructed string, and the function: \<^verbatim>\<open>*out\<close>, and \<^verbatim>\<open>*out_storage\<close> if
  it is not null.
\<close>

lemma get_asn1_shorter:
  assumes "CBS_get_asn1 cbs tag = (Some c, rest)"
  shows "length rest < length cbs"
  using assms length_asn1_identifier(1) [of tag]
  by (simp add: CBS_get_asn1_iff asn1_tlv_def asn1_header_def)

function implicit_string_chunks :: "malloc \<Rightarrow> u32 \<Rightarrow> cbs \<Rightarrow> cbb_state \<Rightarrow> cbb_result" where
  "implicit_string_chunks m inner_tag chunks s =
     (if CBS_len chunks > 0 then
        (case CBS_get_asn1 chunks inner_tag of
           (None, _) \<Rightarrow> (None, s)
         | (Some chunk, chunks) \<Rightarrow>
             chain (CBB_add_bytes m s (CBS_data chunk)) (\<lambda>_ s. implicit_string_chunks m inner_tag chunks s))
      else (Some (), s))"
  by auto
termination
  by (relation "measure (\<lambda>(m, t, chunks, s). length chunks)") (auto dest: get_asn1_shorter sym)

declare implicit_string_chunks.simps [simp del]

definition CBS_get_asn1_implicit_string ::
  "malloc \<Rightarrow> cbs \<Rightarrow> u32 \<Rightarrow> u32 \<Rightarrow> (cbs \<times> bytes option) option \<times> cbs" where
  "CBS_get_asn1_implicit_string m inp outer_tag inner_tag =
     (if CBS_peek_asn1_tag inp outer_tag then
        chain (CBS_get_asn1 inp outer_tag) (\<lambda>out inp. (Some (out, None), inp))
      else case CBB_init m (CBS_len inp) of
          (None, _) \<Rightarrow> (None, inp)
        | (Some _, result) \<Rightarrow>
            chain (CBS_get_asn1 inp (outer_tag OR CBS_ASN1_CONSTRUCTED)) (\<lambda>child inp.
              case implicit_string_chunks m inner_tag child result of
                (None, _) \<Rightarrow> (None, inp)
              | (Some _, result) \<Rightarrow>
                  (case fst (CBB_finish m True True result) of
                     Some (Some data, Some len) \<Rightarrow> (Some (CBS_init data len, Some data), inp)
                   | _ \<Rightarrow> (None, inp))))"

text \<open>
  \<^verbatim>\<open>CBB_finish_i2d\<close> of \<^verbatim>\<open>asn1_compat.c\<close>.  \<open>outp\<close> is \<open>None\<close> for a null \<^verbatim>\<open>outp\<close>, \<open>Some None\<close> for a null \<^verbatim>\<open>*outp\<close>;
  the result has the bytes \<^verbatim>\<open>*outp\<close> points into and the position it points to.
\<close>

definition CBB_finish_i2d :: "malloc \<Rightarrow> cbb_state \<Rightarrow> bytes option option \<Rightarrow> int \<times> (bytes \<times> nat) option" where
  "CBB_finish_i2d m cbb outp =
     (case fst (CBB_finish m True True cbb) of
        Some (Some der, Some der_len) \<Rightarrow>
          if der_len > 0x7fffffff then (-1, map_option (\<lambda>b. (b, 0)) (Option.bind outp id))
          else (int der_len,
            case outp of
              None \<Rightarrow> None
            | Some None \<Rightarrow> Some (take der_len der, 0)
            | Some (Some dst) \<Rightarrow> Some (mem_write dst 0 (take der_len der), der_len))
      | _ \<Rightarrow> (-1, map_option (\<lambda>b. (b, 0)) (Option.bind outp id)))"

section \<open>BER values\<close>

text \<open>A constructed value has a definite or an indefinite length.\<close>

datatype ber =
    Primitive u32 bytes
  | Constructed u32 bool "ber list"

fun ber_bytes :: "ber \<Rightarrow> bytes" where
  "ber_bytes (Primitive tag c) = asn1_tlv (c, tag)"
| "ber_bytes (Constructed tag False ts) = asn1_tlv (concat (map ber_bytes ts), tag)"
| "ber_bytes (Constructed tag True ts) = asn1_identifier tag @ 0x80 # concat (map ber_bytes ts) @ [0, 0]"



text \<open>
  What the converter takes: at depth \<open>d\<close>, inside a string with tag \<open>st\<close> (or not, if \<open>st\<close> is 0), fragments
  have that tag, the nesting is bounded, and no element looks like an end-of-contents marker.
\<close>

definition inner_string_tag :: "u32 \<Rightarrow> u32 \<Rightarrow> u32" where
  "inner_string_tag st tag =
     (if st \<noteq> 0 then st else if is_string_type tag then tag AND NOT CBS_ASN1_CONSTRUCTED else 0)"

fun ber_wf :: "u32 \<Rightarrow> nat \<Rightarrow> ber \<Rightarrow> bool" where
  "ber_wf st d (Primitive tag c) \<longleftrightarrow>
     tag AND CBS_ASN1_CONSTRUCTED = 0 \<and> length c < 2 ^ 32 \<and> \<not> (tag = 0 \<and> c = []) \<and> (st \<noteq> 0 \<longrightarrow> tag = st)"
| "ber_wf st d (Constructed tag indef ts) \<longleftrightarrow>
     tag AND CBS_ASN1_CONSTRUCTED \<noteq> 0 \<and> (st \<noteq> 0 \<longrightarrow> tag AND NOT CBS_ASN1_CONSTRUCTED = st) \<and>
     (\<not> indef \<longrightarrow> length (concat (map ber_bytes ts)) < 2 ^ 32) \<and> d < kMaxDepth \<and>
     list_all (ber_wf (inner_string_tag st tag) (d + 1)) ts"

section \<open>The element parser on BER values\<close>

definition tlv_element :: "bytes \<Rightarrow> u32 \<Rightarrow> asn1_element" where
  "tlv_element c tag = \<lparr>el_out = asn1_tlv (c, tag), el_tag = tag, el_header_len = length (asn1_header tag (length c))\<rparr>"

definition indef_element :: "u32 \<Rightarrow> asn1_element" where
  "indef_element tag = \<lparr>el_out = asn1_identifier tag @ [0x80], el_tag = tag, el_header_len = length (asn1_identifier tag) + 1\<rparr>"

lemma get_tlv_element:
  "length c < 2 ^ 32 \<Longrightarrow> CBS_get_any_ber_asn1_element (asn1_tlv (c, tag) @ rest) = (Some (tlv_element c tag), rest)"
  using asn1_element_complete [OF definite_mk, of c tag rest True]
  by (simp add: CBS_get_any_ber_asn1_element_def tlv_element_def)

lemma get_indef_element:
  "tag AND CBS_ASN1_CONSTRUCTED \<noteq> 0 \<Longrightarrow>
    CBS_get_any_ber_asn1_element (asn1_identifier tag @ 0x80 # rest) = (Some (indef_element tag), rest)"
  using asn1_element_indefinite [of "indef_element tag" rest]
  by (simp add: CBS_get_any_ber_asn1_element_def indef_element_def indefinite_def)

lemma element_simps [simp]:
  "el_tag (tlv_element c tag) = tag" "el_tag (indef_element tag) = tag"
  by (simp_all add: tlv_element_def indef_element_def)

lemma skip_tlv_element: "CBS_skip (el_out (tlv_element c tag)) (el_header_len (tlv_element c tag)) = (Some (), c)"
  by (simp add: tlv_element_def)

lemma asn1_length_0: "asn1_length 0 = [0]"
  by (simp add: asn1_length_def)

lemma indefinite_length_simps [simp]:
  "indefinite_length (indef_element tag)"
  "\<not> indefinite_length (tlv_element c tag)"
  by (auto simp: indefinite_length_def indef_element_def tlv_element_def CBS_len_def CBS_data_def asn1_tlv_def
      asn1_header_def asn1_length_0 nth_append)





section \<open>Conversion\<close>


















section \<open>The output\<close>








section \<open>\<^verbatim>\<open>CBS_asn1_ber_to_der\<close>\<close>




text \<open>The first walk over values that are DER already, as far as it looks.\<close>

fun der_shaped :: "nat \<Rightarrow> ber \<Rightarrow> bool" where
  "der_shaped d (Primitive tag c) \<longleftrightarrow> tag AND CBS_ASN1_CONSTRUCTED = 0 \<and> length c < 2 ^ 32"
| "der_shaped d (Constructed tag indef ts) \<longleftrightarrow>
     \<not> indef \<and> tag AND CBS_ASN1_CONSTRUCTED \<noteq> 0 \<and> \<not> is_string_type tag \<and> d < kMaxDepth \<and>
     length (concat (map ber_bytes ts)) < 2 ^ 32 \<and> list_all (der_shaped (d + 1)) ts"

lemma find_ber_step:
  assumes "length c < 2 ^ 32"
  shows "find_ber_loop (asn1_tlv (c, tag) @ rest) d found =
    (if tag AND CBS_ASN1_CONSTRUCTED \<noteq> 0 then
       (if is_string_type tag then Some True
        else case cbs_find_ber c (d + 1) of None \<Rightarrow> None | Some found \<Rightarrow> find_ber_loop rest d found)
     else find_ber_loop rest d found)"
proof -
  have "0 < length (asn1_tlv (c, tag))"
    using length_asn1_identifier(1) [of tag] by (simp add: asn1_tlv_def asn1_header_def)
  then show ?thesis
    by (subst find_ber_loop.simps)
      (simp add: CBS_len_def get_tlv_element [OF assms] skip_tlv_element cong: if_cong)
qed

lemma find_ber_loop_Nil: "find_ber_loop [] d found = Some found"
  by (subst find_ber_loop.simps) (simp add: CBS_len_def)

lemma find_ber_der_list:
  assumes "\<And>t rest. t \<in> set ts \<Longrightarrow> find_ber_loop (ber_bytes t @ rest) d False = find_ber_loop rest d False"
  shows "find_ber_loop (concat (map ber_bytes ts)) d False = Some False"
  using assms by (induction ts) (simp_all add: find_ber_loop_Nil)

lemma find_ber_der:
  "der_shaped d t \<Longrightarrow> find_ber_loop (ber_bytes t @ rest) d False = find_ber_loop rest d False"
proof (induction t arbitrary: d rest rule: ber_bytes.induct)
  case (2 tag ts)
  then have "find_ber_loop (concat (map ber_bytes ts)) (d + 1) False = Some False"
    by (intro find_ber_der_list) (auto simp: list_all_iff)
  with 2 show ?case
    by (simp add: find_ber_step cbs_find_ber.simps CBS_init_def CBS_data_def CBS_len_def)
qed (simp_all add: find_ber_step)

lemma ber_to_der_unneeded:
  assumes "list_all (der_shaped 0) ts"
  shows "CBS_asn1_ber_to_der m (concat (map ber_bytes ts)) = (Some None, concat (map ber_bytes ts))"
proof -
  have "find_ber_loop (concat (map ber_bytes ts)) 0 False = Some False"
    using assms find_ber_der by (intro find_ber_der_list) (auto simp: list_all_iff)
  then show ?thesis
    by (simp add: CBS_asn1_ber_to_der_def cbs_find_ber.simps CBS_init_def CBS_data_def CBS_len_def)
qed

text \<open>
  What the walk notices of a sequence of values.  It stops at the first element of the sequence that is
  BER itself.  Else the flag is left by the contents of the last constructed element, since every nested
  call clears \<^verbatim>\<open>*ber_found\<close>: what an earlier element holds is forgotten.
\<close>

fun ber_element :: "ber \<Rightarrow> bool" where
  "ber_element (Primitive tag c) \<longleftrightarrow> False"
| "ber_element (Constructed tag indef ts) \<longleftrightarrow> indef \<or> is_string_type tag"

fun last_contents :: "ber list \<Rightarrow> ber list option" where
  "last_contents [] = None"
| "last_contents (Primitive tag c # ts) = last_contents ts"
| "last_contents (Constructed tag indef us # ts) =
     (case last_contents ts of None \<Rightarrow> Some us | Some us \<Rightarrow> Some us)"

lemma last_contents_smaller: "last_contents ts = Some us \<Longrightarrow> size_list size us < size_list size ts"
  by (induction ts arbitrary: us rule: last_contents.induct) (fastforce split: option.splits)+

function ber_noticed :: "ber list \<Rightarrow> bool" where
  "ber_noticed ts \<longleftrightarrow>
     list_ex ber_element ts \<or> (case last_contents ts of None \<Rightarrow> False | Some us \<Rightarrow> ber_noticed us)"
  by auto
termination
  by (relation "measure (size_list size)") (auto dest: last_contents_smaller)

declare ber_noticed.simps [simp del]

lemma last_contents_append:
  "last_contents (ts @ us) = (case last_contents us of None \<Rightarrow> last_contents ts | Some vs \<Rightarrow> Some vs)"
  by (induction ts rule: last_contents.induct) (simp_all split: option.splits)

lemma find_ber_indefinite:
  "d \<le> kMaxDepth \<Longrightarrow> tag AND CBS_ASN1_CONSTRUCTED \<noteq> 0 \<Longrightarrow>
    cbs_find_ber (ber_bytes (Constructed tag True ts) @ rest) d = Some True"
  by (simp add: cbs_find_ber.simps find_ber_loop.simps CBS_init_def CBS_data_def CBS_len_def get_indef_element)

lemma find_ber_loop_indefinite:
  "tag AND CBS_ASN1_CONSTRUCTED \<noteq> 0 \<Longrightarrow> find_ber_loop (ber_bytes (Constructed tag True ts) @ rest) d found = Some True"
  by (subst find_ber_loop.simps) (simp add: CBS_len_def get_indef_element)

lemma find_ber_is_loop: "d \<le> kMaxDepth \<Longrightarrow> cbs_find_ber inp d = find_ber_loop inp d False"
  by (simp add: cbs_find_ber.simps CBS_init_def CBS_data_def CBS_len_def)

lemma find_ber_loop_noticed:
  assumes contents: "\<And>tag us. Constructed tag False us \<in> set ts \<Longrightarrow> \<not> is_string_type tag \<Longrightarrow>
      cbs_find_ber (concat (map ber_bytes us)) (d + 1) = Some (ber_noticed us)"
    and wf: "list_all (ber_wf 0 d) ts"
  shows "find_ber_loop (concat (map ber_bytes ts)) d found =
    Some (list_ex ber_element ts \<or> (case last_contents ts of None \<Rightarrow> found | Some us \<Rightarrow> ber_noticed us))"
  using contents wf
proof (induction ts arbitrary: found)
  case Nil
  then show ?case by (simp add: find_ber_loop_Nil)
next
  case (Cons t ts)
  have IH: "find_ber_loop (concat (map ber_bytes ts)) d f =
      Some (list_ex ber_element ts \<or> (case last_contents ts of None \<Rightarrow> f | Some us \<Rightarrow> ber_noticed us))" for f
    using Cons.prems by (intro Cons.IH) auto
  show ?case
  proof (cases t)
    case (Primitive tag c)
    with Cons.prems(2) show ?thesis by (simp add: find_ber_step IH)
  next
    case (Constructed tag indef us)
    show ?thesis
    proof (cases indef)
      case True
      with Constructed Cons.prems(2) show ?thesis using find_ber_loop_indefinite [of tag us] by simp
    next
      case False
      have c: "cbs_find_ber (concat (map ber_bytes us)) (Suc d) = Some (ber_noticed us)" if "\<not> is_string_type tag"
        using Cons.prems(1) [of tag us] that Constructed False by simp
      show ?thesis
        using Constructed False Cons.prems(2) c
        by (cases "is_string_type tag") (simp_all add: find_ber_step IH split: option.splits)
    qed
  qed
qed

lemma find_ber_noticed:
  "list_all (ber_wf 0 d) ts \<Longrightarrow> d \<le> kMaxDepth \<Longrightarrow> cbs_find_ber (concat (map ber_bytes ts)) d = Some (ber_noticed ts)"
proof (induction "size_list size ts" arbitrary: ts d rule: less_induct)
  case less
  have "cbs_find_ber (concat (map ber_bytes us)) (d + 1) = Some (ber_noticed us)"
    if "Constructed tag False us \<in> set ts" and "\<not> is_string_type tag" for tag us
  proof (rule less.hyps)
    show "size_list size us < size_list size ts" using size_list_estimation [OF that(1), of "size_list size us" size] by simp
    show "list_all (ber_wf 0 (d + 1)) us" and "d + 1 \<le> kMaxDepth"
      using less.prems(1) that by (auto simp: list_all_iff inner_string_tag_def)
  qed
  from find_ber_loop_noticed [OF this less.prems(1)] less.prems(2) show ?case
    by (simp add: find_ber_is_loop ber_noticed.simps [of ts])
qed

lemma ber_to_der_unnoticed:
  "list_all (ber_wf 0 0) ts \<Longrightarrow> \<not> ber_noticed ts \<Longrightarrow>
    CBS_asn1_ber_to_der m (concat (map ber_bytes ts)) = (Some None, concat (map ber_bytes ts))"
  using find_ber_noticed [of 0 ts] by (simp add: CBS_asn1_ber_to_der_def)






section \<open>Properties\<close>








text \<open>Input made of definite-length elements without constructed strings is left alone: the function returns no new buffer and the
  input as it was, without allocating.
\<close>

theorem ber_to_der_leaves_der:
  assumes "list_all (der_shaped 0) ts"
  shows "CBS_asn1_ber_to_der m (concat (map ber_bytes ts)) = (Some None, concat (map ber_bytes ts))"
  by (rule ber_to_der_unneeded [OF assms])

lemma ber_to_der_leaves_der_witness:
  "CBS_asn1_ber_to_der (\<lambda>_. None) (concat (map ber_bytes [Constructed 0x20000010 False [Primitive 2 [1]]])) =
     (Some None, concat (map ber_bytes [Constructed 0x20000010 False [Primitive 2 [1]]]))"
  by (rule ber_to_der_leaves_der)
    (simp add: is_string_type_def CBS_ASN1_CONSTRUCTED_def kMaxDepth_def asn1_tlv_def asn1_header_def
      asn1_identifier_def asn1_length_def CBS_ASN1_TAG_SHIFT_def CBS_ASN1_TAG_NUMBER_MASK_def)

text \<open>C40.
  A defect of the first walk.  Let the input be well-formed values none of which is BER itself, the last constructed one being a
  definite-length element in whose contents the walk notices nothing.  Then the conversion reports that no conversion is needed and
  returns the input as it is, whatever BER the earlier elements \<open>ts\<close> hold, at whatever depth: the call for the later element clears
  \<^verbatim>\<open>*ber_found\<close>, which the calls for the earlier ones had set.
\<close>

theorem ber_walk_forgets:
  assumes "list_all (ber_wf 0 0) (ts @ Constructed tag False us # ps)"
    and "\<not> list_ex ber_element ts" and "\<not> is_string_type tag" and "\<not> ber_noticed us"
    and "\<not> list_ex ber_element ps" and "last_contents ps = None"
  defines "inp \<equiv> concat (map ber_bytes (ts @ Constructed tag False us # ps))"
  shows "CBS_asn1_ber_to_der m inp = (Some None, inp)"
proof -
  have "\<not> ber_noticed (ts @ Constructed tag False us # ps)"
    using assms(2-6) by (subst ber_noticed.simps) (simp add: last_contents_append)
  with assms(1) show ?thesis unfolding inp_def by (rule ber_to_der_unnoticed)
qed

lemma ber_walk_forgets_witness:
  "CBS_asn1_ber_to_der zero_malloc [0x30, 4, 0x30, 0x80, 0, 0, 0x30, 0] = (Some None, [0x30, 4, 0x30, 0x80, 0, 0, 0x30, 0])"
  using ber_walk_forgets [of "[Constructed 0x20000010 False [Constructed 0x20000010 True []]]" "0x20000010" "[]" "[]" zero_malloc]
  by (simp add: ber_noticed.simps inner_string_tag_def is_string_type_def kMaxDepth_def CBS_ASN1_CONSTRUCTED_def asn1_tlv_def
      asn1_header_def asn1_identifier_def asn1_length_def CBS_ASN1_TAG_SHIFT_def CBS_ASN1_TAG_NUMBER_MASK_def)

end
