(* ===== verification/ConstTime.thy ===== *)
theory ConstTime
  imports Prelude
begin

text \<open>
  The constant-time primitives of \<^verbatim>\<open>BoringSSL/crypto/internal.h\<close> on a 64-bit \<^verbatim>\<open>crypto_word_t\<close>: masks
  that are all ones or zero, computed without branches, and what they compare.
\<close>

definition constant_time_msb_w :: "u64 \<Rightarrow> u64" where
  "constant_time_msb_w a = 0 - drop_bit 63 a"

definition constant_time_lt_w :: "u64 \<Rightarrow> u64 \<Rightarrow> u64" where
  "constant_time_lt_w a b = constant_time_msb_w (a XOR ((a XOR b) OR ((a - b) XOR a)))"

definition constant_time_ge_w :: "u64 \<Rightarrow> u64 \<Rightarrow> u64" where
  "constant_time_ge_w a b = NOT (constant_time_lt_w a b)"

definition constant_time_is_zero_w :: "u64 \<Rightarrow> u64" where
  "constant_time_is_zero_w a = constant_time_msb_w (NOT a AND (a - 1))"

definition constant_time_eq_w :: "u64 \<Rightarrow> u64 \<Rightarrow> u64" where
  "constant_time_eq_w a b = constant_time_is_zero_w (a XOR b)"

definition constant_time_eq_8 :: "u64 \<Rightarrow> u64 \<Rightarrow> u8" where
  "constant_time_eq_8 a b = ucast (constant_time_eq_w a b)"

text \<open>The variants with an 8-bit mask, and those on \<^verbatim>\<open>int\<close>, whose conversion to \<^verbatim>\<open>crypto_word_t\<close> extends the sign.\<close>

definition constant_time_lt_8 :: "u64 \<Rightarrow> u64 \<Rightarrow> u8" where
  "constant_time_lt_8 a b = ucast (constant_time_lt_w a b)"

definition constant_time_ge_8 :: "u64 \<Rightarrow> u64 \<Rightarrow> u8" where
  "constant_time_ge_8 a b = ucast (constant_time_ge_w a b)"

definition constant_time_is_zero_8 :: "u64 \<Rightarrow> u8" where
  "constant_time_is_zero_8 a = ucast (constant_time_is_zero_w a)"

definition constant_time_eq_int :: "u32 \<Rightarrow> u32 \<Rightarrow> u64" where
  "constant_time_eq_int a b = constant_time_eq_w (scast a) (scast b)"

definition constant_time_eq_int_8 :: "u32 \<Rightarrow> u32 \<Rightarrow> u8" where
  "constant_time_eq_int_8 a b = constant_time_eq_8 (scast a) (scast b)"

definition constant_time_select_w :: "u64 \<Rightarrow> u64 \<Rightarrow> u64 \<Rightarrow> u64" where
  "constant_time_select_w m a b = (m AND a) OR (NOT m AND b)"

definition constant_time_select_8 :: "u8 \<Rightarrow> u8 \<Rightarrow> u8 \<Rightarrow> u8" where
  "constant_time_select_8 m a b = ucast (constant_time_select_w (ucast m) (ucast a) (ucast b))"

definition constant_time_select_int :: "u64 \<Rightarrow> u32 \<Rightarrow> u32 \<Rightarrow> u32" where
  "constant_time_select_int m a b = ucast (constant_time_select_w m (scast a) (scast b))"

lemma drop_63: "drop_bit 63 (a::u64) = of_bool (bit a 63)"
proof (rule bit_word_eqI)
  fix n assume "n < LENGTH(64)"
  then show "bit (drop_bit 63 a) n = bit (of_bool (bit a 63) :: u64) n"
    by (cases n) (auto simp: bit_simps dest: bit_imp_le_length)
qed

lemma constant_time_msb_w_eq: "constant_time_msb_w a = (if bit a 63 then -1 else 0)"
  by (simp add: constant_time_msb_w_def drop_63)

lemma bit_63: "bit (a::u64) 63 \<longleftrightarrow> 2 ^ 63 \<le> unat a"
proof -
  have "drop_bit 63 a = 0 \<longleftrightarrow> unat a < 2 ^ 63" by (rule drop_bit_eq_0_unat)
  then show ?thesis by (auto simp: drop_63)
qed

lemma constant_time_lt_w_eq: "constant_time_lt_w a b = (if a < b then -1 else 0)"
proof -
  have sub: "unat (a - b) = (if unat b \<le> unat a then unat a - unat b else unat a + 2 ^ 64 - unat b)"
    by (simp add: unat_sub_if_size word_size)
  have "unat a < 2 ^ 64" "unat b < 2 ^ 64" using unsigned_less [of a] unsigned_less [of b] by simp_all
  then have "bit (a XOR ((a XOR b) OR ((a - b) XOR a))) 63 \<longleftrightarrow> a < b"
    unfolding bit_xor_iff bit_or_iff unfolding bit_63 sub word_less_nat_alt by auto
  then show ?thesis by (simp add: constant_time_lt_w_def constant_time_msb_w_eq)
qed

lemma constant_time_is_zero_w_eq: "constant_time_is_zero_w a = (if a = 0 then -1 else 0)"
proof (cases "a = 0")
  case False
  have "\<not> bit (NOT a AND (a - 1)) 63"
  proof
    assume "bit (NOT a AND (a - 1)) 63"
    then have "\<not> bit a 63" "bit (a - 1) 63" by (simp_all add: bit_and_iff bit_not_iff)
    then have "unat a < 2 ^ 63" "2 ^ 63 \<le> unat (a - 1)" by (simp_all add: bit_63)
    moreover have "unat (a - 1) = unat a - 1" using False by (simp add: unat_minus_one)
    ultimately show False by simp
  qed
  with False show ?thesis by (simp add: constant_time_is_zero_w_def constant_time_msb_w_eq)
qed (simp add: constant_time_is_zero_w_def constant_time_msb_w_eq bit_simps)

lemma xor_eq_0: "(a :: 'a::len word) XOR b = 0 \<longleftrightarrow> a = b"
  by (auto simp: bit_eq_iff bit_simps)

lemma constant_time_eq_w_eq: "constant_time_eq_w a b = (if a = b then -1 else 0)"
  by (simp add: constant_time_eq_w_def constant_time_is_zero_w_eq xor_eq_0)

lemma ff_u8: "(0xff :: u8) = -1"
  by simp

lemma ucast_minus_1_u8: "ucast (-1 :: u64) = (-1 :: u8)"
  by (rule bit_word_eqI) (simp add: bit_simps)

lemma constant_time_eq_8_eq: "constant_time_eq_8 a b = (if a = b then 0xff else 0)"
  by (simp add: constant_time_eq_8_def constant_time_eq_w_eq ff_u8 ucast_minus_1_u8)

lemma constant_time_select_w_eq:
  "constant_time_select_w (-1) a b = a" "constant_time_select_w 0 a b = b"
  by (simp_all add: constant_time_select_w_def)

lemma constant_time_select_8_eq [simp]:
  "constant_time_select_8 0xff a b = a" "constant_time_select_8 0 a b = b"
proof -
  show "constant_time_select_8 0xff a b = a"
    unfolding constant_time_select_8_def constant_time_select_w_def ff_u8
    by (rule bit_word_eqI) (auto simp: bit_simps)
  show "constant_time_select_8 0 a b = b"
    unfolding constant_time_select_8_def constant_time_select_w_def
    by (rule bit_word_eqI) (auto simp: bit_simps)
qed

lemma constant_time_8_eq:
  "constant_time_lt_8 a b = (if a < b then 0xff else 0)"
  "constant_time_ge_8 a b = (if b \<le> a then 0xff else 0)"
  "constant_time_is_zero_8 a = (if a = 0 then 0xff else 0)"
  by (auto simp: constant_time_lt_8_def constant_time_lt_w_eq constant_time_ge_8_def constant_time_ge_w_def
      constant_time_is_zero_8_def constant_time_is_zero_w_eq ff_u8 ucast_minus_1_u8 not_less)

lemma scast_u32_u64_eq: "(scast (a :: u32) :: u64) = scast b \<longleftrightarrow> a = b"
proof
  assume "(scast a :: u64) = scast b"
  then have "(ucast (scast a :: u64) :: u32) = ucast (scast b :: u64)" by simp
  moreover have "(ucast (scast x :: u64) :: u32) = x" for x :: u32
    by (rule bit_word_eqI) (auto simp: bit_simps)
  ultimately show "a = b" by simp
qed simp

lemma constant_time_int_eq:
  "constant_time_eq_int a b = (if a = b then -1 else 0)"
  "constant_time_eq_int_8 a b = (if a = b then 0xff else 0)"
  "constant_time_select_int (-1) a b = a"
  "constant_time_select_int 0 a b = b"
proof -
  have "(ucast (scast x :: u64) :: u32) = x" for x :: u32
    by (rule bit_word_eqI) (auto simp: bit_simps)
  then show "constant_time_eq_int a b = (if a = b then -1 else 0)"
    "constant_time_eq_int_8 a b = (if a = b then 0xff else 0)"
    "constant_time_select_int (-1) a b = a" "constant_time_select_int 0 a b = b"
    by (simp_all add: constant_time_eq_int_def constant_time_eq_w_eq scast_u32_u64_eq constant_time_eq_int_8_def
        constant_time_eq_8_eq constant_time_select_int_def constant_time_select_w_eq)
qed

section \<open>Properties\<close>

text \<open>The branch-free masks of \<^verbatim>\<open>internal.h\<close> are comparisons: \<^verbatim>\<open>constant_time_lt_w\<close>, \<^verbatim>\<open>_ge_w\<close>, \<^verbatim>\<open>_is_zero_w\<close> and \<^verbatim>\<open>_eq_w\<close> give all ones when the unsigned
  64-bit comparison holds and zero otherwise, and selecting by such a mask is a conditional.
\<close>

theorem constant_time_masks:
  "constant_time_select_w (constant_time_lt_w a b) x y = (if a < b then x else y) \<and>
   constant_time_select_w (constant_time_ge_w a b) x y = (if b \<le> a then x else y) \<and>
   constant_time_select_w (constant_time_is_zero_w a) x y = (if a = 0 then x else y) \<and>
   constant_time_select_w (constant_time_eq_w a b) x y = (if a = b then x else y) \<and>
   constant_time_select_int (constant_time_eq_int i j) p q = (if i = j then p else q)"
  by (auto simp: constant_time_lt_w_eq constant_time_ge_w_def constant_time_is_zero_w_eq constant_time_eq_w_eq
      constant_time_select_w_eq constant_time_int_eq not_less)

end
