(* ===== verification/Blocks.thy ===== *)
theory Blocks
  imports Prelude
begin

text \<open>
  The interface of buffering code: an operation takes input in pieces of any size, passes it on
  in blocks of \<open>n\<close>, and keeps what does not fill a block.  The locale \<open>block_stream\<close> states the law of
  one call; what a whole sequence of calls has passed on depends only on the whole input.
\<close>

section \<open>Splitting into blocks\<close>

function blocks :: "nat \<Rightarrow> 'a list \<Rightarrow> 'a list list" where
  "blocks n xs = (if n = 0 \<or> length xs < n then [] else take n xs # blocks n (drop n xs))"
  by auto
termination
  by (relation "measure (\<lambda>(n, xs). length xs)") auto

declare blocks.simps [simp del]

definition leftover :: "nat \<Rightarrow> 'a list \<Rightarrow> 'a list" where
  "leftover n xs = drop (length xs div n * n) xs"

lemma blocks_short [simp]: "length xs < n \<Longrightarrow> blocks n xs = []"
  by (simp add: blocks.simps)

lemma leftover_short [simp]: "length xs < n \<Longrightarrow> leftover n xs = xs"
  by (simp add: leftover_def)

lemma blocks_step: "0 < n \<Longrightarrow> n \<le> length xs \<Longrightarrow> blocks n xs = take n xs # blocks n (drop n xs)"
  by (subst blocks.simps) simp

lemma leftover_step:
  assumes "0 < n" and "n \<le> length xs"
  shows "leftover n xs = leftover n (drop n xs)"
proof -
  have "length xs div n = Suc ((length xs - n) div n)" using assms by (simp add: le_div_geq)
  then show ?thesis by (simp add: leftover_def add.commute)
qed

lemma length_leftover: "0 < n \<Longrightarrow> length (leftover n xs) = length xs mod n"
  by (simp add: leftover_def minus_div_mult_eq_mod)

lemma length_leftover_less: "0 < n \<Longrightarrow> length (leftover n xs) < n"
  by (simp add: length_leftover)

lemma blocks_append:
  assumes "0 < n"
  shows "blocks n (xs @ ys) = blocks n xs @ blocks n (leftover n xs @ ys)"
    and "leftover n (xs @ ys) = leftover n (leftover n xs @ ys)"
proof -
  have "blocks n (xs @ ys) = blocks n xs @ blocks n (leftover n xs @ ys) \<and>
    leftover n (xs @ ys) = leftover n (leftover n xs @ ys)"
  proof (induction "length xs" arbitrary: xs rule: less_induct)
    case less
    show ?case
    proof (cases "length xs < n")
      case False
      with less [of "drop n xs"] assms show ?thesis
        by (simp add: blocks_step [of n xs] blocks_step [of n "xs @ ys"] leftover_step [of n xs]
            leftover_step [of n "xs @ ys"])
    qed simp
  qed
  then show "blocks n (xs @ ys) = blocks n xs @ blocks n (leftover n xs @ ys)"
    and "leftover n (xs @ ys) = leftover n (leftover n xs @ ys)" by simp_all
qed

lemma blocks_leftover: "0 < n \<Longrightarrow> concat (blocks n xs) @ leftover n xs = xs"
proof (induction "length xs" arbitrary: xs rule: less_induct)
  case less
  show ?case
  proof (cases "length xs < n")
    case False
    with less(1) [of "drop n xs"] less(2) show ?thesis
      by (simp add: blocks_step [of n xs] leftover_step [of n xs])
  qed simp
qed

lemma length_blocks: "b \<in> set (blocks n xs) \<Longrightarrow> length b = n"
proof (induction n xs rule: blocks.induct)
  case (1 n xs)
  then show ?case by (cases "n = 0 \<or> length xs < n") (auto simp: blocks.simps [of n xs])
qed

lemma nth_blocks: "0 < n \<Longrightarrow> i < length xs div n \<Longrightarrow> blocks n xs ! i = take n (drop (n * i) xs)"
proof (induction i arbitrary: xs)
  case (Suc i)
  then have "n \<le> length xs" by (metis div_less not_le not_less_zero)
  then show ?case using Suc.IH [of "drop n xs"] Suc.prems by (simp add: blocks_step le_div_geq add.commute)
qed (metis blocks_step div_less drop0 mult_0_right not_le not_less_zero nth_Cons_0)

lemma length_blocks_list: "0 < n \<Longrightarrow> length (blocks n xs) = length xs div n"
proof (induction "length xs" arbitrary: xs rule: less_induct)
  case less
  then show ?case by (cases "length xs < n") (simp_all add: blocks_step le_div_geq)
qed

section \<open>Streams\<close>

text \<open>
  \<open>update s xs\<close> gives the output of one call and the new state; \<open>pending\<close> is the input kept in the state,
  and \<open>render\<close> the output for a block.  \<open>fits\<close> bounds the input of a call.
\<close>

locale block_stream =
  fixes update :: "'s \<Rightarrow> 'a list \<Rightarrow> 'b list \<times> 's"
    and render :: "'a list \<Rightarrow> 'b list"
    and pending :: "'s \<Rightarrow> 'a list"
    and ok :: "'s \<Rightarrow> bool"
    and fits :: "'a list \<Rightarrow> bool"
    and n :: nat
  assumes n_pos: "0 < n"
    and ok_pending: "ok s \<Longrightarrow> length (pending s) < n"
    and update_ok: "ok s \<Longrightarrow> fits xs \<Longrightarrow> ok (snd (update s xs))"
    and update_blocks: "ok s \<Longrightarrow> fits xs \<Longrightarrow>
      fst (update s xs) = concat (map render (blocks n (pending s @ xs)))"
    and update_pending: "ok s \<Longrightarrow> fits xs \<Longrightarrow> pending (snd (update s xs)) = leftover n (pending s @ xs)"

primrec updates :: "('s \<Rightarrow> 'a list \<Rightarrow> 'b list \<times> 's) \<Rightarrow> 's \<Rightarrow> 'a list list \<Rightarrow> 'b list \<times> 's" where
  "updates update s [] = ([], s)"
| "updates update s (xs # xss) =
     (case update s xs of (out, s) \<Rightarrow> case updates update s xss of (out', s) \<Rightarrow> (out @ out', s))"

context block_stream
begin

lemma updates_whole:
  assumes "ok s" and "list_all fits xss"
  shows "fst (updates update s xss) = concat (map render (blocks n (pending s @ concat xss)))"
    and "pending (snd (updates update s xss)) = leftover n (pending s @ concat xss)"
    and "ok (snd (updates update s xss))"
proof -
  have "fst (updates update s xss) = concat (map render (blocks n (pending s @ concat xss))) \<and>
    pending (snd (updates update s xss)) = leftover n (pending s @ concat xss) \<and>
    ok (snd (updates update s xss))"
    using assms
  proof (induction xss arbitrary: s)
    case Nil
    then show ?case using ok_pending by simp
  next
    case (Cons xs xss)
    obtain out s1 where u: "update s xs = (out, s1)" by (cases "update s xs")
    have fit: "fits xs" "list_all fits xss" using Cons.prems(2) by simp_all
    have ok1: "ok s1" using update_ok [OF Cons.prems(1) fit(1)] u by simp
    have p1: "pending s1 = leftover n (pending s @ xs)"
      and o: "out = concat (map render (blocks n (pending s @ xs)))"
      using update_pending [OF Cons.prems(1) fit(1)] update_blocks [OF Cons.prems(1) fit(1)] u by simp_all
    obtain out' s2 where us: "updates update s1 xss = (out', s2)" by (cases "updates update s1 xss")
    from Cons.IH [OF ok1 fit(2)] us p1 o u
    show ?case
      using blocks_append [OF n_pos, of "pending s @ xs" "concat xss"] by simp
  qed
  then show "fst (updates update s xss) = concat (map render (blocks n (pending s @ concat xss)))"
    and "pending (snd (updates update s xss)) = leftover n (pending s @ concat xss)"
    and "ok (snd (updates update s xss))" by simp_all
qed

text \<open>How the input is cut does not matter.\<close>

lemma updates_chunking:
  assumes "ok s" and "list_all fits xss" and "list_all fits yss" and "concat xss = concat yss"
  shows "fst (updates update s xss) = fst (updates update s yss)"
    and "pending (snd (updates update s xss)) = pending (snd (updates update s yss))"
  using updates_whole [OF assms(1,2)] updates_whole [OF assms(1,3)] assms(4) by simp_all

end

end
