(* ===== verification/Base64.thy ===== *)
theory Base64
  imports Mem ConstTime Blocks
begin

text \<open>
  \<^verbatim>\<open>BoringSSL/crypto/base64/base64.c\<close>: base64 in one call and in a stream.  Output is the list of bytes
  written behind the output pointer, without the NUL that \<^verbatim>\<open>EVP_EncodeBlock\<close> puts after it; buffers are
  large enough, as the functions demand of their callers.  Conversion of a byte is constant-time code
  in the source, so the tables of RFC 4648 are theorems.
\<close>

section \<open>Characters\<close>

definition constant_time_lt_args_8 :: "u8 \<Rightarrow> u8 \<Rightarrow> u8" where
  "constant_time_lt_args_8 a b =
     (let aw = ucast a; bw = ucast b in ucast (constant_time_msb_w (aw - bw)))"

definition constant_time_in_range_8 :: "u8 \<Rightarrow> u8 \<Rightarrow> u8 \<Rightarrow> u8" where
  "constant_time_in_range_8 a lo hi = constant_time_lt_args_8 (a - lo) (hi - lo + 1)"

definition conv_bin2ascii :: "u8 \<Rightarrow> u8" where
  "conv_bin2ascii a =
     (let a = a AND 0x3f;
          ret = constant_time_select_8 (constant_time_eq_8 (ucast a) 62) 0x2b 0x2f;
          ret = constant_time_select_8 (constant_time_lt_args_8 a 62) (a - 52 + 0x30) ret;
          ret = constant_time_select_8 (constant_time_lt_args_8 a 52) (a - 26 + 0x61) ret;
          ret = constant_time_select_8 (constant_time_lt_args_8 a 26) (a + 0x41) ret
      in ret)"

definition base64_ascii_to_bin :: "u8 \<Rightarrow> u8" where
  "base64_ascii_to_bin a =
     (let is_upper = constant_time_in_range_8 a 0x41 0x5a;
          is_lower = constant_time_in_range_8 a 0x61 0x7a;
          is_digit = constant_time_in_range_8 a 0x30 0x39;
          is_plus = constant_time_eq_8 (ucast a) 0x2b;
          is_slash = constant_time_eq_8 (ucast a) 0x2f;
          is_equals = constant_time_eq_8 (ucast a) 0x3d;
          ret = 0xff;
          ret = constant_time_select_8 is_upper (a - 0x41) ret;
          ret = constant_time_select_8 is_lower (a - 0x61 + 26) ret;
          ret = constant_time_select_8 is_digit (a - 0x30 + 52) ret;
          ret = constant_time_select_8 is_plus 62 ret;
          ret = constant_time_select_8 is_slash 63 ret;
          ret = constant_time_select_8 is_equals 0 ret
      in ret)"

section \<open>Encoding\<close>

definition EVP_EncodedLength :: "nat \<Rightarrow> nat option" where
  "EVP_EncodedLength len =
     (if size_add len 2 < len then None
      else let len = size_add len 2 div 3 in
        if size_mul len 4 div 4 \<noteq> len then None
        else let len = size_mul len 4 in
          if size_add len 1 < len then None else Some (size_add len 1))"

record EVP_ENCODE_CTX =
  data_used :: nat
  ctx_data :: bytes
  eof_seen :: bool
  error_encountered :: bool

definition EVP_EncodeInit :: EVP_ENCODE_CTX where
  "EVP_EncodeInit = \<lparr>data_used = 0, ctx_data = replicate 48 0, eof_seen = False, error_encountered = False\<rparr>"

fun EVP_EncodeBlock :: "bytes \<Rightarrow> bytes" where
  "EVP_EncodeBlock [] = []"
| "EVP_EncodeBlock [a] =
     (let l = push_bit 16 (ucast a) :: u32 in
      [conv_bin2ascii (ucast (drop_bit 18 l)), conv_bin2ascii (ucast (drop_bit 12 l)), 0x3d, 0x3d])"
| "EVP_EncodeBlock [a, b] =
     (let l = push_bit 16 (ucast a) OR push_bit 8 (ucast b) :: u32 in
      [conv_bin2ascii (ucast (drop_bit 18 l)), conv_bin2ascii (ucast (drop_bit 12 l)),
       conv_bin2ascii (ucast (drop_bit 6 l)), 0x3d])"
| "EVP_EncodeBlock (a # b # c # src) =
     (let l = push_bit 16 (ucast a) OR push_bit 8 (ucast b) OR ucast c :: u32 in
      conv_bin2ascii (ucast (drop_bit 18 l)) # conv_bin2ascii (ucast (drop_bit 12 l)) #
      conv_bin2ascii (ucast (drop_bit 6 l)) # conv_bin2ascii (ucast l) # EVP_EncodeBlock src)"

text \<open>
  The loop of \<^verbatim>\<open>EVP_EncodeUpdate\<close> over whole lines, with the count of bytes written so far; \<open>None\<close> is
  the early return when the count wraps.  The result has the input that is left.
\<close>

function encode_lines :: "bytes \<Rightarrow> nat \<Rightarrow> bytes \<Rightarrow> bytes \<times> (nat \<times> bytes) option" where
  "encode_lines out tot inp =
     (if length inp \<ge> 48 then
        (let encoded = EVP_EncodeBlock (take 48 inp); out = out @ encoded @ [0x0a];
             tot' = size_add (size_add tot (length encoded)) 1
         in if tot' < tot then (out, None)
            else encode_lines out tot' (drop 48 inp))
      else (out, Some (tot, inp)))"
  by auto
termination
  by (relation "measure (\<lambda>(out, tot, inp). length inp)") auto

declare encode_lines.simps [simp del]

text \<open>The bytes written, \<^verbatim>\<open>*out_len\<close> and the new context.\<close>

definition EVP_EncodeUpdate :: "EVP_ENCODE_CTX \<Rightarrow> bytes \<Rightarrow> bytes \<times> nat \<times> EVP_ENCODE_CTX" where
  "EVP_EncodeUpdate ctx inp =
     (if length inp = 0 then ([], 0, ctx)
      else if 48 - data_used ctx > length inp then
        ([], 0, ctx\<lparr>ctx_data := mem_write (ctx_data ctx) (data_used ctx) inp,
                    data_used := data_used ctx + length inp\<rparr>)
      else
        (case (if data_used ctx \<noteq> 0 then
                 (let todo = 48 - data_used ctx;
                      data = mem_write (ctx_data ctx) (data_used ctx) (take todo inp);
                      encoded = EVP_EncodeBlock data
                  in (encoded @ [0x0a], length encoded + 1, drop todo inp, ctx\<lparr>ctx_data := data, data_used := 0\<rparr>))
               else ([], 0, inp, ctx)) of
           (out, tot, inp, ctx) \<Rightarrow>
             (case encode_lines out tot inp of
                (out, None) \<Rightarrow> (out, 0, ctx)
              | (out, Some (tot, inp)) \<Rightarrow>
                  (out, if tot > 0x7fffffff then 0 else tot,
                   ctx\<lparr>ctx_data := mem_write (ctx_data ctx) 0 inp, data_used := length inp\<rparr>))))"

definition EVP_EncodeFinal :: "EVP_ENCODE_CTX \<Rightarrow> bytes \<times> nat \<times> EVP_ENCODE_CTX" where
  "EVP_EncodeFinal ctx =
     (if data_used ctx = 0 then ([], 0, ctx)
      else let encoded = EVP_EncodeBlock (take (data_used ctx) (ctx_data ctx)) @ [0x0a]
        in (encoded, length encoded, ctx\<lparr>data_used := 0\<rparr>))"

section \<open>Decoding\<close>

definition EVP_DecodedLength :: "nat \<Rightarrow> nat option" where
  "EVP_DecodedLength len = (if len mod 4 \<noteq> 0 then None else Some ((len div 4) * 3))"

definition EVP_DecodeInit :: EVP_ENCODE_CTX where
  "EVP_DecodeInit = \<lparr>data_used = 0, ctx_data = replicate 48 0, eof_seen = False, error_encountered = False\<rparr>"

text \<open>The one to three bytes of a quad.\<close>

definition base64_decode_quad :: "u8 \<Rightarrow> u8 \<Rightarrow> u8 \<Rightarrow> u8 \<Rightarrow> bytes option" where
  "base64_decode_quad in0 in1 in2 in3 =
     (let a = base64_ascii_to_bin in0; b = base64_ascii_to_bin in1;
          c = base64_ascii_to_bin in2; d = base64_ascii_to_bin in3
      in if a = 0xff \<or> b = 0xff \<or> c = 0xff \<or> d = 0xff then None
         else
           let v = push_bit 18 (ucast a) OR push_bit 12 (ucast b) OR push_bit 6 (ucast c) OR ucast d :: u32;
               padding_pattern = push_bit 3 (of_bool (in0 = 0x3d)) OR push_bit 2 (of_bool (in1 = 0x3d))
                 OR push_bit 1 (of_bool (in2 = 0x3d)) OR of_bool (in3 = 0x3d) :: u32
           in if padding_pattern = 0 then
                Some [ucast (drop_bit 16 v), ucast (drop_bit 8 v), ucast v]
              else if padding_pattern = 1 then Some [ucast (drop_bit 16 v), ucast (drop_bit 8 v)]
              else if padding_pattern = 3 then Some [ucast (drop_bit 16 v)]
              else None)"

definition base64_space :: "u8 \<Rightarrow> bool" where
  "base64_space c \<longleftrightarrow> c = 0x20 \<or> c = 0x09 \<or> c = 0x0d \<or> c = 0x0a"

text \<open>The loop of \<^verbatim>\<open>EVP_DecodeUpdate\<close>: whether it ran to the end, the bytes written and the context.\<close>

fun decode_chars :: "EVP_ENCODE_CTX \<Rightarrow> bytes \<Rightarrow> bytes \<Rightarrow> bool \<times> bytes \<times> EVP_ENCODE_CTX" where
  "decode_chars ctx out [] = (True, out, ctx)"
| "decode_chars ctx out (c # inp) =
     (if base64_space c then decode_chars ctx out inp
      else if eof_seen ctx then (False, out, ctx\<lparr>error_encountered := True\<rparr>)
      else
        let ctx = ctx\<lparr>ctx_data := (ctx_data ctx)[data_used ctx := c], data_used := data_used ctx + 1\<rparr> in
        if data_used ctx = 4 then
          (case base64_decode_quad (ctx_data ctx ! 0) (ctx_data ctx ! 1) (ctx_data ctx ! 2) (ctx_data ctx ! 3) of
             None \<Rightarrow> (False, out, ctx\<lparr>error_encountered := True\<rparr>)
           | Some bs \<Rightarrow>
               decode_chars (ctx\<lparr>data_used := 0, eof_seen := (length bs < 3 \<or> eof_seen ctx)\<rparr>) (out @ bs) inp)
        else decode_chars ctx out inp)"

text \<open>The return value, the bytes written, \<^verbatim>\<open>*out_len\<close> and the new context.\<close>

definition EVP_DecodeUpdate :: "EVP_ENCODE_CTX \<Rightarrow> bytes \<Rightarrow> int \<times> bytes \<times> nat \<times> EVP_ENCODE_CTX" where
  "EVP_DecodeUpdate ctx inp =
     (if error_encountered ctx then (-1, [], 0, ctx)
      else case decode_chars ctx [] inp of
          (False, out, ctx) \<Rightarrow> (-1, out, 0, ctx)
        | (True, out, ctx) \<Rightarrow>
            if length out > 0x7fffffff then (-1, out, 0, ctx\<lparr>error_encountered := True\<rparr>)
            else (if eof_seen ctx then 0 else 1, out, length out, ctx))"

definition EVP_DecodeFinal :: "EVP_ENCODE_CTX \<Rightarrow> int" where
  "EVP_DecodeFinal ctx = (if error_encountered ctx \<or> data_used ctx \<noteq> 0 then -1 else 1)"

fun decode_quads :: "bytes \<Rightarrow> bytes option" where
  "decode_quads (a # b # c # d # inp) =
     (case base64_decode_quad a b c d of
        None \<Rightarrow> None
      | Some bs \<Rightarrow>
          if length bs \<noteq> 3 \<and> inp \<noteq> [] then None
          else map_option ((@) bs) (decode_quads inp))"
| "decode_quads _ = Some []"

definition EVP_DecodeBase64 :: "nat \<Rightarrow> bytes \<Rightarrow> bytes option" where
  "EVP_DecodeBase64 max_out inp =
     (if length inp mod 4 \<noteq> 0 then None
      else case EVP_DecodedLength (length inp) of
          None \<Rightarrow> None
        | Some max_len \<Rightarrow> if max_out < max_len then None else decode_quads inp)"

text \<open>Leading blanks and trailing white space are trimmed; the output is filled up with zeros.\<close>

definition EVP_DecodeBlock :: "bytes \<Rightarrow> bytes option" where
  "EVP_DecodeBlock src =
     (let src = dropWhile (\<lambda>c. c = 0x20 \<or> c = 0x09) src;
          src = rev (dropWhile base64_space (rev src))
      in case EVP_DecodedLength (length src) of
          None \<Rightarrow> None
        | Some dst_len \<Rightarrow>
            if dst_len > 0x7fffffff then None
            else case EVP_DecodeBase64 dst_len src of
                None \<Rightarrow> None
              | Some out \<Rightarrow> Some (out @ replicate ((3 - length out mod 3) mod 3) 0))"

section \<open>The tables\<close>

lemma constant_time_lt_args_8_eq: "constant_time_lt_args_8 a b = (if a < b then 0xff else 0)"
proof -
  have u: "unat (ucast a :: u64) = unat a" "unat (ucast b :: u64) = unat b" by (simp_all add: unat_ucast_up)
  have "unat (ucast a - ucast b :: u64) = (if unat b \<le> unat a then unat a - unat b else unat a + 2 ^ 64 - unat b)"
    by (simp add: unat_sub_if_size word_size u)
  moreover have "unat a - unat b < 256" and "18446744073709551360 < unat a + 18446744073709551616 - unat b"
    using unat_less_256 [of a] unat_less_256 [of b] by linarith+
  ultimately have "bit (ucast a - ucast b :: u64) 63 \<longleftrightarrow> a < b"
    unfolding bit_63 word_less_nat_alt by (simp split: if_splits)
  then show ?thesis
    by (simp add: constant_time_lt_args_8_def Let_def constant_time_msb_w_eq ucast_minus_1_u8 ff_u8)
qed

lemma ucast_u8_u64_eq [simp]: "(ucast (a :: u8) :: u64) = ucast b \<longleftrightarrow> a = b"
  by (auto simp: word_unat_eq_iff unat_ucast_up)

lemma constant_time_eq_8_numeral:
  "numeral k = (ucast (numeral k :: u8) :: u64) \<Longrightarrow>
    constant_time_eq_8 (ucast (a :: u8)) (numeral k) = (if a = numeral k then 0xff else 0)"
  by (simp only: constant_time_eq_8_eq ucast_u8_u64_eq)

text \<open>The alphabet of RFC 4648.\<close>

definition base64_alphabet :: "u8 \<Rightarrow> u8" where
  "base64_alphabet a =
     (if a < 26 then a + 0x41 else if a < 52 then a - 26 + 0x61 else if a < 62 then a - 52 + 0x30
      else if a = 62 then 0x2b else 0x2f)"

lemma conv_bin2ascii_eq: "conv_bin2ascii a = base64_alphabet (a AND 0x3f)"
proof -
  have "constant_time_eq_8 (ucast x) 62 = (if x = 62 then 0xff else 0)" for x :: u8
    by (rule constant_time_eq_8_numeral) simp
  then show ?thesis
    by (simp add: conv_bin2ascii_def base64_alphabet_def Let_def constant_time_lt_args_8_eq)
qed

lemma base64_ascii_to_bin_eq:
  "base64_ascii_to_bin a =
     (if a = 0x3d then 0 else if a = 0x2f then 63 else if a = 0x2b then 62
      else if 0x30 \<le> a \<and> a \<le> 0x39 then a - 0x30 + 52
      else if 0x61 \<le> a \<and> a \<le> 0x7a then a - 0x61 + 26
      else if 0x41 \<le> a \<and> a \<le> 0x5a then a - 0x41 else 0xff)"
proof -
  have eq: "constant_time_eq_8 (ucast a) 0x2b = (if a = 0x2b then 0xff else 0)"
    "constant_time_eq_8 (ucast a) 0x2f = (if a = 0x2f then 0xff else 0)"
    "constant_time_eq_8 (ucast a) 0x3d = (if a = 0x3d then 0xff else 0)"
    by (rule constant_time_eq_8_numeral; simp)+
  have range: "constant_time_in_range_8 a lo hi = (if lo \<le> a \<and> a \<le> hi then 0xff else 0)"
    if "lo \<le> hi" "hi < 0xff" for lo hi :: u8
  proof -
    have "unat (hi - lo + 1) = unat hi - unat lo + 1"
      using that by (simp add: word_le_nat_alt word_less_nat_alt unat_plus_if' unat_sub)
    moreover have "unat (a - lo) = (if unat lo \<le> unat a then unat a - unat lo else unat a + 256 - unat lo)"
      by (simp add: unat_sub_if_size word_size)
    ultimately have "a - lo < hi - lo + 1 \<longleftrightarrow> lo \<le> a \<and> a \<le> hi"
      using that unat_less_256 [of a] unat_less_256 [of lo] by (auto simp: word_le_nat_alt word_less_nat_alt)
    then show ?thesis by (simp add: constant_time_in_range_8_def constant_time_lt_args_8_eq)
  qed
  show ?thesis by (simp add: base64_ascii_to_bin_def Let_def eq range)
qed

lemma alphabet_cases:
  "list_all (\<lambda>n. let a = of_nat n :: u8; c = base64_alphabet a in
     base64_ascii_to_bin c = a \<and> c \<noteq> 0x3d \<and> \<not> base64_space c) [0..<64]"
  unfolding base64_ascii_to_bin_eq base64_space_def base64_alphabet_def by code_simp

lemma base64_alphabet_inverse:
  assumes "unat a < 64"
  shows "base64_ascii_to_bin (base64_alphabet a) = a" and "base64_alphabet a \<noteq> 0x3d"
    and "\<not> base64_space (base64_alphabet a)"
proof -
  have "unat a \<in> set [0..<64]" using assms by simp
  from bspec [OF alphabet_cases [unfolded list_all_iff] this]
  show "base64_ascii_to_bin (base64_alphabet a) = a" and "base64_alphabet a \<noteq> 0x3d"
    and "\<not> base64_space (base64_alphabet a)"
    by (simp_all add: Let_def)
qed

section \<open>Quads\<close>

lemma and_3f_less: "unat ((x :: u8) AND 0x3f) < 64"
proof -
  have "x AND 0x3f = x AND mask 6" by (simp add: mask_eq_exp_minus_1)
  then show ?thesis using unat_and_mask_less [of x 6] by simp
qed

lemma base64_bin_ascii: "base64_ascii_to_bin (conv_bin2ascii x) = x AND 0x3f"
  and conv_not_equals: "conv_bin2ascii x \<noteq> 0x3d"
  and conv_not_space: "\<not> base64_space (conv_bin2ascii x)"
  using base64_alphabet_inverse [OF and_3f_less [of x]] by (simp_all add: conv_bin2ascii_eq)

lemma and_3f_not_ff: "(x :: u8) AND 0x3f \<noteq> 0xff"
  using and_3f_less [of x] by auto

lemma equals_to_bin: "base64_ascii_to_bin 0x3d = 0"
  by (simp add: base64_ascii_to_bin_eq)

text \<open>A sextet of a 24-bit group, and the group put together again.\<close>

definition sextet :: "u32 \<Rightarrow> nat \<Rightarrow> u8" where
  "sextet l n = ucast (drop_bit n l) AND 0x3f"

lemma bit_sextet: "bit (ucast (sextet l n) :: u32) i \<longleftrightarrow> i < 6 \<and> bit l (n + i)"
proof -
  have "sextet l n = ucast (drop_bit n l) AND mask 6" by (simp add: sextet_def mask_eq_exp_minus_1)
  then show ?thesis by (auto simp: bit_simps)
qed

lemma sextets_group:
  assumes "unat l < 2 ^ 24"
  shows "push_bit 18 (ucast (sextet l 18)) OR push_bit 12 (ucast (sextet l 12)) OR
    push_bit 6 (ucast (sextet l 6)) OR ucast (sextet l 0) = l" (is "?v = l")
proof (rule bit_word_eqI)
  fix i assume "i < LENGTH(32)"
  have "drop_bit 24 l = 0" using assms by (simp add: drop_bit_eq_0_unat)
  then have hi: "\<not> bit l i" if "24 \<le> i" 
  proof -
    have "\<not> bit (drop_bit 24 l) (i - 24)" using \<open>drop_bit 24 l = 0\<close> by simp
    with that show ?thesis by (simp add: bit_simps)
  qed
  consider "i < 6" | "6 \<le> i" "i < 12" | "12 \<le> i" "i < 18" | "18 \<le> i" "i < 24" | "24 \<le> i" by linarith
  then show "bit ?v i = bit l i"
    by cases (auto simp: bit_or_iff bit_push_bit_iff bit_sextet hi dest: bit_imp_le_length)
qed

lemma sextet_0: "unat l mod 2 ^ k = 0 \<Longrightarrow> n + 6 \<le> k \<Longrightarrow> sextet l n = 0"
proof -
  assume l: "unat l mod 2 ^ k = 0" and n: "n + 6 \<le> k"
  have "unat (take_bit k l) = 0" using l by (subst unsigned_take_bit_eq) (simp add: take_bit_eq_mod)
  then have "take_bit k l = 0" by (simp add: unat_eq_zero)
  then have "\<not> bit (take_bit k l) (n + i)" for i by simp
  then have "\<not> bit l (n + i)" if "i < 6" for i using that n by (auto simp: bit_take_bit_iff)
  then have "\<not> bit (ucast (sextet l n) :: u32) i" for i by (simp add: bit_sextet)
  then have "(ucast (sextet l n) :: u32) = 0" by (simp add: bit_eq_iff)
  then show "sextet l n = 0" by (simp add: word_unat_eq_iff unat_ucast_up)
qed

lemma decode_quad_bins:
  assumes "base64_ascii_to_bin a = sextet l 18" and "base64_ascii_to_bin b = sextet l 12"
    and "base64_ascii_to_bin c = sextet l 6" and "base64_ascii_to_bin d = sextet l 0"
    and "unat l < 2 ^ 24" and "a \<noteq> 0x3d" and "b \<noteq> 0x3d"
  shows "c \<noteq> 0x3d \<Longrightarrow> d \<noteq> 0x3d \<Longrightarrow>
      base64_decode_quad a b c d = Some [ucast (drop_bit 16 l), ucast (drop_bit 8 l), ucast l]"
    and "c \<noteq> 0x3d \<Longrightarrow> d = 0x3d \<Longrightarrow> base64_decode_quad a b c d = Some [ucast (drop_bit 16 l), ucast (drop_bit 8 l)]"
    and "c = 0x3d \<Longrightarrow> d = 0x3d \<Longrightarrow> base64_decode_quad a b c d = Some [ucast (drop_bit 16 l)]"
proof -
  have nf: "sextet l n \<noteq> 0xff" for n unfolding sextet_def by (rule and_3f_not_ff)
  have v: "base64_decode_quad a b c d = (let p = push_bit 1 (of_bool (c = 0x3d)) OR of_bool (d = 0x3d) :: u32
    in if p = 0 then Some [ucast (drop_bit 16 l), ucast (drop_bit 8 l), ucast l]
       else if p = 1 then Some [ucast (drop_bit 16 l), ucast (drop_bit 8 l)]
       else if p = 3 then Some [ucast (drop_bit 16 l)] else None)"
    by (simp only: base64_decode_quad_def assms(1-4) Let_def nf sextets_group [OF assms(5)]) (simp add: assms(6,7))
  show "base64_decode_quad a b c d = Some [ucast (drop_bit 16 l), ucast (drop_bit 8 l), ucast l]"
    if "c \<noteq> 0x3d" "d \<noteq> 0x3d" unfolding v using that by (simp add: Let_def)
  show "base64_decode_quad a b c d = Some [ucast (drop_bit 16 l), ucast (drop_bit 8 l)]"
    if "c \<noteq> 0x3d" "d = 0x3d" unfolding v using that by (simp add: Let_def)
  show "base64_decode_quad a b c d = Some [ucast (drop_bit 16 l)]"
    if "c = 0x3d" "d = 0x3d" unfolding v using that by (simp add: Let_def)
qed

lemma bin_sextet: "base64_ascii_to_bin (conv_bin2ascii (ucast (drop_bit n l))) = sextet l n"
  by (simp add: base64_bin_ascii sextet_def)

text \<open>The 24-bit group of three bytes.\<close>

definition group24 :: "u8 \<Rightarrow> u8 \<Rightarrow> u8 \<Rightarrow> u32" where
  "group24 a b c = push_bit 16 (ucast a) OR push_bit 8 (ucast b) OR ucast c"

lemma bit_group24:
  "bit (group24 a b c) i \<longleftrightarrow> (16 \<le> i \<and> i < 24 \<and> bit a (i - 16)) \<or> (8 \<le> i \<and> i < 16 \<and> bit b (i - 8)) \<or> bit c i"
  by (auto simp: group24_def bit_simps dest: bit_imp_le_length)

lemma group24_bytes:
  "ucast (drop_bit 16 (group24 a b c)) = a" "ucast (drop_bit 8 (group24 a b c)) = b" "ucast (group24 a b c) = c"
  by (rule bit_word_eqI; auto simp: bit_ucast_iff bit_drop_bit_eq bit_group24 dest: bit_imp_le_length)+

lemma unat_group24: "unat (group24 a b c) = unat a * 2 ^ 16 + unat b * 2 ^ 8 + unat c"
proof -
  have "group24 a b c = be_loop 0 [a, b, c]"
    by (rule bit_word_eqI) (auto simp: group24_def bit_simps)
  moreover have "unat (be_loop 0 [a, b, c] :: u32) = be_nat [a, b, c]" by (rule unat_be_loop) simp
  ultimately show ?thesis by simp
qed

section \<open>One-shot encoding and decoding\<close>

lemma length_EncodeBlock: "length (EVP_EncodeBlock xs) = 4 * ((length xs + 2) div 3)"
proof (induction xs rule: EVP_EncodeBlock.induct)
  case (4 a b c src)
  have "(length (a # b # c # src) + 2) div 3 = (length src + 2) div 3 + 1" by simp
  with 4 show ?case by (simp add: Let_def)
qed (simp_all add: Let_def)

lemma EncodeBlock_group:
  "EVP_EncodeBlock (a # b # c # src) =
     conv_bin2ascii (ucast (drop_bit 18 (group24 a b c))) # conv_bin2ascii (ucast (drop_bit 12 (group24 a b c))) #
     conv_bin2ascii (ucast (drop_bit 6 (group24 a b c))) # conv_bin2ascii (ucast (drop_bit 0 (group24 a b c))) #
     EVP_EncodeBlock src"
  "EVP_EncodeBlock [a, b] =
     [conv_bin2ascii (ucast (drop_bit 18 (group24 a b 0))), conv_bin2ascii (ucast (drop_bit 12 (group24 a b 0))),
      conv_bin2ascii (ucast (drop_bit 6 (group24 a b 0))), 0x3d]"
  "EVP_EncodeBlock [a] =
     [conv_bin2ascii (ucast (drop_bit 18 (group24 a 0 0))), conv_bin2ascii (ucast (drop_bit 12 (group24 a 0 0))),
      0x3d, 0x3d]"
  by (simp_all add: group24_def Let_def)

lemma group24_less: "unat (group24 a b c) < 2 ^ 24"
proof -
  have "unat a * 65536 + unat b * 256 + unat c < 16777216"
    using unat_less_256 [of a] unat_less_256 [of b] unat_less_256 [of c] by linarith
  then show ?thesis by (simp add: unat_group24)
qed

lemma decode_group:
  defines "q l n \<equiv> conv_bin2ascii (ucast (drop_bit n l))"
  shows "base64_decode_quad (q (group24 a b c) 18) (q (group24 a b c) 12) (q (group24 a b c) 6)
      (q (group24 a b c) 0) = Some [a, b, c]"
    and "base64_decode_quad (q (group24 a b 0) 18) (q (group24 a b 0) 12) (q (group24 a b 0) 6) 0x3d = Some [a, b]"
    and "base64_decode_quad (q (group24 a 0 0) 18) (q (group24 a 0 0) 12) 0x3d 0x3d = Some [a]"
proof -
  have q: "base64_ascii_to_bin (q l n) = sextet l n" "q l n \<noteq> 0x3d" for l n
    unfolding q_def by (rule bin_sextet, rule conv_not_equals)
  show "base64_decode_quad (q (group24 a b c) 18) (q (group24 a b c) 12) (q (group24 a b c) 6)
      (q (group24 a b c) 0) = Some [a, b, c]"
    using decode_quad_bins(1) [OF q(1) q(1) q(1) q(1) group24_less q(2) q(2) q(2) q(2), of a b c]
    by (simp only: group24_bytes)
  have "sextet (group24 a b 0) 0 = 0" by (rule sextet_0 [of _ 8]) (simp_all add: unat_group24)
  then have e: "base64_ascii_to_bin 0x3d = sextet (group24 a b 0) 0" by (simp add: equals_to_bin)
  show "base64_decode_quad (q (group24 a b 0) 18) (q (group24 a b 0) 12) (q (group24 a b 0) 6) 0x3d = Some [a, b]"
    using decode_quad_bins(2) [OF q(1) q(1) q(1) e group24_less q(2) q(2) q(2) refl]
    by (simp only: group24_bytes)
  have "sextet (group24 a 0 0) n = 0" if "n \<le> 6" for n
    by (rule sextet_0 [of _ 16]) (use that in \<open>simp_all add: unat_group24\<close>)
  then have e: "base64_ascii_to_bin 0x3d = sextet (group24 a 0 0) 6" "base64_ascii_to_bin 0x3d = sextet (group24 a 0 0) 0"
    by (simp_all add: equals_to_bin)
  show "base64_decode_quad (q (group24 a 0 0) 18) (q (group24 a 0 0) 12) 0x3d 0x3d = Some [a]"
    using decode_quad_bins(3) [OF q(1) q(1) e(1) e(2) group24_less q(2) q(2) refl refl]
    by (simp only: group24_bytes)
qed

lemma decode_quads_EncodeBlock: "decode_quads (EVP_EncodeBlock xs) = Some xs"
proof (induction xs rule: EVP_EncodeBlock.induct)
  case (4 a b c src)
  then show ?case by (simp only: EncodeBlock_group decode_quads.simps decode_group) simp
qed (simp_all add: EncodeBlock_group decode_group del: EVP_EncodeBlock.simps(2,3))

lemma DecodeBase64_EncodeBlock:
  "length xs + 2 \<le> max_out \<Longrightarrow> EVP_DecodeBase64 max_out (EVP_EncodeBlock xs) = Some xs"
proof -
  assume m: "length xs + 2 \<le> max_out"
  have "(length xs + 2) div 3 * 3 \<le> length xs + 2" by simp
  with m have "\<not> max_out < (length xs + 2) div 3 * 3" by linarith
  then show ?thesis
    by (simp add: EVP_DecodeBase64_def EVP_DecodedLength_def length_EncodeBlock decode_quads_EncodeBlock)
qed

lemma EncodedLength_eq:
  assumes "length xs < 2 ^ 64"
  shows "EVP_EncodedLength (length xs) =
    (if length (EVP_EncodeBlock xs) + 1 < 2 ^ 64 then Some (length (EVP_EncodeBlock xs) + 1) else None)"
proof -
  define k where "k = (length xs + 2) div 3"
  have enc: "length (EVP_EncodeBlock xs) = k * 4" by (simp add: length_EncodeBlock k_def)
  have mul: "size_mul k 4 div 4 = k \<longleftrightarrow> k * 4 < 2 ^ 64"
  proof
    assume *: "size_mul k 4 div 4 = k"
    have "size_mul k 4 < 2 ^ 64" by (simp add: size_mul_def)
    then have "size_mul k 4 div 4 < 2 ^ 62" by (simp add: div_less_iff_less_mult)
    then show "k * 4 < 2 ^ 64" by (simp add: *)
  qed (simp add: size_mul_def)
  show ?thesis
  proof (cases "length xs + 2 < 2 ^ 64")
    case True
    then have "size_add (length xs) 2 = length xs + 2" by (rule size_add_no_wrap)
    then have add: "size_add (length xs) 2 div 3 = k" "\<not> size_add (length xs) 2 < length xs"
      by (simp_all add: k_def)
    show ?thesis
    proof (cases "k * 4 < 2 ^ 64")
      case lt: True
      then have m: "size_mul k 4 = k * 4" by (simp add: size_mul_def)
      have "k < 4611686018427387904" using lt by simp
      then have "k * 4 + 1 < 18446744073709551616" by linarith
      then have "k * 4 + 1 < 2 ^ 64" by simp
      moreover from this have "size_add (k * 4) 1 = k * 4 + 1" by (rule size_add_no_wrap)
      ultimately show ?thesis
        using mul lt m by (simp add: EVP_EncodedLength_def Let_def add enc)
    next
      case False
      then show ?thesis
        using mul by (simp add: EVP_EncodedLength_def Let_def add enc)
    qed
  next
    case False
    have "(2::nat) < 2 ^ 64" by simp
    with False have "size_add (length xs) 2 < length xs" using size_add_wraps [OF assms] by simp
    moreover have "2 ^ 64 div 3 \<le> k" unfolding k_def using False by (intro div_le_mono) simp
    then have "\<not> length (EVP_EncodeBlock xs) + 1 < 2 ^ 64" by (simp add: enc)
    ultimately show ?thesis by (simp add: EVP_EncodedLength_def)
  qed
qed

section \<open>Streaming encoder\<close>

text \<open>One line of output, and the state invariant.\<close>

definition encode_line :: "bytes \<Rightarrow> bytes" where
  "encode_line l = EVP_EncodeBlock l @ [0x0a]"

definition encode_ctx_ok :: "EVP_ENCODE_CTX \<Rightarrow> bool" where
  "encode_ctx_ok ctx \<longleftrightarrow> data_used ctx < 48 \<and> length (ctx_data ctx) = 48"

definition encode_pending :: "EVP_ENCODE_CTX \<Rightarrow> bytes" where
  "encode_pending ctx = take (data_used ctx) (ctx_data ctx)"

lemma length_encode_line: "length l = 48 \<Longrightarrow> length (encode_line l) = 65"
  by (simp add: encode_line_def length_EncodeBlock)

lemma encode_lines_eq:
  "tot + 2 * length inp + 65 < 2 ^ 64 \<Longrightarrow>
    \<exists>t. encode_lines out tot inp = (out @ concat (map encode_line (blocks 48 inp)), Some (t, leftover 48 inp))
      \<and> t = tot + length (concat (map encode_line (blocks 48 inp)))"
proof (induction out tot inp rule: encode_lines.induct)
  case (1 out tot inp)
  show ?case
  proof (cases "48 \<le> length inp")
    case False
    then show ?thesis by (subst encode_lines.simps) simp
  next
    case True
    define line where "line = encode_line (take 48 inp)"
    let ?enc = "EVP_EncodeBlock (take 48 inp)"
    have len: "length ?enc = 64" using True by (simp add: length_EncodeBlock)
    have add: "size_add (size_add tot (length ?enc)) 1 = tot + 65"
      using "1.prems" True by (simp add: len size_add_def)
    have line: "?enc @ [0x0a] = line" "length line = 65"
      using len by (simp_all add: line_def encode_line_def)
    have "tot + 65 + 2 * length (drop 48 inp) + 65 < 2 ^ 64" using "1.prems" True by simp
    then have fit: "size_add (size_add tot (length ?enc)) 1 + 2 * length (drop 48 inp) + 65 < 2 ^ 64"
      by (simp only: add)
    have more_room: "tot + 65 \<ge> tot" by simp
    from 1(1) [OF True refl refl refl _ fit] add
    have IH: "encode_lines (out @ line) (tot + 65) (drop 48 inp) =
        (out @ line @ concat (map encode_line (blocks 48 (drop 48 inp))),
         Some (tot + 65 + length (concat (map encode_line (blocks 48 (drop 48 inp)))), leftover 48 (drop 48 inp)))"
      by (simp add: line [simplified])
    show ?thesis
      by (subst encode_lines.simps)
        (simp only: True if_True Let_def add line IH blocks_step [of 48 inp] leftover_step [of 48 inp],
          simp add: line(2) line_def [symmetric])
  qed
qed

lemma EncodeUpdate_eq:
  assumes ok: "encode_ctx_ok ctx" and fits: "length inp < 2 ^ 62"
  defines "xs \<equiv> encode_pending ctx @ inp"
  shows "fst (EVP_EncodeUpdate ctx inp) = concat (map encode_line (blocks 48 xs))"
    and "encode_pending (snd (snd (EVP_EncodeUpdate ctx inp))) = leftover 48 xs"
    and "encode_ctx_ok (snd (snd (EVP_EncodeUpdate ctx inp)))"
    and "length (fst (EVP_EncodeUpdate ctx inp)) \<le> 0x7fffffff \<Longrightarrow>
      fst (snd (EVP_EncodeUpdate ctx inp)) = length (fst (EVP_EncodeUpdate ctx inp))"
proof -
  have used: "data_used ctx < 48" "length (ctx_data ctx) = 48" using ok by (simp_all add: encode_ctx_ok_def)
  have lp: "length (encode_pending ctx) = data_used ctx" using used by (simp add: encode_pending_def)
  have "fst (EVP_EncodeUpdate ctx inp) = concat (map encode_line (blocks 48 xs)) \<and>
    encode_pending (snd (snd (EVP_EncodeUpdate ctx inp))) = leftover 48 xs \<and>
    encode_ctx_ok (snd (snd (EVP_EncodeUpdate ctx inp))) \<and>
    (length (fst (EVP_EncodeUpdate ctx inp)) \<le> 0x7fffffff \<longrightarrow>
      fst (snd (EVP_EncodeUpdate ctx inp)) = length (fst (EVP_EncodeUpdate ctx inp)))"
  proof (cases "length inp < 48 - data_used ctx")
    case short: True
    then have "length xs < 48" using lp used by (simp add: xs_def)
    moreover have "encode_pending (ctx\<lparr>ctx_data := mem_write (ctx_data ctx) (data_used ctx) inp,
        data_used := data_used ctx + length inp\<rparr>) = xs"
      using used by (simp add: encode_pending_def xs_def)
    ultimately show ?thesis
      using short used ok lp
      by (auto simp: EVP_EncodeUpdate_def xs_def encode_ctx_ok_def length_mem_write)
  next
    case long: False
    define todo where "todo = 48 - data_used ctx"
    define ctx1 where "ctx1 = (if data_used ctx \<noteq> 0 then ctx\<lparr>ctx_data :=
      mem_write (ctx_data ctx) (data_used ctx) (take todo inp), data_used := 0\<rparr> else ctx)"
    define head where "head = (if data_used ctx \<noteq> 0 then encode_line (take 48 xs) else [])"
    define inp1 where "inp1 = (if data_used ctx \<noteq> 0 then drop todo inp else inp)"
    have todo: "data_used ctx + todo = 48" "todo \<le> length inp" using used long by (simp_all add: todo_def)
    have full: "take 48 xs = encode_pending ctx @ take todo inp" and rest: "drop 48 xs = drop todo inp"
      using lp used by (simp_all add: xs_def todo_def)
    have "mem_write (ctx_data ctx) (data_used ctx) (take todo inp) = take 48 xs"
      using used todo by (simp add: full mem_write_def encode_pending_def)
    then have start: "(if data_used ctx \<noteq> 0 then
        (let todo = 48 - data_used ctx;
             data = mem_write (ctx_data ctx) (data_used ctx) (take todo inp);
             encoded = EVP_EncodeBlock data
         in (encoded @ [0x0a], length encoded + 1, drop todo inp, ctx\<lparr>ctx_data := data, data_used := 0\<rparr>))
      else ([], 0, inp, ctx)) = (head, length head, inp1, ctx1)"
      by (simp add: head_def inp1_def ctx1_def todo_def [symmetric] Let_def encode_line_def)
    have lx: "48 \<le> length xs" using lp todo by (simp add: xs_def)
    have lh: "length head \<le> 65" using lx by (simp add: head_def length_encode_line)
    have split: "concat (map encode_line (blocks 48 xs)) = head @ concat (map encode_line (blocks 48 inp1))"
      "leftover 48 xs = leftover 48 inp1"
      using blocks_step [of 48 xs] leftover_step [of 48 xs] lx rest
      by (auto simp: head_def inp1_def xs_def encode_pending_def)
    have "length head + 2 * length inp1 + 65 < 2 ^ 64"
      using lh fits by (simp add: inp1_def) linarith
    from encode_lines_eq [OF this, of head]
    have lines: "encode_lines head (length head) inp1 = (concat (map encode_line (blocks 48 xs)),
        Some (length (concat (map encode_line (blocks 48 xs))), leftover 48 xs))"
      by (simp add: split)
    have lo: "length (leftover 48 xs) < 48" by (simp add: length_leftover_less)
    have c1: "length (ctx_data ctx1) = 48" using used todo by (simp add: ctx1_def length_mem_write)
    have ne: "length inp \<noteq> 0" using long used by auto
    have up: "EVP_EncodeUpdate ctx inp = (concat (map encode_line (blocks 48 xs)),
        if length (concat (map encode_line (blocks 48 xs))) > 0x7fffffff then 0
        else length (concat (map encode_line (blocks 48 xs))),
        ctx1\<lparr>ctx_data := mem_write (ctx_data ctx1) 0 (leftover 48 xs), data_used := length (leftover 48 xs)\<rparr>)"
      using long ne by (simp only: EVP_EncodeUpdate_def start) (simp add: lines)
    show ?thesis
      using lo c1 by (simp add: up encode_pending_def encode_ctx_ok_def length_mem_write mem_write_def)
  qed
  then show "fst (EVP_EncodeUpdate ctx inp) = concat (map encode_line (blocks 48 xs))"
    and "encode_pending (snd (snd (EVP_EncodeUpdate ctx inp))) = leftover 48 xs"
    and "encode_ctx_ok (snd (snd (EVP_EncodeUpdate ctx inp)))"
    and "length (fst (EVP_EncodeUpdate ctx inp)) \<le> 0x7fffffff \<Longrightarrow>
      fst (snd (EVP_EncodeUpdate ctx inp)) = length (fst (EVP_EncodeUpdate ctx inp))" by blast+
qed

text \<open>
  What a caller has of a call: the first \<^verbatim>\<open>*out_len\<close> bytes at \<^verbatim>\<open>out\<close>.  A call that writes more text than an
  \<^verbatim>\<open>int\<close> can count sets \<^verbatim>\<open>*out_len\<close> to zero; up to \<open>encode_call_max\<close> bytes of input there is no such text,
  whatever the context has kept from before.
\<close>

definition encode_update :: "EVP_ENCODE_CTX \<Rightarrow> bytes \<Rightarrow> bytes \<times> EVP_ENCODE_CTX" where
  "encode_update ctx inp = (case EVP_EncodeUpdate ctx inp of (out, out_len, ctx) \<Rightarrow> (take out_len out, ctx))"

definition encode_call_max :: nat where
  "encode_call_max = 1585834032"

lemma encode_call_fits:
  assumes "encode_ctx_ok ctx" and "length inp \<le> encode_call_max"
  shows "length (concat (map encode_line (blocks 48 (encode_pending ctx @ inp)))) \<le> 0x7fffffff"
proof -
  let ?xs = "encode_pending ctx @ inp"
  have lines: "length (concat (map encode_line bs)) = 65 * length bs" if "\<forall>b\<in>set bs. length b = 48" for bs
    using that by (induction bs) (simp_all add: length_encode_line)
  have "\<forall>b\<in>set (blocks 48 ?xs). length b = 48" using length_blocks by blast
  then have "length (concat (map encode_line (blocks 48 ?xs))) = 65 * length (blocks 48 ?xs)" by (rule lines)
  also have "length (blocks 48 ?xs) = length ?xs div 48" by (rule length_blocks_list) simp
  finally have "length (concat (map encode_line (blocks 48 ?xs))) = 65 * (length ?xs div 48)" .
  moreover have "length (encode_pending ctx) \<le> 47"
    using assms(1) by (simp add: encode_ctx_ok_def encode_pending_def)
  then have "length ?xs div 48 \<le> (48 * 33038209 + 47) div 48"
    using assms(2) by (intro div_le_mono) (simp add: encode_call_max_def)
  ultimately show ?thesis by simp
qed

lemma encode_update_eq:
  assumes "encode_ctx_ok ctx" and "length inp \<le> encode_call_max"
  shows "fst (encode_update ctx inp) = concat (map encode_line (blocks 48 (encode_pending ctx @ inp)))"
    and "encode_pending (snd (encode_update ctx inp)) = leftover 48 (encode_pending ctx @ inp)"
    and "encode_ctx_ok (snd (encode_update ctx inp))"
proof -
  have "length inp < 2 ^ 62" using assms(2) by (simp add: encode_call_max_def)
  note U = EncodeUpdate_eq [OF assms(1) this]
  have "fst (snd (EVP_EncodeUpdate ctx inp)) = length (fst (EVP_EncodeUpdate ctx inp))"
    by (rule U(4)) (simp only: U(1) encode_call_fits [OF assms])
  then have "encode_update ctx inp = (fst (EVP_EncodeUpdate ctx inp), snd (snd (EVP_EncodeUpdate ctx inp)))"
    by (cases "EVP_EncodeUpdate ctx inp") (simp add: encode_update_def)
  with U(1-3) show "fst (encode_update ctx inp) = concat (map encode_line (blocks 48 (encode_pending ctx @ inp)))"
    and "encode_pending (snd (encode_update ctx inp)) = leftover 48 (encode_pending ctx @ inp)"
    and "encode_ctx_ok (snd (encode_update ctx inp))" by simp_all
qed

interpretation encoder: block_stream encode_update encode_line encode_pending encode_ctx_ok
  "\<lambda>inp. length inp \<le> encode_call_max" 48
proof unfold_locales
  show "length (encode_pending s) < 48" if "encode_ctx_ok s" for s
    using that by (simp add: encode_ctx_ok_def encode_pending_def)
qed (simp_all only: encode_update_eq zero_less_numeral)

text \<open>A whole encoding session: what the caller has of all calls, in order, the final one included.\<close>

definition encode_session :: "bytes list \<Rightarrow> bytes" where
  "encode_session inps =
     (case updates encode_update EVP_EncodeInit inps of (out, ctx) \<Rightarrow>
        case EVP_EncodeFinal ctx of (out', out_len, _) \<Rightarrow> out @ take out_len out')"

definition encode_text :: "bytes \<Rightarrow> bytes" where
  "encode_text xs = concat (map encode_line (blocks 48 xs)) @
     (if leftover 48 xs = [] then [] else encode_line (leftover 48 xs))"

lemma encode_session_eq:
  assumes "list_all (\<lambda>inp. length inp \<le> encode_call_max) inps"
  shows "encode_session inps = encode_text (concat inps)"
proof -
  have ok: "encode_ctx_ok EVP_EncodeInit" and p: "encode_pending EVP_EncodeInit = []"
    by (simp_all add: encode_ctx_ok_def encode_pending_def EVP_EncodeInit_def)
  obtain out ctx where u: "updates encode_update EVP_EncodeInit inps = (out, ctx)"
    by (cases "updates encode_update EVP_EncodeInit inps")
  have lo: "encode_pending ctx = leftover 48 (concat inps)" and okc: "encode_ctx_ok ctx"
    using encoder.updates_whole(2,3) [OF ok assms] u p by simp_all
  then have "data_used ctx = 0 \<longleftrightarrow> leftover 48 (concat inps) = []"
    by (auto simp: encode_pending_def encode_ctx_ok_def simp flip: lo)
  with lo have "(case EVP_EncodeFinal ctx of (out', out_len, _) \<Rightarrow> out @ take out_len out') =
      out @ (if leftover 48 (concat inps) = [] then [] else encode_line (leftover 48 (concat inps)))"
    by (simp add: EVP_EncodeFinal_def encode_line_def encode_pending_def)
  moreover have "out = concat (map encode_line (blocks 48 (concat inps)))"
    using encoder.updates_whole(1) [OF ok assms] u p by simp
  ultimately show ?thesis by (simp only: encode_session_def u prod.case encode_text_def)
qed

section \<open>Streaming decoder\<close>

lemma decode_chars_append:
  "decode_chars ctx out (xs @ ys) =
     (case decode_chars ctx out xs of
        (True, out, ctx) \<Rightarrow> decode_chars ctx out ys
      | (False, out, ctx) \<Rightarrow> (False, out, ctx))"
  by (induction ctx out xs rule: decode_chars.induct) (simp_all add: Let_def split: option.splits)

lemma decode_chars_out:
  "decode_chars ctx out xs = (case decode_chars ctx [] xs of (ok, o1, ctx) \<Rightarrow> (ok, out @ o1, ctx))"
proof (induction xs arbitrary: ctx out)
  case (Cons c xs)
  show ?case
  proof (cases "base64_space c \<or> eof_seen ctx")
    case True
    with Cons [of ctx out] show ?thesis by (auto split: prod.splits)
  next
    case False
    let ?ctx = "ctx\<lparr>ctx_data := (ctx_data ctx)[data_used ctx := c], data_used := data_used ctx + 1\<rparr>"
    show ?thesis
    proof (cases "data_used ctx + 1 = 4")
      case True
      show ?thesis
      proof (cases "base64_decode_quad (ctx_data ?ctx ! 0) (ctx_data ?ctx ! 1) (ctx_data ?ctx ! 2) (ctx_data ?ctx ! 3)")
        case None
        with True False show ?thesis by (simp add: Let_def)
      next
        case (Some bs)
        let ?next = "?ctx\<lparr>data_used := 0, eof_seen := (length bs < 3 \<or> eof_seen ?ctx)\<rparr>"
        from Some True False Cons [of ?next bs] Cons [of ?next "out @ bs"] show ?thesis
          by (simp add: Let_def split: prod.splits)
      qed
    next
      case not4: False
      with False Cons [of ?ctx out] show ?thesis by (simp add: Let_def)
    qed
  qed
qed simp

lemma decode_chars_error: "decode_chars ctx out xs = (True, o1, ctx1) \<Longrightarrow> error_encountered ctx1 = error_encountered ctx"
  by (induction ctx out xs rule: decode_chars.induct) (auto simp: Let_def split: if_splits option.splits)

text \<open>White space can be dropped from the input of the decoder.\<close>

lemma decode_chars_spaces: "decode_chars ctx out xs = decode_chars ctx out (filter (\<lambda>c. \<not> base64_space c) xs)"
  by (induction ctx out xs rule: decode_chars.induct) (simp_all add: Let_def split: option.splits)

text \<open>A quad at a time.\<close>

definition decode_start :: "EVP_ENCODE_CTX \<Rightarrow> bool" where
  "decode_start ctx \<longleftrightarrow> data_used ctx = 0 \<and> 4 \<le> length (ctx_data ctx) \<and> \<not> eof_seen ctx \<and> \<not> error_encountered ctx"

lemma decode_chars_quad:
  assumes "decode_start ctx" and "list_all (\<lambda>c. \<not> base64_space c) [a, b, c, d]"
    and "base64_decode_quad a b c d = Some bs"
  shows "\<exists>ctx1. decode_chars ctx out (a # b # c # d # inp) = decode_chars ctx1 (out @ bs) inp
    \<and> data_used ctx1 = 0 \<and> \<not> error_encountered ctx1 \<and> (length bs = 3 \<longrightarrow> decode_start ctx1)"
proof -
  let ?data = "(ctx_data ctx)[0 := a, 1 := b, 2 := c, 3 := d]"
  let ?ctx1 = "ctx\<lparr>ctx_data := ?data, data_used := 0, eof_seen := length bs < 3\<rparr>"
  have "\<exists>w x y z rest. ctx_data ctx = w # x # y # z # rest"
    using assms(1) by (auto simp: decode_start_def numeral_eq_Suc Suc_le_length_iff)
  then have nth: "?data ! 0 = a" "?data ! Suc 0 = b" "?data ! 2 = c" "?data ! 3 = d" by auto
  have "decode_chars ctx out (a # b # c # d # inp) = decode_chars ?ctx1 (out @ bs) inp"
    using assms nth by (simp add: decode_start_def Let_def numeral_3_eq_3 numeral_2_eq_2)
  then show ?thesis using assms(1) by (intro exI [of _ ?ctx1]) (simp add: decode_start_def)
qed

lemma not_space_equals: "\<not> base64_space 0x3d"
  by (simp add: base64_space_def)

lemma decode_chars_EncodeBlock:
  "decode_start ctx \<Longrightarrow> \<exists>ctx1. decode_chars ctx out (EVP_EncodeBlock xs) = (True, out @ xs, ctx1)
     \<and> data_used ctx1 = 0 \<and> \<not> error_encountered ctx1 \<and> (length xs mod 3 = 0 \<longrightarrow> decode_start ctx1)"
proof (induction xs arbitrary: ctx out rule: EVP_EncodeBlock.induct)
  case 1
  then show ?case by (auto simp: decode_start_def)
next
  case (2 a)
  from decode_chars_quad [OF 2 _ decode_group(3) [of a], where out = out and inp = "[]"]
  show ?case by (auto simp: EncodeBlock_group conv_not_space not_space_equals simp del: EVP_EncodeBlock.simps(2,3))
next
  case (3 a b)
  from decode_chars_quad [OF 3 _ decode_group(2) [of a b], where out = out and inp = "[]"]
  show ?case by (auto simp: EncodeBlock_group conv_not_space not_space_equals simp del: EVP_EncodeBlock.simps(2,3))
next
  case (4 a b c src)
  from decode_chars_quad [OF 4(2) _ decode_group(1) [of a b c], where out = out and inp = "EVP_EncodeBlock src"]
  obtain ctx1 where q: "decode_chars ctx out (EVP_EncodeBlock (a # b # c # src)) =
      decode_chars ctx1 (out @ [a, b, c]) (EVP_EncodeBlock src)" and s: "decode_start ctx1"
    by (auto simp: EncodeBlock_group conv_not_space simp del: EVP_EncodeBlock.simps)
  from 4(1) [OF refl s, of "out @ [a, b, c]"] q show ?case by (auto simp: Let_def)
qed


lemma decode_chars_line:
  assumes "decode_start ctx"
  shows "\<exists>ctx1. decode_chars ctx out (encode_line xs @ inp) = decode_chars ctx1 (out @ xs) inp
     \<and> data_used ctx1 = 0 \<and> \<not> error_encountered ctx1 \<and> (length xs mod 3 = 0 \<longrightarrow> decode_start ctx1)"
  using decode_chars_EncodeBlock [OF assms, of out xs]
  by (auto simp: encode_line_def decode_chars_append base64_space_def)

lemma decode_chars_lines:
  assumes "decode_start ctx" and "\<And>l. l \<in> set ls \<Longrightarrow> length l mod 3 = 0"
  shows "\<exists>ctx1. decode_chars ctx out (concat (map encode_line ls) @ inp) = decode_chars ctx1 (out @ concat ls) inp
     \<and> decode_start ctx1"
  using assms
proof (induction ls arbitrary: ctx out)
  case (Cons l ls)
  obtain ctx1 where l: "decode_chars ctx out (encode_line l @ concat (map encode_line ls) @ inp) =
      decode_chars ctx1 (out @ l) (concat (map encode_line ls) @ inp)" and s: "decode_start ctx1"
    using decode_chars_line [OF Cons.prems(1), of out l "concat (map encode_line ls) @ inp"] Cons.prems(2) by auto
  from Cons.IH [OF s, of "out @ l"] Cons.prems(2) l show ?case by simp
qed auto

lemma decode_chars_encode_text:
  assumes "decode_start ctx"
  shows "\<exists>ctx1. decode_chars ctx out (encode_text xs) = (True, out @ xs, ctx1)
     \<and> data_used ctx1 = 0 \<and> \<not> error_encountered ctx1"
proof -
  let ?last_line = "if leftover 48 xs = [] then [] else encode_line (leftover 48 xs)"
  have m: "length l mod 3 = 0" if "l \<in> set (blocks 48 xs)" for l
    using length_blocks [OF that] by simp
  obtain ctx1 where t: "decode_chars ctx out (encode_text xs) = decode_chars ctx1 (out @ concat (blocks 48 xs)) ?last_line"
    and s: "decode_start ctx1"
    using decode_chars_lines [OF assms m, where out = out and inp = ?last_line] by (auto simp: encode_text_def)
  have split: "concat (blocks 48 xs) @ leftover 48 xs = xs" by (simp add: blocks_leftover)
  show ?thesis
  proof (cases "leftover 48 xs = []")
    case True
    with t s split show ?thesis by (auto simp: decode_start_def)
  next
    case False
    with decode_chars_line [OF s, of "out @ concat (blocks 48 xs)" "leftover 48 xs" "[]"] t split
    show ?thesis by auto
  qed
qed

text \<open>A whole decoding session.\<close>

fun decode_calls :: "EVP_ENCODE_CTX \<Rightarrow> bytes list \<Rightarrow> (bytes \<times> EVP_ENCODE_CTX) option" where
  "decode_calls ctx [] = Some ([], ctx)"
| "decode_calls ctx (inp # inps) =
     (case EVP_DecodeUpdate ctx inp of (rv, out, out_len, ctx) \<Rightarrow>
        if rv < 0 then None
        else map_option (\<lambda>(out', ctx). (take out_len out @ out', ctx)) (decode_calls ctx inps))"

definition decode_session :: "bytes list \<Rightarrow> bytes option" where
  "decode_session inps =
     (case decode_calls EVP_DecodeInit inps of
        None \<Rightarrow> None
      | Some (out, ctx) \<Rightarrow> if EVP_DecodeFinal ctx = 1 then Some out else None)"

lemma decode_calls_eq:
  "decode_chars ctx [] (concat inps) = (True, out, ctx1) \<Longrightarrow> \<not> error_encountered ctx \<Longrightarrow> length out \<le> 0x7fffffff \<Longrightarrow>
    decode_calls ctx inps = Some (out, ctx1)"
proof (induction inps arbitrary: ctx out)
  case (Cons inp inps)
  obtain o1 ctx2 where u: "decode_chars ctx [] inp = (True, o1, ctx2)"
    and r: "decode_chars ctx2 o1 (concat inps) = (True, out, ctx1)"
    using Cons.prems(1) by (auto simp: decode_chars_append split: prod.splits bool.splits)
  obtain o2 where o2: "decode_chars ctx2 [] (concat inps) = (True, o2, ctx1)" and out: "out = o1 @ o2"
    using r by (subst (asm) decode_chars_out) (auto split: prod.splits)
  have e: "\<not> error_encountered ctx2" using decode_chars_error [OF u] Cons.prems(2) by simp
  from Cons.IH [OF o2 e] Cons.prems(2,3) u out show ?case
    by (simp add: EVP_DecodeUpdate_def)
qed simp

lemma decode_encode_session:
  assumes "list_all (\<lambda>inp. length inp \<le> encode_call_max) inps" and "length (concat inps) \<le> 0x7fffffff"
    and "filter (\<lambda>c. \<not> base64_space c) (concat texts) = filter (\<lambda>c. \<not> base64_space c) (encode_session inps)"
  shows "decode_session texts = Some (concat inps)"
proof -
  have s: "decode_start EVP_DecodeInit" by (simp add: decode_start_def EVP_DecodeInit_def)
  have "decode_chars EVP_DecodeInit [] (concat texts) = decode_chars EVP_DecodeInit [] (encode_text (concat inps))"
    using assms(1,3) decode_chars_spaces [of _ _ "concat texts"] decode_chars_spaces [of _ _ "encode_text (concat inps)"]
    by (simp only: encode_session_eq)
  with decode_chars_encode_text [OF s, of "[]" "concat inps"]
  obtain ctx where "decode_chars EVP_DecodeInit [] (concat texts) = (True, concat inps, ctx)"
    and f: "data_used ctx = 0" "\<not> error_encountered ctx"
    by auto
  from decode_calls_eq [OF this(1) _ assms(2)] f s show ?thesis
    by (simp add: decode_session_def EVP_DecodeFinal_def decode_start_def)
qed

section \<open>Properties\<close>

text \<open>C28.
  Encoding and decoding sessions are inverse.  The data, at most 2^31 - 1 bytes, is given to \<^verbatim>\<open>EVP_EncodeUpdate\<close> in pieces of any size up to
  1585834032 bytes (the most for which a call's text surely fits the \<^verbatim>\<open>int\<close> of \<^verbatim>\<open>*out_len\<close>: a call with more text reports none), and the caller
  takes as many bytes of each call, and of \<^verbatim>\<open>EVP_EncodeFinal\<close>, as \<^verbatim>\<open>*out_len\<close> says.  The text is decoded to the same data, again by what \<^verbatim>\<open>*out_len\<close>
  says of each call, whatever the pieces in which it is given to \<^verbatim>\<open>EVP_DecodeUpdate\<close> and whatever white space has been added to it or
  removed.
\<close>

theorem base64_sessions_inverse:
  assumes "length (concat inps) \<le> 0x7fffffff" and "list_all (\<lambda>inp. length inp \<le> encode_call_max) inps"
    and "filter (\<lambda>c. \<not> base64_space c) (concat texts) = filter (\<lambda>c. \<not> base64_space c) (encode_session inps)"
  shows "decode_session texts = Some (concat inps)"
  by (rule decode_encode_session [OF assms(2,1,3)])

lemma base64_sessions_inverse_witness:
  "decode_session [[0x41, 0x51, 0x20], [0x49, 0x44]] = Some (concat [[1], [2, 3]])"
proof (rule base64_sessions_inverse)
  show "filter (\<lambda>c. \<not> base64_space c) (concat [[0x41, 0x51, 0x20], [0x49, 0x44]]) =
      filter (\<lambda>c. \<not> base64_space c) (encode_session [[1], [2, 3]])"
    by (simp add: encode_session_eq encode_call_max_def) code_simp
qed (simp_all add: encode_call_max_def)

text \<open>How the input of an encoding session is cut into calls does not matter: the output is lines of 64 characters, each with its
  newline, for every 48 bytes of the whole input, and a last line for what remains.
\<close>

theorem base64_encode_session:
  assumes "list_all (\<lambda>inp. length inp \<le> encode_call_max) inps"
  shows "encode_session inps = encode_text (concat inps)"
  by (rule encode_session_eq [OF assms])

lemma base64_encode_session_witness:
  "encode_session [[1], [2, 3]] = encode_text [1, 2, 3]"
  using base64_encode_session [of "[[1], [2, 3]]"] by (simp add: encode_call_max_def)

text \<open>One-shot encoding is undone by \<^verbatim>\<open>EVP_DecodeBase64\<close> with a buffer of two bytes more than the data, and \<^verbatim>\<open>EVP_EncodedLength\<close> is the exact
  size of the text with its terminator, or fails when that does not fit a \<^verbatim>\<open>size_t\<close>.
\<close>

theorem base64_block_roundtrip:
  assumes "length xs < 2 ^ 64"
  shows "EVP_DecodeBase64 (length xs + 2) (EVP_EncodeBlock xs) = Some xs \<and>
    EVP_EncodedLength (length xs) =
      (if length (EVP_EncodeBlock xs) + 1 < 2 ^ 64 then Some (length (EVP_EncodeBlock xs) + 1) else None)"
  using DecodeBase64_EncodeBlock [of xs "length xs + 2"] EncodedLength_eq [OF assms] by simp

lemma base64_block_roundtrip_witness:
  "EVP_DecodeBase64 (length [0xfb, 0x10 :: u8] + 2) (EVP_EncodeBlock [0xfb, 0x10]) = Some [0xfb, 0x10]"
  by (rule base64_block_roundtrip [THEN conjunct1]) simp

end
