(* ===== verification/Stack.thy ===== *)
theory Stack
  imports Mem Sorting
begin

text \<open>
  \<^verbatim>\<open>BoringSSL/crypto/stack/stack.c\<close>: a growable array of pointers with an optional comparison function.  A pointer is
  a number, 0 is \<^verbatim>\<open>NULL\<close>.  A null \<^verbatim>\<open>_STACK\<close> argument is \<open>None\<close>.  Function pointers are numbers too: \<open>call f\<close> is what the
  comparison function \<open>f\<close> computes on two pointers.  The C library's \<^verbatim>\<open>qsort\<close> and \<^verbatim>\<open>bsearch\<close>, whose results the standard only
  determines up to the order of equal elements, are the parameters \<open>qs\<close> and \<open>bs\<close>; the locale \<open>sorting_library\<close> (theory \<open>Sorting\<close>)
  states what the standard promises of them.
\<close>

section \<open>Types\<close>

type_synonym ptr = nat

abbreviation (input) NULL :: ptr where "NULL \<equiv> 0"

type_synonym compare = "nat \<Rightarrow> ptr \<Rightarrow> ptr \<Rightarrow> int"
type_synonym qsort_fun = "(ptr \<Rightarrow> ptr \<Rightarrow> int) \<Rightarrow> ptr list \<Rightarrow> ptr list"
type_synonym bsearch_fun = "(ptr \<Rightarrow> ptr \<Rightarrow> int) \<Rightarrow> ptr \<Rightarrow> ptr list \<Rightarrow> nat option"

record stack =
  st_num :: nat
  st_data :: "ptr list"
  st_sorted :: bool
  st_num_alloc :: nat
  st_comp :: "nat option"

definition kMinSize :: nat where "kMinSize = 4"

text \<open>Memory read as an array of pointers, eight bytes each.\<close>

definition pointers :: "bytes \<Rightarrow> ptr list" where
  "pointers bs = map (\<lambda>i. le_nat (take 8 (drop (8 * i) bs))) [0..<length bs div 8]"

text \<open>\<^verbatim>\<open>OPENSSL_realloc\<close> of an array of pointers: the old entries, then what the new memory holds.\<close>

definition realloc_pointers :: "malloc \<Rightarrow> ptr list \<Rightarrow> nat \<Rightarrow> ptr list option" where
  "realloc_pointers m data alloc_size =
     (case OPENSSL_malloc m alloc_size of
        None \<Rightarrow> None
      | Some b \<Rightarrow> let fresh = pointers (blk_data b); to_copy = min (length data) (length fresh)
          in Some (take to_copy data @ drop to_copy fresh))"

section \<open>Operations\<close>

definition sk_new :: "malloc \<Rightarrow> nat option \<Rightarrow> stack option" where
  "sk_new m cmp =
     (case OPENSSL_malloc m 40 of
        None \<Rightarrow> None
      | Some _ \<Rightarrow>
          (case OPENSSL_malloc m (size_mul 8 kMinSize) of
             None \<Rightarrow> None
           | Some _ \<Rightarrow> Some \<lparr>st_num = 0, st_data = replicate kMinSize NULL, st_sorted = False,
                              st_num_alloc = kMinSize, st_comp = cmp\<rparr>))"

definition sk_new_null :: "malloc \<Rightarrow> stack option" where
  "sk_new_null m = sk_new m None"

definition sk_num :: "stack option \<Rightarrow> nat" where
  "sk_num sk = (case sk of None \<Rightarrow> 0 | Some s \<Rightarrow> st_num s)"

definition sk_zero :: "stack option \<Rightarrow> stack option" where
  "sk_zero sk =
     (case sk of
        None \<Rightarrow> None
      | Some s \<Rightarrow>
          if st_num s = 0 then Some s
          else Some (s\<lparr>st_data := replicate (st_num s) NULL @ drop (st_num s) (st_data s), st_num := 0,
                       st_sorted := False\<rparr>))"

definition sk_value :: "stack option \<Rightarrow> nat \<Rightarrow> ptr" where
  "sk_value sk i = (case sk of None \<Rightarrow> NULL | Some s \<Rightarrow> if i \<ge> st_num s then NULL else st_data s ! i)"

definition sk_set :: "stack option \<Rightarrow> nat \<Rightarrow> ptr \<Rightarrow> ptr \<times> stack option" where
  "sk_set sk i val =
     (case sk of
        None \<Rightarrow> (NULL, None)
      | Some s \<Rightarrow>
          if i \<ge> st_num s then (NULL, Some s)
          else (val, Some (s\<lparr>st_data := (st_data s)[i := val]\<rparr>)))"

text \<open>The callback of \<^verbatim>\<open>sk_pop_free\<close> changes the state \<open>w\<close> of the rest of the program.\<close>

definition sk_pop_free :: "('w \<Rightarrow> ptr \<Rightarrow> 'w) \<Rightarrow> stack option \<Rightarrow> 'w \<Rightarrow> 'w" where
  "sk_pop_free func sk w =
     (case sk of
        None \<Rightarrow> w
      | Some s \<Rightarrow>
          fold (\<lambda>i w. if st_data s ! i \<noteq> NULL then func w (st_data s ! i) else w) [0..<st_num s] w)"

text \<open>Room for one more pointer than the stack needs: the array is doubled, or enlarged by one if doubling overflows.\<close>

definition sk_grow :: "malloc \<Rightarrow> stack \<Rightarrow> stack option" where
  "sk_grow m s =
     (if st_num_alloc s \<le> st_num s + 1 then
        (let new_alloc = size_mul (st_num_alloc s) 2; alloc_size = size_mul new_alloc 8;
             new_alloc' = size_add (st_num_alloc s) 1;
             (new_alloc, alloc_size) =
               (if new_alloc < st_num_alloc s \<or> alloc_size div 8 \<noteq> new_alloc
                then (new_alloc', size_mul new_alloc' 8) else (new_alloc, alloc_size))
         in if new_alloc < st_num_alloc s \<or> alloc_size div 8 \<noteq> new_alloc then None
            else case realloc_pointers m (st_data s) alloc_size of
                None \<Rightarrow> None
              | Some data \<Rightarrow> Some (s\<lparr>st_data := data, st_num_alloc := new_alloc\<rparr>))
      else Some s)"

definition sk_insert :: "malloc \<Rightarrow> stack option \<Rightarrow> ptr \<Rightarrow> nat \<Rightarrow> nat \<times> stack option" where
  "sk_insert m sk p pos =
     (case sk of
        None \<Rightarrow> (0, None)
      | Some s \<Rightarrow>
          (case sk_grow m s of
             None \<Rightarrow> (0, Some s)
           | Some s \<Rightarrow>
               let n = st_num s; d = st_data s;
                   d = (if pos \<ge> n then d[n := p]
                        else (take (pos + 1) d @ take (n - pos) (drop pos d) @ drop (n + 1) d)[pos := p])
               in (n + 1, Some (s\<lparr>st_data := d, st_num := n + 1, st_sorted := False\<rparr>))))"

definition sk_delete :: "stack option \<Rightarrow> nat \<Rightarrow> ptr \<times> stack option" where
  "sk_delete sk pos =
     (case sk of
        None \<Rightarrow> (NULL, None)
      | Some s \<Rightarrow>
          if pos \<ge> st_num s then (NULL, Some s)
          else
            let n = st_num s; d = st_data s;
                d' = (if pos \<noteq> n - 1 then take pos d @ take (n - pos - 1) (drop (pos + 1) d) @ drop (n - 1) d else d)
            in (d ! pos, Some (s\<lparr>st_data := d', st_num := n - 1\<rparr>)))"

text \<open>The index of the first entry equal to \<open>p\<close>, as the loops of \<^verbatim>\<open>sk_delete_ptr\<close> and \<^verbatim>\<open>sk_find\<close> look for it.\<close>

fun find_pointer :: "ptr \<Rightarrow> ptr list \<Rightarrow> nat option" where
  "find_pointer p [] = None"
| "find_pointer p (x # xs) = (if x = p then Some 0 else map_option Suc (find_pointer p xs))"

definition sk_delete_ptr :: "stack option \<Rightarrow> ptr \<Rightarrow> ptr \<times> stack option" where
  "sk_delete_ptr sk p =
     (case sk of
        None \<Rightarrow> (NULL, None)
      | Some s \<Rightarrow>
          (case find_pointer p (take (st_num s) (st_data s)) of
             None \<Rightarrow> (NULL, Some s)
           | Some i \<Rightarrow> sk_delete (Some s) i))"

definition sk_sort :: "qsort_fun \<Rightarrow> compare \<Rightarrow> stack option \<Rightarrow> stack option" where
  "sk_sort qs call sk =
     (case sk of
        None \<Rightarrow> None
      | Some s \<Rightarrow>
          (case st_comp s of
             None \<Rightarrow> Some s
           | Some f \<Rightarrow>
               if st_sorted s then Some s
               else Some (s\<lparr>st_data := qs (call f) (take (st_num s) (st_data s)) @ drop (st_num s) (st_data s),
                            st_sorted := True\<rparr>)))"

text \<open>The walk back to the first of several equal elements.\<close>

primrec walk_back :: "(nat \<Rightarrow> bool) \<Rightarrow> nat \<Rightarrow> nat" where
  "walk_back eq 0 = 0"
| "walk_back eq (Suc i) = (if eq i then walk_back eq i else Suc i)"

definition sk_find :: "qsort_fun \<Rightarrow> bsearch_fun \<Rightarrow> compare \<Rightarrow> stack option \<Rightarrow> ptr \<Rightarrow> nat option \<times> stack option" where
  "sk_find qs bs call sk p =
     (case sk of
        None \<Rightarrow> (None, None)
      | Some s \<Rightarrow>
          (case st_comp s of
             None \<Rightarrow> (find_pointer p (take (st_num s) (st_data s)), Some s)
           | Some f \<Rightarrow>
               if p = NULL then (None, Some s)
               else
                 (case sk_sort qs call (Some s) of
                    None \<Rightarrow> (None, None)
                  | Some s \<Rightarrow>
                      (case bs (call f) p (take (st_num s) (st_data s)) of
                         None \<Rightarrow> (None, Some s)
                       | Some idx \<Rightarrow> (Some (walk_back (\<lambda>i. call f p (st_data s ! i) = 0) idx), Some s)))))"

definition sk_shift :: "stack option \<Rightarrow> ptr \<times> stack option" where
  "sk_shift sk =
     (case sk of
        None \<Rightarrow> (NULL, None)
      | Some s \<Rightarrow> if st_num s = 0 then (NULL, Some s) else sk_delete (Some s) 0)"

definition sk_push :: "malloc \<Rightarrow> stack \<Rightarrow> ptr \<Rightarrow> nat \<times> stack option" where
  "sk_push m s p = sk_insert m (Some s) p (st_num s)"

definition sk_pop :: "stack option \<Rightarrow> ptr \<times> stack option" where
  "sk_pop sk =
     (case sk of
        None \<Rightarrow> (NULL, None)
      | Some s \<Rightarrow> if st_num s = 0 then (NULL, Some s) else sk_delete (Some s) (st_num s - 1))"

definition sk_dup :: "malloc \<Rightarrow> stack option \<Rightarrow> stack option" where
  "sk_dup m sk =
     (case sk of
        None \<Rightarrow> None
      | Some s \<Rightarrow>
          (case sk_new m (st_comp s) of
             None \<Rightarrow> None
           | Some ret \<Rightarrow>
               (case realloc_pointers m (st_data ret) (size_mul 8 (st_num_alloc s)) of
                  None \<Rightarrow> None
                | Some data \<Rightarrow>
                    Some \<lparr>st_num = st_num s, st_data = take (st_num s) (st_data s) @ drop (st_num s) data,
                          st_sorted = st_sorted s, st_num_alloc = st_num_alloc s, st_comp = st_comp s\<rparr>)))"

definition sk_is_sorted :: "stack option \<Rightarrow> bool" where
  "sk_is_sorted sk = (case sk of None \<Rightarrow> True | Some s \<Rightarrow> st_sorted s)"

definition sk_set_cmp_func :: "stack \<Rightarrow> nat option \<Rightarrow> nat option \<times> stack" where
  "sk_set_cmp_func s cmp =
     (st_comp s, s\<lparr>st_sorted := (st_sorted s \<and> st_comp s = cmp), st_comp := cmp\<rparr>)"

text \<open>
  The loop of \<^verbatim>\<open>sk_deep_copy\<close> over the entries: the copies made, and whether all succeeded.  The callbacks act on the state \<open>w\<close>.
\<close>

fun copy_entries :: "('w \<Rightarrow> ptr \<Rightarrow> ptr \<times> 'w) \<Rightarrow> ptr list \<Rightarrow> 'w \<Rightarrow> bool \<times> ptr list \<times> 'w" where
  "copy_entries copy_func [] w = (True, [], w)"
| "copy_entries copy_func (p # ps) w =
     (if p = NULL then
        (case copy_entries copy_func ps w of (ok, qs, w) \<Rightarrow> (ok, NULL # qs, w))
      else case copy_func w p of (q, w) \<Rightarrow>
        if q = NULL then (False, [], w)
        else case copy_entries copy_func ps w of (ok, qs, w) \<Rightarrow> (ok, q # qs, w))"

definition sk_deep_copy ::
  "malloc \<Rightarrow> ('w \<Rightarrow> ptr \<Rightarrow> ptr \<times> 'w) \<Rightarrow> ('w \<Rightarrow> ptr \<Rightarrow> 'w) \<Rightarrow> stack option \<Rightarrow> 'w \<Rightarrow> stack option \<times> 'w" where
  "sk_deep_copy m copy_func free_func sk w =
     (case sk_dup m sk of
        None \<Rightarrow> (None, w)
      | Some ret \<Rightarrow>
          (case copy_entries copy_func (take (st_num ret) (st_data ret)) w of
             (False, qs, w) \<Rightarrow> (None, fold (\<lambda>q w. if q \<noteq> NULL then free_func w q else w) qs w)
           | (True, qs, w) \<Rightarrow> (Some (ret\<lparr>st_data := qs @ drop (st_num ret) (st_data ret)\<rparr>), w)))"


section \<open>Invariant and contents\<close>

definition stack_ok :: "stack \<Rightarrow> bool" where
  "stack_ok s \<longleftrightarrow> st_num s \<le> st_num_alloc s \<and> 0 < st_num_alloc s \<and> length (st_data s) = st_num_alloc s
     \<and> st_num_alloc s < 2 ^ 60"

definition contents :: "stack \<Rightarrow> ptr list" where
  "contents s = take (st_num s) (st_data s)"

lemma length_contents [simp]: "stack_ok s \<Longrightarrow> length (contents s) = st_num s"
  by (simp add: stack_ok_def contents_def)

lemma nth_contents: "i < st_num s \<Longrightarrow> contents s ! i = st_data s ! i"
  by (simp add: contents_def)

lemma length_pointers [simp]: "length (pointers bs) = length bs div 8"
  by (simp add: pointers_def)

lemma realloc_pointers_Some:
  assumes "malloc_spec m" and "realloc_pointers m data (k * 8) = Some d" and "k < 2 ^ 61 - 1"
  shows "length d = k" and "n \<le> length data \<Longrightarrow> n \<le> k \<Longrightarrow> take n d = take n data" and "k < 2 ^ 60"
proof -
  obtain b where b: "OPENSSL_malloc m (k * 8) = Some b"
    and d: "d = take (min (length data) (length (pointers (blk_data b)))) data @
      drop (min (length data) (length (pointers (blk_data b)))) (pointers (blk_data b))"
    using assms(2) by (auto simp: realloc_pointers_def Let_def split: option.splits)
  note B = OPENSSL_malloc_Some [OF assms(1) b]
  have sz: "k * 8 < 2 ^ 64 - 8" using assms(3) by simp
  from B(2) [OF sz] have len: "length (pointers (blk_data b)) = k" by simp
  then show "length d = k" by (simp add: d)
  show "take n d = take n data" if "n \<le> length data" "n \<le> k" using that len by (simp add: d)
  show "k < 2 ^ 60" using B(3) [OF sz] by simp
qed

lemma realloc_pointers_total: "malloc_total m \<Longrightarrow> sz + 8 < 2 ^ 63 \<Longrightarrow> realloc_pointers m data sz \<noteq> None"
  using OPENSSL_malloc_total [of m sz] by (auto simp: realloc_pointers_def Let_def split: option.splits)

lemma sk_new_Some:
  "sk_new m cmp = Some s \<Longrightarrow> stack_ok s \<and> contents s = [] \<and> st_comp s = cmp \<and> \<not> st_sorted s"
  by (auto simp: sk_new_def stack_ok_def contents_def kMinSize_def split: option.splits)

text \<open>Growing never moves or changes an entry; there is room for one more afterwards.\<close>

lemma sk_grow_eq:
  assumes "stack_ok s"
  shows "sk_grow m s =
    (if st_num_alloc s \<le> st_num s + 1
     then map_option (\<lambda>d. s\<lparr>st_data := d, st_num_alloc := st_num_alloc s * 2\<rparr>)
       (realloc_pointers m (st_data s) (st_num_alloc s * 2 * 8))
     else Some s)"
proof -
  have n: "st_num_alloc s * 2 * 8 < 2 ^ 64" using assms by (simp add: stack_ok_def)
  then have "size_mul (st_num_alloc s) 2 = st_num_alloc s * 2"
    "size_mul (st_num_alloc s * 2) 8 = st_num_alloc s * 2 * 8" by (simp_all add: size_mul_def)
  then show ?thesis by (simp add: sk_grow_def Let_def split: option.splits)
qed

lemma sk_grow_Some:
  assumes "malloc_spec m" and "stack_ok s" and "sk_grow m s = Some t"
  shows "stack_ok t" and "contents t = contents s" and "st_num t = st_num s" and "st_num s < st_num_alloc t"
    and "st_comp t = st_comp s" and "st_sorted t = st_sorted s"
proof -
  have "stack_ok t \<and> contents t = contents s \<and> st_num t = st_num s \<and> st_num s < st_num_alloc t \<and> st_comp t = st_comp s
    \<and> st_sorted t = st_sorted s"
  proof (cases "st_num_alloc s \<le> st_num s + 1")
    case True
    then obtain d where d: "realloc_pointers m (st_data s) (st_num_alloc s * 2 * 8) = Some d"
      and t: "t = s\<lparr>st_data := d, st_num_alloc := st_num_alloc s * 2\<rparr>"
      using assms(3) by (auto simp: sk_grow_eq [OF assms(2)])
    have "st_num_alloc s * 2 < 2 ^ 61 - 1" using assms(2) by (simp add: stack_ok_def)
    note R = realloc_pointers_Some [OF assms(1) d this]
    show ?thesis using R assms(2) by (auto simp: t stack_ok_def contents_def)
  qed (use assms sk_grow_eq [OF assms(2)] in \<open>auto simp: stack_ok_def\<close>)
  then show "stack_ok t" and "contents t = contents s" and "st_num t = st_num s" and "st_num s < st_num_alloc t"
    and "st_comp t = st_comp s" and "st_sorted t = st_sorted s" by simp_all
qed

lemma sk_grow_total:
  assumes "malloc_total m" and "stack_ok s" and "st_num s < 2 ^ 58"
  shows "sk_grow m s \<noteq> None"
proof (cases "st_num_alloc s \<le> st_num s + 1")
  case True
  then have "st_num_alloc s * 2 * 8 + 8 < 2 ^ 63" using assms(3) by simp
  from realloc_pointers_total [OF assms(1) this] show ?thesis by (simp add: sk_grow_eq [OF assms(2)])
qed (simp add: sk_grow_eq [OF assms(2)])

section \<open>Operations on the contents\<close>

lemma sk_insert_Some:
  assumes "malloc_spec m" and "stack_ok s" and "sk_insert m (Some s) p i = (r, s')"
  shows "\<exists>t. s' = Some t \<and> stack_ok t \<and> st_comp t = st_comp s \<and>
    (r = st_num s + 1 \<and> contents t = take i (contents s) @ p # drop i (contents s) \<and> \<not> st_sorted t \<or>
     r = 0 \<and> t = s \<and> sk_grow m s = None)"
proof (cases "sk_grow m s")
  case None
  with assms show ?thesis by (simp add: sk_insert_def)
next
  case (Some t)
  note G = sk_grow_Some [OF assms(1,2) Some]
  let ?n = "st_num s" and ?d = "st_data t"
  let ?e = "if i \<ge> ?n then ?d[?n := p]
    else (take (i + 1) ?d @ take (?n - i) (drop i ?d) @ drop (?n + 1) ?d)[i := p]"
  have n: "?n < length ?d" using G(1,4) by (simp add: stack_ok_def)
  have c: "contents s = take ?n ?d" using G(2,3) by (simp add: contents_def)
  have len: "length ?e = length ?d" using n by auto
  have "take (?n + 1) ?e = take i (contents s) @ p # drop i (contents s)"
  proof (cases "i \<ge> ?n")
    case True
    then show ?thesis using n by (simp add: c take_Suc_conv_app_nth)
  next
    case False
    have "(take (i + 1) ?d @ take (?n - i) (drop i ?d) @ drop (?n + 1) ?d)[i := p] =
        take i ?d @ p # take (?n - i) (drop i ?d) @ drop (?n + 1) ?d"
      using False n by (simp add: take_Suc_conv_app_nth list_update_append)
    with False n show ?thesis by (simp add: c drop_take take_take min_def Suc_diff_le)
  qed
  moreover have "r = ?n + 1" "s' = Some (t\<lparr>st_data := ?e, st_num := ?n + 1, st_sorted := False\<rparr>)"
    using assms(3) Some G(3) by (auto simp: sk_insert_def Let_def)
  ultimately show ?thesis using G len n by (auto simp: stack_ok_def contents_def simp del: if_split)
qed

lemma sk_delete_Some:
  assumes "stack_ok s" and "i < st_num s"
  shows "\<exists>t. sk_delete (Some s) i = (contents s ! i, Some t) \<and> stack_ok t \<and> st_comp t = st_comp s \<and>
    st_sorted t = st_sorted s \<and> contents t = take i (contents s) @ drop (Suc i) (contents s)"
proof -
  let ?n = "st_num s" and ?d = "st_data s"
  let ?e = "if i \<noteq> ?n - 1 then take i ?d @ take (?n - i - 1) (drop (i + 1) ?d) @ drop (?n - 1) ?d else ?d"
  have n: "?n \<le> length ?d" using assms(1) by (simp add: stack_ok_def)
  have len: "length ?e = length ?d" using n assms(2) by auto
  have "take (?n - 1) ?e = take i (contents s) @ drop (Suc i) (contents s)"
  proof (cases "i = ?n - 1")
    case True
    then show ?thesis using n assms(2) by (simp add: contents_def)
  next
    case False
    let ?a = "take i ?d @ take (?n - i - 1) (drop (i + 1) ?d)"
    have "length ?a = ?n - 1" using n assms(2) by simp
    then have "take (?n - 1) (?a @ drop (?n - 1) ?d) = ?a" by (metis append_eq_conv_conj)
    moreover have "take i (contents s) @ drop (Suc i) (contents s) = ?a"
      using assms(2) by (simp add: contents_def drop_take)
    ultimately show ?thesis using False by simp
  qed
  moreover have "sk_delete (Some s) i = (?d ! i, Some (s\<lparr>st_data := ?e, st_num := ?n - 1\<rparr>))"
    using assms(2) by (simp add: sk_delete_def Let_def)
  ultimately show ?thesis
    using len assms by (auto simp: stack_ok_def contents_def simp del: if_split)
qed


lemma find_pointer_Some: "find_pointer p xs = Some i \<Longrightarrow> i < length xs \<and> xs ! i = p \<and> (\<forall>j<i. xs ! j \<noteq> p)"
proof (induction xs arbitrary: i)
  case (Cons x xs)
  show ?case
  proof (cases "x = p")
    case False
    with Cons.prems obtain k where k: "find_pointer p xs = Some k" "i = Suc k" by auto
    have "(x # xs) ! j \<noteq> p" if "j < i" for j
      using that Cons.IH [OF k(1)] k(2) False by (cases j) auto
    with Cons.IH [OF k(1)] k(2) show ?thesis by auto
  qed (use Cons.prems in auto)
qed simp

lemma find_pointer_None: "find_pointer p xs = None \<longleftrightarrow> p \<notin> set xs"
  by (induction xs) auto

section \<open>A stack is a list\<close>

text \<open>The operations that change a stack, and what they do to a list.\<close>

datatype stack_op =
    Insert ptr nat
  | Push ptr
  | Set nat ptr
  | Delete nat
  | Delete_ptr ptr
  | Shift
  | Pop
  | Zero

fun run_op :: "malloc \<Rightarrow> stack_op \<Rightarrow> stack \<Rightarrow> nat \<times> stack option" where
  "run_op m (Insert p i) s = sk_insert m (Some s) p i"
| "run_op m (Push p) s = sk_push m s p"
| "run_op m (Set i p) s = sk_set (Some s) i p"
| "run_op m (Delete i) s = sk_delete (Some s) i"
| "run_op m (Delete_ptr p) s = sk_delete_ptr (Some s) p"
| "run_op m Shift s = sk_shift (Some s)"
| "run_op m Pop s = sk_pop (Some s)"
| "run_op m Zero s = (0, sk_zero (Some s))"

fun list_op :: "stack_op \<Rightarrow> ptr list \<Rightarrow> nat \<times> ptr list" where
  "list_op (Insert p i) xs = (length xs + 1, take i xs @ p # drop i xs)"
| "list_op (Push p) xs = (length xs + 1, xs @ [p])"
| "list_op (Set i p) xs = (if i < length xs then (p, xs[i := p]) else (NULL, xs))"
| "list_op (Delete i) xs = (if i < length xs then (xs ! i, take i xs @ drop (Suc i) xs) else (NULL, xs))"
| "list_op (Delete_ptr p) xs = (if p \<in> set xs then (p, remove1 p xs) else (NULL, xs))"
| "list_op Shift xs = (case xs of [] \<Rightarrow> (NULL, []) | x # xs \<Rightarrow> (x, xs))"
| "list_op Pop xs = (if xs = [] then (NULL, []) else (last xs, butlast xs))"
| "list_op Zero xs = (0, [])"

lemma remove1_first:
  "i < length xs \<Longrightarrow> \<forall>j<i. xs ! j \<noteq> xs ! i \<Longrightarrow> remove1 (xs ! i) xs = take i xs @ drop (Suc i) xs"
proof (induction xs arbitrary: i)
  case (Cons x xs)
  show ?case
  proof (cases i)
    case (Suc k)
    with Cons.prems have "x \<noteq> xs ! k" "\<forall>j<k. xs ! j \<noteq> xs ! k" by force+
    with Cons.IH [of k] Cons.prems Suc show ?thesis by auto
  qed simp
qed simp

text \<open>Every operation either acts on the contents as on a list, or is an insertion that found no memory.\<close>

definition op_correct :: "malloc \<Rightarrow> stack_op \<Rightarrow> stack \<Rightarrow> bool" where
  "op_correct m op s \<longleftrightarrow>
     (\<exists>r t. run_op m op s = (r, Some t) \<and> stack_ok t \<and> st_comp t = st_comp s \<and>
        ((r, contents t) = list_op op (contents s) \<or>
         r = 0 \<and> t = s \<and> sk_grow m s = None \<and> (\<exists>p i. op = Insert p i \<or> op = Push p)))"

lemma run_op_insert:
  assumes "malloc_spec m" and "stack_ok s"
  shows "op_correct m (Insert p i) s"
proof -
  obtain r t where e: "sk_insert m (Some s) p i = (r, t)" by fastforce
  from sk_insert_Some [OF assms e] e assms(2) show ?thesis by (auto simp: op_correct_def)
qed

lemma run_op_delete:
  assumes "stack_ok s"
  shows "op_correct m (Delete i) s"
proof (cases "i < st_num s")
  case True
  from sk_delete_Some [OF assms True] True assms show ?thesis by (auto simp: op_correct_def)
next
  case False
  with assms show ?thesis by (simp add: op_correct_def sk_delete_def)
qed

lemma run_op_correct:
  assumes "malloc_spec m" and "stack_ok s"
  shows "op_correct m op s"
proof (cases op)
  case (Push p)
  from run_op_insert [OF assms, of p "st_num s"] assms(2) Push show ?thesis
    by (auto simp: op_correct_def sk_push_def)
next
  case (Set i p)
  with assms(2) show ?thesis
    by (auto simp: op_correct_def sk_set_def stack_ok_def contents_def take_update_swap)
next
  case (Delete_ptr p)
  show ?thesis
  proof (cases "find_pointer p (contents s)")
    case None
    moreover from this have "p \<notin> set (contents s)" by (simp add: find_pointer_None)
    ultimately show ?thesis
      using Delete_ptr assms(2) by (auto simp: op_correct_def sk_delete_ptr_def simp flip: contents_def)
  next
    case (Some i)
    note F = find_pointer_Some [OF this]
    then have i: "i < st_num s" using assms(2) by simp
    from sk_delete_Some [OF assms(2) i] obtain t where t: "sk_delete (Some s) i = (p, Some t)" "stack_ok t"
      "st_comp t = st_comp s" "contents t = take i (contents s) @ drop (Suc i) (contents s)" using F by auto
    have "remove1 p (contents s) = contents t" using remove1_first [of i "contents s"] F t(4) by auto
    moreover have "p \<in> set (contents s)" using F by (metis nth_mem)
    ultimately show ?thesis
      using Some t by (auto simp: op_correct_def Delete_ptr sk_delete_ptr_def contents_def [symmetric])
  qed
next
  case Shift
  show ?thesis
  proof (cases "st_num s = 0")
    case True
    then have "contents s = []" by (simp add: contents_def)
    with True Shift assms(2) show ?thesis by (simp add: op_correct_def sk_shift_def)
  next
    case False
    then have "0 < st_num s" by simp
    from sk_delete_Some [OF assms(2) this] False Shift length_contents [OF assms(2)] show ?thesis
      by (cases "contents s") (auto simp: op_correct_def sk_shift_def)
  qed
next
  case Pop
  show ?thesis
  proof (cases "st_num s = 0")
    case True
    then have "contents s = []" by (simp add: contents_def)
    with True Pop assms(2) show ?thesis by (simp add: op_correct_def sk_pop_def)
  next
    case False
    then have "st_num s - 1 < st_num s" by simp
    from sk_delete_Some [OF assms(2) this] False Pop length_contents [OF assms(2)] show ?thesis
      by (auto simp: op_correct_def sk_pop_def last_conv_nth butlast_conv_take simp flip: length_0_conv)
  qed
next
  case Zero
  with assms(2) show ?thesis by (auto simp: op_correct_def sk_zero_def stack_ok_def contents_def)
qed (use run_op_insert [OF assms] run_op_delete [OF assms(2)] in auto)

text \<open>Sequences of operations.\<close>

fun run_ops :: "malloc \<Rightarrow> stack_op list \<Rightarrow> stack \<Rightarrow> nat list \<times> stack option" where
  "run_ops m [] s = ([], Some s)"
| "run_ops m (op # ops) s =
     (case run_op m op s of
        (r, None) \<Rightarrow> ([r], None)
      | (r, Some s) \<Rightarrow> (case run_ops m ops s of (rs, s) \<Rightarrow> (r # rs, s)))"

fun list_ops :: "stack_op list \<Rightarrow> ptr list \<Rightarrow> nat list \<times> ptr list" where
  "list_ops [] xs = ([], xs)"
| "list_ops (op # ops) xs = (case list_op op xs of (r, xs) \<Rightarrow> case list_ops ops xs of (rs, xs) \<Rightarrow> (r # rs, xs))"

lemma length_list_op: "length (snd (list_op op xs)) \<le> length xs + 1"
  by (cases op) (auto simp: length_remove1 split: list.splits)

lemma run_ops_list:
  assumes "malloc_spec m" and "malloc_total m" and "stack_ok s" and "st_num s + length ops < 2 ^ 58"
  shows "\<exists>t. run_ops m ops s = (fst (list_ops ops (contents s)), Some t) \<and> stack_ok t \<and>
    contents t = snd (list_ops ops (contents s)) \<and> st_comp t = st_comp s"
  using assms(3,4)
proof (induction ops arbitrary: s)
  case (Cons op ops)
  have "sk_grow m s \<noteq> None" using sk_grow_total [OF assms(2) Cons.prems(1)] Cons.prems(2) by simp
  with run_op_correct [OF assms(1) Cons.prems(1), of op] obtain r t
    where t: "run_op m op s = (r, Some t)" "stack_ok t" "st_comp t = st_comp s"
      "(r, contents t) = list_op op (contents s)" by (auto simp: op_correct_def)
  have "st_num t \<le> st_num s + 1"
    using length_list_op [of op "contents s"] t(2) Cons.prems(1) by (simp flip: t(4))
  then have "st_num t + length ops < 2 ^ 58" using Cons.prems(2) by simp
  from Cons.IH [OF t(2) this] t show ?case
    by (auto simp flip: t(4) split: prod.splits)
qed auto


section \<open>Sorting and searching\<close>

text \<open>What the flag \<^verbatim>\<open>sorted\<close> is documented to mean.\<close>

definition flag_ok :: "compare \<Rightarrow> stack \<Rightarrow> bool" where
  "flag_ok call s \<longleftrightarrow>
     (st_sorted s \<longrightarrow> (case st_comp s of None \<Rightarrow> True | Some f \<Rightarrow> ascending (call f) (contents s)))"

lemma walk_back: "walk_back eq i \<le> i \<and> (\<forall>j. walk_back eq i \<le> j \<and> j < i \<longrightarrow> eq j) \<and>
  (walk_back eq i = 0 \<or> \<not> eq (walk_back eq i - 1))"
  by (induction i) (auto simp: less_Suc_eq)

lemma ascending_equal_run:
  assumes "compare_ok c" and "ascending c xs" and "j < k" and "k < i" and "i < length xs"
    and "c p (xs ! j) = 0" and "c p (xs ! i) = 0"
  shows "c p (xs ! k) = 0"
proof -
  have "c (xs ! j) (xs ! k) \<le> 0" "c (xs ! k) (xs ! i) \<le> 0"
    using assms(2-5) by (simp_all add: sorted_wrt_iff_nth_less)
  moreover have "c p (xs ! j) \<le> 0" "c (xs ! i) p \<le> 0"
    using assms(6,7) compare_okD(1) [OF assms(1), of p "xs ! i"] by simp_all
  ultimately have "c p (xs ! k) \<le> 0" "c (xs ! k) p \<le> 0" using compare_okD(3) [OF assms(1)] by blast+
  then show ?thesis using compare_okD(2) [OF assms(1), of p "xs ! k"] compare_okD(2) [OF assms(1), of "xs ! k" p] by linarith
qed

lemma walk_back_first:
  assumes "compare_ok c" and "ascending c xs" and "i < length xs" and "c p (xs ! i) = 0"
  defines "k \<equiv> walk_back (\<lambda>i. c p (xs ! i) = 0) i"
  shows "k < length xs" and "c p (xs ! k) = 0" and "\<forall>j<k. c p (xs ! j) \<noteq> 0"
proof -
  note W = walk_back [of "\<lambda>i. c p (xs ! i) = 0" i, folded k_def]
  show "k < length xs" using W assms(3) by linarith
  show k: "c p (xs ! k) = 0" using W assms(4) by (cases "k = i") auto
  show "\<forall>j<k. c p (xs ! j) \<noteq> 0"
  proof (intro allI impI notI)
    fix j assume j: "j < k" "c p (xs ! j) = 0"
    then have "c p (xs ! (k - 1)) = 0"
      using ascending_equal_run [OF assms(1,2), of j "k - 1" k p] k \<open>k < length xs\<close>
      by (cases "j = k - 1") auto
    with W j show False by auto
  qed
qed


lemma sk_sort_Some:
  assumes "sorting_library qs bs" and "stack_ok s" and "st_comp s = Some f" and "compare_ok (call f)" and "flag_ok call s"
  shows "\<exists>t. sk_sort qs call (Some s) = Some t \<and> stack_ok t \<and> mset (contents t) = mset (contents s) \<and>
    ascending (call f) (contents t) \<and> st_num t = st_num s \<and> st_comp t = Some f \<and> flag_ok call t"
proof (cases "st_sorted s")
  case True
  with assms show ?thesis by (auto simp: sk_sort_def flag_ok_def)
next
  case False
  note L = assms(1)
  let ?xs = "qs (call f) (contents s)"
  have len: "length ?xs = st_num s"
    using sorting_library.qs_length [OF L assms(4)] assms(2) by simp
  have "sk_sort qs call (Some s) = Some (s\<lparr>st_data := ?xs @ drop (st_num s) (st_data s), st_sorted := True\<rparr>)"
    using False assms(3) by (simp add: sk_sort_def contents_def)
  then show ?thesis
    using len assms(2,3) sorting_library.qs_mset [OF L assms(4)] sorting_library.qs_ascending [OF L assms(4)]
    by (auto simp: stack_ok_def contents_def flag_ok_def)
qed

lemma flag_ok_run_op:
  assumes "malloc_spec m" and "stack_ok s" and "flag_ok call s" and "run_op m op s = (r, Some t)"
    and "\<forall>i p. op \<noteq> Set i p"
  shows "flag_ok call t"
proof -
  have del: "flag_ok call t" if d: "sk_delete (Some s) i = (r, Some t)" for i r t
  proof (cases "i < st_num s")
    case True
    from sk_delete_Some [OF assms(2) True] d have
      t: "st_comp t = st_comp s" "st_sorted t = st_sorted s" "contents t = take i (contents s) @ drop (Suc i) (contents s)"
      by auto
    have "ascending c (take i xs @ drop (Suc i) xs)" if "ascending c xs" for c :: "ptr \<Rightarrow> ptr \<Rightarrow> int" and xs
    proof -
      have "ascending c (take i xs @ drop i xs)" using that by simp
      then show ?thesis by (cases "drop i xs") (auto simp: sorted_wrt_append Cons_nth_drop_Suc [symmetric] drop_Suc tl_drop [symmetric])
    qed
    with t assms(3) show ?thesis by (auto simp: flag_ok_def split: option.splits)
  next
    case False
    with d assms(3) show ?thesis by (simp add: sk_delete_def)
  qed
  have ins: "flag_ok call t" if d: "sk_insert m (Some s) p i = (r, Some t)" for p i r t
    using sk_insert_Some [OF assms(1,2) d] assms(3) by (auto simp: flag_ok_def)
  show ?thesis
  proof (cases op)
    case Zero
    with assms(3,4) show ?thesis by (auto simp: sk_zero_def flag_ok_def split: if_splits)
  qed (use assms(3-) del ins in \<open>auto simp: sk_push_def sk_delete_ptr_def sk_shift_def sk_pop_def
      split: if_splits option.splits\<close>)
qed


lemma sk_find_first:
  assumes "sorting_library qs bs" and "stack_ok s" and "st_comp s = Some f" and "compare_ok (call f)"
    and "flag_ok call s" and "p \<noteq> NULL"
  shows "\<exists>r t. sk_find qs bs call (Some s) p = (r, Some t) \<and> stack_ok t \<and>
    mset (contents t) = mset (contents s) \<and> ascending (call f) (contents t) \<and> flag_ok call t \<and>
    (case r of
       None \<Rightarrow> \<forall>x\<in>set (contents s). call f p x \<noteq> 0
     | Some k \<Rightarrow> k < st_num t \<and> call f p (contents t ! k) = 0 \<and> (\<forall>j<k. call f p (contents t ! j) \<noteq> 0))"
proof -
  obtain t where t: "sk_sort qs call (Some s) = Some t" "stack_ok t" "mset (contents t) = mset (contents s)"
    "ascending (call f) (contents t)" "flag_ok call t"
    using sk_sort_Some [OF assms(1-5)] by blast
  have set: "set (contents t) = set (contents s)" using t(3) by (metis set_mset_mset)
  show ?thesis
  proof (cases "bs (call f) p (contents t)")
    case None
    then have "sk_find qs bs call (Some s) p = (None, Some t)"
      using assms(3,6) t(1) by (simp add: sk_find_def contents_def)
    moreover have "\<forall>x\<in>set (contents s). call f p x \<noteq> 0"
      using None sorting_library.bs_iff [OF assms(1,4) t(4)] by (simp add: set)
    ultimately show ?thesis using t by simp
  next
    case (Some i)
    from sorting_library.bs_Some [OF assms(1,4) t(4) Some]
    have i: "i < length (contents t)" "call f p (contents t ! i) = 0" by simp_all
    let ?k = "walk_back (\<lambda>i. call f p (contents t ! i) = 0) i"
    note W = walk_back_first [OF assms(4) t(4) i]
    have same: "walk_back (\<lambda>i. call f p (st_data t ! i) = 0) j = walk_back (\<lambda>i. call f p (contents t ! i) = 0) j"
      if "j \<le> st_num t" for j
      using that by (induction j) (auto simp: nth_contents)
    have "i \<le> st_num t" using i(1) t(2) by simp
    then have "sk_find qs bs call (Some s) p = (Some ?k, Some t)"
      using assms(3,6) t(1) Some by (simp add: sk_find_def same contents_def [symmetric])
    with W t show ?thesis by simp
  qed
qed

section \<open>Copies\<close>

lemma sk_dup_Some:
  assumes "malloc_spec m" and "stack_ok s" and "sk_dup m (Some s) = Some t"
  shows "stack_ok t \<and> contents t = contents s \<and> st_comp t = st_comp s \<and> st_sorted t = st_sorted s \<and>
    st_num t = st_num s"
proof -
  obtain ret data where r: "sk_new m (st_comp s) = Some ret"
    and d: "realloc_pointers m (st_data ret) (size_mul 8 (st_num_alloc s)) = Some data"
    and t: "t = \<lparr>st_num = st_num s, st_data = take (st_num s) (st_data s) @ drop (st_num s) data,
                st_sorted = st_sorted s, st_num_alloc = st_num_alloc s, st_comp = st_comp s\<rparr>"
    using assms(3) by (auto simp: sk_dup_def split: option.splits)
  have n: "st_num_alloc s < 2 ^ 61 - 1" and sz: "size_mul 8 (st_num_alloc s) = st_num_alloc s * 8"
    using assms(2) by (simp_all add: stack_ok_def size_mul_def)
  from realloc_pointers_Some(1) [OF assms(1) d [unfolded sz] n] assms(2) show ?thesis
    by (auto simp: t stack_ok_def contents_def)
qed

text \<open>The copies made until the first failure.\<close>

lemma copy_entries_length:
  "copy_entries copy_func ps w = (ok, qs, w') \<Longrightarrow> length qs \<le> length ps \<and> (ok \<longleftrightarrow> length qs = length ps)"
  by (induction ps arbitrary: qs w) (auto split: if_splits prod.splits)


text \<open>
  \<open>live\<close> counts the objects of the elements' type that exist: a copy that succeeds adds its result, and freeing a live
  object removes it.
\<close>

definition copier :: "('w \<Rightarrow> ptr multiset) \<Rightarrow> ('w \<Rightarrow> ptr \<Rightarrow> ptr \<times> 'w) \<Rightarrow> ('w \<Rightarrow> ptr \<Rightarrow> 'w) \<Rightarrow> bool" where
  "copier live copy_func free_func \<longleftrightarrow>
     (\<forall>w p q w'. copy_func w p = (q, w') \<longrightarrow> live w' = (if q = NULL then live w else add_mset q (live w))) \<and>
     (\<forall>w q. q \<in># live w \<longrightarrow> live (free_func w q) = live w - {#q#})"

lemma copy_entries_live:
  assumes "copier live copy_func free_func"
  shows "copy_entries copy_func ps w = (ok, qs, w') \<Longrightarrow> live w' = live w + mset (filter (\<lambda>q. q \<noteq> NULL) qs)"
proof (induction ps arbitrary: ok qs w)
  case (Cons p ps)
  show ?case
  proof (cases "p = NULL")
    case True
    with Cons.prems obtain qs1 where "copy_entries copy_func ps w = (ok, qs1, w')" "qs = NULL # qs1"
      by (auto split: prod.splits)
    with Cons.IH show ?thesis by auto
  next
    case False
    obtain q w1 where q: "copy_func w p = (q, w1)" by fastforce
    have l: "live w1 = (if q = NULL then live w else add_mset q (live w))"
      using assms q by (simp add: copier_def)
    show ?thesis
    proof (cases "q = NULL")
      case True
      with Cons.prems False q l show ?thesis by simp
    next
      case nonnull: False
      then obtain qs1 where "copy_entries copy_func ps w1 = (ok, qs1, w')" "qs = q # qs1"
        using Cons.prems False q by (auto split: prod.splits)
      with Cons.IH [of w1 ok qs1] nonnull l show ?thesis by simp
    qed
  qed
qed simp

lemma free_entries_live:
  assumes "copier live copy_func free_func"
  shows "mset (filter (\<lambda>q. q \<noteq> NULL) qs) \<subseteq># live w \<Longrightarrow>
    live (fold (\<lambda>q w. if q \<noteq> NULL then free_func w q else w) qs w) = live w - mset (filter (\<lambda>q. q \<noteq> NULL) qs)"
proof (induction qs arbitrary: w)
  case (Cons q qs)
  show ?case
  proof (cases "q = NULL")
    case False
    then have "q \<in># live w" using Cons.prems by (simp add: insert_subset_eq_iff)
    then have l: "live (free_func w q) = live w - {#q#}" using assms by (simp add: copier_def)
    have "mset (filter (\<lambda>q. q \<noteq> NULL) qs) \<subseteq># live (free_func w q)"
      using Cons.prems False l by (simp add: insert_subset_eq_iff)
    with Cons.IH False l show ?thesis by simp
  qed (use Cons in simp)
qed simp

section \<open>Properties\<close>

text \<open>C38.
  A stack is a list: any sequence of insertions, pushes, assignments, deletions by index or pointer, shifts, pops and resets gives, with
  memory to be had, exactly the results and the contents that the list operations give, and keeps the stack's invariant.
\<close>

theorem stack_refines_list:
  assumes "malloc_spec m" and "malloc_total m" and "stack_ok s" and "st_num s + length ops < 2 ^ 58"
  shows "\<exists>t. run_ops m ops s = (fst (list_ops ops (contents s)), Some t) \<and> stack_ok t \<and>
    contents t = snd (list_ops ops (contents s))"
  using run_ops_list [OF assms] by blast

definition example_stack :: stack where
  "example_stack = \<lparr>st_num = 2, st_data = [1, 3, 0, 0], st_sorted = True, st_num_alloc = 4, st_comp = Some 0\<rparr>"

lemma example_stack_ok: "stack_ok example_stack"
  by (simp add: stack_ok_def example_stack_def)

lemma stack_refines_list_witness:
  "\<exists>t. run_ops zero_malloc [Push 7, Insert 8 0, Delete_ptr 3, Pop] example_stack = ([3, 4, 3, 7], Some t) \<and>
     contents t = [8, 1]"
proof -
  let ?ops = "[Push 7, Insert 8 0, Delete_ptr 3, Pop]"
  have "contents example_stack = [1, 3]" by (simp add: example_stack_def contents_def)
  then have l: "list_ops ?ops (contents example_stack) = ([3, 4, 3, 7], [8, 1])" by simp
  have "st_num example_stack + length ?ops < 2 ^ 58" by (simp add: example_stack_def)
  from stack_refines_list [OF malloc_zero_malloc example_stack_ok this, unfolded l] show ?thesis by auto
qed

text \<open>No operation is torn by a failed allocation: whatever the allocator does, every operation either has its effect on the list or is an
  insertion that returns 0 and leaves the stack as it was.
\<close>

theorem stack_operations_atomic:
  assumes "malloc_spec m" and "stack_ok s"
  shows "\<exists>r t. run_op m op s = (r, Some t) \<and> stack_ok t \<and>
    ((r, contents t) = list_op op (contents s) \<or> r = 0 \<and> t = s)"
  using run_op_correct [OF assms, of op] by (auto simp: op_correct_def)

lemma stack_operations_atomic_witness:
  "\<exists>r t. run_op (\<lambda>_. None) (Push 7) example_stack = (r, Some t) \<and>
     ((r, contents t) = list_op (Push 7) (contents example_stack) \<or> r = 0 \<and> t = example_stack)"
proof -
  have "malloc_spec (\<lambda>_. None)" by (simp add: malloc_spec_def)
  from stack_operations_atomic [OF this example_stack_ok, of "Push 7"] show ?thesis by blast
qed

text \<open>C39.
  With a comparison function that is an order, for every \<^verbatim>\<open>qsort\<close> and \<^verbatim>\<open>bsearch\<close> that keep the promises of the C standard, \<^verbatim>\<open>sk_find\<close> leaves the
  same elements in ascending order and returns the index of the first one equal to the key, or nothing exactly when there is none.
\<close>

theorem sk_find_returns_first:
  assumes "sorting_library qs bs" and "stack_ok s" and "st_comp s = Some f" and "compare_ok (call f)"
    and "flag_ok call s" and "p \<noteq> NULL"
  shows "\<exists>r t. sk_find qs bs call (Some s) p = (r, Some t) \<and> mset (contents t) = mset (contents s) \<and>
    ascending (call f) (contents t) \<and>
    (case r of
       None \<Rightarrow> \<forall>x\<in>set (contents s). call f p x \<noteq> 0
     | Some k \<Rightarrow> k < st_num t \<and> call f p (contents t ! k) = 0 \<and> (\<forall>j<k. call f p (contents t ! j) \<noteq> 0))"
  using sk_find_first [OF assms] by blast

definition by_address :: compare where
  "by_address f p q = int p - int q"

lemma by_address_ok: "compare_ok (by_address f)"
  by (auto simp: compare_ok_def by_address_def)

lemma sk_find_returns_first_witness:
  "\<exists>r t. sk_find qsort bsearch by_address (Some example_stack) 3 = (r, Some t) \<and>
     mset (contents t) = {#1, 3#} \<and> (r = None \<longrightarrow> by_address 0 3 3 \<noteq> 0)"
proof -
  have f: "flag_ok by_address example_stack" "st_comp example_stack = Some 0"
    by (simp_all add: flag_ok_def example_stack_def by_address_def contents_def)
  from sk_find_returns_first [OF libc.sorting_library_axioms example_stack_ok f(2) by_address_ok f(1), of 3]
  show ?thesis by (fastforce simp: example_stack_def contents_def)
qed

text \<open>The flag \<^verbatim>\<open>sorted\<close> stays true to its documented meaning under every operation but \<^verbatim>\<open>sk_set\<close>.
\<close>

theorem sorted_flag_truthful:
  assumes "malloc_spec m" and "stack_ok s" and "flag_ok call s" and "run_op m op s = (r, Some t)"
    and "\<forall>i p. op \<noteq> Set i p"
  shows "flag_ok call t"
  by (rule flag_ok_run_op [OF assms])

lemma sorted_flag_truthful_witness:
  "\<exists>r t. run_op zero_malloc Shift example_stack = (r, Some t) \<and> flag_ok by_address t"
proof -
  obtain r t where r: "run_op zero_malloc Shift example_stack = (r, Some t)"
    using run_op_correct [OF malloc_zero_malloc(1) example_stack_ok, of Shift] by (auto simp: op_correct_def)
  have "flag_ok by_address example_stack"
    by (simp add: flag_ok_def example_stack_def by_address_def contents_def)
  from sorted_flag_truthful [OF malloc_zero_malloc(1) example_stack_ok this r] r show ?thesis by auto
qed

text \<open>\<^verbatim>\<open>sk_set\<close> is the exception: it replaces an entry and leaves the flag as it was, so that a later \<^verbatim>\<open>sk_find\<close> searches an unsorted array
  and misses an element that is there.
\<close>

theorem sk_set_breaks_sorting:
  "\<exists>t. sk_set (Some example_stack) 0 9 = (9, Some t) \<and> sk_is_sorted (Some t) \<and> contents t = [9, 3] \<and>
    fst (sk_find qsort bsearch by_address (Some t) 9) = None"
  by (simp add: sk_set_def example_stack_def sk_is_sorted_def contents_def sk_find_def sk_sort_def bsearch_def
      bsearch_between.simps by_address_def numeral_2_eq_2)

text \<open>\<^verbatim>\<open>sk_deep_copy\<close> does not leak: when copying an element fails, every copy made before has been freed and no stack is returned; when it
  succeeds, the copies are exactly the non-null entries of the new stack.
\<close>

theorem deep_copy_does_not_leak:
  assumes "copier live copy_func free_func" and "sk_deep_copy m copy_func free_func (Some s) w = (r, w')"
  shows "(r = None \<longrightarrow> live w' = live w) \<and>
    (\<forall>t. r = Some t \<longrightarrow> live w' = live w + mset (filter (\<lambda>q. q \<noteq> NULL) (contents t)))"
proof (cases "sk_dup m (Some s)")
  case None
  with assms(2) show ?thesis by (simp add: sk_deep_copy_def)
next
  case (Some d)
  obtain ok qs w1 where c: "copy_entries copy_func (contents d) w = (ok, qs, w1)"
    by (cases "copy_entries copy_func (contents d) w")
  note l = copy_entries_live [OF assms(1) c]
  show ?thesis
  proof (cases ok)
    case True
    with copy_entries_length [OF c] have n: "length qs = length (contents d)" by simp
    have "r = Some (d\<lparr>st_data := qs @ drop (st_num d) (st_data d)\<rparr>)" "w' = w1"
      using assms(2) Some c True by (simp_all add: sk_deep_copy_def contents_def)
    moreover have "take (st_num d) (qs @ drop (st_num d) (st_data d)) = qs"
      using n by (simp add: contents_def min_def split: if_splits)
    ultimately show ?thesis using l by (simp add: contents_def)
  next
    case False
    have "r = None" "w' = fold (\<lambda>q w. if q \<noteq> NULL then free_func w q else w) qs w1"
      using assms(2) Some c False by (simp_all add: sk_deep_copy_def contents_def)
    with free_entries_live [OF assms(1), of qs w1] l show ?thesis by simp
  qed
qed

definition example_copy :: "ptr list \<Rightarrow> ptr \<Rightarrow> ptr \<times> ptr list" where
  "example_copy w p = (if p = 3 then (NULL, w) else (p + 10, (p + 10) # w))"

lemma deep_copy_does_not_leak_witness:
  "\<exists>r w'. sk_deep_copy zero_malloc example_copy (\<lambda>w q. remove1 q w) (Some example_stack) [] = (r, w') \<and>
     (r = None \<longrightarrow> mset w' = {#})"
proof -
  have c: "copier mset example_copy (\<lambda>w q. remove1 q w)"
    by (auto simp: copier_def example_copy_def split: if_splits)
  obtain r w' where r: "sk_deep_copy zero_malloc example_copy (\<lambda>w q. remove1 q w) (Some example_stack) [] = (r, w')"
    by fastforce
  from deep_copy_does_not_leak [OF c r] r show ?thesis by auto
qed

end
