(* ===== verification/LHash.thy ===== *)
theory LHash
  imports Stack
begin

text \<open>
  \<^verbatim>\<open>BoringSSL/crypto/lhash/lhash.c\<close>: a hash table with chaining that resizes itself.  A bucket is the list of the items of
  its chain.  Every item carries a number that stands for its address, so that a walk over the table can notice that the item it
  was about to visit has been freed.  Data are pointers; the comparison and hash functions of a table are the fields
  \<open>lh_comp\<close> and \<open>lh_hash\<close>.
\<close>

section \<open>Types\<close>

record lh_item =
  it_id :: nat
  it_data :: ptr
  it_hash :: u32

record lhash =
  lh_count :: nat
  lh_buckets :: "lh_item list list"
  lh_num_buckets :: nat
  callback_depth :: nat
  lh_comp :: "ptr \<Rightarrow> ptr \<Rightarrow> int"
  lh_hash :: "ptr \<Rightarrow> u32"
  lh_next_id :: nat

definition kMinNumBuckets :: nat where "kMinNumBuckets = 16"
definition kMaxAverageChainLength :: nat where "kMaxAverageChainLength = 2"
definition kMinAverageChainLength :: nat where "kMinAverageChainLength = 1"

section \<open>Operations\<close>

definition lh_new :: "malloc \<Rightarrow> (ptr \<Rightarrow> u32) \<Rightarrow> (ptr \<Rightarrow> ptr \<Rightarrow> int) \<Rightarrow> lhash option" where
  "lh_new m hash cmp =
     (case OPENSSL_malloc m 48 of
        None \<Rightarrow> None
      | Some _ \<Rightarrow>
          (case OPENSSL_malloc m (size_mul 8 kMinNumBuckets) of
             None \<Rightarrow> None
           | Some _ \<Rightarrow> Some \<lparr>lh_count = 0, lh_buckets = replicate kMinNumBuckets [], lh_num_buckets = kMinNumBuckets,
                              callback_depth = 0, lh_comp = cmp, lh_hash = hash, lh_next_id = 0\<rparr>))"

text \<open>The items \<^verbatim>\<open>lh_free\<close> frees, one after the other.\<close>

definition lh_free :: "lhash option \<Rightarrow> nat list" where
  "lh_free lh = (case lh of None \<Rightarrow> [] | Some lh \<Rightarrow> concat (map (map it_id) (lh_buckets lh)))"

definition lh_num_items :: "lhash \<Rightarrow> nat" where
  "lh_num_items lh = lh_count lh"

text \<open>\<^verbatim>\<open>get_next_ptr_and_hash\<close>: the hash, and where the pointer it returns lies: the bucket and the position in its chain.\<close>

fun chain_position :: "(ptr \<Rightarrow> ptr \<Rightarrow> int) \<Rightarrow> ptr \<Rightarrow> lh_item list \<Rightarrow> nat" where
  "chain_position cmp data [] = 0"
| "chain_position cmp data (cur # rest) =
     (if cmp (it_data cur) data = 0 then 0 else Suc (chain_position cmp data rest))"

definition get_next_ptr_and_hash :: "lhash \<Rightarrow> ptr \<Rightarrow> u32 \<times> nat \<times> nat" where
  "get_next_ptr_and_hash lh data =
     (let hash = lh_hash lh data; i = unat hash mod lh_num_buckets lh
      in (hash, i, chain_position (lh_comp lh) data (lh_buckets lh ! i)))"

definition lh_retrieve :: "lhash \<Rightarrow> ptr \<Rightarrow> ptr" where
  "lh_retrieve lh data =
     (case get_next_ptr_and_hash lh data of (_, i, k) \<Rightarrow>
        if k = length (lh_buckets lh ! i) then NULL else it_data (lh_buckets lh ! i ! k))"

definition rebucket_item :: "nat \<Rightarrow> lh_item list list \<Rightarrow> lh_item \<Rightarrow> lh_item list list" where
  "rebucket_item new_num_buckets new_buckets cur =
     (let new_bucket = unat (it_hash cur) mod new_num_buckets
      in new_buckets[new_bucket := cur # new_buckets ! new_bucket])"

definition lh_rebucket :: "malloc \<Rightarrow> lhash \<Rightarrow> nat \<Rightarrow> lhash" where
  "lh_rebucket m lh new_num_buckets =
     (let alloc_size = size_mul 8 new_num_buckets in
      if alloc_size div 8 \<noteq> new_num_buckets then lh
      else case OPENSSL_malloc m alloc_size of
          None \<Rightarrow> lh
        | Some _ \<Rightarrow>
            lh\<lparr>lh_num_buckets := new_num_buckets,
               lh_buckets := foldl (foldl (rebucket_item new_num_buckets)) (replicate new_num_buckets []) (lh_buckets lh)\<rparr>)"

definition lh_maybe_resize :: "malloc \<Rightarrow> lhash \<Rightarrow> lhash" where
  "lh_maybe_resize m lh =
     (if callback_depth lh > 0 then lh
      else
        let avg_chain_length = lh_count lh div lh_num_buckets lh in
        if avg_chain_length > kMaxAverageChainLength then
          (let new_num_buckets = size_mul (lh_num_buckets lh) 2 in
           if new_num_buckets > lh_num_buckets lh then lh_rebucket m lh new_num_buckets else lh)
        else if avg_chain_length < kMinAverageChainLength \<and> lh_num_buckets lh > kMinNumBuckets then
          (let new_num_buckets = lh_num_buckets lh div 2;
               new_num_buckets = (if new_num_buckets < kMinNumBuckets then kMinNumBuckets else new_num_buckets)
           in lh_rebucket m lh new_num_buckets)
        else lh)"

text \<open>The return value, \<^verbatim>\<open>*old_data\<close> and the table.\<close>

definition lh_insert :: "malloc \<Rightarrow> lhash \<Rightarrow> ptr \<Rightarrow> bool \<times> ptr \<times> lhash" where
  "lh_insert m lh data =
     (case get_next_ptr_and_hash lh data of (hash, i, k) \<Rightarrow>
        let chn = lh_buckets lh ! i in
        if k < length chn then
          (True, it_data (chn ! k), lh\<lparr>lh_buckets := (lh_buckets lh)[i := chn[k := (chn ! k)\<lparr>it_data := data\<rparr>]]\<rparr>)
        else case OPENSSL_malloc m 24 of
            None \<Rightarrow> (False, NULL, lh)
          | Some _ \<Rightarrow>
              let item = \<lparr>it_id = lh_next_id lh, it_data = data, it_hash = hash\<rparr>
              in (True, NULL, lh_maybe_resize m
                   (lh\<lparr>lh_buckets := (lh_buckets lh)[i := chn @ [item]], lh_count := lh_count lh + 1,
                       lh_next_id := lh_next_id lh + 1\<rparr>)))"

definition lh_delete :: "malloc \<Rightarrow> lhash \<Rightarrow> ptr \<Rightarrow> ptr \<times> lhash" where
  "lh_delete m lh data =
     (case get_next_ptr_and_hash lh data of (_, i, k) \<Rightarrow>
        let chn = lh_buckets lh ! i in
        if k = length chn then (NULL, lh)
        else (it_data (chn ! k), lh_maybe_resize m
               (lh\<lparr>lh_buckets := (lh_buckets lh)[i := take k chn @ drop (Suc k) chn], lh_count := lh_count lh - 1\<rparr>)))"

section \<open>Iteration\<close>

text \<open>
  The loops of \<^verbatim>\<open>lh_doall_internal\<close>: \<open>cur\<close> is the item about to be visited in bucket \<open>i\<close>; the callback gets the table, since it
  may add or remove elements, and the state \<open>w\<close> of the rest of the program.  The result is \<open>None\<close> when the walk reaches an item that
  has been freed, and when it does not end.
\<close>

definition first_id :: "lh_item list \<Rightarrow> nat option" where
  "first_id chn = (case chn of [] \<Rightarrow> None | it # _ \<Rightarrow> Some (it_id it))"

partial_function (option) doall_from ::
  "(lhash \<Rightarrow> 'w \<Rightarrow> ptr \<Rightarrow> lhash \<times> 'w) \<Rightarrow> nat \<Rightarrow> nat option \<Rightarrow> lhash \<Rightarrow> 'w \<Rightarrow> (lhash \<times> 'w) option" where
  "doall_from f i cur lh w =
     (case cur of
        None \<Rightarrow>
          if i + 1 < lh_num_buckets lh then doall_from f (i + 1) (first_id (lh_buckets lh ! (i + 1))) lh w
          else Some (lh, w)
      | Some n \<Rightarrow>
          (case dropWhile (\<lambda>it. it_id it \<noteq> n) (lh_buckets lh ! i) of
             [] \<Rightarrow> None
           | it # rest \<Rightarrow>
               (case f lh w (it_data it) of (lh', w') \<Rightarrow> doall_from f i (first_id rest) lh' w')))"

definition UINT_MAX :: nat where "UINT_MAX = 2 ^ 32 - 1"

definition lh_doall_internal ::
  "malloc \<Rightarrow> lhash option \<Rightarrow> (lhash \<Rightarrow> 'w \<Rightarrow> ptr \<Rightarrow> lhash \<times> 'w) \<Rightarrow> 'w \<Rightarrow> (lhash option \<times> 'w) option" where
  "lh_doall_internal m lh f w =
     (case lh of
        None \<Rightarrow> Some (None, w)
      | Some lh \<Rightarrow>
          let lh = (if callback_depth lh < UINT_MAX then lh\<lparr>callback_depth := callback_depth lh + 1\<rparr> else lh) in
          (case doall_from f 0 (first_id (lh_buckets lh ! 0)) lh w of
             None \<Rightarrow> None
           | Some (lh, w) \<Rightarrow>
               let lh = (if callback_depth lh < UINT_MAX then lh\<lparr>callback_depth := callback_depth lh - 1\<rparr> else lh)
               in Some (Some (lh_maybe_resize m lh), w)))"

definition lh_doall ::
  "malloc \<Rightarrow> lhash option \<Rightarrow> (lhash \<Rightarrow> 'w \<Rightarrow> ptr \<Rightarrow> lhash \<times> 'w) \<Rightarrow> 'w \<Rightarrow> (lhash option \<times> 'w) option" where
  "lh_doall m lh func w = lh_doall_internal m lh func w"

definition lh_doall_arg ::
  "malloc \<Rightarrow> lhash option \<Rightarrow> (lhash \<Rightarrow> 'w \<Rightarrow> ptr \<Rightarrow> 'arg \<Rightarrow> lhash \<times> 'w) \<Rightarrow> 'arg \<Rightarrow> 'w \<Rightarrow> (lhash option \<times> 'w) option" where
  "lh_doall_arg m lh func arg w = lh_doall_internal m lh (\<lambda>lh w data. func lh w data arg) w"

definition lh_strhash :: "bytes option \<Rightarrow> u32" where
  "lh_strhash c = (case c of None \<Rightarrow> 0 | Some s \<Rightarrow> OPENSSL_hash32 (takeWhile (\<lambda>b. b \<noteq> 0) s))"


section \<open>Invariant\<close>

text \<open>The comparison decides an equivalence that the hash function respects.\<close>

definition functions_ok :: "(ptr \<Rightarrow> ptr \<Rightarrow> int) \<Rightarrow> (ptr \<Rightarrow> u32) \<Rightarrow> bool" where
  "functions_ok cmp hash \<longleftrightarrow> (\<forall>x. cmp x x = 0) \<and> (\<forall>x y. cmp x y = 0 \<longrightarrow> cmp y x = 0) \<and>
     (\<forall>x y z. cmp x y = 0 \<longrightarrow> cmp y z = 0 \<longrightarrow> cmp x z = 0) \<and> (\<forall>x y. cmp x y = 0 \<longrightarrow> hash x = hash y)"

lemma functions_okD:
  assumes "functions_ok cmp hash"
  shows "cmp x x = 0" and "cmp x y = 0 \<Longrightarrow> cmp y x = 0" and "cmp x y = 0 \<Longrightarrow> cmp y z = 0 \<Longrightarrow> cmp x z = 0"
    and "cmp x y = 0 \<Longrightarrow> hash x = hash y"
  using assms unfolding functions_ok_def by blast+

definition items :: "lhash \<Rightarrow> lh_item list" where
  "items lh = concat (lh_buckets lh)"

definition items_ok :: "(ptr \<Rightarrow> ptr \<Rightarrow> int) \<Rightarrow> (ptr \<Rightarrow> u32) \<Rightarrow> nat \<Rightarrow> lh_item list \<Rightarrow> bool" where
  "items_ok cmp hash n xs \<longleftrightarrow> distinct (map it_id xs) \<and> (\<forall>it\<in>set xs. it_hash it = hash (it_data it) \<and> it_id it < n) \<and>
     (\<forall>a\<in>set xs. \<forall>b\<in>set xs. cmp (it_data a) (it_data b) = 0 \<longrightarrow> a = b)"

definition placed :: "nat \<Rightarrow> lh_item list list \<Rightarrow> bool" where
  "placed n bs \<longleftrightarrow> length bs = n \<and> (\<forall>i<n. \<forall>it\<in>set (bs ! i). unat (it_hash it) mod n = i)"

definition lh_ok :: "lhash \<Rightarrow> bool" where
  "lh_ok lh \<longleftrightarrow> functions_ok (lh_comp lh) (lh_hash lh) \<and> placed (lh_num_buckets lh) (lh_buckets lh) \<and>
     kMinNumBuckets \<le> lh_num_buckets lh \<and> lh_num_buckets lh < 2 ^ 60 \<and> lh_count lh = length (items lh) \<and>
     items_ok (lh_comp lh) (lh_hash lh) (lh_next_id lh) (items lh)"

lemma items_ok_perm: "mset xs = mset ys \<Longrightarrow> items_ok cmp hash n xs = items_ok cmp hash n ys"
proof -
  assume "mset xs = mset ys"
  then have "set xs = set ys" "distinct (map it_id xs) = distinct (map it_id ys)"
    by (metis set_mset_mset, metis mset_eq_imp_distinct_iff mset_map)
  then show ?thesis by (simp add: items_ok_def)
qed

text \<open>The element that is stored and equal to a key.\<close>

definition lookup :: "lhash \<Rightarrow> ptr \<Rightarrow> ptr option" where
  "lookup lh key = map_option it_data (find (\<lambda>it. lh_comp lh (it_data it) key = 0) (items lh))"

lemma lookup_iff:
  assumes "functions_ok (lh_comp lh) (lh_hash lh)" and "items_ok (lh_comp lh) (lh_hash lh) n (items lh)"
  shows "lookup lh key = Some x \<longleftrightarrow> (\<exists>it\<in>set (items lh). it_data it = x \<and> lh_comp lh x key = 0)"
proof
  assume "lookup lh key = Some x"
  then show "\<exists>it\<in>set (items lh). it_data it = x \<and> lh_comp lh x key = 0"
    by (auto simp: lookup_def find_Some_iff)
next
  assume "\<exists>it\<in>set (items lh). it_data it = x \<and> lh_comp lh x key = 0"
  then obtain it where it: "it \<in> set (items lh)" "it_data it = x" "lh_comp lh x key = 0" by blast
  then obtain b where b: "find (\<lambda>it. lh_comp lh (it_data it) key = 0) (items lh) = Some b"
    by (cases "find (\<lambda>it. lh_comp lh (it_data it) key = 0) (items lh)") (auto simp: find_None_iff)
  then have "b \<in> set (items lh)" "lh_comp lh (it_data b) key = 0" by (auto simp: find_Some_iff)
  moreover from this have "lh_comp lh (it_data b) x = 0" using functions_okD [OF assms(1)] it(3) by blast
  ultimately have "b = it" using assms(2) it(1,2) by (auto simp: items_ok_def)
  with b it(2) show "lookup lh key = Some x" by (simp add: lookup_def)
qed

lemma lookup_None:
  "lookup lh key = None \<longleftrightarrow> (\<forall>it\<in>set (items lh). lh_comp lh (it_data it) key \<noteq> 0)"
  by (auto simp: lookup_def find_None_iff)

lemma lookup_cong:
  assumes "functions_ok (lh_comp lh) (lh_hash lh)" and "items_ok (lh_comp lh) (lh_hash lh) n (items lh)"
    and "mset (items lh') = mset (items lh)" and "lh_comp lh' = lh_comp lh" and "lh_hash lh' = lh_hash lh"
  shows "lookup lh' = lookup lh"
proof (rule ext)
  fix key
  have "items_ok (lh_comp lh') (lh_hash lh') n (items lh')" using assms items_ok_perm by metis
  moreover have "set (items lh') = set (items lh)" using assms(3) by (metis set_mset_mset)
  ultimately have "lookup lh' key = Some x \<longleftrightarrow> lookup lh key = Some x" for x
    using assms lookup_iff by simp
  then show "lookup lh' key = lookup lh key" by (metis not_None_eq)
qed

section \<open>Finding a position\<close>

lemma chain_position_le: "chain_position cmp data chn \<le> length chn"
  by (induction chn) auto

lemma chain_position_less:
  "chain_position cmp data chn < length chn \<longleftrightarrow> (\<exists>it\<in>set chn. cmp (it_data it) data = 0)"
  by (induction chn) auto

lemma chain_position_found:
  "chain_position cmp data chn < length chn \<Longrightarrow> cmp (it_data (chn ! chain_position cmp data chn)) data = 0"
  by (induction chn) auto

lemma mset_concat_update:
  "i < length bs \<Longrightarrow> mset (concat (bs[i := c])) + mset (bs ! i) = mset (concat bs) + mset c"
proof (induction bs arbitrary: i)
  case (Cons b bs)
  then show ?case by (cases i) (simp_all add: ac_simps)
qed simp

text \<open>What the search finds, in terms of the stored items.\<close>

lemma get_next_cases:
  assumes "lh_ok lh" and "get_next_ptr_and_hash lh data = (hash, i, k)"
  shows "hash = lh_hash lh data" and "i = unat hash mod lh_num_buckets lh" and "i < length (lh_buckets lh)"
    and "k \<le> length (lh_buckets lh ! i)"
    and "k < length (lh_buckets lh ! i) \<Longrightarrow> lookup lh data = Some (it_data (lh_buckets lh ! i ! k)) \<and>
      lh_buckets lh ! i ! k \<in> set (items lh) \<and> lh_comp lh (it_data (lh_buckets lh ! i ! k)) data = 0"
    and "k = length (lh_buckets lh ! i) \<Longrightarrow> lookup lh data = None"
proof -
  show h: "hash = lh_hash lh data" and i: "i = unat hash mod lh_num_buckets lh"
    using assms(2) by (auto simp: get_next_ptr_and_hash_def Let_def)
  have k: "k = chain_position (lh_comp lh) data (lh_buckets lh ! i)"
    using assms(2) by (auto simp: get_next_ptr_and_hash_def Let_def)
  show il: "i < length (lh_buckets lh)" using assms(1) i by (simp add: lh_ok_def placed_def kMinNumBuckets_def)
  show "k \<le> length (lh_buckets lh ! i)" unfolding k by (rule chain_position_le)
  have ok: "functions_ok (lh_comp lh) (lh_hash lh)" "items_ok (lh_comp lh) (lh_hash lh) (lh_next_id lh) (items lh)"
    and pl: "placed (lh_num_buckets lh) (lh_buckets lh)" using assms(1) by (simp_all add: lh_ok_def)
  have mem: "it \<in> set (items lh)" if "it \<in> set (lh_buckets lh ! i)" for it
    using that il by (auto simp: items_def)
  show "lookup lh data = Some (it_data (lh_buckets lh ! i ! k)) \<and> lh_buckets lh ! i ! k \<in> set (items lh) \<and>
      lh_comp lh (it_data (lh_buckets lh ! i ! k)) data = 0" if "k < length (lh_buckets lh ! i)"
    using chain_position_found [of "lh_comp lh" data "lh_buckets lh ! i", folded k, OF that]
      mem [OF nth_mem [OF that]] lookup_iff [OF ok] by blast
  show "lookup lh data = None" if "k = length (lh_buckets lh ! i)"
  proof -
    have none: "\<forall>it\<in>set (lh_buckets lh ! i). lh_comp lh (it_data it) data \<noteq> 0"
      using chain_position_less [of "lh_comp lh" data "lh_buckets lh ! i", folded k] that by simp
    have "lh_comp lh (it_data it) data \<noteq> 0" if it: "it \<in> set (items lh)" for it
    proof
      assume eq: "lh_comp lh (it_data it) data = 0"
      obtain j where j: "j < length (lh_buckets lh)" "it \<in> set (lh_buckets lh ! j)"
        using it by (auto simp: items_def) (metis in_set_conv_nth)
      have "it_hash it = hash" using it ok(2) functions_okD(4) [OF ok(1) eq] h by (auto simp: items_ok_def)
      then have "i = j" using pl j i by (auto simp: placed_def)
      with none j eq show False by blast
    qed
    then show ?thesis by (simp add: lookup_None)
  qed
qed

section \<open>Resizing\<close>

lemma rebucket_items:
  assumes "0 < n" and "placed n bs"
  shows "placed n (foldl (rebucket_item n) bs xs) \<and>
    mset (concat (foldl (rebucket_item n) bs xs)) = mset (concat bs) + mset xs"
  using assms(2)
proof (induction xs arbitrary: bs)
  case (Cons x xs)
  let ?k = "unat (it_hash x) mod n"
  have k: "?k < length bs" using assms(1) Cons.prems by (simp add: placed_def)
  have p: "placed n (rebucket_item n bs x)"
    using Cons.prems by (auto simp: placed_def rebucket_item_def Let_def nth_list_update split: if_splits)
  have "mset (concat (rebucket_item n bs x)) + mset (bs ! ?k) = mset (concat bs) + add_mset x (mset (bs ! ?k))"
    using mset_concat_update [OF k, of "x # bs ! ?k"] by (simp add: rebucket_item_def Let_def)
  then have "mset (concat (rebucket_item n bs x)) = add_mset x (mset (concat bs))" by simp
  with Cons.IH [OF p] show ?case by simp
qed simp

lemma foldl_foldl: "foldl (foldl g) z xss = foldl g z (concat xss)"
  by (induction xss arbitrary: z) simp_all

text \<open>What resizing leaves alone.\<close>

definition same_items :: "lhash \<Rightarrow> lhash \<Rightarrow> bool" where
  "same_items lh lh' \<longleftrightarrow> mset (items lh') = mset (items lh) \<and> lh_count lh' = lh_count lh \<and>
     callback_depth lh' = callback_depth lh \<and> lh_comp lh' = lh_comp lh \<and> lh_hash lh' = lh_hash lh \<and>
     lh_next_id lh' = lh_next_id lh"

lemma same_items_refl [simp]: "same_items lh lh"
  by (simp add: same_items_def)

lemma lh_rebucket_ok:
  assumes "malloc_spec m" and "lh_ok lh" and "kMinNumBuckets \<le> n" and "n < 2 ^ 61 - 1"
  shows "lh_ok (lh_rebucket m lh n) \<and> same_items lh (lh_rebucket m lh n)"
proof -
  have sz: "size_mul 8 n = 8 * n" using assms(4) by (simp add: size_mul_def)
  show ?thesis
  proof (cases "OPENSSL_malloc m (8 * n)")
    case None
    with assms(2) sz show ?thesis by (simp add: lh_rebucket_def)
  next
    case (Some b)
    let ?bs = "foldl (foldl (rebucket_item n)) (replicate n []) (lh_buckets lh)"
    have r: "lh_rebucket m lh n = lh\<lparr>lh_num_buckets := n, lh_buckets := ?bs\<rparr>"
      using Some sz by (simp add: lh_rebucket_def)
    have "0 < n" "placed n (replicate n [])" using assms(3) by (simp_all add: kMinNumBuckets_def placed_def)
    moreover have "concat (replicate n []) = ([] :: lh_item list)" by (induction n) simp_all
    ultimately have bs: "placed n ?bs" "mset (concat ?bs) = mset (items lh)"
      using rebucket_items [of n "replicate n []" "items lh"] by (simp_all add: items_def foldl_foldl)
    have "8 * n < 2 ^ 64 - 8" using assms(4) by simp
    from OPENSSL_malloc_Some(3) [OF assms(1) Some this] have small: "n < 2 ^ 60" by simp
    have "items (lh\<lparr>lh_num_buckets := n, lh_buckets := ?bs\<rparr>) = concat ?bs" by (simp add: items_def)
    moreover have "length (concat ?bs) = length (items lh)" using bs(2) by (metis size_mset)
    moreover have "items_ok (lh_comp lh) (lh_hash lh) (lh_next_id lh) (concat ?bs)"
      using assms(2) items_ok_perm [OF bs(2)] by (simp add: lh_ok_def)
    ultimately show ?thesis
      using assms(2,3) bs small by (simp add: r lh_ok_def same_items_def)
  qed
qed


lemma lh_maybe_resize_ok:
  assumes "malloc_spec m" and "lh_ok lh"
  shows "lh_ok (lh_maybe_resize m lh) \<and> same_items lh (lh_maybe_resize m lh)"
proof -
  have n: "kMinNumBuckets \<le> lh_num_buckets lh" "lh_num_buckets lh * 2 < 2 ^ 61 - 1"
    using assms(2) by (simp_all add: lh_ok_def)
  then have sz: "size_mul (lh_num_buckets lh) 2 = lh_num_buckets lh * 2" by (simp add: size_mul_def)
  let ?half = "if lh_num_buckets lh div 2 < kMinNumBuckets then kMinNumBuckets else lh_num_buckets lh div 2"
  have "kMinNumBuckets \<le> ?half" "?half < 2 ^ 61 - 1" using n by (auto simp: kMinNumBuckets_def)
  note R = lh_rebucket_ok [OF assms this] lh_rebucket_ok [OF assms _ n(2)]
  show ?thesis
    using R n assms(2) by (auto simp: lh_maybe_resize_def Let_def sz)
qed

text \<open>Freeing the table frees each item once.\<close>

lemma lh_free_distinct: "lh_ok lh \<Longrightarrow> distinct (lh_free (Some lh)) \<and> length (lh_free (Some lh)) = lh_num_items lh"
  by (simp add: lh_ok_def items_ok_def items_def lh_free_def lh_num_items_def flip: map_concat)

section \<open>The table as a map\<close>

lemma lookup_items:
  assumes "lh_ok lh" and "mset (items lh) = mset xs"
  shows "lookup lh key = Some y \<longleftrightarrow> (\<exists>it\<in>set xs. it_data it = y \<and> lh_comp lh y key = 0)"
proof -
  have "set (items lh) = set xs" using assms(2) by (metis set_mset_mset)
  with assms(1) lookup_iff show ?thesis by (auto simp: lh_ok_def)
qed

lemma lookup_same_items: "lh_ok lh \<Longrightarrow> same_items lh lh' \<Longrightarrow> lookup lh' = lookup lh"
  by (rule lookup_cong [of _ "lh_next_id lh"]) (auto simp: lh_ok_def same_items_def)

lemma option_eqI: "(\<And>y. a = Some y \<longleftrightarrow> b = Some y) \<Longrightarrow> a = b"
  by (cases a; cases b) auto

lemma items_split:
  assumes "it \<in> set (items lh)"
  obtains rest where "mset (items lh) = mset (it # rest)"
proof -
  obtain a b where "items lh = a @ it # b" using assms by (metis split_list)
  then have "mset (items lh) = mset (it # a @ b)" by simp
  then show thesis by (rule that)
qed

text \<open>A table whose items have been changed in one bucket.\<close>

lemma lh_ok_bucket:
  assumes ok: "lh_ok lh" and i: "i < length (lh_buckets lh)"
    and c: "mset (items lh) + mset c = mset xs + mset (lh_buckets lh ! i)"
    and pl: "\<forall>it\<in>set c. unat (it_hash it) mod lh_num_buckets lh = i"
    and xs: "items_ok (lh_comp lh) (lh_hash lh) n xs"
  defines "lh' \<equiv> lh\<lparr>lh_buckets := (lh_buckets lh)[i := c], lh_count := length xs, lh_next_id := n\<rparr>"
  shows "lh_ok lh'" and "mset (items lh') = mset xs"
proof -
  have it: "items lh' = concat ((lh_buckets lh)[i := c])" by (simp add: items_def lh'_def)
  have "mset (concat ((lh_buckets lh)[i := c])) + mset (lh_buckets lh ! i) = mset xs + mset (lh_buckets lh ! i)"
    using mset_concat_update [OF i, of c] c by (simp add: items_def)
  then have m: "mset (items lh') = mset xs" unfolding it by simp
  then show "mset (items lh') = mset xs" .
  from m have "length (items lh') = length xs" by (metis size_mset)
  moreover have "items_ok (lh_comp lh) (lh_hash lh) n (items lh')" using items_ok_perm [OF m] xs by simp
  ultimately show "lh_ok lh'"
    using ok pl i by (auto simp: lh_ok_def lh'_def items_def placed_def nth_list_update)
qed

lemma items_ok_fresh:
  assumes "items_ok cmp hash n (it # rest)" and "b \<in> set rest"
  shows "it_id b \<noteq> it_id it"
proof -
  have "it_id it \<notin> it_id ` set rest" using assms(1) by (simp add: items_ok_def)
  with assms(2) show ?thesis by (metis imageI)
qed

lemma items_ok_replace:
  assumes "functions_ok cmp hash" and "items_ok cmp hash n (it # rest)" and "cmp (it_data it) d = 0"
  shows "items_ok cmp hash n (it\<lparr>it_data := d\<rparr> # rest)"
proof -
  note F = functions_okD [OF assms(1)]
  have "cmp d (it_data b) \<noteq> 0 \<and> cmp (it_data b) d \<noteq> 0" if "b \<in> set rest" for b
  proof -
    have "it_id b \<noteq> it_id it" by (rule items_ok_fresh [OF assms(2) that])
    then have "b \<noteq> it" by auto
    then have "cmp (it_data it) (it_data b) \<noteq> 0" using assms(2) that by (auto simp: items_ok_def)
    then show ?thesis using F(3) [OF assms(3), of "it_data b"] F(2) [of "it_data b" d] by blast
  qed
  moreover have "cmp d d = 0" "hash (it_data it) = hash d" using F(1) F(4) [OF assms(3)] .
  ultimately show ?thesis using assms(2) by (simp add: items_ok_def)
qed

lemma lhash_same: "lh\<lparr>lh_buckets := b, lh_count := lh_count lh, lh_next_id := lh_next_id lh\<rparr> = lh\<lparr>lh_buckets := b\<rparr>"
  by (cases lh) simp

lemma items_ok_tail: "items_ok cmp hash n (it # rest) \<Longrightarrow> items_ok cmp hash n rest"
  by (auto simp: items_ok_def)

text \<open>The tables that an insertion and a deletion hand to the resizing.\<close>

definition with_new_item :: "lhash \<Rightarrow> nat \<Rightarrow> lh_item \<Rightarrow> lhash" where
  "with_new_item lh i x =
     lh\<lparr>lh_buckets := (lh_buckets lh)[i := lh_buckets lh ! i @ [x]], lh_count := lh_count lh + 1, lh_next_id := lh_next_id lh + 1\<rparr>"

definition without_item :: "lhash \<Rightarrow> nat \<Rightarrow> nat \<Rightarrow> lhash" where
  "without_item lh i k =
     lh\<lparr>lh_buckets := (lh_buckets lh)[i := take k (lh_buckets lh ! i) @ drop (Suc k) (lh_buckets lh ! i)], lh_count := lh_count lh - 1\<rparr>"

lemma changed_simps [simp]:
  "lh_comp (with_new_item lh i x) = lh_comp lh" "lh_hash (with_new_item lh i x) = lh_hash lh"
  "lh_num_buckets (with_new_item lh i x) = lh_num_buckets lh" "callback_depth (with_new_item lh i x) = callback_depth lh"
  "lh_count (with_new_item lh i x) = lh_count lh + 1"
  "lh_comp (without_item lh i k) = lh_comp lh" "lh_hash (without_item lh i k) = lh_hash lh"
  "lh_num_buckets (without_item lh i k) = lh_num_buckets lh" "callback_depth (without_item lh i k) = callback_depth lh"
  by (simp_all add: with_new_item_def without_item_def)

lemma with_new_item_ok:
  assumes ok: "lh_ok lh" and g: "get_next_ptr_and_hash lh d = (hash, i, k)" and k: "k = length (lh_buckets lh ! i)"
  defines "x \<equiv> \<lparr>it_id = lh_next_id lh, it_data = d, it_hash = hash\<rparr>"
  shows "lh_ok (with_new_item lh i x)" and "mset (items (with_new_item lh i x)) = mset (x # items lh)"
proof -
  note G = get_next_cases [OF ok g]
  let ?chn = "lh_buckets lh ! i"
  have fn: "functions_ok (lh_comp lh) (lh_hash lh)" and io: "items_ok (lh_comp lh) (lh_hash lh) (lh_next_id lh) (items lh)"
    and cnt: "lh_count lh = length (items lh)" and pl: "placed (lh_num_buckets lh) (lh_buckets lh)"
    using ok by (simp_all add: lh_ok_def)
  have none: "\<forall>it\<in>set (items lh). lh_comp lh (it_data it) d \<noteq> 0 \<and> lh_comp lh d (it_data it) \<noteq> 0"
    using G(6) [OF k] functions_okD(2) [OF fn] unfolding lookup_None by blast
  have xs: "items_ok (lh_comp lh) (lh_hash lh) (lh_next_id lh + 1) (x # items lh)"
    using io none G(1) by (auto simp: items_ok_def x_def intro: less_SucI)
  have c: "mset (items lh) + mset (?chn @ [x]) = mset (x # items lh) + mset ?chn" by simp
  have pl': "\<forall>it\<in>set (?chn @ [x]). unat (it_hash it) mod lh_num_buckets lh = i"
    using pl G(2,3) by (auto simp: placed_def x_def)
  have u: "with_new_item lh i x = lh\<lparr>lh_buckets := (lh_buckets lh)[i := ?chn @ [x]], lh_count := length (x # items lh),
      lh_next_id := lh_next_id lh + 1\<rparr>"
    by (simp add: with_new_item_def cnt)
  show "lh_ok (with_new_item lh i x)" "mset (items (with_new_item lh i x)) = mset (x # items lh)"
    unfolding u by (rule lh_ok_bucket [OF ok G(3) c pl' xs])+
qed

lemma without_item_ok:
  assumes ok: "lh_ok lh" and i: "i < length (lh_buckets lh)" and k: "k < length (lh_buckets lh ! i)"
    and rest: "mset (items lh) = mset (lh_buckets lh ! i ! k # rest)"
  shows "lh_ok (without_item lh i k)" and "mset (items (without_item lh i k)) = mset rest"
    and "lh_count (without_item lh i k) + 1 = lh_count lh"
proof -
  let ?chn = "lh_buckets lh ! i"
  let ?it = "?chn ! k" and ?c = "take k ?chn @ drop (Suc k) ?chn"
  have io: "items_ok (lh_comp lh) (lh_hash lh) (lh_next_id lh) (items lh)"
    and cnt: "lh_count lh = length (items lh)" and pl: "placed (lh_num_buckets lh) (lh_buckets lh)"
    using ok by (simp_all add: lh_ok_def)
  have xs: "items_ok (lh_comp lh) (lh_hash lh) (lh_next_id lh) rest" using io items_ok_perm [OF rest] items_ok_tail by simp
  have len: "length rest = lh_count lh - 1" "0 < lh_count lh" using arg_cong [OF rest, of size] cnt by simp_all
  have "?chn = take k ?chn @ ?it # drop (Suc k) ?chn" using k by (rule id_take_nth_drop)
  then have "mset ?chn = mset (take k ?chn @ ?it # drop (Suc k) ?chn)" by (rule arg_cong)
  then have "mset ?chn = add_mset ?it (mset ?c)" by simp
  with rest have c: "mset (items lh) + mset ?c = mset rest + mset ?chn" by simp
  have "set ?c \<subseteq> set ?chn" using set_take_subset set_drop_subset by fastforce
  then have pl': "\<forall>it\<in>set ?c. unat (it_hash it) mod lh_num_buckets lh = i"
    using pl i by (auto simp: placed_def simp del: set_append)
  have u: "without_item lh i k = lh\<lparr>lh_buckets := (lh_buckets lh)[i := ?c], lh_count := length rest, lh_next_id := lh_next_id lh\<rparr>"
    by (cases lh) (simp add: len without_item_def)
  show "lh_ok (without_item lh i k)" "mset (items (without_item lh i k)) = mset rest"
    unfolding u by (rule lh_ok_bucket [OF ok i c pl' xs])+
  show "lh_count (without_item lh i k) + 1 = lh_count lh" using len by (simp add: without_item_def)
qed

lemma lh_insert_ok:
  assumes m: "malloc_spec m" and ok: "lh_ok lh" and r: "lh_insert m lh d = (True, old, lh')"
  shows "lh_ok lh'" and "lookup lh' key = (if lh_comp lh d key = 0 then Some d else lookup lh key)"
    and "old = (case lookup lh d of None \<Rightarrow> NULL | Some x \<Rightarrow> x)"
    and "lh_count lh' = lh_count lh + (if lookup lh d = None then 1 else 0)"
    and "lh_comp lh' = lh_comp lh" and "lh_hash lh' = lh_hash lh" and "callback_depth lh' = callback_depth lh"
proof -
  obtain hash i k where g: "get_next_ptr_and_hash lh d = (hash, i, k)"
    by (cases "get_next_ptr_and_hash lh d") auto
  note G = get_next_cases [OF ok g]
  let ?chn = "lh_buckets lh ! i" and ?cmp = "lh_comp lh" and ?hash = "lh_hash lh"
  have fn: "functions_ok ?cmp ?hash" and io: "items_ok ?cmp ?hash (lh_next_id lh) (items lh)"
    and cnt: "lh_count lh = length (items lh)" and pl: "placed (lh_num_buckets lh) (lh_buckets lh)"
    using ok by (simp_all add: lh_ok_def)
  note F = functions_okD [OF fn]
  have "lh_ok lh' \<and> (\<forall>key. lookup lh' key = (if ?cmp d key = 0 then Some d else lookup lh key)) \<and>
    old = (case lookup lh d of None \<Rightarrow> NULL | Some x \<Rightarrow> x) \<and>
    lh_count lh' = lh_count lh + (if lookup lh d = None then 1 else 0) \<and> ?cmp = lh_comp lh' \<and> ?hash = lh_hash lh' \<and>
    callback_depth lh' = callback_depth lh"
  proof (cases "k < length ?chn")
    case True
    let ?it = "?chn ! k"
    let ?x = "?it\<lparr>it_data := d\<rparr>"
    note K = G(5) [OF True]
    have kin: "?it \<in> set (items lh)" and keq: "?cmp (it_data ?it) d = 0" using K by blast+
    obtain rest where rest: "mset (items lh) = mset (?it # rest)" using items_split [OF kin] .
    have "items_ok ?cmp ?hash (lh_next_id lh) (?it # rest)" using io items_ok_perm [OF rest] by simp
    from items_ok_replace [OF fn this keq] have xs: "items_ok ?cmp ?hash (lh_next_id lh) (?x # rest)" .
    have len: "length (?x # rest) = lh_count lh" using rest cnt by (metis length_Cons size_mset)
    have "mset (?chn[k := ?x]) + {#?it#} = mset ?chn + {#?x#}"
      using True nth_mem [OF True] by (simp add: mset_update)
    with rest have c: "mset (items lh) + mset (?chn[k := ?x]) = mset (?x # rest) + mset ?chn"
      by (simp add: ac_simps)
    have "unat (it_hash it) mod lh_num_buckets lh = i" if it: "it \<in> set (?chn[k := ?x])" for it
    proof -
      have "it = ?x \<or> it \<in> set ?chn" using it by (meson set_update_subset_insert insertE subsetD)
      then have "\<exists>it'\<in>set ?chn. it_hash it = it_hash it'" using nth_mem [OF True] by fastforce
      then show ?thesis using pl G(3) by (auto simp: placed_def)
    qed
    then have pl': "\<forall>it\<in>set (?chn[k := ?x]). unat (it_hash it) mod lh_num_buckets lh = i" ..
    have lh': "lh' = lh\<lparr>lh_buckets := (lh_buckets lh)[i := ?chn[k := ?x]], lh_count := length (?x # rest),
        lh_next_id := lh_next_id lh\<rparr>" and old: "old = it_data ?it"
      unfolding len lhash_same using r True by (simp_all add: lh_insert_def g Let_def)
    note B = lh_ok_bucket [OF ok G(3) c pl' xs, folded lh']
    have "lookup lh' key = (if ?cmp d key = 0 then Some d else lookup lh key)" for key
    proof (rule option_eqI)
      fix y
      have "lookup lh' key = Some y \<longleftrightarrow> (\<exists>it\<in>set (?x # rest). it_data it = y \<and> ?cmp y key = 0)"
        using lookup_items [OF B] by (simp add: lh')
      also have "\<dots> \<longleftrightarrow> y = d \<and> ?cmp d key = 0 \<or> (\<exists>it\<in>set rest. it_data it = y \<and> ?cmp y key = 0)" by auto
      finally have A: "lookup lh' key = Some y \<longleftrightarrow> \<dots>" .
      have C: "lookup lh key = Some y \<longleftrightarrow>
          y = it_data ?it \<and> ?cmp y key = 0 \<or> (\<exists>it\<in>set rest. it_data it = y \<and> ?cmp y key = 0)"
        using lookup_items [OF ok rest, of key y] by auto
      have D: "?cmp (it_data ?it) key = 0 \<longleftrightarrow> ?cmp d key = 0" using keq F by blast
      have E: "\<not> ?cmp y key = 0" if "it \<in> set rest" "it_data it = y" "?cmp d key = 0" for it
      proof
        assume "?cmp y key = 0"
        then have "?cmp (it_data it) (it_data ?x) = 0" using F(3) [of y key d] F(2) that by simp
        then have "it = ?x" using xs that(1) by (auto simp: items_ok_def)
        with items_ok_fresh [OF xs that(1)] show False by simp
      qed
      show "lookup lh' key = Some y \<longleftrightarrow> (if ?cmp d key = 0 then Some d else lookup lh key) = Some y"
        using A C D E by auto
    qed
    then show ?thesis using B(1) K old len lh' by simp
  next
    case False
    with G(4) have k: "k = length ?chn" by simp
    note K = G(6) [OF k]
    let ?x = "\<lparr>it_id = lh_next_id lh, it_data = d, it_hash = hash\<rparr>"
    note B = with_new_item_ok [OF ok g k]
    obtain b where "OPENSSL_malloc m 24 = Some b"
      using r k by (auto simp: lh_insert_def g Let_def split: option.splits)
    then have lh': "lh' = lh_maybe_resize m (with_new_item lh i ?x)" and old: "old = NULL"
      using r k by (simp_all add: lh_insert_def g Let_def with_new_item_def)
    have none: "\<forall>it\<in>set (items lh). ?cmp (it_data it) d \<noteq> 0" using K unfolding lookup_None .
    note R = lh_maybe_resize_ok [OF m B(1), folded lh']
    have "lookup lh' key = (if ?cmp d key = 0 then Some d else lookup lh key)" for key
    proof (rule option_eqI)
      fix y
      have "lookup lh' key = Some y \<longleftrightarrow> (\<exists>it\<in>set (?x # items lh). it_data it = y \<and> ?cmp y key = 0)"
        using lookup_items [OF B, of key y] lookup_same_items [OF B(1) conjunct2 [OF R]] by simp
      also have "\<dots> \<longleftrightarrow> y = d \<and> ?cmp d key = 0 \<or> lookup lh key = Some y"
        using lookup_items [OF ok refl, of key y] by auto
      finally have A: "lookup lh' key = Some y \<longleftrightarrow> y = d \<and> ?cmp d key = 0 \<or> lookup lh key = Some y" .
      have "lookup lh key = None" if "?cmp d key = 0"
        unfolding lookup_None using none F(3) [OF _ F(2) [OF that]] by blast
      with A show "lookup lh' key = Some y \<longleftrightarrow> (if ?cmp d key = 0 then Some d else lookup lh key) = Some y" by auto
    qed
    with R old K cnt show ?thesis by (simp add: same_items_def)
  qed
  then show "lh_ok lh'" and "lookup lh' key = (if lh_comp lh d key = 0 then Some d else lookup lh key)"
    and "old = (case lookup lh d of None \<Rightarrow> NULL | Some x \<Rightarrow> x)"
    and "lh_count lh' = lh_count lh + (if lookup lh d = None then 1 else 0)"
    and "lh_comp lh' = lh_comp lh" and "lh_hash lh' = lh_hash lh" and "callback_depth lh' = callback_depth lh" by simp_all
qed


lemma lh_delete_ok:
  assumes m: "malloc_spec m" and ok: "lh_ok lh" and r: "lh_delete m lh d = (old, lh')"
  shows "lh_ok lh'" and "lookup lh' key = (if lh_comp lh d key = 0 then None else lookup lh key)"
    and "old = (case lookup lh d of None \<Rightarrow> NULL | Some x \<Rightarrow> x)"
    and "lh_count lh' + (if lookup lh d = None then 0 else 1) = lh_count lh"
    and "lh_comp lh' = lh_comp lh" and "lh_hash lh' = lh_hash lh" and "callback_depth lh' = callback_depth lh"
proof -
  obtain hash i k where g: "get_next_ptr_and_hash lh d = (hash, i, k)"
    by (cases "get_next_ptr_and_hash lh d") auto
  note G = get_next_cases [OF ok g]
  let ?chn = "lh_buckets lh ! i" and ?cmp = "lh_comp lh" and ?hash = "lh_hash lh"
  have fn: "functions_ok ?cmp ?hash" and io: "items_ok ?cmp ?hash (lh_next_id lh) (items lh)"
    and cnt: "lh_count lh = length (items lh)" and pl: "placed (lh_num_buckets lh) (lh_buckets lh)"
    using ok by (simp_all add: lh_ok_def)
  note F = functions_okD [OF fn]
  have "lh_ok lh' \<and> (\<forall>key. lookup lh' key = (if ?cmp d key = 0 then None else lookup lh key)) \<and>
    old = (case lookup lh d of None \<Rightarrow> NULL | Some x \<Rightarrow> x) \<and>
    lh_count lh' + (if lookup lh d = None then 0 else 1) = lh_count lh \<and> ?cmp = lh_comp lh' \<and> ?hash = lh_hash lh' \<and>
    callback_depth lh' = callback_depth lh"
  proof (cases "k = length ?chn")
    case True
    note K = G(6) [OF True]
    have same: "old = NULL \<and> lh' = lh" using r True by (simp add: lh_delete_def g)
    have "lookup lh key = None" if "?cmp d key = 0" for key
      using K F(3) [OF _ F(2) [OF that]] unfolding lookup_None by blast
    then show ?thesis using same K ok by simp
  next
    case False
    with G(4) have k: "k < length ?chn" by simp
    let ?it = "?chn ! k"
    note K = G(5) [OF k]
    have kin: "?it \<in> set (items lh)" and keq: "?cmp (it_data ?it) d = 0" using K by blast+
    obtain rest where rest: "mset (items lh) = mset (?it # rest)" using items_split [OF kin] .
    have its: "items_ok ?cmp ?hash (lh_next_id lh) (?it # rest)" using io items_ok_perm [OF rest] by simp
    note B = without_item_ok [OF ok G(3) k rest]
    have lh': "lh' = lh_maybe_resize m (without_item lh i k)" and old: "old = it_data ?it"
      using r False by (simp_all add: lh_delete_def g Let_def without_item_def)
    note R = lh_maybe_resize_ok [OF m B(1), folded lh']
    have "lookup lh' key = (if ?cmp d key = 0 then None else lookup lh key)" for key
    proof (rule option_eqI)
      fix y
      have A: "lookup lh' key = Some y \<longleftrightarrow> (\<exists>it\<in>set rest. it_data it = y \<and> ?cmp y key = 0)"
        using lookup_items [OF B(1,2), of key y] lookup_same_items [OF B(1) conjunct2 [OF R]] by simp
      have C: "lookup lh key = Some y \<longleftrightarrow>
          y = it_data ?it \<and> ?cmp y key = 0 \<or> (\<exists>it\<in>set rest. it_data it = y \<and> ?cmp y key = 0)"
        using lookup_items [OF ok rest, of key y] by auto
      have D: "?cmp (it_data ?it) key = 0 \<longleftrightarrow> ?cmp d key = 0"
        using F(3) [OF keq, of key] F(3) [OF F(2) [OF keq], of key] by blast
      have E: "\<not> ?cmp y key = 0" if "it \<in> set rest" "it_data it = y" "?cmp d key = 0" for it
      proof
        assume "?cmp y key = 0"
        then have "?cmp (it_data it) (it_data ?it) = 0" using F(3) [of y key "it_data ?it"] F(2) that D by blast
        then have "it = ?it" using its that(1) by (auto simp: items_ok_def)
        with items_ok_fresh [OF its that(1)] show False by simp
      qed
      show "lookup lh' key = Some y \<longleftrightarrow> (if ?cmp d key = 0 then None else lookup lh key) = Some y"
        using A C D E by auto
    qed
    with R old K B(3) show ?thesis by (simp add: same_items_def)
  qed
  then show "lh_ok lh'" and "lookup lh' key = (if lh_comp lh d key = 0 then None else lookup lh key)"
    and "old = (case lookup lh d of None \<Rightarrow> NULL | Some x \<Rightarrow> x)"
    and "lh_count lh' + (if lookup lh d = None then 0 else 1) = lh_count lh"
    and "lh_comp lh' = lh_comp lh" and "lh_hash lh' = lh_hash lh" and "callback_depth lh' = callback_depth lh" by simp_all
qed

lemma lh_retrieve_ok:
  assumes "lh_ok lh"
  shows "lh_retrieve lh d = (case lookup lh d of None \<Rightarrow> NULL | Some x \<Rightarrow> x)"
proof -
  obtain hash i k where g: "get_next_ptr_and_hash lh d = (hash, i, k)"
    by (cases "get_next_ptr_and_hash lh d") auto
  note G = get_next_cases [OF assms g]
  show ?thesis using G(4,5,6) by (cases "k = length (lh_buckets lh ! i)") (simp_all add: lh_retrieve_def g)
qed

lemma lh_new_ok:
  assumes "functions_ok cmp hash" and "lh_new m hash cmp = Some lh"
  shows "lh_ok lh" and "lookup lh key = None" and "lh_comp lh = cmp" and "lh_hash lh = hash" and "callback_depth lh = 0"
    and "lh_count lh = 0" and "lh_num_buckets lh = kMinNumBuckets"
proof -
  have lh: "lh = \<lparr>lh_count = 0, lh_buckets = replicate kMinNumBuckets [], lh_num_buckets = kMinNumBuckets,
      callback_depth = 0, lh_comp = cmp, lh_hash = hash, lh_next_id = 0\<rparr>"
    using assms(2) by (simp add: lh_new_def split: option.splits)
  have e: "items lh = []" by (simp add: lh items_def)
  show "lh_ok lh" using assms(1) e by (simp add: lh lh_ok_def placed_def items_ok_def kMinNumBuckets_def)
  show "lookup lh key = None" by (simp add: lookup_None e)
  show "lh_comp lh = cmp" "lh_hash lh = hash" "callback_depth lh = 0" "lh_count lh = 0" "lh_num_buckets lh = kMinNumBuckets"
    by (simp_all add: lh)
qed


section \<open>Iterating while deleting the current element\<close>

text \<open>A callback that may delete the element it is given, and records the visit.\<close>

definition deleting :: "malloc \<Rightarrow> (ptr \<Rightarrow> bool) \<Rightarrow> (ptr \<Rightarrow> 'w \<Rightarrow> 'w) \<Rightarrow> lhash \<Rightarrow> 'w \<Rightarrow> ptr \<Rightarrow> lhash \<times> 'w" where
  "deleting m P g lh w d = (if P d then snd (lh_delete m lh d) else lh, g d w)"

lemma chain_position_at:
  assumes "\<forall>it\<in>set pre. cmp (it_data it) d \<noteq> 0" and "cmp (it_data x) d = 0"
  shows "chain_position cmp d (pre @ x # rest) = length pre"
  using assms by (induction pre) auto

lemma bucket_distinct:
  assumes "lh_ok lh" and "i < length (lh_buckets lh)" and "lh_buckets lh ! i = pre @ it # rest"
  shows "it_id it \<notin> it_id ` set pre" and "\<forall>b\<in>set pre. lh_comp lh (it_data b) (it_data it) \<noteq> 0"
    and "unat (lh_hash lh (it_data it)) mod lh_num_buckets lh = i"
proof -
  obtain A B where "lh_buckets lh = A @ (pre @ it # rest) # B"
    using id_take_nth_drop [OF assms(2)] assms(3) by metis
  then have it: "items lh = concat A @ pre @ it # rest @ concat B" by (simp add: items_def)
  have io: "items_ok (lh_comp lh) (lh_hash lh) (lh_next_id lh) (items lh)" using assms(1) by (simp add: lh_ok_def)
  then show d: "it_id it \<notin> it_id ` set pre" by (auto simp: items_ok_def it)
  have "b \<noteq> it" if "b \<in> set pre" for b using d that by auto
  then show "\<forall>b\<in>set pre. lh_comp lh (it_data b) (it_data it) \<noteq> 0" using io by (auto simp: items_ok_def it)
  have "it_hash it = lh_hash lh (it_data it)" using io by (auto simp: items_ok_def it)
  moreover have "unat (it_hash it) mod lh_num_buckets lh = i"
    using assms by (auto simp: lh_ok_def placed_def)
  ultimately show "unat (lh_hash lh (it_data it)) mod lh_num_buckets lh = i" by simp
qed

lemma delete_current:
  assumes ok: "lh_ok lh" and d: "0 < callback_depth lh" and i: "i < length (lh_buckets lh)"
    and chn: "lh_buckets lh ! i = pre @ it # rest"
  shows "snd (lh_delete m lh (it_data it)) =
    lh\<lparr>lh_buckets := (lh_buckets lh)[i := pre @ rest], lh_count := lh_count lh - 1\<rparr>"
proof -
  note B = bucket_distinct [OF ok i chn]
  have "lh_comp lh (it_data it) (it_data it) = 0" using ok by (simp add: lh_ok_def functions_ok_def)
  from chain_position_at [of pre "lh_comp lh" "it_data it" it rest, OF B(2) this]
  have "get_next_ptr_and_hash lh (it_data it) = (lh_hash lh (it_data it), i, length pre)"
    by (simp add: get_next_ptr_and_hash_def B(3) chn Let_def)
  then show ?thesis using d by (simp add: lh_delete_def chn lh_maybe_resize_def)
qed

text \<open>The table with the elements that satisfy \<open>P\<close> gone from some of its buckets.\<close>

abbreviation kept :: "(ptr \<Rightarrow> bool) \<Rightarrow> lh_item list \<Rightarrow> lh_item list" where
  "kept P \<equiv> filter (\<lambda>it. \<not> P (it_data it))"

definition with_buckets :: "lhash \<Rightarrow> lh_item list list \<Rightarrow> lhash" where
  "with_buckets lh bs = lh\<lparr>lh_buckets := bs, lh_count := length (concat bs)\<rparr>"

lemma with_buckets_simps [simp]:
  "lh_buckets (with_buckets lh bs) = bs" "lh_num_buckets (with_buckets lh bs) = lh_num_buckets lh"
  "callback_depth (with_buckets lh bs) = callback_depth lh" "lh_comp (with_buckets lh bs) = lh_comp lh"
  "lh_hash (with_buckets lh bs) = lh_hash lh" "items (with_buckets lh bs) = concat bs"
  "with_buckets (with_buckets lh bs) bs' = with_buckets lh bs'" "lh_next_id (with_buckets lh bs) = lh_next_id lh"
  by (simp_all add: with_buckets_def items_def)

lemma with_buckets_same: "lh_ok lh \<Longrightarrow> with_buckets lh (lh_buckets lh) = lh"
  by (cases lh) (simp add: with_buckets_def lh_ok_def items_def)

lemma delete_with_buckets:
  assumes m: "malloc_spec m" and ok: "lh_ok lh" and d: "0 < callback_depth lh" and i: "i < length (lh_buckets lh)"
    and chn: "lh_buckets lh ! i = pre @ it # rest"
  shows "snd (lh_delete m lh (it_data it)) = with_buckets lh ((lh_buckets lh)[i := pre @ rest])"
    and "lh_ok (with_buckets lh ((lh_buckets lh)[i := pre @ rest]))"
proof -
  let ?lh = "snd (lh_delete m lh (it_data it))"
  note D = delete_current [OF ok d i chn, of m]
  have ok': "lh_ok ?lh" by (rule lh_delete_ok(1) [OF m ok surjective_pairing])
  then have "lh_count ?lh = length (items ?lh)" by (simp add: lh_ok_def)
  then have c: "lh_count lh - 1 = length (concat ((lh_buckets lh)[i := pre @ rest]))" by (simp add: D items_def)
  show "?lh = with_buckets lh ((lh_buckets lh)[i := pre @ rest])" unfolding D with_buckets_def c ..
  with ok' show "lh_ok (with_buckets lh ((lh_buckets lh)[i := pre @ rest]))" by simp
qed

lemma doall_from_bucket:
  assumes m: "malloc_spec m" and "lh_ok lh" and "0 < callback_depth lh" and "i < length (lh_buckets lh)"
    and "lh_buckets lh ! i = pre @ suf"
  shows "doall_from (deleting m P g) i (first_id suf) lh w =
      doall_from (deleting m P g) i None (with_buckets lh ((lh_buckets lh)[i := pre @ kept P suf]))
        (fold g (map it_data suf) w)
    \<and> lh_ok (with_buckets lh ((lh_buckets lh)[i := pre @ kept P suf]))"
  using assms(2-)
proof (induction suf arbitrary: lh w pre)
  case Nil
  then have "(lh_buckets lh)[i := pre] = lh_buckets lh" by (metis append_Nil2 list_update_id)
  with Nil show ?case by (simp add: first_id_def with_buckets_same)
next
  case (Cons it rest)
  note B = bucket_distinct [OF Cons.prems(1,3,4)]
  have ne: "\<forall>b\<in>set pre. it_id b \<noteq> it_id it" using B(1) by (metis imageI)
  have dw: "dropWhile (\<lambda>b. it_id b \<noteq> it_id it) (lh_buckets lh ! i) = it # rest"
    unfolding Cons.prems(4) using ne by (subst dropWhile_append2) simp_all
  have step: "doall_from (deleting m P g) i (first_id (it # rest)) lh w =
      doall_from (deleting m P g) i (first_id rest)
        (if P (it_data it) then snd (lh_delete m lh (it_data it)) else lh) (g (it_data it) w)"
    by (subst doall_from.simps) (simp add: first_id_def [of "it # rest"] dw deleting_def)
  show ?case
  proof (cases "P (it_data it)")
    case True
    note D = delete_with_buckets [OF m Cons.prems]
    show ?thesis
      using Cons.IH [OF D(2), of pre "g (it_data it) w"] Cons.prems(2,3) True
      by (simp add: step D(1))
  next
    case False
    then show ?thesis
      using Cons.IH [OF Cons.prems(1-3), of "pre @ [it]" "g (it_data it) w"] Cons.prems(4) by (simp add: step)
  qed
qed

lemma doall_from_all:
  assumes m: "malloc_spec m" and "lh_ok lh" and "0 < callback_depth lh" and "i < length (lh_buckets lh)"
  shows "\<exists>bs. doall_from (deleting m P g) i (first_id (lh_buckets lh ! i)) lh w =
      Some (with_buckets lh bs, fold g (map it_data (concat (drop i (lh_buckets lh)))) w) \<and>
    bs = take i (lh_buckets lh) @ map (kept P) (drop i (lh_buckets lh)) \<and> lh_ok (with_buckets lh bs)"
  using assms(2-)
proof (induction "length (lh_buckets lh) - i" arbitrary: i lh w)
  case (Suc k)
  let ?bs = "(lh_buckets lh)[i := kept P (lh_buckets lh ! i)]"
  let ?lh = "with_buckets lh ?bs" and ?w = "fold g (map it_data (lh_buckets lh ! i)) w"
  note S = doall_from_bucket [where pre = "[]" and suf = "lh_buckets lh ! i" and P = P and g = g and w = w,
      OF m Suc.prems, simplified]
  have n: "lh_num_buckets lh = length (lh_buckets lh)" using Suc.prems(1) by (simp add: lh_ok_def placed_def)
  have dr: "drop i (lh_buckets lh) = lh_buckets lh ! i # drop (Suc i) (lh_buckets lh)"
    by (rule Cons_nth_drop_Suc [symmetric, OF Suc.prems(3)])
  have tk: "take (Suc i) ?bs = take i (lh_buckets lh) @ [kept P (lh_buckets lh ! i)]"
    using Suc.prems(3) by (simp add: take_Suc_conv_app_nth)
  have one: "doall_from (deleting m P g) i (first_id (lh_buckets lh ! i)) lh w =
      (if i + 1 < length (lh_buckets lh)
       then doall_from (deleting m P g) (i + 1) (first_id (lh_buckets ?lh ! (i + 1))) ?lh ?w else Some (?lh, ?w))"
    using S by (subst (asm) (2) doall_from.simps) (simp add: n)
  show ?case
  proof (cases "i + 1 < length (lh_buckets lh)")
    case True
    have "k = length (lh_buckets ?lh) - (i + 1)" using Suc.hyps(2) by simp
    from Suc.hyps(1) [OF this, of ?w] S Suc.prems True
    show ?thesis unfolding one by (simp add: dr tk)
  next
    case False
    then have "i = length (lh_buckets lh) - 1" using Suc.prems(3) by simp
    then have "drop (Suc i) (lh_buckets lh) = []" "?bs = take i (lh_buckets lh) @ [kept P (lh_buckets lh ! i)]"
      using Suc.prems(3) tk by simp_all
    with False S show ?thesis unfolding one by (simp add: dr)
  qed
qed simp


section \<open>The interface of a keyed table\<close>

text \<open>Requests to a table, and what they do to a map and the number of its entries; the flag says whether an insertion got its memory.\<close>

datatype 'e table_op = Put 'e | Remove 'e | Get 'e

definition value_or :: "'e \<Rightarrow> 'e option \<Rightarrow> 'e" where
  "value_or null v = (case v of None \<Rightarrow> null | Some x \<Rightarrow> x)"

fun map_op :: "('e \<Rightarrow> 'e \<Rightarrow> bool) \<Rightarrow> 'e \<Rightarrow> 'e table_op \<Rightarrow> bool \<Rightarrow> nat \<times> ('e \<Rightarrow> 'e option) \<Rightarrow> 'e \<times> nat \<times> ('e \<Rightarrow> 'e option)" where
  "map_op eqv null (Put d) ok (n, f) =
     (if ok then (value_or null (f d), n + (if f d = None then 1 else 0), \<lambda>key. if eqv d key then Some d else f key)
      else (null, n, f))"
| "map_op eqv null (Remove d) ok (n, f) =
     (value_or null (f d), n - (if f d = None then 0 else 1), \<lambda>key. if eqv d key then None else f key)"
| "map_op eqv null (Get d) ok (n, f) = (value_or null (f d), n, f)"

primrec run_map :: "('e \<Rightarrow> 'e \<Rightarrow> bool) \<Rightarrow> 'e \<Rightarrow> ('e table_op \<times> bool) list \<Rightarrow> nat \<times> ('e \<Rightarrow> 'e option) \<Rightarrow>
    'e list \<times> nat \<times> ('e \<Rightarrow> 'e option)" where
  "run_map eqv null [] a = ([], a)"
| "run_map eqv null (x # xs) a =
     (case map_op eqv null (fst x) (snd x) a of (v, a') \<Rightarrow> case run_map eqv null xs a' of (vs, a'') \<Rightarrow> (v # vs, a''))"

fun do_op :: "('m \<Rightarrow> 't \<Rightarrow> 'e \<Rightarrow> bool \<times> 'e \<times> 't) \<Rightarrow> ('m \<Rightarrow> 't \<Rightarrow> 'e \<Rightarrow> 'e \<times> 't) \<Rightarrow> ('t \<Rightarrow> 'e \<Rightarrow> 'e) \<Rightarrow>
    'm \<Rightarrow> 'e table_op \<Rightarrow> 't \<Rightarrow> (bool \<times> 'e) \<times> 't" where
  "do_op ins del get m (Put d) t = (case ins m t d of (ok, old, t') \<Rightarrow> ((ok, old), t'))"
| "do_op ins del get m (Remove d) t = (case del m t d of (old, t') \<Rightarrow> ((True, old), t'))"
| "do_op ins del get m (Get d) t = ((True, get t d), t)"

primrec run_table :: "('m \<Rightarrow> 't \<Rightarrow> 'e \<Rightarrow> bool \<times> 'e \<times> 't) \<Rightarrow> ('m \<Rightarrow> 't \<Rightarrow> 'e \<Rightarrow> 'e \<times> 't) \<Rightarrow> ('t \<Rightarrow> 'e \<Rightarrow> 'e) \<Rightarrow>
    'm \<Rightarrow> 'e table_op list \<Rightarrow> 't \<Rightarrow> (bool \<times> 'e) list \<times> 't" where
  "run_table ins del get m [] t = ([], t)"
| "run_table ins del get m (x # xs) t =
     (case do_op ins del get m x t of (r, t') \<Rightarrow> case run_table ins del get m xs t' of (rs, t'') \<Rightarrow> (r # rs, t''))"

locale keyed_table =
  fixes heap :: "'m \<Rightarrow> bool" and roomy :: "'m \<Rightarrow> bool" and invar :: "'t \<Rightarrow> bool" and eqv :: "'t \<Rightarrow> 'e \<Rightarrow> 'e \<Rightarrow> bool"
    and null :: 'e and count :: "'t \<Rightarrow> nat" and find_entry :: "'t \<Rightarrow> 'e \<Rightarrow> 'e option"
    and ins :: "'m \<Rightarrow> 't \<Rightarrow> 'e \<Rightarrow> bool \<times> 'e \<times> 't" and del :: "'m \<Rightarrow> 't \<Rightarrow> 'e \<Rightarrow> 'e \<times> 't" and get :: "'t \<Rightarrow> 'e \<Rightarrow> 'e"
  assumes ins_ok: "heap m \<Longrightarrow> invar t \<Longrightarrow> ins m t d = (True, old, t') \<Longrightarrow> invar t' \<and> eqv t' = eqv t \<and>
      find_entry t' = (\<lambda>key. if eqv t d key then Some d else find_entry t key) \<and> old = value_or null (find_entry t d) \<and>
      count t' = count t + (if find_entry t d = None then 1 else 0)"
    and ins_fails: "ins m t d = (False, old, t') \<Longrightarrow> old = null \<and> t' = t \<and> \<not> roomy m"
    and del_ok: "heap m \<Longrightarrow> invar t \<Longrightarrow> del m t d = (old, t') \<Longrightarrow> invar t' \<and> eqv t' = eqv t \<and>
      find_entry t' = (\<lambda>key. if eqv t d key then None else find_entry t key) \<and> old = value_or null (find_entry t d) \<and>
      count t' = count t - (if find_entry t d = None then 0 else 1)"
    and get_ok: "invar t \<Longrightarrow> get t d = value_or null (find_entry t d)"
begin

abbreviation contents_of :: "'t \<Rightarrow> nat \<times> ('e \<Rightarrow> 'e option)" where
  "contents_of t \<equiv> (count t, find_entry t)"

lemma op_refines:
  assumes "heap m" and "invar t" and "do_op ins del get m x t = (r, t')"
  shows "invar t' \<and> eqv t' = eqv t \<and> (snd r, contents_of t') = map_op (eqv t) null x (fst r) (contents_of t) \<and> (roomy m \<longrightarrow> fst r)"
proof (cases x)
  case (Put d)
  obtain ok old u where i: "ins m t d = (ok, old, u)" by (cases "ins m t d") auto
  then have "r = (ok, old)" "t' = u" using assms(3) Put by simp_all
  then show ?thesis using i ins_ok [OF assms(1,2), of d old u] ins_fails [of m t d old u] assms(2) Put
    by (cases ok) simp_all
next
  case (Remove d)
  obtain old u where i: "del m t d = (old, u)" by (cases "del m t d")
  then have "r = (True, old)" "t' = u" using assms(3) Remove by simp_all
  then show ?thesis using del_ok [OF assms(1,2) i] Remove by auto
next
  case (Get d)
  then show ?thesis using assms get_ok by auto
qed

lemma run_refines:
  assumes "heap m" and "invar t" and "run_table ins del get m xs t = (rs, t')"
  shows "invar t' \<and> eqv t' = eqv t \<and> length rs = length xs \<and>
    (map snd rs, contents_of t') = run_map (eqv t) null (zip xs (map fst rs)) (contents_of t) \<and> (roomy m \<longrightarrow> (\<forall>r\<in>set rs. fst r))"
  using assms(2,3)
proof (induction xs arbitrary: t rs)
  case (Cons x xs)
  obtain r u where o: "do_op ins del get m x t = (r, u)" by (cases "do_op ins del get m x t")
  obtain rs' where s: "run_table ins del get m xs u = (rs', t')" and rs: "rs = r # rs'"
    using Cons.prems(2) o by (auto split: prod.splits)
  note R = op_refines [OF assms(1) Cons.prems(1) o]
  then have "invar u" by simp
  from Cons.IH [OF this s] R show ?case by (auto simp: rs split: prod.splits)
qed simp

end

interpretation lh: keyed_table malloc_spec "\<lambda>m. OPENSSL_malloc m 24 \<noteq> None" lh_ok "\<lambda>lh x y. lh_comp lh x y = 0" NULL
  lh_num_items lookup lh_insert lh_delete lh_retrieve
proof unfold_locales
  show "lh_ok t' \<and> (\<lambda>x y. lh_comp t' x y = 0) = (\<lambda>x y. lh_comp t x y = 0) \<and>
      lookup t' = (\<lambda>key. if lh_comp t d key = 0 then Some d else lookup t key) \<and> old = value_or NULL (lookup t d) \<and>
      lh_num_items t' = lh_num_items t + (if lookup t d = None then 1 else 0)"
    if "malloc_spec m" "lh_ok t" "lh_insert m t d = (True, old, t')" for m t d old t'
    using lh_insert_ok [OF that] by (auto simp: lh_num_items_def value_or_def)
  show "old = NULL \<and> t' = t \<and> \<not> OPENSSL_malloc m 24 \<noteq> None" if "lh_insert m t d = (False, old, t')" for m t d old t'
    using that by (auto simp: lh_insert_def Let_def split: prod.splits if_splits option.splits)
  show "lh_ok t' \<and> (\<lambda>x y. lh_comp t' x y = 0) = (\<lambda>x y. lh_comp t x y = 0) \<and>
      lookup t' = (\<lambda>key. if lh_comp t d key = 0 then None else lookup t key) \<and> old = value_or NULL (lookup t d) \<and>
      lh_num_items t' = lh_num_items t - (if lookup t d = None then 0 else 1)"
    if "malloc_spec m" "lh_ok t" "lh_delete m t d = (old, t')" for m t d old t'
    using lh_delete_ok(1-3,5) [OF that] lh_delete_ok(4) [OF that, symmetric] by (auto simp: lh_num_items_def value_or_def)
  show "lh_retrieve t d = value_or NULL (lookup t d)" if "lh_ok t" for t d
    using lh_retrieve_ok [OF that] by (simp add: value_or_def)
qed


section \<open>The load factor\<close>

definition balanced :: "lhash \<Rightarrow> bool" where
  "balanced lh \<longleftrightarrow> (\<exists>k. lh_num_buckets lh = kMinNumBuckets * 2 ^ k) \<and> callback_depth lh = 0 \<and>
     lh_num_items lh < (kMaxAverageChainLength + 1) * lh_num_buckets lh \<and>
     (lh_num_buckets lh = kMinNumBuckets \<or> lh_num_buckets lh \<le> lh_num_items lh)"

lemma balancedI:
  assumes "lh_num_buckets lh = n" and "n = kMinNumBuckets * 2 ^ k" and "callback_depth lh = 0" and "lh_count lh < 3 * n"
    and "n = kMinNumBuckets \<or> n \<le> lh_count lh"
  shows "balanced lh"
  unfolding balanced_def lh_num_items_def kMaxAverageChainLength_def using assms by auto

lemma lh_rebucket_total:
  assumes "malloc_total m" and "n < 2 ^ 59"
  shows "lh_num_buckets (lh_rebucket m lh n) = n"
proof -
  have "size_mul 8 n = 8 * n" "size_add (8 * n) 8 = 8 * n + 8" using assms(2) by (simp_all add: size_mul_def size_add_def)
  moreover have "8 * n + 8 < 2 ^ 63" using assms(2) by simp
  then have "m (8 * n + 8) \<noteq> None" using assms(1) unfolding malloc_total_def by blast
  ultimately show ?thesis by (auto simp: lh_rebucket_def OPENSSL_malloc_def OPENSSL_MALLOC_PREFIX_def)
qed

text \<open>A table whose count has moved by one is balanced again after resizing.\<close>

lemma resize_balances:
  assumes m: "malloc_spec m" "malloc_total m" and ok: "lh_ok lh" and d: "callback_depth lh = 0"
    and k: "lh_num_buckets lh = kMinNumBuckets * 2 ^ k" and small: "lh_count lh < 2 ^ 58"
    and up: "lh_count lh \<le> 3 * lh_num_buckets lh"
    and low: "lh_num_buckets lh = kMinNumBuckets \<or> lh_num_buckets lh \<le> lh_count lh + 1"
  shows "balanced (lh_maybe_resize m lh)"
proof -
  let ?n = "lh_num_buckets lh" and ?c = "lh_count lh"
  let ?r = "lh_maybe_resize m lh"
  have R: "callback_depth ?r = 0" "lh_count ?r = ?c"
    using lh_maybe_resize_ok [OF m(1) ok] d by (simp_all add: same_items_def)
  have n16: "16 \<le> ?n" using k by (simp add: kMinNumBuckets_def)
  have n58: "?n < 2 ^ 59" using low small by (auto simp: kMinNumBuckets_def)
  have sz: "size_mul ?n 2 = ?n * 2" using n58 by (simp add: size_mul_def)
  consider (grow) "?c = 3 * ?n" | (shrink) "?c < ?n" "16 < ?n" | (stay) "?c < 3 * ?n" "?n \<le> ?c \<or> ?n = 16"
    using up n16 by linarith
  then show ?thesis
  proof cases
    case grow
    have "?r = lh_rebucket m lh (?n * 2)"
      using grow n16 d by (simp add: lh_maybe_resize_def kMaxAverageChainLength_def sz)
    moreover have "?n * 2 < 2 ^ 59" using grow small by simp
    ultimately have "lh_num_buckets ?r = ?n * 2" using lh_rebucket_total [OF m(2)] by simp
    moreover have "?n * 2 = kMinNumBuckets * 2 ^ Suc k" using k by simp
    ultimately show ?thesis using R grow n16 by (intro balancedI [of _ "?n * 2" "Suc k"]) (simp_all add: kMinNumBuckets_def)
  next
    case shrink
    then obtain k' where k': "k = Suc k'" using k by (cases k) (simp_all add: kMinNumBuckets_def)
    then have h: "?n div 2 = kMinNumBuckets * 2 ^ k'" using k by simp
    then have "kMinNumBuckets \<le> ?n div 2" by simp
    then have "?r = lh_rebucket m lh (?n div 2)"
      using shrink d by (simp add: lh_maybe_resize_def kMaxAverageChainLength_def kMinAverageChainLength_def
          kMinNumBuckets_def Let_def)
    then have "lh_num_buckets ?r = ?n div 2" using lh_rebucket_total [OF m(2)] n58 by simp
    moreover have "?n div 2 \<le> ?c" "?c < 3 * (?n div 2)" using shrink low h by (auto simp: kMinNumBuckets_def)
    ultimately show ?thesis using R h by (intro balancedI [of _ "?n div 2" k']) simp_all
  next
    case stay
    have "?c div ?n < 3" by (rule less_mult_imp_div_less) (rule stay(1))
    moreover have "?n \<le> ?c \<longrightarrow> 0 < ?c div ?n" using n16 by (simp add: div_greater_zero_iff)
    ultimately have "?c div ?n \<le> 2" "?n \<le> ?c \<longrightarrow> 1 \<le> ?c div ?n" by linarith+
    then have "?r = lh"
      using stay n16 by (auto simp: lh_maybe_resize_def kMaxAverageChainLength_def kMinAverageChainLength_def
          kMinNumBuckets_def Let_def)
    then show ?thesis using stay k d by (intro balancedI [of _ ?n k]) (auto simp: kMinNumBuckets_def)
  qed
qed


lemma balancedD:
  assumes "balanced lh"
  obtains k where "lh_num_buckets lh = kMinNumBuckets * 2 ^ k" and "callback_depth lh = 0"
    and "lh_count lh < 3 * lh_num_buckets lh" and "lh_num_buckets lh = kMinNumBuckets \<or> lh_num_buckets lh \<le> lh_count lh"
proof -
  obtain k where k: "lh_num_buckets lh = kMinNumBuckets * 2 ^ k" using assms by (auto simp: balanced_def)
  show thesis
    by (rule that [OF k]) (use assms in \<open>simp_all add: balanced_def lh_num_items_def kMaxAverageChainLength_def\<close>)
qed

lemma insert_balanced:
  assumes m: "malloc_spec m" "malloc_total m" and ok: "lh_ok lh" and b: "balanced lh" and c: "lh_count lh < 2 ^ 57"
    and r: "lh_insert m lh d = (s, old, lh')"
  shows "balanced lh'"
proof -
  obtain hash i k where g: "get_next_ptr_and_hash lh d = (hash, i, k)"
    by (cases "get_next_ptr_and_hash lh d") auto
  let ?u = "with_new_item lh i \<lparr>it_id = lh_next_id lh, it_data = d, it_hash = hash\<rparr>"
  obtain e where e: "lh_num_buckets lh = kMinNumBuckets * 2 ^ e" "callback_depth lh = 0"
    and lim: "lh_count lh < 3 * lh_num_buckets lh" "lh_num_buckets lh = kMinNumBuckets \<or> lh_num_buckets lh \<le> lh_count lh"
    using balancedD [OF b] .
  consider (replaced) bs where "lh' = lh\<lparr>lh_buckets := bs\<rparr>" | (failed) "lh' = lh"
    | (added) "k = length (lh_buckets lh ! i)" "lh' = lh_maybe_resize m ?u"
    using r get_next_cases(4) [OF ok g]
    by (auto simp: lh_insert_def g Let_def with_new_item_def split: if_splits option.splits)
  then show ?thesis
  proof cases
    case replaced
    with b show ?thesis by (simp add: balanced_def lh_num_items_def)
  next
    case added
    show ?thesis
      unfolding added(2) using e lim c
      by (intro resize_balances [OF m with_new_item_ok(1) [OF ok g added(1)]]) auto
  qed (simp add: b)
qed

lemma delete_balanced:
  assumes m: "malloc_spec m" "malloc_total m" and ok: "lh_ok lh" and b: "balanced lh" and c: "lh_count lh < 2 ^ 57"
    and r: "lh_delete m lh d = (old, lh')"
  shows "balanced lh'"
proof -
  obtain hash i k where g: "get_next_ptr_and_hash lh d = (hash, i, k)"
    by (cases "get_next_ptr_and_hash lh d") auto
  note G = get_next_cases [OF ok g]
  obtain e where e: "lh_num_buckets lh = kMinNumBuckets * 2 ^ e" "callback_depth lh = 0"
    and lim: "lh_count lh < 3 * lh_num_buckets lh" "lh_num_buckets lh = kMinNumBuckets \<or> lh_num_buckets lh \<le> lh_count lh"
    using balancedD [OF b] .
  show ?thesis
  proof (cases "k = length (lh_buckets lh ! i)")
    case True
    with r b show ?thesis by (simp add: lh_delete_def g)
  next
    case False
    with G(4) have k: "k < length (lh_buckets lh ! i)" by simp
    obtain rest where rest: "mset (items lh) = mset (lh_buckets lh ! i ! k # rest)"
      using items_split G(5) [OF k] by blast
    note W = without_item_ok [OF ok G(3) k rest]
    have "lh' = lh_maybe_resize m (without_item lh i k)"
      using r False by (simp add: lh_delete_def g Let_def without_item_def)
    moreover have "balanced (lh_maybe_resize m (without_item lh i k))"
      using e lim c W(3) by (intro resize_balances [OF m W(1)]) auto
    ultimately show ?thesis by simp
  qed
qed

lemma run_balanced:
  assumes m: "malloc_spec m" "malloc_total m" and "lh_ok lh" and "balanced lh" and "lh_count lh + length ops < 2 ^ 57"
    and "run_table lh_insert lh_delete lh_retrieve m ops lh = (rs, lh')"
  shows "balanced lh' \<and> lh_count lh' \<le> lh_count lh + length ops"
  using assms(3-)
proof (induction ops arbitrary: lh rs)
  case (Cons x xs)
  obtain r u where o: "do_op lh_insert lh_delete lh_retrieve m x lh = (r, u)"
    by (cases "do_op lh_insert lh_delete lh_retrieve m x lh")
  obtain rs' where s: "run_table lh_insert lh_delete lh_retrieve m xs u = (rs', lh')"
    using Cons.prems(4) o by (auto split: prod.splits)
  have R: "lh_ok u" "lh_num_items u \<le> lh_num_items lh + 1"
    using lh.op_refines [OF m(1) Cons.prems(1) o] by (cases x; auto split: if_splits)+
  have "balanced u"
    using o Cons.prems insert_balanced [OF m Cons.prems(1,2)] delete_balanced [OF m Cons.prems(1,2)]
    by (cases x) (auto split: prod.splits)
  with Cons.IH [OF R(1) this _ s] R(2) Cons.prems(3) show ?case by (auto simp: lh_num_items_def)
qed simp

section \<open>Properties\<close>

text \<open>C35.
  A hash table is a finite map: whatever sequence of insertions, deletions and lookups is run on a new table, its answers, its contents and
  its number of items are those of the map with the same entries, through every resizing; an insertion fails only when the
  allocator has no room for the item, and then changes nothing.
\<close>

theorem hash_table_refines_map:
  assumes "malloc_spec m" and "functions_ok cmp hash" and "lh_new m hash cmp = Some lh"
    and "run_table lh_insert lh_delete lh_retrieve m ops lh = (rs, lh')"
  shows "(map snd rs, lh_num_items lh', lookup lh') =
      run_map (\<lambda>x y. cmp x y = 0) NULL (zip ops (map fst rs)) (0, \<lambda>_. None) \<and>
    (OPENSSL_malloc m 24 \<noteq> None \<longrightarrow> (\<forall>r\<in>set rs. fst r))"
proof -
  note N = lh_new_ok [OF assms(2,3)]
  have "lookup lh = (\<lambda>_. None)" using N(2) by blast
  then show ?thesis using lh.run_refines [OF assms(1) N(1) assms(4)] N(3,6) by (simp add: lh_num_items_def)
qed

definition by_number :: "ptr \<Rightarrow> ptr \<Rightarrow> int" where
  "by_number p q = int p - int q"

lemma by_number_ok: "functions_ok by_number (\<lambda>p. of_nat p)"
  by (auto simp: functions_ok_def by_number_def)

lemma new_table: "\<exists>lh. lh_new zero_malloc hash cmp = Some lh"
  by (simp add: lh_new_def OPENSSL_malloc_def zero_malloc_def size_add_def size_mul_def kMinNumBuckets_def
      OPENSSL_MALLOC_PREFIX_def)

lemma hash_table_refines_map_witness:
  "\<exists>lh rs lh'. lh_new zero_malloc (\<lambda>p. of_nat p) by_number = Some lh \<and>
     run_table lh_insert lh_delete lh_retrieve zero_malloc [Put 5, Put 21, Get 5, Remove 5, Get 5] lh = (rs, lh') \<and>
     map snd rs = [0, 0, 5, 5, 0] \<and> lh_num_items lh' = 1"
proof -
  let ?ops = "[Put 5, Put 21, Get 5, Remove 5, Get 5]"
  obtain lh where n: "lh_new zero_malloc (\<lambda>p. of_nat p) by_number = Some lh" using new_table by blast
  obtain rs lh' where r: "run_table lh_insert lh_delete lh_retrieve zero_malloc ?ops lh = (rs, lh')"
    by (cases "run_table lh_insert lh_delete lh_retrieve zero_malloc ?ops lh")
  have "OPENSSL_malloc zero_malloc 24 \<noteq> None"
    by (simp add: OPENSSL_malloc_def zero_malloc_def size_add_def OPENSSL_MALLOC_PREFIX_def)
  note T = hash_table_refines_map [OF malloc_zero_malloc(1) by_number_ok n r]
  have "length rs = length ?ops"
    using lh.run_refines [OF malloc_zero_malloc(1) lh_new_ok(1) [OF by_number_ok n] r] by simp
  then have "map fst rs = replicate 5 True"
    using conjunct2 [OF T] \<open>OPENSSL_malloc zero_malloc 24 \<noteq> None\<close> by (intro nth_equalityI) auto
  with conjunct1 [OF T] have "map snd rs = [0, 0, 5, 5, 0] \<and> lh_num_items lh' = 1"
    by (simp add: numeral_eq_Suc by_number_def value_or_def)
  with n r have "lh_new zero_malloc (\<lambda>p. of_nat p) by_number = Some lh \<and>
     run_table lh_insert lh_delete lh_retrieve zero_malloc [Put 5, Put 21, Get 5, Remove 5, Get 5] lh = (rs, lh') \<and>
     map snd rs = [0, 0, 5, 5, 0] \<and> lh_num_items lh' = 1" by metis
  then show ?thesis by metis
qed

text \<open>C37.
  The hash table keeps its chains short: with memory to be had, after any sequence of operations on a new table the number of buckets is 16 times a
  power of two, the average chain is shorter than three items, and above 16 buckets no more than one bucket per item is allocated.
\<close>

theorem hash_table_stays_balanced:
  assumes "malloc_spec m" and "malloc_total m" and "functions_ok cmp hash" and "lh_new m hash cmp = Some lh"
    and "length ops < 2 ^ 57" and "run_table lh_insert lh_delete lh_retrieve m ops lh = (rs, lh')"
  shows "(\<exists>k. lh_num_buckets lh' = 16 * 2 ^ k) \<and> lh_num_items lh' < 3 * lh_num_buckets lh' \<and>
    (lh_num_buckets lh' = 16 \<or> lh_num_buckets lh' \<le> lh_num_items lh')"
proof -
  note N = lh_new_ok [OF assms(3,4)]
  have "balanced lh" using N(5-7) by (intro balancedI [of _ kMinNumBuckets 0]) (simp_all add: kMinNumBuckets_def)
  moreover have "lh_count lh + length ops < 2 ^ 57" using assms(5) N(6) by simp
  ultimately have "balanced lh'" using run_balanced [OF assms(1,2) N(1)] assms(6) by blast
  then show ?thesis by (auto simp: balanced_def kMaxAverageChainLength_def kMinNumBuckets_def)
qed

lemma hash_table_stays_balanced_witness:
  "\<exists>lh rs lh'. lh_new zero_malloc (\<lambda>p. of_nat p) by_number = Some lh \<and>
     run_table lh_insert lh_delete lh_retrieve zero_malloc (map Put [0..<100]) lh = (rs, lh') \<and>
     lh_num_items lh' < 3 * lh_num_buckets lh'"
proof -
  obtain lh where n: "lh_new zero_malloc (\<lambda>p. of_nat p) by_number = Some lh" using new_table by blast
  obtain rs lh' where r: "run_table lh_insert lh_delete lh_retrieve zero_malloc (map Put [0..<100]) lh = (rs, lh')"
    by (cases "run_table lh_insert lh_delete lh_retrieve zero_malloc (map Put [0..<100]) lh")
  have "length (map Put [0..<100::nat]) < 2 ^ 57" by simp
  from hash_table_stays_balanced [OF malloc_zero_malloc by_number_ok n this r] have "lh_num_items lh' < 3 * lh_num_buckets lh'"
    by simp
  with n r show ?thesis by metis
qed

text \<open>C36.
  \<^verbatim>\<open>lh_doall\<close> with a callback that may delete the element it is given visits every element exactly once, never touches an item that has been
  freed, ends, and leaves exactly the elements that were not deleted.
\<close>

theorem doall_visits_each_once:
  assumes "malloc_spec m" and "lh_ok lh"
  shows "\<exists>lh'. lh_doall m (Some lh) (deleting m P g) w = Some (Some lh', fold g (map it_data (items lh)) w) \<and>
    lh_ok lh' \<and> (\<forall>key. lookup lh' key = (case lookup lh key of Some x \<Rightarrow> if P x then None else Some x | None \<Rightarrow> None))"
proof -
  let ?lh = "if callback_depth lh < UINT_MAX then lh\<lparr>callback_depth := callback_depth lh + 1\<rparr> else lh"
  have ok: "lh_ok ?lh" and d: "0 < callback_depth ?lh" and b: "lh_buckets ?lh = lh_buckets lh"
    using assms(2) by (auto simp: lh_ok_def items_def UINT_MAX_def)
  have i: "0 < length (lh_buckets ?lh)" using ok by (auto simp: lh_ok_def placed_def kMinNumBuckets_def)
  let ?u = "with_buckets ?lh (map (kept P) (lh_buckets lh))"
  have D: "doall_from (deleting m P g) 0 (first_id (lh_buckets ?lh ! 0)) ?lh w =
      Some (?u, fold g (map it_data (items lh)) w)" and u: "lh_ok ?u"
    using doall_from_all [OF assms(1) ok d i, of P g w] by (simp_all add: b items_def)
  define v where "v = (if callback_depth ?u < UINT_MAX then ?u\<lparr>callback_depth := callback_depth ?u - 1\<rparr> else ?u)"
  have v: "lh_ok v" and it: "items v = kept P (items lh)" and c: "lh_comp v = lh_comp lh"
    using u by (auto simp: lh_ok_def items_def filter_concat v_def)
  note R = lh_maybe_resize_ok [OF assms(1) v]
  have "lookup (lh_maybe_resize m v) key = Some y \<longleftrightarrow> lookup lh key = Some y \<and> \<not> P y" for key y
    unfolding lookup_same_items [OF v conjunct2 [OF R]] lookup_items [OF v refl, of key y, unfolded it c]
      lookup_items [OF assms(2) refl, of key y] by auto
  then have "lookup (lh_maybe_resize m v) key =
      (case lookup lh key of Some x \<Rightarrow> if P x then None else Some x | None \<Rightarrow> None)" for key
    by (intro option_eqI) (auto split: option.splits)
  moreover have "lh_doall m (Some lh) (deleting m P g) w = Some (Some (lh_maybe_resize m v), fold g (map it_data (items lh)) w)"
    using D by (simp add: lh_doall_def lh_doall_internal_def Let_def v_def)
  ultimately show ?thesis using R by blast
qed

lemma doall_visits_each_once_witness:
  "\<exists>lh lh'. lh_new zero_malloc (\<lambda>p. of_nat p) by_number = Some lh \<and>
     lh_doall zero_malloc (Some lh) (deleting zero_malloc (\<lambda>p. p = 5) (#)) [] = Some (Some lh', []) \<and> lh_ok lh'"
proof -
  obtain lh where n: "lh_new zero_malloc (\<lambda>p. of_nat p) by_number = Some lh" using new_table by blast
  have "items lh = []" using n by (auto simp: lh_new_def items_def split: option.splits)
  then obtain lh' where "lh_doall zero_malloc (Some lh) (deleting zero_malloc (\<lambda>p. p = 5) (#)) [] = Some (Some lh', [])" "lh_ok lh'"
    using doall_visits_each_once [OF malloc_zero_malloc(1) lh_new_ok(1) [OF by_number_ok n], of "\<lambda>p. p = 5" "(#)" "[]"] by auto
  with n show ?thesis by metis
qed

definition example_table :: lhash where
  "example_table = \<lparr>lh_count = 2,
     lh_buckets = (replicate 16 [])[5 := [\<lparr>it_id = 0, it_data = 5, it_hash = 5\<rparr>, \<lparr>it_id = 1, it_data = 21, it_hash = 21\<rparr>]],
     lh_num_buckets = 16, callback_depth = 0, lh_comp = by_number, lh_hash = (\<lambda>p. of_nat p), lh_next_id = 2\<rparr>"

lemma example_table_ok: "lh_ok example_table"
proof -
  have "items example_table = [\<lparr>it_id = 0, it_data = 5, it_hash = 5\<rparr>, \<lparr>it_id = 1, it_data = 21, it_hash = 21\<rparr>]"
    by (simp add: items_def example_table_def numeral_eq_Suc)
  moreover have "placed 16 (lh_buckets example_table)"
    by (auto simp: placed_def example_table_def nth_list_update)
  ultimately show ?thesis
    using by_number_ok by (simp add: lh_ok_def items_ok_def example_table_def kMinNumBuckets_def by_number_def)
qed

text \<open>Deleting another element from the callback is not safe, although \<^verbatim>\<open>lh_doall_internal\<close> expects callbacks to remove elements: in a table that
  satisfies the invariant, a callback that deletes the next element of the chain makes the walk continue with the item it has freed.
\<close>

theorem doall_reads_freed_item:
  "lh_ok example_table \<and>
   lh_doall zero_malloc (Some example_table) (\<lambda>lh w d. (if d = 5 then snd (lh_delete zero_malloc lh 21) else lh, w)) () = None"
proof -
  let ?f = "\<lambda>lh w d. (if d = 5 then snd (lh_delete zero_malloc lh 21) else lh, w :: unit)"
  let ?lh = "example_table\<lparr>callback_depth := 1\<rparr>"
  let ?at = "\<lambda>i. doall_from ?f i (first_id (lh_buckets ?lh ! i)) ?lh ()"
  have step: "?at i = ?at (Suc i)" if "i < 5" for i
  proof -
    have "first_id (lh_buckets ?lh ! i) = None" "Suc i < lh_num_buckets ?lh"
      using that by (simp_all add: example_table_def first_id_def)
    then show ?thesis by (subst doall_from.simps) simp
  qed
  have "?at i = ?at 5" if "i \<le> 5" for i
    using that by (induction rule: inc_induct) (rule refl, erule trans [OF step])
  from this [of 0] have "?at 0 = ?at 5" by (simp only: le0)
  also have "\<dots> = None"
    by (simp add: first_id_def example_table_def doall_from.simps [of _ _ "Some _"] lh_delete_def get_next_ptr_and_hash_def
        by_number_def lh_maybe_resize_def)
  finally show ?thesis
    using example_table_ok by (simp add: lh_doall_def lh_doall_internal_def UINT_MAX_def example_table_def)
qed

end
