(* ===== verification/Bio.thy ===== *)
theory Bio
  imports Buf
begin

text \<open>
  The objects of \<^verbatim>\<open>BoringSSL/crypto/bio\<close>: the structures, the reference count and the parts of \<^verbatim>\<open>bio.c\<close> that work on a single object.
  The objects live in an explicit heap, since they point to each other: an address is a natural number, a pointer that may be null
  an option.  \<open>freed\<close> records which objects have been released.  The function pointers of a method table are names: those of the
  memory object and of the pair stand for the code of \<^verbatim>\<open>bio_mem.c\<close> and \<^verbatim>\<open>pair.c\<close>, and \<open>User_fn k\<close> for code the caller supplies,
  which is a parameter of the model.
\<close>

section \<open>C integers\<close>

text \<open>The conversions to \<^verbatim>\<open>int\<close> and \<^verbatim>\<open>long\<close>.\<close>

definition to_int :: "int \<Rightarrow> int" where
  "to_int n = sint (word_of_int n :: 32 word)"

definition to_long :: "int \<Rightarrow> int" where
  "to_long n = sint (word_of_int n :: 64 word)"

definition INT_MAX :: int where
  "INT_MAX = 2 ^ 31 - 1"

lemma to_int_id: "- (2 ^ 31) \<le> n \<Longrightarrow> n < 2 ^ 31 \<Longrightarrow> to_int n = n"
  unfolding to_int_def by (simp add: int_word_sint)

lemma to_long_id: "- (2 ^ 63) \<le> n \<Longrightarrow> n < 2 ^ 63 \<Longrightarrow> to_long n = n"
  unfolding to_long_def by (simp add: int_word_sint)

section \<open>Types\<close>

datatype method_fn = Mem_fn | Pair_fn | User_fn nat

record bio_method =
  mt_type :: u32
  mt_bwrite :: "method_fn option"
  mt_bread :: "method_fn option"
  mt_bgets :: "method_fn option"
  mt_ctrl :: "method_fn option"
  mt_create :: "method_fn option"
  mt_destroy :: "method_fn option"
  mt_callback_ctrl :: "method_fn option"

text \<open>
  A memory object has a buffer; the data pointer of a read-only one moves on with every read, so the bytes before it are kept too.
  One end of a pair has the ring buffer of what it has written.
\<close>

record mem_state =
  mem_before :: bytes
  mem_buf :: buf_mem

record bio_bio =
  peer :: "nat option"
  closed :: bool
  bb_len :: nat
  bb_offset :: nat
  bb_size :: nat
  bb_buf :: "bytes option"
  request :: nat

datatype bio_ptr = Null_ptr | Mem_ptr mem_state | Pair_ptr bio_bio | User_ptr nat

record bio =
  bio_method :: "bio_method option"
  init :: int
  shutdown :: int
  bio_flags :: u32
  retry_reason :: int
  num :: int
  references :: u32
  bio_data :: bio_ptr
  next_bio :: "nat option"
  num_read :: nat
  num_write :: nat

record heap =
  bios :: "nat \<Rightarrow> bio"
  next_addr :: nat
  freed :: "nat list"

definition modify :: "heap \<Rightarrow> nat \<Rightarrow> (bio \<Rightarrow> bio) \<Rightarrow> heap" where
  "modify h b f = h\<lparr>bios := (bios h)(b := f (bios h b))\<rparr>"

lemma modify_simps [simp]:
  "bios (modify h b f) b = f (bios h b)" "b \<noteq> c \<Longrightarrow> bios (modify h b f) c = bios h c"
  "next_addr (modify h b f) = next_addr h" "freed (modify h b f) = freed h"
  by (simp_all add: modify_def)

lemma modify_modify [simp]: "modify (modify h b f) b g = modify h b (\<lambda>x. g (f x))"
  by (simp add: modify_def)

lemma modify_cong: "f (bios h b) = g (bios h b) \<Longrightarrow> modify h b f = modify h b g"
  by (simp add: modify_def)

lemma modify_same: "f (bios h b) = bios h b \<Longrightarrow> modify h b f = h"
  by (simp add: modify_def)

section \<open>Reference counts\<close>

definition CRYPTO_REFCOUNT_MAX :: u32 where
  "CRYPTO_REFCOUNT_MAX = 0xffffffff"

definition CRYPTO_refcount_inc :: "u32 \<Rightarrow> u32" where
  "CRYPTO_refcount_inc count = (if count < CRYPTO_REFCOUNT_MAX then count + 1 else count)"

text \<open>\<open>None\<close> is \<^verbatim>\<open>abort()\<close>.\<close>

definition CRYPTO_refcount_dec_and_test_zero :: "u32 \<Rightarrow> (bool \<times> u32) option" where
  "CRYPTO_refcount_dec_and_test_zero count =
     (if count = 0 then None
      else let count = (if count < CRYPTO_REFCOUNT_MAX then count - 1 else count) in Some (count = 0, count))"

section \<open>Flags\<close>

definition BIO_FLAGS_READ :: u32 where "BIO_FLAGS_READ = 0x01"
definition BIO_FLAGS_WRITE :: u32 where "BIO_FLAGS_WRITE = 0x02"
definition BIO_FLAGS_IO_SPECIAL :: u32 where "BIO_FLAGS_IO_SPECIAL = 0x04"
definition BIO_FLAGS_RWS :: u32 where "BIO_FLAGS_RWS = BIO_FLAGS_READ OR BIO_FLAGS_WRITE OR BIO_FLAGS_IO_SPECIAL"
definition BIO_FLAGS_SHOULD_RETRY :: u32 where "BIO_FLAGS_SHOULD_RETRY = 0x08"
definition BIO_FLAGS_MEM_RDONLY :: u32 where "BIO_FLAGS_MEM_RDONLY = 0x200"

definition kRetryFlags :: u32 where "kRetryFlags = BIO_FLAGS_RWS OR BIO_FLAGS_SHOULD_RETRY"

definition BIO_set_flags :: "heap \<Rightarrow> nat \<Rightarrow> u32 \<Rightarrow> heap" where
  "BIO_set_flags h bio flags = modify h bio (\<lambda>b. b\<lparr>bio_flags := bio_flags b OR flags\<rparr>)"

definition BIO_test_flags :: "heap \<Rightarrow> nat \<Rightarrow> u32 \<Rightarrow> u32" where
  "BIO_test_flags h bio flags = bio_flags (bios h bio) AND flags"

definition BIO_should_read :: "heap \<Rightarrow> nat \<Rightarrow> u32" where
  "BIO_should_read h bio = BIO_test_flags h bio BIO_FLAGS_READ"

definition BIO_should_write :: "heap \<Rightarrow> nat \<Rightarrow> u32" where
  "BIO_should_write h bio = BIO_test_flags h bio BIO_FLAGS_WRITE"

definition BIO_should_retry :: "heap \<Rightarrow> nat \<Rightarrow> u32" where
  "BIO_should_retry h bio = BIO_test_flags h bio BIO_FLAGS_SHOULD_RETRY"

definition BIO_should_io_special :: "heap \<Rightarrow> nat \<Rightarrow> u32" where
  "BIO_should_io_special h bio = BIO_test_flags h bio BIO_FLAGS_IO_SPECIAL"

definition BIO_get_retry_reason :: "heap \<Rightarrow> nat \<Rightarrow> int" where
  "BIO_get_retry_reason h bio = retry_reason (bios h bio)"

definition BIO_clear_flags :: "heap \<Rightarrow> nat \<Rightarrow> u32 \<Rightarrow> heap" where
  "BIO_clear_flags h bio flags = modify h bio (\<lambda>b. b\<lparr>bio_flags := bio_flags b AND NOT flags\<rparr>)"

definition BIO_set_retry_read :: "heap \<Rightarrow> nat \<Rightarrow> heap" where
  "BIO_set_retry_read h bio =
     modify h bio (\<lambda>b. b\<lparr>bio_flags := bio_flags b OR (BIO_FLAGS_READ OR BIO_FLAGS_SHOULD_RETRY)\<rparr>)"

definition BIO_set_retry_write :: "heap \<Rightarrow> nat \<Rightarrow> heap" where
  "BIO_set_retry_write h bio =
     modify h bio (\<lambda>b. b\<lparr>bio_flags := bio_flags b OR (BIO_FLAGS_WRITE OR BIO_FLAGS_SHOULD_RETRY)\<rparr>)"

definition BIO_set_retry_special :: "heap \<Rightarrow> nat \<Rightarrow> heap" where
  "BIO_set_retry_special h bio =
     modify h bio (\<lambda>b. b\<lparr>bio_flags := bio_flags b OR (BIO_FLAGS_READ OR BIO_FLAGS_IO_SPECIAL)\<rparr>)"

definition BIO_get_retry_flags :: "heap \<Rightarrow> nat \<Rightarrow> u32" where
  "BIO_get_retry_flags h bio = bio_flags (bios h bio) AND kRetryFlags"

definition BIO_clear_retry_flags :: "heap \<Rightarrow> nat \<Rightarrow> heap" where
  "BIO_clear_retry_flags h bio =
     modify h bio (\<lambda>b. b\<lparr>bio_flags := bio_flags b AND NOT kRetryFlags, retry_reason := 0\<rparr>)"

text \<open>\<open>None\<close> is the null pointer the code would read.\<close>

definition BIO_copy_next_retry :: "heap \<Rightarrow> nat \<Rightarrow> heap option" where
  "BIO_copy_next_retry h bio =
     (let h = BIO_clear_retry_flags h bio in
      case next_bio (bios h bio) of
        None \<Rightarrow> None
      | Some nxt \<Rightarrow>
          let h = BIO_set_flags h bio (BIO_get_retry_flags h nxt)
          in Some (modify h bio (\<lambda>b. b\<lparr>retry_reason := retry_reason (bios h nxt)\<rparr>)))"

section \<open>Fields\<close>

definition BIO_number_read :: "heap \<Rightarrow> nat \<Rightarrow> nat" where
  "BIO_number_read h bio = num_read (bios h bio)"

definition BIO_number_written :: "heap \<Rightarrow> nat \<Rightarrow> nat" where
  "BIO_number_written h bio = num_write (bios h bio)"

definition BIO_set_data :: "heap \<Rightarrow> nat \<Rightarrow> bio_ptr \<Rightarrow> heap" where
  "BIO_set_data h bio p = modify h bio (\<lambda>b. b\<lparr>bio_data := p\<rparr>)"

definition BIO_get_data :: "heap \<Rightarrow> nat \<Rightarrow> bio_ptr" where
  "BIO_get_data h bio = bio_data (bios h bio)"

definition BIO_set_init :: "heap \<Rightarrow> nat \<Rightarrow> int \<Rightarrow> heap" where
  "BIO_set_init h bio i = modify h bio (\<lambda>b. b\<lparr>init := i\<rparr>)"

definition BIO_get_init :: "heap \<Rightarrow> nat \<Rightarrow> int" where
  "BIO_get_init h bio = init (bios h bio)"

definition BIO_set_shutdown :: "heap \<Rightarrow> nat \<Rightarrow> int \<Rightarrow> heap" where
  "BIO_set_shutdown h bio s = modify h bio (\<lambda>b. b\<lparr>shutdown := s\<rparr>)"

definition BIO_get_shutdown :: "heap \<Rightarrow> nat \<Rightarrow> int" where
  "BIO_get_shutdown h bio = shutdown (bios h bio)"

definition BIO_up_ref :: "heap \<Rightarrow> nat \<Rightarrow> int \<times> heap" where
  "BIO_up_ref h bio = (1, modify h bio (\<lambda>b. b\<lparr>references := CRYPTO_refcount_inc (references b)\<rparr>))"

definition BIO_method_type :: "heap \<Rightarrow> nat \<Rightarrow> u32 option" where
  "BIO_method_type h bio = map_option mt_type (bio_method (bios h bio))"

section \<open>Chains\<close>

partial_function (option) chain_last :: "heap \<Rightarrow> nat \<Rightarrow> nat option" where
  "chain_last h last_bio =
     (case next_bio (bios h last_bio) of None \<Rightarrow> Some last_bio | Some n \<Rightarrow> chain_last h n)"

text \<open>\<open>None\<close> stands for not returning, on a chain that runs in a circle.\<close>

definition BIO_push :: "heap \<Rightarrow> nat option \<Rightarrow> nat option \<Rightarrow> (nat option \<times> heap) option" where
  "BIO_push h bio appended_bio =
     (case bio of
        None \<Rightarrow> Some (None, h)
      | Some b \<Rightarrow>
          (case chain_last h b of
             None \<Rightarrow> None
           | Some last_bio \<Rightarrow> Some (bio, modify h last_bio (\<lambda>x. x\<lparr>next_bio := appended_bio\<rparr>))))"

definition BIO_pop :: "heap \<Rightarrow> nat option \<Rightarrow> nat option \<times> heap" where
  "BIO_pop h bio =
     (case bio of
        None \<Rightarrow> (None, h)
      | Some b \<Rightarrow> (next_bio (bios h b), modify h b (\<lambda>x. x\<lparr>next_bio := None\<rparr>)))"

definition BIO_next :: "heap \<Rightarrow> nat option \<Rightarrow> nat option" where
  "BIO_next h bio = (case bio of None \<Rightarrow> None | Some b \<Rightarrow> next_bio (bios h b))"

definition has_type :: "bio \<Rightarrow> u32 \<Rightarrow> bool" where
  "has_type b type =
     (case bio_method b of
        None \<Rightarrow> False
      | Some mt \<Rightarrow> if type AND 0xff = 0 then mt_type mt AND type \<noteq> 0 else mt_type mt = type)"

partial_function (option) find_type_from :: "heap \<Rightarrow> nat \<Rightarrow> u32 \<Rightarrow> nat option option" where
  "find_type_from h bio type =
     (if has_type (bios h bio) type then Some (Some bio)
      else case next_bio (bios h bio) of None \<Rightarrow> Some None | Some n \<Rightarrow> find_type_from h n type)"

definition BIO_find_type :: "heap \<Rightarrow> nat option \<Rightarrow> u32 \<Rightarrow> nat option option" where
  "BIO_find_type h bio type = (case bio of None \<Rightarrow> Some None | Some b \<Rightarrow> find_type_from h b type)"

end
