(* ===== verification/BioMem.thy ===== *)
theory BioMem
  imports Bio
begin

text \<open>
  \<^verbatim>\<open>BoringSSL/crypto/bio/bio_mem.c\<close>: the object that reads from and writes to memory.  A method function takes the heap and
  gives its result and the heap it leaves; a read gives the bytes it stores too.
\<close>

section \<open>Control commands\<close>

definition BIO_CTRL_RESET :: int where "BIO_CTRL_RESET = 1"
definition BIO_CTRL_EOF :: int where "BIO_CTRL_EOF = 2"
definition BIO_CTRL_INFO :: int where "BIO_CTRL_INFO = 3"
definition BIO_CTRL_GET_CLOSE :: int where "BIO_CTRL_GET_CLOSE = 8"
definition BIO_CTRL_SET_CLOSE :: int where "BIO_CTRL_SET_CLOSE = 9"
definition BIO_CTRL_PENDING :: int where "BIO_CTRL_PENDING = 10"
definition BIO_CTRL_FLUSH :: int where "BIO_CTRL_FLUSH = 11"
definition BIO_CTRL_WPENDING :: int where "BIO_CTRL_WPENDING = 13"
definition BIO_C_SET_BUF_MEM :: int where "BIO_C_SET_BUF_MEM = 114"
definition BIO_C_GET_BUF_MEM_PTR :: int where "BIO_C_GET_BUF_MEM_PTR = 115"
definition BIO_C_SET_BUF_MEM_EOF_RETURN :: int where "BIO_C_SET_BUF_MEM_EOF_RETURN = 130"
definition BIO_C_GET_WRITE_BUF_SIZE :: int where "BIO_C_GET_WRITE_BUF_SIZE = 137"
definition BIO_C_GET_WRITE_GUARANTEE :: int where "BIO_C_GET_WRITE_GUARANTEE = 140"
definition BIO_C_GET_READ_REQUEST :: int where "BIO_C_GET_READ_REQUEST = 141"
definition BIO_C_SHUTDOWN_WR :: int where "BIO_C_SHUTDOWN_WR = 142"
definition BIO_C_RESET_READ_REQUEST :: int where "BIO_C_RESET_READ_REQUEST = 147"

lemmas ctrl_defs =
  BIO_CTRL_RESET_def BIO_CTRL_EOF_def BIO_CTRL_INFO_def BIO_CTRL_GET_CLOSE_def BIO_CTRL_SET_CLOSE_def BIO_CTRL_PENDING_def
  BIO_CTRL_FLUSH_def BIO_CTRL_WPENDING_def BIO_C_SET_BUF_MEM_def BIO_C_GET_BUF_MEM_PTR_def BIO_C_SET_BUF_MEM_EOF_RETURN_def
  BIO_C_GET_WRITE_BUF_SIZE_def BIO_C_GET_WRITE_GUARANTEE_def BIO_C_GET_READ_REQUEST_def BIO_C_SHUTDOWN_WR_def
  BIO_C_RESET_READ_REQUEST_def

text \<open>What the pointer argument of a control command points to, and what is stored through it.\<close>

datatype ctrl_arg = Null_arg | Out_arg | Int_arg int | Bio_arg nat | Mem_arg buf_mem
datatype ctrl_out = No_out | Data_out bytes | Mem_out buf_mem

section \<open>Operations\<close>

definition mem_method :: bio_method where
  "mem_method = \<lparr>mt_type = 0x401, mt_bwrite = Some Mem_fn, mt_bread = Some Mem_fn, mt_bgets = Some Mem_fn, mt_ctrl = Some Mem_fn,
     mt_create = Some Mem_fn, mt_destroy = Some Mem_fn, mt_callback_ctrl = None\<rparr>"

definition BIO_s_mem :: bio_method where
  "BIO_s_mem = mem_method"

text \<open>The \<^verbatim>\<open>BUF_MEM\<close> behind an object; one of another kind is read as an empty buffer.\<close>

definition mem_of :: "bio \<Rightarrow> mem_state" where
  "mem_of b = (case bio_data b of Mem_ptr s \<Rightarrow> s | _ \<Rightarrow> \<lparr>mem_before = [], mem_buf = \<lparr>bm_length = 0, bm_data = [], bm_max = 0\<rparr>\<rparr>)"

definition rdonly :: "bio \<Rightarrow> bool" where
  "rdonly b \<longleftrightarrow> bio_flags b AND BIO_FLAGS_MEM_RDONLY \<noteq> 0"

definition mem_new :: "malloc \<Rightarrow> heap \<Rightarrow> nat \<Rightarrow> bool \<times> heap" where
  "mem_new m h bio =
     (case BUF_MEM_new m of
        None \<Rightarrow> (False, h)
      | Some b \<Rightarrow> (True, modify h bio (\<lambda>x. x\<lparr>shutdown := 1, init := 1, num := -1,
            bio_data := Mem_ptr \<lparr>mem_before = [], mem_buf = b\<rparr>\<rparr>)))"

definition mem_free :: "heap \<Rightarrow> nat \<Rightarrow> int \<times> heap" where
  "mem_free h bio =
     (let x = bios h bio in
      if shutdown x = 0 \<or> init x = 0 \<or> bio_data x = Null_ptr then (1, h)
      else (1, modify h bio (\<lambda>x. x\<lparr>bio_data := Null_ptr\<rparr>)))"

definition mem_read :: "heap \<Rightarrow> nat \<Rightarrow> int \<Rightarrow> int \<times> bytes \<times> heap" where
  "mem_read h bio outl =
     (let s = mem_of (bios h bio); b = mem_buf s;
          h = BIO_clear_retry_flags h bio;
          ret = (if int (bm_length b) < INT_MAX \<and> outl > to_int (int (bm_length b)) then to_int (int (bm_length b)) else outl) in
      if ret > 0 then
        (let n = nat ret; len = bm_length b - n;
             s = (if rdonly (bios h bio)
                  then \<lparr>mem_before = mem_before s @ take n (bm_data b),
                        mem_buf = b\<lparr>bm_length := len, bm_data := drop n (bm_data b)\<rparr>\<rparr>
                  else s\<lparr>mem_buf := b\<lparr>bm_length := len, bm_data := Mem.mem_write (bm_data b) 0 (take len (drop n (bm_data b)))\<rparr>\<rparr>)
         in (ret, take n (bm_data b), modify h bio (\<lambda>x. x\<lparr>bio_data := Mem_ptr s\<rparr>)))
      else if bm_length b = 0 then
        (let ret = num (bios h bio) in (ret, [], if ret \<noteq> 0 then BIO_set_retry_read h bio else h))
      else (ret, [], h))"

definition mem_write :: "malloc \<Rightarrow> heap \<Rightarrow> nat \<Rightarrow> bytes \<Rightarrow> int \<Rightarrow> int \<times> heap" where
  "mem_write m h bio inp inl =
     (if rdonly (bios h bio) then (-1, h)
      else
        let h = BIO_clear_retry_flags h bio; s = mem_of (bios h bio); b = mem_buf s; blen = to_int (int (bm_length b)) in
        if INT_MAX - blen < inl then (-1, h)
        else case BUF_MEM_grow_clean m b (nat (blen + inl)) of (r, b) \<Rightarrow>
          if int r \<noteq> blen + inl then (-1, modify h bio (\<lambda>x. x\<lparr>bio_data := Mem_ptr (s\<lparr>mem_buf := b\<rparr>)\<rparr>))
          else (inl, modify h bio (\<lambda>x. x\<lparr>bio_data :=
                  Mem_ptr (s\<lparr>mem_buf := b\<lparr>bm_data := Mem.mem_write (bm_data b) (nat blen) (take (nat inl) inp)\<rparr>\<rparr>)\<rparr>)))"

text \<open>The bytes of the first line among the first \<open>j\<close>, the newline included.\<close>

definition line_end :: "bytes \<Rightarrow> nat \<Rightarrow> nat" where
  "line_end p j = (let i = length (takeWhile (\<lambda>c. c \<noteq> 10) (take j p)) in if i < j then i + 1 else j)"

text \<open>The stored bytes include the terminating NUL.\<close>

definition mem_gets :: "heap \<Rightarrow> nat \<Rightarrow> int \<Rightarrow> int \<times> bytes \<times> heap" where
  "mem_gets h bio sz =
     (let b = mem_buf (mem_of (bios h bio));
          h = BIO_clear_retry_flags h bio;
          j = to_int (int (bm_length b));
          j = (if sz - 1 < j then sz - 1 else j) in
      if j \<le> 0 then (0, if sz > 0 then [0] else [], h)
      else case mem_read h bio (int (line_end (bm_data b) (nat j))) of (i, bs, h) \<Rightarrow>
        (i, if i > 0 then bs @ [0] else bs, h))"

definition mem_ctrl :: "heap \<Rightarrow> nat \<Rightarrow> int \<Rightarrow> int \<Rightarrow> ctrl_arg \<Rightarrow> int \<times> ctrl_out \<times> heap" where
  "mem_ctrl h bio cmd n ptr =
     (let x = bios h bio; s = mem_of x; b = mem_buf s in
      if cmd = BIO_CTRL_RESET then
        (1, No_out,
         if mem_before s @ bm_data b = [] then h
         else if rdonly x then
           (let back = bm_max b - bm_length b; k = length (mem_before s) - back
            in modify h bio (\<lambda>x. x\<lparr>bio_data := Mem_ptr \<lparr>mem_before = take k (mem_before s),
                 mem_buf = b\<lparr>bm_data := drop k (mem_before s) @ bm_data b, bm_length := bm_max b\<rparr>\<rparr>\<rparr>))
         else modify h bio (\<lambda>x. x\<lparr>bio_data := Mem_ptr (s\<lparr>mem_buf := b\<lparr>bm_data := replicate (bm_max b) 0, bm_length := 0\<rparr>\<rparr>)\<rparr>))
      else if cmd = BIO_CTRL_EOF then (if bm_length b = 0 then 1 else 0, No_out, h)
      else if cmd = BIO_C_SET_BUF_MEM_EOF_RETURN then (1, No_out, modify h bio (\<lambda>x. x\<lparr>num := to_int n\<rparr>))
      else if cmd = BIO_CTRL_INFO then
        (to_long (int (bm_length b)), if ptr \<noteq> Null_arg then Data_out (bm_data b) else No_out, h)
      else if cmd = BIO_C_SET_BUF_MEM then
        (1, No_out, modify (snd (mem_free h bio)) bio (\<lambda>x. x\<lparr>shutdown := to_int n,
           bio_data := (case ptr of Mem_arg b \<Rightarrow> Mem_ptr \<lparr>mem_before = [], mem_buf = b\<rparr> | _ \<Rightarrow> Null_ptr)\<rparr>))
      else if cmd = BIO_C_GET_BUF_MEM_PTR then (1, if ptr \<noteq> Null_arg then Mem_out b else No_out, h)
      else if cmd = BIO_CTRL_GET_CLOSE then (shutdown x, No_out, h)
      else if cmd = BIO_CTRL_SET_CLOSE then (1, No_out, modify h bio (\<lambda>x. x\<lparr>shutdown := to_int n\<rparr>))
      else if cmd = BIO_CTRL_WPENDING then (0, No_out, h)
      else if cmd = BIO_CTRL_PENDING then (to_long (int (bm_length b)), No_out, h)
      else if cmd = BIO_CTRL_FLUSH then (1, No_out, h)
      else (0, No_out, h))"

definition BIO_mem_contents :: "heap \<Rightarrow> nat \<Rightarrow> bytes option" where
  "BIO_mem_contents h bio =
     (if bio_method (bios h bio) \<noteq> Some mem_method then None
      else let b = mem_buf (mem_of (bios h bio)) in Some (take (bm_length b) (bm_data b)))"

end
