(* ===== verification/BioPair.thy ===== *)
theory BioPair
  imports BioMem
begin

text \<open>
  \<^verbatim>\<open>BoringSSL/crypto/bio/pair.c\<close>: two objects that are connected by two ring buffers.  What one end writes goes into its own ring and is
  what its peer reads.
\<close>

section \<open>Operations\<close>

definition methods_biop :: bio_method where
  "methods_biop = \<lparr>mt_type = 0x413, mt_bwrite = Some Pair_fn, mt_bread = Some Pair_fn, mt_bgets = None, mt_ctrl = Some Pair_fn,
     mt_create = Some Pair_fn, mt_destroy = Some Pair_fn, mt_callback_ctrl = None\<rparr>"

definition zero_pair :: bio_bio where
  "zero_pair = \<lparr>peer = None, closed = False, bb_len = 0, bb_offset = 0, bb_size = 0, bb_buf = None, request = 0\<rparr>"

text \<open>The structure behind an object; one of another kind is read as zeroes.\<close>

definition pair_of :: "heap \<Rightarrow> nat \<Rightarrow> bio_bio" where
  "pair_of h b = (case bio_data (bios h b) of Pair_ptr p \<Rightarrow> p | _ \<Rightarrow> zero_pair)"

definition set_pair :: "heap \<Rightarrow> nat \<Rightarrow> bio_bio \<Rightarrow> heap" where
  "set_pair h b p = modify h b (\<lambda>x. x\<lparr>bio_data := Pair_ptr p\<rparr>)"

definition bio_new :: "malloc \<Rightarrow> heap \<Rightarrow> nat \<Rightarrow> bool \<times> heap" where
  "bio_new m h bio =
     (case OPENSSL_malloc m 56 of
        None \<Rightarrow> (False, h)
      | Some _ \<Rightarrow> (True, set_pair h bio (zero_pair\<lparr>bb_size := 17 * 1024\<rparr>)))"

definition bio_destroy_pair :: "heap \<Rightarrow> nat \<Rightarrow> heap" where
  "bio_destroy_pair h bio =
     (if bio_data (bios h bio) = Null_ptr then h
      else let b = pair_of h bio in
        case peer b of
          None \<Rightarrow> h
        | Some peer_bio \<Rightarrow>
            let h = set_pair h peer_bio ((pair_of h peer_bio)\<lparr>peer := None, bb_len := 0, bb_offset := 0\<rparr>);
                h = modify h peer_bio (\<lambda>x. x\<lparr>init := 0\<rparr>);
                h = set_pair h bio ((pair_of h bio)\<lparr>peer := None, bb_len := 0, bb_offset := 0\<rparr>)
            in modify h bio (\<lambda>x. x\<lparr>init := 0\<rparr>))"

text \<open>The structure and its buffer are freed; \<open>bio->ptr\<close> is left dangling, which the model shows as a null pointer.\<close>

definition bio_free :: "heap \<Rightarrow> nat \<Rightarrow> int \<times> heap" where
  "bio_free h bio =
     (let h = (if peer (pair_of h bio) \<noteq> None then bio_destroy_pair h bio else h)
      in (1, modify h bio (\<lambda>x. x\<lparr>bio_data := Null_ptr\<rparr>)))"

text \<open>
  The loop that reads from a ring takes one or two rounds; \<open>fuel\<close> bounds them.
\<close>

primrec read_ring :: "nat \<Rightarrow> bio_bio \<Rightarrow> nat \<Rightarrow> bytes \<times> bio_bio" where
  "read_ring 0 peer_b rest = ([], peer_b)"
| "read_ring (Suc fuel) peer_b rest =
     (let ring = (case bb_buf peer_b of None \<Rightarrow> [] | Some r \<Rightarrow> r);
          chunk = (if bb_offset peer_b + rest \<le> bb_size peer_b then rest else bb_size peer_b - bb_offset peer_b);
          bs = take chunk (drop (bb_offset peer_b) ring);
          peer_b = peer_b\<lparr>bb_len := bb_len peer_b - chunk\<rparr>;
          peer_b =
            (if bb_len peer_b \<noteq> 0 then
               (let peer_b = peer_b\<lparr>bb_offset := bb_offset peer_b + chunk\<rparr>
                in if bb_offset peer_b = bb_size peer_b then peer_b\<lparr>bb_offset := 0\<rparr> else peer_b)
             else peer_b\<lparr>bb_offset := 0\<rparr>);
          rest = rest - chunk
      in if rest \<noteq> 0 then (case read_ring fuel peer_b rest of (bs', peer_b) \<Rightarrow> (bs @ bs', peer_b)) else (bs, peer_b))"

definition bio_read :: "heap \<Rightarrow> nat \<Rightarrow> int \<Rightarrow> int \<times> bytes \<times> heap" where
  "bio_read h bio size0 =
     (let sz = nat (size0 mod 2 ^ 64); h = BIO_clear_retry_flags h bio in
      if init (bios h bio) = 0 then (0, [], h)
      else
        let peer_bio = the (peer (pair_of h bio));
            h = set_pair h peer_bio ((pair_of h peer_bio)\<lparr>request := 0\<rparr>);
            peer_b = pair_of h peer_bio in
        if sz = 0 then (0, [], h)
        else if bb_len peer_b = 0 then
          (if closed peer_b then (0, [], h)
           else let h = BIO_set_retry_read h bio
             in (-1, [], set_pair h peer_bio (peer_b\<lparr>request := (if sz \<le> bb_size peer_b then sz else bb_size peer_b)\<rparr>)))
        else
          let sz = (if bb_len peer_b < sz then bb_len peer_b else sz) in
          case read_ring 2 peer_b sz of (bs, peer_b) \<Rightarrow> (to_int (int sz), bs, set_pair h peer_bio peer_b))"

primrec write_ring :: "nat \<Rightarrow> bio_bio \<Rightarrow> bytes \<Rightarrow> bio_bio" where
  "write_ring 0 b buf = b"
| "write_ring (Suc fuel) b buf =
     (let ring = (case bb_buf b of None \<Rightarrow> [] | Some r \<Rightarrow> r); rest = length buf;
          write_offset = bb_offset b + bb_len b;
          write_offset = (if write_offset \<ge> bb_size b then write_offset - bb_size b else write_offset);
          chunk = (if write_offset + rest \<le> bb_size b then rest else bb_size b - write_offset);
          b = b\<lparr>bb_buf := Some (Mem.mem_write ring write_offset (take chunk buf)), bb_len := bb_len b + chunk\<rparr>
      in if rest - chunk \<noteq> 0 then write_ring fuel b (drop chunk buf) else b)"

definition bio_write :: "heap \<Rightarrow> nat \<Rightarrow> bytes \<Rightarrow> int \<Rightarrow> int \<times> heap" where
  "bio_write h bio buf num0 =
     (let n = nat (num0 mod 2 ^ 64); h = BIO_clear_retry_flags h bio in
      if init (bios h bio) = 0 \<or> n = 0 then (0, h)
      else
        let b = (pair_of h bio)\<lparr>request := 0\<rparr>; h = set_pair h bio b in
        if closed b then (-1, h)
        else if bb_len b = bb_size b then (-1, BIO_set_retry_write h bio)
        else
          let n = (if n > bb_size b - bb_len b then bb_size b - bb_len b else n)
          in (to_int (int n), set_pair h bio (write_ring 2 b (take n buf))))"

text \<open>The part of \<^verbatim>\<open>bio_make_pair\<close> that is done for either end: its buffer.\<close>

definition make_buffer :: "malloc \<Rightarrow> bio_bio \<Rightarrow> nat \<Rightarrow> bool \<times> bio_bio" where
  "make_buffer m b writebuf_len =
     (if bb_buf b = None then
        (let b = (if writebuf_len \<noteq> 0 then b\<lparr>bb_size := writebuf_len\<rparr> else b) in
         case OPENSSL_malloc m (bb_size b) of
           None \<Rightarrow> (False, b)
         | Some blk \<Rightarrow> (True, b\<lparr>bb_buf := Some (blk_data blk), bb_len := 0, bb_offset := 0\<rparr>))
      else (True, b))"

definition bio_make_pair :: "malloc \<Rightarrow> heap \<Rightarrow> nat \<Rightarrow> nat \<Rightarrow> nat \<Rightarrow> nat \<Rightarrow> bool \<times> heap" where
  "bio_make_pair m h bio1 bio2 writebuf1_len writebuf2_len =
     (if peer (pair_of h bio1) \<noteq> None \<or> peer (pair_of h bio2) \<noteq> None then (False, h)
      else case make_buffer m (pair_of h bio1) writebuf1_len of
          (False, b1) \<Rightarrow> (False, set_pair h bio1 b1)
        | (True, b1) \<Rightarrow>
            let h = set_pair h bio1 b1 in
            (case make_buffer m (pair_of h bio2) writebuf2_len of
               (False, b2) \<Rightarrow> (False, set_pair h bio2 b2)
             | (True, b2) \<Rightarrow>
                 let h = set_pair h bio2 b2;
                     h = set_pair h bio1 ((pair_of h bio1)\<lparr>peer := Some bio2, closed := False, request := 0\<rparr>);
                     h = set_pair h bio2 ((pair_of h bio2)\<lparr>peer := Some bio1, closed := False, request := 0\<rparr>);
                     h = modify h bio1 (\<lambda>x. x\<lparr>init := 1\<rparr>)
                 in (True, modify h bio2 (\<lambda>x. x\<lparr>init := 1\<rparr>))))"

definition bio_ctrl :: "heap \<Rightarrow> nat \<Rightarrow> int \<Rightarrow> int \<Rightarrow> ctrl_arg \<Rightarrow> int \<times> ctrl_out \<times> heap" where
  "bio_ctrl h bio cmd n ptr =
     (let b = pair_of h bio in
      if cmd = BIO_C_GET_WRITE_BUF_SIZE then (to_long (int (bb_size b)), No_out, h)
      else if cmd = BIO_C_GET_WRITE_GUARANTEE then
        (if peer b = None \<or> closed b then 0 else to_long (int (bb_size b) - int (bb_len b)), No_out, h)
      else if cmd = BIO_C_GET_READ_REQUEST then (to_long (int (request b)), No_out, h)
      else if cmd = BIO_C_RESET_READ_REQUEST then (1, No_out, set_pair h bio (b\<lparr>request := 0\<rparr>))
      else if cmd = BIO_C_SHUTDOWN_WR then (1, No_out, set_pair h bio (b\<lparr>closed := True\<rparr>))
      else if cmd = BIO_CTRL_GET_CLOSE then (shutdown (bios h bio), No_out, h)
      else if cmd = BIO_CTRL_SET_CLOSE then (1, No_out, modify h bio (\<lambda>x. x\<lparr>shutdown := to_int n\<rparr>))
      else if cmd = BIO_CTRL_PENDING then
        (case peer b of None \<Rightarrow> 0 | Some peer_bio \<Rightarrow> to_long (int (bb_len (pair_of h peer_bio))), No_out, h)
      else if cmd = BIO_CTRL_WPENDING then (if bb_buf b \<noteq> None then to_long (int (bb_len b)) else 0, No_out, h)
      else if cmd = BIO_CTRL_FLUSH then (1, No_out, h)
      else if cmd = BIO_CTRL_EOF then
        (case ptr of
           Bio_arg other_bio \<Rightarrow> if bb_len (pair_of h other_bio) = 0 \<and> closed (pair_of h other_bio) then 1 else 0
         | _ \<Rightarrow> 1, No_out, h)
      else (0, No_out, h))"

end
