(* ===== verification/BioIo.thy ===== *)
theory BioIo
  imports BioPair
begin

text \<open>
  The rest of \<^verbatim>\<open>BoringSSL/crypto/bio/bio.c\<close>: creating and freeing objects, and the operations that call the functions of an
  object's method table; what else is built on them, \<^verbatim>\<open>hexdump.c\<close> included.  The functions a caller supplies are fields of the
  environment, with the allocator.
\<close>

section \<open>Method calls\<close>

record bio_env =
  env_malloc :: malloc
  user_write :: "nat \<Rightarrow> heap \<Rightarrow> nat \<Rightarrow> bytes \<Rightarrow> int \<Rightarrow> int \<times> heap"
  user_read :: "nat \<Rightarrow> heap \<Rightarrow> nat \<Rightarrow> int \<Rightarrow> int \<times> bytes \<times> heap"
  user_gets :: "nat \<Rightarrow> heap \<Rightarrow> nat \<Rightarrow> int \<Rightarrow> int \<times> bytes \<times> heap"
  user_ctrl :: "nat \<Rightarrow> heap \<Rightarrow> nat \<Rightarrow> int \<Rightarrow> int \<Rightarrow> ctrl_arg \<Rightarrow> int \<times> ctrl_out \<times> heap"
  user_create :: "nat \<Rightarrow> heap \<Rightarrow> nat \<Rightarrow> bool \<times> heap"
  user_destroy :: "nat \<Rightarrow> heap \<Rightarrow> nat \<Rightarrow> heap"
  user_callback_ctrl :: "nat \<Rightarrow> heap \<Rightarrow> nat \<Rightarrow> int \<Rightarrow> int \<times> heap"

definition call_write :: "bio_env \<Rightarrow> method_fn \<Rightarrow> heap \<Rightarrow> nat \<Rightarrow> bytes \<Rightarrow> int \<Rightarrow> int \<times> heap" where
  "call_write e f h b inp inl =
     (case f of
        Mem_fn \<Rightarrow> mem_write (env_malloc e) h b inp inl
      | Pair_fn \<Rightarrow> bio_write h b inp inl
      | User_fn k \<Rightarrow> user_write e k h b inp inl)"

definition call_read :: "bio_env \<Rightarrow> method_fn \<Rightarrow> heap \<Rightarrow> nat \<Rightarrow> int \<Rightarrow> int \<times> bytes \<times> heap" where
  "call_read e f h b len =
     (case f of Mem_fn \<Rightarrow> mem_read h b len | Pair_fn \<Rightarrow> bio_read h b len | User_fn k \<Rightarrow> user_read e k h b len)"

definition call_gets :: "bio_env \<Rightarrow> method_fn \<Rightarrow> heap \<Rightarrow> nat \<Rightarrow> int \<Rightarrow> int \<times> bytes \<times> heap" where
  "call_gets e f h b len =
     (case f of Mem_fn \<Rightarrow> mem_gets h b len | Pair_fn \<Rightarrow> (-2, [], h) | User_fn k \<Rightarrow> user_gets e k h b len)"

definition call_ctrl :: "bio_env \<Rightarrow> method_fn \<Rightarrow> heap \<Rightarrow> nat \<Rightarrow> int \<Rightarrow> int \<Rightarrow> ctrl_arg \<Rightarrow> int \<times> ctrl_out \<times> heap" where
  "call_ctrl e f h b cmd larg parg =
     (case f of
        Mem_fn \<Rightarrow> mem_ctrl h b cmd larg parg
      | Pair_fn \<Rightarrow> bio_ctrl h b cmd larg parg
      | User_fn k \<Rightarrow> user_ctrl e k h b cmd larg parg)"

definition call_create :: "bio_env \<Rightarrow> method_fn \<Rightarrow> heap \<Rightarrow> nat \<Rightarrow> bool \<times> heap" where
  "call_create e f h b =
     (case f of Mem_fn \<Rightarrow> mem_new (env_malloc e) h b | Pair_fn \<Rightarrow> bio_new (env_malloc e) h b | User_fn k \<Rightarrow> user_create e k h b)"

definition call_destroy :: "bio_env \<Rightarrow> method_fn \<Rightarrow> heap \<Rightarrow> nat \<Rightarrow> heap" where
  "call_destroy e f h b =
     (case f of Mem_fn \<Rightarrow> snd (mem_free h b) | Pair_fn \<Rightarrow> snd (bio_free h b) | User_fn k \<Rightarrow> user_destroy e k h b)"

definition method_of :: "heap \<Rightarrow> nat option \<Rightarrow> (bio_method \<Rightarrow> method_fn option) \<Rightarrow> (nat \<times> method_fn) option" where
  "method_of h bio field =
     (case bio of
        None \<Rightarrow> None
      | Some b \<Rightarrow> (case bio_method (bios h b) of None \<Rightarrow> None | Some mt \<Rightarrow> map_option (Pair b) (field mt)))"

section \<open>Creating and freeing\<close>

definition zero_bio :: bio where
  "zero_bio = \<lparr>bio_method = None, init = 0, shutdown = 0, bio_flags = 0, retry_reason = 0, num = 0, references = 0,
     bio_data = Null_ptr, next_bio = None, num_read = 0, num_write = 0\<rparr>"

definition release :: "heap \<Rightarrow> nat \<Rightarrow> heap" where
  "release h b = h\<lparr>freed := freed h @ [b]\<rparr>"

definition BIO_new :: "bio_env \<Rightarrow> heap \<Rightarrow> bio_method \<Rightarrow> nat option \<times> heap" where
  "BIO_new e h meth =
     (case OPENSSL_malloc (env_malloc e) 64 of
        None \<Rightarrow> (None, h)
      | Some _ \<Rightarrow>
          let b = next_addr h;
              h = h\<lparr>bios := (bios h)(b := zero_bio\<lparr>bio_method := Some meth, shutdown := 1, references := 1\<rparr>), next_addr := b + 1\<rparr>
          in (case mt_create meth of
                None \<Rightarrow> (Some b, h)
              | Some f \<Rightarrow> (case call_create e f h b of
                    (True, h) \<Rightarrow> (Some b, h)
                  | (False, h) \<Rightarrow> (None, release h b))))"

text \<open>The body of the loop once the last reference is gone: the object is unlinked, destroyed and freed; its successor is next.\<close>

definition destroy_bio :: "bio_env \<Rightarrow> heap \<Rightarrow> nat \<Rightarrow> nat option \<times> heap" where
  "destroy_bio e h b =
     (case BIO_pop h (Some b) of (nxt, h) \<Rightarrow>
        let h = (case method_of h (Some b) mt_destroy of None \<Rightarrow> h | Some (b, f) \<Rightarrow> call_destroy e f h b)
        in (nxt, release h b))"

text \<open>\<open>None\<close> is \<^verbatim>\<open>abort()\<close>, when a count is already zero.\<close>

partial_function (option) BIO_free :: "bio_env \<Rightarrow> heap \<Rightarrow> nat option \<Rightarrow> (int \<times> heap) option" where
  "BIO_free e h bio =
     (case bio of
        None \<Rightarrow> Some (1, h)
      | Some b \<Rightarrow>
          (case CRYPTO_refcount_dec_and_test_zero (references (bios h b)) of
             None \<Rightarrow> None
           | Some (zero, count) \<Rightarrow>
               if zero then
                 (case destroy_bio e (modify h b (\<lambda>x. x\<lparr>references := count\<rparr>)) b of (nxt, h) \<Rightarrow> BIO_free e h nxt)
               else Some (0, modify h b (\<lambda>x. x\<lparr>references := count\<rparr>))))"

definition BIO_vfree :: "bio_env \<Rightarrow> heap \<Rightarrow> nat option \<Rightarrow> heap option" where
  "BIO_vfree e h bio = map_option snd (BIO_free e h bio)"

definition BIO_free_all :: "bio_env \<Rightarrow> heap \<Rightarrow> nat option \<Rightarrow> heap option" where
  "BIO_free_all e h bio = map_option snd (BIO_free e h bio)"

section \<open>Reading and writing\<close>

definition BIO_read :: "bio_env \<Rightarrow> heap \<Rightarrow> nat option \<Rightarrow> int \<Rightarrow> int \<times> bytes \<times> heap" where
  "BIO_read e h bio len =
     (case method_of h bio mt_bread of
        None \<Rightarrow> (-2, [], h)
      | Some (b, f) \<Rightarrow>
          if init (bios h b) = 0 then (-2, [], h)
          else if len \<le> 0 then (0, [], h)
          else case call_read e f h b len of (ret, bs, h) \<Rightarrow>
            (ret, bs, if ret > 0 then modify h b (\<lambda>x. x\<lparr>num_read := size_add (num_read x) (nat ret)\<rparr>) else h))"

definition BIO_gets :: "bio_env \<Rightarrow> heap \<Rightarrow> nat option \<Rightarrow> int \<Rightarrow> int \<times> bytes \<times> heap" where
  "BIO_gets e h bio len =
     (case method_of h bio mt_bgets of
        None \<Rightarrow> (-2, [], h)
      | Some (b, f) \<Rightarrow>
          if init (bios h b) = 0 then (-2, [], h)
          else if len \<le> 0 then (0, [], h)
          else case call_gets e f h b len of (ret, bs, h) \<Rightarrow>
            (ret, bs, if ret > 0 then modify h b (\<lambda>x. x\<lparr>num_read := size_add (num_read x) (nat ret)\<rparr>) else h))"

definition BIO_write :: "bio_env \<Rightarrow> heap \<Rightarrow> nat option \<Rightarrow> bytes \<Rightarrow> int \<Rightarrow> int \<times> heap" where
  "BIO_write e h bio inp inl =
     (case method_of h bio mt_bwrite of
        None \<Rightarrow> (-2, h)
      | Some (b, f) \<Rightarrow>
          if init (bios h b) = 0 then (-2, h)
          else if inl \<le> 0 then (0, h)
          else case call_write e f h b inp inl of (ret, h) \<Rightarrow>
            (ret, if ret > 0 then modify h b (\<lambda>x. x\<lparr>num_write := size_add (num_write x) (nat ret)\<rparr>) else h))"

definition BIO_puts :: "bio_env \<Rightarrow> heap \<Rightarrow> nat option \<Rightarrow> bytes \<Rightarrow> int \<times> heap" where
  "BIO_puts e h bio inp = (let s = takeWhile (\<lambda>c. c \<noteq> 0) inp in BIO_write e h bio s (to_int (int (length s))))"

section \<open>Control\<close>

definition BIO_ctrl :: "bio_env \<Rightarrow> heap \<Rightarrow> nat option \<Rightarrow> int \<Rightarrow> int \<Rightarrow> ctrl_arg \<Rightarrow> int \<times> ctrl_out \<times> heap" where
  "BIO_ctrl e h bio cmd larg parg =
     (if bio = None then (0, No_out, h)
      else case method_of h bio mt_ctrl of
          None \<Rightarrow> (-2, No_out, h)
        | Some (b, f) \<Rightarrow> call_ctrl e f h b cmd larg parg)"

definition BIO_ptr_ctrl :: "bio_env \<Rightarrow> heap \<Rightarrow> nat option \<Rightarrow> int \<Rightarrow> int \<Rightarrow> ctrl_out \<times> heap" where
  "BIO_ptr_ctrl e h b cmd larg =
     (case BIO_ctrl e h b cmd larg Out_arg of (ret, p, h) \<Rightarrow> (if ret \<le> 0 then No_out else p, h))"

definition BIO_int_ctrl :: "bio_env \<Rightarrow> heap \<Rightarrow> nat option \<Rightarrow> int \<Rightarrow> int \<Rightarrow> int \<Rightarrow> int \<times> heap" where
  "BIO_int_ctrl e h b cmd larg iarg = (case BIO_ctrl e h b cmd larg (Int_arg iarg) of (ret, _, h) \<Rightarrow> (ret, h))"

text \<open>The calls that convert the result to \<^verbatim>\<open>int\<close>.\<close>

definition int_ctrl :: "bio_env \<Rightarrow> heap \<Rightarrow> nat option \<Rightarrow> int \<Rightarrow> int \<Rightarrow> ctrl_arg \<Rightarrow> int \<times> heap" where
  "int_ctrl e h bio cmd larg parg = (case BIO_ctrl e h bio cmd larg parg of (ret, _, h) \<Rightarrow> (to_int ret, h))"

definition BIO_flush :: "bio_env \<Rightarrow> heap \<Rightarrow> nat option \<Rightarrow> int \<times> heap" where
  "BIO_flush e h bio = int_ctrl e h bio BIO_CTRL_FLUSH 0 Null_arg"

definition BIO_reset :: "bio_env \<Rightarrow> heap \<Rightarrow> nat option \<Rightarrow> int \<times> heap" where
  "BIO_reset e h bio = int_ctrl e h bio BIO_CTRL_RESET 0 Null_arg"

definition BIO_eof :: "bio_env \<Rightarrow> heap \<Rightarrow> nat option \<Rightarrow> int \<times> heap" where
  "BIO_eof e h bio = int_ctrl e h bio BIO_CTRL_EOF 0 Null_arg"

definition BIO_set_close :: "bio_env \<Rightarrow> heap \<Rightarrow> nat option \<Rightarrow> int \<Rightarrow> int \<times> heap" where
  "BIO_set_close e h bio close_flag = int_ctrl e h bio BIO_CTRL_SET_CLOSE close_flag Null_arg"

definition BIO_shutdown_wr :: "bio_env \<Rightarrow> heap \<Rightarrow> nat option \<Rightarrow> int \<times> heap" where
  "BIO_shutdown_wr e h bio = int_ctrl e h bio BIO_C_SHUTDOWN_WR 0 Null_arg"

definition BIO_set_mem_buf :: "bio_env \<Rightarrow> heap \<Rightarrow> nat option \<Rightarrow> buf_mem \<Rightarrow> int \<Rightarrow> int \<times> heap" where
  "BIO_set_mem_buf e h bio b take_ownership = int_ctrl e h bio BIO_C_SET_BUF_MEM take_ownership (Mem_arg b)"

definition BIO_set_mem_eof_return :: "bio_env \<Rightarrow> heap \<Rightarrow> nat option \<Rightarrow> int \<Rightarrow> int \<times> heap" where
  "BIO_set_mem_eof_return e h bio eof_value = int_ctrl e h bio BIO_C_SET_BUF_MEM_EOF_RETURN eof_value Null_arg"

definition BIO_get_mem_data :: "bio_env \<Rightarrow> heap \<Rightarrow> nat option \<Rightarrow> int \<times> ctrl_out \<times> heap" where
  "BIO_get_mem_data e h bio = BIO_ctrl e h bio BIO_CTRL_INFO 0 Out_arg"

definition BIO_get_mem_ptr :: "bio_env \<Rightarrow> heap \<Rightarrow> nat option \<Rightarrow> int \<times> ctrl_out \<times> heap" where
  "BIO_get_mem_ptr e h bio =
     (case BIO_ctrl e h bio BIO_C_GET_BUF_MEM_PTR 0 Out_arg of (ret, p, h) \<Rightarrow> (to_int ret, p, h))"

text \<open>The calls that give a \<^verbatim>\<open>size_t\<close>.\<close>

definition BIO_pending :: "bio_env \<Rightarrow> heap \<Rightarrow> nat option \<Rightarrow> nat \<times> heap" where
  "BIO_pending e h bio = (case BIO_ctrl e h bio BIO_CTRL_PENDING 0 Null_arg of (r, _, h) \<Rightarrow> (if r < 0 then 0 else nat r, h))"

definition BIO_ctrl_pending :: "bio_env \<Rightarrow> heap \<Rightarrow> nat option \<Rightarrow> nat \<times> heap" where
  "BIO_ctrl_pending e h bio = BIO_pending e h bio"

definition BIO_wpending :: "bio_env \<Rightarrow> heap \<Rightarrow> nat option \<Rightarrow> nat \<times> heap" where
  "BIO_wpending e h bio = (case BIO_ctrl e h bio BIO_CTRL_WPENDING 0 Null_arg of (r, _, h) \<Rightarrow> (if r < 0 then 0 else nat r, h))"

definition BIO_ctrl_get_read_request :: "bio_env \<Rightarrow> heap \<Rightarrow> nat option \<Rightarrow> nat \<times> heap" where
  "BIO_ctrl_get_read_request e h bio =
     (case BIO_ctrl e h bio BIO_C_GET_READ_REQUEST 0 Null_arg of (r, _, h) \<Rightarrow> (nat (r mod 2 ^ 64), h))"

definition BIO_ctrl_get_write_guarantee :: "bio_env \<Rightarrow> heap \<Rightarrow> nat option \<Rightarrow> nat \<times> heap" where
  "BIO_ctrl_get_write_guarantee e h bio =
     (case BIO_ctrl e h bio BIO_C_GET_WRITE_GUARANTEE 0 Null_arg of (r, _, h) \<Rightarrow> (nat (r mod 2 ^ 64), h))"

definition BIO_callback_ctrl :: "bio_env \<Rightarrow> heap \<Rightarrow> nat option \<Rightarrow> int \<Rightarrow> int \<times> heap" where
  "BIO_callback_ctrl e h bio cmd =
     (case method_of h bio mt_callback_ctrl of
        Some (b, User_fn k) \<Rightarrow> user_callback_ctrl e k h b cmd
      | _ \<Rightarrow> (0, h))"

section \<open>Constructors\<close>

definition BIO_new_mem_buf :: "bio_env \<Rightarrow> heap \<Rightarrow> bytes option \<Rightarrow> int \<Rightarrow> nat option \<times> heap" where
  "BIO_new_mem_buf e h buf len =
     (let bs = (case buf of None \<Rightarrow> [] | Some s \<Rightarrow> s);
          sz = (if len < 0 then length (takeWhile (\<lambda>c. c \<noteq> 0) bs) else nat len) in
      if buf = None \<and> len \<noteq> 0 then (None, h)
      else case BIO_new e h BIO_s_mem of
          (None, h) \<Rightarrow> (None, h)
        | (Some b, h) \<Rightarrow>
            (Some b, modify h b (\<lambda>x. x\<lparr>bio_data := Mem_ptr \<lparr>mem_before = [], mem_buf = \<lparr>bm_length = sz, bm_data = take sz bs, bm_max = sz\<rparr>\<rparr>,
               bio_flags := bio_flags x OR BIO_FLAGS_MEM_RDONLY, num := 0\<rparr>)))"

text \<open>\<open>None\<close> is an \<^verbatim>\<open>abort()\<close> in \<^verbatim>\<open>BIO_free\<close>.\<close>

definition BIO_new_bio_pair :: "bio_env \<Rightarrow> heap \<Rightarrow> nat \<Rightarrow> nat \<Rightarrow> ((nat \<times> nat) option \<times> heap) option" where
  "BIO_new_bio_pair e h writebuf1_len writebuf2_len =
     (case BIO_new e h methods_biop of (bio1, h) \<Rightarrow>
      case BIO_new e h methods_biop of (bio2, h) \<Rightarrow>
      case (case (bio1, bio2) of
              (Some b1, Some b2) \<Rightarrow> bio_make_pair (env_malloc e) h b1 b2 writebuf1_len writebuf2_len
            | _ \<Rightarrow> (False, h)) of
        (True, h) \<Rightarrow> Some (Some (the bio1, the bio2), h)
      | (False, h) \<Rightarrow>
          (case BIO_free e h bio1 of
             None \<Rightarrow> None
           | Some (_, h) \<Rightarrow> (case BIO_free e h bio2 of None \<Rightarrow> None | Some (_, h) \<Rightarrow> Some (None, h))))"

section \<open>Reading an ASN.1 element\<close>

definition kChunkSize :: nat where "kChunkSize = 4096"

text \<open>The loop of \<^verbatim>\<open>bio_read_all\<close>; \<open>out\<close> is the block, \<open>len\<close> its size.  \<open>None\<close> stands for not returning.\<close>

partial_function (option) read_all_loop ::
  "bio_env \<Rightarrow> heap \<Rightarrow> nat option \<Rightarrow> block \<Rightarrow> nat \<Rightarrow> nat \<Rightarrow> nat \<Rightarrow> (bytes option \<times> heap) option" where
  "read_all_loop e h bio out len filled max_len =
     (if filled = len then Some (None, h)
      else case BIO_read e h bio (to_int (int ((2 ^ 64 + len - filled) mod 2 ^ 64))) of (n, bs, h) \<Rightarrow>
        let out = out\<lparr>blk_data := Mem.mem_write (blk_data out) filled bs\<rparr> in
        if n = 0 then Some (Some (take filled (blk_data out)), h)
        else if n = -1 then Some (None, h)
        else
          let filled = nat ((int filled + n) mod 2 ^ 64) in
          if len < max_len \<and> (2 ^ 64 + len - filled) mod 2 ^ 64 < kChunkSize div 2 then
            (let len' = size_add len kChunkSize;
                 len' = (if len' < kChunkSize \<or> len' > max_len then max_len else len')
             in case OPENSSL_realloc (env_malloc e) (Some out) len' of
                  None \<Rightarrow> Some (None, h)
                | Some out \<Rightarrow> read_all_loop e h bio out len' filled max_len)
          else read_all_loop e h bio out len filled max_len)"

definition bio_read_all :: "bio_env \<Rightarrow> heap \<Rightarrow> nat option \<Rightarrow> bytes \<Rightarrow> nat \<Rightarrow> (bytes option \<times> heap) option" where
  "bio_read_all e h bio prefix max_len =
     (let prefix_len = length prefix;
          len = size_add prefix_len kChunkSize;
          len = (if len > max_len then max_len else len) in
      if len < prefix_len then Some (None, h)
      else case OPENSSL_malloc (env_malloc e) len of
          None \<Rightarrow> Some (None, h)
        | Some out \<Rightarrow>
            read_all_loop e h bio (out\<lparr>blk_data := Mem.mem_write (blk_data out) 0 prefix\<rparr>) len prefix_len max_len)"

text \<open>What follows the header: the contents are read into a block behind the header.\<close>

definition read_contents :: "bio_env \<Rightarrow> heap \<Rightarrow> nat option \<Rightarrow> bytes \<Rightarrow> nat \<Rightarrow> nat \<Rightarrow> bytes option \<times> heap" where
  "read_contents e h bio header len max_len =
     (let header_len = length header in
      if size_add len header_len < len \<or> size_add len header_len > max_len \<or> int len > INT_MAX then (None, h)
      else
        let len = size_add len header_len in
        case OPENSSL_malloc (env_malloc e) len of
          None \<Rightarrow> (None, h)
        | Some blk \<Rightarrow>
            let out = Mem.mem_write (blk_data blk) 0 header in
            case BIO_read e h bio (to_int (int (len - header_len))) of (n, bs, h) \<Rightarrow>
              if n \<noteq> to_int (int (len - header_len)) then (None, h)
              else (Some (take len (Mem.mem_write out header_len bs)), h))"

definition BIO_read_asn1 :: "bio_env \<Rightarrow> heap \<Rightarrow> nat option \<Rightarrow> nat \<Rightarrow> (bytes option \<times> heap) option" where
  "BIO_read_asn1 e h bio max_len =
     (case BIO_read e h bio 2 of (n, header, h) \<Rightarrow>
      if n \<noteq> 2 then Some (None, h)
      else
        let tag = header ! 0; length_byte = header ! 1 in
        if tag AND 0x1f = 0x1f then Some (None, h)
        else if length_byte AND 0x80 = 0 then Some (read_contents e h bio header (unat length_byte) max_len)
        else
          let num_bytes = unat (length_byte AND 0x7f) in
          if tag AND 0x20 \<noteq> 0 \<and> num_bytes = 0 then bio_read_all e h bio header max_len
          else if num_bytes = 0 \<or> num_bytes > 4 then Some (None, h)
          else case BIO_read e h bio (int num_bytes) of (n, len_bytes, h) \<Rightarrow>
            if n \<noteq> int num_bytes then Some (None, h)
            else
              let len32 = foldl (\<lambda>r b. push_bit 8 r OR ucast b) (0 :: u32) len_bytes in
              if len32 < 128 then Some (None, h)
              else if drop_bit ((num_bytes - 1) * 8) len32 = 0 then Some (None, h)
              else Some (read_contents e h bio (header @ len_bytes) (unat len32) max_len))"

section \<open>Indentation and hex dumps\<close>

primrec indent_loop :: "bio_env \<Rightarrow> heap \<Rightarrow> nat option \<Rightarrow> nat \<Rightarrow> int \<times> heap" where
  "indent_loop e h bio 0 = (1, h)"
| "indent_loop e h bio (Suc indent) =
     (case BIO_puts e h bio [0x20] of (r, h) \<Rightarrow> if r \<noteq> 1 then (0, h) else indent_loop e h bio indent)"

definition BIO_indent :: "bio_env \<Rightarrow> heap \<Rightarrow> nat option \<Rightarrow> nat \<Rightarrow> nat \<Rightarrow> int \<times> heap" where
  "BIO_indent e h bio indent max_indent = indent_loop e h bio (if indent > max_indent then max_indent else indent)"

record hexdump_ctx =
  hd_bio :: "nat option"
  right_chars :: bytes
  hd_used :: nat
  hd_n :: nat
  hd_indent :: nat

definition hextable :: bytes where
  "hextable = [0x30, 0x31, 0x32, 0x33, 0x34, 0x35, 0x36, 0x37, 0x38, 0x39, 0x61, 0x62, 0x63, 0x64, 0x65, 0x66]"

definition hexbyte :: "u8 \<Rightarrow> bytes" where
  "hexbyte b = [hextable ! unat (drop_bit 4 b), hextable ! unat (b AND 0x0f)]"

definition to_char :: "u8 \<Rightarrow> u8" where
  "to_char b = (if b < 32 \<or> b > 126 then 0x2e else b)"

text \<open>\<^verbatim>\<open>UINT_MAX\<close> for an \<^verbatim>\<open>unsigned\<close> of 32 bits.\<close>

definition max_unsigned :: nat where "max_unsigned = 2 ^ 32 - 1"

text \<open>One round of the loop in \<^verbatim>\<open>hexdump_write\<close>.\<close>

definition line_start :: "bio_env \<Rightarrow> heap \<Rightarrow> hexdump_ctx \<Rightarrow> bool \<times> heap" where
  "line_start e h ctx =
     (if hd_used ctx = 0 then
        (case BIO_indent e h (hd_bio ctx) (hd_indent ctx) max_unsigned of (_, h) \<Rightarrow>
         let n = hd_n ctx;
             buf = hexbyte (of_nat (n div 2 ^ 24)) @ hexbyte (of_nat (n div 2 ^ 16)) @ hexbyte (of_nat (n div 2 ^ 8)) @
                   hexbyte (of_nat n) @ [0x20, 0x20]
         in case BIO_write e h (hd_bio ctx) buf 10 of (r, h) \<Rightarrow> (\<not> r < 0, h))
      else (True, h))"

definition hexdump_byte :: "bio_env \<Rightarrow> heap \<Rightarrow> hexdump_ctx \<Rightarrow> u8 \<Rightarrow> bool \<times> hexdump_ctx \<times> heap" where
  "hexdump_byte e h ctx d =
     (case line_start e h ctx of
        (False, h) \<Rightarrow> (False, ctx, h)
      | (True, h) \<Rightarrow>
          let buf = hexbyte d @ [0x20] @ (if hd_used ctx = 7 then [0x20] else if hd_used ctx = 15 then [0x20, 0x7c] else []) in
          case BIO_write e h (hd_bio ctx) buf (int (length buf)) of (r, h) \<Rightarrow>
            if r < 0 then (False, ctx, h)
            else
              let ctx = ctx\<lparr>right_chars := (right_chars ctx)[hd_used ctx := to_char d], hd_used := hd_used ctx + 1,
                            hd_n := size_add (hd_n ctx) 1\<rparr> in
              if hd_used ctx = 16 then
                (let ctx = ctx\<lparr>right_chars := (right_chars ctx)[16 := 0x7c, 17 := 0x0a]\<rparr> in
                 case BIO_write e h (hd_bio ctx) (right_chars ctx) 18 of (r, h) \<Rightarrow>
                   if r < 0 then (False, ctx, h) else (True, ctx\<lparr>hd_used := 0\<rparr>, h))
              else (True, ctx, h))"

primrec hexdump_write :: "bio_env \<Rightarrow> heap \<Rightarrow> hexdump_ctx \<Rightarrow> bytes \<Rightarrow> bool \<times> hexdump_ctx \<times> heap" where
  "hexdump_write e h ctx [] = (True, ctx, h)"
| "hexdump_write e h ctx (d # ds) =
     (case hexdump_byte e h ctx d of
        (False, ctx, h) \<Rightarrow> (False, ctx, h)
      | (True, ctx, h) \<Rightarrow> hexdump_write e h ctx ds)"

text \<open>The padding of the last line, from column \<open>used\<close> on.\<close>

primrec pad_columns :: "bio_env \<Rightarrow> heap \<Rightarrow> nat option \<Rightarrow> nat list \<Rightarrow> bool \<times> heap" where
  "pad_columns e h bio [] = (True, h)"
| "pad_columns e h bio (used # cols) =
     (let l = (if used = 7 then 4 else if used = 15 then 5 else 3) in
      case BIO_write e h bio (take l [0x20, 0x20, 0x20, 0x20, 0x7c]) (int l) of (r, h) \<Rightarrow>
        if r < 0 then (False, h) else pad_columns e h bio cols)"

definition finish :: "bio_env \<Rightarrow> heap \<Rightarrow> hexdump_ctx \<Rightarrow> bool \<times> heap" where
  "finish e h ctx =
     (let n_bytes = hd_used ctx in
      if n_bytes = 0 then (True, h)
      else case pad_columns e h (hd_bio ctx) [n_bytes..<16] of
          (False, h) \<Rightarrow> (False, h)
        | (True, h) \<Rightarrow>
            let right = (right_chars ctx)[n_bytes := 0x7c, n_bytes + 1 := 0x0a] in
            case BIO_write e h (hd_bio ctx) (take (n_bytes + 2) right) (int (n_bytes + 2)) of (r, h) \<Rightarrow> (\<not> r < 0, h))"

definition BIO_hexdump :: "bio_env \<Rightarrow> heap \<Rightarrow> nat option \<Rightarrow> bytes \<Rightarrow> nat \<Rightarrow> int \<times> heap" where
  "BIO_hexdump e h bio data indent =
     (let ctx = \<lparr>hd_bio = bio, right_chars = replicate 18 0, hd_used = 0, hd_n = 0, hd_indent = indent\<rparr> in
      case hexdump_write e h ctx data of
        (False, ctx, h) \<Rightarrow> (0, h)
      | (True, ctx, h) \<Rightarrow> (case finish e h ctx of (ok, h) \<Rightarrow> (if ok then 1 else 0, h)))"

section \<open>Method tables of the caller\<close>

text \<open>The next type number, and the static variable \<^verbatim>\<open>g_index\<close>, which starts at 128.\<close>

definition BIO_get_new_index :: "int \<Rightarrow> int \<times> int" where
  "BIO_get_new_index g_index = (if g_index > 255 then (-1, g_index) else (g_index, g_index + 1))"

definition BIO_meth_new :: "malloc \<Rightarrow> u32 \<Rightarrow> bio_method option" where
  "BIO_meth_new m type =
     (case OPENSSL_malloc m 80 of
        None \<Rightarrow> None
      | Some _ \<Rightarrow> Some \<lparr>mt_type = type, mt_bwrite = None, mt_bread = None, mt_bgets = None, mt_ctrl = None,
            mt_create = None, mt_destroy = None, mt_callback_ctrl = None\<rparr>)"

definition BIO_meth_set_create :: "bio_method \<Rightarrow> method_fn option \<Rightarrow> int \<times> bio_method" where
  "BIO_meth_set_create mt f = (1, mt\<lparr>mt_create := f\<rparr>)"

definition BIO_meth_set_destroy :: "bio_method \<Rightarrow> method_fn option \<Rightarrow> int \<times> bio_method" where
  "BIO_meth_set_destroy mt f = (1, mt\<lparr>mt_destroy := f\<rparr>)"

definition BIO_meth_set_write :: "bio_method \<Rightarrow> method_fn option \<Rightarrow> int \<times> bio_method" where
  "BIO_meth_set_write mt f = (1, mt\<lparr>mt_bwrite := f\<rparr>)"

definition BIO_meth_set_read :: "bio_method \<Rightarrow> method_fn option \<Rightarrow> int \<times> bio_method" where
  "BIO_meth_set_read mt f = (1, mt\<lparr>mt_bread := f\<rparr>)"

definition BIO_meth_set_gets :: "bio_method \<Rightarrow> method_fn option \<Rightarrow> int \<times> bio_method" where
  "BIO_meth_set_gets mt f = (1, mt\<lparr>mt_bgets := f\<rparr>)"

definition BIO_meth_set_ctrl :: "bio_method \<Rightarrow> method_fn option \<Rightarrow> int \<times> bio_method" where
  "BIO_meth_set_ctrl mt f = (1, mt\<lparr>mt_ctrl := f\<rparr>)"

end
