(* ===== verification/BioQueue.thy ===== *)
theory BioQueue
  imports BioIo
begin

text \<open>
  The pair of \<^verbatim>\<open>pair.c\<close> as two bounded queues: the bytes a ring holds, what one round of its loops does to them, and the two ends
  under any sequence of operations.
\<close>

section \<open>The ring\<close>

definition ring :: "bio_bio \<Rightarrow> bytes" where
  "ring p = (case bb_buf p of None \<Rightarrow> [] | Some r \<Rightarrow> r)"

definition pair_ok :: "bio_bio \<Rightarrow> bool" where
  "pair_ok p \<longleftrightarrow> bb_buf p \<noteq> None \<and> length (ring p) = bb_size p \<and> bb_offset p < bb_size p \<and> bb_len p \<le> bb_size p"

definition queued :: "bio_bio \<Rightarrow> bytes" where
  "queued p = map (\<lambda>i. ring p ! ((bb_offset p + i) mod bb_size p)) [0..<bb_len p]"

lemma length_queued [simp]: "length (queued p) = bb_len p"
  by (simp add: queued_def)

lemma mod_twice: "(a::nat) < 2 * n \<Longrightarrow> a mod n = (if a < n then a else a - n)"
  by (simp add: mod_if)

text \<open>The offset after a read.\<close>

definition advanced :: "bio_bio \<Rightarrow> nat \<Rightarrow> bio_bio" where
  "advanced p n = p\<lparr>bb_len := bb_len p - n,
     bb_offset := (if bb_len p - n = 0 \<or> bb_offset p + n = bb_size p then 0 else bb_offset p + n)\<rparr>"

lemma advanced_ok:
  assumes "pair_ok p" and "n \<le> bb_len p" and "bb_offset p + n \<le> bb_size p"
  shows "pair_ok (advanced p n)" and "queued (advanced p n) = drop n (queued p)"
    and "take n (drop (bb_offset p) (ring p)) = take n (queued p)"
proof -
  have r: "ring (advanced p n) = ring p" by (simp add: advanced_def ring_def)
  show "pair_ok (advanced p n)" using assms by (auto simp: pair_ok_def r) (auto simp: advanced_def)
  show "queued (advanced p n) = drop n (queued p)"
  proof (rule nth_equalityI)
    fix i assume "i < length (queued (advanced p n))"
    then have i: "i < bb_len p - n" by (simp add: advanced_def)
    have "(bb_offset (advanced p n) + i) mod bb_size p = (bb_offset p + (n + i)) mod bb_size p"
      using i assms(3) by (auto simp: advanced_def add.assoc [symmetric])
    then show "queued (advanced p n) ! i = drop n (queued p) ! i"
      using i by (simp add: queued_def r) (simp add: advanced_def)
  qed (simp add: advanced_def)
  show "take n (drop (bb_offset p) (ring p)) = take n (queued p)"
    using assms by (intro nth_equalityI) (auto simp: queued_def pair_ok_def mod_twice)
qed

lemma read_ring_ok:
  assumes ok: "pair_ok p" and n: "0 < n" "n \<le> bb_len p"
  shows "\<exists>p'. read_ring 2 p n = (take n (queued p), p') \<and> pair_ok p' \<and> queued p' = drop n (queued p) \<and>
    closed p' = closed p \<and> peer p' = peer p \<and> request p' = request p \<and> bb_size p' = bb_size p"
proof (cases "bb_offset p + n \<le> bb_size p")
  case True
  have "read_ring 2 p n = (take n (queued p), advanced p n)"
    using True advanced_ok(3) [OF ok n(2) True]
    by (cases p) (simp add: numeral_2_eq_2 advanced_def ring_def Let_def)
  then show ?thesis using advanced_ok [OF ok n(2) True] by (intro exI [of _ "advanced p n"]) (simp add: advanced_def)
next
  case False
  let ?c = "bb_size p - bb_offset p"
  let ?q = "advanced p ?c"
  have c: "?c < n" "bb_offset p + ?c \<le> bb_size p" "?c \<le> bb_len p" using False ok n by (auto simp: pair_ok_def)
  note A = advanced_ok [OF ok c(3,2)]
  have q: "bb_offset ?q = 0" "bb_len ?q = bb_len p - ?c" "bb_size ?q = bb_size p" "bb_buf ?q = bb_buf p" "bb_len p - ?c \<noteq> 0"
    using c ok n by (auto simp: advanced_def pair_ok_def)
  have n': "n - ?c \<le> bb_len ?q" "bb_offset ?q + (n - ?c) \<le> bb_size ?q"
    using c n ok by (auto simp: q pair_ok_def)
  note B = advanced_ok [OF A(1) n']
  have q': "p\<lparr>bb_len := bb_len p - ?c, bb_offset := 0\<rparr> = ?q" using q(5) ok by (auto simp: advanced_def pair_ok_def)
  have "read_ring 2 p n = (take ?c (queued p) @ take (n - ?c) (queued ?q), advanced ?q (n - ?c))"
    using False A(3) B(3) c n' q q'
    by (simp add: numeral_2_eq_2 Let_def ring_def advanced_def [of ?q])
  also have "take ?c (queued p) @ take (n - ?c) (queued ?q) = take n (queued p)"
    using c by (simp add: A(2) flip: take_add)
  finally show ?thesis
    using B A(2) c by (intro exI [of _ "advanced ?q (n - ?c)"]) (simp add: advanced_def)
qed

text \<open>One round of the writing loop.\<close>

definition extended :: "bio_bio \<Rightarrow> bytes \<Rightarrow> bio_bio" where
  "extended p bs = p\<lparr>bb_buf := Some (Mem.mem_write (ring p) ((bb_offset p + bb_len p) mod bb_size p) bs), bb_len := bb_len p + length bs\<rparr>"

lemma extended_ok:
  assumes ok: "pair_ok p" and room: "length bs \<le> bb_size p - bb_len p"
    and fits: "(bb_offset p + bb_len p) mod bb_size p + length bs \<le> bb_size p"
  shows "pair_ok (extended p bs)" and "queued (extended p bs) = queued p @ bs"
proof -
  let ?w = "(bb_offset p + bb_len p) mod bb_size p"
  have o: "bb_offset p < bb_size p" "bb_len p \<le> bb_size p" "length (ring p) = bb_size p" using ok by (simp_all add: pair_ok_def)
  have r: "ring (extended p bs) = Mem.mem_write (ring p) ?w bs" by (simp add: extended_def ring_def)
  show "pair_ok (extended p bs)"
    using ok room fits by (auto simp: pair_ok_def r length_mem_write) (auto simp: extended_def)
  show "queued (extended p bs) = queued p @ bs"
  proof (rule nth_equalityI)
    fix i assume "i < length (queued (extended p bs))"
    then have i: "i < bb_len p + length bs" by (simp add: extended_def)
    let ?j = "(bb_offset p + i) mod bb_size p"
    have j: "?j < bb_size p" using o by simp
    have a: "queued (extended p bs) ! i = Mem.mem_write (ring p) ?w bs ! ?j"
      using i by (simp add: queued_def r) (simp add: extended_def)
    have w: "?w = (if bb_offset p + bb_len p < bb_size p then bb_offset p + bb_len p else bb_offset p + bb_len p - bb_size p)"
      by (rule mod_twice) (use o in linarith)
    have ji: "?j = (if bb_offset p + i < bb_size p then bb_offset p + i else bb_offset p + i - bb_size p)"
      by (rule mod_twice) (use o i room in linarith)
    have n: "Mem.mem_write (ring p) ?w bs ! ?j = (if ?w \<le> ?j \<and> ?j < ?w + length bs then bs ! (?j - ?w) else ring p ! ?j)"
      using fits j o by (intro nth_mem_write) simp_all
    show "queued (extended p bs) ! i = (queued p @ bs) ! i"
    proof (cases "i < bb_len p")
      case True
      then have "\<not> (?w \<le> ?j \<and> ?j < ?w + length bs)" using o room fits unfolding w ji by (auto split: if_splits)
      then have "Mem.mem_write (ring p) ?w bs ! ?j = ring p ! ?j" unfolding n by (rule if_not_P)
      with True show ?thesis by (simp add: a nth_append) (simp add: queued_def)
    next
      case False
      then have "?w \<le> ?j \<and> ?j < ?w + length bs \<and> ?j - ?w = i - bb_len p"
        using o i room fits unfolding w ji by (auto split: if_splits)
      then have "Mem.mem_write (ring p) ?w bs ! ?j = bs ! (i - bb_len p)" unfolding n by (simp only: simp_thms if_True)
      with False show ?thesis by (simp add: a nth_append)
    qed
  qed (simp add: extended_def)
qed

lemma write_ring_step:
  assumes "pair_ok p"
  shows "write_ring (Suc fuel) p buf =
    (let c = min (length buf) (bb_size p - (bb_offset p + bb_len p) mod bb_size p); p' = extended p (take c buf)
     in if c < length buf then write_ring fuel p' (drop c buf) else p')"
proof -
  have w: "(if bb_size p \<le> bb_offset p + bb_len p then bb_offset p + bb_len p - bb_size p else bb_offset p + bb_len p) =
      (bb_offset p + bb_len p) mod bb_size p"
    using assms by (auto simp: pair_ok_def mod_if)
  let ?w = "(bb_offset p + bb_len p) mod bb_size p"
  have c: "(if ?w + length buf \<le> bb_size p then length buf else bb_size p - ?w) = min (length buf) (bb_size p - ?w)"
  proof -
    have "0 < bb_size p" using assms by (auto simp: pair_ok_def)
    from mod_less_divisor [OF this, of "bb_offset p + bb_len p"] show ?thesis unfolding min_def by auto
  qed
  show ?thesis
    by (simp only: write_ring.simps Let_def w c) (auto simp: extended_def ring_def min_def Let_def)
qed

lemma write_ring_ok:
  assumes ok: "pair_ok p" and n: "length buf \<le> bb_size p - bb_len p"
  shows "\<exists>p'. write_ring 2 p buf = p' \<and> pair_ok p' \<and> queued p' = queued p @ buf \<and>
    closed p' = closed p \<and> peer p' = peer p \<and> request p' = request p \<and> bb_size p' = bb_size p"
proof -
  define w where "w = (bb_offset p + bb_len p) mod bb_size p"
  define c where "c = min (length buf) (bb_size p - w)"
  define q where "q = extended p (take c buf)"
  have o: "bb_offset p < bb_size p" "bb_len p \<le> bb_size p" using ok by (simp_all add: pair_ok_def)
  have w: "w < bb_size p" using o by (simp add: w_def)
  have c: "c \<le> length buf" "c \<le> bb_size p - w" by (simp_all add: c_def)
  have "length (take c buf) \<le> bb_size p - bb_len p" "w + length (take c buf) \<le> bb_size p" using n w c by simp_all
  note A = extended_ok [OF ok this [unfolded w_def], folded q_def]
  have f: "closed q = closed p" "peer q = peer p" "request q = request p" "bb_size q = bb_size p"
      "bb_offset q = bb_offset p" "bb_len q = bb_len p + c"
    using c by (simp_all add: q_def extended_def)
  note S = write_ring_step [OF ok, of 1 buf, unfolded Let_def, folded w_def, folded c_def, folded q_def, folded Suc_1 One_nat_def]
  show ?thesis
  proof (cases "c < length buf")
    case False
    with c have "take c buf = buf" by simp
    with A f S False show ?thesis by (simp add: numeral_2_eq_2)
  next
    case True
    have cw: "c = bb_size p - w" using True by (simp add: c_def)
    have small: "bb_offset p + bb_len p < bb_size p"
    proof (rule ccontr)
      assume "\<not> bb_offset p + bb_len p < bb_size p"
      then have "w = bb_offset p + bb_len p - bb_size p" unfolding w_def using o by (simp add: mod_if)
      with True n o cw show False by linarith
    qed
    then have "w = bb_offset p + bb_len p" by (simp add: w_def)
    with small cw f have sum: "(bb_offset q + bb_len q) mod bb_size q = 0" by simp
    have d: "length (drop c buf) \<le> bb_size q - bb_len q" "length (drop c buf) \<le> bb_size q" using n f c by simp_all
    have "write_ring (Suc 0) q (drop c buf) = extended q (drop c buf)"
      using write_ring_step [OF A(1), of 0 "drop c buf", unfolded sum Let_def] d(2) by simp
    with S True have e: "write_ring 2 p buf = extended q (drop c buf)" by (simp add: numeral_2_eq_2)
    have "(bb_offset q + bb_len q) mod bb_size q + length (drop c buf) \<le> bb_size q" using d(2) by (simp add: sum)
    note B = extended_ok [OF A(1) d(1) this]
    have "queued (extended q (drop c buf)) = queued p @ buf" unfolding B(2) A(2) by simp
    with B(1) f e show ?thesis by (simp add: extended_def)
  qed
qed

section \<open>Byte sources and channels\<close>

text \<open>
  What a caller of \<^verbatim>\<open>BIO_read\<close> relies on: some bytes are pending, and a read takes as many of them as fit; with nothing pending it
  returns no positive number.  A channel can be written to as well, and takes a part of what it is given.
\<close>

locale byte_source =
  fixes e :: bio_env and b :: nat and invar :: "heap \<Rightarrow> bool" and pending :: "heap \<Rightarrow> bytes"
  assumes read_ok: "invar h \<Longrightarrow> 0 < n \<Longrightarrow> n < 2 ^ 31 \<Longrightarrow> BIO_read e h (Some b) n = (r, bs, h') \<Longrightarrow>
      invar h' \<and> bs = take (nat n) (pending h) \<and> pending h' = drop (nat n) (pending h) \<and>
      (if pending h = [] then r \<le> 0 else r = int (length bs))"
    and read_zero: "invar h \<Longrightarrow> BIO_read e h (Some b) 0 = (0, [], h)"
begin

lemma read_le:
  assumes "invar h" and "n < 2 ^ 31" and "BIO_read e h (Some b) n = (r, bs, h')"
  shows "invar h' \<and> bs = take (nat n) (pending h) \<and> pending h' = drop (nat n) (pending h) \<and> (bs \<noteq> [] \<longrightarrow> r = int (length bs)) \<and>
    (bs = [] \<longrightarrow> r \<le> 0)"
proof (cases "0 < n")
  case True
  with read_ok [OF assms(1) True assms(2,3)] show ?thesis by auto
next
  case False
  then have "h' = h \<and> bs = [] \<and> r \<le> 0" using assms(3) by (auto simp: BIO_read_def split: option.splits prod.splits if_splits)
  with False assms(1) show ?thesis by simp
qed

lemma read_exactly:
  assumes "invar h" and "n < 2 ^ 31" and "BIO_read e h (Some b) (int n) = (int n, bs, h')"
  shows "invar h' \<and> pending h = bs @ pending h' \<and> length bs = n"
proof -
  have "int n < 2 ^ 31" using assms(2) by simp
  note R = read_le [OF assms(1) this assms(3)]
  show ?thesis
  proof (cases "bs = []")
    case True
    with R have "int n \<le> 0" by blast
    with R True show ?thesis by simp
  next
    case False
    with R have l: "int n = int (length bs)" by blast
    have "pending h = bs @ pending h'" using R by (metis append_take_drop_id)
    moreover have "length bs = n" using l by simp
    ultimately show ?thesis using R by blast
  qed
qed

lemma read_available:
  assumes "invar h" and "int n < 2 ^ 31" and "n \<le> length (pending h)"
  shows "\<exists>h'. BIO_read e h (Some b) (int n) = (int n, take n (pending h), h') \<and> invar h' \<and> pending h' = drop n (pending h)"
proof (cases "n = 0")
  case True
  with read_zero [OF assms(1)] assms(1) show ?thesis by simp
next
  case False
  obtain r bs h' where r: "BIO_read e h (Some b) (int n) = (r, bs, h')" by (metis prod_cases3)
  have "0 < int n" using False by simp
  note R = read_ok [OF assms(1) this assms(2) r]
  have "pending h \<noteq> []" using False assms(3) by auto
  with R assms(3) have "r = int n" by simp
  with R r show ?thesis by simp
qed

end

datatype channel_op = Send bytes | Receive nat

locale byte_channel = byte_source e rd invar pending
  for e :: bio_env and rd :: nat and invar :: "heap \<Rightarrow> bool" and pending :: "heap \<Rightarrow> bytes" +
  fixes wr :: nat
  assumes write_ok: "invar h \<Longrightarrow> int (length bs) < 2 ^ 31 \<Longrightarrow> BIO_write e h (Some wr) bs (int (length bs)) = (r, h') \<Longrightarrow>
      invar h' \<and> nat r \<le> length bs \<and> pending h' = pending h @ take (nat r) bs"

text \<open>Traffic over a channel: the bytes taken from the sender, the bytes given to the receiver, and the heap.\<close>

primrec traffic :: "bio_env \<Rightarrow> nat \<Rightarrow> nat \<Rightarrow> channel_op list \<Rightarrow> heap \<Rightarrow> bytes \<times> bytes \<times> heap" where
  "traffic e wr rd [] h = ([], [], h)"
| "traffic e wr rd (x # xs) h =
     (case x of
        Send bs \<Rightarrow>
          (case BIO_write e h (Some wr) bs (int (length bs)) of (r, h) \<Rightarrow>
           case traffic e wr rd xs h of (sent, got, h) \<Rightarrow> (take (nat r) bs @ sent, got, h))
      | Receive n \<Rightarrow>
          (case BIO_read e h (Some rd) (int n) of (r, bs, h) \<Rightarrow>
           case traffic e wr rd xs h of (sent, got, h) \<Rightarrow> (sent, take (nat r) bs @ got, h)))"

definition op_short :: "channel_op \<Rightarrow> bool" where
  "op_short x = (case x of Send bs \<Rightarrow> int (length bs) < 2 ^ 31 | Receive n \<Rightarrow> int n < 2 ^ 31)"

context byte_channel
begin

lemma conservation:
  assumes "invar h" and "\<forall>x\<in>set xs. op_short x" and "traffic e wr rd xs h = (sent, got, h')"
  shows "invar h' \<and> pending h @ sent = got @ pending h'"
  using assms
proof (induction xs arbitrary: h sent got)
  case (Cons x xs)
  show ?case
  proof (cases x)
    case (Send bs)
    obtain r h1 where w: "BIO_write e h (Some wr) bs (int (length bs)) = (r, h1)" by fastforce
    obtain s1 g1 where t: "traffic e wr rd xs h1 = (s1, g1, h')" "sent = take (nat r) bs @ s1" "got = g1"
      using Cons.prems(3) Send w by (auto split: prod.splits)
    have "int (length bs) < 2 ^ 31" using Cons.prems(2) Send by (simp add: op_short_def)
    note W = write_ok [OF Cons.prems(1) this w]
    with Cons.IH [OF _ _ t(1)] Cons.prems(2) have "invar h' \<and> pending h1 @ s1 = g1 @ pending h'" by simp
    with W t show ?thesis by simp
  next
    case (Receive n)
    obtain r bs h1 where w: "BIO_read e h (Some rd) (int n) = (r, bs, h1)" by (metis prod_cases3)
    obtain s1 g1 where t: "traffic e wr rd xs h1 = (s1, g1, h')" "sent = s1" "got = take (nat r) bs @ g1"
      using Cons.prems(3) Receive w by (auto split: prod.splits)
    have "int n < 2 ^ 31" using Cons.prems(2) Receive by (simp add: op_short_def)
    note R = read_le [OF Cons.prems(1) this w]
    have "take (nat r) bs = bs"
    proof (cases "bs = []")
      case False
      with R have "r = int (length bs)" by blast
      then show ?thesis by simp
    qed simp
    moreover have "invar h' \<and> pending h1 @ s1 = g1 @ pending h'" using Cons.IH [OF _ _ t(1)] Cons.prems(2) R by simp
    moreover have "pending h = bs @ pending h1" using R by simp
    ultimately show ?thesis using t by simp
  qed
qed simp

end

section \<open>A connected pair\<close>

definition paired :: "nat \<Rightarrow> nat \<Rightarrow> heap \<Rightarrow> bool" where
  "paired a b h \<longleftrightarrow> a \<noteq> b \<and> bio_method (bios h a) = Some methods_biop \<and> bio_method (bios h b) = Some methods_biop \<and>
     init (bios h a) \<noteq> 0 \<and> init (bios h b) \<noteq> 0 \<and> peer (pair_of h a) = Some b \<and> peer (pair_of h b) = Some a \<and>
     pair_ok (pair_of h a) \<and> pair_ok (pair_of h b)"

lemma paired_sym: "paired a b h \<Longrightarrow> paired b a h"
  by (auto simp: paired_def)

lemma pair_of_simps [simp]:
  "pair_of (set_pair h b p) b = p" "a \<noteq> b \<Longrightarrow> pair_of (set_pair h b p) a = pair_of h a"
  "bio_method (bios (set_pair h b p) a) = bio_method (bios h a)" "init (bios (set_pair h b p) a) = init (bios h a)"
  by (simp_all add: set_pair_def pair_of_def modify_def)

lemma flags_simps [simp]:
  "bio_method (bios (BIO_clear_retry_flags h c) a) = bio_method (bios h a)" "init (bios (BIO_clear_retry_flags h c) a) = init (bios h a)"
  "bio_method (bios (BIO_set_retry_read h c) a) = bio_method (bios h a)" "init (bios (BIO_set_retry_read h c) a) = init (bios h a)"
  "bio_method (bios (BIO_set_retry_write h c) a) = bio_method (bios h a)" "init (bios (BIO_set_retry_write h c) a) = init (bios h a)"
  "pair_of (BIO_clear_retry_flags h c) a = pair_of h a" "pair_of (BIO_set_retry_read h c) a = pair_of h a"
  "pair_of (BIO_set_retry_write h c) a = pair_of h a"
  by (simp_all add: BIO_clear_retry_flags_def BIO_set_retry_read_def BIO_set_retry_write_def modify_def pair_of_def)

text \<open>Counting the bytes of a call.\<close>

lemma count_simps [simp]:
  "pair_of (modify h c (\<lambda>x. x\<lparr>num_read := f x\<rparr>)) a = pair_of h a" "pair_of (modify h c (\<lambda>x. x\<lparr>num_write := f x\<rparr>)) a = pair_of h a"
  "bio_method (bios (modify h c (\<lambda>x. x\<lparr>num_read := f x\<rparr>)) a) = bio_method (bios h a)"
  "bio_method (bios (modify h c (\<lambda>x. x\<lparr>num_write := f x\<rparr>)) a) = bio_method (bios h a)"
  "init (bios (modify h c (\<lambda>x. x\<lparr>num_read := f x\<rparr>)) a) = init (bios h a)"
  "init (bios (modify h c (\<lambda>x. x\<lparr>num_write := f x\<rparr>)) a) = init (bios h a)"
  by (simp_all add: modify_def pair_of_def)


lemma request_simps [simp]:
  "pair_ok (p\<lparr>request := x\<rparr>) = pair_ok p" "queued (p\<lparr>request := x\<rparr>) = queued p"
  by (simp_all add: pair_ok_def queued_def ring_def)

lemma queued_empty: "queued p = [] \<longleftrightarrow> bb_len p = 0"
  by (simp add: queued_def)

text \<open>One end of a pair, as the other end sees it.\<close>

definition same_end :: "bio_bio \<Rightarrow> bio_bio \<Rightarrow> bool" where
  "same_end p p' \<longleftrightarrow> closed p' = closed p \<and> peer p' = peer p \<and> bb_size p' = bb_size p"

lemma pair_bio_read:
  assumes P: "paired a b h" and n: "0 < n" "n < 2 ^ 31" and r: "bio_read h b n = (r, bs, h')"
  shows "paired a b h' \<and> bs = take (nat n) (queued (pair_of h a)) \<and> queued (pair_of h' a) = drop (nat n) (queued (pair_of h a)) \<and>
    same_end (pair_of h a) (pair_of h' a) \<and> queued (pair_of h' b) = queued (pair_of h b) \<and> same_end (pair_of h b) (pair_of h' b) \<and>
    r = (if queued (pair_of h a) = [] then if closed (pair_of h a) then 0 else -1 else int (length bs))"
proof -
  let ?p = "pair_of h a"
  have ne: "a \<noteq> b" "b \<noteq> a" and pb: "peer (pair_of h b) = Some a" and i: "init (bios h b) \<noteq> 0" and ok: "pair_ok ?p"
    using P by (auto simp: paired_def)
  have nz: "nat (n mod 2 ^ 64) = nat n" "nat n \<noteq> 0" using n by simp_all
  show ?thesis
  proof (cases "bb_len ?p = 0")
    case True
    then have q: "queued ?p = []" by (simp add: queued_empty)
    let ?h = "set_pair (BIO_clear_retry_flags h b) a (?p\<lparr>request := 0\<rparr>)"
    have "r = (if closed ?p then 0 else -1)" "bs = []"
        "\<exists>x h2. h' = ?h \<or> h' = set_pair (BIO_set_retry_read ?h b) a (?p\<lparr>request := x\<rparr>)"
      using r True nz i pb by (auto simp: bio_read_def Let_def split: if_splits)
    then show ?thesis using P ne q by (auto simp: paired_def same_end_def)
  next
    case False
    let ?n = "if bb_len ?p < nat n then bb_len ?p else nat n"
    let ?q = "?p\<lparr>request := 0\<rparr>"
    have "pair_ok ?q" "0 < ?n" "?n \<le> bb_len ?q" using ok False nz(2) by simp_all
    from read_ring_ok [OF this] obtain p' where R: "read_ring 2 ?q ?n = (take ?n (queued ?p), p')" "pair_ok p'"
        "queued p' = drop ?n (queued ?p)" "closed p' = closed ?p" "peer p' = peer ?p" "bb_size p' = bb_size ?p" by auto
    have n32: "to_int (int ?n) = int ?n" using n by (intro to_int_id) auto
    have t: "take ?n (queued ?p) = take (nat n) (queued ?p)" "drop ?n (queued ?p) = drop (nat n) (queued ?p)"
      "length (take (nat n) (queued ?p)) = ?n" by (auto simp: min_def)
    have "r = int ?n" "bs = take (nat n) (queued ?p)"
        "h' = set_pair (set_pair (BIO_clear_retry_flags h b) a ?q) a p'"
      using r nz i pb False R(1) n32 t(1) by (simp_all add: bio_read_def Let_def cong: if_cong)
    then show ?thesis using P R ne t False by (simp add: paired_def same_end_def queued_empty)
  qed
qed

lemma pair_bio_write:
  assumes P: "paired a b h" and n: "bs \<noteq> []" "int (length bs) < 2 ^ 31" and r: "bio_write h a bs (int (length bs)) = (r, h')"
  shows "paired a b h' \<and> queued (pair_of h' a) = queued (pair_of h a) @ take (nat r) bs \<and>
    same_end (pair_of h a) (pair_of h' a) \<and> queued (pair_of h' b) = queued (pair_of h b) \<and> same_end (pair_of h b) (pair_of h' b) \<and>
    r = (if closed (pair_of h a) \<or> length (queued (pair_of h a)) = bb_size (pair_of h a) then -1
         else int (min (length bs) (bb_size (pair_of h a) - length (queued (pair_of h a)))))"
proof -
  let ?p = "pair_of h a" and ?n = "length bs"
  have ne: "a \<noteq> b" "b \<noteq> a" and i: "init (bios h a) \<noteq> 0" and ok: "pair_ok ?p"
    using P by (auto simp: paired_def)
  have nz: "nat (int ?n mod 2 ^ 64) = ?n" "?n \<noteq> 0" using n by simp_all
  show ?thesis
  proof (cases "closed ?p \<or> bb_len ?p = bb_size ?p")
    case True
    let ?h = "set_pair (BIO_clear_retry_flags h a) a (?p\<lparr>request := 0\<rparr>)"
    have "r = -1" "h' = ?h \<or> h' = BIO_set_retry_write ?h a"
      using r True nz i by (auto simp: bio_write_def Let_def split: if_splits)
    then show ?thesis using P ne True by (auto simp: paired_def same_end_def)
  next
    case False
    let ?m = "if ?n > bb_size ?p - bb_len ?p then bb_size ?p - bb_len ?p else ?n"
    let ?q = "?p\<lparr>request := 0\<rparr>"
    have "pair_ok ?q" "length (take ?m bs) \<le> bb_size ?q - bb_len ?q" using ok by auto
    from write_ring_ok [OF this] obtain p' where R: "write_ring 2 ?q (take ?m bs) = p'" "pair_ok p'"
        "queued p' = queued ?p @ take ?m bs" "closed p' = closed ?p" "peer p' = peer ?p" "bb_size p' = bb_size ?p" by auto
    have m: "?m = min ?n (bb_size ?p - bb_len ?p)" by (simp add: min_def)
    have m32: "to_int (int ?m) = int ?m" using n(2) by (intro to_int_id) auto
    have "r = int ?m" "h' = set_pair (set_pair (BIO_clear_retry_flags h a) a ?q) a p'"
      using r nz i False R(1) m32 by (simp_all add: bio_write_def Let_def cong: if_cong)
    then show ?thesis using P R ne False by (simp add: paired_def same_end_def m)
  qed
qed


lemma pair_methods:
  "bio_method (bios h b) = Some methods_biop \<Longrightarrow> method_of h (Some b) mt_bread = Some (b, Pair_fn)"
  "bio_method (bios h b) = Some methods_biop \<Longrightarrow> method_of h (Some b) mt_bwrite = Some (b, Pair_fn)"
  "bio_method (bios h b) = Some methods_biop \<Longrightarrow> method_of h (Some b) mt_ctrl = Some (b, Pair_fn)"
  by (simp_all add: method_of_def methods_biop_def)

lemma paired_count [simp]:
  "paired a b (modify h c (\<lambda>x. x\<lparr>num_read := f x\<rparr>)) = paired a b h"
  "paired a b (modify h c (\<lambda>x. x\<lparr>num_write := f x\<rparr>)) = paired a b h"
  by (simp_all add: paired_def)

text \<open>The state of one direction, and what the calls do to it.\<close>

type_synonym direction = "bytes \<times> bool"

definition direction_of :: "heap \<Rightarrow> nat \<Rightarrow> direction" where
  "direction_of h a = (queued (pair_of h a), closed (pair_of h a))"

fun queue_read :: "nat \<Rightarrow> direction \<Rightarrow> int \<times> bytes \<times> direction" where
  "queue_read n (q, c) =
     (if n = 0 then (0, [], q, c)
      else if q = [] then (if c then 0 else -1, [], q, c)
      else (int (min (length q) n), take n q, drop n q, c))"

fun queue_write :: "nat \<Rightarrow> bytes \<Rightarrow> direction \<Rightarrow> int \<times> direction" where
  "queue_write cap bs (q, c) =
     (if bs = [] then (0, q, c)
      else if c \<or> length q = cap then (-1, q, c)
      else let n = min (length bs) (cap - length q) in (int n, q @ take n bs, c))"

definition pair_frame :: "nat \<Rightarrow> nat \<Rightarrow> heap \<Rightarrow> heap \<Rightarrow> bool" where
  "pair_frame a b h h' \<longleftrightarrow> paired a b h' \<and> bb_size (pair_of h' a) = bb_size (pair_of h a) \<and> bb_size (pair_of h' b) = bb_size (pair_of h b)"

lemma BIO_read_pair:
  assumes P: "paired a b h" and n: "int n < 2 ^ 31" and r: "BIO_read e h (Some b) (int n) = (r, bs, h')"
  shows "pair_frame a b h h' \<and> direction_of h' b = direction_of h b \<and>
    (r, bs, direction_of h' a) = queue_read n (direction_of h a)"
proof (cases "n = 0")
  case True
  then have "r = 0" "bs = []" "h' = h" using P r by (auto simp: BIO_read_def paired_def pair_methods)
  with P True show ?thesis by (simp add: pair_frame_def direction_of_def)
next
  case False
  obtain r1 bs1 h1 where c: "bio_read h b (int n) = (r1, bs1, h1)" by (metis prod_cases3)
  have n': "0 < int n" using False by simp
  have h': "r = r1" "bs = bs1" "h' = (if r1 > 0 then modify h1 b (\<lambda>x. x\<lparr>num_read := size_add (num_read x) (nat r1)\<rparr>) else h1)"
    using r c P n' by (auto simp: BIO_read_def paired_def pair_methods call_read_def)
  note R = pair_bio_read [OF P n' n c]
  show ?thesis using R False by (simp add: h' pair_frame_def direction_of_def same_end_def)
qed

lemma BIO_write_pair:
  assumes P: "paired a b h" and n: "int (length bs) < 2 ^ 31" and r: "BIO_write e h (Some a) bs (int (length bs)) = (r, h')"
  shows "pair_frame a b h h' \<and> direction_of h' b = direction_of h b \<and>
    (r, direction_of h' a) = queue_write (bb_size (pair_of h a)) bs (direction_of h a)"
proof (cases "bs = []")
  case True
  then have "r = 0" "h' = h" using P r by (auto simp: BIO_write_def paired_def pair_methods)
  with P True show ?thesis by (simp add: pair_frame_def direction_of_def)
next
  case False
  obtain r1 h1 where c: "bio_write h a bs (int (length bs)) = (r1, h1)" by fastforce
  have h': "r = r1" "h' = (if r1 > 0 then modify h1 a (\<lambda>x. x\<lparr>num_write := size_add (num_write x) (nat r1)\<rparr>) else h1)"
    using r c P False by (auto simp: BIO_write_def paired_def pair_methods call_write_def)
  note R = pair_bio_write [OF P False n c]
  show ?thesis using R False by (auto simp: h' pair_frame_def direction_of_def same_end_def Let_def)
qed

lemma BIO_shutdown_wr_pair:
  assumes P: "paired a b h" and r: "BIO_shutdown_wr e h (Some a) = (r, h')"
  shows "pair_frame a b h h' \<and> direction_of h' b = direction_of h b \<and> r = 1 \<and>
    direction_of h' a = (fst (direction_of h a), True)"
proof -
  have "to_int 1 = 1" by (rule to_int_id) simp_all
  then have "r = 1" "h' = set_pair h a ((pair_of h a)\<lparr>closed := True\<rparr>)"
    using P r by (auto simp: BIO_shutdown_wr_def int_ctrl_def BIO_ctrl_def paired_def pair_methods call_ctrl_def bio_ctrl_def ctrl_defs)
  moreover have "pair_ok (p\<lparr>closed := True\<rparr>) = pair_ok p" "queued (p\<lparr>closed := True\<rparr>) = queued p" for p
    by (simp_all add: pair_ok_def queued_def ring_def)
  ultimately show ?thesis using P by (auto simp: pair_frame_def paired_def direction_of_def)
qed

text \<open>Any sequence of calls at either end; \<open>True\<close> is the first end.\<close>

datatype pair_op = Write bool bytes | Read bool nat | Close bool

fun do_pair_op :: "bio_env \<Rightarrow> nat \<Rightarrow> nat \<Rightarrow> pair_op \<Rightarrow> heap \<Rightarrow> (int \<times> bytes) \<times> heap" where
  "do_pair_op e a b (Write s bs) h =
     (case BIO_write e h (Some (if s then a else b)) bs (int (length bs)) of (r, h) \<Rightarrow> ((r, []), h))"
| "do_pair_op e a b (Read s n) h = (case BIO_read e h (Some (if s then a else b)) (int n) of (r, bs, h) \<Rightarrow> ((r, bs), h))"
| "do_pair_op e a b (Close s) h = (case BIO_shutdown_wr e h (Some (if s then a else b)) of (r, h) \<Rightarrow> ((r, []), h))"

primrec run_pair :: "bio_env \<Rightarrow> nat \<Rightarrow> nat \<Rightarrow> pair_op list \<Rightarrow> heap \<Rightarrow> (int \<times> bytes) list \<times> heap" where
  "run_pair e a b [] h = ([], h)"
| "run_pair e a b (x # xs) h =
     (case do_pair_op e a b x h of (r, h) \<Rightarrow> case run_pair e a b xs h of (rs, h) \<Rightarrow> (r # rs, h))"

text \<open>The same on the queues of the two directions, whose capacities are \<open>ca\<close> and \<open>cb\<close>.\<close>

fun do_queue_op :: "nat \<Rightarrow> nat \<Rightarrow> pair_op \<Rightarrow> direction \<times> direction \<Rightarrow> (int \<times> bytes) \<times> direction \<times> direction" where
  "do_queue_op ca cb (Write s bs) (A, B) =
     (if s then case queue_write ca bs A of (r, A) \<Rightarrow> ((r, []), A, B) else case queue_write cb bs B of (r, B) \<Rightarrow> ((r, []), A, B))"
| "do_queue_op ca cb (Read s n) (A, B) =
     (if s then case queue_read n B of (r, bs, B) \<Rightarrow> ((r, bs), A, B) else case queue_read n A of (r, bs, A) \<Rightarrow> ((r, bs), A, B))"
| "do_queue_op ca cb (Close s) (A, B) = ((1, []), if s then ((fst A, True), B) else (A, (fst B, True)))"

primrec run_queues :: "nat \<Rightarrow> nat \<Rightarrow> pair_op list \<Rightarrow> direction \<times> direction \<Rightarrow> (int \<times> bytes) list" where
  "run_queues ca cb [] S = []"
| "run_queues ca cb (x # xs) S = (case do_queue_op ca cb x S of (r, S) \<Rightarrow> r # run_queues ca cb xs S)"

definition pair_op_short :: "pair_op \<Rightarrow> bool" where
  "pair_op_short x = (case x of Write _ bs \<Rightarrow> int (length bs) < 2 ^ 31 | Read _ n \<Rightarrow> int n < 2 ^ 31 | Close _ \<Rightarrow> True)"

lemma pair_frame_sym: "pair_frame a b h h' \<Longrightarrow> pair_frame b a h h'"
  by (auto simp: pair_frame_def paired_sym)

lemma do_pair_op_queues:
  assumes P: "paired a b h" and "pair_op_short x" and r: "do_pair_op e a b x h = (r, h')"
  shows "pair_frame a b h h' \<and>
    do_queue_op (bb_size (pair_of h a)) (bb_size (pair_of h b)) x (direction_of h a, direction_of h b) =
      (r, direction_of h' a, direction_of h' b)"
proof (cases x)
  case (Write s bs)
  obtain n h1 where w: "BIO_write e h (Some (if s then a else b)) bs (int (length bs)) = (n, h1)" by fastforce
  then have h': "r = (n, [])" "h' = h1" using r Write by simp_all
  have l: "int (length bs) < 2 ^ 31" using assms(2) Write by (simp add: pair_op_short_def)
  show ?thesis
  proof (cases s)
    case True
    with BIO_write_pair [OF P l, of e n h1] w show ?thesis by (simp add: Write h' split: prod.splits) (metis prod.inject)
  next
    case False
    with BIO_write_pair [OF paired_sym [OF P] l, of e n h1] w show ?thesis
      by (simp add: Write h' pair_frame_sym split: prod.splits) (metis prod.inject)
  qed
next
  case (Read s k)
  obtain n bs h1 where w: "BIO_read e h (Some (if s then a else b)) (int k) = (n, bs, h1)" by (metis prod_cases3)
  then have h': "r = (n, bs)" "h' = h1" using r Read by simp_all
  have l: "int k < 2 ^ 31" using assms(2) Read by (simp add: pair_op_short_def)
  show ?thesis
  proof (cases s)
    case True
    with BIO_read_pair [OF paired_sym [OF P] l, of e n bs h1] w show ?thesis
      by (simp add: Read h' pair_frame_sym split: prod.splits) (metis prod.inject)
  next
    case False
    with BIO_read_pair [OF P l, of e n bs h1] w show ?thesis by (simp add: Read h' split: prod.splits) (metis prod.inject)
  qed
next
  case (Close s)
  obtain n h1 where w: "BIO_shutdown_wr e h (Some (if s then a else b)) = (n, h1)" by fastforce
  then have h': "r = (n, [])" "h' = h1" using r Close by simp_all
  show ?thesis
  proof (cases s)
    case True
    with BIO_shutdown_wr_pair [OF P, of e n h1] w show ?thesis by (simp add: Close h')
  next
    case False
    with BIO_shutdown_wr_pair [OF paired_sym [OF P], of e n h1] w show ?thesis by (simp add: Close h' pair_frame_sym)
  qed
qed

lemma run_pair_queues:
  assumes "paired a b h" and "\<forall>x\<in>set xs. pair_op_short x" and "run_pair e a b xs h = (rs, h')"
  shows "paired a b h' \<and> rs = run_queues (bb_size (pair_of h a)) (bb_size (pair_of h b)) xs (direction_of h a, direction_of h b)"
  using assms
proof (induction xs arbitrary: h rs)
  case (Cons x xs)
  obtain r h1 where o: "do_pair_op e a b x h = (r, h1)" by fastforce
  obtain rs1 where s: "run_pair e a b xs h1 = (rs1, h')" "rs = r # rs1" using Cons.prems(3) o by (auto split: prod.splits)
  have "pair_op_short x" using Cons.prems(2) by simp
  note R = do_pair_op_queues [OF Cons.prems(1) this o]
  then have "paired a b h1" by (simp add: pair_frame_def)
  from Cons.IH [OF this _ s(1)] Cons.prems(2) R show ?case by (simp add: s(2) pair_frame_def)
qed simp


interpretation pair: byte_channel e b "paired a b" "\<lambda>h. queued (pair_of h a)" a for e a b
proof unfold_locales
  fix h n r bs h'
  assume "paired a b h" "0 < n" "n < 2 ^ 31" and r: "BIO_read e h (Some b) n = (r, bs, h')"
  then have n: "int (nat n) = n" "int (nat n) < 2 ^ 31" "nat n \<noteq> 0" by simp_all
  from r have "BIO_read e h (Some b) (int (nat n)) = (r, bs, h')" by (simp only: n(1))
  from BIO_read_pair [OF \<open>paired a b h\<close> n(2) this] n(3)
  show "paired a b h' \<and> bs = take (nat n) (queued (pair_of h a)) \<and> queued (pair_of h' a) = drop (nat n) (queued (pair_of h a)) \<and>
      (if queued (pair_of h a) = [] then r \<le> 0 else r = int (length bs))"
    by (auto simp: pair_frame_def direction_of_def split: if_splits)
next
  show "BIO_read e h (Some b) 0 = (0, [], h)" if "paired a b h" for h
    using that by (simp add: BIO_read_def paired_def pair_methods)
next
  fix h bs r h'
  assume "paired a b h" "int (length bs) < 2 ^ 31" "BIO_write e h (Some a) bs (int (length bs)) = (r, h')"
  from BIO_write_pair [OF this]
  show "paired a b h' \<and> nat r \<le> length bs \<and> queued (pair_of h' a) = queued (pair_of h a) @ take (nat r) bs"
    by (auto simp: pair_frame_def direction_of_def Let_def split: if_splits)
qed

section \<open>Making a pair\<close>

lemma set_pair_bios:
  "bios (set_pair h b p) c = (if c = b then (bios h c)\<lparr>bio_data := Pair_ptr p\<rparr> else bios h c)"
  "next_addr (set_pair h b p) = next_addr h" "freed (set_pair h b p) = freed h"
  by (simp_all add: set_pair_def modify_def)

lemma BIO_new_pair_end:
  assumes "BIO_new e h methods_biop = (Some b, h')"
  shows "b = next_addr h \<and> next_addr h' = Suc b \<and> bio_method (bios h' b) = Some methods_biop \<and>
    pair_of h' b = zero_pair\<lparr>bb_size := 17 * 1024\<rparr> \<and> (\<forall>c. c \<noteq> b \<longrightarrow> bios h' c = bios h c) \<and> freed h' = freed h"
  using assms
  by (auto simp: BIO_new_def methods_biop_def call_create_def bio_new_def set_pair_def modify_def pair_of_def Let_def
      split: option.splits prod.splits bool.splits)

definition capacity :: "nat \<Rightarrow> nat" where
  "capacity writebuf_len = (if writebuf_len = 0 then 17 * 1024 else writebuf_len)"

lemma make_buffer_ok:
  assumes "malloc_spec m" and "bb_buf p = None" and "0 < bb_size p" and "capacity w < 2 ^ 63" and "make_buffer m p w = (True, p')"
    and "bb_size p = 17 * 1024"
  shows "pair_ok p' \<and> queued p' = [] \<and> bb_size p' = capacity w \<and> closed p' = closed p"
proof -
  let ?p = "if w \<noteq> 0 then p\<lparr>bb_size := w\<rparr> else p"
  obtain blk where b: "OPENSSL_malloc m (bb_size ?p) = Some blk"
      "p' = ?p\<lparr>bb_buf := Some (blk_data blk), bb_len := 0, bb_offset := 0\<rparr>"
    using assms(2,5) by (auto simp: make_buffer_def Let_def split: option.splits)
  have sz: "bb_size ?p = capacity w" "0 < capacity w" using assms(6) by (simp_all add: capacity_def)
  have "bb_size ?p < 2 ^ 64 - 8" using assms(4) sz by simp
  from OPENSSL_malloc_Some(2) [OF assms(1) b(1) this] sz b(2)
  show ?thesis by (auto simp: pair_ok_def queued_def ring_def)
qed

lemma BIO_new_bio_pair_ok:
  assumes m: "malloc_spec (env_malloc e)" and w: "capacity w1 < 2 ^ 63" "capacity w2 < 2 ^ 63"
    and r: "BIO_new_bio_pair e h w1 w2 = Some (Some (a, b), h')"
  shows "paired a b h' \<and> bb_size (pair_of h' a) = capacity w1 \<and> bb_size (pair_of h' b) = capacity w2 \<and>
    direction_of h' a = ([], False) \<and> direction_of h' b = ([], False)"
proof -
  obtain b1 h1 where n1: "BIO_new e h methods_biop = (b1, h1)" by fastforce
  obtain b2 h2 where n2: "BIO_new e h1 methods_biop = (b2, h2)" by fastforce
  have "b1 = Some a \<and> b2 = Some b \<and> bio_make_pair (env_malloc e) h2 a b w1 w2 = (True, h')"
    using r by (auto simp: BIO_new_bio_pair_def n1 n2 split: option.splits prod.splits bool.splits)
  then have b12: "b1 = Some a" "b2 = Some b" and mk: "bio_make_pair (env_malloc e) h2 a b w1 w2 = (True, h')" by simp_all
  note A = BIO_new_pair_end [OF n1 [unfolded b12(1)]]
  note B = BIO_new_pair_end [OF n2 [unfolded b12(2)]]
  have ab: "a \<noteq> b" "b \<noteq> a" using A B by auto
  have pa: "pair_of h2 a = zero_pair\<lparr>bb_size := 17 * 1024\<rparr>" and pb: "pair_of h2 b = zero_pair\<lparr>bb_size := 17 * 1024\<rparr>"
    and ms: "bio_method (bios h2 a) = Some methods_biop" "bio_method (bios h2 b) = Some methods_biop"
    using A B ab by (auto simp: pair_of_def)
  obtain p q where p: "make_buffer (env_malloc e) (pair_of h2 a) w1 = (True, p)"
      and q: "make_buffer (env_malloc e) (pair_of h2 b) w2 = (True, q)"
      and h': "h' = modify (modify (set_pair (set_pair (set_pair (set_pair h2 a p) b q) a (p\<lparr>peer := Some b, closed := False, request := 0\<rparr>))
          b (q\<lparr>peer := Some a, closed := False, request := 0\<rparr>)) a (\<lambda>x. x\<lparr>init := 1\<rparr>)) b (\<lambda>x. x\<lparr>init := 1\<rparr>)"
    using mk ab pa pb by (auto simp: bio_make_pair_def Let_def zero_pair_def split: prod.splits bool.splits)
  have "bb_buf (pair_of h2 a) = None" "0 < bb_size (pair_of h2 a)" "bb_size (pair_of h2 a) = 17 * 1024"
      "bb_buf (pair_of h2 b) = None" "0 < bb_size (pair_of h2 b)" "bb_size (pair_of h2 b) = 17 * 1024"
    by (simp_all add: pa pb zero_pair_def)
  note P = make_buffer_ok [OF m this(1,2) w(1) p this(3)] make_buffer_ok [OF m this(4,5) w(2) q this(6)]
  have upd: "pair_ok (x\<lparr>peer := y, closed := False, request := 0\<rparr>) = pair_ok x"
      "queued (x\<lparr>peer := y, closed := False, request := 0\<rparr>) = queued x" for x y
    by (simp_all add: pair_ok_def queued_def ring_def)
  have "pair_of h' a = p\<lparr>peer := Some b, closed := False, request := 0\<rparr>" "pair_of h' b = q\<lparr>peer := Some a, closed := False, request := 0\<rparr>"
      "init (bios h' a) = 1" "init (bios h' b) = 1"
      "bio_method (bios h' a) = Some methods_biop" "bio_method (bios h' b) = Some methods_biop"
    using ab ms by (simp_all add: h' modify_def pair_of_def set_pair_bios)
  then show ?thesis using P ab upd by (simp add: paired_def direction_of_def)
qed


section \<open>Properties\<close>

text \<open>C1.
  A fresh pair is two independent bounded queues: under any sequence of reads, writes and write shutdowns at its two ends, every call returns
  the number and the bytes that the queues give, with the wrap-around of the rings invisible; what one end accepted is read at the
  other once, in order, and a closed direction is drained before it reports its end.
\<close>

theorem pair_is_two_queues:
  assumes "malloc_spec (env_malloc e)" and "capacity w1 < 2 ^ 63" and "capacity w2 < 2 ^ 63"
    and "BIO_new_bio_pair e h w1 w2 = Some (Some (a, b), h0)" and "\<forall>x\<in>set ops. pair_op_short x"
  shows "fst (run_pair e a b ops h0) = run_queues (capacity w1) (capacity w2) ops (([], False), ([], False))"
proof -
  note N = BIO_new_bio_pair_ok [OF assms(1-4)]
  then have "paired a b h0" by simp
  from run_pair_queues [OF this assms(5) surjective_pairing] N show ?thesis by simp
qed

definition test_env :: bio_env where
  "test_env = \<lparr>env_malloc = zero_malloc, user_write = (\<lambda>_ h _ _ _. (-1, h)), user_read = (\<lambda>_ h _ _. (-1, [], h)),
     user_gets = (\<lambda>_ h _ _. (-1, [], h)), user_ctrl = (\<lambda>_ h _ _ _ _. (0, No_out, h)), user_create = (\<lambda>_ h _. (True, h)),
     user_destroy = (\<lambda>_ h _. h), user_callback_ctrl = (\<lambda>_ h _ _. (0, h))\<rparr>"

definition empty_heap :: heap where
  "empty_heap = \<lparr>bios = (\<lambda>_. zero_bio), next_addr = 0, freed = []\<rparr>"

lemma zero_malloc_block:
  assumes "n < 2 ^ 62"
  shows "OPENSSL_malloc zero_malloc n = Some \<lparr>blk_size = n, blk_data = replicate n 0\<rparr>"
proof -
  have "size_add n 8 = n + 8" "n + 8 < 2 ^ 63" using assms by (simp_all add: size_add_def)
  then show ?thesis by (simp add: OPENSSL_malloc_def zero_malloc_def OPENSSL_MALLOC_PREFIX_def)
qed

lemma pair_is_two_queues_witness:
  "\<exists>a b h0. BIO_new_bio_pair test_env empty_heap 4 0 = Some (Some (a, b), h0) \<and>
     fst (run_pair test_env a b [Write True [1, 2, 3], Read False 2, Write True [4, 5, 6], Read False 9, Close True, Read False 1] h0) =
       [(3, []), (2, [1, 2]), (3, []), (4, [3, 4, 5, 6]), (1, []), (0, [])]"
proof -
  have "\<exists>a b h0. BIO_new_bio_pair test_env empty_heap 4 0 = Some (Some (a, b), h0)"
    by (simp add: BIO_new_bio_pair_def BIO_new_def test_env_def methods_biop_def call_create_def bio_new_def zero_malloc_block
        bio_make_pair_def make_buffer_def set_pair_def pair_of_def zero_pair_def empty_heap_def modify_def Let_def)
  then obtain a b h0 where n: "BIO_new_bio_pair test_env empty_heap 4 0 = Some (Some (a, b), h0)" by blast
  let ?ops = "[Write True [1, 2, 3], Read False 2, Write True [4, 5, 6], Read False 9, Close True, Read False 1]"
  have "malloc_spec (env_malloc test_env)" "capacity 4 < 2 ^ 63" "capacity 0 < 2 ^ 63" "\<forall>x\<in>set ?ops. pair_op_short x"
    by (simp_all add: test_env_def capacity_def pair_op_short_def)
  from pair_is_two_queues [OF this(1-3) n this(4)]
  have "fst (run_pair test_env a b ?ops h0) = [(3, []), (2, [1, 2]), (3, []), (4, [3, 4, 5, 6]), (1, []), (0, [])]"
    by (simp add: capacity_def)
  with n show ?thesis by metis
qed

end
