(* ===== verification/BioClients.thy ===== *)
theory BioClients
  imports BioQueue Der
begin

text \<open>
  Memory objects as channels, and what is built on sources and channels: \<^verbatim>\<open>BIO_read_asn1\<close>, which reads one element as the parsers
  of \<^verbatim>\<open>cbs.c\<close> do, and \<^verbatim>\<open>BIO_hexdump\<close>; the release of chains by \<^verbatim>\<open>BIO_free\<close>.
\<close>

section \<open>Memory objects\<close>

definition mem_ok :: "nat \<Rightarrow> heap \<Rightarrow> bool" where
  "mem_ok b h \<longleftrightarrow> bio_method (bios h b) = Some mem_method \<and> init (bios h b) \<noteq> 0 \<and> num (bios h b) \<le> 0 \<and>
     (\<exists>s. bio_data (bios h b) = Mem_ptr s \<and> int (bm_length (mem_buf s)) \<le> INT_MAX \<and>
       (if rdonly (bios h b) then length (bm_data (mem_buf s)) = bm_length (mem_buf s) else buf_ok (mem_buf s)))"

definition mem_bytes :: "nat \<Rightarrow> heap \<Rightarrow> bytes" where
  "mem_bytes b h = buf_contents (mem_buf (mem_of (bios h b)))"

lemma mem_methods:
  "bio_method (bios h b) = Some mem_method \<Longrightarrow> method_of h (Some b) mt_bread = Some (b, Mem_fn)"
  "bio_method (bios h b) = Some mem_method \<Longrightarrow> method_of h (Some b) mt_bwrite = Some (b, Mem_fn)"
  by (simp_all add: method_of_def mem_method_def)

lemma rdonly_flags [simp]:
  "rdonly (x\<lparr>bio_flags := bio_flags x AND NOT kRetryFlags, retry_reason := r\<rparr>) = rdonly x"
  "rdonly (x\<lparr>bio_flags := bio_flags x OR (BIO_FLAGS_READ OR BIO_FLAGS_SHOULD_RETRY)\<rparr>) = rdonly x"
  "rdonly (x\<lparr>num_read := n\<rparr>) = rdonly x" "rdonly (x\<lparr>num_write := n\<rparr>) = rdonly x" "rdonly (x\<lparr>bio_data := p\<rparr>) = rdonly x"
proof -
  have "(f AND NOT kRetryFlags) AND BIO_FLAGS_MEM_RDONLY = f AND BIO_FLAGS_MEM_RDONLY" for f :: u32
    by (simp add: kRetryFlags_def BIO_FLAGS_RWS_def BIO_FLAGS_READ_def BIO_FLAGS_WRITE_def BIO_FLAGS_IO_SPECIAL_def
        BIO_FLAGS_SHOULD_RETRY_def BIO_FLAGS_MEM_RDONLY_def and.assoc)
  moreover have "(f OR (BIO_FLAGS_READ OR BIO_FLAGS_SHOULD_RETRY)) AND BIO_FLAGS_MEM_RDONLY = f AND BIO_FLAGS_MEM_RDONLY" for f :: u32
    by (simp add: BIO_FLAGS_READ_def BIO_FLAGS_SHOULD_RETRY_def BIO_FLAGS_MEM_RDONLY_def bit.conj_disj_distrib2)
  ultimately show "rdonly (x\<lparr>bio_flags := bio_flags x AND NOT kRetryFlags, retry_reason := r\<rparr>) = rdonly x"
      "rdonly (x\<lparr>bio_flags := bio_flags x OR (BIO_FLAGS_READ OR BIO_FLAGS_SHOULD_RETRY)\<rparr>) = rdonly x"
      "rdonly (x\<lparr>num_read := n\<rparr>) = rdonly x" "rdonly (x\<lparr>num_write := n\<rparr>) = rdonly x" "rdonly (x\<lparr>bio_data := p\<rparr>) = rdonly x"
    by (simp_all add: rdonly_def)
qed

lemma mem_flags [simp]:
  "rdonly (bios (BIO_clear_retry_flags h b) b) = rdonly (bios h b)" "rdonly (bios (BIO_set_retry_read h b) b) = rdonly (bios h b)"
  "num (bios (BIO_clear_retry_flags h b) b) = num (bios h b)" "num (bios (BIO_set_retry_read h b) b) = num (bios h b)"
  "bio_data (bios (BIO_clear_retry_flags h b) b) = bio_data (bios h b)" "bio_data (bios (BIO_set_retry_read h b) b) = bio_data (bios h b)"
  by (simp_all add: BIO_clear_retry_flags_def BIO_set_retry_read_def)

lemma mem_ok_flags [simp]:
  "mem_ok b (BIO_clear_retry_flags h b) = mem_ok b h" "mem_ok b (BIO_set_retry_read h b) = mem_ok b h"
  "mem_bytes b (BIO_clear_retry_flags h b) = mem_bytes b h" "mem_bytes b (BIO_set_retry_read h b) = mem_bytes b h"
  by (simp_all add: mem_ok_def mem_bytes_def mem_of_def)

lemma mem_read_ok:
  assumes ok: "mem_ok b h" and n: "0 < n" "n < 2 ^ 31" and r: "mem_read h b n = (r, bs, h')"
  shows "mem_ok b h' \<and> bs = take (nat n) (mem_bytes b h) \<and> mem_bytes b h' = drop (nat n) (mem_bytes b h) \<and>
    (if mem_bytes b h = [] then r \<le> 0 else r = int (length bs))"
proof -
  obtain s where s: "bio_data (bios h b) = Mem_ptr s" "int (bm_length (mem_buf s)) \<le> INT_MAX" and ms: "mem_of (bios h b) = s"
    and ok': "if rdonly (bios h b) then length (bm_data (mem_buf s)) = bm_length (mem_buf s) else buf_ok (mem_buf s)"
    using ok by (auto simp: mem_ok_def mem_of_def)
  let ?b = "mem_buf s" and ?h = "BIO_clear_retry_flags h b"
  define len where "len = bm_length ?b"
  define k where "k = min (nat n) len"
  have lens: "len \<le> length (bm_data ?b)" using ok' by (auto simp: len_def buf_ok_def split: if_splits)
  have tl: "to_int (int len) = int len" using s(2) by (intro to_int_id) (simp_all add: len_def INT_MAX_def)
  have ret: "(if int len < INT_MAX \<and> n > to_int (int len) then to_int (int len) else n) = int k"
    using n s(2) tl by (auto simp: k_def INT_MAX_def len_def)
  have mb: "mem_bytes b h = take len (bm_data ?b)" by (simp add: mem_bytes_def ms buf_contents_def len_def)
  have mc: "mem_of (bios ?h b) = s" "rdonly (bios ?h b) = rdonly (bios h b)" "num (bios ?h b) = num (bios h b)"
    by (simp_all add: BIO_clear_retry_flags_def mem_of_def s(1))
  note r' = r [unfolded mem_read_def Let_def ms, folded len_def, unfolded ret mc nat_int]
  show ?thesis
  proof (cases "len = 0")
    case True
    then have "k = 0" "mem_bytes b h = []" by (simp_all add: k_def mb)
    moreover have "r = num (bios h b)" "bs = []" "h' = ?h \<or> h' = BIO_set_retry_read ?h b"
      using r' True \<open>k = 0\<close> by (auto split: if_splits)
    moreover have "num (bios h b) \<le> 0" using ok by (simp add: mem_ok_def)
    ultimately show ?thesis using ok by auto
  next
    case False
    then have k: "0 < k" "k \<le> len" using n by (simp_all add: k_def)
    define s' where "s' = (if rdonly (bios h b)
        then \<lparr>mem_before = mem_before s @ take k (bm_data ?b), mem_buf = ?b\<lparr>bm_length := len - k, bm_data := drop k (bm_data ?b)\<rparr>\<rparr>
        else s\<lparr>mem_buf := ?b\<lparr>bm_length := len - k, bm_data := Mem.mem_write (bm_data ?b) 0 (take (len - k) (drop k (bm_data ?b)))\<rparr>\<rparr>)"
    have R: "r = int k" "bs = take k (bm_data ?b)" "h' = modify ?h b (\<lambda>x. x\<lparr>bio_data := Mem_ptr s'\<rparr>)"
      using r' [folded s'_def] k by simp_all
    have t: "take k (bm_data ?b) = take (nat n) (mem_bytes b h)" "drop (nat n) (mem_bytes b h) = take (len - k) (drop k (bm_data ?b))"
      using lens by (auto simp: mb k_def min_def drop_take)
    have c: "buf_contents (mem_buf s') = take (len - k) (drop k (bm_data ?b))"
      using lens k by (auto simp: s'_def buf_contents_def Mem.mem_write_def min_def)
    have "if rdonly (bios h b) then length (bm_data (mem_buf s')) = bm_length (mem_buf s') else buf_ok (mem_buf s')"
      using ok' k lens by (auto simp: s'_def buf_ok_def length_mem_write len_def)
    moreover have "bm_length (mem_buf s') \<le> len" by (simp add: s'_def)
    ultimately have "mem_ok b h'"
      using ok s(2) by (auto simp: R mem_ok_def BIO_clear_retry_flags_def len_def simp del: modify_modify)
    moreover have "mem_bytes b h' = drop (nat n) (mem_bytes b h)" unfolding t(2) by (simp add: mem_bytes_def R(3) mem_of_def c)
    moreover have "mem_bytes b h \<noteq> []" "length bs = k" using False lens k by (auto simp: mb R)
    ultimately show ?thesis using R t by simp
  qed
qed

lemma mem_read_zero: "mem_ok b h \<Longrightarrow> BIO_read e h (Some b) 0 = (0, [], h)"
  by (auto simp: BIO_read_def mem_ok_def mem_methods)

lemma mem_count [simp]:
  "mem_ok b (modify h b (\<lambda>x. x\<lparr>num_read := f x\<rparr>)) = mem_ok b h" "mem_ok b (modify h b (\<lambda>x. x\<lparr>num_write := f x\<rparr>)) = mem_ok b h"
  "mem_bytes b (modify h b (\<lambda>x. x\<lparr>num_read := f x\<rparr>)) = mem_bytes b h"
  "mem_bytes b (modify h b (\<lambda>x. x\<lparr>num_write := f x\<rparr>)) = mem_bytes b h"
  by (simp_all add: mem_ok_def mem_bytes_def mem_of_def)

interpretation mem: byte_source e b "mem_ok b" "mem_bytes b" for e b
proof (unfold_locales, goal_cases)
  case (1 h n r bs h')
  then have ok: "mem_ok b h" and n: "0 < n" "n < 2 ^ 31" and r: "BIO_read e h (Some b) n = (r, bs, h')" .
  obtain r1 bs1 h1 where c: "mem_read h b n = (r1, bs1, h1)" by (metis prod_cases3)
  have "r = r1" "bs = bs1" "h' = (if r1 > 0 then modify h1 b (\<lambda>x. x\<lparr>num_read := size_add (num_read x) (nat r1)\<rparr>) else h1)"
    using r c ok n by (auto simp: BIO_read_def mem_ok_def mem_methods call_read_def)
  with mem_read_ok [OF ok n c]
  show "mem_ok b h' \<and> bs = take (nat n) (mem_bytes b h) \<and> mem_bytes b h' = drop (nat n) (mem_bytes b h) \<and>
      (if mem_bytes b h = [] then r \<le> 0 else r = int (length bs))"
    by auto
qed (rule mem_read_zero)

text \<open>A writable object.\<close>

definition mem_rw :: "malloc \<Rightarrow> nat \<Rightarrow> heap \<Rightarrow> bool" where
  "mem_rw m b h \<longleftrightarrow> malloc_spec m \<and> mem_ok b h \<and> \<not> rdonly (bios h b)"

lemma mem_write_ok:
  assumes ok: "mem_rw m b h" and n: "bs \<noteq> []" "int (length bs) < 2 ^ 31" and r: "mem_write m h b bs (int (length bs)) = (r, h')"
  shows "mem_rw m b h' \<and> nat r \<le> length bs \<and> mem_bytes b h' = mem_bytes b h @ take (nat r) bs"
proof -
  obtain s where s: "bio_data (bios h b) = Mem_ptr s" "int (bm_length (mem_buf s)) \<le> INT_MAX" "buf_ok (mem_buf s)"
      and ms: "mem_of (bios h b) = s" and rw: "\<not> rdonly (bios h b)" and m: "malloc_spec m"
    using ok by (auto simp: mem_rw_def mem_ok_def mem_of_def)
  let ?b = "mem_buf s" and ?h = "BIO_clear_retry_flags h b"
  have tl: "to_int (int (bm_length ?b)) = int (bm_length ?b)" using s(2) by (intro to_int_id) (simp_all add: INT_MAX_def)
  have mc: "mem_of (bios ?h b) = s" by (simp add: mem_of_def s(1))
  show ?thesis
  proof (cases "INT_MAX - int (bm_length ?b) < int (length bs)")
    case True
    then have "r = -1" "h' = ?h" using r rw by (simp_all add: mem_write_def Let_def mc tl)
    with ok show ?thesis by (simp add: mem_rw_def)
  next
    case False
    define len where "len = bm_length ?b + length bs"
    have l: "int len \<le> INT_MAX" "len < 2 ^ 63" "len \<noteq> 0" using False n by (auto simp: len_def INT_MAX_def)
    obtain g b' where g: "BUF_MEM_grow m ?b len = (g, b')" by fastforce
    note G = BUF_MEM_grow_ok [OF m s(3) l(2) g]
    have nl: "nat (int (bm_length ?b) + int (length bs)) = len" "int g \<noteq> int (bm_length ?b) + int (length bs) \<longleftrightarrow> g \<noteq> len"
      by (auto simp: len_def)
    have R: "(r, h') = (if g \<noteq> len then (-1, modify ?h b (\<lambda>x. x\<lparr>bio_data := Mem_ptr (s\<lparr>mem_buf := b'\<rparr>)\<rparr>))
        else (int (length bs), modify ?h b (\<lambda>x. x\<lparr>bio_data := Mem_ptr (s\<lparr>mem_buf := b'\<lparr>bm_data :=
            Mem.mem_write (bm_data b') (bm_length ?b) bs\<rparr>\<rparr>)\<rparr>)))"
      using r False rw by (simp add: mem_write_def Let_def mc tl BUF_MEM_grow_clean_def nl g cong: if_cong)
    have gl: "g = 0 \<and> bm_length b' = bm_length ?b \<or> g = len \<and> bm_length b' = len"
      using g BUF_MEM_reserve_ok(3) [OF m s(3) l(2)] by (auto simp: BUF_MEM_grow_def Let_def split: prod.splits bool.splits)
    show ?thesis
    proof (cases "g = len")
      case False
      with gl have "g = 0" "bm_length b' = bm_length ?b" by auto
      moreover from this G have "buf_contents b' = buf_contents ?b" "buf_ok b'" using l by auto
      moreover from R False have R': "r = -1" "h' = modify ?h b (\<lambda>x. x\<lparr>bio_data := Mem_ptr (s\<lparr>mem_buf := b'\<rparr>)\<rparr>)" by simp_all
      ultimately show ?thesis
        using ok s(2) by (simp add: R' mem_rw_def mem_ok_def mem_bytes_def mem_of_def s(1) del: modify_modify)
    next
      case True
      define b2 where "b2 = b'\<lparr>bm_data := Mem.mem_write (bm_data b') (bm_length ?b) bs\<rparr>"
      have R': "r = int (length bs)" "h' = modify ?h b (\<lambda>x. x\<lparr>bio_data := Mem_ptr (s\<lparr>mem_buf := b2\<rparr>)\<rparr>)"
        using R True by (simp_all add: b2_def)
      have bl: "bm_length b' = len" using gl True l(3) by auto
      have fit: "bm_length ?b + length bs \<le> length (bm_data b')" using G(1) bl by (simp add: buf_ok_def len_def)
      have "take (bm_length ?b) (bm_data b') = buf_contents ?b"
      proof -
        have "buf_contents b' = buf_contents ?b @ replicate (length bs) 0"
          using G(3) True l(3) s(3) by (simp add: len_def buf_contents_def buf_ok_def)
        then have "take (bm_length ?b) (buf_contents b') = buf_contents ?b" using s(3) by (simp add: buf_contents_def buf_ok_def)
        then show ?thesis by (simp add: buf_contents_def bl len_def)
      qed
      then have "buf_contents b2 = buf_contents ?b @ bs"
        using fit by (simp add: b2_def buf_contents_def bl len_def take_mem_write)
      moreover have "buf_ok b2" using G(1) fit by (simp add: b2_def buf_ok_def length_mem_write)
      moreover have "bm_length b2 = len" by (simp add: b2_def bl)
      ultimately show ?thesis
        using ok l(1) by (simp add: R' mem_rw_def mem_ok_def mem_bytes_def mem_of_def s(1) del: modify_modify)
    qed
  qed
qed

lemma mem_read_rdonly:
  assumes "BIO_read e h (Some b) n = (r, bs, h')" and "mem_ok b h"
  shows "rdonly (bios h' b) = rdonly (bios h b)"
  using assms
  by (auto simp: BIO_read_def mem_ok_def mem_methods call_read_def mem_read_def Let_def split: prod.splits if_splits)

interpretation mem_rw: byte_channel e b "mem_rw (env_malloc e) b" "mem_bytes b" b for e b
proof unfold_locales
  fix h n r bs h'
  assume "mem_rw (env_malloc e) b h" "0 < n" "n < 2 ^ 31" "BIO_read e h (Some b) n = (r, bs, h')"
  then show "mem_rw (env_malloc e) b h' \<and> bs = take (nat n) (mem_bytes b h) \<and> mem_bytes b h' = drop (nat n) (mem_bytes b h) \<and>
      (if mem_bytes b h = [] then r \<le> 0 else r = int (length bs))"
    using mem.read_ok [of b h n e r bs h'] mem_read_rdonly [of e h b n r bs h'] by (simp add: mem_rw_def)
next
  show "BIO_read e h (Some b) 0 = (0, [], h)" if "mem_rw (env_malloc e) b h" for h
    using that mem_read_zero by (simp add: mem_rw_def)
next
  fix h bs r h'
  assume ok: "mem_rw (env_malloc e) b h" and n: "int (length bs) < 2 ^ 31"
    and r: "BIO_write e h (Some b) bs (int (length bs)) = (r, h')"
  show "mem_rw (env_malloc e) b h' \<and> nat r \<le> length bs \<and> mem_bytes b h' = mem_bytes b h @ take (nat r) bs"
  proof (cases "bs = []")
    case True
    then have "r = 0" "h' = h" using r ok by (auto simp: BIO_write_def mem_rw_def mem_ok_def mem_methods)
    with ok True show ?thesis by simp
  next
    case False
    obtain r1 h1 where c: "mem_write (env_malloc e) h b bs (int (length bs)) = (r1, h1)" by fastforce
    have "r = r1" "h' = (if r1 > 0 then modify h1 b (\<lambda>x. x\<lparr>num_write := size_add (num_write x) (nat r1)\<rparr>) else h1)"
      using r c ok False by (auto simp: BIO_write_def mem_rw_def mem_ok_def mem_methods call_write_def)
    with mem_write_ok [OF ok False n c] show ?thesis by (auto simp: mem_rw_def)
  qed
qed


section \<open>Reading an element\<close>

lemma take_mem_write_0: "length bs \<le> length buf \<Longrightarrow> take (length bs) (Mem.mem_write buf 0 bs) = bs"
  by (simp add: Mem.mem_write_def)

lemma two_writes:
  assumes "length buf = length xs + length ys"
  shows "take (length xs + length ys) (Mem.mem_write (Mem.mem_write buf 0 xs) (length xs) ys) = xs @ ys"
  using assms by (simp add: Mem.mem_write_def)

context byte_source
begin

lemma read_contents_sound:
  assumes m: "malloc_spec (env_malloc e)" and h: "invar h" and l: "length header \<le> 6" "len < 2 ^ 32"
    and r: "read_contents e h (Some b) header len max_len = (Some out, h')"
  shows "invar h' \<and> (\<exists>c. out = header @ c \<and> length c = len \<and> pending h = c @ pending h') \<and>
    length header + len \<le> max_len \<and> int len \<le> INT_MAX"
proof -
  have sz: "size_add len (length header) = length header + len" using l by (simp add: size_add_def)
  have lim: "length header + len \<le> max_len" "int len \<le> INT_MAX"
    using r by (auto simp: read_contents_def sz Let_def split: if_splits)
  then have tl: "to_int (int len) = int len" by (intro to_int_id) (simp_all add: INT_MAX_def)
  obtain blk where b: "OPENSSL_malloc (env_malloc e) (length header + len) = Some blk"
    using r by (auto simp: read_contents_def sz Let_def split: if_splits option.splits)
  have "length header + len < 2 ^ 64 - 8" using l by simp
  from OPENSSL_malloc_Some(2) [OF m b this] have blk: "length (blk_data blk) = length header + len" .
  obtain n bs h1 where rd: "BIO_read e h (Some b) (int len) = (n, bs, h1)" by (metis prod_cases3)
  have n: "n = int len" "h' = h1" and out: "out = take (length header + len) (Mem.mem_write (Mem.mem_write (blk_data blk) 0 header) (length header) bs)"
    using r lim b rd by (auto simp: read_contents_def sz Let_def tl split: if_splits)
  have "len < 2 ^ 31" using lim(2) by (simp add: INT_MAX_def)
  note R = read_exactly [OF h this rd [unfolded n(1)]]
  with blk out have "out = header @ bs" using two_writes [of "blk_data blk" header bs] by simp
  with R n(2) lim show ?thesis by blast
qed

lemma read_contents_complete:
  assumes m: "malloc_spec (env_malloc e)" "malloc_total (env_malloc e)" and h: "invar h" and l: "length header \<le> 6"
    and len: "int (length c) \<le> INT_MAX" "length header + length c \<le> max_len" and p: "pending h = c @ rest"
  shows "\<exists>h'. read_contents e h (Some b) header (length c) max_len = (Some (header @ c), h') \<and> invar h' \<and> pending h' = rest"
proof -
  let ?n = "length header + length c"
  have small: "length c < 2 ^ 31" using len(1) by (simp add: INT_MAX_def)
  then have sz: "size_add (length c) (length header) = ?n" using l by (simp add: size_add_def)
  have tl: "to_int (int (length c)) = int (length c)" using len(1) by (intro to_int_id) (simp_all add: INT_MAX_def)
  have "?n + 8 < 2 ^ 63" using small l by simp
  then have "env_malloc e (?n + 8) \<noteq> None" using m(2) unfolding malloc_total_def by blast
  then obtain blk where b: "OPENSSL_malloc (env_malloc e) ?n = Some blk"
    using small l by (auto simp: OPENSSL_malloc_def OPENSSL_MALLOC_PREFIX_def size_add_def)
  have "?n < 2 ^ 64 - 8" using small l by simp
  from OPENSSL_malloc_Some(2) [OF m(1) b this] have blk: "length (blk_data blk) = ?n" .
  have "int (length c) < 2 ^ 31" "length c \<le> length (pending h)" using small p by simp_all
  from read_available [OF h this] obtain h' where
    R: "BIO_read e h (Some b) (int (length c)) = (int (length c), c, h')" "invar h'" "pending h' = rest"
    using p by auto
  have "read_contents e h (Some b) header (length c) max_len =
      (Some (take ?n (Mem.mem_write (Mem.mem_write (blk_data blk) 0 header) (length header) c)), h')"
    using len sz b R(1) tl by (simp add: read_contents_def Let_def)
  with two_writes [OF blk] R show ?thesis by simp
qed

end

text \<open>The parser of \<^verbatim>\<open>cbs.c\<close> on an identifier of one byte.\<close>

lemma parse_asn1_tag_low:
  assumes "t AND 0x1f \<noteq> (0x1f :: u8)"
  shows "parse_asn1_tag (t # s) = (Some (push_bit CBS_ASN1_TAG_SHIFT (ucast t AND 0xe0) OR ucast (t AND 0x1f)), s)"
proof -
  have "unat (ucast (t AND 0x1f) :: u32) = unat (t AND 0x1f)" by (rule unat_ucast_up) simp
  then have "(ucast (t AND 0x1f) :: u32) \<noteq> 0x1f" using assms by (auto simp: word_unat_eq_iff)
  then show ?thesis by (simp add: parse_asn1_tag_def Let_def)
qed


text \<open>What both parsers make of the length that follows a one-byte identifier.\<close>

lemma element_low_tag:
  assumes "t AND 0x1f \<noteq> (0x1f :: u8)"
  shows "fst (CBS_get_any_asn1_element (t # lb # s)) \<noteq> None \<longleftrightarrow>
    (if lb AND 0x80 = 0 then unat lb \<le> length s
     else let k = unat (lb AND 0x7f); n = unat (be_loop (0 :: u32) (take k s)) in
       k \<noteq> 0 \<and> k \<le> 4 \<and> k \<le> length s \<and> 128 \<le> n \<and> drop_bit ((k - 1) * 8) (be_loop (0 :: u32) (take k s)) \<noteq> 0 \<and> k + n \<le> length s)"
    and "CBS_get_any_asn1_element (t # lb # s) = (Some el, rest) \<Longrightarrow>
      (if lb AND 0x80 = 0 then el_out el = t # lb # take (unat lb) s \<and> rest = drop (unat lb) s
       else let k = unat (lb AND 0x7f); n = unat (be_loop (0 :: u32) (take k s)) in
         el_out el = t # lb # take (k + n) s \<and> rest = drop (k + n) s)"
proof -
  let ?k = "unat (lb AND 0x7f)"
  let ?w = "be_loop (0 :: u32) (take ?k s)"
  have kk: "?k < 128"
  proof -
    have "lb AND 0x7f \<le> 0x7f" by (rule word_and_le1)
    then show ?thesis by (simp add: word_le_nat_alt)
  qed
  have lt: "unat lb < 256" by (rule unat_less_256)
  have w: "unat ?w < 2 ^ 32" using unsigned_less [of ?w, where 'a = nat] by simp
  have u: "cbs_get_u s ?k = (if length s < ?k then (None, s) else (Some ?w, drop ?k s))"
    by (simp add: cbs_get_u_def cbs_get_def CBS_len_def)
  have w128: "?w < 128 \<longleftrightarrow> \<not> 128 \<le> unat ?w" by (auto simp: word_less_nat_alt)
  have "unat lb + 2 < 258" using lt by linarith
  also have "(258::nat) \<le> 2 ^ 64" by simp
  finally have s1: "size_add (unat lb) 2 = unat lb + 2" by (rule size_add_no_wrap)
  have s2: "size_add (size_add (unat ?w) 2) ?k = unat ?w + 2 + ?k" "size_add (unat ?w) (size_add 2 ?k) = unat ?w + (2 + ?k)"
    using w kk by (simp_all add: size_add_def mod_less)
  have E: "CBS_get_any_asn1_element (t # lb # s) =
      (let tag = push_bit CBS_ASN1_TAG_SHIFT (ucast t AND 0xe0) OR ucast (t AND 0x1f) in
       if lb AND 0x80 = 0 then get_element (t # lb # s) (unat lb + 2) tag 2
       else if ?k = 0 \<or> ?k > 4 \<or> length s < ?k then (None, t # lb # s)
       else if \<not> 128 \<le> unat ?w \<or> drop_bit ((?k - 1) * 8) ?w = 0 then (None, t # lb # s)
       else get_element (t # lb # s) (unat ?w + (2 + ?k)) tag (size_add 2 ?k))"
    by (auto simp: CBS_get_any_asn1_element_def cbs_get_any_asn1_element_def parse_asn1_tag_low [OF assms] u s1 s2 w128 Let_def
        CBS_len_def split: if_splits)
  show "fst (CBS_get_any_asn1_element (t # lb # s)) \<noteq> None \<longleftrightarrow>
    (if lb AND 0x80 = 0 then unat lb \<le> length s
     else let k = ?k; n = unat (be_loop (0 :: u32) (take k s)) in
       k \<noteq> 0 \<and> k \<le> 4 \<and> k \<le> length s \<and> 128 \<le> n \<and> drop_bit ((k - 1) * 8) (be_loop (0 :: u32) (take k s)) \<noteq> 0 \<and> k + n \<le> length s)"
    unfolding E by (auto simp: Let_def get_element_def CBS_get_bytes_def cbs_get_def CBS_len_def)
  show "if lb AND 0x80 = 0 then el_out el = t # lb # take (unat lb) s \<and> rest = drop (unat lb) s
       else let k = ?k; n = unat (be_loop (0 :: u32) (take k s)) in
         el_out el = t # lb # take (k + n) s \<and> rest = drop (k + n) s"
    if "CBS_get_any_asn1_element (t # lb # s) = (Some el, rest)"
    using that unfolding E by (auto simp: Let_def get_element_iff ac_simps split: if_splits)
qed


text \<open>The element at the start of the pending bytes, when it is no longer than \<open>max_len\<close>, and what follows it.\<close>

definition first_element :: "nat \<Rightarrow> bytes \<Rightarrow> (bytes \<times> bytes) option" where
  "first_element max_len D =
     (case CBS_get_any_asn1_element D of
        (Some el, rest) \<Rightarrow> if length (el_out el) \<le> max_len then Some (el_out el, rest) else None
      | (None, _) \<Rightarrow> None)"

lemma first_element_low_tag:
  assumes "t AND 0x1f \<noteq> (0x1f :: u8)"
  shows "first_element max_len (t # lb # s) =
    (if lb AND 0x80 = 0 then
       if unat lb \<le> length s \<and> 2 + unat lb \<le> max_len then Some (t # lb # take (unat lb) s, drop (unat lb) s) else None
     else let k = unat (lb AND 0x7f); n = unat (be_loop (0 :: u32) (take k s)) in
       if k \<noteq> 0 \<and> k \<le> 4 \<and> k \<le> length s \<and> 128 \<le> n \<and> drop_bit ((k - 1) * 8) (be_loop (0 :: u32) (take k s)) \<noteq> 0 \<and>
          k + n \<le> length s \<and> 2 + k + n \<le> max_len
       then Some (t # lb # take (k + n) s, drop (k + n) s) else None)"
proof (cases "CBS_get_any_asn1_element (t # lb # s)")
  case (Pair r rest)
  show ?thesis
  proof (cases r)
    case None
    then show ?thesis using element_low_tag(1) [OF assms, of lb s] Pair
      by (auto simp: first_element_def Let_def split: if_splits)
  next
    case (Some el)
    then have f: "fst (CBS_get_any_asn1_element (t # lb # s)) \<noteq> None" using Pair by simp
    note F = element_low_tag(1) [OF assms, of lb s, THEN iffD1, OF f]
    note D = element_low_tag(2) [OF assms Pair [unfolded Some]]
    show ?thesis using F D Pair Some by (auto simp: first_element_def Let_def split: if_splits)
  qed
qed

context byte_source
begin

lemma read_contents_cases:
  assumes m: "malloc_spec (env_malloc e)" "malloc_total (env_malloc e)" and h: "invar h" and l: "length header \<le> 6"
    and n: "n < 2 ^ 32" and max: "int max_len \<le> INT_MAX"
  shows "\<exists>r h'. read_contents e h (Some b) header n max_len = (r, h') \<and>
    (if n \<le> length (pending h) \<and> length header + n \<le> max_len
     then r = Some (header @ take n (pending h)) \<and> invar h' \<and> pending h' = drop n (pending h) else r = None)"
proof (cases "n \<le> length (pending h) \<and> length header + n \<le> max_len")
  case True
  let ?c = "take n (pending h)"
  have c: "length ?c = n" "pending h = ?c @ drop n (pending h)" using True by simp_all
  have "int (length ?c) \<le> INT_MAX" "length header + length ?c \<le> max_len" using True max c by linarith+
  from read_contents_complete [OF m h l this c(2)] True c(1) show ?thesis by auto
next
  case False
  obtain r h' where r: "read_contents e h (Some b) header n max_len = (r, h')" by fastforce
  have "r = None"
  proof (rule ccontr)
    assume "r \<noteq> None"
    then obtain out where "read_contents e h (Some b) header n max_len = (Some out, h')" using r by auto
    from read_contents_sound [OF m(1) h l n this] False show False by auto
  qed
  with r False show ?thesis by simp
qed

lemma read_asn1_first_element:
  assumes m: "malloc_spec (env_malloc e)" "malloc_total (env_malloc e)" and h: "invar h"
    and max: "int max_len \<le> INT_MAX"
    and low: "\<forall>t s. pending h = t # s \<longrightarrow> t AND 0x1f \<noteq> 0x1f"
    and def: "\<forall>t lb s. pending h = t # lb # s \<longrightarrow> t AND 0x20 = 0 \<or> lb AND 0x80 = 0 \<or> lb AND 0x7f \<noteq> 0"
  shows "\<exists>r h'. BIO_read_asn1 e h (Some b) max_len = Some (r, h') \<and>
    (case first_element max_len (pending h) of
       None \<Rightarrow> r = None
     | Some (out, rest) \<Rightarrow> r = Some out \<and> invar h' \<and> pending h' = rest)"
proof (cases "2 \<le> length (pending h)")
  case False
  obtain n bs h1 where rd: "BIO_read e h (Some b) 2 = (n, bs, h1)" by (metis prod_cases3)
  have "n \<noteq> 2"
  proof
    assume "n = 2"
    then have "BIO_read e h (Some b) (int 2) = (int 2, bs, h1)" using rd by simp
    from read_exactly [OF h _ this] False show False by auto
  qed
  then have "BIO_read_asn1 e h (Some b) max_len = Some (None, h1)" by (simp add: BIO_read_asn1_def rd)
  moreover have "first_element max_len (pending h) = None"
  proof (cases "pending h")
    case Nil
    then show ?thesis
      by (simp add: first_element_def CBS_get_any_asn1_element_def cbs_get_any_asn1_element_def parse_asn1_tag_def
          CBS_get_u8_def cbs_get_def CBS_len_def)
  next
    case (Cons t s)
    with False low have "s = []" "t AND 0x1f \<noteq> 0x1f" by (cases s; simp)+
    then show ?thesis
      by (simp add: Cons first_element_def CBS_get_any_asn1_element_def cbs_get_any_asn1_element_def parse_asn1_tag_low)
  qed
  ultimately show ?thesis by simp
next
  case True
  then obtain t lb s where p: "pending h = t # lb # s" by (metis Suc_le_length_iff numeral_2_eq_2)
  have t: "t AND 0x1f \<noteq> 0x1f" using low p by blast
  have "int 2 < 2 ^ 31" by simp
  from read_available [OF h this True] obtain h1 where
    rd: "BIO_read e h (Some b) 2 = (2, [t, lb], h1)" and h1: "invar h1" "pending h1 = s" by (auto simp: p)
  note FE = first_element_low_tag [OF t, of max_len lb s, folded p]
  show ?thesis
  proof (cases "lb AND 0x80 = 0")
    case True
    have "unat lb < 2 ^ 32" by (rule less_trans [OF unat_less_256]) simp
    from read_contents_cases [OF m h1(1) _ this max, of "[t, lb]"] obtain r h' where
      R: "read_contents e h1 (Some b) [t, lb] (unat lb) max_len = (r, h')"
        "if unat lb \<le> length s \<and> 2 + unat lb \<le> max_len
         then r = Some ([t, lb] @ take (unat lb) s) \<and> invar h' \<and> pending h' = drop (unat lb) s else r = None"
      by (auto simp: h1(2))
    have "BIO_read_asn1 e h (Some b) max_len = Some (r, h')" using t True by (simp add: BIO_read_asn1_def rd R(1))
    then show ?thesis using R(2) True by (auto simp: FE split: if_splits)
  next
    case False
    define k where "k = unat (lb AND 0x7f)"
    note kd = k_def [symmetric]
    let ?w = "be_loop (0 :: u32) (take k s)"
    have d: "t AND 0x20 = 0 \<or> k \<noteq> 0" using def p False by (auto simp: k_def unat_eq_0)
    have w32: "?w < 128 \<longleftrightarrow> \<not> 128 \<le> unat ?w" by (auto simp: word_less_nat_alt)
    show ?thesis
    proof (cases "k = 0 \<or> 4 < k")
      case True
      then have "BIO_read_asn1 e h (Some b) max_len = Some (None, h1)"
        using t False d by (auto simp: BIO_read_asn1_def rd kd Let_def)
      then show ?thesis using True False by (auto simp: FE kd Let_def)
    next
      case small: False
      show ?thesis
      proof (cases "k \<le> length s")
        case True
        have "int k < 2 ^ 31" using small by simp
        from read_available [OF h1(1) this] True obtain h2 where
          rd2: "BIO_read e h1 (Some b) (int k) = (int k, take k s, h2)" and h2: "invar h2" "pending h2 = drop k s"
          by (auto simp: h1(2))
        have "unat ?w < 2 ^ 32" using unsigned_less [of ?w, where 'a = nat] by simp
        moreover have "length ([t, lb] @ take k s) \<le> 6" using small True by simp
        ultimately obtain r h' where
          R: "read_contents e h2 (Some b) ([t, lb] @ take k s) (unat ?w) max_len = (r, h')"
            "if unat ?w \<le> length (drop k s) \<and> length ([t, lb] @ take k s) + unat ?w \<le> max_len
             then r = Some (([t, lb] @ take k s) @ take (unat ?w) (drop k s)) \<and> invar h' \<and> pending h' = drop (unat ?w) (drop k s)
             else r = None"
          using read_contents_cases [OF m h2(1) _ _ max, of "[t, lb] @ take k s" "unat ?w"] unfolding h2(2) by blast
        have B: "BIO_read_asn1 e h (Some b) max_len =
            (if \<not> 128 \<le> unat ?w \<or> drop_bit ((k - 1) * 8) ?w = 0 then Some (None, h2) else Some (r, h'))"
          using t False d small R(1) by (simp add: BIO_read_asn1_def rd kd rd2 Let_def w32 be_loop_def [symmetric])
        have tk: "take k s @ take (unat ?w) (drop k s) = take (k + unat ?w) s" "drop (unat ?w) (drop k s) = drop (k + unat ?w) s"
          by (simp_all add: take_add ac_simps)
        show ?thesis using R(2) True small False unfolding B FE by (auto simp: Let_def kd tk add.commute split: if_splits)
      next
        case short: False
        obtain n bs h2 where rd2: "BIO_read e h1 (Some b) (int k) = (n, bs, h2)" by (metis prod_cases3)
        have "n \<noteq> int k"
        proof
          assume "n = int k"
          from read_exactly [OF h1(1) _ rd2 [unfolded this]] small short h1(2) show False by auto
        qed
        then have "BIO_read_asn1 e h (Some b) max_len = Some (None, h2)"
          using t False d small by (simp add: BIO_read_asn1_def rd kd rd2 Let_def)
        then show ?thesis using short False by (auto simp: FE kd Let_def)
      qed
    qed
  qed
qed

end

section \<open>Releasing a chain\<close>

text \<open>\<open>cs\<close> are the objects of the chain that starts at \<open>bio\<close>; \<open>builtin\<close> says that an object's destructor is one of the library.\<close>

fun linked :: "heap \<Rightarrow> nat option \<Rightarrow> nat list \<Rightarrow> bool" where
  "linked h bio [] \<longleftrightarrow> bio = None"
| "linked h bio (c # cs) \<longleftrightarrow> bio = Some c \<and> linked h (next_bio (bios h c)) cs"

definition builtin :: "bio \<Rightarrow> bool" where
  "builtin x \<longleftrightarrow> (\<forall>mt k. bio_method x = Some mt \<longrightarrow> mt_destroy mt \<noteq> Some (User_fn k))"

text \<open>The fields of an object that the release of another one leaves alone.\<close>

definition links :: "bio \<Rightarrow> bio_method option \<times> u32 \<times> nat option" where
  "links x = (bio_method x, references x, next_bio x)"

lemma links_modify: "(\<And>x. links (f x) = links x) \<Longrightarrow> links (bios (modify h b f) c) = links (bios h c)"
  by (simp add: modify_def)

lemma links_destroy_pair: "links (bios (bio_destroy_pair h b) c) = links (bios h c)"
  by (auto simp: bio_destroy_pair_def Let_def set_pair_def modify_def links_def split: option.splits)

lemma links_free:
  "links (bios (snd (mem_free h b)) c) = links (bios h c)" "links (bios (snd (bio_free h b)) c) = links (bios h c)"
proof -
  have m: "links (bios (modify h b (\<lambda>x. x\<lparr>bio_data := p\<rparr>)) c) = links (bios h c)" for h p
    by (rule links_modify) (simp add: links_def)
  show "links (bios (snd (mem_free h b)) c) = links (bios h c)" by (simp add: mem_free_def Let_def m)
  show "links (bios (snd (bio_free h b)) c) = links (bios h c)"
    unfolding bio_free_def Let_def snd_conv m by (simp add: links_destroy_pair)
qed

lemma freed_free: "freed (snd (mem_free h b)) = freed h" "freed (snd (bio_free h b)) = freed h"
  by (auto simp: mem_free_def bio_free_def bio_destroy_pair_def set_pair_def Let_def split: option.splits)

lemma destroy_bio_frame:
  assumes "builtin (bios h b)" and "destroy_bio e h b = (nxt, h')"
  shows "nxt = next_bio (bios h b) \<and> freed h' = freed h @ [b] \<and> (\<forall>c. c \<noteq> b \<longrightarrow> links (bios h' c) = links (bios h c))"
proof -
  let ?h = "modify h b (\<lambda>x. x\<lparr>next_bio := None\<rparr>)"
  let ?d = "case method_of ?h (Some b) mt_destroy of None \<Rightarrow> ?h | Some (b, f) \<Rightarrow> call_destroy e f ?h b"
  have r: "nxt = next_bio (bios h b)" "h' = release ?d b" using assms(2) by (auto simp: destroy_bio_def BIO_pop_def Let_def)
  have "freed ?d = freed h \<and> (\<forall>c. links (bios ?d c) = links (bios ?h c))"
  proof (cases "method_of ?h (Some b) mt_destroy")
    case (Some p)
    then obtain f mt where "p = (b, f)" "bio_method (bios h b) = Some mt" "mt_destroy mt = Some f"
      by (auto simp: method_of_def split: option.splits)
    with Some assms(1) show ?thesis
      by (cases f) (auto simp: call_destroy_def links_free freed_free builtin_def)
  qed simp
  with r show ?thesis by (simp add: release_def)
qed

lemma linked_cong: "(\<And>c. c \<in> set cs \<Longrightarrow> next_bio (bios h' c) = next_bio (bios h c)) \<Longrightarrow> linked h' bio cs = linked h bio cs"
  by (induction cs arbitrary: bio) auto

lemma linksD: "links x = links y \<Longrightarrow> references x = references y \<and> next_bio x = next_bio y \<and> builtin x = builtin y"
  by (simp add: links_def builtin_def)

lemma BIO_free_chain:
  assumes "linked h bio cs" and "distinct cs" and "\<forall>c\<in>set cs. builtin (bios h c)"
    and "\<forall>c\<in>set cs. references (bios h c) \<noteq> 0 \<and> references (bios h c) \<noteq> CRYPTO_REFCOUNT_MAX"
  shows "\<exists>h'. BIO_free e h bio = Some (if \<forall>c\<in>set cs. references (bios h c) = 1 then 1 else 0, h') \<and>
    freed h' = freed h @ takeWhile (\<lambda>c. references (bios h c) = 1) cs \<and>
    (\<forall>c. c \<notin> set (takeWhile (\<lambda>c. references (bios h c) = 1) cs) \<longrightarrow>
      next_bio (bios h' c) = next_bio (bios h c) \<and>
      references (bios h' c) = references (bios h c) -
        (if find (\<lambda>c. references (bios h c) \<noteq> 1) cs = Some c then 1 else 0))"
  using assms
proof (induction cs arbitrary: h bio)
  case Nil
  then show ?case by (simp add: BIO_free.simps)
next
  case (Cons c cs)
  have bio: "bio = Some c" and l: "linked h (next_bio (bios h c)) cs" using Cons.prems(1) by simp_all
  have rc: "references (bios h c) \<noteq> 0" "references (bios h c) \<noteq> CRYPTO_REFCOUNT_MAX" using Cons.prems(4) by simp_all
  have m1: "CRYPTO_REFCOUNT_MAX = - 1" by (simp add: CRYPTO_REFCOUNT_MAX_def)
  have "references (bios h c) < CRYPTO_REFCOUNT_MAX"
    using word_order.not_eq_extremum [of "references (bios h c)"] rc(2) unfolding m1 by simp
  then have dec: "CRYPTO_refcount_dec_and_test_zero (references (bios h c)) =
      Some (references (bios h c) = 1, references (bios h c) - 1)"
    using rc(1) by (auto simp: CRYPTO_refcount_dec_and_test_zero_def Let_def)
  let ?h = "modify h c (\<lambda>x. x\<lparr>references := references (bios h c) - 1\<rparr>)"
  show ?case
  proof (cases "references (bios h c) = 1")
    case False
    then have "BIO_free e h bio = Some (0, ?h)" by (subst BIO_free.simps) (simp add: bio dec)
    then show ?thesis using False by (intro exI [of _ ?h]) (auto simp: modify_def)
  next
    case True
    obtain nxt h1 where d: "destroy_bio e ?h c = (nxt, h1)" by fastforce
    have "builtin (bios ?h c)" using Cons.prems(3) by (simp add: builtin_def)
    note D = destroy_bio_frame [OF this d]
    have step: "BIO_free e h bio = BIO_free e h1 (next_bio (bios h c))"
    proof -
      have "CRYPTO_refcount_dec_and_test_zero 1 = Some (True, 0)" using dec True by simp
      moreover have "destroy_bio e (modify h c (\<lambda>x. x\<lparr>references := 0\<rparr>)) c = (nxt, h1)" using d True by simp
      ultimately show ?thesis using D by (subst BIO_free.simps) (simp add: bio True)
    qed
    have same: "links (bios h1 x) = links (bios h x)" if "x \<noteq> c" for x using D that by simp
    have ne: "x \<noteq> c" if "x \<in> set cs" for x using Cons.prems(2) that by auto
    have S: "references (bios h1 x) = references (bios h x)" "next_bio (bios h1 x) = next_bio (bios h x)"
        "builtin (bios h1 x) = builtin (bios h x)" if "x \<noteq> c" for x
      using linksD [OF same [OF that]] by blast+
    have "linked h1 (next_bio (bios h c)) cs" using l linked_cong [of cs h1 h] S(2) ne by blast
    from Cons.IH [OF this] Cons.prems S ne obtain h' where
      H: "BIO_free e h1 (next_bio (bios h c)) = Some (if \<forall>c\<in>set cs. references (bios h1 c) = 1 then 1 else 0, h')"
        "freed h' = freed h1 @ takeWhile (\<lambda>c. references (bios h1 c) = 1) cs"
        "\<forall>c. c \<notin> set (takeWhile (\<lambda>c. references (bios h1 c) = 1) cs) \<longrightarrow>
          next_bio (bios h' c) = next_bio (bios h1 c) \<and>
          references (bios h' c) = references (bios h1 c) -
            (if find (\<lambda>c. references (bios h1 c) \<noteq> 1) cs = Some c then 1 else 0)" by auto
    have tw: "takeWhile (\<lambda>c. references (bios h1 c) = 1) cs = takeWhile (\<lambda>c. references (bios h c) = 1) cs"
      using S(1) ne by (intro takeWhile_cong) auto
    have fd: "find (\<lambda>c. references (bios h1 c) \<noteq> 1) cs = find (\<lambda>c. references (bios h c) \<noteq> 1) cs"
      using S(1) ne by (intro find_cong) auto
    have al: "(\<forall>c\<in>set cs. references (bios h1 c) = 1) \<longleftrightarrow> (\<forall>c\<in>set cs. references (bios h c) = 1)" using S(1) ne by auto
    show ?thesis
      unfolding step using H(1,2) H(3) S D True
      by (intro exI [of _ h']) (simp add: tw fd al)
  qed
qed


section \<open>Properties\<close>

text \<open>C2.
  On a memory object, \<^verbatim>\<open>BIO_read_asn1\<close> agrees with the parser of \<^verbatim>\<open>cbs.c\<close>: for an identifier of one byte and a definite length it returns exactly
  the element \<^verbatim>\<open>CBS_get_any_asn1_element\<close> finds at the start of the unread bytes, when that has no more than \<open>max_len\<close> bytes, and leaves what
  follows it; otherwise it fails.
\<close>

theorem read_asn1_like_cbs:
  assumes "malloc_spec (env_malloc e)" and "malloc_total (env_malloc e)" and "mem_ok b h" and "int max_len \<le> INT_MAX"
    and "\<forall>t s. mem_bytes b h = t # s \<longrightarrow> t AND 0x1f \<noteq> 0x1f"
    and "\<forall>t lb s. mem_bytes b h = t # lb # s \<longrightarrow> t AND 0x20 = 0 \<or> lb AND 0x80 = 0 \<or> lb AND 0x7f \<noteq> 0"
  shows "\<exists>r h'. BIO_read_asn1 e h (Some b) max_len = Some (r, h') \<and>
    (case CBS_get_any_asn1_element (mem_bytes b h) of
       (Some el, rest) \<Rightarrow>
         if length (el_out el) \<le> max_len then r = Some (el_out el) \<and> mem_ok b h' \<and> mem_bytes b h' = rest else r = None
     | (None, _) \<Rightarrow> r = None)"
proof -
  obtain r h' where B: "BIO_read_asn1 e h (Some b) max_len = Some (r, h')"
    and R: "case first_element max_len (mem_bytes b h) of
        None \<Rightarrow> r = None
      | Some (out, rest) \<Rightarrow> r = Some out \<and> mem_ok b h' \<and> mem_bytes b h' = rest"
    using mem.read_asn1_first_element [OF assms] by blast
  show ?thesis using B R by (auto simp: first_element_def split: prod.splits option.splits if_splits)
qed

lemma new_mem_buf_ok:
  assumes "BIO_new_mem_buf e h (Some bs) (int (length bs)) = (Some b, h')" and "int (length bs) \<le> INT_MAX"
  shows "mem_ok b h' \<and> mem_bytes b h' = bs"
  using assms
  by (auto simp: BIO_new_mem_buf_def BIO_new_def BIO_s_mem_def mem_method_def call_create_def mem_new_def Let_def zero_bio_def
      mem_ok_def mem_bytes_def mem_of_def rdonly_def BIO_FLAGS_MEM_RDONLY_def buf_contents_def
      split: option.splits prod.splits bool.splits)

lemma new_mem_buf: "\<exists>b h'. BIO_new_mem_buf test_env h (Some bs) (int (length bs)) = (Some b, h')"
  by (simp add: BIO_new_mem_buf_def BIO_new_def BIO_s_mem_def mem_method_def call_create_def mem_new_def BUF_MEM_new_def test_env_def
      zero_malloc_block Let_def)

lemma read_asn1_like_cbs_witness:
  "\<exists>b h r h'. BIO_new_mem_buf test_env empty_heap (Some [0x30, 3, 2, 1, 7, 9]) 6 = (Some b, h) \<and>
     BIO_read_asn1 test_env h (Some b) 100 = Some (r, h') \<and> r = Some [0x30, 3, 2, 1, 7] \<and> mem_bytes b h' = [9]"
proof -
  let ?bs = "[0x30, 3, 2, 1, 7, 9] :: bytes"
  obtain b h where "BIO_new_mem_buf test_env empty_heap (Some ?bs) (int (length ?bs)) = (Some b, h)" using new_mem_buf by blast
  then have n: "BIO_new_mem_buf test_env empty_heap (Some ?bs) 6 = (Some b, h)" by simp
  have ok: "mem_ok b h" "mem_bytes b h = ?bs" using new_mem_buf_ok [of test_env empty_heap ?bs b h] n by (simp_all add: INT_MAX_def)
  have el: "CBS_get_any_asn1_element ?bs = (Some \<lparr>el_out = [0x30, 3, 2, 1, 7], el_tag = 0x20000010, el_header_len = 2\<rparr>, [9])"
    using CBS_get_any_asn1_element_tlv [of "[2, 1, 7]" "0x20000010" "[9]"]
    by (simp add: asn1_tlv_def asn1_header_def asn1_identifier_def asn1_length_def CBS_ASN1_TAG_SHIFT_def
        CBS_ASN1_TAG_NUMBER_MASK_def)
  have "malloc_spec (env_malloc test_env)" "malloc_total (env_malloc test_env)" "int 100 \<le> INT_MAX"
    by (simp_all add: test_env_def INT_MAX_def)
  from read_asn1_like_cbs [OF this(1,2) ok(1) this(3)] obtain r h' where
    "BIO_read_asn1 test_env h (Some b) 100 = Some (r, h')" "r = Some [0x30, 3, 2, 1, 7]" "mem_bytes b h' = [9]"
    unfolding ok(2) el by auto
  with n show ?thesis by blast
qed

text \<open>C4.
  A writable memory object is a queue: over any sequence of writes and reads, what it held and what was accepted is what was read and what
  it still holds, in order, whatever allocations fail.
\<close>

theorem memory_object_is_a_queue:
  assumes "mem_rw (env_malloc e) b h" and "\<forall>x\<in>set ops. op_short x" and "traffic e b b ops h = (sent, got, h')"
  shows "mem_bytes b h @ sent = got @ mem_bytes b h'"
  using mem_rw.conservation [OF assms] by blast

lemma new_mem_ok:
  assumes "BIO_new e h BIO_s_mem = (Some b, h')" and "malloc_spec (env_malloc e)"
  shows "mem_rw (env_malloc e) b h' \<and> mem_bytes b h' = []"
  using assms
  by (auto simp: BIO_new_def BIO_s_mem_def mem_method_def call_create_def mem_new_def BUF_MEM_new_def Let_def zero_bio_def
      mem_rw_def mem_ok_def mem_bytes_def mem_of_def rdonly_def INT_MAX_def buf_ok_def buf_contents_def
      split: option.splits prod.splits bool.splits)

lemma memory_object_is_a_queue_witness:
  "\<exists>b h sent got h'. BIO_new test_env empty_heap BIO_s_mem = (Some b, h) \<and>
     traffic test_env b b [Send [1, 2, 3], Receive 2, Send [4], Receive 9] h = (sent, got, h') \<and> sent = got @ mem_bytes b h'"
proof -
  have "\<exists>b h. BIO_new test_env empty_heap BIO_s_mem = (Some b, h)"
    by (simp add: BIO_new_def BIO_s_mem_def mem_method_def call_create_def mem_new_def BUF_MEM_new_def test_env_def
        zero_malloc_block Let_def)
  then obtain b h where n: "BIO_new test_env empty_heap BIO_s_mem = (Some b, h)" by blast
  have ok: "mem_rw (env_malloc test_env) b h" "mem_bytes b h = []" using new_mem_ok [OF n] by (simp_all add: test_env_def)
  let ?ops = "[Send [1, 2, 3], Receive 2, Send [4], Receive 9]"
  obtain sent got h' where t: "traffic test_env b b ?ops h = (sent, got, h')" by (metis prod_cases3)
  have "\<forall>x\<in>set ?ops. op_short x" by (simp add: op_short_def)
  from memory_object_is_a_queue [OF ok(1) this t] ok(2) have "sent = got @ mem_bytes b h'" by simp
  with n t show ?thesis by metis
qed

text \<open>C3.
  \<^verbatim>\<open>BIO_free\<close> on a chain ends and frees exactly the objects up to the first one that has another reference, each once and in order; that one
  loses a reference, and the rest of the chain is untouched.
\<close>

theorem free_stops_at_shared:
  assumes "linked h bio cs" and "distinct cs" and "\<forall>c\<in>set cs. builtin (bios h c)"
    and "\<forall>c\<in>set cs. references (bios h c) \<noteq> 0 \<and> references (bios h c) \<noteq> CRYPTO_REFCOUNT_MAX"
  shows "\<exists>h'. BIO_free e h bio = Some (if \<forall>c\<in>set cs. references (bios h c) = 1 then 1 else 0, h') \<and>
    freed h' = freed h @ takeWhile (\<lambda>c. references (bios h c) = 1) cs \<and>
    (\<forall>c. c \<notin> set (takeWhile (\<lambda>c. references (bios h c) = 1) cs) \<longrightarrow>
      next_bio (bios h' c) = next_bio (bios h c) \<and>
      references (bios h' c) = references (bios h c) -
        (if find (\<lambda>c. references (bios h c) \<noteq> 1) cs = Some c then 1 else 0))"
  by (rule BIO_free_chain [OF assms])

definition shared_chain :: heap where
  "shared_chain = empty_heap\<lparr>bios := (\<lambda>_. zero_bio)(0 := zero_bio\<lparr>references := 1, next_bio := Some 1\<rparr>,
     1 := zero_bio\<lparr>references := 2, next_bio := Some 2\<rparr>, 2 := zero_bio\<lparr>references := 1\<rparr>)\<rparr>"

lemma free_stops_at_shared_witness:
  "\<exists>h'. BIO_free test_env shared_chain (Some 0) = Some (0, h') \<and> freed h' = [0] \<and> references (bios h' 1) = 1 \<and>
     references (bios h' 2) = 1"
proof -
  have r: "references (bios shared_chain 0) = 1" "references (bios shared_chain 1) = 2" "references (bios shared_chain 2) = 1"
    by (simp_all add: shared_chain_def)
  have "linked shared_chain (Some 0) [0, 1, 2]" "distinct [0, 1, 2 :: nat]" "\<forall>c\<in>set [0, 1, 2]. builtin (bios shared_chain c)"
      "\<forall>c\<in>set [0, 1, 2]. references (bios shared_chain c) \<noteq> 0 \<and> references (bios shared_chain c) \<noteq> CRYPTO_REFCOUNT_MAX"
    by (simp_all add: shared_chain_def zero_bio_def builtin_def CRYPTO_REFCOUNT_MAX_def)
  note T = free_stops_at_shared [OF this, of test_env]
  have tw: "takeWhile (\<lambda>c. references (bios shared_chain c) = 1) [0, 1, 2] = [0]"
    "find (\<lambda>c. references (bios shared_chain c) \<noteq> 1) [0, 1, 2] = Some 1" "\<not> (\<forall>c\<in>set [0, 1, 2]. references (bios shared_chain c) = 1)"
    using r by simp_all
  obtain h' where H: "BIO_free test_env shared_chain (Some 0) = Some (0, h')" "freed h' = freed shared_chain @ [0]"
      "\<forall>c. c \<notin> set [0] \<longrightarrow> next_bio (bios h' c) = next_bio (bios shared_chain c) \<and>
        references (bios h' c) = references (bios shared_chain c) - (if Some 1 = Some c then 1 else 0)"
    using T [unfolded tw(1,2) if_not_P [OF tw(3)]] by (elim exE conjE)
  have "references (bios h' 1) = 2 - 1" "references (bios h' 2) = 1" using H(3) [THEN spec, of 1] H(3) [THEN spec, of 2] r by simp_all
  moreover have "freed shared_chain = []" by (simp add: shared_chain_def empty_heap_def)
  ultimately show ?thesis using H(1,2) by simp
qed

end
