(* ===== verification/BlockWords.thy ===== *)
theory BlockWords
  imports Mem Blocks
begin

text \<open>
  What the block cipher modes share: the word accesses of \<^verbatim>\<open>fipsmodule/modes/internal.h\<close> and of \<^verbatim>\<open>crypto/internal.h\<close>, and the exclusive or
  of byte strings, to which the modes' word-wise loops are shown equal.  The platform is the portable build on a little-endian 64-bit
  machine that allows unaligned access (\<^verbatim>\<open>OPENSSL_NO_ASM\<close>, \<^verbatim>\<open>STRICT_ALIGNMENT\<close> 0).  A block cipher with its key is a function \<open>E\<close>
  from blocks to blocks, as the modes get it as a function pointer.
\<close>

text \<open>A function that maps blocks to blocks.\<close>

definition block_fun :: "(bytes \<Rightarrow> bytes) \<Rightarrow> bool" where
  "block_fun E \<longleftrightarrow> (\<forall>b. length b = 16 \<longrightarrow> length (E b) = 16)"

lemma block_funD: "block_fun E \<Longrightarrow> length b = 16 \<Longrightarrow> length (E b) = 16"
  by (simp add: block_fun_def)

section \<open>Exclusive or of byte strings\<close>

definition xor_bytes :: "bytes \<Rightarrow> bytes \<Rightarrow> bytes" where
  "xor_bytes xs ys = map2 (XOR) xs ys"

lemma length_xor_bytes [simp]: "length (xor_bytes xs ys) = min (length xs) (length ys)"
  by (simp add: xor_bytes_def)

lemma nth_xor_bytes [simp]: "i < length xs \<Longrightarrow> i < length ys \<Longrightarrow> xor_bytes xs ys ! i = xs ! i XOR ys ! i"
  by (simp add: xor_bytes_def)

lemma xor_bytes_simps [simp]:
  "xor_bytes [] ys = []" "xor_bytes xs [] = []"
  "xor_bytes (x # xs) (y # ys) = (x XOR y) # xor_bytes xs ys"
  by (simp_all add: xor_bytes_def)

lemma take_xor_bytes: "take n (xor_bytes xs ys) = xor_bytes (take n xs) (take n ys)"
  by (simp add: xor_bytes_def take_map take_zip)

lemma drop_xor_bytes: "drop n (xor_bytes xs ys) = xor_bytes (drop n xs) (drop n ys)"
  by (simp add: xor_bytes_def drop_map drop_zip)

lemma xor_bytes_append:
  "length xs = length ys \<Longrightarrow> xor_bytes (xs @ xs') (ys @ ys') = xor_bytes xs ys @ xor_bytes xs' ys'"
  by (simp add: xor_bytes_def)

lemma xor_bytes_commute: "xor_bytes xs ys = xor_bytes ys xs"
  by (rule nth_equalityI) (simp_all add: xor.commute)

lemma xor_bytes_cancel: "length xs \<le> length ys \<Longrightarrow> xor_bytes (xor_bytes xs ys) ys = xs"
  by (rule nth_equalityI) (simp_all add: xor.assoc)

lemma xor_bytes_zero: "length xs \<le> n \<Longrightarrow> xor_bytes xs (replicate n 0) = xs"
  by (rule nth_equalityI) simp_all

section \<open>Reading and writing memory\<close>

text \<open>The 16 bytes at an address.\<close>

definition block_at :: "bytes \<Rightarrow> nat \<Rightarrow> bytes" where
  "block_at buf p = take 16 (drop p buf)"

lemma length_block_at [simp]: "p + 16 \<le> length buf \<Longrightarrow> length (block_at buf p) = 16"
  by (simp add: block_at_def)

lemma block_at_read: "p + 16 \<le> length buf \<Longrightarrow> i < 16 \<Longrightarrow> block_at buf p ! i = buf ! (p + i)"
  by (simp add: block_at_def)

lemma read_untouched:
  assumes "p + n \<le> q \<or> q + length bs \<le> p" and "q + length bs \<le> length buf"
  shows "take n (drop p (mem_write buf q bs)) = take n (drop p buf)"
proof (rule nth_equalityI)
  show "length (take n (drop p (mem_write buf q bs))) = length (take n (drop p buf))"
    using assms(2) by (simp add: length_mem_write)
  fix i assume "i < length (take n (drop p (mem_write buf q bs)))"
  then have "i < n" "p + i < length buf" using assms(2) by (auto simp: length_mem_write)
  with assms show "take n (drop p (mem_write buf q bs)) ! i = take n (drop p buf) ! i"
    by (auto simp: nth_mem_write length_mem_write)
qed

lemma read_written: "q + length bs \<le> length buf \<Longrightarrow> take (length bs) (drop q (mem_write buf q bs)) = bs"
  by (simp add: mem_write_def)

lemma mem_write_append:
  "p + length xs \<le> length buf \<Longrightarrow> mem_write (mem_write buf p xs) (p + length xs) ys = mem_write buf p (xs @ ys)"
  by (simp add: mem_write_def ac_simps)

lemma mem_write_again:
  "p + length xs \<le> length buf \<Longrightarrow> length xs = length ys \<Longrightarrow> mem_write (mem_write buf p xs) p ys = mem_write buf p ys"
  by (simp add: mem_write_def)

lemma mem_write_Nil [simp]: "mem_write buf p [] = buf"
  by (simp add: mem_write_def)

text \<open>A loop that fills a range byte by byte, as long as no byte it writes is read later.\<close>

lemma fold_update:
  assumes "j \<le> k" and "p + k \<le> length buf"
    and "\<And>n d. j + length d \<le> n \<Longrightarrow> n < k \<Longrightarrow> g (mem_write buf (p + j) d) n = g buf n"
  shows "fold (\<lambda>n buf. buf[p + n := g buf n]) [j..<k] buf = mem_write buf (p + j) (map (g buf) [j..<k])"
  using assms
proof (induction k)
  case (Suc k)
  show ?case
  proof (cases "j = Suc k")
    case False
    with Suc.prems(1) have j: "j \<le> k" by simp
    let ?d = "map (g buf) [j..<k]" and ?buf = "mem_write buf (p + j) (map (g buf) [j..<k])"
    have l: "length ?buf = length buf" using Suc.prems(2) j by (simp add: length_mem_write)
    have "g ?buf k = g buf k" using Suc.prems(3) [of ?d k] j by simp
    then have "?buf[p + k := g ?buf k] = mem_write ?buf (p + k) [g buf k]"
      using Suc.prems(2) l by (simp add: mem_write_one)
    also have "\<dots> = mem_write buf (p + j) (?d @ [g buf k])"
      using mem_write_append [of "p + j" ?d buf] Suc.prems(2) j by simp
    finally show ?thesis using Suc.IH [OF j] Suc.prems j by simp
  qed simp
qed simp

section \<open>Word accesses\<close>

definition load_word_le :: "bytes \<Rightarrow> nat \<Rightarrow> u64" where
  "load_word_le buf p = of_nat (le_nat (take 8 (drop p buf)))"

definition store_word_le :: "bytes \<Rightarrow> nat \<Rightarrow> u64 \<Rightarrow> bytes" where
  "store_word_le buf p v = mem_write buf p (le_bytes 8 (unat v))"

text \<open>The byte swaps, as the fallback of \<^verbatim>\<open>crypto/internal.h\<close> writes them out.\<close>

definition CRYPTO_bswap4 :: "u32 \<Rightarrow> u32" where
  "CRYPTO_bswap4 x =
     (let x = drop_bit 16 x OR push_bit 16 x;
          x = (drop_bit 8 (x AND 0xff00ff00)) OR (push_bit 8 (x AND 0x00ff00ff))
      in x)"

definition CRYPTO_bswap8 :: "u64 \<Rightarrow> u64" where
  "CRYPTO_bswap8 x = ucast (CRYPTO_bswap4 (ucast (drop_bit 32 x))) OR push_bit 32 (ucast (CRYPTO_bswap4 (ucast x)))"

definition GETU32 :: "bytes \<Rightarrow> u32" where
  "GETU32 inp = CRYPTO_bswap4 (of_nat (le_nat (take 4 inp)))"

definition PUTU32 :: "bytes \<Rightarrow> nat \<Rightarrow> u32 \<Rightarrow> bytes" where
  "PUTU32 out p v = mem_write out p (le_bytes 4 (unat (CRYPTO_bswap4 v)))"

lemma bit_byte_high: "i \<ge> 8 \<Longrightarrow> \<not> bit (unat (b::u8)) i"
  by (auto simp: bit_unsigned_iff dest!: bit_imp_le_length)

lemma bit_le_nat: "bit (le_nat bs) i \<longleftrightarrow> i div 8 < length bs \<and> bit (bs ! (i div 8)) (i mod 8)"
proof (induction bs arbitrary: i)
  case (Cons b bs)
  have "unat b + 256 * le_nat bs = unat b OR push_bit 8 (le_nat bs)"
  proof -
    have "unat b AND push_bit 8 (le_nat bs) = 0"
      by (rule bit_eqI) (metis bit_0_eq bit_and_iff bit_byte_high bit_push_bit_iff bot_apply bot_bool_def)
    then have "unat b + push_bit 8 (le_nat bs) = unat b OR push_bit 8 (le_nat bs)" by (rule disjunctive_add_eq_or)
    then show ?thesis by (simp add: push_bit_eq_mult mult.commute)
  qed
  then have "bit (le_nat (b # bs)) i \<longleftrightarrow> bit (unat b) i \<or> (8 \<le> i \<and> bit (le_nat bs) (i - 8))"
    by (simp add: bit_simps)
  also have "\<dots> \<longleftrightarrow> i div 8 < length (b # bs) \<and> bit ((b # bs) ! (i div 8)) (i mod 8)"
  proof (cases "i < 8")
    case True
    then show ?thesis by (simp add: bit_unsigned_iff)
  next
    case False
    then have "i div 8 = Suc ((i - 8) div 8)" "(i - 8) mod 8 = i mod 8" by (simp_all add: le_div_geq le_mod_geq)
    with False Cons show ?thesis by (simp add: bit_byte_high)
  qed
  finally show ?case .
qed simp

lemma bit_word_of_nat: "bit (of_nat n :: 'a::len word) j \<longleftrightarrow> j < LENGTH('a) \<and> bit n j"
proof -
  have "bit (of_nat n :: 'a word) j \<longleftrightarrow> bit (unat (of_nat n :: 'a word)) j"
    by (auto simp: bit_unsigned_iff dest: bit_imp_le_length)
  then show ?thesis by (simp add: unat_of_nat bit_take_bit_iff flip: take_bit_eq_mod)
qed

lemma bit_nth_le_bytes: "i < n \<Longrightarrow> j < 8 \<Longrightarrow> bit (le_bytes n v ! i) j \<longleftrightarrow> bit v (8 * i + j)"
proof (induction n arbitrary: i v)
  case (Suc n)
  have b: "bit (of_nat v :: u8) j \<longleftrightarrow> bit v j" using Suc.prems(2) by (simp add: bit_word_of_nat)
  show ?case
  proof (cases i)
    case 0
    then show ?thesis using b by simp
  next
    case (Suc k)
    have "v div 256 = drop_bit 8 v" by (simp add: drop_bit_eq_div)
    then show ?thesis using Suc Suc.IH [of k "v div 256"] Suc.prems by (simp add: bit_simps add.assoc)
  qed
qed simp

lemma xor_le_words:
  assumes "length xs = 8" and "length ys = 8"
  shows "le_bytes 8 (unat ((of_nat (le_nat xs) :: u64) XOR of_nat (le_nat ys))) = xor_bytes xs ys"
proof (rule nth_equalityI)
  show "length (le_bytes 8 (unat ((of_nat (le_nat xs) :: u64) XOR of_nat (le_nat ys)))) = length (xor_bytes xs ys)"
    using assms by simp
  fix i
  assume "i < length (le_bytes 8 (unat ((of_nat (le_nat xs) :: u64) XOR of_nat (le_nat ys))))"
  then have i: "i < 8" by simp
  show "le_bytes 8 (unat ((of_nat (le_nat xs) :: u64) XOR of_nat (le_nat ys))) ! i = xor_bytes xs ys ! i"
  proof (rule bit_eqI)
    fix j
    assume "possible_bit TYPE(8 word) j"
    then have j: "j < 8" by simp
    with i have "8 * i + j < 64" "(8 * i + j) div 8 = i" "(8 * i + j) mod 8 = j" by simp_all
    with i j assms show "bit (le_bytes 8 (unat ((of_nat (le_nat xs) :: u64) XOR of_nat (le_nat ys))) ! i) j = bit (xor_bytes xs ys ! i) j"
      by (simp add: bit_nth_le_bytes bit_simps bit_le_nat bit_word_of_nat)
  qed
qed

section \<open>Big-endian words\<close>

lemma be_nat_rev: "be_nat xs = le_nat (rev xs)"
proof (induction xs rule: rev_induct)
  case (snoc b bs)
  then show ?case by (simp add: mult.commute)
qed simp

lemma be_bytes_mod: "be_bytes n (v mod 256 ^ n) = be_bytes n v"
  by (metis be_bytes_be_nat be_nat_be_bytes length_be_bytes)

lemma be_bytes_append: "be_bytes (m + n) v = be_bytes m (v div 256 ^ n) @ be_bytes n v"
  by (induction n arbitrary: v) (simp_all add: div_mult2_eq)

lemma bit_bswap4:
  assumes "j < 32"
  shows "bit (CRYPTO_bswap4 x) j \<longleftrightarrow> bit x (8 * (3 - j div 8) + j mod 8)"
proof -
  have "j \<in> set [0..<32]" using assms by simp
  moreover have "\<not> bit x k" if "32 \<le> k" for k using that by (auto dest: bit_imp_le_length)
  ultimately show ?thesis
    unfolding CRYPTO_bswap4_def Let_def
    by (simp add: upt_rec del: set_upt) (elim disjE; simp add: bit_simps bit_numeral_rec; simp add: eval_nat_numeral)
qed

lemma bit_bswap8:
  assumes "j < 64"
  shows "bit (CRYPTO_bswap8 x) j \<longleftrightarrow> bit x (8 * (7 - j div 8) + j mod 8)"
proof (cases "j < 32")
  case True
  define e where "e = 3 - j div 8"
  have "7 - j div 8 = 4 + e" using less_mult_imp_div_less [of j 4 8] True by (simp add: e_def)
  moreover have "j mod 8 + 8 * e < 32" unfolding e_def by linarith
  ultimately show ?thesis using True by (simp add: CRYPTO_bswap8_def bit_simps bit_bswap4 ac_simps flip: e_def)
next
  case False
  define k where "k = j - 32"
  with False assms have j: "j = k + 32" "k < 32" by simp_all
  have "(k + 32) div 8 = k div 8 + 4" "(k + 32) mod 8 = k mod 8" by (simp, presburger)
  moreover have "8 * (3 - k div 8) + k mod 8 < 32" by linarith
  moreover have "\<not> bit (y :: u32) (k + 32)" for y by (auto dest: bit_imp_le_length)
  ultimately show ?thesis using j by (simp add: CRYPTO_bswap8_def bit_simps bit_bswap4)
qed

text \<open>Swapping what was loaded from memory gives the big-endian number.\<close>

lemma bit_be_nat: "bit (be_nat bs) i \<longleftrightarrow> i div 8 < length bs \<and> bit (bs ! (length bs - Suc (i div 8))) (i mod 8)"
  by (auto simp: be_nat_rev bit_le_nat rev_nth)

lemma bswap4_loaded:
  assumes "length bs = 4"
  shows "CRYPTO_bswap4 (of_nat (le_nat bs)) = of_nat (be_nat bs)"
proof (rule bit_eqI)
  fix j
  assume "possible_bit TYPE(32 word) j"
  then have j: "j < 32" by simp
  then have "8 * (3 - j div 8) + j mod 8 < 32" by linarith
  moreover have "(8 * (3 - j div 8) + j mod 8) div 8 = 3 - j div 8" by simp
  moreover have "(8 * (3 - j div 8) + j mod 8) mod 8 = j mod 8" by simp
  ultimately show "bit (CRYPTO_bswap4 (of_nat (le_nat bs))) j = bit (of_nat (be_nat bs) :: u32) j"
    using assms j by (simp add: bit_bswap4 bit_word_of_nat bit_le_nat bit_be_nat less_mult_imp_div_less)
qed

lemma bswap8_loaded:
  assumes "length bs = 8"
  shows "CRYPTO_bswap8 (of_nat (le_nat bs)) = of_nat (be_nat bs)"
proof (rule bit_eqI)
  fix j
  assume "possible_bit TYPE(64 word) j"
  then have j: "j < 64" by simp
  then have "8 * (7 - j div 8) + j mod 8 < 64" by linarith
  moreover have "(8 * (7 - j div 8) + j mod 8) div 8 = 7 - j div 8" by simp
  moreover have "(8 * (7 - j div 8) + j mod 8) mod 8 = j mod 8" by simp
  ultimately show "bit (CRYPTO_bswap8 (of_nat (le_nat bs))) j = bit (of_nat (be_nat bs) :: u64) j"
    using assms j by (simp add: bit_bswap8 bit_word_of_nat bit_le_nat bit_be_nat less_mult_imp_div_less)
qed

lemma le_word_bytes: "length bs = 4 \<Longrightarrow> unat (of_nat (le_nat bs) :: u32) = le_nat bs"
  "length bs' = 8 \<Longrightarrow> unat (of_nat (le_nat bs') :: u64) = le_nat bs'"
  using le_nat_less [of bs] le_nat_less [of bs'] by (simp_all add: unat_of_nat)

lemma bswap4_stored: "le_bytes 4 (unat (CRYPTO_bswap4 v)) = be_bytes 4 (unat v)"
proof -
  let ?bs = "rev (be_bytes 4 (unat v))"
  have "le_nat ?bs = unat v" using unsigned_less [of v, where ?'a = nat] by (simp add: be_nat_be_bytes flip: be_nat_rev)
  then have "v = of_nat (le_nat ?bs)" by simp
  then have "CRYPTO_bswap4 v = of_nat (be_nat ?bs)" using bswap4_loaded [of ?bs] by simp
  then show ?thesis using le_bytes_le_nat [of "rev ?bs"] by (simp add: be_nat_rev le_word_bytes)
qed

lemma bswap8_stored: "le_bytes 8 (unat (CRYPTO_bswap8 v)) = be_bytes 8 (unat v)"
proof -
  let ?bs = "rev (be_bytes 8 (unat v))"
  have "le_nat ?bs = unat v" using unsigned_less [of v, where ?'a = nat] by (simp add: be_nat_be_bytes flip: be_nat_rev)
  then have "v = of_nat (le_nat ?bs)" by simp
  then have "CRYPTO_bswap8 v = of_nat (be_nat ?bs)" using bswap8_loaded [of ?bs] by simp
  then show ?thesis using le_bytes_le_nat [of "rev ?bs"] by (simp add: be_nat_rev le_word_bytes)
qed

lemma GETU32_be: "4 \<le> length bs \<Longrightarrow> GETU32 bs = of_nat (be_nat (take 4 bs))"
  by (simp add: GETU32_def bswap4_loaded)

lemma PUTU32_be: "PUTU32 out p v = mem_write out p (be_bytes 4 (unat v))"
  by (simp add: PUTU32_def bswap4_stored)

end
