(* ===== verification/Ghash.thy ===== *)
theory Ghash
  imports BlockWords
begin

text \<open>
  The multiplication of \<^verbatim>\<open>fipsmodule/modes/gcm.c\<close> in the field of GHASH: the table of the sixteen multiples of the key, the multiplication that
  takes the other factor four bits at a time with a table of remainders, and its streamed form.  \<open>gf_mult\<close> is the bit by bit algorithm of
  NIST SP 800-38D (section 6.3) on 128-bit words, most significant bit first; the code is shown to compute it.  The two words of a \<^verbatim>\<open>uint64_t Xi[2]\<close>
  that the code also accesses as bytes are the list of their 16 bytes.
\<close>

section \<open>The code\<close>

record u128 =
  u_hi :: u64
  u_lo :: u64

definition REDUCE1BIT :: "u128 \<Rightarrow> u128" where
  "REDUCE1BIT V =
     (let T = 0xe100000000000000 AND (0 - (u_lo V AND 1));
          V = V\<lparr>u_lo := push_bit 63 (u_hi V) OR drop_bit 1 (u_lo V)\<rparr>
      in V\<lparr>u_hi := drop_bit 1 (u_hi V) XOR T\<rparr>)"

definition xor_u128 :: "u128 \<Rightarrow> u128 \<Rightarrow> u128" where
  "xor_u128 V W = \<lparr>u_hi = u_hi V XOR u_hi W, u_lo = u_lo V XOR u_lo W\<rparr>"

definition gcm_init_4bit :: "u128 list \<Rightarrow> u64 \<Rightarrow> u64 \<Rightarrow> u128 list" where
  "gcm_init_4bit Htable H0 H1 =
     (let T = Htable[0 := \<lparr>u_hi = 0, u_lo = 0\<rparr>];
          V = \<lparr>u_hi = H0, u_lo = H1\<rparr>;
          T = T[8 := V];
          V = REDUCE1BIT V; T = T[4 := V];
          V = REDUCE1BIT V; T = T[2 := V];
          V = REDUCE1BIT V; T = T[1 := V];
          T = T[3 := xor_u128 V (T ! 2)];
          V = T ! 4;
          T = T[5 := xor_u128 V (T ! 1)];
          T = T[6 := xor_u128 V (T ! 2)];
          T = T[7 := xor_u128 V (T ! 3)];
          V = T ! 8;
          T = T[9 := xor_u128 V (T ! 1)];
          T = T[10 := xor_u128 V (T ! 2)];
          T = T[11 := xor_u128 V (T ! 3)];
          T = T[12 := xor_u128 V (T ! 4)];
          T = T[13 := xor_u128 V (T ! 5)];
          T = T[14 := xor_u128 V (T ! 6)]
      in T[15 := xor_u128 V (T ! 7)])"

definition PACK :: "u64 \<Rightarrow> u64" where
  "PACK s = push_bit 48 s"

definition rem_4bit :: "u64 list" where
  "rem_4bit = map PACK
     [0x0000, 0x1C20, 0x3840, 0x2460, 0x7080, 0x6CA0, 0x48C0, 0x54E0,
      0xE100, 0xFD20, 0xD940, 0xC560, 0x9180, 0x8DA0, 0xA9C0, 0xB5E0]"

text \<open>One step of the loops: shift \<open>Z\<close> by four bits, reduce, and add an entry of the table.\<close>

definition gcm_step_4bit :: "u128 list \<Rightarrow> u128 \<Rightarrow> u8 \<Rightarrow> u128" where
  "gcm_step_4bit Htable Z n =
     (let rem = unat (u_lo Z AND 0xf);
          Z = Z\<lparr>u_lo := push_bit 60 (u_hi Z) OR drop_bit 4 (u_lo Z)\<rparr>;
          Z = Z\<lparr>u_hi := drop_bit 4 (u_hi Z)\<rparr>;
          Z = Z\<lparr>u_hi := u_hi Z XOR rem_4bit ! rem\<rparr>
      in xor_u128 Z (Htable ! unat n))"

text \<open>The loop \<^verbatim>\<open>while (1)\<close> over the bytes \<open>x cnt\<close>, from the last to the first.\<close>

fun gcm_loop_4bit :: "u128 list \<Rightarrow> (nat \<Rightarrow> u8) \<Rightarrow> nat \<Rightarrow> u8 \<Rightarrow> u128 \<Rightarrow> u128" where
  "gcm_loop_4bit Htable x 0 nhi Z = gcm_step_4bit Htable Z nhi"
| "gcm_loop_4bit Htable x (Suc cnt) nhi Z =
     (let Z = gcm_step_4bit Htable Z nhi;
          nlo = x cnt;
          nhi = drop_bit 4 nlo;
          Z = gcm_step_4bit Htable Z (nlo AND 0xf)
      in gcm_loop_4bit Htable x cnt nhi Z)"

definition gcm_mult_4bit :: "u128 list \<Rightarrow> (nat \<Rightarrow> u8) \<Rightarrow> u128" where
  "gcm_mult_4bit Htable x = gcm_loop_4bit Htable x 15 (drop_bit 4 (x 15)) (Htable ! unat (x 15 AND 0xf))"

text \<open>\<^verbatim>\<open>Xi[0] = CRYPTO_bswap8(Z.hi); Xi[1] = CRYPTO_bswap8(Z.lo)\<close>.\<close>

definition store_u128 :: "bytes \<Rightarrow> u128 \<Rightarrow> bytes" where
  "store_u128 Xi Z = store_word_le (store_word_le Xi 0 (CRYPTO_bswap8 (u_hi Z))) 8 (CRYPTO_bswap8 (u_lo Z))"

definition gcm_gmult_4bit :: "bytes \<Rightarrow> u128 list \<Rightarrow> bytes" where
  "gcm_gmult_4bit Xi Htable = store_u128 Xi (gcm_mult_4bit Htable (\<lambda>cnt. Xi ! cnt))"

function gcm_ghash_4bit :: "bytes \<Rightarrow> u128 list \<Rightarrow> bytes \<Rightarrow> bytes" where
  "gcm_ghash_4bit Xi Htable inp =
     (let Xi = store_u128 Xi (gcm_mult_4bit Htable (\<lambda>cnt. Xi ! cnt XOR inp ! cnt))
      in if length inp \<le> 16 then Xi else gcm_ghash_4bit Xi Htable (drop 16 inp))"
  by auto
termination by (relation "measure (\<lambda>(Xi, Htable, inp). length inp)") auto

declare gcm_ghash_4bit.simps [simp del]

text \<open>Setting up, in the portable build: the two functions, the key in host byte order, the table, and whether the functions are the AVX ones.\<close>

type_synonym gmult_func = "bytes \<Rightarrow> u128 list \<Rightarrow> bytes"
type_synonym ghash_func = "bytes \<Rightarrow> u128 list \<Rightarrow> bytes \<Rightarrow> bytes"

definition CRYPTO_ghash_init :: "u128 list \<Rightarrow> bytes \<Rightarrow> gmult_func \<times> ghash_func \<times> u128 \<times> u128 list \<times> bool" where
  "CRYPTO_ghash_init out_table gcm_key =
     (let H0 = CRYPTO_bswap8 (load_word_le gcm_key 0);
          H1 = CRYPTO_bswap8 (load_word_le gcm_key 8)
      in (gcm_gmult_4bit, gcm_ghash_4bit, \<lparr>u_hi = H0, u_lo = H1\<rparr>, gcm_init_4bit out_table H0 H1, False))"

section \<open>The field\<close>

text \<open>Multiplication by \<open>x\<close>, and the algorithm of the standard.\<close>

definition gf_R :: "128 word" where
  "gf_R = push_bit 120 0xe1"

definition mulx :: "128 word \<Rightarrow> 128 word" where
  "mulx v = drop_bit 1 v XOR (if bit v 0 then gf_R else 0)"

definition gf_mult :: "128 word \<Rightarrow> 128 word \<Rightarrow> 128 word" where
  "gf_mult x y = fst (fold (\<lambda>i (Z, V). (if bit x (127 - i) then Z XOR V else Z, mulx V)) [0..<128] (0, y))"

text \<open>The product with a factor given by its bits, by Horner's rule.\<close>

primrec gf_bits :: "bool list \<Rightarrow> 128 word \<Rightarrow> 128 word" where
  "gf_bits [] y = 0"
| "gf_bits (b # bs) y = (if b then y else 0) XOR mulx (gf_bits bs y)"

lemma mulx_0 [simp]: "mulx 0 = 0"
  by (simp add: mulx_def)

lemma mulx_xor: "mulx (v XOR w) = mulx v XOR mulx w"
  by (cases "bit v 0"; cases "bit w 0") (simp_all add: mulx_def drop_bit_xor bit_xor_iff ac_simps)

lemma mulx_pow_xor: "(mulx ^^ n) (v XOR w) = (mulx ^^ n) v XOR (mulx ^^ n) w"
  by (induction n) (simp_all add: mulx_xor)

lemma mulx_pow_0 [simp]: "(mulx ^^ n) 0 = 0"
  by (induction n) simp_all

lemma gf_bits_mulx: "gf_bits bs (mulx y) = mulx (gf_bits bs y)"
  by (induction bs) (simp_all add: mulx_xor)

lemma gf_bits_append: "gf_bits (xs @ ys) y = gf_bits xs y XOR (mulx ^^ length xs) (gf_bits ys y)"
  by (induction xs) (simp_all add: mulx_xor xor.assoc)

lemma gf_fold: "fst (fold (\<lambda>i (Z, V). (if f i then Z XOR V else Z, mulx V)) is (Z, V)) = Z XOR gf_bits (map f is) V"
  by (induction "is" arbitrary: Z V) (simp_all add: gf_bits_mulx xor.assoc)

lemma gf_mult_bits: "gf_mult x y = gf_bits (map (\<lambda>i. bit x (127 - i)) [0..<128]) y"
  unfolding gf_mult_def gf_fold by simp

text \<open>The number that two words stand for, and that of a block.\<close>

definition u128_word :: "u128 \<Rightarrow> 128 word" where
  "u128_word V = push_bit 64 (ucast (u_hi V)) OR ucast (u_lo V)"

definition block_word :: "bytes \<Rightarrow> 128 word" where
  "block_word b = of_nat (be_nat b)"

lemma bit_u128_word: "bit (u128_word V) j \<longleftrightarrow> j < 128 \<and> (if j < 64 then bit (u_lo V) j else bit (u_hi V) (j - 64))"
proof -
  have "\<not> bit (w :: u64) k" if "64 \<le> k" for w k using that by (auto dest: bit_imp_le_length)
  then show ?thesis by (auto simp: u128_word_def bit_simps)
qed

lemma u128_word_xor: "u128_word (xor_u128 V W) = u128_word V XOR u128_word W"
  by (rule bit_eqI) (auto simp: bit_u128_word xor_u128_def bit_xor_iff)

section \<open>Shifting and reducing\<close>

lemma bit_word_overflow: "LENGTH('a) \<le> n \<Longrightarrow> \<not> bit (w :: 'a::len word) n"
  by (auto dest: bit_imp_le_length)

lemma u128_word_REDUCE1BIT: "u128_word (REDUCE1BIT V) = mulx (u128_word V)"
proof (rule bit_eqI)
  fix j
  assume "possible_bit TYPE(128 word) j"
  then have j: "j < 128" by simp
  define c where "c = (0xe100000000000000 :: u64)"
  have m: "gf_R = push_bit 64 (ucast c)" by (simp add: c_def gf_R_def)
  have t: "c AND (0 - (u_lo V AND 1)) = (if bit (u_lo V) 0 then c else 0)"
    by (simp add: and_one_eq bit_0 mod2_eq_if)
  have r: "u_lo (REDUCE1BIT V) = push_bit 63 (u_hi V) OR drop_bit 1 (u_lo V)"
      "u_hi (REDUCE1BIT V) = drop_bit 1 (u_hi V) XOR (if bit (u_lo V) 0 then c else 0)"
    by (simp_all add: REDUCE1BIT_def Let_def flip: c_def t)
  have n: "\<not> bit (u_lo V) (Suc j)" if "63 \<le> j" using that by (intro bit_word_overflow) simp
  have "bit (u128_word (REDUCE1BIT V)) j \<longleftrightarrow>
      (if j < 64 then (if j = 63 then bit (u_hi V) 0 else bit (u_lo V) (Suc j))
       else bit (u_hi V) (Suc (j - 64)) \<noteq> (bit (u_lo V) 0 \<and> bit c (j - 64)))"
    using j n by (auto simp: bit_u128_word r bit_or_iff bit_xor_iff bit_drop_bit_eq bit_push_bit_iff)
  moreover have "bit (mulx (u128_word V)) j \<longleftrightarrow>
      bit (u128_word V) (Suc j) \<noteq> (bit (u_lo V) 0 \<and> 64 \<le> j \<and> bit c (j - 64))"
    using j by (auto simp: mulx_def m bit_xor_iff bit_drop_bit_eq bit_push_bit_iff bit_ucast_iff bit_u128_word)
  moreover have "bit (u128_word V) (Suc j) \<longleftrightarrow>
      (if j < 63 then bit (u_lo V) (Suc j) else bit (u_hi V) (Suc j - 64))"
    using j bit_word_overflow [of 64 "u_hi V"] by (cases "j = 127") (auto simp: bit_u128_word)
  moreover have "Suc (j - 64) = j - 63" if "63 < j" using that by simp
  ultimately show "bit (u128_word (REDUCE1BIT V)) j = bit (mulx (u128_word V)) j"
    by (cases "j < 63"; cases "j = 63") simp_all
qed

lemma mulx_pow_shift: "(\<And>i. i < n \<Longrightarrow> \<not> bit v i) \<Longrightarrow> (mulx ^^ n) v = drop_bit n v"
proof (induction n arbitrary: v)
  case (Suc n)
  have "mulx v = drop_bit 1 v" using Suc.prems [of 0] by (simp add: mulx_def)
  moreover have "(mulx ^^ n) (drop_bit 1 v) = drop_bit n (drop_bit 1 v)"
    using Suc.prems by (intro Suc.IH) (simp add: bit_drop_bit_eq)
  ultimately show ?case by (simp only: funpow_Suc_right comp_apply drop_bit_drop_bit) (simp add: add.commute)
qed simp

text \<open>The table of remainders.\<close>

lemma mulx_num: "mulx 1 = 0xe1000000000000000000000000000000"
  "mulx (numeral v) = drop_bit 1 (numeral v) XOR (if bit (numeral v :: 128 word) 0 then 0xe1000000000000000000000000000000 else 0)"
  by (simp_all add: mulx_def gf_R_def)

lemma rem_4bit_mulx: "map (\<lambda>v. mulx (mulx (mulx (mulx v)))) [0, 1, 2, 3, 4, 5, 6, 7, 8, 9, 10, 11, 12, 13, 14, 15] =
    map (\<lambda>r. push_bit 64 (ucast r)) rem_4bit"
  by (simp add: mulx_num rem_4bit_def PACK_def)

lemma rem_4bit_nth: "n < 16 \<Longrightarrow> push_bit 64 (ucast (rem_4bit ! n)) = (mulx ^^ 4) (of_nat n)"
proof -
  assume n: "n < 16"
  have "length rem_4bit = 16" by (simp add: rem_4bit_def)
  with n have "push_bit 64 (ucast (rem_4bit ! n)) = map (\<lambda>r. push_bit 64 (ucast r) :: 128 word) rem_4bit ! n" by simp
  also have "\<dots> = (mulx ^^ 4) (of_nat n)"
  proof -
    let ?f = "\<lambda>v. mulx (mulx (mulx (mulx v)))"
    have "[0, 1, 2, 3, 4, 5, 6, 7, 8, 9, 10, 11, 12, 13, 14, 15 :: 128 word] = map of_nat [0..<16]" by (simp add: upt_rec)
    then have "map (\<lambda>r. push_bit 64 (ucast r)) rem_4bit = map ?f (map of_nat [0..<16])" using rem_4bit_mulx by (simp only:)
    then have "map (\<lambda>r. push_bit 64 (ucast r)) rem_4bit ! n = ?f (of_nat n)"
      using n by (simp only: nth_map length_map length_upt nth_upt) simp
    moreover have "(mulx ^^ 4) v = ?f v" for v by (simp add: eval_nat_numeral)
    ultimately show ?thesis by (simp only:)
  qed
  finally show ?thesis .
qed

text \<open>One step of the code's loops multiplies by \<open>x^4\<close> and adds a multiple of the key.\<close>

lemma mulx_pow_4: "(mulx ^^ 4) v = drop_bit 4 v XOR push_bit 64 (ucast (rem_4bit ! unat (v AND 0xf)))"
proof -
  let ?l = "v AND 0xf" and ?h = "push_bit 4 (drop_bit 4 v)"
  have m: "(0xf :: 128 word) = mask 4" by (simp add: mask_eq_exp_minus_1)
  have v: "v = ?h XOR ?l" unfolding m by (rule bit_eqI) (auto simp: bit_simps)
  have "unat ?l < 16" using unat_and_mask_less [of v 4] by (simp add: m)
  then have "(mulx ^^ 4) ?l = push_bit 64 (ucast (rem_4bit ! unat ?l))" using rem_4bit_nth [of "unat ?l"] by simp
  moreover have "(mulx ^^ 4) ?h = drop_bit 4 v"
  proof -
    have "(mulx ^^ 4) ?h = drop_bit 4 ?h" by (rule mulx_pow_shift) (simp add: bit_push_bit_iff)
    also have "\<dots> = drop_bit 4 v" by (rule bit_eqI) (auto simp: bit_simps dest: bit_imp_le_length)
    finally show ?thesis .
  qed
  ultimately show ?thesis using v mulx_pow_xor [of 4 ?h ?l] by (simp only:)
qed

lemma u128_word_step:
  "u128_word (gcm_step_4bit T Z n) = (mulx ^^ 4) (u128_word Z) XOR u128_word (T ! unat n)"
proof -
  let ?r = "rem_4bit ! unat (u_lo Z AND 0xf)"
  let ?Z = "\<lparr>u_hi = drop_bit 4 (u_hi Z) XOR ?r, u_lo = push_bit 60 (u_hi Z) OR drop_bit 4 (u_lo Z)\<rparr>"
  have "unat (u128_word Z AND 0xf) = unat (u_lo Z AND 0xf)"
  proof -
    have m: "(0xf :: 128 word) = mask 4" "(0xf :: u64) = mask 4" by (simp_all add: mask_eq_exp_minus_1)
    have "u128_word Z AND 0xf = ucast (u_lo Z AND 0xf)"
      unfolding m by (intro bit_eqI) (auto simp: bit_and_iff bit_u128_word bit_mask_iff bit_ucast_iff)
    then show ?thesis by (simp add: unsigned_ucast_eq take_bit_nat_eq_self less_trans [OF unsigned_less])
  qed
  then have "(mulx ^^ 4) (u128_word Z) = drop_bit 4 (u128_word Z) XOR push_bit 64 (ucast ?r)"
    by (simp only: mulx_pow_4)
  also have "\<dots> = u128_word ?Z"
  proof (rule bit_eqI)
    fix j
    assume "possible_bit TYPE(128 word) j"
    then have "j < 128" by simp
    moreover have "bit (u128_word Z) (j + 4) \<longleftrightarrow>
        (if j < 60 then bit (u_lo Z) (j + 4) else bit (u_hi Z) (j - 60))"
    proof (cases "j < 124")
      case False
      then show ?thesis using bit_word_overflow [of "j - 60" "u_hi Z"] by (simp add: bit_u128_word)
    qed (simp add: bit_u128_word)
    moreover have "\<not> bit (u_lo Z) (j + 4)" if "60 \<le> j" using that by (intro bit_word_overflow) simp
    moreover have "j - 64 + 4 = j - 60" "j - 64 < 64" if "64 \<le> j" using that \<open>j < 128\<close> by simp_all
    ultimately show "bit (drop_bit 4 (u128_word Z) XOR push_bit 64 (ucast ?r)) j = bit (u128_word ?Z) j"
      by (cases "j < 60"; cases "j < 64")
        (simp_all add: bit_xor_iff bit_or_iff bit_drop_bit_eq bit_push_bit_iff bit_ucast_iff bit_u128_word [of ?Z] add.commute)
  qed
  finally show ?thesis
    unfolding gcm_step_4bit_def Let_def u128_word_xor by (simp add: u128_word_def)
qed

section \<open>The table and the loop\<close>

definition byte_bits :: "u8 \<Rightarrow> bool list" where
  "byte_bits b = map (\<lambda>i. bit b (7 - i)) [0..<8]"

definition nibble_bits :: "u8 \<Rightarrow> bool list" where
  "nibble_bits n = [bit n 3, bit n 2, bit n 1, bit n 0]"

lemma length_gcm_init_4bit [simp]: "length (gcm_init_4bit T H0 H1) = length T"
  by (simp add: gcm_init_4bit_def Let_def)

lemma gcm_init_4bit_entries:
  assumes "length T = 16"
  shows "gcm_init_4bit T H0 H1 =
    (let a = \<lparr>u_hi = H0, u_lo = H1\<rparr>; b = REDUCE1BIT a; c = REDUCE1BIT b; d = REDUCE1BIT c in
     [\<lparr>u_hi = 0, u_lo = 0\<rparr>, d, c, xor_u128 d c, b, xor_u128 b d, xor_u128 b c, xor_u128 b (xor_u128 d c),
      a, xor_u128 a d, xor_u128 a c, xor_u128 a (xor_u128 d c), xor_u128 a b, xor_u128 a (xor_u128 b d),
      xor_u128 a (xor_u128 b c), xor_u128 a (xor_u128 b (xor_u128 d c))])"
proof -
  obtain x0 x1 x2 x3 x4 x5 x6 x7 x8 x9 x10 x11 x12 x13 x14 x15 where
    T: "T = [x0, x1, x2, x3, x4, x5, x6, x7, x8, x9, x10, x11, x12, x13, x14, x15]"
    using assms(1) by (auto simp: numeral_eq_Suc length_Suc_conv)
  show ?thesis unfolding T by (simp add: gcm_init_4bit_def Let_def)
qed

lemma gcm_init_4bit_table:
  fixes H0 H1 :: u64
  assumes "length T = 16"
  defines "H \<equiv> u128_word \<lparr>u_hi = H0, u_lo = H1\<rparr>"
  shows "map u128_word (gcm_init_4bit T H0 H1) = map (\<lambda>n. gf_bits (nibble_bits n) H) [0, 1, 2, 3, 4, 5, 6, 7, 8, 9, 10, 11, 12, 13, 14, 15]"
proof -
  have z: "u128_word \<lparr>u_hi = 0, u_lo = 0\<rparr> = 0" by (simp add: u128_word_def)
  have n: "map nibble_bits [0, 1, 2, 3, 4, 5, 6, 7, 8, 9, 10, 11, 12, 13, 14, 15] =
      [[False, False, False, False], [False, False, False, True], [False, False, True, False], [False, False, True, True],
       [False, True, False, False], [False, True, False, True], [False, True, True, False], [False, True, True, True],
       [True, False, False, False], [True, False, False, True], [True, False, True, False], [True, False, True, True],
       [True, True, False, False], [True, True, False, True], [True, True, True, False], [True, True, True, True]]"
    by (simp add: nibble_bits_def)
  have e: "map (\<lambda>n. gf_bits (nibble_bits n) H) ns = map (\<lambda>bs. gf_bits bs H) (map nibble_bits ns)" for ns
    by (simp only: map_map comp_def)
  show ?thesis
    unfolding gcm_init_4bit_entries [OF assms(1)] Let_def e n
    by (simp add: u128_word_xor u128_word_REDUCE1BIT z mulx_xor ac_simps H_def)
qed

definition gcm_table :: "u128 list \<Rightarrow> 128 word \<Rightarrow> bool" where
  "gcm_table T H \<longleftrightarrow> length T = 16 \<and> (\<forall>n. unat n < 16 \<longrightarrow> u128_word (T ! unat n) = gf_bits (nibble_bits n) H)"

lemma gcm_table_init:
  assumes "length T = 16"
  shows "gcm_table (gcm_init_4bit T H0 H1) (u128_word \<lparr>u_hi = H0, u_lo = H1\<rparr>)"
proof -
  let ?T = "gcm_init_4bit T H0 H1" and ?H = "u128_word \<lparr>u_hi = H0, u_lo = H1\<rparr>"
  have l: "[0, 1, 2, 3, 4, 5, 6, 7, 8, 9, 10, 11, 12, 13, 14, 15 :: u8] = map of_nat [0..<16]" by (simp add: upt_rec)
  have "u128_word (?T ! unat n) = gf_bits (nibble_bits n) ?H" if n: "unat n < 16" for n
  proof -
    have "u128_word (?T ! unat n) = map u128_word ?T ! unat n" using assms n by simp
    also have "\<dots> = gf_bits (nibble_bits n) ?H"
      unfolding gcm_init_4bit_table [OF assms] l using n by (simp only: nth_map length_map length_upt nth_upt) simp
    finally show ?thesis .
  qed
  then show ?thesis using assms by (simp add: gcm_table_def)
qed

lemma nibble_bits_byte: "nibble_bits (drop_bit 4 b) @ nibble_bits (b AND 0xf) = byte_bits b"
proof -
  have "(0xf :: u8) = mask 4" by (simp add: mask_eq_exp_minus_1)
  then show ?thesis
    by (simp only: nibble_bits_def byte_bits_def bit_and_iff bit_mask_iff bit_drop_bit_eq) (simp add: upt_rec)
qed

lemma unat_nibble: "unat (drop_bit 4 (b::u8)) < 16" "unat ((b::u8) AND 0xf) < 16"
proof -
  have "unat b div 16 < 16" using unat_less_256 [of b] by (rule less_mult_imp_div_less [of _ 16 16, simplified])
  then show "unat (drop_bit 4 b) < 16" by (simp add: unat_drop_bit_div)
  have "(0xf :: u8) = mask 4" by (simp add: mask_eq_exp_minus_1)
  then show "unat (b AND 0xf) < 16" using unat_and_mask_less [of b 4] by simp
qed

lemma gcm_loop_4bit_word:
  assumes "gcm_table T H" and "unat nhi < 16"
  shows "u128_word (gcm_loop_4bit T x cnt nhi Z) =
    gf_bits (concat (map (\<lambda>i. byte_bits (x i)) [0..<cnt]) @ nibble_bits nhi) H XOR (mulx ^^ (8 * cnt + 4)) (u128_word Z)"
  using assms(2)
proof (induction cnt arbitrary: nhi Z)
  case 0
  then show ?case using assms(1) by (simp add: u128_word_step gcm_table_def xor.commute)
next
  case (Suc cnt)
  have t: "unat n < 16 \<Longrightarrow> u128_word (T ! unat n) = gf_bits (nibble_bits n) H" for n
    using assms(1) by (simp add: gcm_table_def)
  let ?xs = "concat (map (\<lambda>i. byte_bits (x i)) [0..<cnt])" and ?hi = "nibble_bits (drop_bit 4 (x cnt))" and ?lo = "nibble_bits (x cnt AND 0xf)"
  let ?m = "\<lambda>n v. (mulx ^^ n) v"
  have l: "length ?xs = 8 * cnt" by (induction cnt) (simp_all add: byte_bits_def)
  have lb: "length (nibble_bits n) = 4" for n by (simp add: nibble_bits_def)
  have p: "?m m (?m n v) = ?m (m + n) v" for m n v by (simp add: funpow_add)
  have bits: "concat (map (\<lambda>i. byte_bits (x i)) [0..<Suc cnt]) @ nibble_bits nhi = ?xs @ ?hi @ ?lo @ nibble_bits nhi"
    by (simp add: nibble_bits_byte flip: append_assoc)
  have "u128_word (gcm_loop_4bit T x (Suc cnt) nhi Z) = gf_bits (?xs @ ?hi) H XOR
      ?m (8 * cnt + 4) (?m 4 (?m 4 (u128_word Z) XOR gf_bits (nibble_bits nhi) H) XOR gf_bits ?lo H)"
    using Suc.IH [OF unat_nibble(1)] by (simp add: Let_def u128_word_step t [OF Suc.prems] t [OF unat_nibble(2)])
  also have "\<dots> = gf_bits (?xs @ ?hi @ ?lo @ nibble_bits nhi) H XOR ?m (8 * Suc cnt + 4) (u128_word Z)"
  proof -
    have e: "8 * cnt + (4 + (4 + 4)) = 8 * Suc cnt + 4" by simp
    show ?thesis unfolding gf_bits_append mulx_pow_xor l lb p by (simp add: e ac_simps)
  qed
  finally show ?case by (simp only: bits)
qed

section \<open>The multiplication\<close>

definition word_block :: "128 word \<Rightarrow> bytes" where
  "word_block w = be_bytes 16 (unat w)"

lemma length_word_block [simp]: "length (word_block w) = 16"
  by (simp add: word_block_def)

lemma block_word_block [simp]: "block_word (word_block w) = w"
  using unsigned_less [of w, where ?'a = nat] by (simp add: block_word_def word_block_def be_nat_be_bytes)

lemma word_block_word: "length b = 16 \<Longrightarrow> word_block (block_word b) = b"
  using be_nat_less [of b] be_bytes_be_nat [of b] by (simp add: block_word_def word_block_def unat_of_nat)

lemma concat_byte_bits: "concat (map byte_bits bs) = map (\<lambda>i. bit (bs ! (i div 8)) (7 - i mod 8)) [0..<8 * length bs]"
proof (induction bs rule: rev_induct)
  case (snoc b bs)
  have "[0..<8 * length (bs @ [b])] = [0..<8 * length bs] @ map (\<lambda>i. 8 * length bs + i) [0..<8]"
    using upt_add_eq_append [of 0 "8 * length bs" 8] by (simp add: map_add_upt add.commute)
  moreover have "map (\<lambda>i. bit ((bs @ [b]) ! (i div 8)) (7 - i mod 8)) [0..<8 * length bs] =
      map (\<lambda>i. bit (bs ! (i div 8)) (7 - i mod 8)) [0..<8 * length bs]"
    by (intro map_cong) (auto simp: nth_append less_mult_imp_div_less mult.commute)
  moreover have "map (\<lambda>i. bit ((bs @ [b]) ! (i div 8)) (7 - i mod 8)) (map (\<lambda>i. 8 * length bs + i) [0..<8]) = byte_bits b"
    by (simp add: byte_bits_def)
  ultimately show ?case using snoc.IH by (simp only: map_append concat_append) simp
qed simp

lemma block_word_bits:
  assumes "length b = 16"
  shows "map (\<lambda>i. bit (block_word b) (127 - i)) [0..<128] = concat (map byte_bits b)"
proof -
  have "bit (block_word b) (127 - i) \<longleftrightarrow> bit (b ! (i div 8)) (7 - i mod 8)" if "i < 128" for i
  proof -
    define q r where "q = i div 8" and "r = i mod 8"
    have i: "i = q * 8 + r" "r < 8" by (simp_all add: q_def r_def)
    with that have q: "q < 16" by simp
    have e: "127 - i = (7 - r) + (15 - q) * 8" using i q by simp
    have "(127 - i) div 8 = 15 - q" "(127 - i) mod 8 = 7 - r" unfolding e by (simp_all del: mult_Suc)
    moreover have "127 - i < 128" "15 - q < 16" "16 - Suc (15 - q) = q" using q by simp_all
    ultimately show ?thesis
      using assms by (simp only: block_word_def bit_word_of_nat bit_be_nat) (simp flip: q_def r_def)
  qed
  then show ?thesis using assms by (simp add: concat_byte_bits)
qed

lemma gcm_mult_4bit_word:
  assumes "gcm_table T H" and "length b = 16" and "\<And>i. i < 16 \<Longrightarrow> x i = b ! i"
  shows "u128_word (gcm_mult_4bit T x) = gf_mult (block_word b) H"
proof -
  let ?xs = "concat (map (\<lambda>i. byte_bits (x i)) [0..<15])" and ?hi = "nibble_bits (drop_bit 4 (x 15))" and ?lo = "nibble_bits (x 15 AND 0xf)"
  have "u128_word (T ! unat (x 15 AND 0xf)) = gf_bits ?lo H" using assms(1) unat_nibble(2) by (simp add: gcm_table_def)
  moreover have l: "length (?xs @ ?hi) = 8 * 15 + 4"
  proof -
    have "length (concat (map (\<lambda>i. byte_bits (x i)) [0..<n])) = 8 * n" for n by (induction n) (simp_all add: byte_bits_def)
    then show ?thesis by (simp only: length_append) (simp add: nibble_bits_def)
  qed
  ultimately have "u128_word (gcm_mult_4bit T x) = gf_bits ((?xs @ ?hi) @ ?lo) H"
    unfolding gcm_mult_4bit_def gcm_loop_4bit_word [OF assms(1) unat_nibble(1)] gf_bits_append [of "?xs @ ?hi"] l by simp
  also have "(?xs @ ?hi) @ ?lo = concat (map (\<lambda>i. byte_bits (x i)) [0..<Suc 15])"
    unfolding append_assoc nibble_bits_byte by (simp only: upt_Suc) simp
  also have "map (\<lambda>i. byte_bits (x i)) [0..<Suc 15] = map byte_bits b"
    using assms(2,3) by (intro nth_equalityI) (simp_all del: upt_Suc)
  finally show ?thesis by (simp only: gf_mult_bits block_word_bits [OF assms(2)])
qed

lemma store_u128_word: "length Xi = 16 \<Longrightarrow> store_u128 Xi Z = word_block (u128_word Z)"
proof -
  assume l: "length Xi = 16"
  have "unat (u128_word Z) = unat (u_hi Z) * 2 ^ 64 + unat (u_lo Z)"
  proof -
    have "push_bit 64 (ucast (u_hi Z) :: 128 word) AND ucast (u_lo Z) = 0"
      by (rule bit_eqI) (auto simp: bit_simps dest: bit_imp_le_length)
    then have "u128_word Z = push_bit 64 (ucast (u_hi Z)) + ucast (u_lo Z)"
      by (simp add: u128_word_def disjunctive_add_eq_or)
    moreover have "unat (u_hi Z) < 2 ^ 64" "unat (u_lo Z) < 2 ^ 64"
      using unsigned_less [of "u_hi Z", where ?'a = nat] unsigned_less [of "u_lo Z", where ?'a = nat] by simp_all
    ultimately show ?thesis
      by (simp add: push_bit_eq_mult unat_word_ariths unsigned_ucast_eq take_bit_nat_eq_self)
  qed
  then have "be_bytes 16 (unat (u128_word Z)) = be_bytes 8 (unat (u_hi Z)) @ be_bytes 8 (unat (u_lo Z))"
    using be_bytes_append [of 8 8 "unat (u128_word Z)"] be_bytes_mod [of 8 "unat (u_hi Z) * 2 ^ 64 + unat (u_lo Z)"]
      be_bytes_mod [of 8 "unat (u_lo Z)"] unsigned_less [of "u_lo Z", where ?'a = nat]
    by simp
  then show ?thesis using l by (simp add: store_u128_def store_word_le_def bswap8_stored mem_write_def word_block_def)
qed

lemma u128_word_loaded:
  assumes "length K = 16"
  shows "u128_word \<lparr>u_hi = CRYPTO_bswap8 (load_word_le K 0), u_lo = CRYPTO_bswap8 (load_word_le K 8)\<rparr> = block_word K"
proof -
  have hi: "CRYPTO_bswap8 (load_word_le K 0) = of_nat (be_nat (take 8 K))"
    and lo: "CRYPTO_bswap8 (load_word_le K 8) = of_nat (be_nat (drop 8 K))"
    using assms by (simp_all add: load_word_le_def bswap8_loaded)
  have b: "be_nat K = be_nat (take 8 K) * 2 ^ 64 + be_nat (drop 8 K)"
    using be_nat_append [of "take 8 K" "drop 8 K"] assms by simp
  have "be_nat (take 8 K) < 2 ^ 64" "be_nat (drop 8 K) < 2 ^ 64"
    using be_nat_less [of "take 8 K"] be_nat_less [of "drop 8 K"] assms by simp_all
  then have "word_block (u128_word \<lparr>u_hi = of_nat (be_nat (take 8 K)), u_lo = of_nat (be_nat (drop 8 K))\<rparr>) =
      be_bytes 8 (be_nat (take 8 K)) @ be_bytes 8 (be_nat (drop 8 K))"
    using store_u128_word [of "replicate 16 0" "\<lparr>u_hi = of_nat (be_nat (take 8 K)), u_lo = of_nat (be_nat (drop 8 K))\<rparr>"]
    by (simp add: store_u128_def store_word_le_def bswap8_stored mem_write_def unat_of_nat)
  also have "\<dots> = K" using be_bytes_be_nat [of "take 8 K"] be_bytes_be_nat [of "drop 8 K"] assms by simp
  finally show ?thesis unfolding hi lo by (metis block_word_block)
qed

lemma gcm_gmult_4bit_word:
  "gcm_table T H \<Longrightarrow> length Xi = 16 \<Longrightarrow> gcm_gmult_4bit Xi T = word_block (gf_mult (block_word Xi) H)"
  by (simp add: gcm_gmult_4bit_def store_u128_word gcm_mult_4bit_word [of T H Xi])

lemma block_word_xor:
  assumes "length a = 16" and "length b = 16"
  shows "block_word (xor_bytes a b) = block_word a XOR block_word b"
  using assms by (intro bit_eqI) (simp add: block_word_def bit_word_of_nat bit_be_nat bit_xor_iff less_mult_imp_div_less)

text \<open>The hash of the standard (section 6.4), from a state \<open>y\<close> on.\<close>

definition ghash :: "128 word \<Rightarrow> 128 word \<Rightarrow> bytes list \<Rightarrow> 128 word" where
  "ghash H y bs = fold (\<lambda>b y. gf_mult (y XOR block_word b) H) bs y"

lemma ghash_simps [simp]:
  "ghash H y [] = y" "ghash H y (b # bs) = ghash H (gf_mult (y XOR block_word b) H) bs"
  "ghash H y (bs @ bs') = ghash H (ghash H y bs) bs'"
  by (simp_all add: ghash_def)

lemma gcm_ghash_4bit_word:
  assumes "gcm_table T H" and "length Xi = 16" and "length inp = 16 * k" and "0 < k"
  shows "gcm_ghash_4bit Xi T inp = word_block (ghash H (block_word Xi) (blocks 16 inp))"
  using assms(2-4)
proof (induction k arbitrary: Xi inp)
  case (Suc k)
  let ?b = "take 16 inp"
  have b: "length ?b = 16" "blocks 16 inp = ?b # blocks 16 (drop 16 inp)" using Suc.prems(2) by (simp_all add: blocks_step)
  have "u128_word (gcm_mult_4bit T (\<lambda>cnt. Xi ! cnt XOR inp ! cnt)) = gf_mult (block_word Xi XOR block_word ?b) H"
    using gcm_mult_4bit_word [OF assms(1), of "xor_bytes Xi ?b"] Suc.prems(1) b(1) by (simp add: block_word_xor)
  then have s: "store_u128 Xi (gcm_mult_4bit T (\<lambda>cnt. Xi ! cnt XOR inp ! cnt)) = word_block (gf_mult (block_word Xi XOR block_word ?b) H)"
    using Suc.prems(1) by (simp add: store_u128_word)
  show ?case
  proof (cases k)
    case 0
    then show ?thesis using Suc.prems(2) b(2) by (subst gcm_ghash_4bit.simps) (simp add: s)
  next
    case (Suc j)
    then have "0 < k" by simp
    from Suc.IH [OF length_word_block _ this, of "drop 16 inp" "gf_mult (block_word Xi XOR block_word ?b) H"] Suc.prems(2) Suc b(2)
    show ?thesis by (subst gcm_ghash_4bit.simps) (simp add: s)
  qed
qed simp

section \<open>Properties\<close>

text \<open>C11.
  The table-driven multiplication that \<^verbatim>\<open>CRYPTO_ghash_init\<close> sets up is the multiplication of the standard: \<^verbatim>\<open>gcm_gmult_4bit\<close> multiplies the
  block by the key, and \<^verbatim>\<open>gcm_ghash_4bit\<close> is the hash of any positive number of blocks from any state, whatever the table held before.
\<close>

theorem ghash_4bit_is_ghash:
  assumes "length K = 16" and "length Htable = 16" and "length Xi = 16"
    and "CRYPTO_ghash_init Htable K = (mult, hash, H, T, is_avx)"
  shows "mult Xi T = word_block (gf_mult (block_word Xi) (block_word K)) \<and>
    (length inp = 16 * k \<and> 0 < k \<longrightarrow> hash Xi T inp = word_block (ghash (block_word K) (block_word Xi) (blocks 16 inp)))"
proof -
  have i: "mult = gcm_gmult_4bit" "hash = gcm_ghash_4bit"
      "T = gcm_init_4bit Htable (CRYPTO_bswap8 (load_word_le K 0)) (CRYPTO_bswap8 (load_word_le K 8))"
    using assms(4) by (simp_all add: CRYPTO_ghash_init_def Let_def)
  then have "gcm_table T (block_word K)"
    using gcm_table_init [OF assms(2)] u128_word_loaded [OF assms(1)] by metis
  then show ?thesis unfolding i(1,2) using gcm_gmult_4bit_word gcm_ghash_4bit_word assms(3) by blast
qed

lemma ghash_4bit_is_ghash_witness:
  "case CRYPTO_ghash_init (replicate 16 \<lparr>u_hi = 0, u_lo = 0\<rparr>) (replicate 16 0x66) of (mult, hash, H, T, is_avx) \<Rightarrow>
     hash (replicate 16 0) T (replicate 32 3) =
     word_block (ghash (block_word (replicate 16 0x66)) (block_word (replicate 16 0)) (blocks 16 (replicate 32 3)))"
proof -
  obtain mult hash H T is_avx
    where i: "CRYPTO_ghash_init (replicate 16 \<lparr>u_hi = 0, u_lo = 0\<rparr>) (replicate 16 0x66) = (mult, hash, H, T, is_avx)"
    by (metis prod_cases5)
  from ghash_4bit_is_ghash [OF _ _ _ i, of "replicate 16 0" "replicate 32 3" 2] show ?thesis unfolding i by simp
qed

end
