(* ===== verification/StreamModes.thy ===== *)
theory StreamModes
  imports BlockWords
begin

text \<open>
  \<^verbatim>\<open>fipsmodule/modes/ctr.c\<close>, \<^verbatim>\<open>ofb.c\<close> and \<^verbatim>\<open>cfb.c\<close>: the modes that turn a block cipher into a stream cipher.  They take input of any length and keep
  in \<^verbatim>\<open>num\<close> how much of the current block is used.  Input and output are lists of bytes here (the same buffer or two disjoint ones).  Each mode is
  shown equal to a step per byte, which is how the code's branch for strict alignment is written; the locales \<open>byte_stream\<close> and
  \<open>inverse_streams\<close> draw the consequences.
\<close>

section \<open>What the modes share\<close>

text \<open>One block through \<^verbatim>\<open>store_word_le(out + n, load_word_le(a + n) ^ load_word_le(b + n))\<close> for \<open>n = 0, 8\<close>.\<close>

definition xor_block :: "bytes \<Rightarrow> bytes \<Rightarrow> bytes" where
  "xor_block a b = concat (map (\<lambda>n. le_bytes 8 (unat (load_word_le a n XOR load_word_le b n))) [0, 8])"

text \<open>The loop \<^verbatim>\<open>while (n && len) *(out++) = *(in++) ^ ks[n]\<close>: output, \<^verbatim>\<open>n\<close> and what is left of the input.\<close>

fun xor_head :: "bytes \<Rightarrow> nat \<Rightarrow> bytes \<Rightarrow> bytes \<times> nat \<times> bytes" where
  "xor_head ks n [] = ([], n, [])"
| "xor_head ks n (x # xs) =
     (if n = 0 then ([], n, x # xs)
      else let (out, n', rest) = xor_head ks ((n + 1) mod 16) xs in ((x XOR ks ! n) # out, n', rest))"

text \<open>The loop \<^verbatim>\<open>while (len--) { out[n] = in[n] ^ ks[n]; ++n; }\<close>.\<close>

definition xor_tail :: "bytes \<Rightarrow> nat \<Rightarrow> bytes \<Rightarrow> bytes \<times> nat" where
  "xor_tail ks n inp = (map (\<lambda>i. inp ! i XOR ks ! i) [n..<n + length inp], n + length inp)"

section \<open>Counter mode\<close>

text \<open>The loops of \<^verbatim>\<open>ctr128_inc\<close> and \<^verbatim>\<open>ctr96_inc\<close>.\<close>

fun inc_loop :: "nat \<Rightarrow> u32 \<Rightarrow> bytes \<Rightarrow> bytes" where
  "inc_loop 0 c counter = counter"
| "inc_loop (Suc n) c counter =
     (let c = c + ucast (counter ! n) in inc_loop n (drop_bit 8 c) (counter[n := ucast c]))"

definition ctr128_inc :: "bytes \<Rightarrow> bytes" where
  "ctr128_inc counter = inc_loop 16 1 counter"

definition ctr96_inc :: "bytes \<Rightarrow> bytes" where
  "ctr96_inc counter = inc_loop 12 1 counter"

record ctr_state =
  ctr_ivec :: bytes
  ecount_buf :: bytes
  ctr_num :: nat

function ctr_blocks :: "(bytes \<Rightarrow> bytes) \<Rightarrow> bytes \<Rightarrow> bytes \<Rightarrow> bytes \<Rightarrow> bytes \<times> bytes \<times> bytes \<times> bytes" where
  "ctr_blocks block ivec ecount inp =
     (if 16 \<le> length inp then
        let ecount = block ivec;
            ivec = ctr128_inc ivec;
            out = xor_block inp ecount;
            (out', ivec, ecount, rest) = ctr_blocks block ivec ecount (drop 16 inp)
        in (out @ out', ivec, ecount, rest)
      else ([], ivec, ecount, inp))"
  by auto
termination by (relation "measure (\<lambda>(block, ivec, ecount, inp). length inp)") auto

declare ctr_blocks.simps [simp del]

definition CRYPTO_ctr128_encrypt :: "(bytes \<Rightarrow> bytes) \<Rightarrow> ctr_state \<Rightarrow> bytes \<Rightarrow> bytes \<times> ctr_state" where
  "CRYPTO_ctr128_encrypt block s inp =
     (let (out1, n, inp) = xor_head (ecount_buf s) (ctr_num s) inp;
          (out2, ivec, ecount, rest) = ctr_blocks block (ctr_ivec s) (ecount_buf s) inp;
          n = (if 16 \<le> length inp then 0 else n)
      in if rest \<noteq> [] then
           let ecount = block ivec;
               ivec = ctr128_inc ivec;
               (out3, n) = xor_tail ecount n rest
           in (out1 @ out2 @ out3, \<lparr>ctr_ivec = ivec, ecount_buf = ecount, ctr_num = n\<rparr>)
         else (out1 @ out2, \<lparr>ctr_ivec = ivec, ecount_buf = ecount, ctr_num = n\<rparr>))"

text \<open>
  With a function \<open>func\<close> that does whole blocks in counter mode but counts in 32 bits: input, number of blocks and counter.
\<close>

type_synonym ctr128_f = "bytes \<Rightarrow> nat \<Rightarrow> bytes \<Rightarrow> bytes"

text \<open>How many blocks the next call gets, and the low word of the counter after it.\<close>

definition ctr32_chunk :: "u32 \<Rightarrow> nat \<Rightarrow> nat \<times> u32" where
  "ctr32_chunk ctr32 len =
     (let blocks = len div 16;
          blocks = (if 2 ^ 28 < blocks then 2 ^ 28 else blocks);
          ctr32 = ctr32 + of_nat blocks
      in if unat ctr32 < blocks then (blocks - unat ctr32, 0) else (blocks, ctr32))"

lemma ctr32_chunk_bounds: "16 \<le> len \<Longrightarrow> 0 < fst (ctr32_chunk c len) \<and> fst (ctr32_chunk c len) \<le> len div 16"
  by (auto simp: ctr32_chunk_def Let_def)

function ctr32_blocks :: "ctr128_f \<Rightarrow> bytes \<Rightarrow> u32 \<Rightarrow> bytes \<Rightarrow> bytes \<times> bytes \<times> u32 \<times> bytes" where
  "ctr32_blocks func ivec ctr32 inp =
     (if 16 \<le> length inp then
        let (blocks, ctr32) = ctr32_chunk ctr32 (length inp);
            out = func inp blocks ivec;
            ivec = PUTU32 ivec 12 ctr32;
            ivec = (if ctr32 = 0 then ctr96_inc ivec else ivec);
            (out', ivec, ctr32, rest) = ctr32_blocks func ivec ctr32 (drop (16 * blocks) inp)
        in (out @ out', ivec, ctr32, rest)
      else ([], ivec, ctr32, inp))"
  by auto
termination
proof (relation "measure (\<lambda>(func, ivec, ctr32, inp). length inp)", goal_cases)
  case (2 func ivec ctr32 inp x blocks ctr32')
  then have "fst (ctr32_chunk ctr32 (length inp)) = blocks" by (metis fst_conv)
  with 2(1) ctr32_chunk_bounds [of "length inp" ctr32] show ?case
    by (auto intro!: diff_less)
qed simp

declare ctr32_blocks.simps [simp del]

definition CRYPTO_ctr128_encrypt_ctr32 :: "ctr128_f \<Rightarrow> ctr_state \<Rightarrow> bytes \<Rightarrow> bytes \<times> ctr_state" where
  "CRYPTO_ctr128_encrypt_ctr32 func s inp =
     (let (out1, n, inp) = xor_head (ecount_buf s) (ctr_num s) inp;
          (out2, ivec, ctr32, rest) = ctr32_blocks func (ctr_ivec s) (GETU32 (drop 12 (ctr_ivec s))) inp
      in if rest \<noteq> [] then
           let ecount = func (replicate 16 0) 1 ivec;
               ctr32 = ctr32 + 1;
               ivec = PUTU32 ivec 12 ctr32;
               ivec = (if ctr32 = 0 then ctr96_inc ivec else ivec);
               (out3, n) = xor_tail ecount n rest
           in (out1 @ out2 @ out3, \<lparr>ctr_ivec = ivec, ecount_buf = ecount, ctr_num = n\<rparr>)
         else (out1 @ out2, \<lparr>ctr_ivec = ivec, ecount_buf = ecount_buf s, ctr_num = n\<rparr>))"

section \<open>Output feedback\<close>

record feedback_state =
  fb_ivec :: bytes
  fb_num :: nat

function ofb_blocks :: "(bytes \<Rightarrow> bytes) \<Rightarrow> bytes \<Rightarrow> bytes \<Rightarrow> bytes \<times> bytes \<times> bytes" where
  "ofb_blocks block ivec inp =
     (if 16 \<le> length inp then
        let ivec = block ivec;
            out = xor_block inp ivec;
            (out', ivec, rest) = ofb_blocks block ivec (drop 16 inp)
        in (out @ out', ivec, rest)
      else ([], ivec, inp))"
  by auto
termination by (relation "measure (\<lambda>(block, ivec, inp). length inp)") auto

declare ofb_blocks.simps [simp del]

definition CRYPTO_ofb128_encrypt :: "(bytes \<Rightarrow> bytes) \<Rightarrow> feedback_state \<Rightarrow> bytes \<Rightarrow> bytes \<times> feedback_state" where
  "CRYPTO_ofb128_encrypt block s inp =
     (let (out1, n, inp) = xor_head (fb_ivec s) (fb_num s) inp;
          (out2, ivec, rest) = ofb_blocks block (fb_ivec s) inp;
          n = (if 16 \<le> length inp then 0 else n)
      in if rest \<noteq> [] then
           let ivec = block ivec;
               (out3, n) = xor_tail ivec n rest
           in (out1 @ out2 @ out3, \<lparr>fb_ivec = ivec, fb_num = n\<rparr>)
         else (out1 @ out2, \<lparr>fb_ivec = ivec, fb_num = n\<rparr>))"

section \<open>Cipher feedback\<close>

text \<open>The byte loops: \<^verbatim>\<open>*(out++) = ivec[n] ^= *(in++)\<close>, and for decryption \<^verbatim>\<open>*(out++) = ivec[n] ^ (c = *(in++)); ivec[n] = c\<close>.\<close>

definition cfb_byte :: "bool \<Rightarrow> bytes \<Rightarrow> nat \<Rightarrow> u8 \<Rightarrow> u8 \<times> bytes" where
  "cfb_byte enc ivec n x = (ivec ! n XOR x, ivec[n := if enc then ivec ! n XOR x else x])"

fun cfb_head :: "bool \<Rightarrow> bytes \<Rightarrow> nat \<Rightarrow> bytes \<Rightarrow> bytes \<times> bytes \<times> nat \<times> bytes" where
  "cfb_head enc ivec n [] = ([], ivec, n, [])"
| "cfb_head enc ivec n (x # xs) =
     (if n = 0 then ([], ivec, n, x # xs)
      else let (y, ivec) = cfb_byte enc ivec n x;
               (out, ivec, n', rest) = cfb_head enc ivec ((n + 1) mod 16) xs
           in (y # out, ivec, n', rest))"

text \<open>One block by words: the output, and the new \<^verbatim>\<open>ivec\<close>, which is the ciphertext.\<close>

definition cfb_words :: "bool \<Rightarrow> bytes \<Rightarrow> bytes \<Rightarrow> bytes \<times> bytes" where
  "cfb_words enc ivec inp =
     fold (\<lambda>n (out, ivec).
       let t = load_word_le inp n; tmp = load_word_le ivec n XOR t
       in (out @ le_bytes 8 (unat tmp), store_word_le ivec n (if enc then tmp else t))) [0, 8] ([], ivec)"

function cfb_blocks :: "bool \<Rightarrow> (bytes \<Rightarrow> bytes) \<Rightarrow> bytes \<Rightarrow> bytes \<Rightarrow> bytes \<times> bytes \<times> bytes" where
  "cfb_blocks enc block ivec inp =
     (if 16 \<le> length inp then
        let (out, ivec) = cfb_words enc (block ivec) inp;
            (out', ivec, rest) = cfb_blocks enc block ivec (drop 16 inp)
        in (out @ out', ivec, rest)
      else ([], ivec, inp))"
  by auto
termination by (relation "measure (\<lambda>(enc, block, ivec, inp). length inp)") auto

declare cfb_blocks.simps [simp del]

definition cfb_tail :: "bool \<Rightarrow> bytes \<Rightarrow> nat \<Rightarrow> bytes \<Rightarrow> bytes \<times> bytes \<times> nat" where
  "cfb_tail enc ivec n inp =
     (let (out, ivec) = fold (\<lambda>i (out, ivec). let (y, ivec) = cfb_byte enc ivec i (inp ! i) in (out @ [y], ivec))
            [n..<n + length inp] ([], ivec)
      in (out, ivec, n + length inp))"

definition CRYPTO_cfb128_encrypt :: "bool \<Rightarrow> (bytes \<Rightarrow> bytes) \<Rightarrow> feedback_state \<Rightarrow> bytes \<Rightarrow> bytes \<times> feedback_state" where
  "CRYPTO_cfb128_encrypt enc block s inp =
     (let (out1, ivec, n, inp) = cfb_head enc (fb_ivec s) (fb_num s) inp;
          (out2, ivec, rest) = cfb_blocks enc block ivec inp;
          n = (if 16 \<le> length inp then 0 else n)
      in if rest \<noteq> [] then
           let (out3, ivec, n) = cfb_tail enc (block ivec) n rest
           in (out1 @ out2 @ out3, \<lparr>fb_ivec = ivec, fb_num = n\<rparr>)
         else (out1 @ out2, \<lparr>fb_ivec = ivec, fb_num = n\<rparr>))"

text \<open>
  Feedback of a number of bits: \<^verbatim>\<open>cfbr_encrypt_block\<close> fills \<^verbatim>\<open>ovec\<close> with the old vector and the ciphertext and shifts it by \<open>nbits\<close>.
\<close>

definition cfbr_encrypt_block :: "bool \<Rightarrow> (bytes \<Rightarrow> bytes) \<Rightarrow> bytes \<Rightarrow> nat \<Rightarrow> bytes \<Rightarrow> bytes \<times> bytes" where
  "cfbr_encrypt_block enc block inp nbits ivec =
     (if nbits \<le> 0 \<or> 128 < nbits then ([], ivec)
      else
        let ovec = replicate 33 0;
            ovec = mem_write ovec 0 (take 16 ivec);
            ivec = block ivec;
            num = (nbits + 7) div 8;
            out = map (\<lambda>n. inp ! n XOR ivec ! n) [0..<num];
            ovec = mem_write ovec 16 (if enc then out else take num inp);
            rem = nbits mod 8;
            num = nbits div 8
        in (out, if rem = 0 then take 16 (drop num ovec)
             else map (\<lambda>n. push_bit rem (ovec ! (n + num)) OR drop_bit (8 - rem) (ovec ! (n + num + 1))) [0..<16]))"

definition CRYPTO_cfb128_8_encrypt :: "bool \<Rightarrow> (bytes \<Rightarrow> bytes) \<Rightarrow> bytes \<Rightarrow> bytes \<Rightarrow> bytes \<times> bytes" where
  "CRYPTO_cfb128_8_encrypt enc block ivec inp =
     fold (\<lambda>x (out, ivec). let (d, ivec) = cfbr_encrypt_block enc block [x] 8 ivec in (out @ d, ivec)) inp ([], ivec)"

definition CRYPTO_cfb128_1_encrypt :: "bool \<Rightarrow> (bytes \<Rightarrow> bytes) \<Rightarrow> bytes \<Rightarrow> bytes \<Rightarrow> bytes \<Rightarrow> nat \<Rightarrow> bytes \<times> bytes" where
  "CRYPTO_cfb128_1_encrypt enc block ivec out inp bits =
     fold (\<lambda>n (out, ivec).
       let c = (if inp ! (n div 8) AND push_bit (7 - n mod 8) 1 \<noteq> 0 then 0x80 else 0);
           (d, ivec) = cfbr_encrypt_block enc block [c] 1 ivec
       in (out[n div 8 := (out ! (n div 8) AND NOT (push_bit (7 - n mod 8) 1)) OR drop_bit (n mod 8) (hd d AND 0x80)], ivec))
       [0..<bits] (out, ivec)"

section \<open>Byte by byte\<close>

primrec bytewise :: "('s \<Rightarrow> 'a \<Rightarrow> 'b \<times> 's) \<Rightarrow> 's \<Rightarrow> 'a list \<Rightarrow> 'b list \<times> 's" where
  "bytewise step s [] = ([], s)"
| "bytewise step s (x # xs) = (let (y, s) = step s x; (ys, s) = bytewise step s xs in (y # ys, s))"

definition ctr_step :: "(bytes \<Rightarrow> bytes) \<Rightarrow> ctr_state \<Rightarrow> u8 \<Rightarrow> u8 \<times> ctr_state" where
  "ctr_step E s x =
     (let s = (if ctr_num s = 0 then s\<lparr>ecount_buf := E (ctr_ivec s), ctr_ivec := ctr128_inc (ctr_ivec s)\<rparr> else s)
      in (x XOR ecount_buf s ! ctr_num s, s\<lparr>ctr_num := (ctr_num s + 1) mod 16\<rparr>))"

definition ofb_step :: "(bytes \<Rightarrow> bytes) \<Rightarrow> feedback_state \<Rightarrow> u8 \<Rightarrow> u8 \<times> feedback_state" where
  "ofb_step E s x =
     (let s = (if fb_num s = 0 then s\<lparr>fb_ivec := E (fb_ivec s)\<rparr> else s)
      in (x XOR fb_ivec s ! fb_num s, s\<lparr>fb_num := (fb_num s + 1) mod 16\<rparr>))"

definition cfb_step :: "bool \<Rightarrow> (bytes \<Rightarrow> bytes) \<Rightarrow> feedback_state \<Rightarrow> u8 \<Rightarrow> u8 \<times> feedback_state" where
  "cfb_step enc E s x =
     (let iv = (if fb_num s = 0 then E (fb_ivec s) else fb_ivec s);
          (y, iv) = cfb_byte enc iv (fb_num s) x
      in (y, \<lparr>fb_ivec = iv, fb_num = (fb_num s + 1) mod 16\<rparr>))"

definition cfb8_step :: "bool \<Rightarrow> (bytes \<Rightarrow> bytes) \<Rightarrow> bytes \<Rightarrow> u8 \<Rightarrow> u8 \<times> bytes" where
  "cfb8_step enc E iv x = (let y = x XOR hd (E iv) in (y, drop 1 iv @ [if enc then y else x]))"

lemma bytewise_append:
  "bytewise step s (xs @ ys) =
     (let (out, s) = bytewise step s xs; (out', s) = bytewise step s ys in (out @ out', s))"
  by (induction xs arbitrary: s) (simp_all add: Let_def split_beta)

lemma length_bytewise [simp]: "length (fst (bytewise step s xs)) = length xs"
  by (induction xs arbitrary: s) (simp_all add: Let_def split_beta)

text \<open>
  The interface of a mode: one call processes its input byte by byte, so that it does not matter how a message is cut.
\<close>

locale byte_stream =
  fixes run :: "'s \<Rightarrow> 'a list \<Rightarrow> 'b list \<times> 's"
    and step :: "'s \<Rightarrow> 'a \<Rightarrow> 'b \<times> 's"
    and ok :: "'s \<Rightarrow> bool"
  assumes step_ok: "ok s \<Longrightarrow> ok (snd (step s x))"
    and run_bytewise: "ok s \<Longrightarrow> run s xs = bytewise step s xs"
begin

lemma bytewise_ok: "ok s \<Longrightarrow> ok (snd (bytewise step s xs))"
  by (induction xs arbitrary: s) (simp_all add: Let_def split_beta step_ok)

lemma run_ok: "ok s \<Longrightarrow> ok (snd (run s xs))"
  by (simp add: run_bytewise bytewise_ok)

lemma run_length: "ok s \<Longrightarrow> length (fst (run s xs)) = length xs"
  by (simp add: run_bytewise)

lemma updates_run: "ok s \<Longrightarrow> updates run s xss = run s (concat xss)"
proof (induction xss arbitrary: s)
  case (Cons xs xss)
  then have "ok (snd (bytewise step s xs))" by (simp add: bytewise_ok)
  with Cons show ?case by (simp add: run_bytewise bytewise_append Let_def split_beta)
qed (simp add: run_bytewise)

end

text \<open>Two modes of which the second undoes the first.\<close>

locale inverse_streams =
  enc: byte_stream enc enc_step ok + dec: byte_stream dec dec_step ok
  for enc :: "'s \<Rightarrow> 'a list \<Rightarrow> 'b list \<times> 's" and dec :: "'s \<Rightarrow> 'b list \<Rightarrow> 'a list \<times> 's" and enc_step dec_step ok +
  assumes step_inverse: "ok s \<Longrightarrow> enc_step s x = (y, s') \<Longrightarrow> dec_step s y = (x, s')"
begin

lemma bytewise_inverse: "ok s \<Longrightarrow> bytewise enc_step s xs = (ys, s') \<Longrightarrow> bytewise dec_step s ys = (xs, s')"
proof (induction xs arbitrary: s ys s')
  case (Cons x xs)
  obtain y t where y: "enc_step s x = (y, t)" by force
  then have t: "ok t" using enc.step_ok [OF Cons.prems(1), of x] by simp
  obtain zs u where z: "bytewise enc_step t xs = (zs, u)" by force
  with y Cons.prems(2) have "ys = y # zs" "s' = u" by simp_all
  with Cons.IH [OF t z] step_inverse [OF Cons.prems(1) y] show ?case by simp
qed simp

text \<open>Whatever the pieces on either side, decryption gives the message back and ends in the same state.\<close>

lemma sessions_inverse:
  assumes "ok s" and "updates enc s xss = (ys, s')" and "concat yss = ys"
  shows "updates dec s yss = (concat xss, s')"
  using assms bytewise_inverse [OF assms(1)]
  by (simp add: enc.updates_run dec.updates_run enc.run_bytewise dec.run_bytewise)

end

section \<open>The modes, byte by byte\<close>

lemma xor_block_eq: "16 \<le> length a \<Longrightarrow> 16 \<le> length b \<Longrightarrow> xor_block a b = xor_bytes (take 16 a) (take 16 b)"
  using xor_bytes_append [of "take 8 a" "take 8 b" "take 8 (drop 8 a)" "take 8 (drop 8 b)"]
  by (simp add: xor_block_def load_word_le_def xor_le_words take_add [of 8 8, simplified])

lemma xor_tail_eq: "length xs \<le> length ks \<Longrightarrow> xor_tail ks 0 xs = (xor_bytes xs ks, length xs)"
  by (simp add: xor_tail_def) (rule nth_equalityI, simp_all)

lemma xor_head_rest: "xor_head ks n xs = (out, n', rest) \<Longrightarrow> rest \<noteq> [] \<Longrightarrow> n' = 0"
  by (induction ks n xs arbitrary: out rule: xor_head.induct) (auto split: if_splits prod.splits)

lemma xor_head_num: "n < 16 \<Longrightarrow> fst (snd (xor_head ks n xs)) < 16"
  by (induction ks n xs rule: xor_head.induct) (simp_all add: split_beta)

lemma length_inc_loop [simp]: "length (inc_loop n c xs) = length xs"
  by (induction n c xs rule: inc_loop.induct) (simp_all add: Let_def)

definition ctr_ok :: "(bytes \<Rightarrow> bytes) \<Rightarrow> ctr_state \<Rightarrow> bool" where
  "ctr_ok E s \<longleftrightarrow> block_fun E \<and> length (ctr_ivec s) = 16 \<and> length (ecount_buf s) = 16 \<and> ctr_num s < 16"

lemma ctr_step_ok: "ctr_ok E s \<Longrightarrow> ctr_ok E (snd (ctr_step E s x))"
  by (simp add: ctr_ok_def ctr_step_def Let_def block_funD ctr128_inc_def)

lemma ctr_num_same [simp]: "ctr_num s = n \<Longrightarrow> s\<lparr>ctr_num := n\<rparr> = s"
  by (cases s) simp

lemma ctr_within:
  assumes "ctr_num s = n" and "0 < n" and "n < 16" and "n + length xs \<le> 16" and "length (ecount_buf s) = 16"
  shows "bytewise (ctr_step E) s xs = (xor_bytes xs (drop n (ecount_buf s)), s\<lparr>ctr_num := (n + length xs) mod 16\<rparr>)"
  using assms
proof (induction xs arbitrary: s n)
  case (Cons x xs)
  have d: "drop n (ecount_buf s) = ecount_buf s ! n # drop (Suc n) (ecount_buf s)"
    using Cons.prems by (simp add: Cons_nth_drop_Suc)
  show ?case
  proof (cases "xs = []")
    case True
    then show ?thesis using Cons.prems d by (simp add: ctr_step_def)
  next
    case False
    then have n: "Suc n < 16" using Cons.prems(4) by (cases xs) simp_all
    then have "bytewise (ctr_step E) (s\<lparr>ctr_num := Suc n\<rparr>) xs =
        (xor_bytes xs (drop (Suc n) (ecount_buf s)), s\<lparr>ctr_num := (n + length (x # xs)) mod 16\<rparr>)"
      using Cons.IH [of "s\<lparr>ctr_num := Suc n\<rparr>" "Suc n"] Cons.prems by simp
    then show ?thesis using Cons.prems d n by (simp add: ctr_step_def [of E s])
  qed
qed simp

lemma ctr_from_start:
  assumes "ctr_num s = 0" and "xs \<noteq> []" and "length xs \<le> 16" and "length (E (ctr_ivec s)) = 16"
  shows "bytewise (ctr_step E) s xs = (xor_bytes xs (E (ctr_ivec s)),
    \<lparr>ctr_ivec = ctr128_inc (ctr_ivec s), ecount_buf = E (ctr_ivec s), ctr_num = length xs mod 16\<rparr>)"
proof -
  obtain x ys where xs: "xs = x # ys" using assms(2) by (cases xs) simp_all
  let ?s = "\<lparr>ctr_ivec = ctr128_inc (ctr_ivec s), ecount_buf = E (ctr_ivec s), ctr_num = 1\<rparr>"
  have "ctr_step E s x = (x XOR E (ctr_ivec s) ! 0, ?s)" using assms(1) by (simp add: ctr_step_def)
  moreover have "bytewise (ctr_step E) ?s ys = (xor_bytes ys (drop 1 (E (ctr_ivec s))), ?s\<lparr>ctr_num := (1 + length ys) mod 16\<rparr>)"
    using ctr_within [of ?s 1 ys E] assms(3,4) xs by simp
  moreover have "E (ctr_ivec s) = E (ctr_ivec s) ! 0 # drop 1 (E (ctr_ivec s))"
    using assms(4) by (simp add: Cons_nth_drop_Suc)
  ultimately show ?thesis unfolding xs by simp (metis xor_bytes_simps(3))
qed

lemma ctr_head_bytewise:
  "xor_head (ecount_buf s) (ctr_num s) xs = (out, n, rest) \<Longrightarrow>
   bytewise (ctr_step E) s xs = (let (out', t) = bytewise (ctr_step E) (s\<lparr>ctr_num := n\<rparr>) rest in (out @ out', t))"
proof (induction xs arbitrary: s out)
  case (Cons x xs)
  show ?case
  proof (cases "ctr_num s = 0")
    case False
    then obtain out1 where h: "xor_head (ecount_buf s) ((ctr_num s + 1) mod 16) xs = (out1, n, rest)"
        and o: "out = (x XOR ecount_buf s ! ctr_num s) # out1"
      using Cons.prems by (auto split: prod.splits)
    have "ctr_step E s x = (x XOR ecount_buf s ! ctr_num s, s\<lparr>ctr_num := (ctr_num s + 1) mod 16\<rparr>)"
      using False by (simp add: ctr_step_def)
    with Cons.IH [of "s\<lparr>ctr_num := (ctr_num s + 1) mod 16\<rparr>" out1] h o show ?thesis by (simp add: split_beta Let_def)
  qed (use Cons.prems in auto)
qed simp

lemma ctr_blocks_bytewise:
  assumes "block_fun E" and "length (ctr_ivec s) = 16" and "ctr_num s = 0"
    and "ctr_blocks E (ctr_ivec s) (ecount_buf s) xs = (out, iv, ec, rest)"
  shows "bytewise (ctr_step E) s xs =
      (let (out', t) = bytewise (ctr_step E) \<lparr>ctr_ivec = iv, ecount_buf = ec, ctr_num = 0\<rparr> rest in (out @ out', t)) \<and>
    length rest < 16 \<and> length iv = 16"
  using assms(2-4)
proof (induction "length xs" arbitrary: xs s out rule: less_induct)
  case less
  show ?case
  proof (cases "16 \<le> length xs")
    case False
    then show ?thesis using less.prems by (cases s) (auto simp: ctr_blocks.simps split_beta)
  next
    case True
    let ?ec = "E (ctr_ivec s)" and ?iv = "ctr128_inc (ctr_ivec s)"
    let ?t = "\<lparr>ctr_ivec = ?iv, ecount_buf = ?ec, ctr_num = 0\<rparr>"
    have le: "length ?ec = 16" using assms(1) less.prems(1) by (simp add: block_funD)
    obtain out1 where r: "ctr_blocks E ?iv ?ec (drop 16 xs) = (out1, iv, ec, rest)" and o: "out = xor_block xs ?ec @ out1"
      using less.prems(3) True by (subst (asm) ctr_blocks.simps) (auto simp: Let_def split: prod.splits)
    have b: "bytewise (ctr_step E) s (take 16 xs) = (xor_block xs ?ec, ?t)"
      using ctr_from_start [of s "take 16 xs" E] less.prems(2) True le by (cases "xs = []") (simp_all add: xor_block_eq)
    have len: "length (drop 16 xs) < length xs" using True by simp
    from less.hyps [OF len, of ?t out1] r less.prems(1) b o bytewise_append [of "ctr_step E" s "take 16 xs" "drop 16 xs"]
    show ?thesis by (simp add: split_beta ctr128_inc_def Let_def)
  qed
qed

lemma ctr_bytewise:
  assumes "ctr_ok E s"
  shows "CRYPTO_ctr128_encrypt E s xs = bytewise (ctr_step E) s xs"
proof -
  have ok: "block_fun E" "length (ctr_ivec s) = 16" "ctr_num s < 16" using assms by (simp_all add: ctr_ok_def)
  obtain out1 n rest where h: "xor_head (ecount_buf s) (ctr_num s) xs = (out1, n, rest)" by (metis prod_cases3)
  note hb = ctr_head_bytewise [OF h, of E]
  obtain out2 iv ec tail where b: "ctr_blocks E (ctr_ivec s) (ecount_buf s) rest = (out2, iv, ec, tail)" by (metis prod_cases4)
  show ?thesis
  proof (cases "rest = []")
    case True
    then have "out2 = []" "iv = ctr_ivec s" "ec = ecount_buf s" "tail = []" using b by (simp_all add: ctr_blocks.simps)
    then show ?thesis using hb h b True by (cases s) (simp add: CRYPTO_ctr128_encrypt_def)
  next
    case False
    then have n: "n = 0" using xor_head_rest [OF h] by simp
    let ?s = "s\<lparr>ctr_num := 0\<rparr>" and ?t = "\<lparr>ctr_ivec = iv, ecount_buf = ec, ctr_num = 0\<rparr>"
    have bb: "bytewise (ctr_step E) ?s rest = (let (out', t) = bytewise (ctr_step E) ?t tail in (out2 @ out', t))"
        "length tail < 16" "length iv = 16"
      using ctr_blocks_bytewise [OF ok(1), of ?s rest out2 iv ec tail] ok b by simp_all
    show ?thesis
    proof (cases "tail = []")
      case True
      then show ?thesis using hb h b bb n by (simp add: CRYPTO_ctr128_encrypt_def)
    next
      case t: False
      have le: "length (E iv) = 16" using ok(1) bb(3) by (simp add: block_funD)
      have "bytewise (ctr_step E) ?t tail =
          (xor_bytes tail (E iv), \<lparr>ctr_ivec = ctr128_inc iv, ecount_buf = E iv, ctr_num = length tail\<rparr>)"
        using ctr_from_start [of ?t tail E] t bb(2) le by simp
      then show ?thesis using hb h b bb n t le
        by (simp add: CRYPTO_ctr128_encrypt_def xor_tail_eq Let_def)
    qed
  qed
qed

interpretation ctr: inverse_streams "CRYPTO_ctr128_encrypt E" "CRYPTO_ctr128_encrypt E" "ctr_step E" "ctr_step E" "ctr_ok E" for E
proof
  fix s x y s'
  assume "ctr_ok E s" and "ctr_step E s x = (y, s')"
  then show "ctr_step E s y = (x, s')" by (auto simp: ctr_step_def Let_def xor.assoc)
qed (simp_all add: ctr_step_ok ctr_bytewise)

text \<open>Output feedback: the vector itself is the key stream.\<close>

definition fb_ok :: "(bytes \<Rightarrow> bytes) \<Rightarrow> feedback_state \<Rightarrow> bool" where
  "fb_ok E s \<longleftrightarrow> block_fun E \<and> length (fb_ivec s) = 16 \<and> fb_num s < 16"

lemma fb_num_same [simp]: "fb_num s = n \<Longrightarrow> s\<lparr>fb_num := n\<rparr> = s"
  by (cases s) simp

lemma ofb_step_ok: "fb_ok E s \<Longrightarrow> fb_ok E (snd (ofb_step E s x))"
  by (simp add: fb_ok_def ofb_step_def Let_def block_funD)

lemma ofb_within:
  assumes "fb_num s = n" and "0 < n" and "n < 16" and "n + length xs \<le> 16" and "length (fb_ivec s) = 16"
  shows "bytewise (ofb_step E) s xs = (xor_bytes xs (drop n (fb_ivec s)), s\<lparr>fb_num := (n + length xs) mod 16\<rparr>)"
  using assms
proof (induction xs arbitrary: s n)
  case (Cons x xs)
  have d: "drop n (fb_ivec s) = fb_ivec s ! n # drop (Suc n) (fb_ivec s)"
    using Cons.prems by (simp add: Cons_nth_drop_Suc)
  show ?case
  proof (cases "xs = []")
    case True
    then show ?thesis using Cons.prems d by (simp add: ofb_step_def)
  next
    case False
    then have n: "Suc n < 16" using Cons.prems(4) by (cases xs) simp_all
    then show ?thesis using Cons.IH [of "s\<lparr>fb_num := Suc n\<rparr>" "Suc n"] Cons.prems d by (simp add: ofb_step_def [of E s])
  qed
qed simp

lemma ofb_from_start:
  assumes "fb_num s = 0" and "xs \<noteq> []" and "length xs \<le> 16" and "length (E (fb_ivec s)) = 16"
  shows "bytewise (ofb_step E) s xs = (xor_bytes xs (E (fb_ivec s)), \<lparr>fb_ivec = E (fb_ivec s), fb_num = length xs mod 16\<rparr>)"
proof -
  obtain x ys where xs: "xs = x # ys" using assms(2) by (cases xs) simp_all
  let ?s = "\<lparr>fb_ivec = E (fb_ivec s), fb_num = 1\<rparr>"
  have "ofb_step E s x = (x XOR E (fb_ivec s) ! 0, ?s)" using assms(1) by (simp add: ofb_step_def)
  moreover have "bytewise (ofb_step E) ?s ys = (xor_bytes ys (drop 1 (E (fb_ivec s))), ?s\<lparr>fb_num := (1 + length ys) mod 16\<rparr>)"
    using ofb_within [of ?s 1 ys E] assms(3,4) xs by simp
  moreover have "E (fb_ivec s) = E (fb_ivec s) ! 0 # drop 1 (E (fb_ivec s))"
    using assms(4) by (simp add: Cons_nth_drop_Suc)
  ultimately show ?thesis unfolding xs by simp (metis xor_bytes_simps(3))
qed

lemma ofb_head_bytewise:
  "xor_head (fb_ivec s) (fb_num s) xs = (out, n, rest) \<Longrightarrow>
   bytewise (ofb_step E) s xs = (let (out', t) = bytewise (ofb_step E) (s\<lparr>fb_num := n\<rparr>) rest in (out @ out', t))"
proof (induction xs arbitrary: s out)
  case (Cons x xs)
  show ?case
  proof (cases "fb_num s = 0")
    case False
    then obtain out1 where h: "xor_head (fb_ivec s) ((fb_num s + 1) mod 16) xs = (out1, n, rest)"
        and o: "out = (x XOR fb_ivec s ! fb_num s) # out1"
      using Cons.prems by (auto split: prod.splits)
    have "ofb_step E s x = (x XOR fb_ivec s ! fb_num s, s\<lparr>fb_num := (fb_num s + 1) mod 16\<rparr>)"
      using False by (simp add: ofb_step_def)
    with Cons.IH [of "s\<lparr>fb_num := (fb_num s + 1) mod 16\<rparr>" out1] h o show ?thesis by (simp add: split_beta Let_def)
  qed (use Cons.prems in auto)
qed simp

lemma ofb_blocks_bytewise:
  assumes "block_fun E" and "length iv = 16" and "ofb_blocks E iv xs = (out, iv', rest)"
  shows "bytewise (ofb_step E) \<lparr>fb_ivec = iv, fb_num = 0\<rparr> xs =
      (let (out', t) = bytewise (ofb_step E) \<lparr>fb_ivec = iv', fb_num = 0\<rparr> rest in (out @ out', t)) \<and>
    length rest < 16 \<and> length iv' = 16"
  using assms(2,3)
proof (induction "length xs" arbitrary: xs iv out rule: less_induct)
  case less
  show ?case
  proof (cases "16 \<le> length xs")
    case False
    then show ?thesis using less.prems by (auto simp: ofb_blocks.simps split_beta)
  next
    case True
    have le: "length (E iv) = 16" using assms(1) less.prems(1) by (simp add: block_funD)
    obtain out1 where r: "ofb_blocks E (E iv) (drop 16 xs) = (out1, iv', rest)" and o: "out = xor_block xs (E iv) @ out1"
      using less.prems(2) True by (subst (asm) ofb_blocks.simps) (auto simp: Let_def split: prod.splits)
    have b: "bytewise (ofb_step E) \<lparr>fb_ivec = iv, fb_num = 0\<rparr> (take 16 xs) = (xor_block xs (E iv), \<lparr>fb_ivec = E iv, fb_num = 0\<rparr>)"
      using ofb_from_start [of "\<lparr>fb_ivec = iv, fb_num = 0\<rparr>" "take 16 xs" E] True le by (cases "xs = []") (simp_all add: xor_block_eq)
    have len: "length (drop 16 xs) < length xs" using True by simp
    from less.hyps [OF len le r] b o bytewise_append [of "ofb_step E" "\<lparr>fb_ivec = iv, fb_num = 0\<rparr>" "take 16 xs" "drop 16 xs"]
    show ?thesis by (simp add: split_beta Let_def)
  qed
qed

lemma ofb_bytewise:
  assumes "fb_ok E s"
  shows "CRYPTO_ofb128_encrypt E s xs = bytewise (ofb_step E) s xs"
proof -
  have ok: "block_fun E" "length (fb_ivec s) = 16" "fb_num s < 16" using assms by (simp_all add: fb_ok_def)
  obtain out1 n rest where h: "xor_head (fb_ivec s) (fb_num s) xs = (out1, n, rest)" by (metis prod_cases3)
  note hb = ofb_head_bytewise [OF h, of E]
  obtain out2 iv tail where b: "ofb_blocks E (fb_ivec s) rest = (out2, iv, tail)" by (metis prod_cases3)
  show ?thesis
  proof (cases "rest = []")
    case True
    then have "out2 = []" "iv = fb_ivec s" "tail = []" using b by (simp_all add: ofb_blocks.simps)
    then show ?thesis using hb h b True by (cases s) (simp add: CRYPTO_ofb128_encrypt_def)
  next
    case False
    then have n: "n = 0" using xor_head_rest [OF h] by simp
    have s: "s\<lparr>fb_num := 0\<rparr> = \<lparr>fb_ivec = fb_ivec s, fb_num = 0\<rparr>" by (cases s) simp
    let ?t = "\<lparr>fb_ivec = iv, fb_num = 0\<rparr>"
    note bb = ofb_blocks_bytewise [OF ok(1,2) b]
    show ?thesis
    proof (cases "tail = []")
      case True
      then show ?thesis using hb h b bb n by (simp add: CRYPTO_ofb128_encrypt_def s)
    next
      case t: False
      have le: "length (E iv) = 16" using ok(1) bb by (simp add: block_funD)
      have "bytewise (ofb_step E) ?t tail = (xor_bytes tail (E iv), \<lparr>fb_ivec = E iv, fb_num = length tail\<rparr>)"
        using ofb_from_start [of ?t tail E] t bb le by simp
      then show ?thesis using hb h b bb n t le
        by (simp add: CRYPTO_ofb128_encrypt_def xor_tail_eq Let_def s)
    qed
  qed
qed

interpretation ofb: inverse_streams "CRYPTO_ofb128_encrypt E" "CRYPTO_ofb128_encrypt E" "ofb_step E" "ofb_step E" "fb_ok E" for E
proof
  fix s x y s'
  assume "fb_ok E s" and "ofb_step E s x = (y, s')"
  then show "ofb_step E s y = (x, s')" by (auto simp: ofb_step_def Let_def xor.assoc)
qed (simp_all add: ofb_step_ok ofb_bytewise)

text \<open>Cipher feedback: the vector is filled with ciphertext as it is used.\<close>

lemma cfb_step_ok: "fb_ok E s \<Longrightarrow> fb_ok E (snd (cfb_step enc E s x))"
  by (simp add: fb_ok_def cfb_step_def cfb_byte_def Let_def block_funD)

lemma cfb_within:
  assumes "0 < n" and "n < 16" and "n + length xs \<le> 16" and "length iv = 16"
  shows "bytewise (cfb_step enc E) \<lparr>fb_ivec = iv, fb_num = n\<rparr> xs =
    (xor_bytes xs (drop n iv),
     \<lparr>fb_ivec = mem_write iv n (if enc then xor_bytes xs (drop n iv) else xs), fb_num = (n + length xs) mod 16\<rparr>)"
  using assms
proof (induction xs arbitrary: iv n)
  case (Cons x xs)
  let ?y = "if enc then iv ! n XOR x else x"
  have d: "drop n iv = iv ! n # drop (Suc n) iv" using Cons.prems by (simp add: Cons_nth_drop_Suc)
  have w: "mem_write (iv[n := ?y]) (Suc n) ys = mem_write iv n (?y # ys)" for ys
    using mem_write_append [of n "[?y]" iv ys] Cons.prems by (simp add: mem_write_one)
  have step: "cfb_step enc E \<lparr>fb_ivec = iv, fb_num = n\<rparr> x = (iv ! n XOR x, \<lparr>fb_ivec = iv[n := ?y], fb_num = Suc n mod 16\<rparr>)"
    using Cons.prems by (simp add: cfb_step_def cfb_byte_def)
  show ?case
  proof (cases "xs = []")
    case True
    then show ?thesis using step d w [of "[]"] by (simp add: xor.commute)
  next
    case False
    then have n: "Suc n < 16" using Cons.prems(3) by (cases xs) simp_all
    have "bytewise (cfb_step enc E) \<lparr>fb_ivec = iv[n := ?y], fb_num = Suc n\<rparr> xs =
      (xor_bytes xs (drop (Suc n) iv),
       \<lparr>fb_ivec = mem_write (iv[n := ?y]) (Suc n) (if enc then xor_bytes xs (drop (Suc n) iv) else xs),
        fb_num = (n + length (x # xs)) mod 16\<rparr>)"
      using Cons.IH [of "Suc n" "iv[n := ?y]"] Cons.prems n by simp
    then show ?thesis using step d n by (simp add: w xor.commute)
  qed
qed simp

lemma cfb_from_start:
  assumes "xs \<noteq> []" and "length xs \<le> 16" and "length (E iv) = 16"
  shows "bytewise (cfb_step enc E) \<lparr>fb_ivec = iv, fb_num = 0\<rparr> xs =
    (xor_bytes xs (E iv),
     \<lparr>fb_ivec = mem_write (E iv) 0 (if enc then xor_bytes xs (E iv) else xs), fb_num = length xs mod 16\<rparr>)"
proof -
  obtain x ys where xs: "xs = x # ys" using assms(1) by (cases xs) simp_all
  let ?v = "E iv"
  define y where "y = (if enc then ?v ! 0 XOR x else x)"
  have step: "cfb_step enc E \<lparr>fb_ivec = iv, fb_num = 0\<rparr> x = (?v ! 0 XOR x, \<lparr>fb_ivec = ?v[0 := y], fb_num = 1\<rparr>)"
    by (simp add: cfb_step_def cfb_byte_def Let_def y_def)
  have w: "mem_write (?v[0 := y]) 1 zs = mem_write ?v 0 (y # zs)" for zs
    using mem_write_append [of 0 "[y]" ?v zs] assms(3) by (simp add: mem_write_one)
  have "?v = ?v ! 0 # drop 1 ?v" using assms(3) by (simp add: Cons_nth_drop_Suc)
  then have x: "xor_bytes xs ?v = (?v ! 0 XOR x) # xor_bytes ys (drop 1 ?v)" unfolding xs by (metis xor.commute xor_bytes_simps(3))
  have "bytewise (cfb_step enc E) \<lparr>fb_ivec = ?v[0 := y], fb_num = 1\<rparr> ys =
    (xor_bytes ys (drop 1 ?v), \<lparr>fb_ivec = mem_write ?v 0 (y # (if enc then xor_bytes ys (drop 1 ?v) else ys)),
      fb_num = length xs mod 16\<rparr>)"
    using cfb_within [of 1 ys "?v[0 := y]" enc E] assms xs by (simp only: w) simp
  moreover have "y # (if enc then xor_bytes ys (drop 1 ?v) else ys) = (if enc then xor_bytes xs ?v else xs)"
    by (simp add: y_def x) (simp add: xs)
  ultimately show ?thesis using step x by (simp add: xs)
qed

lemma cfb_head_bytewise:
  "cfb_head enc iv m xs = (out, iv', n, rest) \<Longrightarrow>
   bytewise (cfb_step enc E) \<lparr>fb_ivec = iv, fb_num = m\<rparr> xs =
     (let (out', t) = bytewise (cfb_step enc E) \<lparr>fb_ivec = iv', fb_num = n\<rparr> rest in (out @ out', t)) \<and>
   length iv' = length iv \<and> (rest \<noteq> [] \<longrightarrow> n = 0)"
proof (induction xs arbitrary: iv m out)
  case (Cons x xs)
  show ?case
  proof (cases "m = 0")
    case False
    obtain y iv1 where c: "cfb_byte enc iv m x = (y, iv1)" by force
    with Cons.prems False obtain out1 where h: "cfb_head enc iv1 ((m + 1) mod 16) xs = (out1, iv', n, rest)" and o: "out = y # out1"
      by (auto split: prod.splits)
    have "cfb_step enc E \<lparr>fb_ivec = iv, fb_num = m\<rparr> x = (y, \<lparr>fb_ivec = iv1, fb_num = (m + 1) mod 16\<rparr>)"
      using False c by (simp add: cfb_step_def)
    moreover have "length iv1 = length iv" using c by (auto simp: cfb_byte_def)
    ultimately show ?thesis using Cons.IH [OF h] o by (simp add: split_beta Let_def)
  qed (use Cons.prems in auto)
qed simp

lemma cfb_words_eq:
  assumes "16 \<le> length inp" and "length iv = 16"
  shows "cfb_words enc iv inp = (xor_bytes (take 16 inp) iv, if enc then xor_bytes (take 16 inp) iv else take 16 inp)"
proof -
  define a b c d where "a = take 8 inp" and "b = take 8 (drop 8 inp)" and "c = take 8 iv" and "d = take 8 (drop 8 iv)"
  have len: "length a = 8" "length b = 8" "length c = 8" "length d = 8" using assms by (simp_all add: a_def b_def c_def d_def)
  have t: "take 16 inp = a @ b" "iv = c @ d" using assms take_add [of 8 8 inp] take_add [of 8 8 iv]
    by (simp_all add: a_def b_def c_def d_def)
  have w: "store_word_le (e @ d) 8 v = e @ le_bytes 8 (unat v)" if "length e = 8" for e v
    using that len by (simp add: store_word_le_def mem_write_def)
  have l: "load_word_le (e @ d) 8 = of_nat (le_nat d)" if "length e = 8" for e
    using that len by (simp add: load_word_le_def)
  have s: "store_word_le (c @ d) 0 v = le_bytes 8 (unat v) @ d" for v using len by (simp add: store_word_le_def mem_write_def)
  have i: "load_word_le inp 0 = of_nat (le_nat a)" "load_word_le inp 8 = of_nat (le_nat b)" "load_word_le (c @ d) 0 = of_nat (le_nat c)"
    using len by (simp_all add: load_word_le_def a_def b_def)
  have x: "xor_bytes (take 16 inp) iv = xor_bytes a c @ xor_bytes b d"
    using len xor_bytes_append [of a c b d] t by simp
  show ?thesis
    using len le_bytes_le_nat [of a] le_bytes_le_nat [of b]
    by (simp add: cfb_words_def Let_def x) (simp add: t s l w i xor_le_words xor_bytes_commute le_word_bytes)
qed

lemma cfb_tail_eq:
  assumes "length xs \<le> length iv"
  shows "cfb_tail enc iv 0 xs = (xor_bytes xs iv, mem_write iv 0 (if enc then xor_bytes xs iv else xs), length xs)"
proof -
  let ?z = "if enc then xor_bytes xs iv else xs"
  have "fold (\<lambda>i (out, ivec). let (y, ivec) = cfb_byte enc ivec i (xs ! i) in (out @ [y], ivec)) [0..<k] ([], iv) =
      (take k (xor_bytes xs iv), mem_write iv 0 (take k ?z))" if "k \<le> length xs" for k
    using that
  proof (induction k)
    case (Suc k)
    define v where "v = mem_write iv 0 (take k ?z)"
    have l: "length (take k ?z) = k" "length ?z = length xs" using Suc.prems assms by simp_all
    then have "0 + length (take k ?z) \<le> length iv" using Suc.prems assms by linarith
    then have v: "v ! k = iv ! k" "length v = length iv" using Suc.prems assms l(1) unfolding v_def
      by (simp_all only: nth_mem_write length_mem_write) simp
    have z: "?z ! k = (if enc then iv ! k XOR xs ! k else xs ! k)" using Suc.prems assms by (simp add: xor.commute)
    have "v[k := ?z ! k] = mem_write iv 0 (take (Suc k) ?z)"
      using Suc.prems assms l v mem_write_append [of 0 "take k ?z" iv "[?z ! k]"]
      by (simp add: mem_write_one take_Suc_conv_app_nth [of k ?z] flip: v_def)
    moreover have "take (Suc k) (xor_bytes xs iv) = take k (xor_bytes xs iv) @ [iv ! k XOR xs ! k]"
      using Suc.prems assms by (simp add: take_Suc_conv_app_nth xor.commute)
    moreover have "fold (\<lambda>i (out, ivec). let (y, ivec) = cfb_byte enc ivec i (xs ! i) in (out @ [y], ivec)) [0..<k] ([], iv) =
        (take k (xor_bytes xs iv), v)" using Suc by (simp add: v_def)
    ultimately show ?case using z v by (cases enc) (simp_all add: cfb_byte_def)
  qed simp
  from this [of "length xs"] assms show ?thesis by (simp add: cfb_tail_def)
qed

lemma cfb_blocks_bytewise:
  assumes "block_fun E" and "length iv = 16" and "cfb_blocks enc E iv xs = (out, iv', rest)"
  shows "bytewise (cfb_step enc E) \<lparr>fb_ivec = iv, fb_num = 0\<rparr> xs =
      (let (out', t) = bytewise (cfb_step enc E) \<lparr>fb_ivec = iv', fb_num = 0\<rparr> rest in (out @ out', t)) \<and>
    length rest < 16 \<and> length iv' = 16"
  using assms(2,3)
proof (induction "length xs" arbitrary: xs iv out rule: less_induct)
  case less
  show ?case
  proof (cases "16 \<le> length xs")
    case False
    then show ?thesis using less.prems by (auto simp: cfb_blocks.simps split_beta)
  next
    case True
    have le: "length (E iv) = 16" using assms(1) less.prems(1) by (simp add: block_funD)
    let ?o = "xor_bytes (take 16 xs) (E iv)"
    let ?c = "if enc then ?o else take 16 xs"
    obtain out1 where r: "cfb_blocks enc E ?c (drop 16 xs) = (out1, iv', rest)" and o: "out = ?o @ out1"
      using less.prems(2) True le by (subst (asm) cfb_blocks.simps) (auto simp: Let_def cfb_words_eq split: prod.splits)
    have lc: "length ?c = 16" using True le by simp
    have m: "mem_write (E iv) 0 ?c = ?c" using True le by (simp add: mem_write_def)
    have b: "bytewise (cfb_step enc E) \<lparr>fb_ivec = iv, fb_num = 0\<rparr> (take 16 xs) = (?o, \<lparr>fb_ivec = ?c, fb_num = 0\<rparr>)"
    proof -
      have "take 16 xs \<noteq> []" "length (take 16 xs) \<le> 16" "length (take 16 xs) = 16" using True by (auto simp: min_def)
      from cfb_from_start [of "take 16 xs" E iv enc, OF this(1,2) le] this(3) m show ?thesis by simp
    qed
    have len: "length (drop 16 xs) < length xs" using True by simp
    from less.hyps [OF len lc r] b o bytewise_append [of "cfb_step enc E" "\<lparr>fb_ivec = iv, fb_num = 0\<rparr>" "take 16 xs" "drop 16 xs"]
    show ?thesis by (simp add: split_beta Let_def)
  qed
qed

lemma cfb_bytewise:
  assumes "fb_ok E s"
  shows "CRYPTO_cfb128_encrypt enc E s xs = bytewise (cfb_step enc E) s xs"
proof -
  have ok: "block_fun E" "length (fb_ivec s) = 16" "fb_num s < 16" using assms by (simp_all add: fb_ok_def)
  obtain out1 iv1 n rest where h: "cfb_head enc (fb_ivec s) (fb_num s) xs = (out1, iv1, n, rest)" by (metis prod_cases4)
  note hb = cfb_head_bytewise [OF h, of E]
  then have l1: "length iv1 = 16" using ok(2) by simp
  obtain out2 iv tail where b: "cfb_blocks enc E iv1 rest = (out2, iv, tail)" by (metis prod_cases3)
  show ?thesis
  proof (cases "rest = []")
    case True
    then have "out2 = []" "iv = iv1" "tail = []" using b by (simp_all add: cfb_blocks.simps)
    then show ?thesis using hb h b True by (cases s) (simp add: CRYPTO_cfb128_encrypt_def)
  next
    case False
    then have n: "n = 0" using hb by simp
    let ?t = "\<lparr>fb_ivec = iv, fb_num = 0\<rparr>"
    note bb = cfb_blocks_bytewise [OF ok(1) l1 b]
    show ?thesis
    proof (cases "tail = []")
      case True
      then show ?thesis using hb h b bb n by (cases s) (simp add: CRYPTO_cfb128_encrypt_def)
    next
      case t: False
      have le: "length (E iv) = 16" using ok(1) bb by (simp add: block_funD)
      have "bytewise (cfb_step enc E) ?t tail = (xor_bytes tail (E iv),
          \<lparr>fb_ivec = mem_write (E iv) 0 (if enc then xor_bytes tail (E iv) else tail), fb_num = length tail\<rparr>)"
        using cfb_from_start [of tail E iv enc] t bb le by simp
      then show ?thesis using hb h b bb n t le
        by (cases s) (simp add: CRYPTO_cfb128_encrypt_def cfb_tail_eq Let_def)
    qed
  qed
qed

interpretation cfb: inverse_streams "CRYPTO_cfb128_encrypt True E" "CRYPTO_cfb128_encrypt False E"
    "cfb_step True E" "cfb_step False E" "fb_ok E" for E
proof
  fix s x y s'
  assume "fb_ok E s" and "cfb_step True E s x = (y, s')"
  then show "cfb_step False E s y = (x, s')"
    by (auto simp: cfb_step_def cfb_byte_def Let_def xor.assoc [symmetric] fb_ok_def block_funD)
qed (simp_all add: cfb_step_ok cfb_bytewise)

text \<open>With eight bits of feedback.\<close>

definition iv_ok8 :: "(bytes \<Rightarrow> bytes) \<Rightarrow> bytes \<Rightarrow> bool" where
  "iv_ok8 E iv \<longleftrightarrow> block_fun E \<and> length iv = 16"

lemma cfbr_eight:
  assumes "iv_ok8 E iv"
  shows "cfbr_encrypt_block enc E [x] 8 iv = (case cfb8_step enc E iv x of (y, iv) \<Rightarrow> ([y], iv))"
proof -
  have l: "length iv = 16" "length (E iv) = 16" using assms by (simp_all add: iv_ok8_def block_funD)
  then have h: "hd (E iv) = E iv ! 0" by (cases "E iv") simp_all
  have "take 16 (drop (Suc 0) (mem_write (mem_write (replicate 33 0) 0 iv) 16 [z])) = drop (Suc 0) iv @ [z]" for z :: u8
    using l by (simp add: mem_write_def)
  then show ?thesis using l by (simp add: cfbr_encrypt_block_def cfb8_step_def Let_def h)
qed

lemma cfb8_bytewise:
  assumes "iv_ok8 E iv"
  shows "CRYPTO_cfb128_8_encrypt enc E iv xs = bytewise (cfb8_step enc E) iv xs"
proof -
  have "fold (\<lambda>x (out, ivec). let (d, ivec) = cfbr_encrypt_block enc E [x] 8 ivec in (out @ d, ivec)) xs (out, iv) =
      (out @ fst (bytewise (cfb8_step enc E) iv xs), snd (bytewise (cfb8_step enc E) iv xs))" for out
    using assms
  proof (induction xs arbitrary: out iv)
    case (Cons x xs)
    have "iv_ok8 E (snd (cfb8_step enc E iv x))" using Cons.prems by (simp add: iv_ok8_def cfb8_step_def Let_def)
    with Cons show ?case by (simp add: cfbr_eight split_beta Let_def)
  qed simp
  then show ?thesis by (simp add: CRYPTO_cfb128_8_encrypt_def)
qed

interpretation cfb8: inverse_streams "CRYPTO_cfb128_8_encrypt True E" "CRYPTO_cfb128_8_encrypt False E"
    "cfb8_step True E" "cfb8_step False E" "iv_ok8 E" for E
proof
  fix s x y s'
  assume "iv_ok8 E s" and "cfb8_step True E s x = (y, s')"
  then show "cfb8_step False E s y = (x, s')" by (auto simp: cfb8_step_def Let_def xor.assoc)
qed (auto simp: cfb8_bytewise iv_ok8_def cfb8_step_def Let_def)

section \<open>One bit of feedback\<close>

definition cfb1_step :: "bool \<Rightarrow> (bytes \<Rightarrow> bytes) \<Rightarrow> bytes \<Rightarrow> bool \<Rightarrow> bool \<times> bytes" where
  "cfb1_step enc E iv b =
     (let y = (b \<noteq> bit (E iv ! 0) 7);
          w = iv @ [if (if enc then y else b) then 0x80 else 0]
      in (y, map (\<lambda>n. push_bit 1 (w ! n) OR drop_bit 7 (w ! (n + 1))) [0..<16]))"

text \<open>Bit \<open>n\<close> of a buffer, most significant bit first.\<close>

definition bit_at :: "bytes \<Rightarrow> nat \<Rightarrow> bool" where
  "bit_at buf n = bit (buf ! (n div 8)) (7 - n mod 8)"

lemma top_bit: "(c :: u8) AND push_bit k 1 \<noteq> 0 \<longleftrightarrow> bit c k"
  by (metis and_exp_eq_0_iff_not_bit push_bit_of_1)

lemma drop_bit_7: "drop_bit 7 (c :: u8) = of_bool (bit c 7)"
proof (rule bit_eqI)
  fix n
  show "bit (drop_bit 7 c) n = bit (of_bool (bit c 7) :: u8) n"
    by (cases n) (auto simp: bit_simps dest: bit_imp_le_length)
qed

lemma bit_0x80: "bit (0x80 :: u8) n \<longleftrightarrow> n = 7"
proof -
  have "(0x80 :: u8) = push_bit 7 1" by simp
  then show ?thesis by (simp only: bit_push_bit_iff) (auto simp: bit_1_iff)
qed

lemma cfbr_one:
  assumes "iv_ok8 E iv" and "cfbr_encrypt_block enc E [if b then 0x80 else 0] 1 iv = (d, iv')"
  shows "cfb1_step enc E iv b = (bit (hd d) 7, iv')" and "iv_ok8 E iv'"
proof -
  have l: "length iv = 16" "length (E iv) = 16" using assms(1) by (simp_all add: iv_ok8_def block_funD)
  let ?c = "if b then 0x80 else 0 :: u8"
  let ?z = "if enc then [?c XOR E iv ! 0] else [?c]"
  let ?o = "mem_write (mem_write (replicate 33 0) 0 iv) 16 ?z"
  have d: "d = [?c XOR E iv ! 0]" and iv': "iv' = map (\<lambda>n. push_bit 1 (?o ! n) OR drop_bit 7 (?o ! (n + 1))) [0..<16]"
    using assms(2) l by (auto simp: cfbr_encrypt_block_def Let_def)
  have o: "?o ! n = (if n < 16 then iv ! n else hd ?z)" if "n \<le> 16" for n
    using that l by (auto simp: mem_write_def nth_append)
  have y: "bit (hd d) 7 \<longleftrightarrow> b \<noteq> bit (E iv ! 0) 7" by (auto simp: d bit_simps bit_0x80)
  have "drop_bit 7 (hd ?z) = drop_bit 7 (if (if enc then b \<noteq> bit (E iv ! 0) 7 else b) then 0x80 else 0)"
    by (auto simp: drop_bit_7 bit_simps bit_0x80)
  then show "cfb1_step enc E iv b = (bit (hd d) 7, iv')"
    unfolding cfb1_step_def Let_def y iv' using l
    by (auto simp: o nth_append simp del: upt_Suc intro!: map_cong)
  show "iv_ok8 E iv'" using assms(1) by (simp add: iv_ok8_def iv')
qed

text \<open>The loop over the bits of a buffer.\<close>

lemma set_bit_at:
  assumes "n div 8 < length out" and "m div 8 < length out"
  shows "bit_at (out[n div 8 := (out ! (n div 8) AND NOT (push_bit (7 - n mod 8) 1)) OR drop_bit (n mod 8) (d AND 0x80)]) m =
    (if m = n then bit d 7 else bit_at out m)"
proof -
  have r: "bit (drop_bit (n mod 8) (d AND 0x80)) j \<longleftrightarrow> j = 7 - n mod 8 \<and> bit d 7" for j
  proof -
    have "n mod 8 < 8" by simp
    then have "n mod 8 + j = 7 \<longleftrightarrow> j = 7 - n mod 8" by linarith
    then show ?thesis unfolding bit_drop_bit_eq comp_def bit_and_iff bit_0x80 by auto
  qed
  have p: "bit (push_bit (7 - n mod 8) 1 :: u8) j \<longleftrightarrow> j = 7 - n mod 8" for j
  proof -
    have "7 - n mod 8 < 8" by simp
    then show ?thesis unfolding bit_push_bit_iff by (auto simp: bit_1_iff)
  qed
  have j: "7 - m mod 8 < 8" by simp
  show ?thesis
  proof (cases "m div 8 = n div 8")
    case True
    have "7 - m mod 8 = 7 - n mod 8 \<longleftrightarrow> m = n"
    proof
      assume "7 - m mod 8 = 7 - n mod 8"
      moreover have "m mod 8 < 8" "n mod 8 < 8" by simp_all
      ultimately have "m mod 8 = n mod 8" by linarith
      with True show "m = n" by (metis div_mult_mod_eq)
    qed simp
    then show ?thesis using True assms j by (auto simp: bit_at_def bit_or_iff bit_and_iff bit_not_iff p r simp del: drop_bit_and push_bit_of_1)
  next
    case False
    then show ?thesis by (auto simp: bit_at_def)
  qed
qed

lemma cfb1_bitwise:
  assumes "iv_ok8 E iv" and "k \<le> 8 * length out" and "k \<le> 8 * length inp"
  defines "bs \<equiv> map (bit_at inp) [0..<k]"
  assumes "CRYPTO_cfb128_1_encrypt enc E iv out inp k = (out', iv')"
  shows "map (bit_at out') [0..<k] = fst (bytewise (cfb1_step enc E) iv bs) \<and> iv' = snd (bytewise (cfb1_step enc E) iv bs) \<and>
    length out' = length out \<and> iv_ok8 E iv'"
  using assms(2,3,5) unfolding bs_def
proof (induction k arbitrary: out' iv')
  case 0
  with assms(1) show ?case by (simp add: CRYPTO_cfb128_1_encrypt_def)
next
  case (Suc k)
  obtain out1 iv1 where r: "CRYPTO_cfb128_1_encrypt enc E iv out inp k = (out1, iv1)" by force
  have "k \<le> 8 * length out" "k \<le> 8 * length inp" using Suc.prems by simp_all
  from Suc.IH [OF this r]
  have ih: "map (bit_at out1) [0..<k] = fst (bytewise (cfb1_step enc E) iv (map (bit_at inp) [0..<k]))"
      "iv1 = snd (bytewise (cfb1_step enc E) iv (map (bit_at inp) [0..<k]))" "length out1 = length out" "iv_ok8 E iv1" by blast+
  obtain d iv2 where c: "cfbr_encrypt_block enc E [if bit_at inp k then 0x80 else 0] 1 iv1 = (d, iv2)" by force
  have k: "k div 8 < length out1" using Suc.prems(1) ih(3) by (simp add: less_mult_imp_div_less mult.commute)
  have e: "out' = out1[k div 8 := (out1 ! (k div 8) AND NOT (push_bit (7 - k mod 8) 1)) OR drop_bit (k mod 8) (hd d AND 0x80)]"
      "iv' = iv2"
    using Suc.prems(3) r c 
    by (auto simp: CRYPTO_cfb128_1_encrypt_def top_bit bit_at_def simp del: push_bit_of_1 drop_bit_and)
  have b: "bit_at out' m = (if m = k then bit (hd d) 7 else bit_at out1 m)" if "m \<le> k" for m
    using set_bit_at [OF k, of m "hd d"] that k div_le_mono [OF that, of 8] by (simp add: e(1))
  then have "map (bit_at out') [0..<Suc k] = map (bit_at out1) [0..<k] @ [bit (hd d) 7]" by simp
  with ih cfbr_one [OF ih(4) c] e show ?case by (simp add: bytewise_append split_beta)
qed

interpretation cfb1: inverse_streams "bytewise (cfb1_step True E)" "bytewise (cfb1_step False E)"
    "cfb1_step True E" "cfb1_step False E" "iv_ok8 E" for E
proof
  fix s x y s'
  assume "cfb1_step True E s x = (y, s')"
  then show "cfb1_step False E s y = (x, s')" by (auto simp: cfb1_step_def Let_def)
qed (auto simp: iv_ok8_def cfb1_step_def Let_def)

section \<open>Properties\<close>

text \<open>C25.
  Each streaming mode is inverted by its own decryption, however the two sides cut the data into calls, and both end in the same state: counter
  mode and output feedback by themselves, cipher feedback of 128 and of 8 bits by their decryption.
\<close>

theorem stream_sessions_inverse:
  assumes E: "block_fun E" and iv: "length iv = 16" "length ec = 16" "n < 16"
  defines "s \<equiv> \<lparr>ctr_ivec = iv, ecount_buf = ec, ctr_num = n\<rparr>" and "f \<equiv> \<lparr>fb_ivec = iv, fb_num = n\<rparr>"
  shows "(case updates (CRYPTO_ctr128_encrypt E) s xss of (ys, t) \<Rightarrow>
      concat yss = ys \<longrightarrow> updates (CRYPTO_ctr128_encrypt E) s yss = (concat xss, t)) \<and>
    (case updates (CRYPTO_ofb128_encrypt E) f xss of (ys, t) \<Rightarrow>
      concat yss = ys \<longrightarrow> updates (CRYPTO_ofb128_encrypt E) f yss = (concat xss, t)) \<and>
    (case updates (CRYPTO_cfb128_encrypt True E) f xss of (ys, t) \<Rightarrow>
      concat yss = ys \<longrightarrow> updates (CRYPTO_cfb128_encrypt False E) f yss = (concat xss, t)) \<and>
    (case updates (CRYPTO_cfb128_8_encrypt True E) iv xss of (ys, t) \<Rightarrow>
      concat yss = ys \<longrightarrow> updates (CRYPTO_cfb128_8_encrypt False E) iv yss = (concat xss, t))"
proof -
  have "ctr_ok E s" "fb_ok E f" "iv_ok8 E iv" using E iv by (simp_all add: ctr_ok_def fb_ok_def iv_ok8_def s_def f_def)
  then show ?thesis
    using ctr.sessions_inverse [of E s xss _ _ yss] ofb.sessions_inverse [of E f xss _ _ yss]
      cfb.sessions_inverse [of E f xss _ _ yss] cfb8.sessions_inverse [of E iv xss _ _ yss]
    by (simp split: prod.splits)
qed

lemma stream_sessions_inverse_witness:
  "updates (CRYPTO_cfb128_encrypt False rev) \<lparr>fb_ivec = replicate 16 1, fb_num = 0\<rparr>
     [fst (updates (CRYPTO_cfb128_encrypt True rev) \<lparr>fb_ivec = replicate 16 1, fb_num = 0\<rparr> [[1, 2, 3], replicate 30 4])] =
   ([1, 2, 3] @ replicate 30 4,
    snd (updates (CRYPTO_cfb128_encrypt True rev) \<lparr>fb_ivec = replicate 16 1, fb_num = 0\<rparr> [[1, 2, 3], replicate 30 4]))"
proof -
  let ?xss = "[[1, 2, 3], replicate 30 4]" and ?f = "\<lparr>fb_ivec = replicate 16 1, fb_num = 0\<rparr>"
  have "block_fun rev" by (simp add: block_fun_def)
  from stream_sessions_inverse [OF this, where iv = "replicate 16 1" and ec = "replicate 16 0" and n = 0 and xss = ?xss
      and yss = "[fst (updates (CRYPTO_cfb128_encrypt True rev) ?f ?xss)]"]
  show ?thesis by (simp add: split_beta del: updates.simps)
qed

text \<open>Cipher feedback of one bit is inverted bit by bit: encrypting some bits of a buffer into one buffer and decrypting them into another gives the
  bits back and the same vector.
\<close>

theorem cfb1_roundtrip:
  assumes "block_fun E" and "length iv = 16" and "bits \<le> 8 * length inp" and "bits \<le> 8 * length mid" and "bits \<le> 8 * length out"
    and enc: "CRYPTO_cfb128_1_encrypt True E iv mid inp bits = (mid', iv1)"
    and dec: "CRYPTO_cfb128_1_encrypt False E iv out mid' bits = (out', iv2)"
  shows "map (bit_at out') [0..<bits] = map (bit_at inp) [0..<bits] \<and> iv2 = iv1"
proof -
  have ok: "iv_ok8 E iv" using assms(1,2) by (simp add: iv_ok8_def)
  let ?bs = "map (bit_at inp) [0..<bits]"
  have e: "map (bit_at mid') [0..<bits] = fst (bytewise (cfb1_step True E) iv ?bs)" "iv1 = snd (bytewise (cfb1_step True E) iv ?bs)"
      "length mid' = length mid"
    using cfb1_bitwise [OF ok assms(4,3) enc] by blast+
  have "bits \<le> 8 * length mid'" using assms(4) e(3) by simp
  from cfb1_bitwise [OF ok assms(5) this dec]
  have "map (bit_at out') [0..<bits] = fst (bytewise (cfb1_step False E) iv (map (bit_at mid') [0..<bits]))"
      "iv2 = snd (bytewise (cfb1_step False E) iv (map (bit_at mid') [0..<bits]))" by blast+
  then show ?thesis
    using cfb1.bytewise_inverse [OF ok, of ?bs "fst (bytewise (cfb1_step True E) iv ?bs)" "snd (bytewise (cfb1_step True E) iv ?bs)"] e
    by simp
qed

lemma cfb1_roundtrip_witness:
  "case CRYPTO_cfb128_1_encrypt True rev (replicate 16 3) [0, 0] [0x5a, 0xff] 11 of (mid, iv1) \<Rightarrow>
   case CRYPTO_cfb128_1_encrypt False rev (replicate 16 3) [0, 0] mid 11 of (out, iv2) \<Rightarrow>
     map (bit_at out) [0..<11] = map (bit_at [0x5a, 0xff]) [0..<11] \<and> iv2 = iv1"
proof -
  obtain mid iv1 where e: "CRYPTO_cfb128_1_encrypt True rev (replicate 16 3) [0, 0] [0x5a, 0xff] 11 = (mid, iv1)" by force
  obtain out iv2 where d: "CRYPTO_cfb128_1_encrypt False rev (replicate 16 3) [0, 0] mid 11 = (out, iv2)" by force
  from cfb1_roundtrip [OF _ _ _ _ _ e d] show ?thesis unfolding e prod.case d by (simp add: block_fun_def del: upt_Suc)
qed

end
