(* ===== verification/Counter.thy ===== *)
theory Counter
  imports StreamModes
begin

text \<open>
  The counter of \<^verbatim>\<open>fipsmodule/modes/ctr.c\<close> as a number: \<open>ctr_add iv k\<close> is the counter \<open>k\<close> blocks later.  The increments of the code, over 128 and over
  96 bits, are that addition, and counter mode over whole blocks is \<open>ctr_xor\<close>.  The last section compares the two implementations of the mode.
\<close>

section \<open>The counter\<close>

lemma inc_loop_adds:
  assumes "n \<le> length xs" and "unat c < 256"
  shows "be_nat (take n (inc_loop n c xs)) = (be_nat (take n xs) + unat c) mod 256 ^ n \<and> drop n (inc_loop n c xs) = drop n xs"
  using assms
proof (induction n arbitrary: c xs)
  case (Suc n)
  define s where "s = unat c + unat (xs ! n)"
  have s: "s < 512" using Suc.prems(2) unat_less_256 [of "xs ! n"] unfolding s_def by linarith
  have c: "unat (c + ucast (xs ! n)) = s"
    using s by (simp add: unat_word_ariths unsigned_ucast_eq take_bit_nat_eq_self s_def)
  define ys where "ys = inc_loop n (drop_bit 8 (c + ucast (xs ! n))) (xs[n := ucast (c + ucast (xs ! n))])"
  have d: "unat (drop_bit 8 (c + ucast (xs ! n))) = s div 256" by (simp add: unat_drop_bit_div c)
  have "s div 256 < 256" using s by simp
  then have ih: "be_nat (take n ys) = (be_nat (take n xs) + s div 256) mod 256 ^ n"
      "drop n ys = of_nat s # drop (Suc n) xs"
    using Suc.IH [of "xs[n := ucast (c + ucast (xs ! n))]" "drop_bit 8 (c + ucast (xs ! n))"] Suc.prems(1)
    by (simp_all add: d ys_def drop_update_swap ucast_byte_unat c Cons_nth_drop_Suc [symmetric])
  have n: "n < length ys" using Suc.prems(1) by (simp add: ys_def)
  then have y: "ys ! n = of_nat s" "drop (Suc n) ys = drop (Suc n) xs"
    using ih(2) by (simp_all add: Cons_nth_drop_Suc [symmetric])
  have "be_nat (take (Suc n) ys) = (be_nat (take n xs) + s div 256) mod 256 ^ n * 256 + s mod 256"
    using n by (simp add: take_Suc_conv_app_nth ih(1) y(1) byte_simps)
  also have "\<dots> = ((be_nat (take n xs) + s div 256) * 256 + s mod 256) mod 256 ^ Suc n"
    using mod_mult2_eq [of "(be_nat (take n xs) + s div 256) * 256 + s mod 256" 256 "256 ^ n"] by simp
  also have "(be_nat (take n xs) + s div 256) * 256 + s mod 256 = be_nat (take n xs) * 256 + s" by (simp add: algebra_simps)
  also have "\<dots> = be_nat (take (Suc n) xs) + unat c" using Suc.prems(1) by (simp add: take_Suc_conv_app_nth s_def)
  finally show ?case using y(2) by (simp add: Let_def flip: ys_def)
qed simp

definition ctr_add :: "bytes \<Rightarrow> nat \<Rightarrow> bytes" where
  "ctr_add iv k = be_bytes 16 (be_nat iv + k)"

lemma length_ctr_add [simp]: "length (ctr_add iv k) = 16"
  by (simp add: ctr_add_def)

lemma ctr_add_0: "length iv = 16 \<Longrightarrow> ctr_add iv 0 = iv"
  using be_bytes_be_nat [of iv] by (simp add: ctr_add_def)

lemma ctr_add_add: "ctr_add (ctr_add iv j) k = ctr_add iv (j + k)"
proof -
  have "((be_nat iv + j) mod 256 ^ 16 + k) mod 256 ^ 16 = (be_nat iv + (j + k)) mod 256 ^ 16"
    by (simp add: mod_simps add.assoc)
  then have "be_bytes 16 ((be_nat iv + j) mod 256 ^ 16 + k) = be_bytes 16 (be_nat iv + (j + k))"
    by (metis be_bytes_mod)
  then show ?thesis by (simp only: ctr_add_def be_nat_be_bytes)
qed

lemma ctr128_inc_add: "length iv = 16 \<Longrightarrow> ctr128_inc iv = ctr_add iv 1"
  using inc_loop_adds [of 16 iv 1] be_bytes_be_nat [of "ctr128_inc iv"] be_bytes_mod [of 16 "be_nat iv + 1"]
  by (simp add: ctr128_inc_def ctr_add_def)

definition low32 :: "bytes \<Rightarrow> nat" where
  "low32 iv = be_nat (drop 12 iv)"

lemma low32_less: "length iv = 16 \<Longrightarrow> low32 iv < 2 ^ 32"
  using be_nat_less [of "drop 12 iv"] by (simp add: low32_def)

text \<open>Counting in 32 bits until they are used up, and carrying.\<close>

lemma ctr_add_low:
  assumes "length iv = 16" and "low32 iv + k \<le> 2 ^ 32"
  shows "ctr_add iv k = (if low32 iv + k < 2 ^ 32 then take 12 iv @ be_bytes 4 (low32 iv + k)
    else ctr96_inc (take 12 iv @ be_bytes 4 0))"
proof -
  define hi where "hi = be_nat (take 12 iv)"
  have e: "be_nat iv = hi * 2 ^ 32 + low32 iv"
    using be_nat_append [of "take 12 iv" "drop 12 iv"] assms(1) by (simp add: hi_def low32_def)
  have a: "ctr_add iv k = be_bytes 12 (hi + (low32 iv + k) div 2 ^ 32) @ be_bytes 4 (low32 iv + k)"
    using be_bytes_append [of 12 4 "be_nat iv + k"] be_bytes_mod [of 4 "be_nat iv + k"] be_bytes_mod [of 4 "low32 iv + k"]
    by (simp add: ctr_add_def e add.assoc mod_simps)
  show ?thesis
  proof (cases "low32 iv + k < 2 ^ 32")
    case True
    then show ?thesis using a be_bytes_be_nat [of "take 12 iv"] assms(1) by (simp add: hi_def)
  next
    case False
    then have f: "low32 iv + k = 2 ^ 32" using assms(2) by simp
    let ?v = "take 12 iv @ be_bytes 4 0"
    have "be_nat (take 12 (ctr96_inc ?v)) = (hi + 1) mod 256 ^ 12 \<and> drop 12 (ctr96_inc ?v) = be_bytes 4 0"
      using inc_loop_adds [of 12 ?v 1] assms(1) by (simp add: ctr96_inc_def hi_def)
    moreover have "length (take 12 (ctr96_inc ?v)) = 12" using assms(1) by (simp add: ctr96_inc_def)
    ultimately have "ctr96_inc ?v = be_bytes 12 (hi + 1) @ be_bytes 4 0"
      by (metis append_take_drop_id be_bytes_be_nat be_bytes_mod)
    moreover have "be_bytes 4 (2 ^ 32) = be_bytes 4 0" using be_bytes_mod [of 4 "2 ^ 32"] by simp
    ultimately show ?thesis using a f by simp
  qed
qed

lemma ctr32_chunk_sum:
  assumes "16 \<le> len" and "ctr32_chunk c len = (b, c')"
  shows "0 < b \<and> b \<le> len div 16 \<and> unat c + b \<le> 2 ^ 32 \<and> unat c' = (unat c + b) mod 2 ^ 32"
proof -
  define b0 where "b0 = (if 2 ^ 28 < len div 16 then 2 ^ 28 else len div 16)"
  have b0: "0 < b0" "b0 \<le> len div 16" "b0 \<le> 2 ^ 28" using assms(1) by (auto simp: b0_def)
  have c: "unat c < 2 ^ 32" using unsigned_less [of c, where ?'a = nat] by simp
  have u: "unat (c + of_nat b0) = (unat c + b0) mod 2 ^ 32" using b0(3) by (simp add: unat_word_ariths unat_of_nat)
  have ch: "ctr32_chunk c len =
      (if (unat c + b0) mod 2 ^ 32 < b0 then (b0 - (unat c + b0) mod 2 ^ 32, 0) else (b0, c + of_nat b0))"
    unfolding ctr32_chunk_def Let_def b0_def [symmetric] u by simp
  show ?thesis
  proof (cases "unat c + b0 < 2 ^ 32")
    case True
    then have "b = b0 \<and> c' = c + of_nat b0" using ch assms(2) by simp
    then show ?thesis using True b0 u by simp
  next
    case False
    then have "(unat c + b0) mod 2 ^ 32 = unat c + b0 - 2 ^ 32" using c b0(3) by (simp add: mod_if)
    moreover have "unat c + b0 - 2 ^ 32 < b0" using c False b0(1) by linarith
    ultimately have "b = b0 - (unat c + b0 - 2 ^ 32) \<and> c' = 0" using ch assms(2) by simp
    then show ?thesis using False c b0 by auto
  qed
qed

text \<open>The blocks of counter mode: block \<open>i\<close> is combined with the encryption of the counter plus \<open>i\<close>.\<close>

definition ctr_xor :: "(bytes \<Rightarrow> bytes) \<Rightarrow> bytes \<Rightarrow> nat \<Rightarrow> bytes \<Rightarrow> bytes" where
  "ctr_xor E iv k xs = concat (map (\<lambda>i. xor_bytes (take 16 (drop (16 * i) xs)) (E (ctr_add iv i))) [0..<k])"

lemma ctr_xor_add:
  "ctr_xor E iv (j + k) xs = ctr_xor E iv j xs @ ctr_xor E (ctr_add iv j) k (drop (16 * j) xs)"
proof -
  have "[0..<j + k] = [0..<j] @ map (\<lambda>i. j + i) [0..<k]"
    using upt_add_eq_append [of 0 j k] by (simp add: map_add_upt add.commute)
  then show ?thesis by (simp add: ctr_xor_def ctr_add_add comp_def algebra_simps)
qed

lemma ctr_xor_one: "length iv = 16 \<Longrightarrow> ctr_xor E iv 1 xs = xor_bytes (take 16 xs) (E iv)"
  by (simp add: ctr_xor_def ctr_add_0)

lemma ctr_blocks_xor:
  assumes "block_fun E" and "length iv = 16"
  shows "\<exists>ec'. ctr_blocks E iv ec xs = (ctr_xor E iv (length xs div 16) xs, ctr_add iv (length xs div 16), ec',
    drop (16 * (length xs div 16)) xs)"
  using assms(2)
proof (induction "length xs" arbitrary: xs iv ec rule: less_induct)
  case less
  show ?case
  proof (cases "16 \<le> length xs")
    case False
    with less.prems show ?thesis by (simp add: ctr_blocks.simps ctr_xor_def ctr_add_0)
  next
    case True
    let ?n = "length xs div 16"
    have n: "?n = 1 + (length xs - 16) div 16" using True by (simp add: le_div_geq)
    have le: "length (E iv) = 16" using assms(1) less.prems by (simp add: block_funD)
    have len: "length (drop 16 xs) < length xs" using True by simp
    obtain ec' where "ctr_blocks E (ctr_add iv 1) (E iv) (drop 16 xs) =
        (ctr_xor E (ctr_add iv 1) ((length xs - 16) div 16) (drop 16 xs), ctr_add iv ?n, ec', drop (16 * ?n) xs)"
      using less.hyps [OF len, of "ctr_add iv 1" "E iv"] True by (auto simp: ctr_add_add n add.commute)
    moreover have "ctr_xor E iv ?n xs = xor_block xs (E iv) @ ctr_xor E (ctr_add iv 1) ((length xs - 16) div 16) (drop 16 xs)"
      using ctr_xor_add [of E iv 1 "(length xs - 16) div 16" xs] ctr_xor_one [OF less.prems] True le n by (simp add: xor_block_eq)
    ultimately show ?thesis using True less.prems by (subst ctr_blocks.simps) (simp add: Let_def ctr128_inc_add)
  qed
qed

section \<open>Counting in 32 bits\<close>

text \<open>
  What the caller's function does: counter mode over whole blocks, with a counter that wraps in its last 32 bits.  It is only relied on for
  calls in which that does not happen.
\<close>

definition ctr32_fun :: "(bytes \<Rightarrow> bytes) \<Rightarrow> ctr128_f \<Rightarrow> bool" where
  "ctr32_fun E func \<longleftrightarrow> (\<forall>inp n iv. length iv = 16 \<longrightarrow> 16 * n \<le> length inp \<longrightarrow> low32 iv + n \<le> 2 ^ 32 \<longrightarrow>
     func inp n iv = concat (map (\<lambda>i. xor_bytes (take 16 (drop (16 * i) inp)) (E (take 12 iv @ be_bytes 4 (low32 iv + i)))) [0..<n]))"

lemma ctr32_fun_xor:
  assumes "ctr32_fun E func" and "length iv = 16" and "16 * n \<le> length inp" and "low32 iv + n \<le> 2 ^ 32"
  shows "func inp n iv = ctr_xor E iv n inp"
proof -
  have "take 12 iv @ be_bytes 4 (low32 iv + i) = ctr_add iv i" if "i < n" for i
    using ctr_add_low [OF assms(2), of i] assms(4) that by simp
  then have "map (\<lambda>i. xor_bytes (take 16 (drop (16 * i) inp)) (E (take 12 iv @ be_bytes 4 (low32 iv + i)))) [0..<n] =
      map (\<lambda>i. xor_bytes (take 16 (drop (16 * i) inp)) (E (ctr_add iv i))) [0..<n]"
    by (intro map_cong) simp_all
  moreover have "func inp n iv = concat (map (\<lambda>i. xor_bytes (take 16 (drop (16 * i) inp)) (E (take 12 iv @ be_bytes 4 (low32 iv + i)))) [0..<n])"
    using assms unfolding ctr32_fun_def by blast
  ultimately show ?thesis by (simp only: ctr_xor_def)
qed

lemma ctr32_carry:
  assumes "length iv = 16" and "low32 iv + b \<le> 2 ^ 32" and "unat c' = (low32 iv + b) mod 2 ^ 32"
  shows "0 < b \<Longrightarrow> (if c' = 0 then ctr96_inc (PUTU32 iv 12 c') else PUTU32 iv 12 c') = ctr_add iv b"
    and "low32 (ctr_add iv b) = unat c'"
proof -
  have p: "PUTU32 iv 12 c' = take 12 iv @ be_bytes 4 (unat c')" using assms(1) by (simp add: PUTU32_be mem_write_def)
  have z: "c' = 0 \<longleftrightarrow> low32 iv + b = 0 \<or> low32 iv + b = 2 ^ 32"
    using assms(2,3) by (cases "low32 iv + b = 2 ^ 32") (auto simp: word_unat_eq_iff)
  show "(if c' = 0 then ctr96_inc (PUTU32 iv 12 c') else PUTU32 iv 12 c') = ctr_add iv b" if "0 < b"
    using that z p assms ctr_add_low [OF assms(1,2)] by auto
  have "low32 (ctr_add iv b) = (be_nat iv + b) mod 2 ^ 32"
  proof -
    have "drop 12 (ctr_add iv b) = be_bytes 4 (be_nat iv + b)"
      using be_bytes_append [of 12 4 "be_nat iv + b"] by (simp add: ctr_add_def)
    then show ?thesis by (simp add: low32_def be_nat_be_bytes)
  qed
  also have "be_nat iv = be_nat (take 12 iv) * 2 ^ 32 + low32 iv"
    using be_nat_append [of "take 12 iv" "drop 12 iv"] assms(1) by (simp add: low32_def)
  finally show "low32 (ctr_add iv b) = unat c'" using assms(3) by (simp add: mod_simps add.assoc)
qed

lemma ctr32_blocks_xor:
  fixes xs :: bytes
  assumes f: "ctr32_fun E func" and "length iv = 16" and "unat c = low32 iv"
  defines "k \<equiv> length xs div 16"
  shows "\<exists>c'. ctr32_blocks func iv c xs = (ctr_xor E iv k xs, ctr_add iv k, c', drop (16 * k) xs) \<and> unat c' = low32 (ctr_add iv k)"
  using assms(2,3) unfolding k_def
proof (induction "length xs" arbitrary: xs iv c rule: less_induct)
  case less
  show ?case
  proof (cases "16 \<le> length xs")
    case False
    with less.prems show ?thesis by (simp add: ctr32_blocks.simps ctr_xor_def ctr_add_0)
  next
    case True
    obtain b c1 where ch: "ctr32_chunk c (length xs) = (b, c1)" by force
    from ctr32_chunk_sum [OF True ch] less.prems(2)
    have b: "0 < b" "b \<le> length xs div 16" "low32 iv + b \<le> 2 ^ 32" "unat c1 = (low32 iv + b) mod 2 ^ 32" by simp_all
    let ?ys = "drop (16 * b) xs" and ?iv = "ctr_add iv b"
    have len: "length ?ys < length xs" using b(1) True by simp
    have n: "length xs div 16 = b + length ?ys div 16"
    proof -
      have "16 * b \<le> length xs" using b(2) by (simp add: less_eq_div_iff_mult_less_eq mult.commute)
      then have "length xs = length ?ys + b * 16" by simp
      then show ?thesis by (metis div_mult_self1 add.commute zero_neq_numeral)
    qed
    note carry = ctr32_carry [OF less.prems(1) b(3,4)]
    have fx: "func xs b iv = ctr_xor E iv b xs"
      using f less.prems(1) b by (intro ctr32_fun_xor) (simp_all add: less_eq_div_iff_mult_less_eq mult.commute)
    obtain c' where r: "ctr32_blocks func ?iv c1 ?ys =
          (ctr_xor E ?iv (length ?ys div 16) ?ys, ctr_add ?iv (length ?ys div 16), c', drop (16 * (length ?ys div 16)) ?ys)"
        "unat c' = low32 (ctr_add ?iv (length ?ys div 16))"
      using less.hyps [OF len length_ctr_add carry(2) [symmetric]] by blast
    show ?thesis
      unfolding n ctr32_blocks.simps [of func iv c xs] ch prod.case Let_def carry(1) [OF b(1)] fx r(1)
      using True r(2) by (simp add: ctr_xor_add ctr_add_add algebra_simps)
  qed
qed

section \<open>The two implementations\<close>

lemma ctr32_agrees:
  assumes "ctr_ok E s" and "ctr32_fun E func"
    and "CRYPTO_ctr128_encrypt E s inp = (out, t)" and "CRYPTO_ctr128_encrypt_ctr32 func s inp = (out', t')"
  shows "out' = out \<and> ctr_ivec t' = ctr_ivec t \<and> ctr_num t' = ctr_num t \<and> (ctr_num t \<noteq> 0 \<longrightarrow> ecount_buf t' = ecount_buf t)"
proof -
  have ok: "block_fun E" "length (ctr_ivec s) = 16" using assms(1) by (simp_all add: ctr_ok_def)
  obtain out1 n xs where h: "xor_head (ecount_buf s) (ctr_num s) inp = (out1, n, xs)" by (metis prod_cases3)
  let ?k = "length xs div 16" and ?iv = "ctr_ivec s" and ?c = "GETU32 (drop 12 (ctr_ivec s))"
  let ?v = "ctr_add ?iv ?k" and ?r = "drop (16 * ?k) xs"
  obtain ec where b: "ctr_blocks E ?iv (ecount_buf s) xs = (ctr_xor E ?iv ?k xs, ?v, ec, ?r)"
    using ctr_blocks_xor [OF ok] by blast
  have c: "unat ?c = low32 ?iv" using ok(2) low32_less [OF ok(2)] by (simp add: GETU32_be low32_def unat_of_nat)
  obtain c' where b': "ctr32_blocks func ?iv ?c xs = (ctr_xor E ?iv ?k xs, ?v, c', ?r)" and c': "unat c' = low32 ?v"
    using ctr32_blocks_xor [OF assms(2) ok(2) c] by blast
  have n: "n = 0" if "xs \<noteq> []" using xor_head_rest [OF h that] .
  have ec: "ec = ecount_buf s" if "xs = []" using b that by (simp add: ctr_blocks.simps)
  show ?thesis
  proof (cases "?r = []")
    case True
    have "t = \<lparr>ctr_ivec = ?v, ecount_buf = ec, ctr_num = (if 16 \<le> length xs then 0 else n)\<rparr>" "out = out1 @ ctr_xor E ?iv ?k xs"
      using assms(3) h b True by (simp_all add: CRYPTO_ctr128_encrypt_def split del: if_split)
    moreover have "t' = \<lparr>ctr_ivec = ?v, ecount_buf = ecount_buf s, ctr_num = n\<rparr>" "out' = out1 @ ctr_xor E ?iv ?k xs"
      using assms(4) h b' True by (simp_all add: CRYPTO_ctr128_encrypt_ctr32_def)
    ultimately show ?thesis using n ec by (cases "xs = []") auto
  next
    case False
    then have x: "xs \<noteq> []" by auto
    have lv: "low32 ?v + 1 \<le> 2 ^ 32" using low32_less [of ?v] by simp
    have u: "unat (c' + 1) = (low32 ?v + 1) mod 2 ^ 32" by (simp add: unat_word_ariths c')
    have carry: "(if c' + 1 = 0 then ctr96_inc (PUTU32 ?v 12 (c' + 1)) else PUTU32 ?v 12 (c' + 1)) = ctr128_inc ?v"
      using ctr32_carry(1) [OF length_ctr_add lv u] by (simp add: ctr128_inc_add)
    have "func (replicate 16 0) 1 ?v = ctr_xor E ?v 1 (replicate 16 0)"
      using assms(2) lv by (intro ctr32_fun_xor) simp_all
    also have "\<dots> = E ?v"
    proof -
      have "length (E ?v) = 16" using ok(1) by (simp add: block_funD)
      then show ?thesis using ctr_xor_one [OF length_ctr_add, of E ?iv ?k "replicate 16 0"]
        by (simp add: xor_bytes_commute [of "replicate 16 0"] xor_bytes_zero)
    qed
    finally have f: "func (replicate 16 0) 1 ?v = E ?v" .
    show ?thesis
      using assms(3,4) h b b' n [OF x] False
      unfolding CRYPTO_ctr128_encrypt_def CRYPTO_ctr128_encrypt_ctr32_def Let_def
      by (simp add: f [simplified] carry [simplified] xor_tail_def split del: if_split)
  qed
qed

text \<open>From the start of a block: what the counter is afterwards, and the output byte by byte.\<close>

lemma ctr_ivec_after:
  assumes "ctr_ok E s" and "ctr_num s = 0"
  shows "ctr_ivec (snd (CRYPTO_ctr128_encrypt E s xs)) = ctr_add (ctr_ivec s) ((length xs + 15) div 16)"
proof -
  define k where "k = length xs div 16"
  have ok: "block_fun E" "length (ctr_ivec s) = 16" using assms(1) by (simp_all add: ctr_ok_def)
  have h: "xor_head (ecount_buf s) (ctr_num s) xs = ([], 0, xs)" using assms(2) by (cases xs) simp_all
  obtain ec where b: "ctr_blocks E (ctr_ivec s) (ecount_buf s) xs = (ctr_xor E (ctr_ivec s) k xs, ctr_add (ctr_ivec s) k, ec, drop (16 * k) xs)"
    using ctr_blocks_xor [OF ok] unfolding k_def by blast
  have "length (drop (16 * k) xs) = length xs mod 16" by (simp add: k_def minus_mult_div_eq_mod)
  then have r: "drop (16 * k) xs = [] \<longleftrightarrow> length xs mod 16 = 0" by (metis length_0_conv)
  define q where "q = length xs mod 16"
  have "q < 16" by (simp add: q_def)
  then have "(q + 15) div 16 = (if q = 0 then 0 else 1)" by (cases "q = 0") (simp_all add: div_nat_eqI)
  moreover have "length xs + 15 = (q + 15) + k * 16" by (simp add: q_def k_def)
  ultimately have d: "(length xs + 15) div 16 = (if q = 0 then k else k + 1)"
    by (metis add.commute add_0 div_mult_self1 zero_neq_numeral)
  show ?thesis
    using h b r d by (auto simp: CRYPTO_ctr128_encrypt_def q_def xor_tail_def Let_def ctr128_inc_add ctr_add_add)
qed

lemma ctr_nth:
  assumes "ctr_ok E s" and "ctr_num s = 0" and "i < length xs"
  shows "fst (CRYPTO_ctr128_encrypt E s xs) ! i = xs ! i XOR E (ctr_add (ctr_ivec s) (i div 16)) ! (i mod 16)"
proof -
  define k where "k = length xs div 16"
  have ok: "block_fun E" "length (ctr_ivec s) = 16" using assms(1) by (simp_all add: ctr_ok_def)
  have h: "xor_head (ecount_buf s) (ctr_num s) xs = ([], 0, xs)" using assms(2) by (cases xs) simp_all
  let ?iv = "ctr_ivec s" and ?r = "drop (16 * k) xs"
  obtain ec where b: "ctr_blocks E ?iv (ecount_buf s) xs = (ctr_xor E ?iv k xs, ctr_add ?iv k, ec, ?r)"
    using ctr_blocks_xor [OF ok] unfolding k_def by blast
  have lE: "length (E (ctr_add ?iv j)) = 16" for j using ok(1) by (simp add: block_funD)
  have lr: "length ?r = length xs mod 16" by (simp add: k_def minus_mult_div_eq_mod)
  have "fst (CRYPTO_ctr128_encrypt E s xs) = ctr_xor E ?iv k xs @ xor_bytes ?r (E (ctr_add ?iv k))"
    using lE [of k] lr h b by (auto simp: CRYPTO_ctr128_encrypt_def xor_tail_eq Let_def)
  moreover have kl: "16 * k \<le> length xs" by (simp add: k_def)
  have "length (ctr_xor E ?iv j xs) = 16 * j \<and>
      (\<forall>i<16 * j. ctr_xor E ?iv j xs ! i = xs ! i XOR E (ctr_add ?iv (i div 16)) ! (i mod 16))" if "16 * j \<le> length xs" for j
    using that
  proof (induction j)
    case (Suc j)
    let ?b = "xor_bytes (take 16 (drop (16 * j) xs)) (E (ctr_add ?iv j))"
    have e: "ctr_xor E ?iv (Suc j) xs = ctr_xor E ?iv j xs @ ?b" by (simp add: ctr_xor_def)
    have lb: "length ?b = 16" using Suc.prems lE by simp
    have ih: "length (ctr_xor E ?iv j xs) = 16 * j"
        "\<And>i. i < 16 * j \<Longrightarrow> ctr_xor E ?iv j xs ! i = xs ! i XOR E (ctr_add ?iv (i div 16)) ! (i mod 16)"
      using Suc by simp_all
    have "(ctr_xor E ?iv j xs @ ?b) ! i = xs ! i XOR E (ctr_add ?iv (i div 16)) ! (i mod 16)" if "i < 16 * Suc j" for i
    proof (cases "i < 16 * j")
      case False
      define q where "q = i - 16 * j"
      with False that have i: "i = 16 * j + q" "q < 16" by simp_all
      then show ?thesis using Suc.prems ih(1) lE by (simp add: nth_append)
    qed (simp add: ih nth_append)
    then show ?case using ih(1) lb e by simp
  qed (simp add: ctr_xor_def)
  note full = this [OF kl]
  ultimately show ?thesis
  proof (cases "i < 16 * k")
    case True
    then show ?thesis using full \<open>fst (CRYPTO_ctr128_encrypt E s xs) = _\<close> by (simp add: nth_append)
  next
    case False
    define q where "q = i - 16 * k"
    with False assms(3) lr have i: "i = 16 * k + q" "q < length ?r" "q < 16" by auto
    then show ?thesis using full lE \<open>fst (CRYPTO_ctr128_encrypt E s xs) = _\<close> by (simp add: nth_append)
  qed
qed

section \<open>Properties\<close>

text \<open>C26.
  The counter mode on top of a function that counts in 32 bits gives the same output, counter and position as the mode that encrypts block by
  block, whatever the input's length: it cuts its calls where the 32 bits run out and carries into the upper 96.  The function need only be right
  for calls in which its counter does not wrap.
\<close>

theorem ctr32_equals_ctr:
  assumes "ctr_ok E s" and "ctr32_fun E func"
    and "CRYPTO_ctr128_encrypt E s inp = (out, t)" and "CRYPTO_ctr128_encrypt_ctr32 func s inp = (out', t')"
  shows "out' = out \<and> ctr_ivec t' = ctr_ivec t \<and> ctr_num t' = ctr_num t \<and> (ctr_num t \<noteq> 0 \<longrightarrow> ecount_buf t' = ecount_buf t)"
  by (rule ctr32_agrees [OF assms])

text \<open>A function of that kind, for the witness.\<close>

definition ctr32_of :: "(bytes \<Rightarrow> bytes) \<Rightarrow> ctr128_f" where
  "ctr32_of E inp n iv =
     concat (map (\<lambda>i. xor_bytes (take 16 (drop (16 * i) inp)) (E (take 12 iv @ be_bytes 4 (low32 iv + i)))) [0..<n])"

lemma ctr32_equals_ctr_witness:
  "fst (CRYPTO_ctr128_encrypt_ctr32 (ctr32_of rev) \<lparr>ctr_ivec = replicate 16 0xff, ecount_buf = replicate 16 0, ctr_num = 0\<rparr> (replicate 40 7)) =
   fst (CRYPTO_ctr128_encrypt rev \<lparr>ctr_ivec = replicate 16 0xff, ecount_buf = replicate 16 0, ctr_num = 0\<rparr> (replicate 40 7))"
proof -
  let ?s = "\<lparr>ctr_ivec = replicate 16 0xff, ecount_buf = replicate 16 0, ctr_num = 0\<rparr>"
  have "ctr_ok rev ?s" "ctr32_fun rev (ctr32_of rev)" by (simp_all add: ctr_ok_def block_fun_def ctr32_fun_def ctr32_of_def)
  moreover obtain out t where "CRYPTO_ctr128_encrypt rev ?s (replicate 40 7) = (out, t)" by force
  moreover obtain out' t' where "CRYPTO_ctr128_encrypt_ctr32 (ctr32_of rev) ?s (replicate 40 7) = (out', t')" by force
  ultimately show ?thesis using ctr32_equals_ctr [of rev ?s "ctr32_of rev" "replicate 40 7" out t out' t'] by simp
qed

text \<open>Counter mode is the exclusive or of the input with the encryptions of successive counters: byte \<open>i\<close> of a message that starts on a block
  boundary is combined with byte \<open>i mod 16\<close> of the encryption of the initial counter plus \<open>i div 16\<close>, as a 128-bit number, whatever the length.
\<close>

theorem ctr_keystream:
  assumes "ctr_ok E s" and "ctr_num s = 0" and "i < length xs"
  shows "fst (CRYPTO_ctr128_encrypt E s xs) ! i = xs ! i XOR E (ctr_add (ctr_ivec s) (i div 16)) ! (i mod 16)"
  using ctr_nth [OF assms] .

lemma ctr_keystream_witness:
  "fst (CRYPTO_ctr128_encrypt rev \<lparr>ctr_ivec = replicate 16 0xff, ecount_buf = replicate 16 0, ctr_num = 0\<rparr> (replicate 20 7)) ! 17 =
   7 XOR (rev (ctr_add (replicate 16 0xff) 1)) ! 1"
  using ctr_keystream [of rev "\<lparr>ctr_ivec = replicate 16 0xff, ecount_buf = replicate 16 0, ctr_num = 0\<rparr>" 17 "replicate 20 7"]
  by (simp add: ctr_ok_def block_fun_def)

end
