(* ===== verification/Cbc.thy ===== *)
theory Cbc
  imports BlockWords
begin

text \<open>
  \<^verbatim>\<open>fipsmodule/modes/cbc.c\<close>: cipher block chaining.  Input and output are places in one memory, since the code allows them to overlap and
  chooses its way by their distance; the initialisation vector \<open>ivec\<close> is a buffer of its own.  The pointer \<^verbatim>\<open>iv\<close> starts at \<open>ivec\<close> and moves
  into the memory.
\<close>

section \<open>Encryption\<close>

datatype iv_ptr = Ivec | At nat

definition load_iv :: "bytes \<Rightarrow> bytes \<Rightarrow> iv_ptr \<Rightarrow> nat \<Rightarrow> u64" where
  "load_iv buf ivec iv n = (case iv of Ivec \<Rightarrow> load_word_le ivec n | At p \<Rightarrow> load_word_le buf (p + n))"

definition iv_byte :: "bytes \<Rightarrow> bytes \<Rightarrow> iv_ptr \<Rightarrow> nat \<Rightarrow> u8" where
  "iv_byte buf ivec iv n = (case iv of Ivec \<Rightarrow> ivec ! n | At p \<Rightarrow> buf ! (p + n))"

definition iv_block :: "bytes \<Rightarrow> bytes \<Rightarrow> iv_ptr \<Rightarrow> bytes" where
  "iv_block buf ivec iv = (case iv of Ivec \<Rightarrow> take 16 ivec | At p \<Rightarrow> block_at buf p)"

text \<open>\<^verbatim>\<open>(*block)(src, dst, key)\<close> within the memory.\<close>

definition apply_block :: "(bytes \<Rightarrow> bytes) \<Rightarrow> bytes \<Rightarrow> nat \<Rightarrow> nat \<Rightarrow> bytes" where
  "apply_block E buf src dst = mem_write buf dst (E (block_at buf src))"

text \<open>\<^verbatim>\<open>store_word_le(out + n, load_word_le(src + n) ^ load_word_le(iv + n))\<close> for \<open>n = 0, 8\<close>.\<close>

definition xor_words :: "bytes \<Rightarrow> bytes \<Rightarrow> iv_ptr \<Rightarrow> nat \<Rightarrow> nat \<Rightarrow> bytes" where
  "xor_words buf ivec iv src out =
     fold (\<lambda>n buf. store_word_le buf (out + n) (load_word_le buf (src + n) XOR load_iv buf ivec iv n)) [0, 8] buf"

function cbc_encrypt_words ::
  "(bytes \<Rightarrow> bytes) \<Rightarrow> bytes \<Rightarrow> bytes \<Rightarrow> iv_ptr \<Rightarrow> nat \<Rightarrow> nat \<Rightarrow> nat \<Rightarrow> bytes \<times> iv_ptr \<times> nat \<times> nat \<times> nat" where
  "cbc_encrypt_words E ivec buf iv inp out len =
     (if 16 \<le> len then
        let buf = xor_words buf ivec iv inp out;
            buf = apply_block E buf out out
        in cbc_encrypt_words E ivec buf (At out) (inp + 16) (out + 16) (len - 16)
      else (buf, iv, inp, out, len))"
  by auto
termination by (relation "measure (\<lambda>(E, ivec, buf, iv, inp, out, len). len)") auto

function cbc_encrypt_tail :: "(bytes \<Rightarrow> bytes) \<Rightarrow> bytes \<Rightarrow> bytes \<Rightarrow> iv_ptr \<Rightarrow> nat \<Rightarrow> nat \<Rightarrow> nat \<Rightarrow> bytes \<times> iv_ptr" where
  "cbc_encrypt_tail E ivec buf iv inp out len =
     (if len = 0 then (buf, iv)
      else
        let buf = fold (\<lambda>n buf. buf[out + n := buf ! (inp + n) XOR iv_byte buf ivec iv n]) [0..<min 16 len] buf;
            buf = fold (\<lambda>n buf. buf[out + n := iv_byte buf ivec iv n]) [min 16 len..<16] buf;
            buf = apply_block E buf out out
        in if len \<le> 16 then (buf, At out)
           else cbc_encrypt_tail E ivec buf (At out) (inp + 16) (out + 16) (len - 16))"
  by auto
termination by (relation "measure (\<lambda>(E, ivec, buf, iv, inp, out, len). len)") auto

declare cbc_encrypt_words.simps [simp del] cbc_encrypt_tail.simps [simp del]

definition CRYPTO_cbc128_encrypt :: "(bytes \<Rightarrow> bytes) \<Rightarrow> bytes \<Rightarrow> bytes \<Rightarrow> nat \<Rightarrow> nat \<Rightarrow> nat \<Rightarrow> bytes \<times> bytes" where
  "CRYPTO_cbc128_encrypt block ivec buf inp out len =
     (let (buf, iv, inp, out, len) = cbc_encrypt_words block ivec buf Ivec inp out len;
          (buf, iv) = cbc_encrypt_tail block ivec buf iv inp out len
      in (buf, iv_block buf ivec iv))"

section \<open>Decryption\<close>

text \<open>The loop that decrypts into the output: \<^verbatim>\<open>iv\<close> follows the input.\<close>

function cbc_decrypt_direct ::
  "(bytes \<Rightarrow> bytes) \<Rightarrow> bytes \<Rightarrow> bytes \<Rightarrow> iv_ptr \<Rightarrow> nat \<Rightarrow> nat \<Rightarrow> nat \<Rightarrow> bytes \<times> iv_ptr \<times> nat \<times> nat \<times> nat" where
  "cbc_decrypt_direct D ivec buf iv inp out len =
     (if 16 \<le> len then
        let buf = apply_block D buf inp out;
            buf = xor_words buf ivec iv out out
        in cbc_decrypt_direct D ivec buf (At inp) (inp + 16) (out + 16) (len - 16)
      else (buf, iv, inp, out, len))"
  by auto
termination by (relation "measure (\<lambda>(D, ivec, buf, iv, inp, out, len). len)") auto

text \<open>The loop over a temporary block, which saves each word of the input before it overwrites it.\<close>

definition swap_words :: "bytes \<Rightarrow> nat \<Rightarrow> nat \<Rightarrow> bytes \<Rightarrow> bytes \<Rightarrow> bytes \<times> bytes" where
  "swap_words tmp inp out ivec buf =
     fold (\<lambda>n (buf, ivec).
       let c = load_word_le buf (inp + n);
           buf = store_word_le buf (out + n) (load_word_le tmp n XOR load_word_le ivec n);
           ivec = store_word_le ivec n c
       in (buf, ivec)) [0, 8] (buf, ivec)"

function cbc_decrypt_buffered ::
  "(bytes \<Rightarrow> bytes) \<Rightarrow> bytes \<Rightarrow> bytes \<Rightarrow> nat \<Rightarrow> nat \<Rightarrow> nat \<Rightarrow> bytes \<times> bytes \<times> nat \<times> nat \<times> nat" where
  "cbc_decrypt_buffered D ivec buf inp out len =
     (if 16 \<le> len then
        let (buf, ivec) = swap_words (D (block_at buf inp)) inp out ivec buf
        in cbc_decrypt_buffered D ivec buf (inp + 16) (out + 16) (len - 16)
      else (buf, ivec, inp, out, len))"
  by auto
termination by (relation "measure (\<lambda>(D, ivec, buf, inp, out, len). len)") auto

function cbc_decrypt_tail :: "(bytes \<Rightarrow> bytes) \<Rightarrow> bytes \<Rightarrow> bytes \<Rightarrow> nat \<Rightarrow> nat \<Rightarrow> nat \<Rightarrow> bytes \<times> bytes" where
  "cbc_decrypt_tail D ivec buf inp out len =
     (if len = 0 then (buf, ivec)
      else
        let tmp = D (block_at buf inp);
            (buf, ivec) = fold (\<lambda>n (buf, ivec).
              let c = buf ! (inp + n) in (buf[out + n := tmp ! n XOR ivec ! n], ivec[n := c])) [0..<min 16 len] (buf, ivec)
        in if len \<le> 16 then (buf, fold (\<lambda>n ivec. ivec[n := buf ! (inp + n)]) [min 16 len..<16] ivec)
           else cbc_decrypt_tail D ivec buf (inp + 16) (out + 16) (len - 16))"
  by auto
termination by (relation "measure (\<lambda>(D, ivec, buf, inp, out, len). len)") auto

declare cbc_decrypt_direct.simps [simp del] cbc_decrypt_buffered.simps [simp del] cbc_decrypt_tail.simps [simp del]

definition CRYPTO_cbc128_decrypt :: "(bytes \<Rightarrow> bytes) \<Rightarrow> bytes \<Rightarrow> bytes \<Rightarrow> nat \<Rightarrow> nat \<Rightarrow> nat \<Rightarrow> bytes \<times> bytes" where
  "CRYPTO_cbc128_decrypt block ivec buf inp out len =
     (if 32 \<le> inp \<and> out \<le> inp - 32 \<or> inp < out then
        let (buf, iv, inp, out, len) = cbc_decrypt_direct block ivec buf Ivec inp out len
        in cbc_decrypt_tail block (iv_block buf ivec iv) buf inp out len
      else
        let (buf, ivec, inp, out, len) = cbc_decrypt_buffered block ivec buf inp out len
        in cbc_decrypt_tail block ivec buf inp out len)"

section \<open>The loops over words\<close>

lemma store_xor:
  assumes "p + 8 \<le> length a" and "r + 8 \<le> length b"
  shows "store_word_le buf q (load_word_le a p XOR load_word_le b r) =
    mem_write buf q (xor_bytes (take 8 (drop p a)) (take 8 (drop r b)))"
  using assms by (simp add: store_word_le_def load_word_le_def xor_le_words)

lemma store_load:
  "p + 8 \<le> length a \<Longrightarrow> store_word_le buf q (load_word_le a p) = mem_write buf q (take 8 (drop p a))"
  using le_bytes_le_nat [of "take 8 (drop p a)"] by (simp add: store_word_le_def load_word_le_def le_word_bytes)

lemma halves: "take 16 xs = take 8 xs @ take 8 (drop 8 xs)"
  using take_add [of 8 8 xs] by simp

definition iv_ok :: "bytes \<Rightarrow> bytes \<Rightarrow> iv_ptr \<Rightarrow> bool" where
  "iv_ok buf ivec iv \<longleftrightarrow> (case iv of Ivec \<Rightarrow> length ivec = 16 | At p \<Rightarrow> p + 16 \<le> length buf)"

definition iv_apart :: "iv_ptr \<Rightarrow> nat \<Rightarrow> bool" where
  "iv_apart iv out \<longleftrightarrow> (case iv of Ivec \<Rightarrow> True | At p \<Rightarrow> p + 16 \<le> out \<or> out + 16 \<le> p)"

lemma length_iv_block [simp]: "iv_ok buf ivec iv \<Longrightarrow> length (iv_block buf ivec iv) = 16"
  by (cases iv) (simp_all add: iv_ok_def iv_block_def)

lemma iv_ok_write: "out + length d \<le> length buf \<Longrightarrow> iv_ok (mem_write buf out d) ivec iv \<longleftrightarrow> iv_ok buf ivec iv"
  by (cases iv) (simp_all add: iv_ok_def length_mem_write)

lemma iv_block_untouched:
  assumes "iv_ok buf ivec iv" and "iv_apart iv out" and "length d \<le> 16" and "out + 16 \<le> length buf"
  shows "iv_block (mem_write buf out d) ivec iv = iv_block buf ivec iv"
  using assms by (cases iv) (auto simp: iv_ok_def iv_apart_def iv_block_def block_at_def intro!: read_untouched)

lemma store_xor_iv:
  assumes "iv_ok buf ivec iv" and "p + 8 \<le> length buf" and "n + 8 \<le> 16"
  shows "store_word_le buf q (load_word_le buf p XOR load_iv buf ivec iv n) =
    mem_write buf q (xor_bytes (take 8 (drop p buf)) (take 8 (drop n (iv_block buf ivec iv))))"
proof -
  have m: "min 8 (16 - n) = 8" using assms(3) by simp
  show ?thesis
  proof (cases iv)
    case Ivec
    then show ?thesis using assms by (simp add: load_iv_def store_xor iv_ok_def iv_block_def drop_take)
  next
    case (At p)
    then show ?thesis using assms m
      by (simp add: load_iv_def store_xor iv_ok_def iv_block_def block_at_def drop_take add.commute)
  qed
qed

lemma xor_words_block:
  assumes iv: "iv_ok buf ivec iv" "iv_apart iv out" and b: "out + 16 \<le> length buf" "src + 16 \<le> length buf"
    and s: "out \<le> src \<or> src + 16 \<le> out"
  shows "xor_words buf ivec iv src out = mem_write buf out (xor_bytes (block_at buf src) (iv_block buf ivec iv))"
proof -
  define d0 where "d0 = xor_bytes (take 8 (drop src buf)) (take 8 (iv_block buf ivec iv))"
  define buf1 where "buf1 = mem_write buf out d0"
  have l0: "length d0 = 8" using iv b by (simp add: d0_def)
  have l1: "length buf1 = length buf" using b l0 by (simp add: buf1_def length_mem_write)
  have iv1: "iv_ok buf1 ivec iv" "iv_block buf1 ivec iv = iv_block buf ivec iv"
    using iv b l0 by (simp_all add: iv_ok_write iv_block_untouched buf1_def)
  have src1: "take 8 (drop (src + 8) buf1) = take 8 (drop (src + 8) buf)"
    unfolding buf1_def using s b l0 by (intro read_untouched) auto
  have "xor_words buf ivec iv src out = store_word_le buf1 (out + 8) (load_word_le buf1 (src + 8) XOR load_iv buf1 ivec iv 8)"
    using store_xor_iv [OF iv(1), of src 0 out] b by (simp add: xor_words_def buf1_def d0_def)
  also have "\<dots> = mem_write buf1 (out + 8) (xor_bytes (take 8 (drop (src + 8) buf)) (take 8 (drop 8 (iv_block buf ivec iv))))"
    using store_xor_iv [OF iv1(1), of "src + 8" 8 "out + 8"] b by (simp add: l1 iv1(2) src1)
  also have "\<dots> = mem_write buf out (d0 @ xor_bytes (take 8 (drop (src + 8) buf)) (take 8 (drop 8 (iv_block buf ivec iv))))"
    using mem_write_append [of out d0 buf] b l0 by (simp add: buf1_def)
  also have "\<dots> = mem_write buf out (xor_bytes (block_at buf src) (iv_block buf ivec iv))"
    using iv(1) b xor_bytes_append [of "take 8 (drop src buf)" "take 8 (iv_block buf ivec iv)" "take 8 (drop (src + 8) buf)"
        "take 8 (drop 8 (iv_block buf ivec iv))"]
      halves [of "drop src buf"] halves [of "iv_block buf ivec iv"]
    by (simp add: d0_def block_at_def add.commute)
  finally show ?thesis .
qed

section \<open>Chaining, on lists of blocks\<close>

primrec cbc_enc :: "(bytes \<Rightarrow> bytes) \<Rightarrow> bytes \<Rightarrow> bytes list \<Rightarrow> bytes list" where
  "cbc_enc E iv [] = []"
| "cbc_enc E iv (b # bs) = (let c = E (xor_bytes b iv) in c # cbc_enc E c bs)"

primrec cbc_dec :: "(bytes \<Rightarrow> bytes) \<Rightarrow> bytes \<Rightarrow> bytes list \<Rightarrow> bytes list" where
  "cbc_dec D iv [] = []"
| "cbc_dec D iv (c # cs) = xor_bytes (D c) iv # cbc_dec D c cs"

definition pad16 :: "bytes \<Rightarrow> bytes" where
  "pad16 xs = xs @ replicate ((16 - length xs mod 16) mod 16) 0"

lemma cbc_enc_append:
  "cbc_enc E iv (bs @ bs') = cbc_enc E iv bs @ cbc_enc E (last (iv # cbc_enc E iv bs)) bs'"
  by (induction bs arbitrary: iv) (simp_all add: Let_def)

lemma cbc_dec_append: "cbc_dec D iv (bs @ bs') = cbc_dec D iv bs @ cbc_dec D (last (iv # bs)) bs'"
  by (induction bs arbitrary: iv) simp_all

lemma cbc_enc_lengths:
  "block_fun E \<Longrightarrow> length iv = 16 \<Longrightarrow> \<forall>b\<in>set bs. length b = 16 \<Longrightarrow> \<forall>c\<in>set (cbc_enc E iv bs). length c = 16"
proof (induction bs arbitrary: iv)
  case (Cons b bs)
  then have "length (E (xor_bytes b iv)) = 16" by (simp add: block_funD)
  with Cons show ?case by (simp add: Let_def)
qed simp

lemma length_cbc_enc [simp]: "length (cbc_enc E iv bs) = length bs"
  by (induction bs arbitrary: iv) (simp_all add: Let_def)

lemma length_cbc_dec [simp]: "length (cbc_dec D iv bs) = length bs"
  by (induction bs arbitrary: iv) simp_all

lemma cbc_dec_enc:
  assumes "block_fun E" and "\<forall>b. length b = 16 \<longrightarrow> D (E b) = b" and "length iv = 16" and "\<forall>b\<in>set bs. length b = 16"
  shows "cbc_dec D iv (cbc_enc E iv bs) = bs"
  using assms(3,4)
proof (induction bs arbitrary: iv)
  case (Cons b bs)
  with assms(1,2) show ?case by (simp add: Let_def block_funD xor_bytes_cancel)
qed simp

section \<open>Encryption is chaining\<close>

definition iv_below :: "iv_ptr \<Rightarrow> nat \<Rightarrow> bool" where
  "iv_below iv out \<longleftrightarrow> (case iv of Ivec \<Rightarrow> True | At p \<Rightarrow> p + 16 \<le> out)"

lemma iv_below_apart: "iv_below iv out \<Longrightarrow> iv_apart iv out"
  by (cases iv) (simp_all add: iv_below_def iv_apart_def)

lemma iv_below_mono: "iv_below iv out \<Longrightarrow> out \<le> out' \<Longrightarrow> iv_below iv out'"
  by (cases iv) (simp_all add: iv_below_def)

text \<open>What a step leaves of the input still to be read.\<close>

lemma input_untouched:
  assumes "out + 16 \<le> length buf" and "length c = 16" and "out \<le> inp \<or> inp + len \<le> out" and "16 \<le> len"
  shows "take (len - 16) (drop (inp + 16) (mem_write buf out c)) = drop 16 (take len (drop inp buf))"
proof -
  have "take (len - 16) (drop (inp + 16) (mem_write buf out c)) = take (len - 16) (drop (inp + 16) buf)"
    using assms by (intro read_untouched) auto
  then show ?thesis by (simp add: drop_take add.commute)
qed

lemma first_block: "16 \<le> len \<Longrightarrow> take 16 (take len (drop inp buf)) = block_at buf inp"
  by (simp add: block_at_def min_def)

lemma apply_block_written:
  assumes "out + 16 \<le> length buf" and "length d = 16" and "length (E d) = 16"
  shows "apply_block E (mem_write buf out d) out out = mem_write buf out (E d)"
  using assms read_written [of out d buf]
  by (simp add: apply_block_def block_at_def mem_write_again)

lemma cbc_encrypt_words_chains:
  assumes E: "block_fun E" and "iv_ok buf ivec iv" and "iv_below iv out"
    and "inp + len \<le> length buf" and "out + len \<le> length buf" and "out \<le> inp \<or> inp + len \<le> out"
  defines "cs \<equiv> cbc_enc E (iv_block buf ivec iv) (blocks 16 (take len (drop inp buf)))"
    and "k \<equiv> len div 16 * 16"
  shows "\<exists>iv'. cbc_encrypt_words E ivec buf iv inp out len = (mem_write buf out (concat cs), iv', inp + k, out + k, len - k) \<and>
    iv_ok (mem_write buf out (concat cs)) ivec iv' \<and> iv_below iv' (out + k) \<and>
    iv_block (mem_write buf out (concat cs)) ivec iv' = last (iv_block buf ivec iv # cs)"
  using assms(2-6) unfolding cs_def k_def
proof (induction len arbitrary: buf iv inp out rule: less_induct)
  case (less len)
  show ?case
  proof (cases "16 \<le> len")
    case False
    with less.prems show ?thesis by (simp add: cbc_encrypt_words.simps)
  next
    case True
    define v where "v = iv_block buf ivec iv"
    define d where "d = xor_bytes (block_at buf inp) v"
    define buf1 where "buf1 = mem_write buf out (E d)"
    define ys where "ys = take len (drop inp buf)"
    from less.prems True have b: "inp + 16 \<le> length buf" "out + 16 \<le> length buf" by simp_all
    have lv: "length v = 16" and ld: "length d = 16" using less.prems(1) b by (simp_all add: v_def d_def)
    then have le: "length (E d) = 16" using E by (simp add: block_funD)
    have l1: "length buf1 = length buf" using le b by (simp add: buf1_def length_mem_write)
    have "xor_words buf ivec iv inp out = mem_write buf out d"
      unfolding d_def v_def using less.prems True b by (intro xor_words_block iv_below_apart) auto
    then have "apply_block E (xor_words buf ivec iv inp out) out out = buf1"
      using b ld le by (simp add: apply_block_written buf1_def)
    then have step: "cbc_encrypt_words E ivec buf iv inp out len =
        cbc_encrypt_words E ivec buf1 (At out) (inp + 16) (out + 16) (len - 16)"
      using True by (subst cbc_encrypt_words.simps) (simp add: Let_def)
    have ivb: "iv_block buf1 ivec (At out) = E d"
      using b le read_written [of out "E d" buf] by (simp add: iv_block_def block_at_def buf1_def)
    have rest: "take (len - 16) (drop (inp + 16) buf1) = drop 16 ys"
      unfolding buf1_def ys_def using b le less.prems True by (intro input_untouched) auto
    have ok1: "iv_ok buf1 ivec (At out)" "iv_below (At out) (out + 16)" using b l1 by (simp_all add: iv_ok_def iv_below_def)
    define ds where "ds = cbc_enc E (E d) (blocks 16 (drop 16 ys))"
    have "16 \<le> length ys" "take 16 ys = block_at buf inp" using True less.prems b by (simp_all add: ys_def first_block del: take_take)
    then have cs: "cbc_enc E v (blocks 16 ys) = E d # ds" by (simp add: blocks_step ds_def d_def Let_def)
    have m: "mem_write buf1 (out + 16) (concat ds) = mem_write buf out (concat (E d # ds))"
      using mem_write_append [of out "E d" buf "concat ds"] b le by (simp add: buf1_def)
    have k: "16 + (len - 16) div 16 * 16 = len div 16 * 16" using True by (simp add: le_div_geq)
    have small: "len - 16 < len" and p: "inp + 16 + (len - 16) \<le> length buf1" "out + 16 + (len - 16) \<le> length buf1"
        "out + 16 \<le> inp + 16 \<or> inp + 16 + (len - 16) \<le> out + 16"
      using True less.prems l1 by auto
    obtain iv' where "cbc_encrypt_words E ivec buf1 (At out) (inp + 16) (out + 16) (len - 16) =
          (mem_write buf1 (out + 16) (concat ds), iv', inp + 16 + (len - 16) div 16 * 16, out + 16 + (len - 16) div 16 * 16,
           len - 16 - (len - 16) div 16 * 16)"
        "iv_ok (mem_write buf1 (out + 16) (concat ds)) ivec iv'" "iv_below iv' (out + 16 + (len - 16) div 16 * 16)"
        "iv_block (mem_write buf1 (out + 16) (concat ds)) ivec iv' = last (E d # ds)"
      using less.IH [OF small ok1 p, unfolded ivb rest, folded ds_def] by blast
    then show ?thesis
      unfolding step using cs m k by (intro exI [of _ iv']) (simp add: v_def ys_def add.assoc)
  qed
qed

text \<open>The tail: at most one block, filled up with zeroes.\<close>

lemma cbc_encrypt_tail_pads:
  assumes E: "block_fun E" and iv: "iv_ok buf ivec iv" "iv_below iv out" and len: "len < 16" "len \<noteq> 0"
    and b: "inp + len \<le> length buf" "out + 16 \<le> length buf" and o: "out \<le> inp \<or> inp + len \<le> out"
  defines "c \<equiv> E (xor_bytes (pad16 (take len (drop inp buf))) (iv_block buf ivec iv))"
  shows "cbc_encrypt_tail E ivec buf iv inp out len = (mem_write buf out c, At out)"
proof -
  define v where "v = iv_block buf ivec iv"
  have lv: "length v = 16" using iv(1) by (simp add: v_def)
  have ivb: "iv_byte (mem_write buf q d) ivec iv n = v ! n"
    if "n < 16" "out \<le> q" "q + length d \<le> length buf" for q d n
    using that iv by (cases iv)
      (auto simp: iv_byte_def iv_ok_def iv_below_def v_def iv_block_def block_at_read nth_mem_write)
  define d where "d = map (\<lambda>n. buf ! (inp + n) XOR v ! n) [0..<len]"
  have ld: "length d = len" by (simp add: d_def)
  have 1: "fold (\<lambda>n buf. buf[out + n := buf ! (inp + n) XOR iv_byte buf ivec iv n]) [0..<min 16 len] buf = mem_write buf out d"
  proof -
    have iv0: "iv_byte buf ivec iv n = v ! n" if "n < 16" for n using ivb [OF that, of out "[]"] b by simp
    have "fold (\<lambda>n buf. buf[out + n := buf ! (inp + n) XOR iv_byte buf ivec iv n]) [0..<len] buf =
        mem_write buf (out + 0) (map (\<lambda>n. buf ! (inp + n) XOR iv_byte buf ivec iv n) [0..<len])"
    proof (rule fold_update)
      fix n and d' :: bytes
      assume n: "0 + length d' \<le> n" "n < len"
      then have "out + length d' \<le> length buf" "out + length d' \<le> inp + n \<or> inp + n < out" using b o len by auto
      then have "mem_write buf out d' ! (inp + n) = buf ! (inp + n)" using n b by (auto simp: nth_mem_write)
      moreover have "iv_byte (mem_write buf out d') ivec iv n = iv_byte buf ivec iv n"
        using ivb [of n out d'] iv0 [of n] n len b by simp
      ultimately show "mem_write buf (out + 0) d' ! (inp + n) XOR iv_byte (mem_write buf (out + 0) d') ivec iv n =
        buf ! (inp + n) XOR iv_byte buf ivec iv n" by simp
    qed (use len b in auto)
    also have "map (\<lambda>n. buf ! (inp + n) XOR iv_byte buf ivec iv n) [0..<len] = d"
      unfolding d_def using len iv0 by (intro map_cong) simp_all
    finally show ?thesis using len by (simp add: min_def)
  qed
  have 2: "fold (\<lambda>n buf. buf[out + n := iv_byte buf ivec iv n]) [len..<16] (mem_write buf out d) =
      mem_write buf out (d @ drop len v)"
  proof -
    let ?buf = "mem_write buf out d"
    have l: "length ?buf = length buf" using b len ld by (simp add: length_mem_write)
    have "fold (\<lambda>n buf. buf[out + n := iv_byte buf ivec iv n]) [len..<16] ?buf =
        mem_write ?buf (out + len) (map (iv_byte ?buf ivec iv) [len..<16])"
    proof (rule fold_update)
      fix n and d' :: bytes
      assume n: "len + length d' \<le> n" "n < 16"
      then have "mem_write ?buf (out + len) d' = mem_write buf out (d @ d')"
        using mem_write_append [of out d buf d'] b ld by simp
      then show "iv_byte (mem_write ?buf (out + len) d') ivec iv n = iv_byte ?buf ivec iv n"
        using n b ld len ivb [of n out "d @ d'"] ivb [of n out d] by simp
    qed (use len l b in simp_all)
    also have "map (iv_byte ?buf ivec iv) [len..<16] = drop len v"
      using ivb [of _ out d] b ld len lv by (intro nth_equalityI) simp_all
    also have "mem_write ?buf (out + len) (drop len v) = mem_write buf out (d @ drop len v)"
      using mem_write_append [of out d buf "drop len v"] b ld len by simp
    finally show ?thesis .
  qed
  have "d @ drop len v = xor_bytes (pad16 (take len (drop inp buf))) v"
  proof (rule nth_equalityI)
    show "length (d @ drop len v) = length (xor_bytes (pad16 (take len (drop inp buf))) v)"
      using len b lv ld by (simp add: pad16_def)
    fix i assume "i < length (d @ drop len v)"
    then have "i < 16" using ld lv len by simp
    then show "(d @ drop len v) ! i = xor_bytes (pad16 (take len (drop inp buf))) v ! i"
      using len b lv ld by (simp add: pad16_def nth_append d_def)
  qed
  moreover have "length (d @ drop len v) = 16" using ld lv len by simp
  ultimately show ?thesis
    using len 1 2 b E by (subst cbc_encrypt_tail.simps)
      (simp add: Let_def min_def apply_block_written block_funD c_def v_def)
qed

definition whole_blocks :: "nat \<Rightarrow> nat" where
  "whole_blocks len = (len + 15) div 16 * 16"

lemma whole_blocks_eq: "whole_blocks len = len div 16 * 16 + (if len mod 16 = 0 then 0 else 16)"
proof -
  define r where "r = len mod 16"
  have "r < 16" by (simp add: r_def)
  then have d: "(r + 15) div 16 = (if r = 0 then 0 else 1)" by (cases "r = 0") (simp_all add: div_nat_eqI)
  have "len + 15 = (r + 15) + len div 16 * 16" by (simp add: r_def)
  then have "(len + 15) div 16 = (r + 15) div 16 + len div 16" by (metis div_mult_self1 add.commute zero_neq_numeral)
  with d show ?thesis by (simp add: whole_blocks_def flip: r_def)
qed

lemma len_le_whole_blocks: "len \<le> whole_blocks len"
proof -
  have "len mod 16 < 16" by simp
  with div_mult_mod_eq [of len 16] show ?thesis unfolding whole_blocks_eq by presburger
qed

lemma length_pad16: "0 < length ys \<Longrightarrow> length ys < 16 \<Longrightarrow> length (pad16 ys) = 16"
  by (simp add: pad16_def)

lemma blocks_pad16: "blocks 16 (pad16 xs) = blocks 16 xs @ (if leftover 16 xs = [] then [] else [pad16 (leftover 16 xs)])"
proof -
  let ?z = "replicate ((16 - length xs mod 16) mod 16) (0::u8)"
  have m: "length (leftover 16 xs) = length xs mod 16" by (simp add: length_leftover)
  then have e: "leftover 16 xs = [] \<longleftrightarrow> length xs mod 16 = 0" by (metis length_0_conv)
  have "pad16 (leftover 16 xs) = leftover 16 xs @ ?z" by (simp add: pad16_def m)
  moreover have "blocks 16 (leftover 16 xs @ ?z) = [leftover 16 xs @ ?z]" if "leftover 16 xs \<noteq> []"
  proof -
    have "length xs mod 16 < 16" by simp
    with that e m have "length (leftover 16 xs @ ?z) = 16" by simp
    then show ?thesis by (simp add: blocks_step)
  qed
  moreover have "?z = []" if "leftover 16 xs = []" using that e by simp
  moreover have "blocks 16 (pad16 xs) = blocks 16 xs @ blocks 16 (leftover 16 xs @ ?z)"
    unfolding pad16_def by (rule blocks_append) simp
  ultimately show ?thesis by (cases "leftover 16 xs = []") simp_all
qed

lemma leftover_read:
  "inp + len \<le> length buf \<Longrightarrow> leftover 16 (take len (drop inp buf)) = take (len mod 16) (drop (inp + len div 16 * 16) buf)"
  by (simp add: leftover_def drop_take minus_div_mult_eq_mod add.commute)

lemma length_concat_blocks: "\<forall>b\<in>set bs. length b = 16 \<Longrightarrow> length (concat bs) = 16 * length bs"
  by (induction bs) simp_all

lemma length_blocks_16: "length (blocks 16 xs) = length xs div 16"
proof -
  have "16 * length (blocks 16 xs) + length (leftover 16 xs) = length xs"
    using length_concat_blocks [of "blocks 16 xs"] length_blocks [of _ 16 xs] blocks_leftover [of 16 xs]
    by (metis length_append zero_less_numeral)
  then have "16 * length (blocks 16 xs) + length xs mod 16 = length xs" by (simp add: length_leftover)
  then show ?thesis by (metis div_mult_mod_eq add_right_cancel mult.commute mult_cancel_right zero_neq_numeral)
qed

lemma cbc_encrypt_chains:
  assumes E: "block_fun E" and iv: "length ivec = 16"
    and b: "inp + len \<le> length buf" "out + whole_blocks len \<le> length buf" and o: "out \<le> inp \<or> inp + len \<le> out"
  defines "cs \<equiv> cbc_enc E ivec (blocks 16 (pad16 (take len (drop inp buf))))"
  shows "CRYPTO_cbc128_encrypt E ivec buf inp out len = (mem_write buf out (concat cs), last (ivec # cs))"
proof -
  define xs where "xs = take len (drop inp buf)"
  define ds where "ds = cbc_enc E ivec (blocks 16 xs)"
  define k where "k = len div 16 * 16"
  define buf1 where "buf1 = mem_write buf out (concat ds)"
  have lx: "length xs = len" using b by (simp add: xs_def)
  have kl: "k \<le> len" "len - k = len mod 16" by (simp_all add: k_def minus_div_mult_eq_mod)
  have wk: "len \<le> whole_blocks len" "len mod 16 \<noteq> 0 \<Longrightarrow> k + 16 \<le> whole_blocks len"
    by (simp_all add: len_le_whole_blocks) (simp add: whole_blocks_eq k_def)
  have lds: "length (concat ds) = k"
  proof -
    have "\<forall>c\<in>set ds. length c = 16"
      unfolding ds_def using E iv by (rule cbc_enc_lengths) (use length_blocks [of _ 16 xs] in blast)
    then have "length (concat ds) = 16 * length ds" by (rule length_concat_blocks)
    then show ?thesis by (simp add: ds_def length_blocks_16 lx k_def)
  qed
  have l1: "length buf1 = length buf" using lds b(2) wk(1) kl(1) by (simp add: buf1_def length_mem_write)
  have "iv_block buf ivec Ivec = ivec" using iv by (simp add: iv_block_def)
  moreover have "iv_ok buf ivec Ivec" "iv_below Ivec out" using iv by (simp_all add: iv_ok_def iv_below_def)
  moreover have "out + len \<le> length buf" using b(2) wk(1) by simp
  ultimately obtain iv' where words: "cbc_encrypt_words E ivec buf Ivec inp out len = (buf1, iv', inp + k, out + k, len - k)"
      and iv': "iv_ok buf1 ivec iv'" "iv_below iv' (out + k)" "iv_block buf1 ivec iv' = last (ivec # ds)"
    using cbc_encrypt_words_chains [OF E _ _ b(1) _ o, of ivec Ivec] by (auto simp: buf1_def ds_def xs_def k_def)
  show ?thesis
  proof (cases "len mod 16 = 0")
    case True
    then have "leftover 16 xs = []" by (simp add: lx length_leftover flip: length_0_conv)
    then have "cs = ds" by (simp add: cs_def ds_def blocks_pad16 flip: xs_def)
    then show ?thesis using words iv' kl True
      by (simp add: CRYPTO_cbc128_encrypt_def cbc_encrypt_tail.simps [where len = 0] buf1_def)
  next
    case False
    define c where "c = E (xor_bytes (pad16 (leftover 16 xs)) (last (ivec # ds)))"
    have rest: "take (len - k) (drop (inp + k) buf1) = leftover 16 xs"
    proof -
      have "take (len - k) (drop (inp + k) buf1) = take (len - k) (drop (inp + k) buf)"
        unfolding buf1_def using o lds kl b(2) wk(1) by (intro read_untouched) auto
      then show ?thesis using leftover_read [OF b(1)] kl(2) by (simp add: xs_def flip: k_def)
    qed
    have "cbc_encrypt_tail E ivec buf1 iv' (inp + k) (out + k) (len - k) =
        (mem_write buf1 (out + k) (E (xor_bytes (pad16 (take (len - k) (drop (inp + k) buf1))) (iv_block buf1 ivec iv'))), At (out + k))"
      using E iv'(1,2) by (rule cbc_encrypt_tail_pads) (use False kl b wk(2) l1 o in \<open>auto simp: add.assoc\<close>)
    then have tail: "cbc_encrypt_tail E ivec buf1 iv' (inp + k) (out + k) (len - k) = (mem_write buf1 (out + k) c, At (out + k))"
      by (simp add: c_def rest iv'(3) del: last.simps)
    have "length (leftover 16 xs) = len mod 16" by (simp add: length_leftover lx)
    then have "length (pad16 (leftover 16 xs)) = 16" using False by (intro length_pad16) simp_all
    moreover have "length (last (ivec # ds)) = 16" using iv'(1,3) length_iv_block by metis
    ultimately have "length (xor_bytes (pad16 (leftover 16 xs)) (last (ivec # ds))) = 16" by simp
    then have lc: "length c = 16" unfolding c_def using E by (intro block_funD [of E])
    have "leftover 16 xs \<noteq> []" using False lx by (simp add: length_leftover flip: length_0_conv)
    then have "cs = ds @ [c]" by (simp add: cs_def ds_def c_def blocks_pad16 cbc_enc_append Let_def flip: xs_def)
    moreover have "mem_write buf1 (out + k) c = mem_write buf out (concat (ds @ [c]))"
      using mem_write_append [of out "concat ds" buf c] lds b(2) wk(1) kl(1) by (simp add: buf1_def)
    moreover have "iv_block (mem_write buf1 (out + k) c) ivec (At (out + k)) = c"
      using lc l1 b(2) wk(2) [OF False] read_written [of "out + k" c buf1] by (simp add: iv_block_def block_at_def)
    ultimately show ?thesis using words tail by (simp add: CRYPTO_cbc128_encrypt_def)
  qed
qed

section \<open>Decryption is chaining\<close>

lemma cbc_decrypt_direct_chains:
  assumes D: "block_fun D" and "iv_ok buf ivec iv" and "iv_apart iv out"
    and "inp + len \<le> length buf" and "out + len \<le> length buf" and "out + 32 \<le> inp \<or> inp + len \<le> out"
  defines "cs \<equiv> blocks 16 (take len (drop inp buf))"
  defines "buf' \<equiv> mem_write buf out (concat (cbc_dec D (iv_block buf ivec iv) cs))"
    and "k \<equiv> len div 16 * 16"
  shows "\<exists>iv'. cbc_decrypt_direct D ivec buf iv inp out len = (buf', iv', inp + k, out + k, len - k) \<and>
    iv_block buf' ivec iv' = last (iv_block buf ivec iv # cs)"
  using assms(2-6) unfolding buf'_def cs_def k_def
proof (induction len arbitrary: buf iv inp out rule: less_induct)
  case (less len)
  show ?case
  proof (cases "16 \<le> len")
    case False
    with less.prems show ?thesis by (simp add: cbc_decrypt_direct.simps)
  next
    case True
    define v where "v = iv_block buf ivec iv"
    define c where "c = block_at buf inp"
    define d where "d = xor_bytes (D c) v"
    define buf1 where "buf1 = mem_write buf out d"
    define ys where "ys = take len (drop inp buf)"
    from less.prems True have b: "inp + 16 \<le> length buf" "out + 16 \<le> length buf" by simp_all
    have lv: "length v = 16" and lc: "length c = 16" using less.prems(1) b by (simp_all add: v_def c_def)
    then have lD: "length (D c) = 16" and ld: "length d = 16" using D by (simp_all add: block_funD d_def)
    have l1: "length buf1 = length buf" using ld b by (simp add: buf1_def length_mem_write)
    have "xor_words (apply_block D buf inp out) ivec iv out out = buf1"
    proof -
      let ?b = "mem_write buf out (D c)"
      have ok: "iv_ok ?b ivec iv" using less.prems(1) b lD by (simp add: iv_ok_write)
      have l: "length ?b = length buf" using b lD by (simp add: length_mem_write)
      have "iv_block ?b ivec iv = v" using less.prems(1,2) b lD by (simp add: iv_block_untouched v_def)
      moreover have "block_at ?b out = D c" using b lD read_written [of out "D c" buf] by (simp add: block_at_def)
      ultimately have "xor_words ?b ivec iv out out = mem_write ?b out d"
        using xor_words_block [OF ok less.prems(2), of out] b l by (simp add: d_def)
      then show ?thesis using b lD ld by (simp add: apply_block_def mem_write_again buf1_def flip: c_def)
    qed
    then have step: "cbc_decrypt_direct D ivec buf iv inp out len =
        cbc_decrypt_direct D ivec buf1 (At inp) (inp + 16) (out + 16) (len - 16)"
      using True by (subst cbc_decrypt_direct.simps) (simp add: Let_def)
    have ivb: "iv_block buf1 ivec (At inp) = c"
      unfolding buf1_def c_def iv_block_def iv_ptr.case block_at_def
      using b ld less.prems(5) True by (intro read_untouched) auto
    have rest: "take (len - 16) (drop (inp + 16) buf1) = drop 16 ys"
      unfolding buf1_def ys_def using b ld less.prems True by (intro input_untouched) auto
    have ok1: "iv_ok buf1 ivec (At inp)" "iv_apart (At inp) (out + 16)"
      using b l1 less.prems(5) True by (auto simp: iv_ok_def iv_apart_def)
    define ds where "ds = cbc_dec D c (blocks 16 (drop 16 ys))"
    have "16 \<le> length ys" "take 16 ys = c" using True less.prems b by (simp_all add: ys_def c_def first_block del: take_take)
    then have cs: "blocks 16 ys = c # blocks 16 (drop 16 ys)" "cbc_dec D v (blocks 16 ys) = d # ds"
      by (simp_all add: blocks_step ds_def d_def)
    have m: "mem_write buf1 (out + 16) (concat ds) = mem_write buf out (concat (d # ds))"
      using mem_write_append [of out d buf "concat ds"] b ld by (simp add: buf1_def)
    have k: "16 + (len - 16) div 16 * 16 = len div 16 * 16" using True by (simp add: le_div_geq)
    have small: "len - 16 < len" and p: "inp + 16 + (len - 16) \<le> length buf1" "out + 16 + (len - 16) \<le> length buf1"
        "out + 16 + 32 \<le> inp + 16 \<or> inp + 16 + (len - 16) \<le> out + 16"
      using True less.prems l1 by auto
    obtain iv' where "cbc_decrypt_direct D ivec buf1 (At inp) (inp + 16) (out + 16) (len - 16) =
          (mem_write buf1 (out + 16) (concat ds), iv', inp + 16 + (len - 16) div 16 * 16, out + 16 + (len - 16) div 16 * 16,
           len - 16 - (len - 16) div 16 * 16)"
        "iv_block (mem_write buf1 (out + 16) (concat ds)) ivec iv' = last (c # blocks 16 (drop 16 ys))"
      using less.IH [OF small ok1 p, unfolded ivb rest, folded ds_def] by blast
    then show ?thesis
      unfolding step using cs m k by (intro exI [of _ iv']) (simp add: v_def ys_def add.assoc)
  qed
qed

lemma swap_words_block:
  assumes l: "length tmp = 16" "length ivec = 16" and b: "inp + 16 \<le> length buf" "out + 16 \<le> length buf"
    and o: "out \<le> inp \<or> inp + 16 \<le> out"
  shows "swap_words tmp inp out ivec buf = (mem_write buf out (xor_bytes tmp ivec), block_at buf inp)"
proof -
  define d0 where "d0 = xor_bytes (take 8 tmp) (take 8 ivec)"
  define buf1 where "buf1 = mem_write buf out d0"
  define ivec1 where "ivec1 = mem_write ivec 0 (take 8 (drop inp buf))"
  define c1 where "c1 = take 8 (drop (inp + 8) buf)"
  have l0: "length d0 = 8" "length buf1 = length buf" "length ivec1 = 16" "length c1 = 8"
    using l b by (simp_all add: d0_def buf1_def ivec1_def c1_def length_mem_write)
  have in1: "take 8 (drop (inp + 8) buf1) = c1"
    unfolding buf1_def c1_def using o b l0 by (intro read_untouched) auto
  have iv1: "take 8 (drop 8 ivec1) = take 8 (drop 8 ivec)"
    unfolding ivec1_def using l b by (intro read_untouched) auto
  have "swap_words tmp inp out ivec buf =
      (store_word_le buf1 (out + 8) (load_word_le tmp 8 XOR load_word_le ivec1 8), store_word_le ivec1 8 (load_word_le buf1 (inp + 8)))"
    using l b by (simp add: swap_words_def Let_def store_xor store_load buf1_def ivec1_def d0_def)
  also have "\<dots> = (mem_write buf1 (out + 8) (xor_bytes (take 8 (drop 8 tmp)) (take 8 (drop 8 ivec))), mem_write ivec1 8 c1)"
    using l b l0 by (simp add: store_xor store_load in1 iv1)
  also have "mem_write buf1 (out + 8) (xor_bytes (take 8 (drop 8 tmp)) (take 8 (drop 8 ivec))) = mem_write buf out (xor_bytes tmp ivec)"
    using mem_write_append [of out d0 buf] l b l0 halves [of tmp] halves [of ivec]
      xor_bytes_append [of "take 8 tmp" "take 8 ivec" "take 8 (drop 8 tmp)" "take 8 (drop 8 ivec)"]
    by (simp add: buf1_def d0_def)
  also have "mem_write ivec1 8 c1 = block_at buf inp"
    using mem_write_append [of 0 "take 8 (drop inp buf)" ivec c1] l b l0 halves [of "drop inp buf"]
    by (simp add: ivec1_def c1_def block_at_def add.commute) (simp add: mem_write_def)
  finally show ?thesis .
qed

lemma cbc_decrypt_buffered_chains:
  assumes D: "block_fun D" and "length ivec = 16"
    and "inp + len \<le> length buf" and "out + len \<le> length buf" and "out \<le> inp \<or> inp + len \<le> out"
  defines "cs \<equiv> blocks 16 (take len (drop inp buf))"
    and "k \<equiv> len div 16 * 16"
  shows "cbc_decrypt_buffered D ivec buf inp out len =
    (mem_write buf out (concat (cbc_dec D ivec cs)), last (ivec # cs), inp + k, out + k, len - k)"
  using assms(2-5) unfolding cs_def k_def
proof (induction len arbitrary: buf ivec inp out rule: less_induct)
  case (less len)
  show ?case
  proof (cases "16 \<le> len")
    case False
    with less.prems show ?thesis by (simp add: cbc_decrypt_buffered.simps)
  next
    case True
    define c where "c = block_at buf inp"
    define d where "d = xor_bytes (D c) ivec"
    define buf1 where "buf1 = mem_write buf out d"
    define ys where "ys = take len (drop inp buf)"
    from less.prems True have b: "inp + 16 \<le> length buf" "out + 16 \<le> length buf" by simp_all
    have lc: "length c = 16" using b by (simp add: c_def)
    then have lD: "length (D c) = 16" and ld: "length d = 16" using D less.prems(1) by (simp_all add: block_funD d_def)
    have l1: "length buf1 = length buf" using ld b by (simp add: buf1_def length_mem_write)
    have "out \<le> inp \<or> inp + 16 \<le> out" using less.prems(4) True by auto
    then have "swap_words (D c) inp out ivec buf = (buf1, c)"
      using swap_words_block [OF lD less.prems(1) b] by (simp add: buf1_def d_def c_def)
    then have step: "cbc_decrypt_buffered D ivec buf inp out len = cbc_decrypt_buffered D c buf1 (inp + 16) (out + 16) (len - 16)"
      using True by (subst cbc_decrypt_buffered.simps) (simp flip: c_def)
    have rest: "take (len - 16) (drop (inp + 16) buf1) = drop 16 ys"
      unfolding buf1_def ys_def using b ld less.prems True by (intro input_untouched) auto
    have "16 \<le> length ys" "take 16 ys = c" using True less.prems b by (simp_all add: ys_def c_def first_block del: take_take)
    then have cs: "blocks 16 ys = c # blocks 16 (drop 16 ys)" by (simp add: blocks_step)
    have m: "mem_write buf1 (out + 16) xs = mem_write buf out (d @ xs)" for xs
      using mem_write_append [of out d buf xs] b ld by (simp add: buf1_def)
    have k: "16 + (len - 16) div 16 * 16 = len div 16 * 16" using True by (simp add: le_div_geq)
    have small: "len - 16 < len" and p: "inp + 16 + (len - 16) \<le> length buf1" "out + 16 + (len - 16) \<le> length buf1"
        "out + 16 \<le> inp + 16 \<or> inp + 16 + (len - 16) \<le> out + 16"
      using True less.prems l1 by auto
    show ?thesis
      unfolding step less.IH [OF small lc p, unfolded rest] using cs m k by (simp add: d_def ys_def add.assoc)
  qed
qed

text \<open>The tail reads a whole block and writes \<open>len\<close> bytes.\<close>

lemma swap_bytes:
  assumes "length tmp = 16" and "length ivec = 16" and "k \<le> 16" and "inp + k \<le> length buf" and "out + k \<le> length buf"
    and "out \<le> inp \<or> inp + k \<le> out"
  shows "fold (\<lambda>n (buf, ivec). let c = buf ! (inp + n) in (buf[out + n := tmp ! n XOR ivec ! n], ivec[n := c])) [0..<k] (buf, ivec) =
    (mem_write buf out (take k (xor_bytes tmp ivec)), mem_write ivec 0 (take k (drop inp buf)))"
  using assms
proof (induction k)
  case (Suc k)
  let ?d = "take k (xor_bytes tmp ivec)" and ?e = "take k (drop inp buf)"
  have l: "length ?d = k" "length ?e = k" using Suc.prems by simp_all
  have "mem_write buf out ?d ! (inp + k) = buf ! (inp + k)" using Suc.prems l by (auto simp: nth_mem_write)
  moreover have "mem_write ivec 0 ?e ! k = ivec ! k" using Suc.prems l by (auto simp: nth_mem_write)
  moreover have "(mem_write buf out ?d)[out + k := tmp ! k XOR ivec ! k] = mem_write buf out (take (Suc k) (xor_bytes tmp ivec))"
    using Suc.prems l mem_write_append [of out ?d buf "[tmp ! k XOR ivec ! k]"]
    by (simp add: mem_write_one length_mem_write take_Suc_conv_app_nth)
  moreover have "(mem_write ivec 0 ?e)[k := buf ! (inp + k)] = mem_write ivec 0 (take (Suc k) (drop inp buf))"
    using Suc.prems l mem_write_append [of 0 ?e ivec "[buf ! (inp + k)]"]
    by (simp add: mem_write_one length_mem_write take_Suc_conv_app_nth)
  ultimately show ?case using Suc by (auto simp: Let_def)
qed simp

text \<open>
  The bytes it writes, under the condition of the assertion in the code, which counts \<open>len\<close> bytes of input: it allows an output that
  starts inside the block read.
\<close>

lemma cbc_decrypt_tail_writes:
  assumes D: "block_fun D" and iv: "length ivec = 16" and len: "len < 16" "len \<noteq> 0"
    and b: "inp + 16 \<le> length buf" "out + len \<le> length buf" and o: "out \<le> inp \<or> inp + len \<le> out"
  defines "buf' \<equiv> mem_write buf out (take len (xor_bytes (D (block_at buf inp)) ivec))"
  shows "cbc_decrypt_tail D ivec buf inp out len =
    (buf', mem_write (mem_write ivec 0 (take len (drop inp buf))) len (map (\<lambda>n. buf' ! (inp + n)) [len..<16]))"
proof -
  define tmp where "tmp = D (block_at buf inp)"
  define ivec1 where "ivec1 = mem_write ivec 0 (take len (drop inp buf))"
  have lt: "length tmp = 16" using D b by (simp add: tmp_def block_funD)
  have l1: "length ivec1 = 16" using iv len b by (simp add: ivec1_def length_mem_write)
  have 1: "fold (\<lambda>n (buf, ivec). let c = buf ! (inp + n) in (buf[out + n := tmp ! n XOR ivec ! n], ivec[n := c])) [0..<len] (buf, ivec) =
      (buf', ivec1)"
    using swap_bytes [OF lt iv, of len inp buf out] len b o by (auto simp: buf'_def tmp_def ivec1_def)
  have "fold (\<lambda>n ivec. ivec[n := buf' ! (inp + n)]) [len..<16] ivec1 = mem_write ivec1 len (map (\<lambda>n. buf' ! (inp + n)) [len..<16])"
    using fold_update [of len 16 0 ivec1 "\<lambda>_ n. buf' ! (inp + n)"] len l1 by simp
  then show ?thesis
    using len 1 by (subst cbc_decrypt_tail.simps) (simp add: min_def Let_def ivec1_def flip: tmp_def)
qed

lemma cbc_decrypt_tail_block:
  assumes D: "block_fun D" and iv: "length ivec = 16" and len: "len < 16" "len \<noteq> 0"
    and b: "inp + 16 \<le> length buf" "out + len \<le> length buf" and o: "out \<le> inp \<or> inp + 16 \<le> out"
  shows "cbc_decrypt_tail D ivec buf inp out len =
    (mem_write buf out (take len (xor_bytes (D (block_at buf inp)) ivec)), block_at buf inp)"
proof -
  define buf1 where "buf1 = mem_write buf out (take len (xor_bytes (D (block_at buf inp)) ivec))"
  have lD: "length (D (block_at buf inp)) = 16" using D b by (simp add: block_funD)
  then have l1: "length buf1 = length buf" using iv len b by (simp add: buf1_def length_mem_write)
  have m: "map (\<lambda>n. buf1 ! (inp + n)) [len..<16] = drop len (block_at buf inp)"
    using b len l1 o lD iv by (intro nth_equalityI) (auto simp: block_at_read buf1_def nth_mem_write)
  have "take len (drop inp buf) = take len (block_at buf inp)" using len by (simp add: block_at_def min_def)
  then have "mem_write (mem_write ivec 0 (take len (drop inp buf))) len (drop len (block_at buf inp)) = mem_write ivec 0 (block_at buf inp)"
    using mem_write_append [of 0 "take len (drop inp buf)" ivec "drop len (block_at buf inp)"] len b iv by simp
  also have "\<dots> = block_at buf inp" using b iv by (simp add: mem_write_def)
  finally show ?thesis
    using cbc_decrypt_tail_writes [OF D iv len b] o len m by (auto simp flip: buf1_def)
qed

lemma blocks_whole:
  assumes "whole_blocks len \<le> length ys"
  shows "blocks 16 (take (whole_blocks len) ys) =
    blocks 16 (take len ys) @ (if len mod 16 = 0 then [] else [block_at ys (len div 16 * 16)])"
proof (cases "len mod 16 = 0")
  case True
  then have "whole_blocks len = len" by (simp add: whole_blocks_eq) (use div_mult_mod_eq [of len 16] in simp)
  with True show ?thesis by simp
next
  case False
  define k where "k = len div 16 * 16"
  have k: "whole_blocks len = k + 16" "len = k + len mod 16" "k mod 16 = 0" "k \<le> len"
    using False by (simp_all add: whole_blocks_eq k_def)
  have kl: "leftover 16 (take k ys) = []" using k(1,3) assms by (simp add: length_leftover flip: length_0_conv)
  have "take (whole_blocks len) ys = take k ys @ block_at ys k" by (simp add: k(1) take_add block_at_def)
  then have "blocks 16 (take (whole_blocks len) ys) = blocks 16 (take k ys) @ [block_at ys k]"
    using assms k(1) blocks_append(1) [of 16 "take k ys" "block_at ys k"] blocks_step [of 16 "block_at ys k"]
    by (simp add: kl)
  moreover have "take len ys = take k ys @ take (len mod 16) (drop k ys)" using k(2) take_add by metis
  then have "blocks 16 (take len ys) = blocks 16 (take k ys)"
    using blocks_append(1) [of 16 "take k ys" "take (len mod 16) (drop k ys)"] by (simp add: kl)
  ultimately show ?thesis using False by (simp add: k_def)
qed

lemma cbc_dec_lengths:
  "block_fun D \<Longrightarrow> length iv = 16 \<Longrightarrow> \<forall>b\<in>set cs. length b = 16 \<Longrightarrow> \<forall>c\<in>set (cbc_dec D iv cs). length c = 16"
  by (induction cs arbitrary: iv) (auto simp: block_funD)

lemma whole_blocks_multiple: "len mod 16 = 0 \<Longrightarrow> whole_blocks len = len"
  by (simp add: whole_blocks_eq) (use div_mult_mod_eq [of len 16] in simp)

lemma length_cbc_plain:
  assumes "block_fun D" and "length iv = 16" and "length xs = n" and "n mod 16 = 0"
  shows "length (concat (cbc_dec D iv (blocks 16 xs))) = n"
proof -
  have "\<forall>b\<in>set (blocks 16 xs). length b = 16" using length_blocks by blast
  from length_concat_blocks [OF cbc_dec_lengths [OF assms(1,2) this]] show ?thesis
    using assms(3,4) by (simp add: length_blocks_16) (use div_mult_mod_eq [of n 16] in simp)
qed

text \<open>Up to the last partial block, under the condition of the assertion.\<close>

lemma cbc_decrypt_to_tail:
  assumes D: "block_fun D" and iv: "length ivec = 16"
    and b: "inp + len \<le> length buf" "out + len \<le> length buf" and o: "out \<le> inp \<or> inp + len \<le> out"
  defines "cs \<equiv> blocks 16 (take len (drop inp buf))" and "k \<equiv> len div 16 * 16"
  defines "buf1 \<equiv> mem_write buf out (concat (cbc_dec D ivec cs))"
  shows "CRYPTO_cbc128_decrypt D ivec buf inp out len =
      cbc_decrypt_tail D (last (ivec # cs)) buf1 (inp + k) (out + k) (len - k)"
    and "length (last (ivec # cs)) = 16" and "length (concat (cbc_dec D ivec cs)) = k" and "length buf1 = length buf"
proof -
  show "CRYPTO_cbc128_decrypt D ivec buf inp out len =
      cbc_decrypt_tail D (last (ivec # cs)) buf1 (inp + k) (out + k) (len - k)"
  proof (cases "32 \<le> inp \<and> out \<le> inp - 32 \<or> inp < out")
    case True
    then have f: "out + 32 \<le> inp \<or> inp + len \<le> out" using o by auto
    have v: "iv_block buf ivec Ivec = ivec" "iv_ok buf ivec Ivec" "iv_apart Ivec out"
      using iv by (simp_all add: iv_block_def iv_ok_def iv_apart_def)
    from cbc_decrypt_direct_chains [OF D v(2,3) b f] True show ?thesis
      by (auto simp: CRYPTO_cbc128_decrypt_def v(1) buf1_def cs_def k_def)
  next
    case False
    show ?thesis
      unfolding CRYPTO_cbc128_decrypt_def if_not_P [OF False] cbc_decrypt_buffered_chains [OF D iv b o]
      by (simp add: buf1_def cs_def k_def)
  qed
  have lb: "\<forall>b\<in>set cs. length b = 16" unfolding cs_def using length_blocks by blast
  show "length (last (ivec # cs)) = 16" using iv lb by (cases cs rule: rev_cases) auto
  show lds: "length (concat (cbc_dec D ivec cs)) = k"
    using length_concat_blocks [OF cbc_dec_lengths [OF D iv lb]] b(1) by (simp add: cs_def length_blocks_16 k_def)
  have "k \<le> len" by (simp add: k_def)
  with lds b(2) show "length buf1 = length buf" by (simp add: buf1_def length_mem_write)
qed

text \<open>
  The output: the plaintext of the whole blocks, and for the rest the decryption of the block that the memory holds there by then.
\<close>

lemma cbc_decrypt_output:
  assumes D: "block_fun D" and iv: "length ivec = 16"
    and b: "inp + whole_blocks len \<le> length buf" "out + len \<le> length buf" and o: "out \<le> inp \<or> inp + len \<le> out"
  defines "cs \<equiv> blocks 16 (take len (drop inp buf))" and "k \<equiv> len div 16 * 16"
  defines "ds \<equiv> concat (cbc_dec D ivec cs)"
  defines "p \<equiv> if len mod 16 = 0 then []
    else take (len mod 16) (xor_bytes (D (block_at (mem_write buf out ds) (inp + k))) (last (ivec # cs)))"
  shows "fst (CRYPTO_cbc128_decrypt D ivec buf inp out len) = mem_write buf out (ds @ p)" and "length p = len mod 16"
proof -
  define buf1 where "buf1 = mem_write buf out ds"
  have kl: "k \<le> len" "len - k = len mod 16" by (simp_all add: k_def minus_div_mult_eq_mod)
  have "inp + len \<le> length buf" using b(1) len_le_whole_blocks [of len] by simp
  note t = cbc_decrypt_to_tail [OF D iv this b(2) o, folded cs_def k_def, folded ds_def, folded buf1_def]
  have "fst (CRYPTO_cbc128_decrypt D ivec buf inp out len) = mem_write buf out (ds @ p) \<and> length p = len mod 16"
  proof (cases "len mod 16 = 0")
    case True
    then show ?thesis using t(1) kl(2) by (simp add: cbc_decrypt_tail.simps [where len = 0] buf1_def p_def)
  next
    case False
    define c where "c = block_at buf1 (inp + k)"
    have p: "p = take (len - k) (xor_bytes (D c) (last (ivec # cs)))" using False kl(2) by (simp add: p_def c_def buf1_def)
    have w: "whole_blocks len = k + 16" using False by (simp add: whole_blocks_eq k_def)
    have lD: "length (D c) = 16" using D b(1) w t(4) by (simp add: c_def block_funD)
    have r: "len - k < 16" "len - k \<noteq> 0" "inp + k + 16 \<le> length buf1" "out + k + (len - k) \<le> length buf1"
        "out + k \<le> inp + k \<or> inp + k + (len - k) \<le> out + k"
      using False kl b w o t(4) by auto
    have "fst (cbc_decrypt_tail D (last (ivec # cs)) buf1 (inp + k) (out + k) (len - k)) = mem_write buf1 (out + k) p"
      using cbc_decrypt_tail_writes [OF D t(2) r(1,2), of "inp + k" buf1 "out + k"] r(3-) by (simp add: p c_def)
    moreover have "mem_write buf1 (out + k) p = mem_write buf out (ds @ p)"
      using mem_write_append [of out ds buf p] t(3) b(2) kl(1) by (simp add: buf1_def)
    moreover have "length p = len mod 16" using lD t(2) kl(2) by (simp add: p)
    ultimately show ?thesis using t(1) by simp
  qed
  then show "fst (CRYPTO_cbc128_decrypt D ivec buf inp out len) = mem_write buf out (ds @ p)" and "length p = len mod 16" by simp_all
qed

lemma cbc_decrypt_whole_blocks:
  assumes "block_fun D" and "length ivec = 16" and "inp + whole_blocks len \<le> length buf" and "out + len \<le> length buf"
    and "out \<le> inp \<or> inp + len \<le> out"
  shows "\<exists>p iv'. CRYPTO_cbc128_decrypt D ivec buf inp out len =
    (mem_write buf out (concat (cbc_dec D ivec (blocks 16 (take len (drop inp buf)))) @ p), iv') \<and> length p = len mod 16"
  using cbc_decrypt_output [OF assms] by (cases "CRYPTO_cbc128_decrypt D ivec buf inp out len") auto

lemma cbc_decrypt_chains:
  assumes D: "block_fun D" and iv: "length ivec = 16"
    and b: "inp + whole_blocks len \<le> length buf" "out + len \<le> length buf" and o: "out \<le> inp \<or> inp + whole_blocks len \<le> out"
  defines "cs \<equiv> blocks 16 (take (whole_blocks len) (drop inp buf))"
  shows "CRYPTO_cbc128_decrypt D ivec buf inp out len =
    (mem_write buf out (take len (concat (cbc_dec D ivec cs))), last (ivec # cs))"
proof -
  define k where "k = len div 16 * 16"
  define xs where "xs = take len (drop inp buf)"
  define ds where "ds = cbc_dec D ivec (blocks 16 xs)"
  define buf1 where "buf1 = mem_write buf out (concat ds)"
  define c where "c = block_at buf (inp + k)"
  define iv1 where "iv1 = last (ivec # blocks 16 xs)"
  have kl: "k \<le> len" "len - k = len mod 16" by (simp_all add: k_def minus_div_mult_eq_mod)
  have wk: "len \<le> whole_blocks len" "len mod 16 \<noteq> 0 \<Longrightarrow> whole_blocks len = k + 16"
    by (simp_all add: len_le_whole_blocks) (simp add: whole_blocks_eq k_def)
  have bl: "inp + len \<le> length buf" and o': "out \<le> inp \<or> inp + len \<le> out" using b(1) o wk(1) by auto
  note t = cbc_decrypt_to_tail [OF D iv bl b(2) o', folded xs_def k_def, folded ds_def, folded buf1_def, folded iv1_def]
  note liv = t(2) and lds = t(3) and l1 = t(4)
  let ?tail = "cbc_decrypt_tail D iv1 buf1 (inp + k) (out + k) (len - k)"
  have "CRYPTO_cbc128_decrypt D ivec buf inp out len = ?tail" by (rule t(1))
  also have "?tail = (mem_write buf out (take len (concat (cbc_dec D ivec cs))), last (ivec # cs))"
  proof (cases "len mod 16 = 0")
    case True
    then have "whole_blocks len = len" by (simp add: whole_blocks_eq) (use div_mult_mod_eq [of len 16] in simp)
    then have "cs = blocks 16 xs" by (simp add: cs_def xs_def)
    moreover have "len - k = 0" using True kl(2) by simp
    moreover have "take len (concat ds) = concat ds" using lds kl(1) by simp
    ultimately show ?thesis by (simp add: cbc_decrypt_tail.simps [where len = 0] iv1_def buf1_def flip: ds_def)
  next
    case False
    note w = wk(2) [OF False]
    have cs: "cs = blocks 16 xs @ [c]"
      using blocks_whole [of len "drop inp buf"] b(1) False
      by (simp add: cs_def xs_def c_def block_at_def add.commute flip: k_def)
    have c1: "block_at buf1 (inp + k) = c"
      unfolding buf1_def c_def block_at_def using o w lds kl(1) b(2) by (intro read_untouched) auto
    have lD: "length (D c) = 16" using D b(1) w by (simp add: c_def block_funD)
    have "?tail = (mem_write buf1 (out + k) (take (len - k) (xor_bytes (D c) iv1)), c)"
      using cbc_decrypt_tail_block [OF D liv, of "len - k" "inp + k" buf1 "out + k"] False kl b w o l1 by (auto simp: c1)
    also have "mem_write buf1 (out + k) (take (len - k) (xor_bytes (D c) iv1)) =
        mem_write buf out (concat ds @ take (len - k) (xor_bytes (D c) iv1))"
      using mem_write_append [of out "concat ds" buf] lds b(2) kl(1) by (simp add: buf1_def)
    also have "concat ds @ take (len - k) (xor_bytes (D c) iv1) = take len (concat (cbc_dec D ivec cs))"
      using lds kl(1) by (simp add: cs cbc_dec_append ds_def iv1_def)
    finally show ?thesis by (simp add: cs)
  qed
  finally show ?thesis .
qed

section \<open>Properties\<close>

text \<open>Decryption undoes encryption for inputs of every length, whether the buffers are apart or overlap the way the code allows (the output starting
  no later than the input, or behind it), and both leave the same initialisation vector for the next call.
\<close>

theorem cbc_roundtrip:
  assumes E: "block_fun E" "block_fun D" "\<forall>b. length b = 16 \<longrightarrow> D (E b) = b" and iv: "length ivec = 16"
    and b: "inp + len \<le> length buf" "mid + whole_blocks len \<le> length buf" "out + len \<le> length buf"
    and o: "mid \<le> inp \<or> inp + len \<le> mid" "out \<le> mid \<or> mid + whole_blocks len \<le> out"
    and enc: "CRYPTO_cbc128_encrypt E ivec buf inp mid len = (buf1, iv1)"
    and dec: "CRYPTO_cbc128_decrypt D ivec buf1 mid out len = (buf2, iv2)"
  shows "take len (drop out buf2) = take len (drop inp buf) \<and> iv2 = iv1"
proof -
  define xs where "xs = take len (drop inp buf)"
  define cs where "cs = cbc_enc E ivec (blocks 16 (pad16 xs))"
  have lx: "length xs = len" using b by (simp add: xs_def)
  have lp: "length (pad16 xs) = whole_blocks len"
  proof -
    have "len + (16 - len mod 16) mod 16 = len div 16 * 16 + (len mod 16 + (16 - len mod 16) mod 16)" by simp
    moreover have "len mod 16 + (16 - len mod 16) mod 16 = (if len mod 16 = 0 then 0 else 16)"
      by (cases "len mod 16 = 0") simp_all
    ultimately show ?thesis by (simp only: pad16_def length_append length_replicate lx whole_blocks_eq)
  qed
  have m16: "whole_blocks len mod 16 = 0" by (simp add: whole_blocks_def)
  have lb: "\<forall>b\<in>set (blocks 16 (pad16 xs)). length b = 16" using length_blocks by blast
  have lc: "\<forall>c\<in>set cs. length c = 16" unfolding cs_def using E(1) iv lb by (rule cbc_enc_lengths)
  have e: "buf1 = mem_write buf mid (concat cs)" "iv1 = last (ivec # cs)"
    using cbc_encrypt_chains [OF E(1) iv b(1,2) o(1)] enc by (simp_all add: cs_def xs_def)
  have lcs: "length (concat cs) = whole_blocks len"
    using length_concat_blocks [OF lc] m16 lp by (simp add: cs_def length_blocks_16) (metis add_cancel_right_right mult.commute mult_div_mod_eq)
  have "take (whole_blocks len) (drop mid buf1) = concat cs" using read_written [of mid "concat cs" buf] b(2) lcs by (simp add: e(1))
  then have cs: "blocks 16 (take (whole_blocks len) (drop mid buf1)) = cs"
  proof -
    have "blocks 16 (concat ds) = ds" if "\<forall>d\<in>set ds. length d = 16" for ds :: "bytes list"
      using that by (induction ds) (simp_all add: blocks_step)
    then show ?thesis using lc \<open>take (whole_blocks len) (drop mid buf1) = concat cs\<close> by simp
  qed
  have l1: "length buf1 = length buf" using b(2) lcs by (simp add: e(1) length_mem_write)
  have d: "buf2 = mem_write buf1 out (take len (concat (cbc_dec D ivec cs)))" "iv2 = last (ivec # cs)"
    using cbc_decrypt_chains [OF E(2) iv, of mid len buf1 out] b o(2) l1 dec cs by simp_all
  have "cbc_dec D ivec cs = blocks 16 (pad16 xs)" unfolding cs_def using E(1,3) iv lb by (rule cbc_dec_enc)
  moreover have "concat (blocks 16 (pad16 xs)) = pad16 xs"
    using blocks_leftover [of 16 "pad16 xs"] m16 lp length_leftover [of 16 "pad16 xs"] by simp
  ultimately have "take len (concat (cbc_dec D ivec cs)) = xs" using lx by (simp add: pad16_def)
  then show ?thesis using d e read_written [of out xs buf1] b(3) l1 lx by (simp add: xs_def)
qed

lemma cbc_roundtrip_witness:
  "case CRYPTO_cbc128_encrypt rev (replicate 16 0) ([0, 1, 2, 3, 4] @ replicate 31 7) 1 0 17 of (buf1, iv1) \<Rightarrow>
   case CRYPTO_cbc128_decrypt rev (replicate 16 0) buf1 0 0 17 of (buf2, iv2) \<Rightarrow>
     take 17 buf2 = [1, 2, 3, 4] @ replicate 13 7 \<and> iv2 = iv1"
proof -
  obtain buf1 iv1 where e: "CRYPTO_cbc128_encrypt rev (replicate 16 0) ([0, 1, 2, 3, 4] @ replicate 31 7) 1 0 17 = (buf1, iv1)"
    by force
  obtain buf2 iv2 where d: "CRYPTO_cbc128_decrypt rev (replicate 16 0) buf1 0 0 17 = (buf2, iv2)" by force
  from cbc_roundtrip [OF _ _ _ _ _ _ _ _ _ e d] have "take 17 buf2 = [1, 2, 3, 4] @ replicate 13 7 \<and> iv2 = iv1"
    by (simp add: block_fun_def whole_blocks_def)
  then show ?thesis unfolding e prod.case d .
qed

text \<open>C27.
  Where the output lies makes no difference to decryption.  Take two memories that hold the same ciphertext (whole blocks of it are read,
  of which \<open>len\<close> bytes count), each with any overlap the assertion of \<^verbatim>\<open>CRYPTO_cbc128_decrypt\<close> permits: the output starts no later than the
  input or \<open>len\<close> bytes behind its start.  Whichever way the code takes through each, the plaintext of the whole blocks is the same, and
  nothing but the output changes.  All \<open>len\<close> bytes and the new initialisation vector are the same, too, if \<open>len\<close> is a multiple of 16 or
  no output starts inside the last, partial block of its input, which the assertion lets pass although it is still to be read.
\<close>

theorem cbc_decrypt_overlap:
  assumes D: "block_fun D" and iv: "length ivec = 16"
    and a: "inp + whole_blocks len \<le> length buf" "out + len \<le> length buf" "out \<le> inp \<or> inp + len \<le> out"
    and b: "inp' + whole_blocks len \<le> length mem" "out' + len \<le> length mem" "out' \<le> inp' \<or> inp' + len \<le> out'"
    and same: "take (whole_blocks len) (drop inp buf) = take (whole_blocks len) (drop inp' mem)"
    and r: "CRYPTO_cbc128_decrypt D ivec buf inp out len = (buf1, iv1)" "CRYPTO_cbc128_decrypt D ivec mem inp' out' len = (mem1, iv2)"
  shows "take (len div 16 * 16) (drop out buf1) = take (len div 16 * 16) (drop out' mem1) \<and>
    (len mod 16 = 0 \<or> (out \<le> inp \<or> inp + whole_blocks len \<le> out) \<and> (out' \<le> inp' \<or> inp' + whole_blocks len \<le> out') \<longrightarrow>
      take len (drop out buf1) = take len (drop out' mem1) \<and> iv1 = iv2) \<and>
    length buf1 = length buf \<and> (\<forall>i<length buf. i < out \<or> out + len \<le> i \<longrightarrow> buf1 ! i = buf ! i)"
proof -
  have bl: "inp + len \<le> length buf" "inp' + len \<le> length mem" using a(1) b(1) len_le_whole_blocks [of len] by simp_all
  define ds where "ds = concat (cbc_dec D ivec (blocks 16 (take len (drop inp buf))))"
  have same': "take len (drop inp' mem) = take len (drop inp buf)"
    using arg_cong [OF same, of "take len"] len_le_whole_blocks [of len] by (simp add: min_def)
  have lds: "length ds = len div 16 * 16" unfolding ds_def by (rule cbc_decrypt_to_tail(3) [OF D iv bl(1) a(2,3)])
  obtain p where p: "buf1 = mem_write buf out (ds @ p)" "length p = len mod 16"
    using cbc_decrypt_whole_blocks [OF D iv a] r(1) by (auto simp: ds_def)
  obtain p' where p': "mem1 = mem_write mem out' (ds @ p')" "length p' = len mod 16"
    using cbc_decrypt_whole_blocks [OF D iv b] r(2) by (auto simp: ds_def same')
  have l: "length (ds @ p) = len" "length (ds @ p') = len" using lds p(2) p'(2) by simp_all
  have out: "take len (drop out buf1) = ds @ p" "take len (drop out' mem1) = ds @ p'"
    using read_written [of out "ds @ p" buf] read_written [of out' "ds @ p'" mem] a(2) b(2) l by (simp_all add: p(1) p'(1))
  have "take (length ds) (take len (drop out buf1)) = take (length ds) (take len (drop out' mem1))" unfolding out by simp
  then have whole: "take (len div 16 * 16) (drop out buf1) = take (len div 16 * 16) (drop out' mem1)"
    by (simp add: lds min_def)
  have all: "take len (drop out buf1) = take len (drop out' mem1) \<and> iv1 = iv2"
    if c: "len mod 16 = 0 \<or> (out \<le> inp \<or> inp + whole_blocks len \<le> out) \<and> (out' \<le> inp' \<or> inp' + whole_blocks len \<le> out')"
  proof -
    have o: "out \<le> inp \<or> inp + whole_blocks len \<le> out" "out' \<le> inp' \<or> inp' + whole_blocks len \<le> out'"
      using c a(3) b(3) whole_blocks_multiple [of len] by auto
    define cs where "cs = blocks 16 (take (whole_blocks len) (drop inp buf))"
    define d where "d = take len (concat (cbc_dec D ivec cs))"
    have e: "buf1 = mem_write buf out d" "iv1 = last (ivec # cs)" "mem1 = mem_write mem out' d" "iv2 = last (ivec # cs)"
      using cbc_decrypt_chains [OF D iv a(1,2) o(1)] cbc_decrypt_chains [OF D iv b(1,2) o(2)] r same
      by (simp_all add: cs_def d_def)
    have "length (concat (cbc_dec D ivec cs)) = whole_blocks len"
      unfolding cs_def by (rule length_cbc_plain [OF D iv]) (use a(1) in \<open>simp_all add: whole_blocks_def\<close>)
    then have "length d = len" using len_le_whole_blocks [of len] by (simp add: d_def)
    then have "take len (drop out buf1) = d" "take len (drop out' mem1) = d"
      using read_written [of out d buf] read_written [of out' d mem] a(2) b(2) by (simp_all add: e)
    with e show ?thesis by simp
  qed
  have "length buf1 = length buf" using l(1) a(2) by (simp add: p(1) length_mem_write)
  moreover have "\<forall>i<length buf. i < out \<or> out + len \<le> i \<longrightarrow> buf1 ! i = buf ! i"
    using l(1) a(2) by (auto simp: p(1) nth_mem_write)
  ultimately show ?thesis using whole all by blast
qed

lemma cbc_decrypt_overlap_witness:
  "take 20 (fst (CRYPTO_cbc128_decrypt rev (replicate 16 0) (replicate 3 9 @ replicate 32 7) 3 0 20)) =
   take 20 (drop 32 (fst (CRYPTO_cbc128_decrypt rev (replicate 16 0) (replicate 32 7 @ replicate 20 0) 0 32 20)))"
proof -
  obtain buf iv1 where a: "CRYPTO_cbc128_decrypt rev (replicate 16 0) (replicate 3 9 @ replicate 32 7) 3 0 20 = (buf, iv1)" by force
  obtain mem iv2 where b: "CRYPTO_cbc128_decrypt rev (replicate 16 0) (replicate 32 7 @ replicate 20 0) 0 32 20 = (mem, iv2)" by force
  from cbc_decrypt_overlap [OF _ _ _ _ _ _ _ _ _ a b] a b show ?thesis by (simp add: block_fun_def whole_blocks_def)
qed

text \<open>
  The exception is real.  Two memories have the same ciphertext, a block and one byte of the next one (followed by what fills that
  block).  In the first the output starts behind that byte: the plaintext of the first block overwrites the rest of the second before it
  is decrypted, and the last byte of output differs.
\<close>

lemma cbc_decrypt_partial_overlap:
  "take 17 (drop 17 (fst (CRYPTO_cbc128_decrypt rev (replicate 16 0) (replicate 17 7 @ replicate 17 8) 0 17 17))) = replicate 16 7 @ [0]"
  "take 17 (drop 32 (fst (CRYPTO_cbc128_decrypt rev (replicate 16 0) (replicate 17 7 @ replicate 32 8) 0 32 17))) = replicate 16 7 @ [15]"
proof -
  have D: "block_fun rev" by (simp add: block_fun_def)
  have x: "xor_bytes (replicate 16 7) (replicate 16 0) = replicate 16 (7 :: u8)" by (simp add: xor_bytes_def)
  have cs: "blocks 16 (replicate 17 (7 :: u8)) = [replicate 16 7]" by (simp add: blocks_step)
  show "take 17 (drop 17 (fst (CRYPTO_cbc128_decrypt rev (replicate 16 0) (replicate 17 7 @ replicate 17 8) 0 17 17))) = replicate 16 7 @ [0]"
    using cbc_decrypt_output(1) [OF D, of "replicate 16 0" 0 17 "replicate 17 7 @ replicate 17 8" 17]
    by (simp add: whole_blocks_def cs x mem_write_def block_at_def xor_bytes_def take_map take_zip)
  show "take 17 (drop 32 (fst (CRYPTO_cbc128_decrypt rev (replicate 16 0) (replicate 17 7 @ replicate 32 8) 0 32 17))) = replicate 16 7 @ [15]"
    using cbc_decrypt_output(1) [OF D, of "replicate 16 0" 0 17 "replicate 17 7 @ replicate 32 8" 32]
    by (simp add: whole_blocks_def cs x mem_write_def block_at_def xor_bytes_def take_map take_zip)
qed

end
