(* ===== verification/Ccm.thy ===== *)
theory Ccm
  imports Counter Cbc
begin

text \<open>
  \<^verbatim>\<open>fipsmodule/modes/ccm.c\<close>: counter mode with the CBC-MAC of the message and of the additional data.
\<close>

record ccm128_context =
  ccm_block :: "bytes \<Rightarrow> bytes"
  ccm_ctr :: "ctr128_f option"
  ccm_M :: nat
  ccm_L :: nat

record ccm128_state =
  ccm_nonce :: bytes
  ccm_cmac :: bytes

definition CRYPTO_ccm128_init :: "(bytes \<Rightarrow> bytes) \<Rightarrow> ctr128_f option \<Rightarrow> nat \<Rightarrow> nat \<Rightarrow> ccm128_context option" where
  "CRYPTO_ccm128_init block ctr M L =
     (if M < 4 \<or> 16 < M \<or> odd M \<or> L < 2 \<or> 8 < L then None
      else Some \<lparr>ccm_block = block, ccm_ctr = ctr, ccm_M = M, ccm_L = L\<rparr>)"

definition CRYPTO_ccm128_max_input :: "ccm128_context \<Rightarrow> nat" where
  "CRYPTO_ccm128_max_input ctx = (if 8 \<le> ccm_L ctx then SIZE_MAX else 2 ^ (ccm_L ctx * 8) - 1)"

text \<open>The byte loops \<^verbatim>\<open>cmac.c[i] ^= *aad\<close> from position \<open>i\<close> on.\<close>

definition xor_at :: "bytes \<Rightarrow> nat \<Rightarrow> bytes \<Rightarrow> bytes" where
  "xor_at buf i xs = fold (\<lambda>(j, x) buf. buf[j := buf ! j XOR x]) (enumerate i xs) buf"

text \<open>The \<^verbatim>\<open>do ... while (aad_len != 0)\<close> loop, with the number of blocks so far.\<close>

function ccm_aad_loop :: "(bytes \<Rightarrow> bytes) \<Rightarrow> nat \<Rightarrow> bytes \<Rightarrow> bytes \<Rightarrow> nat \<Rightarrow> bytes \<times> nat" where
  "ccm_aad_loop block i cmac aad count =
     (let n = min (16 - i) (length aad);
          cmac = block (xor_at cmac i (take n aad));
          aad = drop n aad
      in if aad \<noteq> [] then ccm_aad_loop block 0 cmac aad (size_add count 1) else (cmac, size_add count 1))"
  by auto
termination by (relation "measures [\<lambda>(block, i, cmac, aad, count). length aad, \<lambda>(block, i, cmac, aad, count). i]") auto

declare ccm_aad_loop.simps [simp del]

text \<open>The encoded length of the additional data, and where the data starts.\<close>

definition ccm_aad_length :: "bytes \<Rightarrow> nat \<Rightarrow> bytes \<times> nat" where
  "ccm_aad_length cmac aad_len =
     (let a = of_nat aad_len :: u64 in
      if a < 0x10000 - 0x100 then (xor_at cmac 0 [ucast (drop_bit 8 a), ucast a], 2)
      else if a \<le> 0xffffffff then
        (xor_at cmac 0 [0xff, 0xfe, ucast (drop_bit 24 a), ucast (drop_bit 16 a), ucast (drop_bit 8 a), ucast a], 6)
      else
        (xor_at cmac 0 [0xff, 0xff, ucast (drop_bit 56 a), ucast (drop_bit 48 a), ucast (drop_bit 40 a), ucast (drop_bit 32 a),
           ucast (drop_bit 24 a), ucast (drop_bit 16 a), ucast (drop_bit 8 a), ucast a], 10))"

text \<open>The loop \<^verbatim>\<open>nonce.c[15 - i] = (uint8_t)(v >> (8 * i))\<close> for \<open>i < L\<close>.\<close>

definition put_counter :: "bytes \<Rightarrow> nat \<Rightarrow> nat \<Rightarrow> bytes" where
  "put_counter nonce L v = fold (\<lambda>i nonce. nonce[15 - i := of_nat (v div 256 ^ i)]) [0..<L] nonce"

text \<open>The first block of the authentication.\<close>

definition ccm_first_block :: "nat \<Rightarrow> nat \<Rightarrow> bytes \<Rightarrow> nat \<Rightarrow> nat \<Rightarrow> bytes" where
  "ccm_first_block M L nonce aad_len plaintext_len =
     (let n = replicate 16 0;
          n = n[0 := of_nat (L - 1) OR push_bit 3 (of_nat ((M - 2) div 2))];
          n = (if aad_len \<noteq> 0 then n[0 := n ! 0 OR 0x40] else n);
          n = mem_write n 1 nonce
      in put_counter n L plaintext_len)"

text \<open>The additional data, and the number of blocks so far.\<close>

definition ccm_add_aad :: "(bytes \<Rightarrow> bytes) \<Rightarrow> bytes \<Rightarrow> bytes \<Rightarrow> bytes \<times> nat" where
  "ccm_add_aad block cmac aad =
     (if aad \<noteq> [] then
        let (cmac, i) = ccm_aad_length cmac (length aad)
        in ccm_aad_loop block i cmac aad 1
      else (cmac, 1))"

definition ccm128_init_state :: "ccm128_context \<Rightarrow> bytes \<Rightarrow> bytes \<Rightarrow> nat \<Rightarrow> ccm128_state option" where
  "ccm128_init_state ctx nonce aad plaintext_len =
     (let block = ccm_block ctx; M = ccm_M ctx; L = ccm_L ctx in
      if CRYPTO_ccm128_max_input ctx < plaintext_len \<or> length nonce \<noteq> 15 - L then None
      else
        let n = ccm_first_block M L nonce (length aad) plaintext_len;
            cmac = block n;
            (cmac, count) = ccm_add_aad block cmac aad;
            remaining_blocks = size_add (size_mul 2 (size_add plaintext_len 15 div 16)) 1
        in if size_add plaintext_len 15 < plaintext_len \<or> size_add remaining_blocks count < count \<or>
              2 ^ 61 < size_add remaining_blocks count then None
           else Some \<lparr>ccm_nonce = n[0 := n ! 0 AND 7], ccm_cmac = cmac\<rparr>)"

definition ccm128_encrypt :: "ccm128_context \<Rightarrow> ccm128_state \<Rightarrow> bytes \<Rightarrow> bytes \<times> ccm128_state" where
  "ccm128_encrypt ctx state inp =
     (let n = put_counter (ccm_nonce state) (ccm_L ctx) 0;
          n = n[15 := 1];
          s = \<lparr>ctr_ivec = n, ecount_buf = replicate 16 0, ctr_num = 0\<rparr>;
          (out, s) = (case ccm_ctr ctx of
              Some ctr \<Rightarrow> CRYPTO_ctr128_encrypt_ctr32 ctr s inp
            | None \<Rightarrow> CRYPTO_ctr128_encrypt (ccm_block ctx) s inp)
      in (out, state\<lparr>ccm_nonce := ctr_ivec s\<rparr>))"

function ccm_mac_loop :: "(bytes \<Rightarrow> bytes) \<Rightarrow> bytes \<Rightarrow> bytes \<Rightarrow> bytes \<times> bytes" where
  "ccm_mac_loop block cmac inp =
     (if 16 \<le> length inp then
        let cmac = xor_block cmac inp in ccm_mac_loop block (block cmac) (drop 16 inp)
      else (cmac, inp))"
  by auto
termination by (relation "measure (\<lambda>(block, cmac, inp). length inp)") auto

declare ccm_mac_loop.simps [simp del]

definition ccm128_compute_mac :: "ccm128_context \<Rightarrow> ccm128_state \<Rightarrow> nat \<Rightarrow> bytes \<Rightarrow> bytes option \<times> ccm128_state" where
  "ccm128_compute_mac ctx state tag_len inp =
     (let block = ccm_block ctx in
      if tag_len \<noteq> ccm_M ctx then (None, state)
      else
        let (cmac, rest) = ccm_mac_loop block (ccm_cmac state) inp;
            cmac = (if 0 < length rest then block (xor_at cmac 0 rest) else cmac);
            n = put_counter (ccm_nonce state) (ccm_L ctx) 0;
            cmac = xor_block cmac (block n)
        in (Some (take tag_len cmac), \<lparr>ccm_nonce = n, ccm_cmac = cmac\<rparr>))"

definition CRYPTO_ccm128_encrypt ::
  "ccm128_context \<Rightarrow> nat \<Rightarrow> bytes \<Rightarrow> bytes \<Rightarrow> bytes \<Rightarrow> (bytes \<times> bytes) option" where
  "CRYPTO_ccm128_encrypt ctx tag_len nonce inp aad =
     (case ccm128_init_state ctx nonce aad (length inp) of
        None \<Rightarrow> None
      | Some state \<Rightarrow>
          (case ccm128_compute_mac ctx state tag_len inp of
             (None, state) \<Rightarrow> None
           | (Some out_tag, state) \<Rightarrow> let (out, state) = ccm128_encrypt ctx state inp in Some (out, out_tag)))"

definition CRYPTO_ccm128_decrypt ::
  "ccm128_context \<Rightarrow> nat \<Rightarrow> bytes \<Rightarrow> bytes \<Rightarrow> bytes \<Rightarrow> (bytes \<times> bytes) option" where
  "CRYPTO_ccm128_decrypt ctx tag_len nonce inp aad =
     (case ccm128_init_state ctx nonce aad (length inp) of
        None \<Rightarrow> None
      | Some state \<Rightarrow>
          (let (out, state) = ccm128_encrypt ctx state inp in
           case ccm128_compute_mac ctx state tag_len out of
             (None, state) \<Rightarrow> None
           | (Some out_tag, state) \<Rightarrow> Some (out, out_tag)))"

section \<open>Authentication\<close>

definition cbc_mac :: "(bytes \<Rightarrow> bytes) \<Rightarrow> bytes \<Rightarrow> bytes list \<Rightarrow> bytes" where
  "cbc_mac E c bs = fold (\<lambda>b c. E (xor_bytes b c)) bs c"

lemma cbc_mac_simps [simp]:
  "cbc_mac E c [] = c"
  "cbc_mac E c (b # bs) = cbc_mac E (E (xor_bytes b c)) bs"
  "cbc_mac E c (bs @ bs') = cbc_mac E (cbc_mac E c bs) bs'"
  by (simp_all add: cbc_mac_def)

lemma length_cbc_mac:
  "block_fun E \<Longrightarrow> length c = 16 \<Longrightarrow> \<forall>b\<in>set bs. length b = 16 \<Longrightarrow> length (cbc_mac E c bs) = 16"
  by (induction bs arbitrary: c) (simp_all add: block_funD)

lemma xor_at_Cons: "xor_at buf i (x # xs) = xor_at (buf[i := buf ! i XOR x]) (Suc i) xs"
  by (simp add: xor_at_def)

lemma length_xor_at [simp]: "length (xor_at buf i xs) = length buf"
  by (induction xs arbitrary: buf i) (simp_all add: xor_at_Cons, simp add: xor_at_def)

lemma xor_at_append: "xor_at buf i (xs @ ys) = xor_at (xor_at buf i xs) (i + length xs) ys"
  by (induction xs arbitrary: buf i) (simp_all add: xor_at_Cons, simp add: xor_at_def)

lemma nth_xor_at:
  "i + length xs \<le> length buf \<Longrightarrow> j < length buf \<Longrightarrow>
   xor_at buf i xs ! j = (if i \<le> j \<and> j < i + length xs then buf ! j XOR xs ! (j - i) else buf ! j)"
proof (induction xs arbitrary: buf i)
  case (Cons x xs)
  then show ?case by (auto simp: xor_at_Cons nth_Cons' nth_list_update Suc_diff_Suc)
qed (auto simp: xor_at_def)

lemma xor_at_padded:
  assumes "length c = 16" and "0 < length xs" and "length xs \<le> 16"
  shows "xor_at c 0 xs = xor_bytes (pad16 xs) c"
proof -
  have "length (pad16 xs) = 16" using assms(2,3) by (cases "length xs = 16") (simp_all add: pad16_def)
  then show ?thesis using assms
    by (intro nth_equalityI) (auto simp: nth_xor_at pad16_def nth_append xor.commute)
qed

lemma blocks_pad_short: "0 < length xs \<Longrightarrow> length xs \<le> 16 \<Longrightarrow> blocks 16 (pad16 xs) = [pad16 xs]"
  by (cases "length xs = 16") (simp_all add: pad16_def blocks_step)

lemma blocks_pad_long:
  assumes "16 \<le> length xs"
  shows "blocks 16 (pad16 xs) = take 16 xs # blocks 16 (pad16 (drop 16 xs))"
proof -
  have "length (drop 16 xs) mod 16 = length xs mod 16" using assms by (simp add: le_mod_geq)
  then have "drop 16 (pad16 xs) = pad16 (drop 16 xs)" using assms by (simp add: pad16_def)
  then show ?thesis using assms by (subst blocks_step) (simp_all add: pad16_def)
qed

lemma pad16_Nil [simp]: "pad16 [] = []"
  by (simp add: pad16_def)

text \<open>The loop over additional data, after a header \<open>hdr\<close> that is already in.\<close>

lemma ccm_aad_loop_mac:
  assumes E: "block_fun E" and "length c = 16" and "length hdr < 16" and "aad \<noteq> []"
    and "count + length (blocks 16 (pad16 (hdr @ aad))) < 2 ^ 64"
  shows "ccm_aad_loop E (length hdr) (xor_at c 0 hdr) aad count =
    (cbc_mac E c (blocks 16 (pad16 (hdr @ aad))), count + length (blocks 16 (pad16 (hdr @ aad))))"
  using assms(2-5)
proof (induction "length aad" arbitrary: c hdr aad count rule: less_induct)
  case less
  let ?n = "min (16 - length hdr) (length aad)"
  have x: "xor_at (xor_at c 0 hdr) (length hdr) (take ?n aad) = xor_at c 0 (hdr @ take ?n aad)"
    by (simp add: xor_at_append)
  show ?case
  proof (cases "length hdr + length aad \<le> 16")
    case True
    then have "?n = length aad" by simp
    moreover have "0 < length (hdr @ aad)" "length (hdr @ aad) \<le> 16" using less.prems True by simp_all
    ultimately show ?thesis using less.prems True x
      by (subst ccm_aad_loop.simps) (simp add: xor_at_padded blocks_pad_short size_add_no_wrap)
  next
    case False
    then have n: "?n = 16 - length hdr" and more: "\<not> length aad \<le> 16 - length hdr"
      using less.prems(2) by simp_all
    let ?rest = "drop (16 - length hdr) aad"
    have b: "take 16 (hdr @ aad) = hdr @ take (16 - length hdr) aad" "drop 16 (hdr @ aad) = ?rest" using less.prems(2) by simp_all
    then have bs: "blocks 16 (pad16 (hdr @ aad)) = (hdr @ take (16 - length hdr) aad) # blocks 16 (pad16 ?rest)"
      using blocks_pad_long [of "hdr @ aad"] False by simp
    have l: "length (hdr @ take (16 - length hdr) aad) = 16" using False less.prems(2) by simp
    then have "xor_at c 0 (hdr @ take (16 - length hdr) aad) = xor_bytes (hdr @ take (16 - length hdr) aad) c"
      using xor_at_padded [of c "hdr @ take (16 - length hdr) aad"] less.prems(1) by (simp add: pad16_def)
    then have step: "ccm_aad_loop E (length hdr) (xor_at c 0 hdr) aad count =
        ccm_aad_loop E 0 (E (xor_bytes (hdr @ take (16 - length hdr) aad) c)) ?rest (count + 1)"
      using more x n less.prems bs by (subst ccm_aad_loop.simps) (simp add: size_add_no_wrap Let_def)
    have lc: "length (E (xor_bytes (hdr @ take (16 - length hdr) aad) c)) = 16"
      using E l less.prems(1) by (intro block_funD [of E]) simp_all
    have len: "length ?rest < length aad" and ne: "?rest \<noteq> []" using False less.prems(2) by simp_all
    have "count + 1 + length (blocks 16 (pad16 ([] @ ?rest))) < 2 ^ 64" using less.prems(4) bs by simp
    from less.hyps [OF len lc _ ne this] step bs show ?thesis by (simp add: xor_at_def)
  qed
qed

lemma ccm_mac_loop_mac:
  assumes "block_fun E" and "length c = 16"
  shows "\<exists>c'. ccm_mac_loop E c xs = (c', leftover 16 xs) \<and> length c' = 16 \<and> c' = cbc_mac E c (blocks 16 xs)"
  using assms(2)
proof (induction "length xs" arbitrary: xs c rule: less_induct)
  case less
  show ?case
  proof (cases "16 \<le> length xs")
    case False
    then show ?thesis using less.prems by (simp add: ccm_mac_loop.simps)
  next
    case True
    have x: "xor_block c xs = xor_bytes (take 16 xs) c" using True less.prems by (simp add: xor_block_eq xor_bytes_commute)
    have l: "length (E (xor_bytes (take 16 xs) c)) = 16" using assms(1) True less.prems by (simp add: block_funD)
    have "length (drop 16 xs) < length xs" using True by simp
    from less.hyps [OF this l] True x show ?thesis
      by (subst ccm_mac_loop.simps) (simp add: blocks_step leftover_step [of 16 xs])
  qed
qed

lemma ccm_message_mac:
  assumes "block_fun E" and "length c = 16"
  shows "(case ccm_mac_loop E c xs of (c, rest) \<Rightarrow> if 0 < length rest then E (xor_at c 0 rest) else c) =
    cbc_mac E c (blocks 16 (pad16 xs))"
proof -
  obtain c' where c': "ccm_mac_loop E c xs = (c', leftover 16 xs)" "length c' = 16" "c' = cbc_mac E c (blocks 16 xs)"
    using ccm_mac_loop_mac [OF assms] by blast
  have "length (leftover 16 xs) \<le> 16" using length_leftover_less [of 16 xs] by simp
  then show ?thesis using c' blocks_pad16 [of xs] by (simp add: xor_at_padded)
qed

section \<open>The specification\<close>

text \<open>
  RFC 3610: the first block with the flags, the nonce and the length; the encoding of the length of the additional data; the blocks that are
  authenticated; the counter blocks; the tag and the ciphertext.
\<close>

definition ccm_flags :: "nat \<Rightarrow> nat \<Rightarrow> bool \<Rightarrow> u8" where
  "ccm_flags M L adata = of_nat (64 * of_bool adata + 8 * ((M - 2) div 2) + (L - 1))"

definition aad_header :: "nat \<Rightarrow> bytes" where
  "aad_header n = (if n < 0xff00 then be_bytes 2 n else if n < 2 ^ 32 then [0xff, 0xfe] @ be_bytes 4 n else [0xff, 0xff] @ be_bytes 8 n)"

definition ccm_counter :: "nat \<Rightarrow> bytes \<Rightarrow> nat \<Rightarrow> bytes" where
  "ccm_counter L nonce i = of_nat (L - 1) # nonce @ be_bytes L i"

definition ccm_input :: "nat \<Rightarrow> nat \<Rightarrow> bytes \<Rightarrow> bytes \<Rightarrow> bytes \<Rightarrow> bytes list" where
  "ccm_input M L nonce aad p =
     (ccm_flags M L (aad \<noteq> []) # nonce @ be_bytes L (length p)) #
     (if aad = [] then [] else blocks 16 (pad16 (aad_header (length aad) @ aad))) @ blocks 16 (pad16 p)"

definition ccm_tag :: "(bytes \<Rightarrow> bytes) \<Rightarrow> nat \<Rightarrow> nat \<Rightarrow> bytes \<Rightarrow> bytes \<Rightarrow> bytes \<Rightarrow> bytes" where
  "ccm_tag E M L nonce aad p =
     take M (xor_bytes (cbc_mac E (replicate 16 0) (ccm_input M L nonce aad p)) (E (ccm_counter L nonce 0)))"

definition ccm_crypt :: "(bytes \<Rightarrow> bytes) \<Rightarrow> nat \<Rightarrow> bytes \<Rightarrow> bytes \<Rightarrow> bytes" where
  "ccm_crypt E L nonce p = map (\<lambda>i. p ! i XOR E (ccm_counter L nonce (1 + i div 16)) ! (i mod 16)) [0..<length p]"

text \<open>A context as \<^verbatim>\<open>CRYPTO_ccm128_init\<close> makes it, over a cipher and perhaps a counter function for it.\<close>

definition ccm_ok :: "ccm128_context \<Rightarrow> bool" where
  "ccm_ok ctx \<longleftrightarrow> CRYPTO_ccm128_init (ccm_block ctx) (ccm_ctr ctx) (ccm_M ctx) (ccm_L ctx) = Some ctx \<and>
     block_fun (ccm_block ctx) \<and> (case ccm_ctr ctx of None \<Rightarrow> True | Some f \<Rightarrow> ctr32_fun (ccm_block ctx) f)"

lemma ccm_okD:
  assumes "ccm_ok ctx"
  shows "4 \<le> ccm_M ctx" "ccm_M ctx \<le> 16" "even (ccm_M ctx)" "2 \<le> ccm_L ctx" "ccm_L ctx \<le> 8" "block_fun (ccm_block ctx)"
  using assms by (auto simp: ccm_ok_def CRYPTO_ccm128_init_def split: if_splits)

lemma put_counter_eq:
  assumes "length n = 16" and "L \<le> 16"
  shows "put_counter n L v = take (16 - L) n @ be_bytes L v"
  using assms(2)
proof (induction L)
  case (Suc L)
  have b: "be_bytes (Suc L) v = of_nat (v div 256 ^ L) # be_bytes L v" using be_bytes_append [of 1 L v] by simp
  have s: "16 - L = Suc (15 - L)" using Suc.prems by simp
  have "take (16 - L) n = take (16 - Suc L) n @ [n ! (15 - L)]"
    unfolding s using Suc.prems assms(1) take_Suc_conv_app_nth [of "15 - L" n] by simp
  moreover have "put_counter n (Suc L) v = (put_counter n L v)[15 - L := of_nat (v div 256 ^ L)]" by (simp add: put_counter_def)
  ultimately show ?case using Suc assms(1) b by (simp add: list_update_append)
qed (simp add: put_counter_def assms)

lemma ccm_flags_eq:
  assumes "M \<le> 16" and "1 \<le> L" and "L \<le> 8"
  shows "of_nat (L - 1) OR push_bit 3 (of_nat ((M - 2) div 2)) = ccm_flags M L False"
    and "ccm_flags M L False OR 0x40 = ccm_flags M L True" and "ccm_flags M L b AND 7 = of_nat (L - 1)"
proof -
  define m l where "m = (M - 2) div 2" and "l = L - 1"
  have "m \<in> set [0..<8]" "l \<in> set [0..<8]" using assms by (auto simp: m_def l_def)
  then have "m \<in> {0, 1, 2, 3, 4, 5, 6, 7}" "l \<in> {0, 1, 2, 3, 4, 5, 6, 7}" by (simp_all add: upt_rec) auto
  then have "of_nat l OR push_bit 3 (of_nat m) = (of_nat (8 * m + l) :: u8) \<and>
      (of_nat (8 * m + l) OR 0x40 :: u8) = of_nat (64 + 8 * m + l) \<and> (of_nat (64 * of_bool b + 8 * m + l) AND 7 :: u8) = of_nat l"
    by (auto simp: push_bit_eq_mult)
  then show "of_nat (L - 1) OR push_bit 3 (of_nat ((M - 2) div 2)) = ccm_flags M L False"
    and "ccm_flags M L False OR 0x40 = ccm_flags M L True" and "ccm_flags M L b AND 7 = of_nat (L - 1)"
    by (simp_all add: ccm_flags_def m_def l_def)
qed

section \<open>The code meets the specification\<close>

lemma be_bytes_map: "be_bytes n v = rev (map (\<lambda>i. of_nat (v div 256 ^ i)) [0..<n])"
proof (induction n arbitrary: v)
  case (Suc n)
  have "[0..<Suc n] = 0 # map Suc [0..<n]" by (simp add: map_Suc_upt upt_conv_Cons)
  then show ?case using Suc by (simp add: div_mult2_eq comp_def del: upt_Suc)
qed simp

lemma byte_of_u64: "(ucast (drop_bit (8 * k) (of_nat n :: u64)) :: u8) = of_nat (n div 256 ^ k)" if "n < 2 ^ 64"
proof -
  have "unat (drop_bit (8 * k) (of_nat n :: u64)) = n div 256 ^ k"
    using that by (simp add: unat_drop_bit_div unat_of_nat power_mult)
  then show ?thesis by (simp add: ucast_byte_unat)
qed

lemma ccm_aad_length_eq:
  assumes "n < 2 ^ 64"
  shows "ccm_aad_length c n = (xor_at c 0 (aad_header n), length (aad_header n))"
proof -
  have u: "unat (of_nat n :: u64) = n" using assms by (simp add: unat_of_nat)
  have l: "(of_nat n :: u64) < 0x10000 - 0x100 \<longleftrightarrow> n < 0xff00" "(of_nat n :: u64) \<le> 0xffffffff \<longleftrightarrow> n < 2 ^ 32"
    by (auto simp: word_less_nat_alt word_le_nat_alt u)
  have b: "(ucast (of_nat n :: u64) :: u8) = of_nat n" "(ucast (drop_bit 8 (of_nat n :: u64)) :: u8) = of_nat (n div 256)"
      "(ucast (drop_bit 16 (of_nat n :: u64)) :: u8) = of_nat (n div 256 ^ 2)" "(ucast (drop_bit 24 (of_nat n :: u64)) :: u8) = of_nat (n div 256 ^ 3)"
      "(ucast (drop_bit 32 (of_nat n :: u64)) :: u8) = of_nat (n div 256 ^ 4)" "(ucast (drop_bit 40 (of_nat n :: u64)) :: u8) = of_nat (n div 256 ^ 5)"
      "(ucast (drop_bit 48 (of_nat n :: u64)) :: u8) = of_nat (n div 256 ^ 6)" "(ucast (drop_bit 56 (of_nat n :: u64)) :: u8) = of_nat (n div 256 ^ 7)"
    using byte_of_u64 [OF assms, of 0] byte_of_u64 [OF assms, of 1] byte_of_u64 [OF assms, of 2] byte_of_u64 [OF assms, of 3]
      byte_of_u64 [OF assms, of 4] byte_of_u64 [OF assms, of 5] byte_of_u64 [OF assms, of 6] byte_of_u64 [OF assms, of 7] by simp_all
  have "be_bytes 2 n = [of_nat (n div 256), of_nat n]"
    "be_bytes 4 n = [of_nat (n div 256 ^ 3), of_nat (n div 256 ^ 2), of_nat (n div 256), of_nat n]"
    "be_bytes 8 n = [of_nat (n div 256 ^ 7), of_nat (n div 256 ^ 6), of_nat (n div 256 ^ 5), of_nat (n div 256 ^ 4),
       of_nat (n div 256 ^ 3), of_nat (n div 256 ^ 2), of_nat (n div 256), of_nat n]"
    by (simp_all add: be_bytes_map upt_rec)
  then show ?thesis by (simp only: ccm_aad_length_def Let_def l b aad_header_def) simp
qed

text \<open>What the calls need: a message no longer than the length field holds, a nonce that fills the rest, and a tag of the context's size.\<close>

definition ccm_accepts :: "ccm128_context \<Rightarrow> bytes \<Rightarrow> nat \<Rightarrow> bool" where
  "ccm_accepts ctx nonce len \<longleftrightarrow> len < 256 ^ ccm_L ctx \<and> length nonce = 15 - ccm_L ctx"

lemma max_input_eq: "n < 2 ^ 60 \<Longrightarrow> CRYPTO_ccm128_max_input ctx < n \<longleftrightarrow> \<not> n < 256 ^ ccm_L ctx"
proof (cases "8 \<le> ccm_L ctx")
  case True
  assume n: "n < 2 ^ 60"
  also have "(2::nat) ^ 60 \<le> 256 ^ 8" by simp
  also have "(256::nat) ^ 8 \<le> 256 ^ ccm_L ctx" using True by (intro power_increasing) simp_all
  finally show ?thesis using True n by (simp add: CRYPTO_ccm128_max_input_def SIZE_MAX_def)
next
  case False
  have "(2::nat) ^ (ccm_L ctx * 8) = 256 ^ ccm_L ctx" by (subst mult.commute) (simp add: power_mult)
  moreover have "0 < (256::nat) ^ ccm_L ctx" by simp
  ultimately show ?thesis using False unfolding CRYPTO_ccm128_max_input_def by (simp, linarith)
qed

lemma length_blocks_pad: "length (blocks 16 (pad16 xs)) \<le> length xs div 16 + 1"
  by (simp add: blocks_pad16 length_blocks_16)

definition ccm_mac_aad :: "ccm128_context \<Rightarrow> bytes \<Rightarrow> bytes \<Rightarrow> nat \<Rightarrow> bytes" where
  "ccm_mac_aad ctx nonce aad len = cbc_mac (ccm_block ctx) (replicate 16 0)
     ((ccm_flags (ccm_M ctx) (ccm_L ctx) (aad \<noteq> []) # nonce @ be_bytes (ccm_L ctx) len) #
      (if aad = [] then [] else blocks 16 (pad16 (aad_header (length aad) @ aad))))"

lemma ccm_first_block_eq:
  assumes "length nonce = 15 - L" and "1 \<le> L" and "L \<le> 8" and "M \<le> 16"
  shows "ccm_first_block M L nonce n len = ccm_flags M L (n \<noteq> 0) # nonce @ be_bytes L len"
proof -
  have r: "replicate 16 (0::u8) = 0 # replicate 15 0" by (simp add: numeral_eq_Suc)
  have "mem_write (x # replicate 15 0) 1 nonce = x # nonce @ replicate L 0" for x
    using assms by (simp add: mem_write_def)
  moreover have "put_counter (x # nonce @ replicate L 0) L len = x # nonce @ be_bytes L len" for x
    using put_counter_eq [of "x # nonce @ replicate L 0" L len] assms by (simp add: take_Cons')
  ultimately show ?thesis
    using ccm_flags_eq(1,2) [OF assms(4,2,3)] unfolding ccm_first_block_def Let_def r by simp
qed

lemma ccm_init_state:
  assumes ok: "ccm_ok ctx" and len: "len < 2 ^ 60" and aad: "length aad < 2 ^ 60"
  shows "ccm128_init_state ctx nonce aad len =
    (if ccm_accepts ctx nonce len then
       Some \<lparr>ccm_nonce = ccm_counter (ccm_L ctx) nonce len, ccm_cmac = ccm_mac_aad ctx nonce aad len\<rparr> else None)"
proof (cases "ccm_accepts ctx nonce len")
  case False
  then show ?thesis using max_input_eq [OF len, of ctx] by (auto simp: ccm128_init_state_def ccm_accepts_def Let_def)
next
  case True
  define E M L where "E = ccm_block ctx" and "M = ccm_M ctx" and "L = ccm_L ctx"
  have c: "M \<le> 16" "1 \<le> L" "L \<le> 8" "block_fun E" using ccm_okD [OF ok] by (simp_all add: E_def M_def L_def)
  have n: "length nonce = 15 - L" "len < 256 ^ L" using True by (simp_all add: ccm_accepts_def L_def)
  define b0 where "b0 = ccm_flags M L (aad \<noteq> []) # nonce @ be_bytes L len"
  have b0: "ccm_first_block M L nonce (length aad) len = b0" using ccm_first_block_eq [OF n(1) c(2,3,1)] by (simp add: b0_def)
  have lb0: "length b0 = 16" using n(1) c by (simp add: b0_def)
  then have lE: "length (E b0) = 16" using c(4) by (simp add: block_funD)
  define bs where "bs = (if aad = [] then [] else blocks 16 (pad16 (aad_header (length aad) @ aad)))"
  have lh: "length (aad_header (length aad)) < 16" by (simp add: aad_header_def)
  have lbs: "length bs \<le> 2 ^ 57"
  proof -
    have "length bs \<le> length (aad_header (length aad) @ aad) div 16 + 1"
      using length_blocks_pad [of "aad_header (length aad) @ aad"] by (simp add: bs_def)
    also have "length (aad_header (length aad) @ aad) div 16 + 1 \<le> (16 + (2 ^ 60 - 1)) div 16 + 1"
      using lh aad by (intro add_mono div_le_mono) simp_all
    also have "\<dots> \<le> 2 ^ 57" by simp
    finally show ?thesis .
  qed
  have loop: "ccm_add_aad E (E b0) aad = (cbc_mac E (E b0) bs, 1 + length bs)"
  proof (cases "aad = []")
    case False
    have "length aad < 2 ^ 64" using aad by simp
    moreover have "1 + length (blocks 16 (pad16 (aad_header (length aad) @ aad))) < 2 ^ 64" using lbs False by (simp add: bs_def)
    ultimately show ?thesis using ccm_aad_loop_mac [OF c(4) lE lh False, of 1] False
      by (simp add: ccm_add_aad_def ccm_aad_length_eq bs_def)
  qed (simp add: ccm_add_aad_def bs_def)
  have p: "size_add len 15 = len + 15" using len by (intro size_add_no_wrap) simp
  define k where "k = (len + 15) div 16"
  have "k \<le> (2 ^ 60 - 1 + 15) div 16" unfolding k_def using len by (intro div_le_mono) simp
  then have k: "k \<le> 2 ^ 57" by simp
  then have r: "size_add (size_mul 2 k) 1 = 2 * k + 1" by (simp add: size_add_def size_mul_def)
  have s: "size_add (2 * k + 1) (1 + length bs) = 2 * k + 1 + (1 + length bs)"
    using k lbs by (intro size_add_no_wrap) simp
  have big: "\<not> 2 ^ 61 < 2 * k + 1 + (1 + length bs)" using k lbs by simp
  have "b0[0 := b0 ! 0 AND 7] = ccm_counter L nonce len"
    using ccm_flags_eq(3) [OF c(1-3)] by (simp add: b0_def ccm_counter_def)
  moreover have "cbc_mac E (E b0) bs = ccm_mac_aad ctx nonce aad len"
    using lb0 by (simp add: ccm_mac_aad_def xor_bytes_zero flip: E_def L_def M_def b0_def bs_def)
  moreover have "\<not> (CRYPTO_ccm128_max_input ctx < len \<or> length nonce \<noteq> 15 - L)" using max_input_eq [OF len] n by (simp add: L_def)
  moreover have "size_add (size_add (size_mul 2 k) (Suc 0)) (Suc (length bs)) = 2 * k + 1 + (1 + length bs)" using r s by simp
  ultimately show ?thesis
    using True big
    unfolding ccm128_init_state_def E_def [symmetric] M_def [symmetric] L_def [symmetric] b0
    by (simp add: b0 loop p Let_def flip: k_def)
qed

lemma ctr_add_counter:
  assumes "length hi + L = 16" and "v + k < 256 ^ L"
  shows "ctr_add (hi @ be_bytes L v) k = hi @ be_bytes L (v + k)"
proof -
  have v: "be_nat (hi @ be_bytes L v) = be_nat hi * 256 ^ L + v"
    using assms(2) by (simp add: be_nat_append be_nat_be_bytes)
  have "ctr_add (hi @ be_bytes L v) k = be_bytes (length hi) ((be_nat hi * 256 ^ L + (v + k)) div 256 ^ L) @
      be_bytes L (be_nat hi * 256 ^ L + (v + k))"
    using assms(1) be_bytes_append [of "length hi" L "be_nat hi * 256 ^ L + v + k"] by (simp add: ctr_add_def v add.assoc)
  also have "be_bytes L (be_nat hi * 256 ^ L + (v + k)) = be_bytes L (v + k)"
    using be_bytes_mod [of L "be_nat hi * 256 ^ L + (v + k)"] be_bytes_mod [of L "v + k"] by simp
  also have "(be_nat hi * 256 ^ L + (v + k)) div 256 ^ L = be_nat hi" using assms(2) by simp
  finally show ?thesis by (simp add: be_bytes_be_nat)
qed

lemma length_ccm_counter: "length nonce = 15 - L \<Longrightarrow> L \<le> 15 \<Longrightarrow> length (ccm_counter L nonce i) = 16"
  by (simp add: ccm_counter_def)

lemma put_counter_ccm: "length nonce = 15 - L \<Longrightarrow> L \<le> 15 \<Longrightarrow> put_counter (ccm_counter L nonce i) L v = ccm_counter L nonce v"
  by (simp add: put_counter_eq ccm_counter_def take_Cons')

lemma ccm_encrypt_counter:
  assumes ok: "ccm_ok ctx" and acc: "ccm_accepts ctx nonce (length p)" and st: "ccm_nonce st = ccm_counter (ccm_L ctx) nonce i"
  shows "\<exists>j. ccm128_encrypt ctx st p =
    (ccm_crypt (ccm_block ctx) (ccm_L ctx) nonce p, st\<lparr>ccm_nonce := ccm_counter (ccm_L ctx) nonce j\<rparr>)"
proof -
  define E L where "E = ccm_block ctx" and "L = ccm_L ctx"
  have c: "2 \<le> L" "L \<le> 8" "block_fun E" using ccm_okD [OF ok] by (simp_all add: E_def L_def)
  have n: "length nonce = 15 - L" "length p < 256 ^ L" using acc by (simp_all add: ccm_accepts_def L_def)
  define iv where "iv = ccm_counter L nonce 1"
  have one: "(put_counter (ccm_nonce st) L 0)[15 := 1] = iv"
  proof -
    obtain m where m: "L = Suc m" using c(1) by (cases L) simp_all
    have "be_bytes (Suc m) v = be_bytes m (v div 256) @ [of_nat v]" for v by simp
    moreover have "be_bytes m (1 div 256) = be_bytes m (0 div 256)" by simp
    ultimately have "(ccm_counter L nonce 0)[15 := 1] = iv"
      using n(1) c by (simp add: iv_def ccm_counter_def m list_update_append)
    then show ?thesis using put_counter_ccm [OF n(1), of i 0] c st by (simp add: L_def)
  qed
  define s where "s = \<lparr>ctr_ivec = iv, ecount_buf = replicate 16 0, ctr_num = 0\<rparr>"
  have s: "ctr_ok E s" "ctr_num s = 0" using c n(1) by (simp_all add: ctr_ok_def s_def iv_def length_ccm_counter)
  define k where "k = (length p + 15) div 16"
  have add: "ctr_add iv j = ccm_counter L nonce (1 + j)" if "1 + j < 256 ^ L" for j
    using ctr_add_counter [of "of_nat (L - 1) # nonce" L 1 j] that n(1) c by (simp add: iv_def ccm_counter_def)
  have big: "1 + j < 256 ^ L" if "j \<le> k" for j
  proof -
    have "256 ^ 1 \<le> (256::nat) ^ L" using c by (intro power_increasing) simp_all
    then have "32 \<le> (256::nat) ^ L" by simp
    moreover have "k \<le> (256 ^ L + 15) div 16" using n(2) unfolding k_def by (intro div_le_mono) simp
    ultimately show ?thesis using that by linarith
  qed
  obtain out t where r: "CRYPTO_ctr128_encrypt E s p = (out, t)" by force
  obtain out' t' where r': "(case ccm_ctr ctx of Some ctr \<Rightarrow> CRYPTO_ctr128_encrypt_ctr32 ctr s p | None \<Rightarrow> CRYPTO_ctr128_encrypt E s p) = (out', t')"
    by force
  have same: "out' = out \<and> ctr_ivec t' = ctr_ivec t"
  proof (cases "ccm_ctr ctx")
    case (Some f)
    then have "ctr32_fun E f" using ok by (simp add: ccm_ok_def E_def)
    from ctr32_agrees [OF s(1) this r, of out' t'] r' Some show ?thesis by simp
  qed (use r r' in simp)
  have "ctr_ivec t = ccm_counter L nonce (1 + k)"
    using ctr_ivec_after [OF s, of p] r add [OF big [of k]] by (simp add: s_def k_def)
  moreover have "out = ccm_crypt E L nonce p"
  proof (rule nth_equalityI)
    have l: "length out = length p" using ctr.enc.run_length [OF s(1), of p] r by simp
    then show "length out = length (ccm_crypt E L nonce p)" by (simp add: ccm_crypt_def)
    fix i assume "i < length out"
    then have i: "i < length p" using l by simp
    have "i div 16 \<le> k" unfolding k_def using i by (intro div_le_mono) simp
    then have "ctr_add iv (i div 16) = ccm_counter L nonce (1 + i div 16)" by (intro add big)
    with ctr_nth [OF s i] r i show "out ! i = ccm_crypt E L nonce p ! i" by (simp add: ccm_crypt_def s_def)
  qed
  moreover have "ccm128_encrypt ctx st p = (out', st\<lparr>ccm_nonce := ctr_ivec t'\<rparr>)"
    unfolding ccm128_encrypt_def Let_def E_def [symmetric] L_def [symmetric] one s_def [symmetric] r' by simp
  ultimately show ?thesis using same unfolding E_def [symmetric] L_def [symmetric] by auto
qed

text \<open>The tag that the code computes from the state after initialisation, wherever the counter has got to.\<close>

lemma ccm_compute_mac_tag:
  assumes ok: "ccm_ok ctx" and acc: "ccm_accepts ctx nonce (length p)"
    and st: "ccm_nonce st = ccm_counter (ccm_L ctx) nonce i" "ccm_cmac st = ccm_mac_aad ctx nonce aad (length p)"
  shows "\<exists>st'. ccm128_compute_mac ctx st tag_len p =
      (if tag_len = ccm_M ctx then Some (ccm_tag (ccm_block ctx) (ccm_M ctx) (ccm_L ctx) nonce aad p) else None, st') \<and>
    ccm_nonce st' = ccm_counter (ccm_L ctx) nonce (if tag_len = ccm_M ctx then 0 else i)"
proof -
  define E M L where "E = ccm_block ctx" and "M = ccm_M ctx" and "L = ccm_L ctx"
  have c: "M \<le> 16" "2 \<le> L" "L \<le> 8" "block_fun E" using ccm_okD [OF ok] by (simp_all add: E_def M_def L_def)
  have n: "length nonce = 15 - L" using acc by (simp add: ccm_accepts_def L_def)
  define bs where "bs = (ccm_flags M L (aad \<noteq> []) # nonce @ be_bytes L (length p)) #
    (if aad = [] then [] else blocks 16 (pad16 (aad_header (length aad) @ aad)))"
  have lbs: "\<forall>b\<in>set bs. length b = 16" using n c length_blocks [of _ 16] by (auto simp: bs_def)
  have st2: "ccm_cmac st = cbc_mac E (replicate 16 0) bs" by (simp add: st(2) ccm_mac_aad_def bs_def E_def M_def L_def)
  have lc: "length (ccm_cmac st) = 16" unfolding st2 using c(4) _ lbs by (rule length_cbc_mac) simp
  have inp: "ccm_input M L nonce aad p = bs @ blocks 16 (pad16 p)" by (simp add: ccm_input_def bs_def)
  obtain x rest where loop: "ccm_mac_loop E (ccm_cmac st) p = (x, rest)" by force
  define y where "y = (if 0 < length rest then E (xor_at x 0 rest) else x)"
  have y: "y = cbc_mac E (replicate 16 0) (ccm_input M L nonce aad p)"
    using ccm_message_mac [OF c(4) lc, of p] loop by (simp add: y_def inp st2)
  have ly: "length y = 16"
    unfolding y using c(4) by (rule length_cbc_mac) (use lbs length_blocks [of _ 16] in \<open>auto simp: inp\<close>)
  have z: "put_counter (ccm_nonce st) L 0 = ccm_counter L nonce 0" using put_counter_ccm [OF n, of i 0] c st(1) by (simp add: L_def)
  have lE: "length (E (ccm_counter L nonce 0)) = 16" using c n by (intro block_funD [of E] length_ccm_counter) simp_all
  have "ccm128_compute_mac ctx st M p =
      (Some (take M (xor_block y (E (ccm_counter L nonce 0)))), \<lparr>ccm_nonce = ccm_counter L nonce 0, ccm_cmac = xor_block y (E (ccm_counter L nonce 0))\<rparr>)"
    unfolding ccm128_compute_mac_def E_def [symmetric] M_def [symmetric] L_def [symmetric] loop z Let_def
    by (simp add: loop y_def)
  moreover have "take M (xor_block y (E (ccm_counter L nonce 0))) = ccm_tag E M L nonce aad p"
    using ly lE by (simp add: xor_block_eq ccm_tag_def y)
  moreover have "ccm128_compute_mac ctx st tag_len p = (None, st)" if "tag_len \<noteq> M"
    using that by (simp add: ccm128_compute_mac_def M_def)
  ultimately show ?thesis using st(1) by (cases "tag_len = M") (simp_all add: E_def M_def L_def)
qed

lemma ccm_encrypt_eq:
  assumes ok: "ccm_ok ctx" and len: "length p < 2 ^ 60" "length aad < 2 ^ 60"
  shows "CRYPTO_ccm128_encrypt ctx tag_len nonce p aad =
    (if ccm_accepts ctx nonce (length p) \<and> tag_len = ccm_M ctx then
       Some (ccm_crypt (ccm_block ctx) (ccm_L ctx) nonce p, ccm_tag (ccm_block ctx) (ccm_M ctx) (ccm_L ctx) nonce aad p)
     else None)"
proof (cases "ccm_accepts ctx nonce (length p)")
  case True
  define st where "st = \<lparr>ccm_nonce = ccm_counter (ccm_L ctx) nonce (length p), ccm_cmac = ccm_mac_aad ctx nonce aad (length p)\<rparr>"
  have i: "ccm128_init_state ctx nonce aad (length p) = Some st" using ccm_init_state [OF ok len] True by (simp add: st_def)
  obtain st' where m: "ccm128_compute_mac ctx st tag_len p =
        (if tag_len = ccm_M ctx then Some (ccm_tag (ccm_block ctx) (ccm_M ctx) (ccm_L ctx) nonce aad p) else None, st')"
      "ccm_nonce st' = ccm_counter (ccm_L ctx) nonce (if tag_len = ccm_M ctx then 0 else length p)"
    using ccm_compute_mac_tag [OF ok True, of st "length p" aad tag_len] by (auto simp: st_def)
  obtain j where "ccm128_encrypt ctx st' p =
      (ccm_crypt (ccm_block ctx) (ccm_L ctx) nonce p, st'\<lparr>ccm_nonce := ccm_counter (ccm_L ctx) nonce j\<rparr>)"
    using ccm_encrypt_counter [OF ok True m(2)] by blast
  then show ?thesis using i m(1) True by (simp add: CRYPTO_ccm128_encrypt_def)
qed (use ccm_init_state [OF ok len] in \<open>simp add: CRYPTO_ccm128_encrypt_def\<close>)

lemma length_ccm_crypt [simp]: "length (ccm_crypt E L nonce p) = length p"
  by (simp add: ccm_crypt_def)

lemma ccm_decrypt_eq:
  fixes nonce :: bytes
  assumes ok: "ccm_ok ctx" and len: "length p < 2 ^ 60" "length aad < 2 ^ 60"
  defines "q \<equiv> ccm_crypt (ccm_block ctx) (ccm_L ctx) nonce p"
  shows "CRYPTO_ccm128_decrypt ctx tag_len nonce p aad =
    (if ccm_accepts ctx nonce (length p) \<and> tag_len = ccm_M ctx then
       Some (q, ccm_tag (ccm_block ctx) (ccm_M ctx) (ccm_L ctx) nonce aad q)
     else None)"
proof (cases "ccm_accepts ctx nonce (length p)")
  case True
  define st where "st = \<lparr>ccm_nonce = ccm_counter (ccm_L ctx) nonce (length p), ccm_cmac = ccm_mac_aad ctx nonce aad (length p)\<rparr>"
  have i: "ccm128_init_state ctx nonce aad (length p) = Some st" using ccm_init_state [OF ok len] True by (simp add: st_def)
  obtain j where e: "ccm128_encrypt ctx st p = (q, st\<lparr>ccm_nonce := ccm_counter (ccm_L ctx) nonce j\<rparr>)"
    using ccm_encrypt_counter [OF ok True, of st] by (auto simp: st_def q_def)
  have "ccm_accepts ctx nonce (length q)" using True by (simp add: q_def)
  from ccm_compute_mac_tag [OF ok this, of "st\<lparr>ccm_nonce := ccm_counter (ccm_L ctx) nonce j\<rparr>" j aad tag_len]
  show ?thesis using i e True by (auto simp: CRYPTO_ccm128_decrypt_def st_def q_def)
qed (use ccm_init_state [OF ok len] in \<open>simp add: CRYPTO_ccm128_decrypt_def\<close>)

section \<open>Properties\<close>

lemma ccm_crypt_twice: "(\<And>i. length (E (ccm_counter L nonce i)) = 16) \<Longrightarrow> ccm_crypt E L nonce (ccm_crypt E L nonce p) = p"
  by (rule nth_equalityI) (simp_all add: ccm_crypt_def xor.assoc)

text \<open>C24.
  Encryption is that of RFC 3610: it fails exactly for a message that does not fit the length field, a nonce of the wrong length or a tag length other
  than the context's; otherwise the ciphertext is the message combined with the encrypted counter blocks from 1 on, and the tag is the CBC-MAC over the
  formatted first block, the additional data with its encoded length and the padded message, combined with the encrypted counter block 0.  The
  byte-wise absorption of the additional data, the counter that is shared by both parts and the choice of the counter function make no difference.
\<close>

theorem ccm_encrypt_is_rfc3610:
  assumes "ccm_ok ctx" and "length p < 2 ^ 60" and "length aad < 2 ^ 60"
  defines "E \<equiv> ccm_block ctx" and "L \<equiv> ccm_L ctx" and "M \<equiv> ccm_M ctx"
  shows "CRYPTO_ccm128_encrypt ctx tag_len nonce p aad =
    (if length p < 256 ^ L \<and> length nonce = 15 - L \<and> tag_len = M
     then Some (ccm_crypt E L nonce p, ccm_tag E M L nonce aad p) else None)"
  using ccm_encrypt_eq [OF assms(1-3)] by (simp add: ccm_accepts_def E_def L_def M_def)

definition example_ccm :: "ccm128_context" where
  "example_ccm = \<lparr>ccm_block = rev, ccm_ctr = None, ccm_M = 8, ccm_L = 2\<rparr>"

lemma ccm_encrypt_is_rfc3610_witness:
  "CRYPTO_ccm128_encrypt example_ccm 8 (replicate 13 5) [1, 2] [3] =
     Some (ccm_crypt rev 2 (replicate 13 5) [1, 2], ccm_tag rev 8 2 (replicate 13 5) [3] [1, 2])"
proof -
  have "ccm_ok example_ccm" by (simp add: ccm_ok_def example_ccm_def CRYPTO_ccm128_init_def block_fun_def)
  from ccm_encrypt_is_rfc3610 [OF this, of "[1, 2]" "[3]" 8 "replicate 13 5"] show ?thesis by (simp add: example_ccm_def)
qed

text \<open>What was encrypted is decrypted to the message, and the tag that decryption computes over the result is the one encryption gave, so that comparing the
  two accepts; this holds although both directions leave the counter at different places before the tag is made.
\<close>

theorem ccm_roundtrip:
  assumes "ccm_ok ctx" and "length p < 2 ^ 60" and "length aad < 2 ^ 60"
    and "CRYPTO_ccm128_encrypt ctx tag_len nonce p aad = Some (c, tag)"
  shows "CRYPTO_ccm128_decrypt ctx tag_len nonce c aad = Some (p, tag) \<and> length tag = tag_len \<and> length c = length p"
proof -
  define E L M where "E = ccm_block ctx" and "L = ccm_L ctx" and "M = ccm_M ctx"
  have k: "M \<le> 16" "L \<le> 8" "block_fun E" using ccm_okD [OF assms(1)] by (simp_all add: E_def L_def M_def)
  have acc: "ccm_accepts ctx nonce (length p)" "tag_len = M"
    and c: "c = ccm_crypt E L nonce p" and tag: "tag = ccm_tag E M L nonce aad p"
    using assms(4) ccm_encrypt_eq [OF assms(1-3)] by (simp_all add: E_def L_def M_def split: if_splits)
  have n: "length nonce = 15 - L" using acc(1) by (simp add: ccm_accepts_def L_def)
  have lE: "length (E (ccm_counter L nonce i)) = 16" for i using k n by (intro block_funD [of E] length_ccm_counter) simp_all
  have "ccm_crypt E L nonce c = p" unfolding c using lE by (rule ccm_crypt_twice)
  then have "CRYPTO_ccm128_decrypt ctx tag_len nonce c aad = Some (p, tag)"
    using ccm_decrypt_eq [OF assms(1) _ assms(3), of c tag_len nonce] acc assms(2) c tag by (simp add: E_def L_def M_def)
  moreover have "\<forall>b\<in>set (ccm_input M L nonce aad p). length b = 16"
    using n k length_blocks [of _ 16] by (auto simp: ccm_input_def)
  then have "length (cbc_mac E (replicate 16 0) (ccm_input M L nonce aad p)) = 16" using k(3) by (intro length_cbc_mac) simp_all
  ultimately show ?thesis using acc(2) k(1) lE [of 0] by (simp add: tag c ccm_tag_def)
qed

lemma ccm_roundtrip_witness:
  "\<exists>c tag. CRYPTO_ccm128_encrypt example_ccm 8 (replicate 13 5) [1, 2] [3] = Some (c, tag) \<and>
     CRYPTO_ccm128_decrypt example_ccm 8 (replicate 13 5) c [3] = Some ([1, 2], tag)"
proof -
  have ok: "ccm_ok example_ccm" by (simp add: ccm_ok_def example_ccm_def CRYPTO_ccm128_init_def block_fun_def)
  have "\<exists>c tag. CRYPTO_ccm128_encrypt example_ccm 8 (replicate 13 5) [1, 2] [3] = Some (c, tag)"
    using ccm_encrypt_eq [OF ok, of "[1, 2]" "[3]" 8 "replicate 13 5"] by (simp add: ccm_accepts_def example_ccm_def)
  then obtain c tag where e: "CRYPTO_ccm128_encrypt example_ccm 8 (replicate 13 5) [1, 2] [3] = Some (c, tag)" by blast
  from ccm_roundtrip [OF ok _ _ e] e show ?thesis by simp
qed

end
