(* ===== verification/Gcm.thy ===== *)
theory Gcm
  imports Ghash Ccm
begin

text \<open>
  \<^verbatim>\<open>fipsmodule/modes/gcm.c\<close> in the portable build, where \<^verbatim>\<open>GCM_MUL\<close> is \<^verbatim>\<open>gcm_gmult_4bit\<close> and \<^verbatim>\<open>GHASH\<close> is not defined.  The context is a record, its
  blocks lists of 16 bytes: \<open>GETU32 (drop 12 (g_Yi ctx))\<close> is \<^verbatim>\<open>CRYPTO_bswap4(ctx->Yi.d[3])\<close>, and \<open>PUTU32 (g_Yi ctx) 12 ctr\<close> the assignment of
  \<^verbatim>\<open>CRYPTO_bswap4(ctr)\<close> to it.  The code has its encryption and its decryption twice each, with a block cipher and with a function that counts in 32
  bits; the two directions differ only in which side of the exclusive or is hashed, which is the argument \<open>enc\<close> here.  Calls of any length
  are shown equal to a step per byte (the code's branch for strict alignment), whole sessions to SP 800-38D.
\<close>

section \<open>The context\<close>

record gcm128_context =
  g_Yi :: bytes
  g_EKi :: bytes
  g_EK0 :: bytes
  g_alen :: u64
  g_mlen :: u64
  g_Xi :: bytes
  g_H :: u128
  g_Htable :: "u128 list"
  g_gmult :: gmult_func
  g_ghash :: ghash_func
  g_mres :: nat
  g_ares :: nat
  g_block :: "bytes \<Rightarrow> bytes"
  g_use_aesni :: bool

definition GCM_MUL :: "gcm128_context \<Rightarrow> gcm128_context" where
  "GCM_MUL ctx = ctx\<lparr>g_Xi := gcm_gmult_4bit (g_Xi ctx) (g_Htable ctx)\<rparr>"

definition CRYPTO_gcm128_init :: "(bytes \<Rightarrow> bytes) \<Rightarrow> bool \<Rightarrow> gcm128_context" where
  "CRYPTO_gcm128_init block is_aesni_encrypt =
     (let gcm_key = block (replicate 16 0);
          (gmult, ghash, H, Htable, is_avx) = CRYPTO_ghash_init (replicate 16 \<lparr>u_hi = 0, u_lo = 0\<rparr>) gcm_key
      in \<lparr>g_Yi = replicate 16 0, g_EKi = replicate 16 0, g_EK0 = replicate 16 0, g_alen = 0, g_mlen = 0, g_Xi = replicate 16 0,
          g_H = H, g_Htable = Htable, g_gmult = gmult, g_ghash = ghash, g_mres = 0, g_ares = 0, g_block = block,
          g_use_aesni = (is_avx \<and> is_aesni_encrypt)\<rparr>)"

text \<open>The loop \<^verbatim>\<open>while (len >= 16)\<close> that adds whole blocks of input to \<open>y\<close> and multiplies: \<open>y\<close> and what is left of the input.\<close>

function gcm_absorb :: "u128 list \<Rightarrow> bytes \<Rightarrow> bytes \<Rightarrow> bytes \<times> bytes" where
  "gcm_absorb Htable y inp =
     (if 16 \<le> length inp then gcm_absorb Htable (gcm_gmult_4bit (xor_at y 0 (take 16 inp)) Htable) (drop 16 inp)
      else (y, inp))"
  by auto
termination by (relation "measure (\<lambda>(Htable, y, inp). length inp)") auto

declare gcm_absorb.simps [simp del]

text \<open>The block from which the counter starts, from \<open>Yi\<close> set to zero.\<close>

definition gcm_iv_block :: "u128 list \<Rightarrow> bytes \<Rightarrow> bytes \<Rightarrow> bytes \<times> u32" where
  "gcm_iv_block Htable Yi iv =
     (if length iv = 12 then ((mem_write Yi 0 iv)[15 := 1], 1)
      else
        let len0 = push_bit 3 (of_nat (length iv)) :: u64;
            (Yi, iv) = gcm_absorb Htable Yi iv;
            Yi = (if iv \<noteq> [] then gcm_gmult_4bit (xor_at Yi 0 iv) Htable else Yi);
            Yi = store_word_le Yi 8 (load_word_le Yi 8 XOR CRYPTO_bswap8 len0);
            Yi = gcm_gmult_4bit Yi Htable
        in (Yi, GETU32 (drop 12 Yi)))"

definition CRYPTO_gcm128_setiv :: "gcm128_context \<Rightarrow> bytes \<Rightarrow> gcm128_context" where
  "CRYPTO_gcm128_setiv ctx iv =
     (let ctx = ctx\<lparr>g_Yi := replicate 16 0, g_Xi := replicate 16 0, g_alen := 0, g_mlen := 0, g_ares := 0, g_mres := 0\<rparr>;
          (Yi, ctr) = gcm_iv_block (g_Htable ctx) (g_Yi ctx) iv;
          ctx = ctx\<lparr>g_EK0 := g_block ctx Yi\<rparr>;
          ctr = ctr + 1
      in ctx\<lparr>g_Yi := PUTU32 Yi 12 ctr\<rparr>)"

section \<open>Additional data\<close>

text \<open>The loop \<^verbatim>\<open>while (n && len) { Xi[n] ^= *(aad++); ... }\<close>.\<close>

fun aad_head :: "bytes \<Rightarrow> nat \<Rightarrow> bytes \<Rightarrow> bytes \<times> nat \<times> bytes" where
  "aad_head Xi n [] = (Xi, n, [])"
| "aad_head Xi n (x # xs) = (if n = 0 then (Xi, n, x # xs) else aad_head (Xi[n := Xi ! n XOR x]) ((n + 1) mod 16) xs)"

definition aad_tail :: "gcm128_context \<Rightarrow> nat \<Rightarrow> bytes \<Rightarrow> gcm128_context" where
  "aad_tail ctx n aad =
     (let (Xi, rest) = gcm_absorb (g_Htable ctx) (g_Xi ctx) aad;
          ctx = ctx\<lparr>g_Xi := Xi\<rparr>
      in if rest \<noteq> [] then ctx\<lparr>g_Xi := xor_at (g_Xi ctx) 0 rest, g_ares := length rest\<rparr>
         else ctx\<lparr>g_ares := n\<rparr>)"

definition CRYPTO_gcm128_aad :: "gcm128_context \<Rightarrow> bytes \<Rightarrow> bool \<times> gcm128_context" where
  "CRYPTO_gcm128_aad ctx aad =
     (if g_mlen ctx \<noteq> 0 then (False, ctx)
      else
        let len = of_nat (length aad);
            alen = g_alen ctx + len
        in if push_bit 61 1 < alen \<or> alen < len then (False, ctx)
           else
             let ctx = ctx\<lparr>g_alen := alen\<rparr>;
                 n = g_ares ctx
             in if n \<noteq> 0 then
                  let (Xi, n, aad) = aad_head (g_Xi ctx) n aad;
                      ctx = ctx\<lparr>g_Xi := Xi\<rparr>
                  in if n = 0 then (True, aad_tail (GCM_MUL ctx) n aad) else (True, ctx\<lparr>g_ares := n\<rparr>)
                else (True, aad_tail ctx n aad))"

section \<open>Encryption and decryption\<close>

text \<open>The beginning that all four functions share: the length, and the end of the additional data.\<close>

definition gcm_begin :: "gcm128_context \<Rightarrow> nat \<Rightarrow> gcm128_context option" where
  "gcm_begin ctx len =
     (let mlen = g_mlen ctx + of_nat len
      in if push_bit 36 1 - 32 < mlen \<or> mlen < of_nat len then None
         else
           let ctx = ctx\<lparr>g_mlen := mlen\<rparr>
           in Some (if g_ares ctx \<noteq> 0 then (GCM_MUL ctx)\<lparr>g_ares := 0\<rparr> else ctx))"

text \<open>The loop over what is left of a block, \<^verbatim>\<open>while (n && len)\<close>: output, \<^verbatim>\<open>Xi\<close>, \<^verbatim>\<open>n\<close> and the rest of the input.\<close>

fun gcm_head :: "bool \<Rightarrow> bytes \<Rightarrow> bytes \<Rightarrow> nat \<Rightarrow> bytes \<Rightarrow> bytes \<times> bytes \<times> nat \<times> bytes" where
  "gcm_head enc EKi Xi n [] = ([], Xi, n, [])"
| "gcm_head enc EKi Xi n (x # xs) =
     (if n = 0 then ([], Xi, n, x # xs)
      else
        let y = x XOR EKi ! n;
            c = (if enc then y else x);
            (out, Xi, n, rest) = gcm_head enc EKi (Xi[n := Xi ! n XOR c]) ((n + 1) mod 16) xs
        in (y # out, Xi, n, rest))"

text \<open>The next block of the key stream.\<close>

definition gcm_next :: "u32 \<Rightarrow> gcm128_context \<Rightarrow> u32 \<times> gcm128_context" where
  "gcm_next ctr ctx =
     (let ctx = ctx\<lparr>g_EKi := g_block ctx (g_Yi ctx)\<rparr>;
          ctr = ctr + 1
      in (ctr, ctx\<lparr>g_Yi := PUTU32 (g_Yi ctx) 12 ctr\<rparr>))"

text \<open>The loop over whole blocks.\<close>

function gcm_blocks :: "bool \<Rightarrow> u32 \<Rightarrow> gcm128_context \<Rightarrow> bytes \<Rightarrow> bytes \<times> u32 \<times> gcm128_context \<times> bytes" where
  "gcm_blocks enc ctr ctx inp =
     (if 16 \<le> length inp then
        let (ctr, ctx) = gcm_next ctr ctx;
            out = xor_block inp (g_EKi ctx);
            ctx = GCM_MUL (ctx\<lparr>g_Xi := xor_block (g_Xi ctx) (if enc then out else inp)\<rparr>);
            (out', ctr, ctx, rest) = gcm_blocks enc ctr ctx (drop 16 inp)
        in (out @ out', ctr, ctx, rest)
      else ([], ctr, ctx, inp))"
  by auto
termination by (relation "measure (\<lambda>(enc, ctr, ctx, inp). length inp)") auto

declare gcm_blocks.simps [simp del]

text \<open>The last, partial block.\<close>

definition gcm_tail :: "bool \<Rightarrow> u32 \<Rightarrow> gcm128_context \<Rightarrow> nat \<Rightarrow> bytes \<Rightarrow> bytes \<times> gcm128_context" where
  "gcm_tail enc ctr ctx n rest =
     (if rest \<noteq> [] then
        let (ctr, ctx) = gcm_next ctr ctx;
            (out, n') = xor_tail (g_EKi ctx) n rest
        in (out, ctx\<lparr>g_Xi := xor_at (g_Xi ctx) n (if enc then out else rest), g_mres := n'\<rparr>)
      else ([], ctx\<lparr>g_mres := n\<rparr>))"

definition gcm_crypt :: "bool \<Rightarrow> gcm128_context \<Rightarrow> bytes \<Rightarrow> bytes \<times> gcm128_context" where
  "gcm_crypt enc ctx inp =
     (let ctr = GETU32 (drop 12 (g_Yi ctx));
          m = g_mres ctx;
          (out1, Xi, n, inp) = gcm_head enc (g_EKi ctx) (g_Xi ctx) m inp;
          ctx = ctx\<lparr>g_Xi := Xi\<rparr>
      in if m \<noteq> 0 \<and> n \<noteq> 0 then (out1, ctx\<lparr>g_mres := n\<rparr>)
         else
           let ctx = (if m \<noteq> 0 then GCM_MUL ctx else ctx);
               (out2, ctr, ctx, rest) = gcm_blocks enc ctr ctx inp;
               (out3, ctx) = gcm_tail enc ctr ctx n rest
           in (out1 @ out2 @ out3, ctx))"

definition CRYPTO_gcm128_encrypt :: "gcm128_context \<Rightarrow> bytes \<Rightarrow> bytes option \<times> gcm128_context" where
  "CRYPTO_gcm128_encrypt ctx inp =
     (case gcm_begin ctx (length inp) of
        None \<Rightarrow> (None, ctx)
      | Some ctx \<Rightarrow> (case gcm_crypt True ctx inp of (out, ctx) \<Rightarrow> (Some out, ctx)))"

definition CRYPTO_gcm128_decrypt :: "gcm128_context \<Rightarrow> bytes \<Rightarrow> bytes option \<times> gcm128_context" where
  "CRYPTO_gcm128_decrypt ctx inp =
     (case gcm_begin ctx (length inp) of
        None \<Rightarrow> (None, ctx)
      | Some ctx \<Rightarrow> (case gcm_crypt False ctx inp of (out, ctx) \<Rightarrow> (Some out, ctx)))"

text \<open>With a function \<open>stream\<close> that does whole blocks in counter mode.\<close>

definition gcm_bulk :: "bool \<Rightarrow> ctr128_f \<Rightarrow> u32 \<Rightarrow> gcm128_context \<Rightarrow> bytes \<Rightarrow> bytes \<times> u32 \<times> gcm128_context \<times> bytes" where
  "gcm_bulk enc stream ctr ctx inp =
     (let i = length inp div 16 * 16;
          j = i div 16
      in if i \<noteq> 0 then
           let out = stream inp j (g_Yi ctx);
               ctr = ctr + of_nat j;
               ctx = ctx\<lparr>g_Yi := PUTU32 (g_Yi ctx) 12 ctr,
                 g_Xi := fst (gcm_absorb (g_Htable ctx) (g_Xi ctx) (if enc then out else take i inp))\<rparr>
           in (out, ctr, ctx, drop i inp)
         else ([], ctr, ctx, inp))"

definition gcm_crypt_ctr32 :: "bool \<Rightarrow> ctr128_f \<Rightarrow> gcm128_context \<Rightarrow> bytes \<Rightarrow> bytes \<times> gcm128_context" where
  "gcm_crypt_ctr32 enc stream ctx inp =
     (let m = g_mres ctx;
          (out1, Xi, n, inp) = gcm_head enc (g_EKi ctx) (g_Xi ctx) m inp;
          ctx = ctx\<lparr>g_Xi := Xi\<rparr>
      in if m \<noteq> 0 \<and> n \<noteq> 0 then (out1, ctx\<lparr>g_mres := n\<rparr>)
         else
           let ctx = (if m \<noteq> 0 then GCM_MUL ctx else ctx);
               ctr = GETU32 (drop 12 (g_Yi ctx));
               (out2, ctr, ctx, rest) = gcm_bulk enc stream ctr ctx inp;
               (out3, ctx) = gcm_tail enc ctr ctx n rest
           in (out1 @ out2 @ out3, ctx))"

definition CRYPTO_gcm128_encrypt_ctr32 :: "gcm128_context \<Rightarrow> bytes \<Rightarrow> ctr128_f \<Rightarrow> bytes option \<times> gcm128_context" where
  "CRYPTO_gcm128_encrypt_ctr32 ctx inp stream =
     (case gcm_begin ctx (length inp) of
        None \<Rightarrow> (None, ctx)
      | Some ctx \<Rightarrow> (case gcm_crypt_ctr32 True stream ctx inp of (out, ctx) \<Rightarrow> (Some out, ctx)))"

definition CRYPTO_gcm128_decrypt_ctr32 :: "gcm128_context \<Rightarrow> bytes \<Rightarrow> ctr128_f \<Rightarrow> bytes option \<times> gcm128_context" where
  "CRYPTO_gcm128_decrypt_ctr32 ctx inp stream =
     (case gcm_begin ctx (length inp) of
        None \<Rightarrow> (None, ctx)
      | Some ctx \<Rightarrow> (case gcm_crypt_ctr32 False stream ctx inp of (out, ctx) \<Rightarrow> (Some out, ctx)))"

section \<open>The tag\<close>

text \<open>A \<^verbatim>\<open>NULL\<close> tag is \<open>None\<close>.\<close>

definition CRYPTO_gcm128_finish :: "gcm128_context \<Rightarrow> bytes option \<Rightarrow> nat \<Rightarrow> bool \<times> gcm128_context" where
  "CRYPTO_gcm128_finish ctx tag len =
     (let alen = push_bit 3 (g_alen ctx);
          clen = push_bit 3 (g_mlen ctx);
          ctx = (if g_mres ctx \<noteq> 0 \<or> g_ares ctx \<noteq> 0 then GCM_MUL ctx else ctx);
          alen = CRYPTO_bswap8 alen;
          clen = CRYPTO_bswap8 clen;
          ctx = ctx\<lparr>g_Xi := store_word_le (g_Xi ctx) 0 (load_word_le (g_Xi ctx) 0 XOR alen)\<rparr>;
          ctx = ctx\<lparr>g_Xi := store_word_le (g_Xi ctx) 8 (load_word_le (g_Xi ctx) 8 XOR clen)\<rparr>;
          ctx = GCM_MUL ctx;
          ctx = ctx\<lparr>g_Xi := xor_block (g_Xi ctx) (g_EK0 ctx)\<rparr>
      in (case tag of
            Some t \<Rightarrow> if len \<le> 16 then (CRYPTO_memcmp (g_Xi ctx) t len = 0, ctx) else (False, ctx)
          | None \<Rightarrow> (False, ctx)))"

definition CRYPTO_gcm128_tag :: "gcm128_context \<Rightarrow> nat \<Rightarrow> bytes \<times> gcm128_context" where
  "CRYPTO_gcm128_tag ctx len =
     (let (_, ctx) = CRYPTO_gcm128_finish ctx None 0
      in (take (if len \<le> 16 then len else 16) (g_Xi ctx), ctx))"

section \<open>Byte by byte\<close>

definition gcm_step :: "bool \<Rightarrow> gcm128_context \<Rightarrow> u8 \<Rightarrow> u8 \<times> gcm128_context" where
  "gcm_step enc ctx x =
     (let n = g_mres ctx;
          ctx = (if n = 0 then snd (gcm_next (GETU32 (drop 12 (g_Yi ctx))) ctx) else ctx);
          y = x XOR g_EKi ctx ! n;
          c = (if enc then y else x);
          ctx = ctx\<lparr>g_Xi := (g_Xi ctx)[n := g_Xi ctx ! n XOR c]\<rparr>;
          n = (n + 1) mod 16;
          ctx = (if n = 0 then GCM_MUL ctx else ctx)
      in (y, ctx\<lparr>g_mres := n\<rparr>))"

definition gcm_ok :: "gcm128_context \<Rightarrow> bool" where
  "gcm_ok ctx \<longleftrightarrow> block_fun (g_block ctx) \<and> length (g_Htable ctx) = 16 \<and> length (g_Yi ctx) = 16 \<and> length (g_EKi ctx) = 16 \<and>
     length (g_EK0 ctx) = 16 \<and> length (g_Xi ctx) = 16 \<and> g_mres ctx < 16 \<and> g_ares ctx < 16"

lemma length_store_u128 [simp]: "length Xi = 16 \<Longrightarrow> length (store_u128 Xi Z) = 16"
  by (simp add: store_u128_word)

lemma length_gcm_gmult_4bit [simp]: "length Xi = 16 \<Longrightarrow> length (gcm_gmult_4bit Xi T) = 16"
  by (simp add: gcm_gmult_4bit_def)

lemma length_PUTU32 [simp]: "length b = 16 \<Longrightarrow> length (PUTU32 b 12 v) = 16"
  by (simp add: PUTU32_be mem_write_def)

lemma GETU32_PUTU32 [simp]: "length b = 16 \<Longrightarrow> GETU32 (drop 12 (PUTU32 b 12 v)) = v"
  using unsigned_less [of v, where ?'a = nat]
  by (simp add: GETU32_be PUTU32_be mem_write_def be_nat_be_bytes)

lemma GCM_MUL_fields [simp]:
  "g_Yi (GCM_MUL ctx) = g_Yi ctx" "g_EKi (GCM_MUL ctx) = g_EKi ctx" "g_EK0 (GCM_MUL ctx) = g_EK0 ctx"
  "g_Htable (GCM_MUL ctx) = g_Htable ctx" "g_mres (GCM_MUL ctx) = g_mres ctx" "g_ares (GCM_MUL ctx) = g_ares ctx"
  "g_block (GCM_MUL ctx) = g_block ctx" "g_alen (GCM_MUL ctx) = g_alen ctx" "g_mlen (GCM_MUL ctx) = g_mlen ctx"
  "g_Xi (GCM_MUL ctx) = gcm_gmult_4bit (g_Xi ctx) (g_Htable ctx)"
  by (simp_all add: GCM_MUL_def)

lemma GCM_MUL_updates:
  "GCM_MUL (ctx\<lparr>g_mres := n\<rparr>) = (GCM_MUL ctx)\<lparr>g_mres := n\<rparr>"
  by (simp add: GCM_MUL_def)

text \<open>After some bytes \<open>c\<close> of ciphertext in one block, from position \<open>n\<close>.\<close>

definition gcm_fill :: "gcm128_context \<Rightarrow> nat \<Rightarrow> bytes \<Rightarrow> gcm128_context" where
  "gcm_fill ctx n c =
     (let ctx = ctx\<lparr>g_Xi := xor_at (g_Xi ctx) n c\<rparr>;
          ctx = (if n + length c = 16 then GCM_MUL ctx else ctx)
      in ctx\<lparr>g_mres := (n + length c) mod 16\<rparr>)"

lemma xor_at_Nil [simp]: "xor_at buf i [] = buf"
  by (simp add: xor_at_def)

lemma gcm_within:
  assumes "g_mres ctx = n" and "0 < n" and "n < 16" and "n + length xs \<le> 16" and "length (g_EKi ctx) = 16"
  shows "bytewise (gcm_step enc) ctx xs =
    (xor_bytes xs (drop n (g_EKi ctx)), gcm_fill ctx n (if enc then xor_bytes xs (drop n (g_EKi ctx)) else xs))"
  using assms
proof (induction xs arbitrary: ctx n)
  case Nil
  then show ?case by (cases ctx) (simp add: gcm_fill_def Let_def)
next
  case (Cons x xs)
  let ?k = "g_EKi ctx" and ?y = "x XOR g_EKi ctx ! n"
  let ?c = "if enc then ?y else x"
  let ?X = "(g_Xi ctx)[n := g_Xi ctx ! n XOR ?c]"
  have d: "drop n ?k = ?k ! n # drop (Suc n) ?k" using Cons.prems by (simp add: Cons_nth_drop_Suc)
  show ?case
  proof (cases "xs = []")
    case True
    moreover have "16 dvd Suc n \<longleftrightarrow> n = 15" using Cons.prems(3) by (cases "n = 15") (auto dest: dvd_imp_le)
    ultimately show ?thesis
      using Cons.prems d True
      by (cases "n = 15"; cases enc) (simp_all add: gcm_step_def gcm_fill_def Let_def xor_at_Cons)
  next
    case False
    then have n: "Suc n < 16" using Cons.prems(4) by (cases xs) simp_all
    let ?ctx = "ctx\<lparr>g_Xi := ?X, g_mres := Suc n\<rparr>"
    have s: "gcm_step enc ctx x = (?y, ?ctx)" using n Cons.prems by (simp add: gcm_step_def Let_def)
    have "bytewise (gcm_step enc) ?ctx xs =
        (xor_bytes xs (drop (Suc n) ?k), gcm_fill ?ctx (Suc n) (if enc then xor_bytes xs (drop (Suc n) ?k) else xs))"
      using Cons.IH [of ?ctx "Suc n"] Cons.prems n by simp
    moreover have "gcm_fill ?ctx (Suc n) zs = gcm_fill ctx n (?c # zs)" for zs
      by (simp add: gcm_fill_def Let_def xor_at_Cons GCM_MUL_def)
    ultimately show ?thesis unfolding bytewise.simps s d by simp
  qed
qed

lemma gcm_next_fields [simp]:
  "g_Xi (snd (gcm_next c ctx)) = g_Xi ctx" "g_Htable (snd (gcm_next c ctx)) = g_Htable ctx"
  "g_EK0 (snd (gcm_next c ctx)) = g_EK0 ctx" "g_EKi (snd (gcm_next c ctx)) = g_block ctx (g_Yi ctx)"
  "g_Yi (snd (gcm_next c ctx)) = PUTU32 (g_Yi ctx) 12 (c + 1)" "g_mres (snd (gcm_next c ctx)) = g_mres ctx"
  "g_ares (snd (gcm_next c ctx)) = g_ares ctx" "g_block (snd (gcm_next c ctx)) = g_block ctx"
  "g_alen (snd (gcm_next c ctx)) = g_alen ctx" "g_mlen (snd (gcm_next c ctx)) = g_mlen ctx"
  "fst (gcm_next c ctx) = c + 1"
  by (simp_all add: gcm_next_def Let_def)

lemma gcm_from_start:
  fixes ctx :: gcm128_context
  assumes "gcm_ok ctx" and "g_mres ctx = 0" and "xs \<noteq> []" and "length xs \<le> 16"
  defines "t \<equiv> snd (gcm_next (GETU32 (drop 12 (g_Yi ctx))) ctx)"
  shows "bytewise (gcm_step enc) ctx xs =
    (xor_bytes xs (g_EKi t), gcm_fill t 0 (if enc then xor_bytes xs (g_EKi t) else xs))"
proof -
  obtain x ys where xs: "xs = x # ys" using assms(3) by (cases xs) simp_all
  let ?k = "g_EKi t"
  have l: "length ?k = 16" using assms(1) by (simp add: t_def gcm_ok_def block_funD)
  define y where "y = x XOR ?k ! 0"
  let ?c = "if enc then y else x"
  let ?ctx = "t\<lparr>g_Xi := (g_Xi t)[0 := g_Xi t ! 0 XOR ?c], g_mres := 1\<rparr>"
  have s: "gcm_step enc ctx x = (y, ?ctx)" using assms(2) by (simp add: gcm_step_def Let_def y_def flip: t_def)
  have b: "bytewise (gcm_step enc) ?ctx ys =
      (xor_bytes ys (drop 1 ?k), gcm_fill ?ctx 1 (if enc then xor_bytes ys (drop 1 ?k) else ys))"
    using gcm_within [of ?ctx 1 ys enc] assms(4) l xs by simp
  have "?k = ?k ! 0 # drop 1 ?k" using l by (simp add: Cons_nth_drop_Suc)
  then have x: "xor_bytes xs ?k = y # xor_bytes ys (drop 1 ?k)" unfolding xs y_def by (metis xor_bytes_simps(3))
  have "gcm_fill ?ctx 1 zs = gcm_fill t 0 (?c # zs)" for zs
    by (simp add: gcm_fill_def Let_def xor_at_Cons GCM_MUL_def)
  then show ?thesis unfolding xs bytewise.simps s using b x by (simp add: xs)
qed

text \<open>The head takes what fits in the block.\<close>

lemma gcm_head_eq:
  fixes xs eki :: bytes and n :: nat
  assumes "0 < n" and "n < 16" and "length eki = 16"
  defines "k \<equiv> min (16 - n) (length xs)"
  defines "out \<equiv> xor_bytes (take k xs) (drop n eki)"
  shows "gcm_head enc eki xi n xs =
    (out, xor_at xi n (if enc then out else take k xs), (n + k) mod 16, drop k xs)"
  using assms(1,2) unfolding out_def k_def
proof (induction xs arbitrary: n xi)
  case (Cons x xs)
  have d: "drop n eki = eki ! n # drop (Suc n) eki" using Cons.prems assms(3) by (simp add: Cons_nth_drop_Suc)
  have k: "min (16 - n) (length (x # xs)) = Suc (min (15 - n) (length xs))" using Cons.prems by simp
  show ?case
  proof (cases "n = 15")
    case True
    then show ?thesis using d by (cases xs) (simp_all add: xor_at_Cons Let_def)
  next
    case False
    then have n: "Suc n < 16" "Suc n mod 16 = Suc n" using Cons.prems by simp_all
    from Cons.IH [OF _ n(1)] n(2) show ?thesis using Cons.prems d k by (auto simp: Let_def xor_at_Cons)
  qed
qed simp

lemma gcm_fill_ok: "gcm_ok ctx \<Longrightarrow> gcm_ok (gcm_fill ctx n c)"
  by (simp add: gcm_ok_def gcm_fill_def Let_def)

lemma gcm_next_ok: "gcm_ok ctx \<Longrightarrow> gcm_ok (snd (gcm_next c ctx))"
  by (simp add: gcm_ok_def block_funD)

lemma gcm_step_ok: "gcm_ok ctx \<Longrightarrow> gcm_ok (snd (gcm_step enc ctx x))"
  by (simp add: gcm_step_def Let_def gcm_ok_def block_funD)

lemma gcm_mres_same [simp]: "g_mres ctx = n \<Longrightarrow> ctx\<lparr>g_mres := n\<rparr> = ctx"
  by (cases ctx) simp

lemma gcm_tail_bytewise:
  assumes "gcm_ok ctx" and "g_mres ctx = 0" and "length xs < 16" and "ctr = GETU32 (drop 12 (g_Yi ctx))"
  shows "gcm_tail enc ctr ctx 0 xs = bytewise (gcm_step enc) ctx xs"
proof (cases "xs = []")
  case True
  then show ?thesis using assms(2) by (simp add: gcm_tail_def)
next
  case False
  let ?t = "snd (gcm_next ctr ctx)"
  define c where "c = (if enc then xor_bytes xs (g_EKi ?t) else xs)"
  have l: "length (g_EKi ?t) = 16" using assms(1) by (simp add: gcm_ok_def block_funD)
  then have t: "xor_tail (g_EKi ?t) 0 xs = (xor_bytes xs (g_EKi ?t), length xs)" using assms(3) by (simp add: xor_tail_eq)
  have c: "length c = length xs" using assms(3) l by (simp add: c_def)
  have b: "bytewise (gcm_step enc) ctx xs = (xor_bytes xs (g_EKi ?t), gcm_fill ?t 0 c)"
    using gcm_from_start [OF assms(1,2) False, of enc] assms(3,4) by (simp add: c_def)
  have "gcm_tail enc ctr ctx 0 xs = (xor_bytes xs (g_EKi ?t), ?t\<lparr>g_Xi := xor_at (g_Xi ?t) 0 c, g_mres := length xs\<rparr>)"
    unfolding gcm_tail_def Let_def split_beta t c_def using False by simp
  then show ?thesis using b c assms(3) by (simp add: gcm_fill_def)
qed

lemma gcm_blocks_bytewise:
  assumes "gcm_ok ctx" and "g_mres ctx = 0" and "ctr = GETU32 (drop 12 (g_Yi ctx))" and "gcm_blocks enc ctr ctx xs = (out, ctr', ctx', rest)"
  shows "bytewise (gcm_step enc) ctx xs = (let (out', t) = bytewise (gcm_step enc) ctx' rest in (out @ out', t)) \<and>
    length rest < 16 \<and> gcm_ok ctx' \<and> g_mres ctx' = 0 \<and> ctr' = GETU32 (drop 12 (g_Yi ctx'))"
  using assms
proof (induction "length xs" arbitrary: xs ctr ctx out rule: less_induct)
  case less
  show ?case
  proof (cases "16 \<le> length xs")
    case False
    then show ?thesis using less.prems by (auto simp: gcm_blocks.simps split_beta)
  next
    case True
    let ?t = "snd (gcm_next ctr ctx)" and ?xs = "take 16 xs"
    define o1 where "o1 = xor_bytes ?xs (g_EKi ?t)"
    define c where "c = (if enc then o1 else ?xs)"
    let ?u = "gcm_fill ?t 0 c"
    have l: "length (g_EKi ?t) = 16" "length (g_Xi ?t) = 16" using less.prems(1) by (simp_all add: gcm_ok_def block_funD)
    have lc: "length c = 16" "length o1 = 16" using l True by (simp_all add: c_def o1_def)
    have x: "xor_block xs (g_EKi ?t) = o1" "xor_block (g_Xi ?t) (if enc then o1 else xs) = xor_at (g_Xi ?t) 0 c"
      using l lc True xor_at_padded [of "g_Xi ?t" c] by (simp_all add: xor_block_eq o1_def c_def pad16_def xor_bytes_commute)
    have u: "GCM_MUL (?t\<lparr>g_Xi := xor_block (g_Xi ?t) (if enc then o1 else xs)\<rparr>) = ?u"
      unfolding x(2) gcm_fill_def Let_def using lc less.prems(2) by simp
    obtain out1 where r: "gcm_blocks enc (ctr + 1) ?u (drop 16 xs) = (out1, ctr', ctx', rest)" and o: "out = o1 @ out1"
      using less.prems(4) True
      unfolding gcm_blocks.simps [of enc ctr ctx xs] Let_def split_beta x(1) u by (auto simp: prod_eq_iff)
    have ok: "gcm_ok ?u" by (rule gcm_fill_ok [OF gcm_next_ok [OF less.prems(1)]])
    have uu: "g_mres ?u = 0" "ctr + 1 = GETU32 (drop 12 (g_Yi ?u))"
      using less.prems(1) lc by (simp_all add: gcm_fill_def gcm_ok_def)
    have b: "bytewise (gcm_step enc) ctx ?xs = (o1, ?u)"
      using gcm_from_start [OF less.prems(1,2), of ?xs enc] True less.prems(3) unfolding o1_def c_def
      by (cases "xs = []") simp_all
    have len: "length (drop 16 xs) < length xs" using True by simp
    from less.hyps [OF len ok uu r] b o bytewise_append [of "gcm_step enc" ctx ?xs "drop 16 xs"]
    show ?thesis by (simp add: split_beta Let_def)
  qed
qed

text \<open>\<^verbatim>\<open>ctx->mres\<close> is only set at the end.\<close>

lemma gcm_next_mres: "gcm_next ctr (ctx\<lparr>g_mres := n\<rparr>) = (ctr + 1, (snd (gcm_next ctr ctx))\<lparr>g_mres := n\<rparr>)"
  by (simp add: gcm_next_def Let_def)

lemma gcm_tail_mres: "gcm_tail enc ctr (ctx\<lparr>g_mres := n\<rparr>) k xs = gcm_tail enc ctr ctx k xs"
  by (simp add: gcm_tail_def gcm_next_mres split_beta)

lemma gcm_blocks_mres:
  "gcm_blocks enc ctr (ctx\<lparr>g_mres := n\<rparr>) xs =
    (case gcm_blocks enc ctr ctx xs of (out, ctr', ctx', rest) \<Rightarrow> (out, ctr', ctx'\<lparr>g_mres := n\<rparr>, rest))"
proof (induction "length xs" arbitrary: xs ctr ctx rule: less_induct)
  case less
  show ?case
  proof (cases "16 \<le> length xs")
    case False
    then show ?thesis by (simp add: gcm_blocks.simps)
  next
    case True
    define t where "t = snd (gcm_next ctr ctx)"
    define u where "u = GCM_MUL (t\<lparr>g_Xi := xor_block (g_Xi t) (if enc then xor_block xs (g_EKi t) else xs)\<rparr>)"
    have n: "gcm_next ctr ctx = (ctr + 1, t)" by (simp add: t_def prod_eq_iff)
    have m: "GCM_MUL (t\<lparr>g_mres := n, g_Xi := xor_block (g_Xi t) (if enc then xor_block xs (g_EKi t) else xs)\<rparr>) = u\<lparr>g_mres := n\<rparr>"
      by (simp add: u_def GCM_MUL_def)
    have len: "length (drop 16 xs) < length xs" using True by simp
    have s: "gcm_next ctr (ctx\<lparr>g_mres := n\<rparr>) = (ctr + 1, t\<lparr>g_mres := n\<rparr>)" by (simp add: gcm_next_mres t_def)
    obtain o1 c1 t1 r1 where g: "gcm_blocks enc (ctr + 1) u (drop 16 xs) = (o1, c1, t1, r1)" by (metis prod_cases4)
    then have i: "gcm_blocks enc (ctr + 1) (u\<lparr>g_mres := n\<rparr>) (drop 16 xs) = (o1, c1, t1\<lparr>g_mres := n\<rparr>, r1)"
      using less.hyps [OF len, of "ctr + 1" u] by simp
    have t: "g_EKi (t\<lparr>g_mres := n\<rparr>) = g_EKi t" "g_Xi (t\<lparr>g_mres := n\<rparr>) = g_Xi t" by simp_all
    show ?thesis
      unfolding gcm_blocks.simps [of enc ctr ctx xs] gcm_blocks.simps [of enc ctr "ctx\<lparr>g_mres := n\<rparr>" xs]
        Let_def n s prod.case t m i u_def [symmetric] g
      using True by simp
  qed
qed

text \<open>After the head of a call, the rest starts on a block boundary.\<close>

lemma gcm_after_head:
  assumes ok: "gcm_ok ctx" and h: "gcm_head enc (g_EKi ctx) (g_Xi ctx) (g_mres ctx) xs = (out, xi, n, rest)"
  defines "t \<equiv> (if g_mres ctx \<noteq> 0 then GCM_MUL (ctx\<lparr>g_Xi := xi\<rparr>) else ctx\<lparr>g_Xi := xi\<rparr>)"
  shows "g_mres ctx \<noteq> 0 \<and> n \<noteq> 0 \<Longrightarrow> bytewise (gcm_step enc) ctx xs = (out, ctx\<lparr>g_Xi := xi, g_mres := n\<rparr>)"
    and "\<not> (g_mres ctx \<noteq> 0 \<and> n \<noteq> 0) \<Longrightarrow> n = 0 \<and> gcm_ok (t\<lparr>g_mres := 0\<rparr>) \<and>
      bytewise (gcm_step enc) ctx xs = (let (out', u) = bytewise (gcm_step enc) (t\<lparr>g_mres := 0\<rparr>) rest in (out @ out', u))"
proof -
  let ?m = "g_mres ctx"
  let ?k = "min (16 - ?m) (length xs)"
  have "(?m \<noteq> 0 \<and> n \<noteq> 0 \<longrightarrow> bytewise (gcm_step enc) ctx xs = (out, ctx\<lparr>g_Xi := xi, g_mres := n\<rparr>)) \<and>
    (\<not> (?m \<noteq> 0 \<and> n \<noteq> 0) \<longrightarrow> n = 0 \<and> gcm_ok (t\<lparr>g_mres := 0\<rparr>) \<and>
      bytewise (gcm_step enc) ctx xs = (let (out', u) = bytewise (gcm_step enc) (t\<lparr>g_mres := 0\<rparr>) rest in (out @ out', u)))"
  proof (cases "?m = 0")
    case True
    then have e: "out = []" "xi = g_Xi ctx" "n = 0" "rest = xs" using h by (cases xs; simp)+
    then have "t = ctx" using True by (simp add: t_def)
    then show ?thesis using e True ok by simp
  next
    case False
    define c where "c = (if enc then xor_bytes (take ?k xs) (drop ?m (g_EKi ctx)) else take ?k xs)"
    have m: "0 < ?m" "?m < 16" and l: "length (g_EKi ctx) = 16" using ok False by (simp_all add: gcm_ok_def)
    from gcm_head_eq [OF m l, of enc "g_Xi ctx" xs] h
    have e: "out = xor_bytes (take ?k xs) (drop ?m (g_EKi ctx))" "xi = xor_at (g_Xi ctx) ?m c" "n = (?m + ?k) mod 16" "rest = drop ?k xs"
      by (simp_all add: c_def)
    have lc: "length c = ?k" using l m by (simp add: c_def)
    have "bytewise (gcm_step enc) ctx (take ?k xs) = (out, gcm_fill ctx ?m c)"
      unfolding c_def e(1) using m l by (intro gcm_within) simp_all
    then have bw: "bytewise (gcm_step enc) ctx xs = (let (out', u) = bytewise (gcm_step enc) (gcm_fill ctx ?m c) rest in (out @ out', u))"
      using bytewise_append [of "gcm_step enc" ctx "take ?k xs" "drop ?k xs"] by (simp add: e(4))
    show ?thesis
    proof (cases "?m + ?k = 16")
      case True
      then have n: "n = 0" by (simp add: e(3))
      have "gcm_fill ctx ?m c = t\<lparr>g_mres := 0\<rparr>" using lc True False by (simp add: gcm_fill_def t_def e(2))
      then show ?thesis using bw n gcm_fill_ok [OF ok, of ?m c] by simp
    next
      case k: False
      then have r: "rest = []" "n = ?m + ?k" "?m + ?k \<noteq> 16" "n \<noteq> 0" using m by (auto simp: e)
      have "gcm_fill ctx ?m c = ctx\<lparr>g_Xi := xi, g_mres := n\<rparr>" using r lc by (simp add: gcm_fill_def e(2,3))
      then show ?thesis using bw r False by simp
    qed
  qed
  then show "?m \<noteq> 0 \<and> n \<noteq> 0 \<Longrightarrow> bytewise (gcm_step enc) ctx xs = (out, ctx\<lparr>g_Xi := xi, g_mres := n\<rparr>)"
    and "\<not> (?m \<noteq> 0 \<and> n \<noteq> 0) \<Longrightarrow> n = 0 \<and> gcm_ok (t\<lparr>g_mres := 0\<rparr>) \<and>
      bytewise (gcm_step enc) ctx xs = (let (out', u) = bytewise (gcm_step enc) (t\<lparr>g_mres := 0\<rparr>) rest in (out @ out', u))"
    by blast+
qed

lemma gcm_crypt_bytewise:
  assumes "gcm_ok ctx"
  shows "gcm_crypt enc ctx xs = bytewise (gcm_step enc) ctx xs"
proof -
  let ?m = "g_mres ctx" and ?ctr = "GETU32 (drop 12 (g_Yi ctx))"
  obtain out1 xi n rest where h: "gcm_head enc (g_EKi ctx) (g_Xi ctx) ?m xs = (out1, xi, n, rest)" by (metis prod_cases4)
  define t where "t = (if ?m \<noteq> 0 then GCM_MUL (ctx\<lparr>g_Xi := xi\<rparr>) else ctx\<lparr>g_Xi := xi\<rparr>)"
  note after = gcm_after_head [OF assms h, folded t_def]
  show ?thesis
  proof (cases "?m \<noteq> 0 \<and> n \<noteq> 0")
    case True
    then show ?thesis using after(1) h by (simp add: gcm_crypt_def Let_def)
  next
    case False
    from after(2) [OF False] have n: "n = 0" and ok: "gcm_ok (t\<lparr>g_mres := 0\<rparr>)"
      and bw: "bytewise (gcm_step enc) ctx xs = (let (out', u) = bytewise (gcm_step enc) (t\<lparr>g_mres := 0\<rparr>) rest in (out1 @ out', u))"
      by blast+
    obtain out2 ctr' ctx' tail where b: "gcm_blocks enc ?ctr t rest = (out2, ctr', ctx', tail)" by (metis prod_cases4)
    have "g_Yi t = g_Yi ctx" by (simp add: t_def)
    then have bb: "bytewise (gcm_step enc) (t\<lparr>g_mres := 0\<rparr>) rest =
          (let (out', u) = bytewise (gcm_step enc) (ctx'\<lparr>g_mres := 0\<rparr>) tail in (out2 @ out', u))"
        "length tail < 16" "gcm_ok (ctx'\<lparr>g_mres := 0\<rparr>)" "ctr' = GETU32 (drop 12 (g_Yi ctx'))"
      using gcm_blocks_bytewise [OF ok, of ?ctr enc rest out2 ctr' "ctx'\<lparr>g_mres := 0\<rparr>" tail] b by (simp_all add: gcm_blocks_mres)
    then have tl: "gcm_tail enc ctr' ctx' 0 tail = bytewise (gcm_step enc) (ctx'\<lparr>g_mres := 0\<rparr>) tail"
      using gcm_tail_bytewise [of "ctx'\<lparr>g_mres := 0\<rparr>" tail ctr' enc] by (simp add: gcm_tail_mres)
    show ?thesis
      unfolding gcm_crypt_def Let_def h prod.case t_def [symmetric] b
      using False n by (simp add: tl bw bb(1) split_beta Let_def)
  qed
qed

text \<open>The two directions undo each other and agree on the state.\<close>

interpretation gcm: inverse_streams "gcm_crypt True" "gcm_crypt False" "gcm_step True" "gcm_step False" gcm_ok
proof
  fix s x y s'
  assume "gcm_ok s" and "gcm_step True s x = (y, s')"
  then show "gcm_step False s y = (x, s')" by (auto simp: gcm_step_def Let_def xor.assoc)
qed (simp_all add: gcm_step_ok gcm_crypt_bytewise)

section \<open>Counting and hashing\<close>

text \<open>The counter of the standard, which wraps in its last four bytes.\<close>

definition gcm_inc32 :: "bytes \<Rightarrow> bytes" where
  "gcm_inc32 b = take 12 b @ be_bytes 4 (be_nat (drop 12 b) + 1)"

lemma length_gcm_inc32 [simp]: "length b = 16 \<Longrightarrow> length (gcm_inc32 b) = 16"
  by (simp add: gcm_inc32_def)

lemma length_gcm_inc32_pow [simp]: "length b = 16 \<Longrightarrow> length ((gcm_inc32 ^^ n) b) = 16"
  by (induction n) simp_all

lemma PUTU32_inc32:
  assumes "length b = 16"
  shows "PUTU32 b 12 (GETU32 (drop 12 b) + 1) = gcm_inc32 b"
proof -
  have "unat (of_nat (be_nat (drop 12 b)) + 1 :: u32) = (be_nat (drop 12 b) + 1) mod 256 ^ 4"
    by (simp add: unat_word_ariths unat_of_nat mod_simps)
  then show ?thesis
    using assms be_bytes_mod [of 4 "be_nat (drop 12 b) + 1"] by (simp add: PUTU32_be GETU32_be gcm_inc32_def mem_write_def)
qed

lemma blocks_snoc:
  assumes "length (leftover 16 cs) = r"
  shows "blocks 16 (cs @ [c]) = (if r = 15 then blocks 16 cs @ [leftover 16 cs @ [c]] else blocks 16 cs)"
    and "leftover 16 (cs @ [c]) = (if r = 15 then [] else leftover 16 cs @ [c])"
proof -
  have r: "r < 16" using length_leftover_less [of 16 cs] assms by simp
  show "blocks 16 (cs @ [c]) = (if r = 15 then blocks 16 cs @ [leftover 16 cs @ [c]] else blocks 16 cs)"
    unfolding blocks_append(1) [of 16 cs "[c]", simplified] using assms r by (simp add: blocks_step)
  show "leftover 16 (cs @ [c]) = (if r = 15 then [] else leftover 16 cs @ [c])"
    unfolding blocks_append(2) [of 16 cs "[c]", simplified] using assms r by (simp add: leftover_step)
qed

text \<open>What the hash state is after additional data or ciphertext \<open>cs\<close> from the block \<open>x\<close> on.\<close>

definition gcm_hashed :: "128 word \<Rightarrow> bytes \<Rightarrow> bytes \<Rightarrow> bytes" where
  "gcm_hashed H x cs = xor_at (word_block (ghash H (block_word x) (blocks 16 cs))) 0 (leftover 16 cs)"

lemma length_gcm_hashed [simp]: "length (gcm_hashed H x cs) = 16"
  by (simp add: gcm_hashed_def)

lemma gcm_hashed_Nil: "length x = 16 \<Longrightarrow> gcm_hashed H x [] = x"
  by (simp add: gcm_hashed_def word_block_word)

lemma block_word_xor_at:
  assumes "length x = 16" and "length b = 16"
  shows "block_word (xor_at x 0 b) = block_word x XOR block_word b"
  using xor_at_padded [of x b] assms by (simp add: pad16_def block_word_xor xor.commute)

lemma gcm_hashed_snoc:
  fixes x :: bytes and c :: u8
  assumes T: "gcm_table T H" and r: "length cs mod 16 = r"
  defines "y \<equiv> (gcm_hashed H x cs)[r := gcm_hashed H x cs ! r XOR c]"
  shows "gcm_hashed H x (cs @ [c]) = (if r = 15 then gcm_gmult_4bit y T else y)"
proof -
  let ?w = "word_block (ghash H (block_word x) (blocks 16 cs))"
  have l: "length (leftover 16 cs) = r" using r by (simp add: length_leftover)
  have y: "y = xor_at ?w 0 (leftover 16 cs @ [c])"
    unfolding y_def xor_at_append l by (simp add: gcm_hashed_def xor_at_Cons)
  show ?thesis
  proof (cases "r = 15")
    case True
    then have "length (leftover 16 cs @ [c]) = 16" using l by simp
    then have "gcm_gmult_4bit y T = word_block (gf_mult (ghash H (block_word x) (blocks 16 cs) XOR block_word (leftover 16 cs @ [c])) H)"
      unfolding y by (simp add: gcm_gmult_4bit_word [OF T] block_word_xor_at del: length_append)
    then show ?thesis using True by (simp add: gcm_hashed_def blocks_snoc [OF l])
  next
    case False
    then show ?thesis by (simp add: y gcm_hashed_def [of H x "cs @ [c]"] blocks_snoc [OF l])
  qed
qed

lemma Suc_ceil_16: "(Suc n + 15) div 16 = Suc (n div 16)"
  by simp

lemma ceil_16: "(n::nat) mod 16 = r \<Longrightarrow> (n + 15) div 16 = n div 16 + (if r = 0 then 0 else 1)"
proof -
  assume r: "n mod 16 = r"
  define q where "q = n div 16"
  have n: "n = q * 16 + r" "r < 16" using r by (auto simp: q_def)
  have "(r + 15) div 16 = (if r = 0 then 0 else 1)" using n(2) by (simp add: div_nat_eqI)
  moreover have "n + 15 = q * 16 + (r + 15)" using n(1) by simp
  ultimately have "(n + 15) div 16 = q + (if r = 0 then 0 else 1)" by (simp only: div_mult_self3)
  then show ?thesis by (simp add: q_def)
qed

lemma Suc_mod_16: "n mod 16 = r \<Longrightarrow> Suc n mod 16 = (if r = 15 then 0 else Suc r) \<and> Suc n div 16 = (if r = 15 then Suc (n div 16) else n div 16)"
  by (auto simp: mod_Suc div_Suc)

definition gcm_stream :: "(bytes \<Rightarrow> bytes) \<Rightarrow> bytes \<Rightarrow> bytes \<Rightarrow> bytes" where
  "gcm_stream E y0 xs = map (\<lambda>i. xs ! i XOR E ((gcm_inc32 ^^ (i div 16)) y0) ! (i mod 16)) [0..<length xs]"

lemma gcm_stream_snoc:
  "gcm_stream E y0 (xs @ [x]) =
     gcm_stream E y0 xs @ [x XOR E ((gcm_inc32 ^^ (length xs div 16)) y0) ! (length xs mod 16)]"
  by (simp add: gcm_stream_def nth_append)

lemma gcm_bytes_state:
  assumes ok: "gcm_ok s" "g_mres s = 0" and T: "gcm_table (g_Htable s) H" and b: "bytewise (gcm_step enc) s xs = (ys, t)"
  defines "cs \<equiv> if enc then ys else xs"
  shows "ys = gcm_stream (g_block s) (g_Yi s) xs \<and> g_mres t = length xs mod 16 \<and>
    g_Yi t = (gcm_inc32 ^^ ((length xs + 15) div 16)) (g_Yi s) \<and>
    (length xs mod 16 \<noteq> 0 \<longrightarrow> g_EKi t = g_block s ((gcm_inc32 ^^ (length xs div 16)) (g_Yi s))) \<and>
    g_Xi t = gcm_hashed H (g_Xi s) cs \<and> g_EK0 t = g_EK0 s \<and> g_alen t = g_alen s \<and> g_mlen t = g_mlen s \<and>
    g_ares t = g_ares s \<and> g_Htable t = g_Htable s \<and> g_block t = g_block s"
  using b unfolding cs_def
proof (induction xs arbitrary: ys t rule: rev_induct)
  case Nil
  then show ?case using ok by (auto simp: gcm_stream_def gcm_hashed_Nil gcm_ok_def)
next
  case (snoc x xs)
  let ?n = "length xs" and ?E = "g_block s" and ?y = "\<lambda>k. (gcm_inc32 ^^ k) (g_Yi s)"
  obtain zs u where u: "bytewise (gcm_step enc) s xs = (zs, u)" by force
  define cs r q where "cs = (if enc then zs else xs)" and "r = ?n mod 16" and "q = ?n div 16"
  note ih = snoc.IH [OF u, folded cs_def r_def q_def]
  have l: "length zs = ?n" "length cs = ?n" using u length_bytewise [of "gcm_step enc" s xs] by (simp_all add: cs_def)
  have okt: "gcm_ok u" using gcm.enc.bytewise_ok [OF ok(1)] gcm.dec.bytewise_ok [OF ok(1)] u by (metis snd_conv)
  obtain y where st: "gcm_step enc u x = (y, t)" and ys: "ys = zs @ [y]"
    using snoc.prems u by (auto simp: bytewise_append split: prod.splits)
  define c where "c = (if enc then y else x)"
  define v where "v = (if r = 0 then snd (gcm_next (GETU32 (drop 12 (g_Yi u))) u) else u)"
  have ly: "length (g_Yi u) = 16" using okt by (simp add: gcm_ok_def)
  have v: "g_EKi v = ?E (?y q)" "g_Yi v = ?y (Suc q)" "g_Xi v = g_Xi u" "g_Htable v = g_Htable s" "g_block v = ?E"
      "g_EK0 v = g_EK0 s" "g_alen v = g_alen s" "g_mlen v = g_mlen s" "g_ares v = g_ares s"
    using ih ceil_16 [of ?n r] ly by (auto simp: v_def r_def [symmetric] q_def [symmetric] PUTU32_inc32)
  have y: "y = x XOR ?E (?y q) ! r"
      and t: "t = (let w = v\<lparr>g_Xi := (g_Xi u)[r := g_Xi u ! r XOR c]\<rparr>
        in (if (r + 1) mod 16 = 0 then GCM_MUL w else w)\<lparr>g_mres := (r + 1) mod 16\<rparr>)"
  proof -
    have "g_mres u = r" using ih by blast
    then have "gcm_step enc u x = (x XOR g_EKi v ! r, let c = (if enc then x XOR g_EKi v ! r else x);
        w = v\<lparr>g_Xi := (g_Xi v)[r := g_Xi v ! r XOR c]\<rparr>
      in (if (r + 1) mod 16 = 0 then GCM_MUL w else w)\<lparr>g_mres := (r + 1) mod 16\<rparr>)"
      unfolding v_def by (simp add: gcm_step_def Let_def)
    then show "y = x XOR ?E (?y q) ! r" and "t = (let w = v\<lparr>g_Xi := (g_Xi u)[r := g_Xi u ! r XOR c]\<rparr>
        in (if (r + 1) mod 16 = 0 then GCM_MUL w else w)\<lparr>g_mres := (r + 1) mod 16\<rparr>)"
      using st v by (simp_all add: c_def Let_def)
  qed
  have m: "(r + 1) mod 16 = (if r = 15 then 0 else Suc r)" using ceil_16 [of ?n r] by (simp add: r_def mod_Suc)
  have cs: "(if enc then ys else xs @ [x]) = cs @ [c]" by (simp add: cs_def c_def ys)
  have X: "gcm_hashed H (g_Xi s) (cs @ [c]) =
      (if r = 15 then gcm_gmult_4bit ((g_Xi u)[r := g_Xi u ! r XOR c]) (g_Htable s) else (g_Xi u)[r := g_Xi u ! r XOR c])"
    using gcm_hashed_snoc [OF T, of cs r "g_Xi s" c] ih l by (simp add: r_def)
  have Y: "(16 + ?n) div 16 = Suc q" by (simp add: q_def)
  show ?case
    unfolding cs X
    using Y ih v y t m ys Suc_mod_16 [of ?n r] by (auto simp: gcm_stream_snoc r_def [symmetric] q_def [symmetric] Let_def)
qed

section \<open>Additional data in pieces\<close>

lemma gcm_absorb_eq:
  assumes "gcm_table T H"
  shows "length y = 16 \<Longrightarrow> gcm_absorb T y xs = (word_block (ghash H (block_word y) (blocks 16 xs)), leftover 16 xs)"
proof (induction "length xs" arbitrary: xs y rule: less_induct)
  case less
  show ?case
  proof (cases "16 \<le> length xs")
    case False
    then show ?thesis using less.prems by (simp add: gcm_absorb.simps word_block_word)
  next
    case True
    let ?y = "gcm_gmult_4bit (xor_at y 0 (take 16 xs)) T"
    have l: "length ?y = 16" "length (take 16 xs) = 16" using less.prems True by simp_all
    have y: "block_word ?y = gf_mult (block_word y XOR block_word (take 16 xs)) H"
      using less.prems l(2) by (simp add: gcm_gmult_4bit_word [OF assms] block_word_xor_at del: length_take)
    have "length (drop 16 xs) < length xs" using True by simp
    from less.hyps [OF this l(1)] True y show ?thesis
      by (subst gcm_absorb.simps) (simp add: blocks_step [of 16 xs] leftover_step [of 16 xs])
  qed
qed

lemma gcm_hashed_within:
  assumes T: "gcm_table T H" and r: "length cs mod 16 = r" and "0 < r" and "r + length ds \<le> 16"
  shows "gcm_hashed H x (cs @ ds) =
    (let y = xor_at (gcm_hashed H x cs) r ds in if r + length ds = 16 then gcm_gmult_4bit y T else y)"
proof -
  let ?l = "leftover 16 cs" and ?w = "word_block (ghash H (block_word x) (blocks 16 cs))"
  have l: "length ?l = r" using r by (simp add: length_leftover)
  have y: "xor_at (gcm_hashed H x cs) r ds = xor_at ?w 0 (?l @ ds)"
    unfolding xor_at_append l by (simp add: gcm_hashed_def)
  show ?thesis
  proof (cases "r + length ds = 16")
    case True
    then have b: "length (?l @ ds) = 16" using l by simp
    have "gcm_gmult_4bit (xor_at ?w 0 (?l @ ds)) T = word_block (gf_mult (ghash H (block_word x) (blocks 16 cs) XOR block_word (?l @ ds)) H)"
      using b by (simp add: gcm_gmult_4bit_word [OF T] block_word_xor_at del: length_append)
    then show ?thesis using True b
      by (simp add: y gcm_hashed_def [of H x "cs @ ds"] blocks_append [of 16 cs ds] blocks_step leftover_step Let_def l)
  next
    case False
    then have "length (?l @ ds) < 16" using l assms(4) by simp
    then show ?thesis using False
      by (simp add: y gcm_hashed_def [of H x "cs @ ds"] blocks_append [of 16 cs ds] Let_def)
  qed
qed

lemma gcm_hashed_blocks:
  assumes T: "gcm_table T H" and "length cs mod 16 = 0" and "gcm_absorb T (gcm_hashed H x cs) ds = (y, rest)"
  shows "gcm_hashed H x (cs @ ds) = xor_at y 0 rest \<and> rest = leftover 16 ds \<and> length y = 16"
proof -
  have l: "leftover 16 cs = []" using assms(2) by (metis length_0_conv length_leftover zero_less_numeral)
  have "gcm_hashed H x cs = word_block (ghash H (block_word x) (blocks 16 cs))" by (simp add: gcm_hashed_def l)
  then have "y = word_block (ghash H (ghash H (block_word x) (blocks 16 cs)) (blocks 16 ds))" "rest = leftover 16 ds"
    using assms(3) gcm_absorb_eq [OF T, of "gcm_hashed H x cs" ds] by simp_all
  then show ?thesis by (simp add: gcm_hashed_def blocks_append [of 16 cs ds] l)
qed

lemma aad_head_eq:
  assumes "0 < n" and "n < 16"
  shows "aad_head Xi n xs = (let k = min (16 - n) (length xs) in (xor_at Xi n (take k xs), (n + k) mod 16, drop k xs))"
  using assms
proof (induction xs arbitrary: n Xi)
  case (Cons x xs)
  have k: "min (16 - n) (length (x # xs)) = Suc (min (15 - n) (length xs))" using Cons.prems by simp
  show ?case
  proof (cases "n = 15")
    case True
    then show ?thesis by (cases xs) (simp_all add: xor_at_Cons Let_def)
  next
    case False
    then have n: "Suc n < 16" "Suc n mod 16 = Suc n" using Cons.prems by simp_all
    from Cons.IH [OF _ n(1)] n(2) show ?thesis using Cons.prems k by (simp add: Let_def xor_at_Cons)
  qed
qed simp

text \<open>A context after the additional data \<open>a\<close>.\<close>

definition gcm_aad_state :: "128 word \<Rightarrow> gcm128_context \<Rightarrow> bytes \<Rightarrow> gcm128_context \<Rightarrow> bool" where
  "gcm_aad_state H s a ctx \<longleftrightarrow>
     ctx = s\<lparr>g_Xi := gcm_hashed H (g_Xi s) a, g_ares := length a mod 16, g_alen := of_nat (length a)\<rparr>"

lemma aad_tail_hashed:
  assumes T: "gcm_table (g_Htable ctx) H" and "length a mod 16 = 0" and "g_Xi ctx = gcm_hashed H x a"
  shows "aad_tail ctx 0 b = ctx\<lparr>g_Xi := gcm_hashed H x (a @ b), g_ares := length (a @ b) mod 16\<rparr>"
proof -
  obtain y rest where "gcm_absorb (g_Htable ctx) (g_Xi ctx) b = (y, rest)" by force
  moreover from gcm_hashed_blocks [OF T assms(2), of x b] this assms(3)
  have "gcm_hashed H x (a @ b) = xor_at y 0 rest" "rest = leftover 16 b" by simp_all
  moreover have "length (a @ b) mod 16 = length (leftover 16 b)"
    using assms(2) by (simp add: length_leftover mod_add_left_eq [of "length a", symmetric])
  ultimately show ?thesis by (auto simp: aad_tail_def Let_def)
qed

lemma gcm128_aad_state:
  assumes T: "gcm_table (g_Htable s) H" and st: "gcm_aad_state H s a ctx" and "g_mlen s = 0" and "length (a @ b) \<le> 2 ^ 61"
  shows "\<exists>ctx'. CRYPTO_gcm128_aad ctx b = (True, ctx') \<and> gcm_aad_state H s (a @ b) ctx'"
proof -
  have len: "length a + length b \<le> 2 ^ 61" using assms(4) by simp
  have u: "unat (of_nat (length a) + of_nat (length b) :: u64) = length a + length b"
      "unat (of_nat (length b) :: u64) = length b"
    using len by (simp_all add: unat_word_ariths unat_of_nat)
  have lim: "\<not> push_bit 61 1 < (of_nat (length a) + of_nat (length b) :: u64)"
      "\<not> of_nat (length a) + of_nat (length b) < (of_nat (length b) :: u64)"
    using len by (simp_all add: word_less_nat_alt u)
  let ?r = "length a mod 16" and ?X = "gcm_hashed H (g_Xi s) a"
  let ?c = "ctx\<lparr>g_alen := of_nat (length (a @ b))\<rparr>"
  have c: "?c = s\<lparr>g_Xi := ?X, g_ares := ?r, g_alen := of_nat (length (a @ b))\<rparr>" "g_alen ctx = of_nat (length a)" "g_mlen ctx = 0"
    using st assms(3) by (simp_all add: gcm_aad_state_def)
  show ?thesis
  proof (cases "?r = 0")
    case True
    have "CRYPTO_gcm128_aad ctx b = (True, aad_tail ?c 0 b)"
      using True lim c by (simp add: CRYPTO_gcm128_aad_def Let_def)
    also have "aad_tail ?c 0 b = ?c\<lparr>g_Xi := gcm_hashed H (g_Xi s) (a @ b), g_ares := length (a @ b) mod 16\<rparr>"
      using T True unfolding c(1) by (intro aad_tail_hashed) simp_all
    finally show ?thesis using st by (simp add: gcm_aad_state_def)
  next
    case False
    let ?k = "min (16 - ?r) (length b)"
    let ?c1 = "a @ take ?k b"
    have r: "0 < ?r" "?r < 16" using False by simp_all
    have h: "aad_head ?X ?r b = (xor_at ?X ?r (take ?k b), (?r + ?k) mod 16, drop ?k b)"
      using aad_head_eq [OF r, of ?X b] by (simp add: Let_def)
    have w: "gcm_hashed H (g_Xi s) ?c1 = (if ?r + ?k = 16 then gcm_gmult_4bit (xor_at ?X ?r (take ?k b)) (g_Htable s) else xor_at ?X ?r (take ?k b))"
      using gcm_hashed_within [OF T refl r(1), of "take ?k b" "g_Xi s"] r by (simp add: Let_def)
    show ?thesis
    proof (cases "?r + ?k = 16")
      case True
      have l: "length ?c1 mod 16 = 0"
      proof -
        have "length ?c1 = ?r + ?k + length a div 16 * 16" by simp
        then show ?thesis unfolding True by simp
      qed
      have n: "(?r + ?k) mod 16 = 0" using True by simp
      let ?d = "GCM_MUL (?c\<lparr>g_Xi := xor_at ?X ?r (take ?k b)\<rparr>)"
      have "CRYPTO_gcm128_aad ctx b = (True, aad_tail ?d 0 (drop ?k b))"
        using False lim c h n by (simp add: CRYPTO_gcm128_aad_def Let_def)
      also have "aad_tail ?d 0 (drop ?k b) = ?d\<lparr>g_Xi := gcm_hashed H (g_Xi s) (?c1 @ drop ?k b), g_ares := length (?c1 @ drop ?k b) mod 16\<rparr>"
        using T True w unfolding c(1) by (intro aad_tail_hashed l) simp_all
      finally show ?thesis using st by (simp add: gcm_aad_state_def GCM_MUL_def)
    next
      case k: False
      then have "?k = length b" "(?r + ?k) mod 16 = ?r + ?k" "(length a + length b) mod 16 = ?r + length b"
        using r by (auto simp: mod_add_left_eq [of "length a", symmetric])
      then show ?thesis using False lim c h w k r st
        by (simp add: CRYPTO_gcm128_aad_def Let_def gcm_aad_state_def)
    qed
  qed
qed

section \<open>The standard\<close>

text \<open>SP 800-38D: the counter block before the first, the ciphertext and the tag, with the hash key \<open>gcm_subkey E\<close>.\<close>

definition gcm_subkey :: "(bytes \<Rightarrow> bytes) \<Rightarrow> 128 word" where
  "gcm_subkey E = block_word (E (replicate 16 0))"

definition gcm_J0 :: "(bytes \<Rightarrow> bytes) \<Rightarrow> bytes \<Rightarrow> bytes" where
  "gcm_J0 E iv =
     (if length iv = 12 then iv @ [0, 0, 0, 1]
      else word_block (ghash (gcm_subkey E) 0 (blocks 16 (pad16 iv @ replicate 8 0 @ be_bytes 8 (8 * length iv)))))"

definition gcm_ciphertext :: "(bytes \<Rightarrow> bytes) \<Rightarrow> bytes \<Rightarrow> bytes \<Rightarrow> bytes" where
  "gcm_ciphertext E iv p = gcm_stream E (gcm_inc32 (gcm_J0 E iv)) p"

definition gcm_auth_tag :: "(bytes \<Rightarrow> bytes) \<Rightarrow> bytes \<Rightarrow> bytes \<Rightarrow> bytes \<Rightarrow> bytes" where
  "gcm_auth_tag E iv a c =
     xor_bytes (word_block (ghash (gcm_subkey E) 0 (blocks 16 (pad16 a @ pad16 c @ be_bytes 8 (8 * length a) @ be_bytes 8 (8 * length c)))))
       (E (gcm_J0 E iv))"

lemma blocks_aligned: "length xs mod 16 = 0 \<Longrightarrow> blocks 16 (xs @ ys) = blocks 16 xs @ blocks 16 ys"
  using length_leftover [of 16 xs] by (simp add: blocks_append [of 16 xs ys])

lemma blocks_aligned_one: "length xs mod 16 = 0 \<Longrightarrow> length b = 16 \<Longrightarrow> blocks 16 (xs @ b) = blocks 16 xs @ [b]"
  using blocks_step [of 16 b] by (simp only: blocks_aligned) simp

lemma length_pad16_mod [simp]: "length (pad16 xs) mod 16 = 0"
proof -
  define r where "r = length xs mod 16"
  have "(r + (16 - r) mod 16) mod 16 = 0" if "r < 16" using that by (cases "r = 0") simp_all
  moreover have "r < 16" by (simp add: r_def)
  ultimately show ?thesis by (simp add: pad16_def r_def mod_add_left_eq)
qed

lemma gcm_hashed_padded:
  assumes "gcm_table T H" and "length x = 16"
  shows "(if length cs mod 16 \<noteq> 0 then gcm_gmult_4bit (gcm_hashed H x cs) T else gcm_hashed H x cs) =
    word_block (ghash H (block_word x) (blocks 16 (pad16 cs)))"
proof -
  let ?l = "leftover 16 cs" and ?w = "word_block (ghash H (block_word x) (blocks 16 cs))"
  have l: "length ?l = length cs mod 16" "length ?l < 16" by (simp_all add: length_leftover)
  show ?thesis
  proof (cases "?l = []")
    case True
    then show ?thesis using l(1) by (simp add: gcm_hashed_def blocks_pad16)
  next
    case False
    then have p: "length (pad16 ?l) = 16" using l(2) by (intro length_pad16) simp_all
    have "xor_at ?w 0 ?l = xor_bytes (pad16 ?l) ?w" using False l(2) by (intro xor_at_padded) simp_all
    then have "block_word (gcm_hashed H x cs) = ghash H (block_word x) (blocks 16 cs) XOR block_word (pad16 ?l)"
      using p by (simp add: gcm_hashed_def block_word_xor xor.commute)
    then have "gcm_gmult_4bit (gcm_hashed H x cs) T = word_block (ghash H (block_word x) (blocks 16 (pad16 cs)))"
      using False by (simp add: gcm_gmult_4bit_word [OF assms(1)] blocks_pad16)
    moreover have "length cs mod 16 \<noteq> 0" using False l(1) by (metis length_0_conv)
    ultimately show ?thesis by simp
  qed
qed

text \<open>The length block.\<close>

lemma bswap8_load: "CRYPTO_bswap8 v = load_word_le (be_bytes 8 (unat v)) 0"
proof -
  have "load_word_le (le_bytes 8 (unat (CRYPTO_bswap8 v))) 0 = CRYPTO_bswap8 v"
    using unsigned_less [of "CRYPTO_bswap8 v", where ?'a = nat] by (simp add: load_word_le_def le_nat_le_bytes)
  then show ?thesis by (simp only: bswap8_stored)
qed

lemma xor_length_block:
  assumes "length y = 16"
  shows "store_word_le y 0 (load_word_le y 0 XOR CRYPTO_bswap8 v) = xor_bytes (take 8 y) (be_bytes 8 (unat v)) @ drop 8 y"
    and "store_word_le y 8 (load_word_le y 8 XOR CRYPTO_bswap8 v) = take 8 y @ xor_bytes (drop 8 y) (be_bytes 8 (unat v))"
  unfolding bswap8_load using assms by (simp_all add: store_xor mem_write_def)

lemma unat_shift_3: "n < 2 ^ 61 \<Longrightarrow> unat (push_bit 3 (of_nat n :: u64)) = 8 * n"
  by (simp add: push_bit_eq_mult unat_word_ariths unat_of_nat)

text \<open>A new context, and a new nonce.\<close>

definition gcm_fresh :: "(bytes \<Rightarrow> bytes) \<Rightarrow> bytes \<Rightarrow> gcm128_context \<Rightarrow> bool" where
  "gcm_fresh E iv ctx \<longleftrightarrow> gcm_ok ctx \<and> gcm_table (g_Htable ctx) (gcm_subkey E) \<and> g_block ctx = E \<and>
     g_Yi ctx = gcm_inc32 (gcm_J0 E iv) \<and> g_EK0 ctx = E (gcm_J0 E iv) \<and> g_Xi ctx = replicate 16 0 \<and>
     g_alen ctx = 0 \<and> g_mlen ctx = 0 \<and> g_ares ctx = 0 \<and> g_mres ctx = 0"

lemma gcm128_init_ok:
  assumes "block_fun E"
  shows "gcm_ok (CRYPTO_gcm128_init E b) \<and> gcm_table (g_Htable (CRYPTO_gcm128_init E b)) (gcm_subkey E) \<and>
    g_block (CRYPTO_gcm128_init E b) = E"
proof -
  let ?K = "E (replicate 16 0)"
  have l: "length ?K = 16" using assms by (simp add: block_funD)
  have "gcm_table (gcm_init_4bit (replicate 16 \<lparr>u_hi = 0, u_lo = 0\<rparr>) (CRYPTO_bswap8 (load_word_le ?K 0)) (CRYPTO_bswap8 (load_word_le ?K 8))) (gcm_subkey E)"
    using gcm_table_init [of "replicate 16 \<lparr>u_hi = 0, u_lo = 0\<rparr>"] u128_word_loaded [OF l]
    by (metis gcm_subkey_def length_replicate)
  then show ?thesis using assms by (simp add: CRYPTO_gcm128_init_def CRYPTO_ghash_init_def gcm_ok_def Let_def)
qed

lemma block_word_zero [simp]: "block_word (replicate 16 0) = 0"
proof -
  have "be_nat (replicate n 0) = 0" for n by (induction n) simp_all
  then show ?thesis by (simp only: block_word_def) simp
qed

lemma gcm128_setiv_fresh:
  assumes ok: "gcm_ok ctx" "gcm_table (g_Htable ctx) (gcm_subkey E)" "g_block ctx = E" and iv: "length iv < 2 ^ 61"
  shows "gcm_fresh E iv (CRYPTO_gcm128_setiv ctx iv)"
proof -
  let ?H = "gcm_subkey E" and ?T = "g_Htable ctx"
  define Y ctr where "Y = gcm_J0 E iv" and "ctr = GETU32 (drop 12 Y)"
  have Yc: "gcm_iv_block ?T (replicate 16 0) iv = (Y, ctr)"
  proof (cases "length iv = 12")
    case True
    have "(mem_write (replicate 16 0) 0 iv)[15 := 1] = iv @ [0, 0, 0, 1]"
      using True by (simp add: mem_write_def numeral_eq_Suc list_update_append)
    then show ?thesis using True by (simp add: Y_def ctr_def gcm_J0_def GETU32_be gcm_iv_block_def)
  next
    case False
    let ?y = "gcm_hashed ?H (replicate 16 0) iv"
    let ?w = "word_block (ghash ?H 0 (blocks 16 (pad16 iv)))" and ?n = "be_bytes 8 (8 * length iv)"
    have a: "gcm_absorb ?T (replicate 16 0) iv = (word_block (ghash ?H 0 (blocks 16 iv)), leftover 16 iv)"
      using gcm_absorb_eq [OF ok(2), of "replicate 16 0" iv] by simp
    have y: "?y = xor_at (word_block (ghash ?H 0 (blocks 16 iv))) 0 (leftover 16 iv)" by (simp add: gcm_hashed_def)
    have e: "leftover 16 iv = [] \<longleftrightarrow> length iv mod 16 = 0" using length_leftover [of 16 iv] by (metis length_0_conv zero_less_numeral)
    have w: "(if leftover 16 iv \<noteq> [] then gcm_gmult_4bit (xor_at (word_block (ghash ?H 0 (blocks 16 iv))) 0 (leftover 16 iv)) ?T
        else word_block (ghash ?H 0 (blocks 16 iv))) = ?w"
      using gcm_hashed_padded [OF ok(2), of "replicate 16 0" iv] e y by (cases "leftover 16 iv = []") simp_all
    have x: "take 8 ?w @ xor_bytes (drop 8 ?w) ?n = xor_bytes ?w (replicate 8 0 @ ?n)"
      using xor_bytes_append [of "take 8 ?w" "replicate 8 0" "drop 8 ?w" ?n] by (simp add: xor_bytes_zero)
    have "blocks 16 (pad16 iv @ replicate 8 0 @ ?n) = blocks 16 (pad16 iv) @ [replicate 8 0 @ ?n]"
      by (rule blocks_aligned_one) simp_all
    then have "gcm_gmult_4bit (xor_bytes ?w (replicate 8 0 @ ?n)) ?T = Y"
      using False by (simp only: Y_def gcm_J0_def) (simp add: gcm_gmult_4bit_word [OF ok(2)] block_word_xor)
    then show ?thesis
      using False unfolding gcm_iv_block_def a Let_def prod.case w
      by (simp add: xor_length_block(2) unat_shift_3 [OF iv] x ctr_def)
  qed
  have l: "length Y = 16" by (simp add: Y_def gcm_J0_def)
  have "CRYPTO_gcm128_setiv ctx iv = ctx\<lparr>g_Yi := PUTU32 Y 12 (ctr + 1), g_Xi := replicate 16 0, g_alen := 0, g_mlen := 0,
      g_ares := 0, g_mres := 0, g_EK0 := E Y\<rparr>"
    using ok(3) Yc by (simp add: CRYPTO_gcm128_setiv_def Let_def)
  moreover have "PUTU32 Y 12 (ctr + 1) = gcm_inc32 Y" unfolding ctr_def by (rule PUTU32_inc32 [OF l])
  ultimately show ?thesis using ok l by (simp add: gcm_fresh_def gcm_ok_def block_funD Y_def)
qed

section \<open>Sessions\<close>

primrec gcm_aads :: "gcm128_context \<Rightarrow> bytes list \<Rightarrow> bool \<times> gcm128_context" where
  "gcm_aads ctx [] = (True, ctx)"
| "gcm_aads ctx (a # as) = (case CRYPTO_gcm128_aad ctx a of (r, ctx) \<Rightarrow> if r then gcm_aads ctx as else (False, ctx))"

primrec gcm_calls :: "(gcm128_context \<Rightarrow> bytes \<Rightarrow> bytes option \<times> gcm128_context) \<Rightarrow> gcm128_context \<Rightarrow> bytes list \<Rightarrow> bytes option \<times> gcm128_context" where
  "gcm_calls f ctx [] = (Some [], ctx)"
| "gcm_calls f ctx (p # ps) = (case f ctx p of
      (None, ctx) \<Rightarrow> (None, ctx)
    | (Some y, ctx) \<Rightarrow> (case gcm_calls f ctx ps of
          (None, ctx) \<Rightarrow> (None, ctx)
        | (Some ys, ctx) \<Rightarrow> (Some (y @ ys), ctx)))"

lemma gcm_aads_state:
  assumes T: "gcm_table (g_Htable s) H" and m: "g_mlen s = 0"
  shows "gcm_aad_state H s a ctx \<Longrightarrow> length (a @ concat as) \<le> 2 ^ 61 \<Longrightarrow>
    \<exists>ctx'. gcm_aads ctx as = (True, ctx') \<and> gcm_aad_state H s (a @ concat as) ctx'"
proof (induction "as" arbitrary: a ctx)
  case (Cons b as)
  have "length (a @ b) \<le> 2 ^ 61" using Cons.prems(2) by simp
  from gcm128_aad_state [OF T Cons.prems(1) m this] obtain c
    where "CRYPTO_gcm128_aad ctx b = (True, c)" "gcm_aad_state H s (a @ b) c" by blast
  with Cons.IH [of "a @ b" c] Cons.prems(2) show ?case by simp
qed simp

definition gcm_call :: "bool \<Rightarrow> gcm128_context \<Rightarrow> bytes \<Rightarrow> bytes option \<times> gcm128_context" where
  "gcm_call enc ctx inp = (case gcm_begin ctx (length inp) of
      None \<Rightarrow> (None, ctx)
    | Some ctx \<Rightarrow> (case gcm_crypt enc ctx inp of (out, ctx) \<Rightarrow> (Some out, ctx)))"

lemma gcm_call_eq: "CRYPTO_gcm128_encrypt = gcm_call True" "CRYPTO_gcm128_decrypt = gcm_call False"
  by (rule ext; rule ext; simp add: CRYPTO_gcm128_encrypt_def CRYPTO_gcm128_decrypt_def gcm_call_def)+

definition gcm_norm :: "gcm128_context \<Rightarrow> gcm128_context" where
  "gcm_norm ctx = (if g_ares ctx \<noteq> 0 then (GCM_MUL ctx)\<lparr>g_ares := 0\<rparr> else ctx)"

lemma gcm_begin_norm:
  assumes "unat (g_mlen ctx) + len \<le> 2 ^ 36 - 32"
  shows "gcm_begin ctx len = Some ((gcm_norm ctx)\<lparr>g_mlen := g_mlen ctx + of_nat len\<rparr>)"
proof -
  have "len < 2 ^ 64" using assms by simp
  then have u: "unat (g_mlen ctx + of_nat len) = unat (g_mlen ctx) + len" "unat (of_nat len :: u64) = len"
    using assms by (simp_all add: unat_word_ariths unat_of_nat)
  then have "\<not> push_bit 36 1 - 32 < g_mlen ctx + of_nat len" "\<not> g_mlen ctx + of_nat len < of_nat len"
    using assms by (simp_all add: word_less_nat_alt)
  then show ?thesis by (auto simp: gcm_begin_def gcm_norm_def Let_def GCM_MUL_def)
qed

lemma gcm_step_frame:
  "gcm_step enc (ctx\<lparr>g_mlen := m\<rparr>) x = (case gcm_step enc ctx x of (y, t) \<Rightarrow> (y, t\<lparr>g_mlen := m\<rparr>))"
  "g_ares (snd (gcm_step enc ctx x)) = g_ares ctx" "g_H (snd (gcm_step enc ctx x)) = g_H ctx"
  "g_gmult (snd (gcm_step enc ctx x)) = g_gmult ctx" "g_ghash (snd (gcm_step enc ctx x)) = g_ghash ctx"
  "g_use_aesni (snd (gcm_step enc ctx x)) = g_use_aesni ctx"
  by (simp_all add: gcm_step_def gcm_next_def Let_def GCM_MUL_def)

lemma gcm_bytes_frame:
  "bytewise (gcm_step enc) (ctx\<lparr>g_mlen := m\<rparr>) xs = (case bytewise (gcm_step enc) ctx xs of (ys, t) \<Rightarrow> (ys, t\<lparr>g_mlen := m\<rparr>))"
  "g_ares (snd (bytewise (gcm_step enc) ctx xs)) = g_ares ctx" "g_H (snd (bytewise (gcm_step enc) ctx xs)) = g_H ctx"
  "g_gmult (snd (bytewise (gcm_step enc) ctx xs)) = g_gmult ctx" "g_ghash (snd (bytewise (gcm_step enc) ctx xs)) = g_ghash ctx"
  "g_use_aesni (snd (bytewise (gcm_step enc) ctx xs)) = g_use_aesni ctx"
  by (induction xs arbitrary: ctx) (simp_all add: gcm_step_frame split_beta Let_def)

lemma gcm_norm_ok: "gcm_ok ctx \<Longrightarrow> gcm_ok ((gcm_norm ctx)\<lparr>g_mlen := m\<rparr>)"
  by (simp add: gcm_norm_def gcm_ok_def)

lemma gcm_call_bytes:
  assumes "gcm_ok ctx" and "unat (g_mlen ctx) + length p \<le> 2 ^ 36 - 32"
  shows "gcm_call enc ctx p = (case bytewise (gcm_step enc) (gcm_norm ctx) p of
    (ys, t) \<Rightarrow> (Some ys, t\<lparr>g_mlen := g_mlen ctx + of_nat (length p)\<rparr>))"
  using assms gcm_norm_ok [OF assms(1)]
  by (simp add: gcm_call_def gcm_begin_norm gcm_crypt_bytewise gcm_bytes_frame split_beta)

lemma gcm_calls_bytes:
  assumes "gcm_ok ctx" and "g_ares ctx = 0" and "unat (g_mlen ctx) + length (concat ps) \<le> 2 ^ 36 - 32"
  shows "gcm_calls (gcm_call enc) ctx ps = (case bytewise (gcm_step enc) ctx (concat ps) of
    (ys, t) \<Rightarrow> (Some ys, t\<lparr>g_mlen := g_mlen ctx + of_nat (length (concat ps))\<rparr>))"
  using assms
proof (induction ps arbitrary: ctx)
  case Nil
  then show ?case by simp
next
  case (Cons p ps)
  obtain ys t where b: "bytewise (gcm_step enc) ctx p = (ys, t)" by force
  let ?m = "g_mlen ctx + of_nat (length p)"
  have n: "gcm_norm ctx = ctx" using Cons.prems(2) by (simp add: gcm_norm_def)
  have c: "gcm_call enc ctx p = (Some ys, t\<lparr>g_mlen := ?m\<rparr>)"
    using gcm_call_bytes [OF Cons.prems(1), of p enc] Cons.prems(3) b n by simp
  have "gcm_ok t" using gcm.enc.bytewise_ok [OF Cons.prems(1)] gcm.dec.bytewise_ok [OF Cons.prems(1)] b by (cases enc) (metis snd_conv)+
  then have ok: "gcm_ok (t\<lparr>g_mlen := ?m\<rparr>)" by (simp add: gcm_ok_def)
  have u: "unat ?m = unat (g_mlen ctx) + length p"
    using Cons.prems(3) by (simp add: unat_word_ariths unat_of_nat)
  have "g_ares t = 0" using gcm_bytes_frame(2) [of enc ctx p] b Cons.prems(2) by simp
  with Cons.IH [OF ok] u Cons.prems(3)
  have "gcm_calls (gcm_call enc) (t\<lparr>g_mlen := ?m\<rparr>) ps = (case bytewise (gcm_step enc) t (concat ps) of
      (ys, t) \<Rightarrow> (Some ys, t\<lparr>g_mlen := ?m + of_nat (length (concat ps))\<rparr>))"
    by (simp add: gcm_bytes_frame split_beta)
  then show ?case using c b by (simp add: bytewise_append split_beta Let_def add.assoc)
qed

lemma gcm_calls_norm:
  assumes "gcm_ok ctx" and "unat (g_mlen ctx) + length (concat ps) \<le> 2 ^ 36 - 32" and "ps \<noteq> []"
  shows "gcm_calls (gcm_call enc) ctx ps = gcm_calls (gcm_call enc) (gcm_norm ctx) ps"
proof -
  obtain p qs where ps: "ps = p # qs" using assms(3) by (cases ps) simp_all
  have ok: "gcm_ok (gcm_norm ctx)" using assms(1) by (simp add: gcm_norm_def gcm_ok_def)
  have m: "g_mlen (gcm_norm ctx) = g_mlen ctx" "gcm_norm (gcm_norm ctx) = gcm_norm ctx" by (simp_all add: gcm_norm_def)
  have "unat (g_mlen ctx) + length p \<le> 2 ^ 36 - 32" using assms(2) ps by simp
  then have "gcm_call enc ctx p = gcm_call enc (gcm_norm ctx) p"
    using gcm_call_bytes [OF assms(1)] gcm_call_bytes [OF ok] m by simp
  then show ?thesis by (simp add: ps)
qed

text \<open>What the final multiplication starts from.\<close>

definition gcm_pending :: "gcm128_context \<Rightarrow> bytes" where
  "gcm_pending ctx = (if g_mres ctx \<noteq> 0 \<or> g_ares ctx \<noteq> 0 then gcm_gmult_4bit (g_Xi ctx) (g_Htable ctx) else g_Xi ctx)"

lemma gcm128_finish_Xi:
  assumes T: "gcm_table (g_Htable ctx) H" and l: "length (g_Xi ctx) = 16" "length (g_EK0 ctx) = 16"
    and n: "g_alen ctx = of_nat a" "a < 2 ^ 61" "g_mlen ctx = of_nat c" "c < 2 ^ 61"
  shows "g_Xi (snd (CRYPTO_gcm128_finish ctx tag k)) =
    xor_bytes (word_block (gf_mult (block_word (gcm_pending ctx) XOR block_word (be_bytes 8 (8 * a) @ be_bytes 8 (8 * c))) H)) (g_EK0 ctx)"
    and "fst (CRYPTO_gcm128_finish ctx tag k) \<longleftrightarrow> (case tag of None \<Rightarrow> False | Some t \<Rightarrow>
      k \<le> 16 \<and> CRYPTO_memcmp (g_Xi (snd (CRYPTO_gcm128_finish ctx tag k))) t k = 0)"
proof -
  let ?y = "gcm_pending ctx"
  let ?l = "be_bytes 8 (8 * a) @ be_bytes 8 (8 * c)"
  have ly: "length ?y = 16" using l by (simp add: gcm_pending_def)
  let ?z = "xor_bytes (take 8 ?y) (be_bytes 8 (8 * a)) @ drop 8 ?y"
  have z: "store_word_le ?y 0 (load_word_le ?y 0 XOR CRYPTO_bswap8 (push_bit 3 (g_alen ctx))) = ?z" "length ?z = 16"
    using xor_length_block(1) [OF ly] unat_shift_3 [OF n(2)] n(1) ly by simp_all
  have x: "store_word_le ?z 8 (load_word_le ?z 8 XOR CRYPTO_bswap8 (push_bit 3 (g_mlen ctx))) = xor_bytes ?y ?l"
    using xor_length_block(2) [OF z(2)] unat_shift_3 [OF n(4)] n(3) ly
      xor_bytes_append [of "take 8 ?y" "be_bytes 8 (8 * a)" "drop 8 ?y" "be_bytes 8 (8 * c)"] by simp
  let ?X = "gcm_gmult_4bit (xor_bytes ?y ?l) (g_Htable ctx)"
  have g: "?X = word_block (gf_mult (block_word ?y XOR block_word ?l) H)"
    using ly by (simp add: gcm_gmult_4bit_word [OF T] block_word_xor)
  define e where "e = (if g_mres ctx \<noteq> 0 \<or> g_ares ctx \<noteq> 0 then GCM_MUL ctx else ctx)"
  have "g_Xi e = ?y" "g_Htable e = g_Htable ctx" "g_EK0 e = g_EK0 ctx" by (simp_all add: e_def gcm_pending_def)
  then have f: "CRYPTO_gcm128_finish ctx tag k = (let d = e\<lparr>g_Xi := xor_block ?X (g_EK0 ctx)\<rparr>
      in (case tag of Some t \<Rightarrow> if k \<le> 16 then (CRYPTO_memcmp (g_Xi d) t k = 0, d) else (False, d) | None \<Rightarrow> (False, d)))"
    unfolding CRYPTO_gcm128_finish_def Let_def e_def [symmetric]
    by (simp add: z(1) x GCM_MUL_def split: option.split)
  have "xor_block ?X (g_EK0 ctx) = xor_bytes (word_block (gf_mult (block_word ?y XOR block_word ?l) H)) (g_EK0 ctx)"
    unfolding g using l by (simp add: xor_block_eq)
  then show "g_Xi (snd (CRYPTO_gcm128_finish ctx tag k)) =
      xor_bytes (word_block (gf_mult (block_word ?y XOR block_word ?l) H)) (g_EK0 ctx)"
    unfolding f by (simp add: Let_def split: option.split)
  show "fst (CRYPTO_gcm128_finish ctx tag k) \<longleftrightarrow> (case tag of None \<Rightarrow> False | Some t \<Rightarrow>
      k \<le> 16 \<and> CRYPTO_memcmp (g_Xi (snd (CRYPTO_gcm128_finish ctx tag k))) t k = 0)"
    unfolding f by (simp add: Let_def split: option.split)
qed

lemma gcm_session:
  assumes s: "gcm_fresh E iv s" and a: "length (concat as) < 2 ^ 61" and p: "length (concat ps) \<le> 2 ^ 36 - 32"
  obtains ctx1 ctx2 ys where "gcm_aads s as = (True, ctx1)" and "gcm_calls (gcm_call enc) ctx1 ps = (Some ys, ctx2)"
    and "ys = gcm_ciphertext E iv (concat ps)"
    and "\<And>tag k. g_Xi (snd (CRYPTO_gcm128_finish ctx2 tag k)) = gcm_auth_tag E iv (concat as) (if enc then ys else concat ps)"
    and "\<And>tag k. fst (CRYPTO_gcm128_finish ctx2 tag k) \<longleftrightarrow> (case tag of None \<Rightarrow> False | Some t \<Rightarrow>
      k \<le> 16 \<and> CRYPTO_memcmp (gcm_auth_tag E iv (concat as) (if enc then ys else concat ps)) t k = 0)"
proof -
  let ?H = "gcm_subkey E" and ?A = "concat as" and ?P = "concat ps"
  note goal = that
  note f = s [unfolded gcm_fresh_def]
  have T: "gcm_table (g_Htable s) ?H" and m: "g_mlen s = 0" using f by simp_all
  have "gcm_aad_state ?H s [] s" using f by (simp add: gcm_aad_state_def gcm_hashed_Nil)
  then obtain ctx1 where aads: "gcm_aads s as = (True, ctx1)" and st: "gcm_aad_state ?H s ?A ctx1"
    using gcm_aads_state [OF T m, of "[]" s "as"] a by auto
  note c1 = st [unfolded gcm_aad_state_def]
  have oks: "gcm_ok s" using f by blast
  then have ok1: "gcm_ok ctx1" by (simp add: c1 gcm_ok_def)
  define x0 where "x0 = word_block (ghash ?H 0 (blocks 16 (pad16 ?A)))"
  have x0: "x0 = (if length ?A mod 16 \<noteq> 0 then gcm_gmult_4bit (gcm_hashed ?H (replicate 16 0) ?A) (g_Htable s) else gcm_hashed ?H (replicate 16 0) ?A)"
    using gcm_hashed_padded [OF T, of "replicate 16 0" ?A] by (simp add: x0_def)
  have n: "gcm_norm ctx1 = s\<lparr>g_Xi := x0, g_ares := 0, g_alen := of_nat (length ?A)\<rparr>"
    using f x0 by (auto simp: c1 gcm_norm_def GCM_MUL_def)
  have final: "thesis" if calls: "gcm_calls (gcm_call enc) ctx1 ps = (Some ys, t)" and ys: "ys = gcm_ciphertext E iv ?P"
      and y: "gcm_pending t = word_block (ghash ?H (block_word x0) (blocks 16 (pad16 (if enc then ys else ?P))))"
      and fr: "gcm_table (g_Htable t) ?H" "g_EK0 t = g_EK0 s" "length (g_Xi t) = 16"
        "g_alen t = of_nat (length ?A)" "g_mlen t = of_nat (length ?P)" for ys t
  proof -
    let ?c = "if enc then ys else ?P"
    have lc: "length ?c = length ?P" by (simp add: ys gcm_ciphertext_def gcm_stream_def)
    have "length ?P < 2 ^ 61" using p by simp
    have k: "length (g_EK0 t) = 16" using oks fr(2) by (simp add: gcm_ok_def)
    have "blocks 16 (pad16 ?A @ pad16 ?c @ be_bytes 8 (8 * length ?A) @ be_bytes 8 (8 * length ?c)) =
        blocks 16 (pad16 ?A) @ blocks 16 (pad16 ?c) @ [be_bytes 8 (8 * length ?A) @ be_bytes 8 (8 * length ?P)]"
      using lc by (simp only: blocks_aligned length_pad16_mod) (simp add: blocks_step)
    then have g: "xor_bytes (word_block (gf_mult (block_word (gcm_pending t) XOR block_word (be_bytes 8 (8 * length ?A) @ be_bytes 8 (8 * length ?P))) ?H)) (g_EK0 t) =
        gcm_auth_tag E iv ?A ?c"
      using f fr(2) by (simp only: gcm_auth_tag_def y) (simp add: x0_def)
    note fin = gcm128_finish_Xi [OF fr(1,3) k fr(4) a fr(5) \<open>length ?P < 2 ^ 61\<close>, unfolded g]
    show thesis by (rule goal [OF aads calls ys fin(1) fin(2) [unfolded fin(1)]])
  qed
  show ?thesis
  proof (cases "ps = []")
    case True
    have "gcm_pending ctx1 = x0" using f x0 by (simp add: c1 gcm_pending_def)
    then show ?thesis using True f c1
      by (intro final [of "[]" ctx1]) (simp_all add: gcm_ciphertext_def gcm_stream_def x0_def)
  next
    case False
    let ?s = "gcm_norm ctx1"
    have "gcm_ok ?s" using oks by (simp add: n gcm_ok_def x0_def)
    moreover have "g_mres ?s = 0" "gcm_table (g_Htable ?s) ?H" "g_ares ?s = 0" "unat (g_mlen ?s) + length ?P \<le> 2 ^ 36 - 32"
      using f p by (simp_all add: n)
    ultimately have oks: "gcm_ok ?s" "g_mres ?s = 0" "gcm_table (g_Htable ?s) ?H" "g_ares ?s = 0" "unat (g_mlen ?s) + length ?P \<le> 2 ^ 36 - 32" .
    obtain ys t where b: "bytewise (gcm_step enc) ?s ?P = (ys, t)" by force
    let ?c = "if enc then ys else ?P"
    note bs = gcm_bytes_state [OF oks(1-3) b]
    have "unat (g_mlen ctx1) + length ?P \<le> 2 ^ 36 - 32" using p m by (simp add: c1)
    then have calls: "gcm_calls (gcm_call enc) ctx1 ps = (Some ys, t\<lparr>g_mlen := of_nat (length ?P)\<rparr>)"
      using gcm_calls_norm [OF ok1 _ False] gcm_calls_bytes [OF oks(1,4,5)] b m by (simp add: n)
    have ly: "length ys = length ?P" using b length_bytewise [of "gcm_step enc" ?s ?P] by simp
    have "gcm_pending (t\<lparr>g_mlen := of_nat (length ?P)\<rparr>) =
        (if length ?c mod 16 \<noteq> 0 then gcm_gmult_4bit (gcm_hashed ?H x0 ?c) (g_Htable s) else gcm_hashed ?H x0 ?c)"
      using bs ly by (simp add: gcm_pending_def n)
    also have "\<dots> = word_block (ghash ?H (block_word x0) (blocks 16 (pad16 ?c)))"
      by (rule gcm_hashed_padded [OF T]) (simp add: x0_def)
    finally show ?thesis
      using bs calls f by (intro final [of ys "t\<lparr>g_mlen := of_nat (length ?P)\<rparr>"]) (simp_all add: n gcm_ciphertext_def)
  qed
qed

section \<open>With a 32-bit counter function\<close>

text \<open>What is asked of the function here: unlike in \<open>ctr32_fun\<close>, the counter may wrap in its last 32 bits within a call.\<close>

definition ctr32_wrapping_fun :: "(bytes \<Rightarrow> bytes) \<Rightarrow> ctr128_f \<Rightarrow> bool" where
  "ctr32_wrapping_fun E func \<longleftrightarrow> (\<forall>inp n iv. length iv = 16 \<longrightarrow> 16 * n \<le> length inp \<longrightarrow>
     func inp n iv = concat (map (\<lambda>i. xor_bytes (take 16 (drop (16 * i) inp)) (E (take 12 iv @ be_bytes 4 (low32 iv + i)))) [0..<n]))"

lemma gcm_inc32_pow:
  assumes "length b = 16"
  shows "(gcm_inc32 ^^ n) b = take 12 b @ be_bytes 4 (low32 b + n)"
proof (induction n)
  case 0
  then show ?case using assms be_bytes_be_nat [of "drop 12 b"] by (simp add: low32_def)
next
  case (Suc n)
  have "be_bytes 4 ((low32 b + n) mod 256 ^ 4 + 1) = be_bytes 4 (low32 b + n + 1)"
    using be_bytes_mod [of 4 "(low32 b + n) mod 256 ^ 4 + 1"] be_bytes_mod [of 4 "low32 b + n + 1"] by (simp add: mod_simps)
  then have "gcm_inc32 (take 12 b @ be_bytes 4 (low32 b + n)) = take 12 b @ be_bytes 4 (low32 b + Suc n)"
    using assms by (simp add: gcm_inc32_def be_nat_be_bytes)
  then show ?case by (simp only: funpow.simps comp_apply Suc)
qed

text \<open>The whole blocks, both ways.\<close>

definition gcm_same :: "gcm128_context \<Rightarrow> gcm128_context \<Rightarrow> bool" where
  "gcm_same t u \<longleftrightarrow> t\<lparr>g_EKi := []\<rparr> = u\<lparr>g_EKi := []\<rparr>"

lemma gcm_tail_same: "gcm_same t u \<Longrightarrow> xs \<noteq> [] \<Longrightarrow> gcm_tail enc ctr t n xs = gcm_tail enc ctr u n xs"
proof -
  assume s: "gcm_same t u" and xs: "xs \<noteq> []"
  have "gcm_next ctr t = gcm_next ctr (t\<lparr>g_EKi := []\<rparr>)" for t by (simp add: gcm_next_def)
  then have "gcm_next ctr t = gcm_next ctr u" using s by (metis gcm_same_def)
  then show ?thesis using xs by (simp add: gcm_tail_def)
qed

lemma gcm_stream_blocks:
  assumes "block_fun E" and "length y = 16"
  shows "16 * k \<le> length xs \<Longrightarrow>
    concat (map (\<lambda>i. xor_bytes (take 16 (drop (16 * i) xs)) (E ((gcm_inc32 ^^ i) y))) [0..<k]) = gcm_stream E y (take (16 * k) xs)"
proof (induction k)
  case (Suc k)
  let ?f = "\<lambda>i. xs ! i XOR E ((gcm_inc32 ^^ (i div 16)) y) ! (i mod 16)"
  have l: "length (E ((gcm_inc32 ^^ k) y)) = 16" using assms by (simp add: block_funD)
  have "[0..<16 * Suc k] = [0..<16 * k] @ map (\<lambda>i. 16 * k + i) [0..<16]"
    using upt_add_eq_append [of 0 "16 * k" 16] by (simp add: map_add_upt add.commute)
  moreover have "map ?f (map (\<lambda>i. 16 * k + i) [0..<16]) = xor_bytes (take 16 (drop (16 * k) xs)) (E ((gcm_inc32 ^^ k) y))"
    using l Suc.prems by (intro nth_equalityI) simp_all
  moreover have "gcm_stream E y (take (16 * j) xs) = map ?f [0..<16 * j]" if "16 * j \<le> length xs" for j
    using that by (simp add: gcm_stream_def)
  ultimately have "gcm_stream E y (take (16 * Suc k) xs) = gcm_stream E y (take (16 * k) xs) @ xor_bytes (take 16 (drop (16 * k) xs)) (E ((gcm_inc32 ^^ k) y))"
    using Suc.prems by (simp only: map_append) simp
  then show ?case using Suc by simp
qed (simp add: gcm_stream_def)

lemma gcm_bulk_bytewise:
  assumes ok: "gcm_ok ctx" "g_mres ctx = 0" and T: "gcm_table (g_Htable ctx) H" and f: "ctr32_wrapping_fun (g_block ctx) stream"
    and xs: "16 \<le> length xs" and ctr: "ctr = GETU32 (drop 12 (g_Yi ctx))"
  defines "k \<equiv> length xs div 16"
  shows "\<exists>ctr' u t. gcm_bulk enc stream ctr ctx xs = (fst (bytewise (gcm_step enc) ctx (take (16 * k) xs)), ctr', u, drop (16 * k) xs) \<and>
    t = snd (bytewise (gcm_step enc) ctx (take (16 * k) xs)) \<and> gcm_same u t \<and> ctr' = GETU32 (drop 12 (g_Yi u))"
proof -
  let ?E = "g_block ctx" and ?y = "g_Yi ctx"
  obtain ys t where b: "bytewise (gcm_step enc) ctx (take (16 * k) xs) = (ys, t)" by force
  have E: "block_fun ?E" and y: "length ?y = 16" and X: "length (g_Xi ctx) = 16" using ok(1) by (simp_all add: gcm_ok_def)
  have k: "16 * k \<le> length xs" "0 < k" using xs by (simp_all add: k_def div_greater_zero_iff)
  then have lk: "length (take (16 * k) xs) = 16 * k" by simp
  note bs = gcm_bytes_state [OF ok T b, unfolded lk]
  have ceil: "(16 * k + 15) div 16 = k" "16 * k mod 16 = 0" by simp_all
  have ly: "length ys = 16 * k" using b length_bytewise [of "gcm_step enc" ctx "take (16 * k) xs"] lk by simp
  have st: "stream xs k ?y = ys"
  proof -
    have "stream xs k ?y = concat (map (\<lambda>i. xor_bytes (take 16 (drop (16 * i) xs)) (?E (take 12 ?y @ be_bytes 4 (low32 ?y + i)))) [0..<k])"
      using f y k(1) unfolding ctr32_wrapping_fun_def by blast
    also have "\<dots> = gcm_stream ?E ?y (take (16 * k) xs)"
      unfolding gcm_inc32_pow [OF y, symmetric] by (rule gcm_stream_blocks [OF E y k(1)])
    finally show ?thesis using bs by simp
  qed
  let ?c = "if enc then ys else take (16 * k) xs"
  have lc: "length ?c = 16 * k" using ly lk by simp
  then have "leftover 16 ?c = []" by (metis ceil(2) length_0_conv length_leftover zero_less_numeral)
  then have h: "fst (gcm_absorb (g_Htable ctx) (g_Xi ctx) ?c) = gcm_hashed H (g_Xi ctx) ?c"
    using gcm_absorb_eq [OF T X] by (simp add: gcm_hashed_def)
  have u: "of_nat (unat ctr + k) = ctr + of_nat k" by simp
  let ?Y = "PUTU32 ?y 12 (ctr + of_nat k)"
  have Y: "?Y = (gcm_inc32 ^^ k) ?y"
  proof -
    have "unat (ctr + of_nat k) = (low32 ?y + k) mod 256 ^ 4"
      using y low32_less [OF y] by (simp add: ctr GETU32_be low32_def unat_word_ariths unat_of_nat mod_simps)
    then show ?thesis using y be_bytes_mod [of 4 "low32 ?y + k"] by (simp add: gcm_inc32_pow PUTU32_be mem_write_def)
  qed
  let ?u = "ctx\<lparr>g_Yi := ?Y, g_Xi := gcm_hashed H (g_Xi ctx) ?c\<rparr>"
  have i: "length xs div 16 * 16 = 16 * k" "16 * k div 16 = k" "16 * k \<noteq> 0" using k by (simp_all add: k_def)
  have "gcm_bulk enc stream ctr ctx xs = (ys, ctr + of_nat k, ?u, drop (16 * k) xs)"
    unfolding gcm_bulk_def Let_def i st using i(3) h by simp
  moreover have "gcm_same ?u t"
    using bs ok(2) Y ceil gcm_bytes_frame(2-) [of enc ctx "take (16 * k) xs"] b
    by (simp add: gcm_same_def)
  moreover have "ctr + of_nat k = GETU32 (drop 12 (g_Yi ?u))" using y by simp
  ultimately show ?thesis using b by auto
qed

lemma gcm_bulk_mres:
  "gcm_bulk enc stream ctr (ctx\<lparr>g_mres := n\<rparr>) xs =
    (case gcm_bulk enc stream ctr ctx xs of (out, ctr', ctx', rest) \<Rightarrow> (out, ctr', ctx'\<lparr>g_mres := n\<rparr>, rest))"
  by (simp add: gcm_bulk_def Let_def)

lemma gcm_same_refl [simp]: "gcm_same t t"
  by (simp add: gcm_same_def)

lemma gcm_same_mres: "gcm_same u t \<Longrightarrow> gcm_same (u\<lparr>g_mres := n\<rparr>) (t\<lparr>g_mres := n\<rparr>)"
proof -
  have e: "(u\<lparr>g_mres := n\<rparr>)\<lparr>g_EKi := []\<rparr> = (u\<lparr>g_EKi := []\<rparr>)\<lparr>g_mres := n\<rparr>" for u :: gcm128_context by simp
  show "gcm_same u t \<Longrightarrow> gcm_same (u\<lparr>g_mres := n\<rparr>) (t\<lparr>g_mres := n\<rparr>)" unfolding gcm_same_def e by simp
qed

lemma gcm_same_fields:
  assumes "gcm_same u t"
  shows "g_Yi u = g_Yi t" and "g_mres u = g_mres t"
proof -
  have "g_Yi (u\<lparr>g_EKi := []\<rparr>) = g_Yi (t\<lparr>g_EKi := []\<rparr>)" "g_mres (u\<lparr>g_EKi := []\<rparr>) = g_mres (t\<lparr>g_EKi := []\<rparr>)"
    using assms by (simp_all only: gcm_same_def)
  then show "g_Yi u = g_Yi t" and "g_mres u = g_mres t" by simp_all
qed

lemma gcm_crypt_ctr32_bytewise:
  assumes ok: "gcm_ok ctx" and T: "gcm_table (g_Htable ctx) H" and f: "ctr32_wrapping_fun (g_block ctx) stream"
    and r: "gcm_crypt_ctr32 enc stream ctx xs = (out, u)" and b: "bytewise (gcm_step enc) ctx xs = (ys, t)"
  shows "out = ys \<and> gcm_same u t \<and> (g_mres t \<noteq> 0 \<longrightarrow> u = t)"
proof -
  let ?m = "g_mres ctx"
  obtain out1 xi n rest where h: "gcm_head enc (g_EKi ctx) (g_Xi ctx) ?m xs = (out1, xi, n, rest)" by (metis prod_cases4)
  define s where "s = (if ?m \<noteq> 0 then GCM_MUL (ctx\<lparr>g_Xi := xi\<rparr>) else ctx\<lparr>g_Xi := xi\<rparr>)"
  note after = gcm_after_head [OF ok h, folded s_def]
  show ?thesis
  proof (cases "?m \<noteq> 0 \<and> n \<noteq> 0")
    case True
    then show ?thesis using after(1) h r b by (simp add: gcm_crypt_ctr32_def Let_def)
  next
    case False
    let ?s = "s\<lparr>g_mres := 0\<rparr>" and ?ctr = "GETU32 (drop 12 (g_Yi s))"
    from after(2) [OF False] have n: "n = 0" and oks: "gcm_ok ?s"
      and bw: "bytewise (gcm_step enc) ctx xs = (let (out', u) = bytewise (gcm_step enc) ?s rest in (out1 @ out', u))"
      by blast+
    obtain out2 ctr' v tail where g: "gcm_bulk enc stream ?ctr s rest = (out2, ctr', v, tail)" by (metis prod_cases4)
    obtain out3 u' where tl: "gcm_tail enc ctr' (v\<lparr>g_mres := 0\<rparr>) 0 tail = (out3, u')" by force
    have tv: "gcm_tail enc ctr' v 0 tail = (out3, u')" using tl by (simp add: gcm_tail_mres)
    have cr: "out = out1 @ out2 @ out3" "u = u'"
      using r False n unfolding gcm_crypt_ctr32_def Let_def h prod.case s_def [symmetric] g by (simp_all add: tv)
    have Ts: "gcm_table (g_Htable ?s) H" "ctr32_wrapping_fun (g_block ?s) stream" using T f by (simp_all add: s_def)
    have mid: "\<exists>w. bytewise (gcm_step enc) ?s rest = (let (o3, t) = bytewise (gcm_step enc) w tail in (out2 @ o3, t)) \<and>
        gcm_ok w \<and> g_mres w = 0 \<and> gcm_same (v\<lparr>g_mres := 0\<rparr>) w \<and> ctr' = GETU32 (drop 12 (g_Yi w)) \<and> length tail < 16"
    proof (cases "16 \<le> length rest")
      case False
      then have "out2 = []" "tail = rest" "v = s" "ctr' = ?ctr" using g by (auto simp: gcm_bulk_def)
      then show ?thesis using oks False by (intro exI [of _ ?s]) simp
    next
      case True
      define k where "k = length rest div 16"
      obtain c w where bulk: "gcm_bulk enc stream ?ctr ?s rest = (fst (bytewise (gcm_step enc) ?s (take (16 * k) rest)), c, v\<lparr>g_mres := 0\<rparr>, drop (16 * k) rest)"
          and w: "w = snd (bytewise (gcm_step enc) ?s (take (16 * k) rest))" "gcm_same (v\<lparr>g_mres := 0\<rparr>) w" "c = GETU32 (drop 12 (g_Yi (v\<lparr>g_mres := 0\<rparr>)))"
        using gcm_bulk_bytewise [OF oks _ Ts True, of ?ctr enc] g by (auto simp: gcm_bulk_mres k_def)
      have o: "out2 = fst (bytewise (gcm_step enc) ?s (take (16 * k) rest))" "tail = drop (16 * k) rest" "ctr' = c"
        using bulk g by (simp_all add: gcm_bulk_mres)
      have okw: "gcm_ok w" using gcm.enc.bytewise_ok [OF oks] gcm.dec.bytewise_ok [OF oks] w(1) by (cases enc) simp_all
      have Yw: "g_Yi (v\<lparr>g_mres := 0\<rparr>) = g_Yi w" "g_mres w = 0" using gcm_same_fields [OF w(2)] by simp_all
      have "length tail < 16" by (simp add: o(2) k_def minus_mult_div_eq_mod)
      then show ?thesis
        using bytewise_append [of "gcm_step enc" ?s "take (16 * k) rest" "drop (16 * k) rest"] o w okw Yw
        by (intro exI [of _ w]) (simp add: split_beta Let_def)
    qed
    then obtain w where w: "bytewise (gcm_step enc) ?s rest = (let (o3, t) = bytewise (gcm_step enc) w tail in (out2 @ o3, t))"
        "gcm_ok w" "g_mres w = 0" "gcm_same (v\<lparr>g_mres := 0\<rparr>) w" "ctr' = GETU32 (drop 12 (g_Yi w))" "length tail < 16" by blast
    show ?thesis
    proof (cases "tail = []")
      case True
      then have "out3 = []" "u' = v\<lparr>g_mres := 0\<rparr>" using tl by (auto simp: gcm_tail_def)
      then show ?thesis using True w b bw cr by simp
    next
      case False
      have "gcm_tail enc ctr' (v\<lparr>g_mres := 0\<rparr>) 0 tail = bytewise (gcm_step enc) w tail"
        using gcm_tail_same [OF w(4) False] gcm_tail_bytewise [OF w(2,3,6,5)] by simp
      then show ?thesis using w b bw cr tl by simp
    qed
  qed
qed

definition gcm_call_ctr32 :: "bool \<Rightarrow> gcm128_context \<Rightarrow> bytes \<Rightarrow> ctr128_f \<Rightarrow> bytes option \<times> gcm128_context" where
  "gcm_call_ctr32 enc ctx inp stream = (case gcm_begin ctx (length inp) of
      None \<Rightarrow> (None, ctx)
    | Some ctx \<Rightarrow> (case gcm_crypt_ctr32 enc stream ctx inp of (out, ctx) \<Rightarrow> (Some out, ctx)))"

lemma gcm_call_ctr32_eq: "CRYPTO_gcm128_encrypt_ctr32 = gcm_call_ctr32 True" "CRYPTO_gcm128_decrypt_ctr32 = gcm_call_ctr32 False"
  by (rule ext; rule ext; rule ext; simp add: CRYPTO_gcm128_encrypt_ctr32_def CRYPTO_gcm128_decrypt_ctr32_def gcm_call_ctr32_def)+

definition gcm_agrees :: "bytes option \<times> gcm128_context \<Rightarrow> bytes option \<times> gcm128_context \<Rightarrow> bool" where
  "gcm_agrees r s = (fst r = fst s \<and> gcm_same (snd r) (snd s) \<and> (fst s \<noteq> None \<and> g_mres (snd s) \<noteq> 0 \<longrightarrow> snd r = snd s))"

lemma gcm_call_ctr32_agrees:
  assumes "gcm_ok ctx" and "gcm_table (g_Htable ctx) H" and "ctr32_wrapping_fun (g_block ctx) stream"
  shows "gcm_agrees (gcm_call_ctr32 enc ctx inp stream) (gcm_call enc ctx inp)"
proof (cases "gcm_begin ctx (length inp)")
  case None
  then show ?thesis by (simp add: gcm_call_def gcm_call_ctr32_def gcm_agrees_def)
next
  case (Some c)
  then have c: "gcm_ok c" "g_Htable c = g_Htable ctx" "g_block c = g_block ctx"
    using assms(1) by (auto simp: gcm_begin_def Let_def gcm_ok_def split: if_splits)
  obtain ys t where b: "bytewise (gcm_step enc) c inp = (ys, t)" by force
  obtain zs u where r: "gcm_crypt_ctr32 enc stream c inp = (zs, u)" by force
  have "zs = ys \<and> gcm_same u t \<and> (g_mres t \<noteq> 0 \<longrightarrow> u = t)"
    using gcm_crypt_ctr32_bytewise [OF c(1) _ _ r b] assms(2,3) c(2,3) by simp
  then show ?thesis using Some b r
    by (simp add: gcm_call_def gcm_call_ctr32_def gcm_agrees_def gcm_crypt_bytewise [OF c(1)])
qed

lemma gcm_ciphertext_involutive:
  assumes "block_fun E"
  shows "gcm_ciphertext E iv (gcm_ciphertext E iv p) = p"
proof -
  have "length (gcm_J0 E iv) = 16" by (simp add: gcm_J0_def)
  then have "length (E ((gcm_inc32 ^^ j) (gcm_inc32 (gcm_J0 E iv)))) = 16" for j using assms by (simp add: block_funD)
  then show ?thesis by (intro nth_equalityI) (simp_all add: gcm_ciphertext_def gcm_stream_def xor.assoc)
qed

section \<open>Properties\<close>

text \<open>C9.
  A GCM encryption is that of SP 800-38D: for every nonce, and however the additional data and the message are cut into calls, \<^verbatim>\<open>CRYPTO_gcm128_aad\<close> and
  \<^verbatim>\<open>CRYPTO_gcm128_encrypt\<close> succeed within the limits, the output is the standard's ciphertext, and \<^verbatim>\<open>CRYPTO_gcm128_tag\<close> gives the first bytes
  of the standard's tag for the whole data.
\<close>

theorem gcm_encrypt_is_sp800_38d:
  assumes "block_fun E" and "length iv < 2 ^ 61" and "length (concat ads) < 2 ^ 61" and "length (concat ps) \<le> 2 ^ 36 - 32"
  defines "c \<equiv> gcm_ciphertext E iv (concat ps)"
  shows "case gcm_aads (CRYPTO_gcm128_setiv (CRYPTO_gcm128_init E b) iv) ads of (r, ctx) \<Rightarrow> r \<and>
    (case gcm_calls CRYPTO_gcm128_encrypt ctx ps of (out, ctx) \<Rightarrow>
      out = Some c \<and> fst (CRYPTO_gcm128_tag ctx n) = take n (gcm_auth_tag E iv (concat ads) c))"
proof -
  let ?s = "CRYPTO_gcm128_setiv (CRYPTO_gcm128_init E b) iv"
  have f: "gcm_fresh E iv ?s" using gcm128_init_ok [OF assms(1)] assms(2) by (intro gcm128_setiv_fresh) simp_all
  have l: "length (gcm_auth_tag E iv (concat ads) c) \<le> 16" by (simp add: gcm_auth_tag_def)
  show ?thesis
  proof (rule gcm_session [OF f assms(3,4), where enc = True])
    fix ctx1 ctx2 ys
    assume s: "gcm_aads ?s ads = (True, ctx1)" "gcm_calls (gcm_call True) ctx1 ps = (Some ys, ctx2)" "ys = gcm_ciphertext E iv (concat ps)"
      "\<And>tag k. g_Xi (snd (CRYPTO_gcm128_finish ctx2 tag k)) = gcm_auth_tag E iv (concat ads) (if True then ys else concat ps)"
    show ?thesis using s(1-3) s(4) [of None 0] l by (simp add: gcm_call_eq CRYPTO_gcm128_tag_def split_beta c_def)
  qed
qed

lemma gcm_encrypt_is_sp800_38d_witness:
  "case gcm_aads (CRYPTO_gcm128_setiv (CRYPTO_gcm128_init rev False) [1, 2, 3]) [[7], [8, 9]] of (r, ctx) \<Rightarrow> r \<and>
    (case gcm_calls CRYPTO_gcm128_encrypt ctx [[], replicate 20 5, [6]] of (out, ctx) \<Rightarrow>
      out = Some (gcm_ciphertext rev [1, 2, 3] (replicate 20 5 @ [6])) \<and>
      fst (CRYPTO_gcm128_tag ctx 12) = take 12 (gcm_auth_tag rev [1, 2, 3] [7, 8, 9] (gcm_ciphertext rev [1, 2, 3] (replicate 20 5 @ [6]))))"
proof -
  have "block_fun rev" by (simp add: block_fun_def)
  from gcm_encrypt_is_sp800_38d [OF this, where iv = "[1, 2, 3]" and ads = "[[7], [8, 9]]"
      and ps = "[[], replicate 20 5, [6]]" and b = False and n = 12]
  show ?thesis by simp
qed

text \<open>C10.
  Decryption is authenticated: decrypting a ciphertext of the standard, however it is cut into calls, gives the message, and
  \<^verbatim>\<open>CRYPTO_gcm128_finish\<close> then accepts a tag of at most 16 bytes exactly if it is the beginning of the standard's tag; it rejects a missing
  tag and any longer one.
\<close>

theorem gcm_decrypt_authenticates:
  assumes "block_fun E" and "length iv < 2 ^ 61" and "length (concat ads) < 2 ^ 61" and "length p \<le> 2 ^ 36 - 32"
    and "concat cs = gcm_ciphertext E iv p"
  shows "case gcm_aads (CRYPTO_gcm128_setiv (CRYPTO_gcm128_init E b) iv) ads of (r, ctx) \<Rightarrow> r \<and>
    (case gcm_calls CRYPTO_gcm128_decrypt ctx cs of (out, ctx) \<Rightarrow> out = Some p \<and>
      (fst (CRYPTO_gcm128_finish ctx (Some tag) (length tag)) \<longleftrightarrow>
        length tag \<le> 16 \<and> tag = take (length tag) (gcm_auth_tag E iv (concat ads) (concat cs))) \<and>
      \<not> fst (CRYPTO_gcm128_finish ctx None n))"
proof -
  let ?s = "CRYPTO_gcm128_setiv (CRYPTO_gcm128_init E b) iv" and ?T = "gcm_auth_tag E iv (concat ads) (concat cs)"
  have f: "gcm_fresh E iv ?s" using gcm128_init_ok [OF assms(1)] assms(2) by (intro gcm128_setiv_fresh) simp_all
  have J: "length (gcm_J0 E iv) = 16" by (simp add: gcm_J0_def)
  then have T: "length ?T = 16" using assms(1) by (simp add: gcm_auth_tag_def block_funD)
  have "length (concat cs) = length p" by (simp only: assms(5)) (simp add: gcm_ciphertext_def gcm_stream_def)
  then have lim: "length (concat cs) \<le> 2 ^ 36 - 32" using assms(4) by simp
  have p: "gcm_ciphertext E iv (concat cs) = p" unfolding assms(5) by (rule gcm_ciphertext_involutive [OF assms(1)])
  have cmp: "length tag \<le> 16 \<and> CRYPTO_memcmp ?T tag (length tag) = 0 \<longleftrightarrow> length tag \<le> 16 \<and> tag = take (length tag) ?T"
    using CRYPTO_memcmp_zero [of "length tag" ?T tag] T by auto
  show ?thesis
  proof (rule gcm_session [OF f assms(3) lim, where enc = False])
    fix ctx1 ctx2 ys
    assume s: "gcm_aads ?s ads = (True, ctx1)" "gcm_calls (gcm_call False) ctx1 cs = (Some ys, ctx2)" "ys = gcm_ciphertext E iv (concat cs)"
      "\<And>tag k. fst (CRYPTO_gcm128_finish ctx2 tag k) \<longleftrightarrow> (case tag of None \<Rightarrow> False | Some t \<Rightarrow> k \<le> 16 \<and>
        CRYPTO_memcmp (gcm_auth_tag E iv (concat ads) (if False then ys else concat cs)) t k = 0)"
    show ?thesis using s(1-3) s(4) [of "Some tag" "length tag"] s(4) [of None n] cmp p by (simp add: gcm_call_eq)
  qed
qed

lemma gcm_decrypt_authenticates_witness:
  "case gcm_aads (CRYPTO_gcm128_setiv (CRYPTO_gcm128_init rev False) (replicate 12 3)) [] of (r, ctx) \<Rightarrow> r \<and>
    (case gcm_calls CRYPTO_gcm128_decrypt ctx [gcm_ciphertext rev (replicate 12 3) [1, 2]] of (out, ctx) \<Rightarrow> out = Some [1, 2] \<and>
      fst (CRYPTO_gcm128_finish ctx (Some (gcm_auth_tag rev (replicate 12 3) [] (gcm_ciphertext rev (replicate 12 3) [1, 2]))) 16))"
proof -
  let ?c = "gcm_ciphertext rev (replicate 12 3) [1, 2]"
  let ?t = "gcm_auth_tag rev (replicate 12 3) [] ?c"
  have E: "block_fun rev" by (simp add: block_fun_def)
  have "length (gcm_J0 rev (replicate 12 3)) = 16" by (simp add: gcm_J0_def)
  then have "length ?t = 16" by (simp add: gcm_auth_tag_def)
  then show ?thesis
    using gcm_decrypt_authenticates [OF E, where iv = "replicate 12 3" and ads = "[]" and p = "[1, 2]" and cs = "[?c]" and b = False and tag = ?t and n = 0] by (auto split: prod.splits)
qed

text \<open>C12.
  With a function that does whole blocks in counter mode, counting in 32 bits that may wrap, a call gives the same output and leaves the same
  context, up to the key stream of a block that is used up.
\<close>

theorem gcm_ctr32_equals_gcm:
  assumes "gcm_ok ctx" and "gcm_table (g_Htable ctx) H" and "ctr32_wrapping_fun (g_block ctx) stream"
  shows "gcm_agrees (CRYPTO_gcm128_encrypt_ctr32 ctx inp stream) (CRYPTO_gcm128_encrypt ctx inp) \<and>
    gcm_agrees (CRYPTO_gcm128_decrypt_ctr32 ctx inp stream) (CRYPTO_gcm128_decrypt ctx inp)"
  using gcm_call_ctr32_agrees [OF assms, where enc = True and inp = inp] gcm_call_ctr32_agrees [OF assms, where enc = False and inp = inp]
  by (simp add: gcm_call_eq gcm_call_ctr32_eq)

definition ctr32_wrapping_of :: "(bytes \<Rightarrow> bytes) \<Rightarrow> ctr128_f" where
  "ctr32_wrapping_of E inp n iv =
     concat (map (\<lambda>i. xor_bytes (take 16 (drop (16 * i) inp)) (E (take 12 iv @ be_bytes 4 (low32 iv + i)))) [0..<n])"

lemma gcm_ctr32_equals_gcm_witness:
  "let ctx = CRYPTO_gcm128_setiv (CRYPTO_gcm128_init rev False) (replicate 12 3) in
   fst (CRYPTO_gcm128_encrypt_ctr32 ctx (replicate 40 7) (ctr32_wrapping_of rev)) = fst (CRYPTO_gcm128_encrypt ctx (replicate 40 7))"
proof -
  let ?ctx = "CRYPTO_gcm128_setiv (CRYPTO_gcm128_init rev False) (replicate 12 3)"
  have "block_fun rev" by (simp add: block_fun_def)
  then have "gcm_fresh rev (replicate 12 3) ?ctx" using gcm128_init_ok [of rev False] by (intro gcm128_setiv_fresh) simp_all
  then have c: "gcm_ok ?ctx" "gcm_table (g_Htable ?ctx) (gcm_subkey rev)" "ctr32_wrapping_fun (g_block ?ctx) (ctr32_wrapping_of rev)"
    by (simp_all add: gcm_fresh_def ctr32_wrapping_fun_def ctr32_wrapping_of_def)
  from gcm_ctr32_equals_gcm [OF c, where inp = "replicate 40 7"] show ?thesis by (simp add: gcm_agrees_def)
qed

end
