(* ===== verification/Polyval.thy ===== *)
theory Polyval
  imports Ghash ConstTime
begin

text \<open>
  \<^verbatim>\<open>fipsmodule/modes/polyval.c\<close>: the hash of AES-GCM-SIV, computed with the functions of GHASH on reversed blocks.  The specification is that of
  RFC 8452 (section 3) in the field of POLYVAL itself, in which a block is read as a little-endian number whose bit \<open>i\<close> is the coefficient of
  \<open>x^i\<close>.
\<close>

section \<open>The code\<close>

record polyval_ctx =
  pv_S :: bytes
  pv_H :: u128
  pv_Htable :: "u128 list"
  pv_gmult :: gmult_func
  pv_ghash :: ghash_func

definition byte_reverse :: "bytes \<Rightarrow> bytes" where
  "byte_reverse b =
     (let t = CRYPTO_bswap8 (load_word_le b 0);
          b = store_word_le b 0 (CRYPTO_bswap8 (load_word_le b 8))
      in store_word_le b 8 t)"

definition reverse_and_mulX_ghash :: "bytes \<Rightarrow> bytes" where
  "reverse_and_mulX_ghash b =
     (let hi = load_word_le b 0;
          lo = load_word_le b 8;
          carry = constant_time_eq_w (hi AND 1) 1;
          hi = drop_bit 1 hi;
          hi = hi OR push_bit 63 lo;
          lo = drop_bit 1 lo;
          lo = lo XOR push_bit 56 (constant_time_select_w carry 0xe1 0);
          b = store_word_le b 0 (CRYPTO_bswap8 lo)
      in store_word_le b 8 (CRYPTO_bswap8 hi))"

text \<open>The structure is not initialised before, which is the argument \<open>ctx\<close>.\<close>

definition CRYPTO_POLYVAL_init :: "polyval_ctx \<Rightarrow> bytes \<Rightarrow> polyval_ctx" where
  "CRYPTO_POLYVAL_init ctx key =
     (let H = reverse_and_mulX_ghash key;
          (gmult, ghash, K, Htable, is_avx) = CRYPTO_ghash_init (pv_Htable ctx) H
      in \<lparr>pv_S = replicate 16 0, pv_H = K, pv_Htable = Htable, pv_gmult = gmult, pv_ghash = ghash\<rparr>)"

definition reverse_blocks :: "bytes \<Rightarrow> nat \<Rightarrow> bytes" where
  "reverse_blocks reversed n =
     fold (\<lambda>i r. mem_write r (16 * i) (byte_reverse (take 16 (drop (16 * i) r)))) [0..<n] reversed"

function CRYPTO_POLYVAL_update_blocks :: "polyval_ctx \<Rightarrow> bytes \<Rightarrow> polyval_ctx" where
  "CRYPTO_POLYVAL_update_blocks ctx inp =
     (if inp = [] then ctx
      else
        let todo = (if 512 < length inp then 512 else length inp);
            reversed = take todo inp;
            inp = drop todo inp;
            n = todo div 16;
            reversed = reverse_blocks reversed n;
            ctx = ctx\<lparr>pv_S := pv_ghash ctx (pv_S ctx) (pv_Htable ctx) reversed\<rparr>
        in CRYPTO_POLYVAL_update_blocks ctx inp)"
  by auto
termination by (relation "measure (\<lambda>(ctx, inp). length inp)") (auto simp: Let_def)

declare CRYPTO_POLYVAL_update_blocks.simps [simp del]

definition CRYPTO_POLYVAL_finish :: "polyval_ctx \<Rightarrow> bytes" where
  "CRYPTO_POLYVAL_finish ctx = byte_reverse (pv_S ctx)"

section \<open>The field of POLYVAL\<close>

text \<open>Multiplication and division by \<open>x\<close> modulo \<open>x^128 + x^127 + x^126 + x^121 + 1\<close>; the product; and \<open>dot\<close>, the product divided by \<open>x^128\<close>.\<close>

definition pv_mulx :: "128 word \<Rightarrow> 128 word" where
  "pv_mulx w = push_bit 1 w XOR (if bit w 127 then push_bit 120 0xc2 XOR 1 else 0)"

definition pv_divx :: "128 word \<Rightarrow> 128 word" where
  "pv_divx w = drop_bit 1 w XOR (if bit w 0 then push_bit 120 0xe1 else 0)"

definition pv_mult :: "128 word \<Rightarrow> 128 word \<Rightarrow> 128 word" where
  "pv_mult a b = fold (\<lambda>i s. s XOR (if bit a i then (pv_mulx ^^ i) b else 0)) [0..<128] 0"

definition pv_dot :: "128 word \<Rightarrow> 128 word \<Rightarrow> 128 word" where
  "pv_dot a b = (pv_divx ^^ 128) (pv_mult a b)"

definition le_word :: "bytes \<Rightarrow> 128 word" where
  "le_word b = of_nat (le_nat b)"

definition polyval :: "bytes \<Rightarrow> bytes list \<Rightarrow> bytes" where
  "polyval H bs = le_bytes 16 (unat (fold (\<lambda>b S. pv_dot (S XOR le_word b) (le_word H)) bs 0))"

lemma drop_push_bit: "drop_bit 1 (push_bit 1 w) = w XOR (if bit w 127 then push_bit 127 1 else 0)" for w :: "128 word"
proof (rule bit_eqI)
  fix j
  assume "possible_bit TYPE(128 word) j"
  then have j: "j < 128" by simp
  have "bit (push_bit 127 (1 :: 128 word)) j \<longleftrightarrow> j = 127"
    using j by (auto simp only: bit_push_bit_iff bit_1_iff) simp_all
  then show "bit (drop_bit 1 (push_bit 1 w)) j = bit (w XOR (if bit w 127 then push_bit 127 1 else 0)) j"
    using j by (cases "j = 127"; cases "bit w 127") (simp_all only: bit_drop_bit_eq bit_push_bit_iff comp_def bit_xor_iff if_True if_False, simp_all)
qed

lemma pv_divx_xor: "pv_divx (v XOR w) = pv_divx v XOR pv_divx w"
  by (cases "bit v 0"; cases "bit w 0") (simp_all add: pv_divx_def drop_bit_xor bit_xor_iff ac_simps)

lemma pv_divx_mulx [simp]: "pv_divx (pv_mulx w) = w"
proof -
  have "\<not> bit (push_bit 1 w) 0" by (simp only: bit_push_bit_iff) simp
  then have "pv_divx (push_bit 1 w) = w XOR (if bit w 127 then push_bit 127 1 else 0)"
    unfolding pv_divx_def drop_push_bit by (simp only: if_False xor.right_neutral)
  moreover have "pv_divx (push_bit 120 0xc2 XOR 1) = push_bit 127 1" by (simp add: pv_divx_def)
  moreover have "pv_divx 0 = 0" by (simp add: pv_divx_def)
  ultimately show ?thesis
    unfolding pv_mulx_def pv_divx_xor [of "push_bit 1 w"]
    by (cases "bit w 127") (simp_all only: if_True if_False xor.assoc xor_self_eq xor.right_neutral)
qed

lemma pv_divx_pow: "i \<le> n \<Longrightarrow> (pv_divx ^^ n) ((pv_mulx ^^ i) w) = (pv_divx ^^ (n - i)) w"
proof (induction i arbitrary: n)
  case (Suc i)
  then obtain m where n: "n = Suc m" by (cases n) auto
  have "(pv_divx ^^ n) ((pv_mulx ^^ Suc i) w) = (pv_divx ^^ m) ((pv_mulx ^^ i) w)" unfolding n funpow_Suc_right [of m] by simp
  then show ?case using Suc n by simp
qed simp

text \<open>The product in POLYVAL's field is that of GHASH with one factor multiplied by \<open>x\<close> in the other bit order.\<close>

lemma pv_divx_eq_mulx: "pv_divx = mulx"
  by (rule ext) (simp add: pv_divx_def mulx_def gf_R_def)

lemma pv_dot_horner: "pv_dot a b = gf_bits (map (\<lambda>i. bit a (127 - i)) [0..<128]) (mulx b)"
proof -
  let ?s = "\<lambda>n. fold (\<lambda>i s. s XOR (if bit a i then (pv_mulx ^^ i) b else 0)) [0..<n] 0"
  have "(mulx ^^ 128) (?s n) = (mulx ^^ (128 - n)) (gf_bits (map (\<lambda>i. bit a (n - 1 - i)) [0..<n]) (mulx b))" if "n \<le> 128" for n
    using that
  proof (induction n)
    case (Suc n)
    let ?g = "\<lambda>n. gf_bits (map (\<lambda>i. bit a (n - 1 - i)) [0..<n]) (mulx b)"
    have "map (\<lambda>i. bit a (Suc n - 1 - i)) [0..<Suc n] = bit a n # map (\<lambda>i. bit a (n - 1 - i)) [0..<n]"
      by (rule nth_equalityI) (auto simp: nth_Cons' simp del: upt_Suc)
    then have g: "?g (Suc n) = (if bit a n then mulx b else 0) XOR mulx (?g n)" by simp
    have e: "128 - n = Suc (128 - Suc n)" using Suc.prems by simp
    have "(mulx ^^ 128) ((pv_mulx ^^ n) b) = (mulx ^^ (128 - n)) b"
      using pv_divx_pow [of n 128 b] Suc.prems by (simp add: pv_divx_eq_mulx)
    then have m: "(mulx ^^ 128) (if bit a n then (pv_mulx ^^ n) b else 0) = (mulx ^^ (128 - Suc n)) (if bit a n then mulx b else 0)"
      by (simp add: e funpow_swap1)
    have "(mulx ^^ 128) (?s (Suc n)) = (mulx ^^ 128) (?s n) XOR (mulx ^^ 128) (if bit a n then (pv_mulx ^^ n) b else 0)"
      by (simp add: mulx_pow_xor)
    then show ?case using Suc.IH Suc.prems unfolding m g mulx_pow_xor by (simp add: e funpow_swap1 xor.commute)
  qed simp
  from this [of 128] show ?thesis by (simp add: pv_dot_def pv_mult_def pv_divx_eq_mulx)
qed

lemma pv_dot_gf_mult: "pv_dot a b = gf_mult a (mulx b)"
  by (simp only: pv_dot_horner gf_mult_bits)

section \<open>What the functions compute\<close>

lemma le_word_block: "le_word b = block_word (rev b)"
  by (simp add: le_word_def block_word_def be_nat_rev)

lemma byte_reverse_rev:
  assumes "length b = 16"
  shows "byte_reverse b = rev b"
proof -
  have "le_bytes 8 (unat (CRYPTO_bswap8 (of_nat (le_nat c)))) = rev c" if "length c = 8" for c
    using that le_bytes_le_nat [of "rev c"] be_bytes_be_nat [of "rev c"]
    by (simp add: bswap8_stored le_word_bytes be_nat_rev)
  from this [of "take 8 b"] this [of "drop 8 b"] assms
  have "byte_reverse b = rev (drop 8 b) @ rev (take 8 b)"
    by (simp add: byte_reverse_def Let_def load_word_le_def store_word_le_def mem_write_def)
  then show ?thesis by (simp flip: rev_append)
qed

lemma reverse_and_mulX_eq:
  assumes "length b = 16"
  shows "reverse_and_mulX_ghash b = word_block (mulx (le_word b))"
proof -
  let ?V = "\<lparr>u_hi = load_word_le b 8, u_lo = load_word_le b 0\<rparr>"
  have c: "push_bit 56 (constant_time_select_w (constant_time_eq_w (w AND 1) 1) 0xe1 0) = 0xe100000000000000 AND (0 - (w AND 1))" for w :: u64
    by (simp add: and_one_eq constant_time_eq_w_eq constant_time_select_w_eq mod2_eq_if)
  have "reverse_and_mulX_ghash b = store_u128 b (REDUCE1BIT ?V)"
    by (simp add: reverse_and_mulX_ghash_def store_u128_def REDUCE1BIT_def Let_def c or.commute)
  also have "\<dots> = word_block (mulx (u128_word ?V))" by (simp add: store_u128_word assms u128_word_REDUCE1BIT)
  also have "u128_word ?V = block_word (rev b)"
  proof -
    have "load_word_le b 8 = CRYPTO_bswap8 (load_word_le (rev b) 0)" "load_word_le b 0 = CRYPTO_bswap8 (load_word_le (rev b) 8)"
      using assms by (simp_all add: load_word_le_def bswap8_loaded be_nat_rev rev_take rev_drop)
    then show ?thesis using u128_word_loaded [of "rev b"] assms by (simp only: length_rev)
  qed
  finally show ?thesis by (simp add: le_word_block)
qed

lemma reverse_blocks_eq:
  assumes "length r = 16 * n"
  shows "reverse_blocks r n = concat (map rev (blocks 16 r))"
proof -
  have "fold (\<lambda>i r. mem_write r (16 * i) (byte_reverse (take 16 (drop (16 * i) r)))) [0..<k] r =
      concat (map rev (blocks 16 (take (16 * k) r))) @ drop (16 * k) r" if "k \<le> n" for k
    using that
  proof (induction k)
    case (Suc k)
    let ?c = "concat (map rev (blocks 16 (take (16 * k) r)))" and ?b = "take 16 (drop (16 * k) r)"
    have l: "length ?b = 16" "length (take (16 * k) r) = 16 * k" using Suc.prems assms by simp_all
    have t: "take (16 * Suc k) r = take (16 * k) r @ ?b" using take_add [of "16 * k" 16 r] by (simp add: add.commute)
    have "leftover 16 (take (16 * k) r) = []" using l(2) by (simp add: leftover_def)
    then have bs: "blocks 16 (take (16 * Suc k) r) = blocks 16 (take (16 * k) r) @ [?b]"
      unfolding t using blocks_append(1) [of 16 "take (16 * k) r" ?b] l by (simp add: blocks_step [of 16 ?b])
    have "length ?c = 16 * k"
    proof -
      have "length (concat (map rev bs)) = length (concat bs)" for bs :: "bytes list" by (induction bs) simp_all
      moreover have "concat (blocks 16 (take (16 * k) r)) = take (16 * k) r"
        using blocks_leftover [of 16 "take (16 * k) r"] \<open>leftover 16 (take (16 * k) r) = []\<close> by simp
      ultimately show ?thesis using l(2) by simp
    qed
    then show ?case using Suc l byte_reverse_rev [OF l(1)] unfolding bs
      by (simp add: mem_write_def add.commute)
  qed simp
  from this [of n] assms show ?thesis by (simp add: reverse_blocks_def)
qed

lemma blocks_concat: "(\<And>b. b \<in> set bs \<Longrightarrow> length b = n) \<Longrightarrow> 0 < n \<Longrightarrow> blocks n (concat bs) = bs"
  by (induction bs) (simp_all add: blocks_step)

lemma blocks_rev_blocks: "blocks 16 (concat (map rev (blocks 16 r))) = map rev (blocks 16 r)"
  by (rule blocks_concat) (auto dest: length_blocks)

text \<open>The state of a context: a table for the key, the function of the portable build, and the sum so far.\<close>

definition polyval_sum :: "bytes \<Rightarrow> 128 word \<Rightarrow> bytes list \<Rightarrow> 128 word" where
  "polyval_sum H S bs = fold (\<lambda>b S. pv_dot (S XOR le_word b) (le_word H)) bs S"

definition polyval_state :: "bytes \<Rightarrow> 128 word \<Rightarrow> polyval_ctx \<Rightarrow> bool" where
  "polyval_state H S ctx \<longleftrightarrow> gcm_table (pv_Htable ctx) (mulx (le_word H)) \<and> pv_ghash ctx = gcm_ghash_4bit \<and> pv_S ctx = word_block S"

lemma ghash_rev_blocks: "ghash (mulx (le_word H)) S (map rev bs) = polyval_sum H S bs"
  by (induction bs arbitrary: S) (simp_all add: polyval_sum_def pv_dot_gf_mult le_word_block)

lemma polyval_init_state:
  assumes "length key = 16" and "length (pv_Htable ctx) = 16"
  shows "polyval_state key 0 (CRYPTO_POLYVAL_init ctx key)"
proof -
  let ?K = "reverse_and_mulX_ghash key"
  have K: "?K = word_block (mulx (le_word key))" by (rule reverse_and_mulX_eq [OF assms(1)])
  then have b: "length ?K = 16" "block_word ?K = mulx (le_word key)" by simp_all
  note T = gcm_table_init [OF assms(2), of "CRYPTO_bswap8 (load_word_le ?K 0)" "CRYPTO_bswap8 (load_word_le ?K 8)",
      unfolded u128_word_loaded [OF b(1)] b(2)]
  have "be_bytes n 0 = replicate n 0" for n by (induction n) (simp_all add: replicate_append_same)
  then have "word_block 0 = replicate 16 0" by (simp add: word_block_def)
  then show ?thesis
    using T by (simp add: polyval_state_def CRYPTO_POLYVAL_init_def CRYPTO_ghash_init_def Let_def)
qed

lemma polyval_update_state:
  assumes "polyval_state H S ctx" and "16 dvd length inp"
  shows "polyval_state H (polyval_sum H S (blocks 16 inp)) (CRYPTO_POLYVAL_update_blocks ctx inp)"
  using assms
proof (induction "length inp" arbitrary: S ctx inp rule: less_induct)
  case less
  show ?case
  proof (cases "inp = []")
    case True
    then show ?thesis using less.prems by (subst CRYPTO_POLYVAL_update_blocks.simps) (simp add: polyval_sum_def)
  next
    case False
    define todo where "todo = (if 512 < length inp then 512 else length inp)"
    define k where "k = todo div 16"
    let ?r = "take todo inp"
    let ?ctx = "ctx\<lparr>pv_S := word_block (polyval_sum H S (blocks 16 ?r))\<rparr>"
    have "16 \<le> length inp" using False less.prems(2) by (simp add: dvd_imp_le)
    then have "16 \<le> todo" by (simp add: todo_def)
    then have todo: "todo \<le> length inp" "todo = 16 * k" "0 < k" using less.prems(2) by (auto simp: todo_def k_def)
    then have r: "length ?r = 16 * k" by simp
    then have "leftover 16 ?r = []" by (simp add: leftover_def)
    then have b: "blocks 16 inp = blocks 16 ?r @ blocks 16 (drop todo inp)"
      using blocks_append(1) [of 16 ?r "drop todo inp"] by simp
    have rb: "reverse_blocks ?r k = concat (map rev (blocks 16 ?r))" by (rule reverse_blocks_eq [OF r])
    then have l: "length (reverse_blocks ?r k) = 16 * k"
    proof -
      have "length (concat (map rev bs)) = length (concat bs)" for bs :: "bytes list" by (induction bs) simp_all
      then show ?thesis using rb r blocks_leftover [of 16 ?r] \<open>leftover 16 ?r = []\<close> by simp
    qed
    have T: "gcm_table (pv_Htable ctx) (mulx (le_word H))" "pv_ghash ctx = gcm_ghash_4bit" "pv_S ctx = word_block S"
      using less.prems(1) by (simp_all add: polyval_state_def)
    have h: "pv_ghash ctx (pv_S ctx) (pv_Htable ctx) (reverse_blocks ?r k) = word_block (polyval_sum H S (blocks 16 ?r))"
      using gcm_ghash_4bit_word [OF T(1) _ l todo(3)] by (simp add: T(2,3) rb blocks_rev_blocks ghash_rev_blocks)
    have u: "CRYPTO_POLYVAL_update_blocks ctx inp = CRYPTO_POLYVAL_update_blocks ?ctx (drop todo inp)"
      using False by (subst CRYPTO_POLYVAL_update_blocks.simps) (simp add: Let_def h flip: todo_def k_def)
    have "polyval_state H (polyval_sum H S (blocks 16 ?r)) ?ctx" using T by (simp add: polyval_state_def)
    moreover have "16 dvd length (drop todo inp)" using less.prems(2) todo(2) by (simp add: dvd_diff_nat)
    moreover have "length (drop todo inp) < length inp" using todo by simp
    ultimately have "polyval_state H (polyval_sum H (polyval_sum H S (blocks 16 ?r)) (blocks 16 (drop todo inp)))
        (CRYPTO_POLYVAL_update_blocks ?ctx (drop todo inp))"
      by (intro less.hyps)
    then show ?thesis unfolding u b by (simp add: polyval_sum_def)
  qed
qed

lemma polyval_updates_state:
  assumes "polyval_state H S ctx" and "\<forall>x \<in> set xs. 16 dvd length x"
  shows "polyval_state H (polyval_sum H S (blocks 16 (concat xs))) (fold (\<lambda>x ctx. CRYPTO_POLYVAL_update_blocks ctx x) xs ctx)"
  using assms
proof (induction xs arbitrary: S ctx)
  case (Cons x xs)
  have "leftover 16 x = []" using Cons.prems(2) length_leftover [of 16 x] by (auto dest: dvd_imp_mod_0)
  then have "blocks 16 (concat (x # xs)) = blocks 16 x @ blocks 16 (concat xs)" using blocks_append(1) [of 16 x "concat xs"] by simp
  moreover have "polyval_state H (polyval_sum H S (blocks 16 x)) (CRYPTO_POLYVAL_update_blocks ctx x)"
    using Cons.prems by (intro polyval_update_state) simp_all
  ultimately show ?case using Cons.IH Cons.prems(2) by (simp add: polyval_sum_def)
qed (simp add: polyval_sum_def)

section \<open>Property\<close>

text \<open>C22.
  POLYVAL over GHASH: for every key and however whole blocks are cut into calls, \<^verbatim>\<open>CRYPTO_POLYVAL_finish\<close> gives the hash that RFC 8452 defines
  by arithmetic in another field with another bit order.
\<close>

theorem polyval_is_rfc8452:
  assumes "length key = 16" and "length (pv_Htable ctx) = 16" and "\<forall>x \<in> set xs. 16 dvd length x"
  shows "CRYPTO_POLYVAL_finish (fold (\<lambda>x ctx. CRYPTO_POLYVAL_update_blocks ctx x) xs (CRYPTO_POLYVAL_init ctx key)) =
    polyval key (blocks 16 (concat xs))"
proof -
  from polyval_updates_state [OF polyval_init_state [OF assms(1,2)] assms(3)]
  have "pv_S (fold (\<lambda>x ctx. CRYPTO_POLYVAL_update_blocks ctx x) xs (CRYPTO_POLYVAL_init ctx key)) =
      word_block (polyval_sum key 0 (blocks 16 (concat xs)))"
    by (simp add: polyval_state_def)
  moreover have "rev (be_bytes n v) = le_bytes n v" for n v by (induction n arbitrary: v) simp_all
  ultimately show ?thesis
    by (simp add: CRYPTO_POLYVAL_finish_def byte_reverse_rev polyval_def polyval_sum_def word_block_def)
qed

lemma polyval_is_rfc8452_witness:
  "CRYPTO_POLYVAL_finish (fold (\<lambda>x ctx. CRYPTO_POLYVAL_update_blocks ctx x) [replicate 32 7, replicate 16 1]
     (CRYPTO_POLYVAL_init \<lparr>pv_S = [], pv_H = \<lparr>u_hi = 0, u_lo = 0\<rparr>, pv_Htable = replicate 16 \<lparr>u_hi = 0, u_lo = 0\<rparr>,
        pv_gmult = gcm_gmult_4bit, pv_ghash = gcm_ghash_4bit\<rparr> (replicate 16 3))) =
   polyval (replicate 16 3) (blocks 16 (replicate 32 7 @ replicate 16 1))"
  by (subst polyval_is_rfc8452) simp_all

end
