(* ===== verification/Md32.thy ===== *)
theory Md32
  imports BlockWords
begin

text \<open>
  \<^verbatim>\<open>fipsmodule/digest/md32_common.h\<close>, the collector that MD4, MD5, SHA-1 and SHA-256 share: it keeps what does not fill a block of 64 bytes,
  counts the bits, and pads the end.  The macros a hash function defines before it includes the file are parameters here: the byte order,
  the block function, and \<^verbatim>\<open>HASH_MAKE_STRING\<close>.  The first part is about any collector (SHA-512 has its own): \<open>absorbed\<close> relates
  what the hash function has seen to the input so far.
\<close>

section \<open>Collecting blocks\<close>

text \<open>The hash state \<open>h\<close> has taken in the full blocks of \<open>xs\<close>, and the buffer of \<open>n\<close> bytes starts with the rest, \<open>num\<close> bytes.\<close>

definition absorbed :: "('h \<Rightarrow> bytes \<Rightarrow> 'h) \<Rightarrow> nat \<Rightarrow> 'h \<Rightarrow> bytes \<Rightarrow> 'h \<Rightarrow> bytes \<Rightarrow> nat \<Rightarrow> bool" where
  "absorbed f n h0 xs h buf num \<longleftrightarrow>
     h = foldl f h0 (blocks n xs) \<and> num = length xs mod n \<and> take num buf = leftover n xs \<and> length buf = n"

lemma absorbed_start: "length buf = n \<Longrightarrow> 0 < n \<Longrightarrow> absorbed f n h0 [] h0 buf 0"
  by (simp add: absorbed_def)

lemma absorbed_num: "0 < n \<Longrightarrow> absorbed f n h0 xs h buf num \<Longrightarrow> num < n"
  by (simp add: absorbed_def)

lemma absorbed_keep:
  assumes "0 < n" and "absorbed f n h0 xs h buf num" and "num + length ys < n"
  shows "absorbed f n h0 (xs @ ys) h (mem_write buf num ys) (num + length ys)"
proof -
  have l: "length (leftover n xs) = num" "take num buf = leftover n xs"
    using assms(1,2) by (auto simp: absorbed_def length_leftover)
  have "length (xs @ ys) mod n = num + length ys"
    using assms by (simp add: absorbed_def mod_add_left_eq [of "length xs", symmetric])
  then show ?thesis
    using assms l blocks_append [OF assms(1), of xs ys] by (simp add: absorbed_def mem_write_def)
qed

lemma absorbed_fill:
  assumes "0 < n" and "absorbed f n h0 xs h buf num" and "length ys = n - num" and "length buf' = n"
  shows "absorbed f n h0 (xs @ ys) (f h (mem_write buf num ys)) buf' 0"
proof -
  have num: "num < n" by (rule absorbed_num [OF assms(1,2)])
  have l: "length (leftover n xs) = num" "take num buf = leftover n xs" "num = length xs mod n"
    using assms(1,2) by (auto simp: absorbed_def length_leftover)
  then have b: "mem_write buf num ys = leftover n xs @ ys" using assms(2,3) num by (simp add: mem_write_def absorbed_def)
  have f: "length (leftover n xs @ ys) = n" using l assms(3) num by simp
  then have "blocks n (leftover n xs @ ys) = [leftover n xs @ ys]" "leftover n (leftover n xs @ ys) = []"
    using assms(1) by (simp_all add: blocks_step leftover_step)
  moreover have "length (xs @ ys) mod n = 0"
    using length_leftover [OF assms(1), of "xs @ ys"] blocks_append(2) [OF assms(1), of xs ys] calculation(2) by simp
  ultimately show ?thesis using assms blocks_append [OF assms(1), of xs ys] b by (simp add: absorbed_def)
qed

lemma absorbed_blocks:
  assumes "0 < n" and "absorbed f n h0 xs h buf 0"
  shows "absorbed f n h0 (xs @ take (length ys div n * n) ys) (foldl f h (blocks n (take (length ys div n * n) ys))) buf 0"
proof -
  let ?ys = "take (length ys div n * n) ys"
  have "leftover n xs = []" using assms by (simp add: absorbed_def)
  moreover have "length ?ys = length ys div n * n" by simp
  then have "leftover n ?ys = []" using assms(1) by (simp add: leftover_def)
  moreover have "(length xs + length ?ys) mod n = 0" using assms by (simp add: absorbed_def mod_add_eq [symmetric])
  ultimately show ?thesis using assms blocks_append [OF assms(1), of xs ?ys] by (simp add: absorbed_def)
qed

section \<open>The code\<close>

record md32_ctx =
  md_h :: "u32 list"
  md_Nl :: u32
  md_Nh :: u32
  md_data :: bytes
  md_num :: nat

text \<open>The byte order: \<open>big\<close> says which.\<close>

definition HOST_c2l :: "bool \<Rightarrow> bytes \<Rightarrow> u32" where
  "HOST_c2l big c =
     (if big then push_bit 24 (ucast (c ! 0)) OR push_bit 16 (ucast (c ! 1)) OR push_bit 8 (ucast (c ! 2)) OR ucast (c ! 3)
      else ucast (c ! 0) OR push_bit 8 (ucast (c ! 1)) OR push_bit 16 (ucast (c ! 2)) OR push_bit 24 (ucast (c ! 3)))"

definition HOST_l2c :: "bool \<Rightarrow> u32 \<Rightarrow> bytes" where
  "HOST_l2c big l =
     (if big then [ucast (drop_bit 24 l AND 0xff), ucast (drop_bit 16 l AND 0xff), ucast (drop_bit 8 l AND 0xff), ucast (l AND 0xff)]
      else [ucast (l AND 0xff), ucast (drop_bit 8 l AND 0xff), ucast (drop_bit 16 l AND 0xff), ucast (drop_bit 24 l AND 0xff)])"

text \<open>
  A block function takes the state, the data and the number of blocks in it.  After the buffer has been filled or found empty, \<open>hash_rest\<close>
  takes in whole blocks from the input and keeps the rest.
\<close>

type_synonym block_fn = "u32 list \<Rightarrow> bytes \<Rightarrow> nat \<Rightarrow> u32 list"

definition hash_rest :: "block_fn \<Rightarrow> 'a md32_ctx_scheme \<Rightarrow> bytes \<Rightarrow> 'a md32_ctx_scheme" where
  "hash_rest block c data =
     (let n = length data div 64;
          (c, data) = (if n > 0 then (c\<lparr>md_h := block (md_h c) data n\<rparr>, drop (n * 64) data) else (c, data))
      in if data \<noteq> [] then c\<lparr>md_num := length data, md_data := mem_write (md_data c) 0 data\<rparr> else c)"

definition HASH_UPDATE :: "block_fn \<Rightarrow> 'a md32_ctx_scheme \<Rightarrow> bytes \<Rightarrow> 'a md32_ctx_scheme" where
  "HASH_UPDATE block c data =
     (let len = length data
      in if len = 0 then c
         else
           let l = md_Nl c + push_bit 3 (of_nat len);
               c = (if l < md_Nl c then c\<lparr>md_Nh := md_Nh c + 1\<rparr> else c);
               c = c\<lparr>md_Nh := md_Nh c + of_nat (drop_bit 29 len)\<rparr>;
               c = c\<lparr>md_Nl := l\<rparr>;
               n = md_num c
           in if n \<noteq> 0 then
                if len \<ge> 64 \<or> len + n \<ge> 64 then
                  let c = c\<lparr>md_data := mem_write (md_data c) n (take (64 - n) data)\<rparr>;
                      c = c\<lparr>md_h := block (md_h c) (md_data c) 1\<rparr>;
                      data = drop (64 - n) data;
                      c = c\<lparr>md_num := 0, md_data := replicate 64 0\<rparr>
                  in hash_rest block c data
                else c\<lparr>md_data := mem_write (md_data c) n data, md_num := md_num c + len\<rparr>
              else hash_rest block c data)"

definition HASH_TRANSFORM :: "block_fn \<Rightarrow> 'a md32_ctx_scheme \<Rightarrow> bytes \<Rightarrow> 'a md32_ctx_scheme" where
  "HASH_TRANSFORM block c data = c\<lparr>md_h := block (md_h c) data 1\<rparr>"

text \<open>The padding, up to the block function's last call; \<open>HASH_MAKE_STRING\<close> may refuse.\<close>

definition hash_pad :: "bool \<Rightarrow> block_fn \<Rightarrow> 'a md32_ctx_scheme \<Rightarrow> 'a md32_ctx_scheme" where
  "hash_pad big block c =
     (let n = md_num c;
          c = c\<lparr>md_data := (md_data c)[n := 0x80]\<rparr>;
          n = n + 1;
          (c, n) = (if n > 64 - 8 then
                      let c = c\<lparr>md_data := mem_write (md_data c) n (replicate (64 - n) 0)\<rparr>
                      in (c\<lparr>md_h := block (md_h c) (md_data c) 1\<rparr>, 0)
                    else (c, n));
          c = c\<lparr>md_data := mem_write (md_data c) n (replicate (64 - 8 - n) 0)\<rparr>;
          p = 64 - 8;
          c = c\<lparr>md_data := mem_write (md_data c) p (HOST_l2c big (if big then md_Nh c else md_Nl c))\<rparr>;
          p = p + 4;
          c = c\<lparr>md_data := mem_write (md_data c) p (HOST_l2c big (if big then md_Nl c else md_Nh c))\<rparr>
      in c\<lparr>md_h := block (md_h c) (md_data c) 1\<rparr>)"

definition HASH_FINAL :: "bool \<Rightarrow> block_fn \<Rightarrow> ('a md32_ctx_scheme \<Rightarrow> bytes option) \<Rightarrow> 'a md32_ctx_scheme \<Rightarrow> bytes option \<times> 'a md32_ctx_scheme" where
  "HASH_FINAL big block make_string c =
     (let c = hash_pad big block c;
          c = c\<lparr>md_num := 0, md_data := replicate 64 0\<rparr>
      in (make_string c, c))"

section \<open>Byte order\<close>

definition hash_word :: "bool \<Rightarrow> bytes \<Rightarrow> u32" where
  "hash_word big bs = of_nat (if big then be_nat bs else le_nat bs)"

definition hash_bytes :: "bool \<Rightarrow> nat \<Rightarrow> nat \<Rightarrow> bytes" where
  "hash_bytes big n v = (if big then be_bytes n v else le_bytes n v)"

lemma length_hash_bytes [simp]: "length (hash_bytes big n v) = n"
  by (simp add: hash_bytes_def)

lemma HOST_l2c_eq: "HOST_l2c big l = hash_bytes big 4 (unat l)"
proof -
  have "ucast (drop_bit k l AND 0xff) = (of_nat (unat l div 2 ^ k) :: u8)" for k
  proof -
    have m: "(0xff :: u32) = mask 8" by (simp add: mask_eq_exp_minus_1)
    have "unat (drop_bit k l AND 0xff) = unat l div 2 ^ k mod 256" unfolding m unat_and_mask unat_drop_bit_div by simp
    then show ?thesis by (simp add: ucast_byte_unat word_unat_eq_iff unat_of_nat)
  qed
  from this [of 0] this [of 8] this [of 16] this [of 24]
  have b: "ucast (l AND 0xff) = (of_nat (unat l) :: u8)" "ucast (drop_bit 8 l AND 0xff) = (of_nat (unat l div 256) :: u8)"
      "ucast (drop_bit 16 l AND 0xff) = (of_nat (unat l div 65536) :: u8)"
      "ucast (drop_bit 24 l AND 0xff) = (of_nat (unat l div 16777216) :: u8)" by simp_all
  have n: "(4 :: nat) = Suc (Suc (Suc (Suc 0)))" by simp
  show ?thesis
    unfolding HOST_l2c_def hash_bytes_def b n be_bytes.simps le_bytes.simps by (simp flip: div_mult2_eq)
qed

lemma HOST_c2l_eq:
  assumes "length c = 4"
  shows "HOST_c2l big c = hash_word big c"
proof -
  obtain x y z w where c: "c = [x, y, z, w]" using assms by (auto simp: numeral_eq_Suc length_Suc_conv)
  show ?thesis
  proof (rule bit_eqI)
    fix j
    assume "possible_bit TYPE(32 word) j"
    then have "j < 32" by simp
    define d r where "d = j div 8" and "r = j mod 8"
    have j: "j = 8 * d + r" "r < 8" by (simp_all add: d_def r_def)
    with \<open>j < 32\<close> have d: "d = 0 \<or> d = 1 \<or> d = 2 \<or> d = 3" by auto
    have byte: "\<not> bit (b :: u8) k" if "8 \<le> k" for b k using that by (auto dest: bit_imp_le_length)
    have o: "bit (HOST_c2l big c) j \<longleftrightarrow> (if big then 24 \<le> j \<and> bit x (j - 24) \<or> 16 \<le> j \<and> bit y (j - 16) \<or> 8 \<le> j \<and> bit z (j - 8) \<or> bit w j
        else bit x j \<or> 8 \<le> j \<and> bit y (j - 8) \<or> 16 \<le> j \<and> bit z (j - 16) \<or> 24 \<le> j \<and> bit w (j - 24))"
      using \<open>j < 32\<close> unfolding c by (auto simp: HOST_c2l_def bit_or_iff bit_push_bit_iff bit_ucast_iff)
    have e: "bit (hash_word big c) j \<longleftrightarrow> bit (if big then [x, y, z, w] ! (3 - d) else [x, y, z, w] ! d) r"
      using \<open>j < 32\<close> d unfolding c hash_word_def bit_word_of_nat
      by (auto simp only: bit_be_nat bit_le_nat if_True if_False simp flip: d_def r_def split: if_splits) simp_all
    show "bit (HOST_c2l big c) j = bit (hash_word big c) j"
      unfolding o e using d j byte by (elim disjE) simp_all
  qed
qed

lemma take_concat_map: "(\<And>x. length (g x) = k) \<Longrightarrow> take (k * n) (concat (map g xs)) = concat (map g (take n xs))"
  by (induction xs arbitrary: n; case_tac n) simp_all

text \<open>The first words of a hash value.\<close>

lemma make_string_words:
  assumes "n \<le> length h"
  shows "concat (map (\<lambda>nn. HOST_l2c big (h ! nn)) [0..<n]) = take (4 * n) (concat (map (\<lambda>w. hash_bytes big 4 (unat w)) h))"
proof -
  have "map (\<lambda>nn. HOST_l2c big (h ! nn)) [0..<n] = map (\<lambda>w. hash_bytes big 4 (unat w)) (take n h)"
    using assms by (intro nth_equalityI) (simp_all add: HOST_l2c_eq)
  then show ?thesis by (simp add: take_concat_map)
qed

section \<open>Rotations\<close>

lemma rotate_rotr:
  fixes a :: "'a::len word"
  assumes "n < LENGTH('a)"
  shows "push_bit (LENGTH('a) - n) a OR drop_bit n a = word_rotr n a"
proof (rule bit_eqI)
  fix j
  assume "possible_bit TYPE('a word) j"
  then have j: "j < LENGTH('a)" by simp
  show "bit (push_bit (LENGTH('a) - n) a OR drop_bit n a) j = bit (word_rotr n a) j"
  proof (cases "j + n < LENGTH('a)")
    case True
    then show ?thesis using j by (auto simp: bit_or_iff bit_push_bit_iff bit_drop_bit_eq bit_word_rotr_iff add.commute)
  next
    case False
    then have "(j + n) mod LENGTH('a) = j - (LENGTH('a) - n)" using j assms by (simp add: le_mod_geq)
    moreover have "\<not> bit a (j + n)" using False by (auto dest: bit_imp_le_length)
    ultimately show ?thesis using j False
      by (auto simp: bit_or_iff bit_push_bit_iff bit_drop_bit_eq bit_word_rotr_iff add.commute)
  qed
qed

text \<open>The macro of the four files that include this one.\<close>

definition ROTATE :: "u32 \<Rightarrow> nat \<Rightarrow> u32" where
  "ROTATE a n = push_bit n a OR drop_bit (32 - n) a"

lemma ROTATE_rotr: "0 < n \<Longrightarrow> n < 32 \<Longrightarrow> ROTATE a n = word_rotr (32 - n) a"
  using rotate_rotr [of "32 - n" a] by (simp add: ROTATE_def)

lemma ROTATE_rotl: "0 < n \<Longrightarrow> n < 32 \<Longrightarrow> ROTATE a n = word_rotl n a"
  by (simp add: ROTATE_rotr word_rotl_eq_word_rotr)

section \<open>The bit counter\<close>

text \<open>Two words count the bits modulo their joint size; the carry is found by comparison.\<close>

lemma count_bits:
  fixes Nl Nh :: "'a::len word" and len :: nat
  assumes w: "3 \<le> LENGTH('a)" and t: "unat Nh * 2 ^ LENGTH('a) + unat Nl = a mod 2 ^ (2 * LENGTH('a))"
  defines "l \<equiv> Nl + push_bit 3 (of_nat len)"
  shows "unat ((if l < Nl then Nh + 1 else Nh) + of_nat (drop_bit (LENGTH('a) - 3) len)) * 2 ^ LENGTH('a) + unat l =
    (a + 8 * len) mod 2 ^ (2 * LENGTH('a))"
proof -
  let ?w = "LENGTH('a)"
  define q r where "q = 8 * len div 2 ^ ?w" and "r = 8 * len mod 2 ^ ?w"
  have qr: "8 * len = q * 2 ^ ?w + r" unfolding q_def r_def by (rule div_mult_mod_eq [symmetric])
  have r: "r < 2 ^ ?w" by (simp add: r_def)
  have q: "drop_bit (?w - 3) len = q"
  proof -
    have "(2 :: nat) ^ ?w = 8 * 2 ^ (?w - 3)" using power_add [of "2 :: nat" 3 "?w - 3"] w by simp
    then show ?thesis by (simp add: q_def drop_bit_eq_div)
  qed
  have "push_bit 3 (of_nat len) = (of_nat (8 * len) :: 'a word)" by (simp add: push_bit_eq_mult)
  then have l: "unat l = (unat Nl + r) mod 2 ^ ?w"
    by (simp only: l_def unat_word_ariths(1) unat_of_nat r_def mod_add_right_eq)
  define c where "c = (if l < Nl then 1 else 0 :: nat)"
  have "unat Nl < 2 ^ ?w" by simp
  have carry: "unat Nl + r = c * 2 ^ ?w + unat l"
  proof (cases "unat Nl + r < 2 ^ ?w")
    case True
    then show ?thesis using l by (simp add: c_def word_less_nat_alt)
  next
    case False
    then have "unat l = unat Nl + r - 2 ^ ?w" using l r \<open>unat Nl < 2 ^ ?w\<close> by (simp add: le_mod_geq)
    then show ?thesis using False r by (simp add: c_def word_less_nat_alt)
  qed
  define n where "n = unat ((if l < Nl then Nh + 1 else Nh) + of_nat (drop_bit (?w - 3) len))"
  have n: "n = (unat Nh + c + q) mod 2 ^ ?w"
    unfolding n_def q by (simp add: c_def unat_word_ariths unat_of_nat mod_simps)
  have "n * 2 ^ ?w + unat l = ((unat Nh + c + q) * 2 ^ ?w + unat l) mod 2 ^ (2 * ?w)"
  proof -
    have "((unat Nh + c + q) * 2 ^ ?w + unat l) mod (2 ^ ?w * 2 ^ ?w) = (unat Nh + c + q) mod 2 ^ ?w * 2 ^ ?w + unat l"
      using mod_mult2_eq [of "(unat Nh + c + q) * 2 ^ ?w + unat l" "2 ^ ?w" "2 ^ ?w"] by simp
    then show ?thesis using n by (simp add: power_add mult_2)
  qed
  also have "(unat Nh + c + q) * 2 ^ ?w + unat l = (unat Nh * 2 ^ ?w + unat Nl) + 8 * len"
    using carry qr by (simp add: algebra_simps)
  also have "\<dots> mod 2 ^ (2 * ?w) = (a + 8 * len) mod 2 ^ (2 * ?w)" unfolding t by (simp add: mod_simps)
  finally show ?thesis by (simp add: n_def)
qed

section \<open>A hash function\<close>

text \<open>The padding of RFC 1320, RFC 1321 and FIPS 180-4, for blocks of \<open>n\<close> bytes with the length in the last \<open>k\<close> of them.\<close>

definition md_padded :: "bool \<Rightarrow> nat \<Rightarrow> nat \<Rightarrow> bytes \<Rightarrow> bytes" where
  "md_padded big n k m = m @ 0x80 # replicate ((2 * n - 1 - k - length m mod n) mod n) 0 @ hash_bytes big k (8 * length m)"

definition md32_state :: "(u32 list \<Rightarrow> bytes \<Rightarrow> u32 list) \<Rightarrow> u32 list \<Rightarrow> 'a md32_ctx_scheme \<Rightarrow> bytes \<Rightarrow> bool" where
  "md32_state f h0 c xs \<longleftrightarrow> absorbed f 64 h0 xs (md_h c) (md_data c) (md_num c) \<and>
     unat (md_Nh c) * 2 ^ 32 + unat (md_Nl c) = 8 * length xs mod 2 ^ 64"

lemma hash_bytes_two:
  "hash_bytes big k (unat (if big then Nh else Nl)) @ hash_bytes big k (unat (if big then Nl else Nh)) =
    hash_bytes big (2 * k) (unat (Nh :: 'a::len word) * 256 ^ k + unat (Nl :: 'a word))"
  if "LENGTH('a) = 8 * k"
proof -
  have "(2 :: nat) ^ LENGTH('a) = 256 ^ k" by (simp add: that power_mult)
  then have l: "unat Nl < 256 ^ k" using unsigned_less [of Nl, where ?'a = nat] by simp
  have le: "le_bytes (m + n) v = le_bytes m v @ le_bytes n (v div 256 ^ m)" for m n v
    by (induction m arbitrary: v) (simp_all add: div_mult2_eq)
  have lm: "le_bytes k v = le_bytes k (v mod 256 ^ k)" for v
    by (metis le_bytes_le_nat le_nat_le_bytes length_le_bytes)
  show ?thesis
    using l be_bytes_append [of k k "unat Nh * 256 ^ k + unat Nl"] be_bytes_mod [of k "unat Nh * 256 ^ k + unat Nl"]
      le [of k k "unat Nh * 256 ^ k + unat Nl"] lm [of "unat Nh * 256 ^ k + unat Nl"]
    by (simp add: hash_bytes_def mult_2)
qed

lemma hash_bytes_mod: "hash_bytes big k (v mod 256 ^ k) = hash_bytes big k v"
proof -
  have "le_bytes k v = le_bytes k (v mod 256 ^ k)" by (metis le_bytes_le_nat le_nat_le_bytes length_le_bytes)
  then show ?thesis using be_bytes_mod [of k v] by (simp add: hash_bytes_def)
qed

text \<open>A loop over the blocks.\<close>

lemma block_loop:
  assumes "\<And>h data. block h data 0 = h" and "\<And>h data n. block h data (Suc n) = block (f h (take k data)) (drop k data) n"
    and "k * n \<le> length data" and "0 < k"
  shows "block h data n = foldl f h (blocks k (take (k * n) data))"
  using assms(3)
proof (induction n arbitrary: h data)
  case (Suc n)
  have "blocks k (take (k * Suc n) data) = take k data # blocks k (take (k * n) (drop k data))"
    using Suc.prems assms(4) by (simp add: blocks_step drop_take min_def)
  then show ?case using Suc.IH [of "drop k data" "f h (take k data)"] Suc.prems by (simp add: assms(2))
qed (simp add: assms(1,4))

text \<open>What a block function promises: it takes in one block after the other.\<close>

locale md32 =
  fixes block :: block_fn and f :: "u32 list \<Rightarrow> bytes \<Rightarrow> u32 list"
  assumes block_blocks: "0 < n \<Longrightarrow> 64 * n \<le> length data \<Longrightarrow> block h data n = foldl f h (blocks 64 (take (64 * n) data))"
begin

lemma block_one: "length data = 64 \<Longrightarrow> block h data (Suc 0) = f h data"
  using block_blocks [of 1 data h] by (simp add: blocks_step)

lemma hash_rest_absorbed:
  assumes "absorbed f 64 h0 xs (md_h c) (md_data c) 0" and "md_num c = 0"
  shows "absorbed f 64 h0 (xs @ ys) (md_h (hash_rest block c ys)) (md_data (hash_rest block c ys)) (md_num (hash_rest block c ys)) \<and>
    md_Nh (hash_rest block c ys) = md_Nh c \<and> md_Nl (hash_rest block c ys) = md_Nl c \<and>
    md32_ctx.more (hash_rest block c ys) = md32_ctx.more c"
proof -
  define k where "k = length ys div 64"
  define h where "h = foldl f (md_h c) (blocks 64 (take (k * 64) ys))"
  have kl: "k * 64 \<le> length ys" by (simp add: k_def)
  have h: "absorbed f 64 h0 (xs @ take (k * 64) ys) h (md_data c) 0"
    using absorbed_blocks [OF _ assms(1), of ys] by (simp add: k_def h_def)
  have len: "length (drop (k * 64) ys) < 64" by (simp add: k_def minus_div_mult_eq_mod)
  have r: "hash_rest block c ys = (let c = c\<lparr>md_h := h\<rparr> in if drop (k * 64) ys \<noteq> []
      then c\<lparr>md_num := length (drop (k * 64) ys), md_data := mem_write (md_data c) 0 (drop (k * 64) ys)\<rparr> else c)"
  proof (cases "k = 0")
    case True
    then show ?thesis by (simp add: hash_rest_def h_def flip: k_def)
  next
    case False
    then have "block (md_h c) ys k = h" using block_blocks [of k ys "md_h c"] kl by (simp add: h_def mult.commute)
    with False show ?thesis by (simp add: hash_rest_def Let_def flip: k_def)
  qed
  show ?thesis
  proof (cases "drop (k * 64) ys = []")
    case True
    then have "take (k * 64) ys = ys" by simp
    then show ?thesis using h r True assms(2) by simp
  next
    case False
    then show ?thesis using absorbed_keep [OF _ h, of "drop (k * 64) ys"] len r assms(2) by (simp add: Let_def)
  qed
qed

lemma update_state:
  assumes "md32_state f h0 c xs"
  shows "md32_state f h0 (HASH_UPDATE block c ys) (xs @ ys)"
    and "md32_ctx.more (HASH_UPDATE block c ys) = md32_ctx.more c"
proof -
  have "md32_state f h0 (HASH_UPDATE block c ys) (xs @ ys) \<and> md32_ctx.more (HASH_UPDATE block c ys) = md32_ctx.more c"
  proof (cases "ys = []")
    case True
    then show ?thesis using assms by (simp add: HASH_UPDATE_def)
  next
    case False
    let ?len = "length ys" and ?num = "md_num c"
    define l where "l = md_Nl c + push_bit 3 (of_nat ?len)"
    define c1 where "c1 = c\<lparr>md_Nh := (if l < md_Nl c then md_Nh c + 1 else md_Nh c) + of_nat (drop_bit 29 ?len), md_Nl := l\<rparr>"
    have a: "absorbed f 64 h0 xs (md_h c) (md_data c) ?num" and t: "unat (md_Nh c) * 2 ^ 32 + unat (md_Nl c) = 8 * length xs mod 2 ^ 64"
      using assms by (simp_all add: md32_state_def)
    have t1: "unat (md_Nh c1) * 2 ^ 32 + unat (md_Nl c1) = 8 * length (xs @ ys) mod 2 ^ 64"
      using count_bits [of "md_Nh c" "md_Nl c" "8 * length xs" ?len] t by (simp add: c1_def l_def)
    have u: "HASH_UPDATE block c ys = (if ?num \<noteq> 0 then
        if ?len \<ge> 64 \<or> ?len + ?num \<ge> 64 then
          hash_rest block (c1\<lparr>md_h := block (md_h c) (mem_write (md_data c) ?num (take (64 - ?num) ys)) 1, md_num := 0, md_data := replicate 64 0\<rparr>)
            (drop (64 - ?num) ys)
        else c1\<lparr>md_data := mem_write (md_data c) ?num ys, md_num := ?num + ?len\<rparr>
      else hash_rest block c1 ys)"
      using False by (simp add: HASH_UPDATE_def Let_def c1_def flip: l_def)
    have f1: "md_h c1 = md_h c" "md_data c1 = md_data c" "md_num c1 = ?num" "md32_ctx.more c1 = md32_ctx.more c"
      by (simp_all add: c1_def)
    have n: "?num < 64" using absorbed_num [OF _ a] by simp
    consider (empty) "?num = 0" | (keep) "?num \<noteq> 0" "?num + ?len < 64" | (fill) "?num \<noteq> 0" "64 \<le> ?num + ?len" by linarith
    then show ?thesis
    proof cases
      case empty
      then show ?thesis using hash_rest_absorbed [of h0 xs c1 ys] a f1 t1 by (simp add: md32_state_def u)
    next
      case keep
      then show ?thesis using absorbed_keep [OF _ a, of ys] f1 t1 by (simp add: md32_state_def u add.commute)
    next
      case fill
      let ?b = "mem_write (md_data c) ?num (take (64 - ?num) ys)"
      have b: "length ?b = 64" using a fill n by (simp add: absorbed_def mem_write_def)
      have "absorbed f 64 h0 (xs @ take (64 - ?num) ys) (block (md_h c) ?b 1) (replicate 64 0) 0"
        using absorbed_fill [OF _ a, of "take (64 - ?num) ys" "replicate 64 0"] fill by (simp add: block_one [OF b])
      then show ?thesis
        using hash_rest_absorbed [of h0 "xs @ take (64 - ?num) ys"
            "c1\<lparr>md_h := block (md_h c) ?b 1, md_num := 0, md_data := replicate 64 0\<rparr>" "drop (64 - ?num) ys"] fill f1 t1
        by (auto simp: md32_state_def u)
    qed
  qed
  then show "md32_state f h0 (HASH_UPDATE block c ys) (xs @ ys)" and "md32_ctx.more (HASH_UPDATE block c ys) = md32_ctx.more c" by blast+
qed

lemma pad_state:
  assumes "md32_state f h0 c xs"
  shows "md_h (hash_pad big block c) = foldl f h0 (blocks 64 (md_padded big 64 8 xs))"
    and "md32_ctx.more (hash_pad big block c) = md32_ctx.more c"
proof -
  let ?n = "md_num c" and ?d = "md_data c"
  define len where "len = hash_bytes big 8 (8 * length xs)"
  have a: "absorbed f 64 h0 xs (md_h c) ?d ?n" and t: "unat (md_Nh c) * 2 ^ 32 + unat (md_Nl c) = 8 * length xs mod 2 ^ 64"
    using assms by (simp_all add: md32_state_def)
  have n: "?n < 64" "length xs mod 64 = ?n" "length ?d = 64" using absorbed_num [OF _ a] a by (simp_all add: absorbed_def)
  have len: "HOST_l2c big (if big then md_Nh c else md_Nl c) @ HOST_l2c big (if big then md_Nl c else md_Nh c) = len"
    using hash_bytes_two [of 4 big "md_Nh c" "md_Nl c"] hash_bytes_mod [of big 8 "8 * length xs"] t
    by (simp add: HOST_l2c_eq len_def)
  have l4: "length (HOST_l2c big w) = 4" for w by (simp add: HOST_l2c_eq)
  have w: "mem_write (mem_write (mem_write buf k (replicate (56 - k) 0)) 56 (HOST_l2c big (if big then md_Nh c else md_Nl c))) 60
      (HOST_l2c big (if big then md_Nl c else md_Nh c)) = mem_write buf k (replicate (56 - k) 0 @ len)"
    if "k \<le> 56" "length buf = 64" for buf k
    using that mem_write_append [of k "replicate (56 - k) 0" buf "HOST_l2c big (if big then md_Nh c else md_Nl c)"]
      mem_write_append [of k "replicate (56 - k) 0 @ HOST_l2c big (if big then md_Nh c else md_Nl c)" buf "HOST_l2c big (if big then md_Nl c else md_Nh c)"]
    by (simp add: l4 flip: len)
  have "md_h (hash_pad big block c) = foldl f h0 (blocks 64 (md_padded big 64 8 xs)) \<and> md32_ctx.more (hash_pad big block c) = md32_ctx.more c"
  proof (cases "?n < 56")
    case True
    let ?b = "mem_write ?d ?n (0x80 # replicate (55 - ?n) 0 @ len)"
    have "mem_write (?d[?n := 0x80]) (?n + 1) (replicate (55 - ?n) 0 @ len) = ?b"
      using mem_write_append [of ?n "[0x80]" ?d "replicate (55 - ?n) 0 @ len"] n by (simp add: mem_write_one)
    then have b: "hash_pad big block c = c\<lparr>md_data := ?b, md_h := block (md_h c) ?b 1\<rparr>"
      using w [of "?n + 1" "?d[?n := 0x80]"] True n by (cases big) (simp_all add: hash_pad_def Let_def)
    have p: "md_padded big 64 8 xs = xs @ 0x80 # replicate (55 - ?n) 0 @ len"
      using True n by (simp add: md_padded_def len_def mod_if)
    have lb: "length ?b = 64" using n True by (simp add: mem_write_def len_def)
    have "absorbed f 64 h0 (xs @ 0x80 # replicate (55 - ?n) 0 @ len) (f (md_h c) ?b) ?d 0"
      using absorbed_fill [OF _ a, of "0x80 # replicate (55 - ?n) 0 @ len" ?d] True n by (simp add: len_def)
    then show ?thesis using b block_one [OF lb] p by (simp add: absorbed_def)
  next
    case False
    let ?b = "mem_write ?d ?n (0x80 # replicate (63 - ?n) 0)"
    have d1: "mem_write (?d[?n := 0x80]) (?n + 1) (replicate (63 - ?n) 0) = ?b"
      using mem_write_append [of ?n "[0x80]" ?d "replicate (63 - ?n) 0"] n by (simp add: mem_write_one)
    have lb: "length ?b = 64" using n by (simp add: mem_write_def)
    let ?b2 = "mem_write ?b 0 (replicate 56 0 @ len)"
    have l2: "length ?b2 = 64" using lb by (simp add: mem_write_def len_def)
    have b: "hash_pad big block c = c\<lparr>md_data := ?b2, md_h := block (block (md_h c) ?b 1) ?b2 1\<rparr>"
      using w [of 0 ?b] False n lb d1 by (cases big) (simp_all add: hash_pad_def Let_def)
    have p: "md_padded big 64 8 xs = (xs @ 0x80 # replicate (63 - ?n) 0) @ replicate 56 0 @ len"
    proof -
      have "(119 - ?n) mod 64 = (63 - ?n) + 56" using False n by (simp add: mod_if)
      then have "replicate ((119 - ?n) mod 64) 0 = replicate (63 - ?n) (0 :: u8) @ replicate 56 0" by (simp only: replicate_add)
      then show ?thesis using n by (simp add: md_padded_def len_def)
    qed
    have a1: "absorbed f 64 h0 (xs @ 0x80 # replicate (63 - ?n) 0) (f (md_h c) ?b) ?b 0"
      using absorbed_fill [OF _ a, of "0x80 # replicate (63 - ?n) 0" ?b] n lb by simp
    have "absorbed f 64 h0 ((xs @ 0x80 # replicate (63 - ?n) 0) @ replicate 56 0 @ len) (f (f (md_h c) ?b) ?b2) ?d 0"
      using absorbed_fill [OF _ a1, of "replicate 56 0 @ len" ?d] n by (simp add: len_def)
    then show ?thesis using b block_one [OF lb] block_one [OF l2] p by (simp add: absorbed_def)
  qed
  then show "md_h (hash_pad big block c) = foldl f h0 (blocks 64 (md_padded big 64 8 xs))"
    and "md32_ctx.more (hash_pad big block c) = md32_ctx.more c" by blast+
qed

text \<open>A whole session: the hash of what was fed in, in whatever pieces.\<close>

lemma updates_state:
  assumes "md32_state f h0 c xs"
  shows "md32_state f h0 (fold (\<lambda>y c. HASH_UPDATE block c y) ys c) (xs @ concat ys)"
    and "md32_ctx.more (fold (\<lambda>y c. HASH_UPDATE block c y) ys c) = md32_ctx.more c"
proof -
  have "md32_state f h0 (fold (\<lambda>y c. HASH_UPDATE block c y) ys c) (xs @ concat ys) \<and>
      md32_ctx.more (fold (\<lambda>y c. HASH_UPDATE block c y) ys c) = md32_ctx.more c"
    using assms
  proof (induction ys arbitrary: c xs)
    case (Cons y ys)
    from Cons.IH [OF update_state(1) [OF Cons.prems]] update_state(2) [OF Cons.prems] show ?case by simp
  qed simp
  then show "md32_state f h0 (fold (\<lambda>y c. HASH_UPDATE block c y) ys c) (xs @ concat ys)"
    and "md32_ctx.more (fold (\<lambda>y c. HASH_UPDATE block c y) ys c) = md32_ctx.more c" by blast+
qed

lemma session:
  assumes "md32_state f h0 c []"
  shows "\<exists>Nl Nh. HASH_FINAL big block mk (fold (\<lambda>y c. HASH_UPDATE block c y) ys c) =
    (let c' = c\<lparr>md_h := foldl f h0 (blocks 64 (md_padded big 64 8 (concat ys))), md_Nl := Nl, md_Nh := Nh, md_data := replicate 64 0, md_num := 0\<rparr>
     in (mk c', c'))"
proof -
  let ?c = "fold (\<lambda>y c. HASH_UPDATE block c y) ys c"
  let ?p = "hash_pad big block ?c"
  have "md32_state f h0 ?c (concat ys)" and m: "md32_ctx.more ?c = md32_ctx.more c" using updates_state [OF assms, of ys] by simp_all
  note p = pad_state [OF this(1), of big]
  have "?p\<lparr>md_num := 0, md_data := replicate 64 0\<rparr> =
      c\<lparr>md_h := md_h ?p, md_Nl := md_Nl ?p, md_Nh := md_Nh ?p, md_data := replicate 64 0, md_num := 0\<rparr>"
    using p(2) m by (cases ?p; cases c) simp
  then show ?thesis unfolding p(1) HASH_FINAL_def Let_def by metis
qed

end

end
