(* ===== verification/Sha2.thy ===== *)
theory Sha2
  imports Md32
begin

text \<open>
  The rounds of SHA-2.  The macros \<^verbatim>\<open>ROUND_00_15\<close> and \<^verbatim>\<open>ROUND_16_63\<close> of \<^verbatim>\<open>sha256.c\<close> and \<^verbatim>\<open>sha512.c\<close> have the same text over words of 32 and
  64 bits and refer to the functions and constants of their file, here the record \<open>sha2\<close>.  Instead of moving the eight working variables
  along, the code calls the macro with its arguments rotated; the variables are a list, and the arguments are indices into it.  The message
  schedule is kept in a ring of 16 words.  Both are related to the formulation of FIPS 180-4.
\<close>

section \<open>Schedules\<close>

text \<open>A list extended \<open>n\<close> times by a function of what is there, and a ring that holds 16 consecutive entries of it.\<close>

primrec grow :: "('a list \<Rightarrow> 'a) \<Rightarrow> nat \<Rightarrow> 'a list \<Rightarrow> 'a list" where
  "grow f 0 xs = xs"
| "grow f (Suc n) xs = (let ys = grow f n xs in ys @ [f ys])"

lemma length_grow [simp]: "length (grow f n xs) = length xs + n"
  by (induction n) (simp_all add: Let_def)

lemma take_grow: "m \<le> n \<Longrightarrow> take (length xs + m) (grow f n xs) = grow f m xs"
proof (induction n)
  case (Suc n)
  then show ?case by (cases "m = Suc n") (simp_all add: Let_def)
qed simp

lemma nth_grow:
  assumes "length xs \<le> i" and "i < length xs + n"
  shows "grow f n xs ! i = f (take i (grow f n xs))"
proof -
  define m where "m = i - length xs"
  have i: "i = length xs + m" "m < n" using assms by (simp_all add: m_def)
  then have "grow f n xs ! i = take (length xs + Suc m) (grow f n xs) ! i" by simp
  also have "\<dots> = f (grow f m xs)" using take_grow [of "Suc m" n xs f] i by (simp add: Let_def nth_append)
  also have "grow f m xs = take i (grow f n xs)" using take_grow [of m n xs f] i by simp
  finally show ?thesis .
qed

definition ring16 :: "'a list \<Rightarrow> nat \<Rightarrow> 'a list \<Rightarrow> bool" where
  "ring16 W t X \<longleftrightarrow> length X = 16 \<and> (\<forall>j. t \<le> j \<and> j < t + 16 \<longrightarrow> X ! (j mod 16) = W ! j)"

lemma ring16_start: "length M = 16 \<Longrightarrow> ring16 (grow f n M) 0 M"
  using take_grow [of 0 n M f] by (auto simp: ring16_def) (metis nth_take)

lemma ring16_nth: "ring16 W t X \<Longrightarrow> t \<le> j \<Longrightarrow> j < t + 16 \<Longrightarrow> X ! (j mod 16) = W ! j"
  by (simp add: ring16_def)

lemma ring16_step:
  assumes "ring16 W t X"
  shows "ring16 W (Suc t) (X[t mod 16 := W ! (t + 16)])"
proof -
  have "X[t mod 16 := W ! (t + 16)] ! (j mod 16) = W ! j" if j: "Suc t \<le> j" "j < Suc t + 16" for j
  proof (cases "j = t + 16")
    case False
    have "j mod 16 \<noteq> t mod 16"
    proof
      assume "j mod 16 = t mod 16"
      then have "16 dvd j - t" using mod_eq_dvd_iff_nat [of t j 16] j by simp
      then have "16 \<le> j - t" using j by (intro dvd_imp_le) simp_all
      with j False show False by simp
    qed
    then show ?thesis using assms j False by (simp add: ring16_def)
  qed (use assms in \<open>simp add: ring16_def\<close>)
  then show ?thesis using assms by (simp add: ring16_def)
qed

text \<open>A loop keeps what every step keeps.\<close>

lemma fold_upt_inv:
  assumes "P i s" and "\<And>j s. j < n \<Longrightarrow> P (i + j) s \<Longrightarrow> P (Suc (i + j)) (g j s)"
  shows "P (i + n) (fold g [0..<n] s)"
  using assms(2)
proof (induction n)
  case (Suc n)
  from Suc.prems [of n] Suc.IH show ?case by (simp add: Suc.prems)
qed (use assms(1) in simp)

section \<open>The code\<close>

record 'w sha2 =
  s_Sigma0 :: "'w \<Rightarrow> 'w"
  s_Sigma1 :: "'w \<Rightarrow> 'w"
  s_sigma0 :: "'w \<Rightarrow> 'w"
  s_sigma1 :: "'w \<Rightarrow> 'w"
  s_K :: "'w list"

definition Ch :: "'a::len word \<Rightarrow> 'a word \<Rightarrow> 'a word \<Rightarrow> 'a word" where
  "Ch x y z = (x AND y) XOR (NOT x AND z)"

definition Maj :: "'a::len word \<Rightarrow> 'a word \<Rightarrow> 'a word \<Rightarrow> 'a word" where
  "Maj x y z = (x AND y) XOR (x AND z) XOR (y AND z)"

type_synonym regs8 = "nat \<times> nat \<times> nat \<times> nat \<times> nat \<times> nat \<times> nat \<times> nat"

text \<open>The argument lists of eight consecutive calls, with \<open>a\<close> to \<open>h\<close> numbered from 0.\<close>

definition regs8 :: "regs8 list" where
  "regs8 =
     [(0, 1, 2, 3, 4, 5, 6, 7),
      (7, 0, 1, 2, 3, 4, 5, 6),
      (6, 7, 0, 1, 2, 3, 4, 5),
      (5, 6, 7, 0, 1, 2, 3, 4),
      (4, 5, 6, 7, 0, 1, 2, 3),
      (3, 4, 5, 6, 7, 0, 1, 2),
      (2, 3, 4, 5, 6, 7, 0, 1),
      (1, 2, 3, 4, 5, 6, 7, 0)]"

fun ROUND_00_15 :: "'a::len word sha2 \<Rightarrow> nat \<Rightarrow> regs8 \<Rightarrow> 'a word list \<Rightarrow> 'a word \<Rightarrow> 'a word list" where
  "ROUND_00_15 F i (a, b, c, d, e, f, g, h) v T1 =
     (let T1 = T1 + (v ! h + s_Sigma1 F (v ! e) + Ch (v ! e) (v ! f) (v ! g) + s_K F ! i);
          v = v[h := s_Sigma0 F (v ! a) + Maj (v ! a) (v ! b) (v ! c)];
          v = v[d := v ! d + T1]
      in v[h := v ! h + T1])"

text \<open>\<open>ROUND_16_63 i\<close> of \<^verbatim>\<open>sha256.c\<close> is this with \<open>i\<close> for both numbers, \<open>ROUND_16_80 i j\<close> of \<^verbatim>\<open>sha512.c\<close> takes the constant \<open>i + j\<close>.\<close>

definition ROUND_16 :: "'a::len word sha2 \<Rightarrow> nat \<Rightarrow> nat \<Rightarrow> regs8 \<Rightarrow> 'a word list \<times> 'a word list \<Rightarrow> 'a word list \<times> 'a word list" where
  "ROUND_16 F k j args vX =
     (let (v, X) = vX;
          s0 = X ! ((j + 1) AND 0xf);
          s0 = s_sigma0 F s0;
          s1 = X ! ((j + 14) AND 0xf);
          s1 = s_sigma1 F s1;
          X = X[j AND 0xf := X ! (j AND 0xf) + (s0 + s1 + X ! ((j + 9) AND 0xf))];
          T1 = X ! (j AND 0xf)
      in (ROUND_00_15 F k args v T1, X))"

section \<open>FIPS 180-4\<close>

text \<open>The message schedule of \<open>n\<close> words more than the block has, a round, the rounds, and the new hash value (sections 6.2.2 and 6.4.2).\<close>

definition sha2_schedule :: "'a::len word sha2 \<Rightarrow> nat \<Rightarrow> 'a word list \<Rightarrow> 'a word list" where
  "sha2_schedule F n M =
     grow (\<lambda>W. let t = length W in s_sigma1 F (W ! (t - 2)) + W ! (t - 7) + s_sigma0 F (W ! (t - 15)) + W ! (t - 16)) n M"

type_synonym 'w oct = "'w \<times> 'w \<times> 'w \<times> 'w \<times> 'w \<times> 'w \<times> 'w \<times> 'w"

fun sha2_round :: "'a::len word sha2 \<Rightarrow> 'a word \<Rightarrow> 'a word \<Rightarrow> 'a word oct \<Rightarrow> 'a word oct" where
  "sha2_round F K W (a, b, c, d, e, f, g, h) =
     (let T1 = h + s_Sigma1 F e + Ch e f g + K + W;
          T2 = s_Sigma0 F a + Maj a b c
      in (T1 + T2, a, b, c, d + T1, e, f, g))"

definition sha2_rounds :: "'a::len word sha2 \<Rightarrow> 'a word list \<Rightarrow> nat \<Rightarrow> 'a word oct \<Rightarrow> 'a word oct" where
  "sha2_rounds F W n = fold (\<lambda>t. sha2_round F (s_K F ! t) (W ! t)) [0..<n]"

definition sha2_compress :: "'a::len word sha2 \<Rightarrow> nat \<Rightarrow> 'a word list \<Rightarrow> 'a word list \<Rightarrow> 'a word list" where
  "sha2_compress F n H M =
     (case sha2_rounds F (sha2_schedule F (n - 16) M) n (H ! 0, H ! 1, H ! 2, H ! 3, H ! 4, H ! 5, H ! 6, H ! 7) of
        (a, b, c, d, e, f, g, h) \<Rightarrow>
          [H ! 0 + a, H ! 1 + b, H ! 2 + c, H ! 3 + d, H ! 4 + e, H ! 5 + f, H ! 6 + g, H ! 7 + h])"

text \<open>The big-endian words of a byte string.\<close>

definition be_words :: "bytes \<Rightarrow> 'a::len word list" where
  "be_words b = map (\<lambda>w. of_nat (be_nat w)) (blocks (LENGTH('a) div 8) b)"

section \<open>The code computes the rounds of the standard\<close>

fun read8 :: "'w list \<Rightarrow> regs8 \<Rightarrow> 'w oct" where
  "read8 v (a, b, c, d, e, f, g, h) = (v ! a, v ! b, v ! c, v ! d, v ! e, v ! f, v ! g, v ! h)"

lemma length_ROUND_00_15 [simp]: "length (ROUND_00_15 F i args v w) = length v"
  by (induction F i args v w rule: ROUND_00_15.induct) (simp add: Let_def)

lemma round_step:
  assumes "length v = 8" and "r < 8"
  shows "read8 (ROUND_00_15 F i (regs8 ! r) v w) (regs8 ! (Suc r mod 8)) = sha2_round F (s_K F ! i) w (read8 v (regs8 ! r))"
proof -
  obtain a b c d e f g h where v: "v = [a, b, c, d, e, f, g, h]"
    using assms(1) by (auto simp: numeral_eq_Suc length_Suc_conv)
  have "r = 0 \<or> r = 1 \<or> r = 2 \<or> r = 3 \<or> r = 4 \<or> r = 5 \<or> r = 6 \<or> r = 7" using assms(2) by auto
  then show ?thesis
    unfolding v by (elim disjE) (simp_all add: regs8_def Let_def ac_simps)
qed

lemma nat_and_15: "(j :: nat) AND 0xf = j mod 16"
proof -
  have m: "(0xf :: nat) = mask 4" by (simp add: mask_eq_exp_minus_1)
  show ?thesis unfolding m by (simp only: take_bit_eq_mask [symmetric] take_bit_eq_mod) simp
qed

text \<open>After \<open>i\<close> rounds, of a hash value and a message block.\<close>

definition sha2_inv :: "'a::len word sha2 \<Rightarrow> 'a word list \<Rightarrow> 'a word oct \<Rightarrow> nat \<Rightarrow> 'a word list \<times> 'a word list \<Rightarrow> bool" where
  "sha2_inv F W H i s \<longleftrightarrow> length (fst s) = 8 \<and> read8 (fst s) (regs8 ! (i mod 8)) = sha2_rounds F W i H \<and> ring16 W (i - 16) (snd s)"

lemma sha2_rounds_Suc: "sha2_rounds F W (Suc i) H = sha2_round F (s_K F ! i) (W ! i) (sha2_rounds F W i H)"
  by (simp add: sha2_rounds_def)

lemma ROUND_00_15_inv:
  assumes "sha2_inv F W H i (v, X)" and "i < 16"
  shows "sha2_inv F W H (Suc i) (ROUND_00_15 F i (regs8 ! (i mod 8)) v (X ! i), X)"
proof -
  have "X ! i = W ! i" using assms ring16_nth [of W 0 X i] by (simp add: sha2_inv_def)
  moreover have "Suc i mod 8 = Suc (i mod 8) mod 8" by (simp add: mod_simps)
  ultimately show ?thesis
    using assms round_step [of v "i mod 8" F i "W ! i"] by (simp add: sha2_inv_def sha2_rounds_Suc)
qed

lemma ROUND_16_inv:
  assumes W: "W = sha2_schedule F n M" and M: "length M = 16" and inv: "sha2_inv F W H i s" and i: "16 \<le> i" "i < 16 + n"
    and j: "j mod 16 = i mod 16"
  shows "sha2_inv F W H (Suc i) (ROUND_16 F i j (regs8 ! (i mod 8)) s)"
proof -
  obtain v X where s: "s = (v, X)" by force
  obtain t where t: "i = t + 16" using i(1) by (metis add.commute le_Suc_ex)
  have v: "length v = 8" "read8 v (regs8 ! (i mod 8)) = sha2_rounds F W i H" and X: "ring16 W t X"
    using inv by (simp_all add: sha2_inv_def s t)
  have jt: "j mod 16 = t mod 16" using j t by simp
  have nth: "X ! ((j + k) mod 16) = W ! (t + k)" if "k < 16" for k
    using ring16_nth [OF X, of "t + k"] that jt by (metis le_add1 mod_add_left_eq nat_add_left_cancel_less)
  have "W ! i = s_sigma1 F (W ! (t + 14)) + W ! (t + 9) + s_sigma0 F (W ! (t + 1)) + W ! t"
    using nth_grow [of M i n "\<lambda>W. let t = length W in s_sigma1 F (W ! (t - 2)) + W ! (t - 7) + s_sigma0 F (W ! (t - 15)) + W ! (t - 16)"]
      M i t by (simp add: W sha2_schedule_def min_def numeral_eq_Suc)
  then have w: "X ! (j mod 16) + (s_sigma0 F (X ! ((j + 1) mod 16)) + s_sigma1 F (X ! ((j + 14) mod 16)) + X ! ((j + 9) mod 16)) = W ! i"
    using nth [of 0] nth [of 1] nth [of 14] nth [of 9] by (simp add: ac_simps)
  have lX: "length X = 16" using X by (simp add: ring16_def)
  have r: "ROUND_16 F i j (regs8 ! (i mod 8)) s = (ROUND_00_15 F i (regs8 ! (i mod 8)) v (W ! i), X[t mod 16 := W ! i])"
    using w lX jt by (simp add: ROUND_16_def Let_def s nat_and_15 del: One_nat_def)
  have "ring16 W (Suc i - 16) (X[t mod 16 := W ! i])" using ring16_step [OF X] by (simp add: t)
  moreover have "Suc i mod 8 = Suc (i mod 8) mod 8" by (simp add: mod_simps)
  ultimately show ?thesis
    using v round_step [of v "i mod 8" F i "W ! i"] by (simp add: sha2_inv_def sha2_rounds_Suc r)
qed

text \<open>At the start and at the end.\<close>

lemma sha2_inv_start: "length state = 8 \<Longrightarrow> length M = 16 \<Longrightarrow>
    sha2_inv F (sha2_schedule F n M) (state ! 0, state ! 1, state ! 2, state ! 3, state ! 4, state ! 5, state ! 6, state ! 7) 0 (state, M)"
  by (simp add: sha2_inv_def regs8_def sha2_rounds_def sha2_schedule_def ring16_start)

lemma sha2_inv_end:
  assumes "sha2_inv F (sha2_schedule F (n - 16) M) (state ! 0, state ! 1, state ! 2, state ! 3, state ! 4, state ! 5, state ! 6, state ! 7) n s"
    and "n mod 8 = 0" and "length state = 8"
  shows "map2 (+) state (fst s) = sha2_compress F n state M"
proof -
  let ?H = "(state ! 0, state ! 1, state ! 2, state ! 3, state ! 4, state ! 5, state ! 6, state ! 7)"
  obtain a b c d e f gh where r7: "sha2_rounds F (sha2_schedule F (n - 16) M) n ?H = (a, b, c, d, e, f, gh)" by (rule prod_cases7)
  obtain g h where "gh = (g, h)" by force
  with r7 have r: "sha2_rounds F (sha2_schedule F (n - 16) M) n ?H = (a, b, c, d, e, f, g, h)" by simp
  have "length (fst s) = 8" using assms(1) by (simp add: sha2_inv_def)
  then obtain x0 x1 x2 x3 x4 x5 x6 x7 where v: "fst s = [x0, x1, x2, x3, x4, x5, x6, x7]"
    by (auto simp: numeral_eq_Suc length_Suc_conv)
  obtain y0 y1 y2 y3 y4 y5 y6 y7 where st: "state = [y0, y1, y2, y3, y4, y5, y6, y7]"
    using assms(3) by (auto simp: numeral_eq_Suc length_Suc_conv)
  have "read8 (fst s) (regs8 ! 0) = (a, b, c, d, e, f, g, h)" using assms(1,2) r by (simp add: sha2_inv_def)
  then have "fst s = [a, b, c, d, e, f, g, h]" by (simp add: v regs8_def)
  then show ?thesis unfolding sha2_compress_def r prod.case by (simp add: st)
qed

lemma length_sha2_compress [simp]: "length (sha2_compress F n H M) = 8"
  by (simp add: sha2_compress_def split: prod.splits)

text \<open>The words of a block as the code loads them, and the bytes of words.\<close>

lemma loaded_words:
  assumes "length data = 64"
  shows "map (\<lambda>i. HOST_c2l True (take 4 (drop (4 * i) data))) [0..<16] = be_words data"
proof (rule nth_equalityI)
  show "length (map (\<lambda>i. HOST_c2l True (take 4 (drop (4 * i) data))) [0..<16]) = length (be_words data :: u32 list)"
    using assms by (simp add: be_words_def length_blocks_list)
  fix i
  assume "i < length (map (\<lambda>i. HOST_c2l True (take 4 (drop (4 * i) data))) [0..<16])"
  then have i: "i < 16" by simp
  then have "length (take 4 (drop (4 * i) data)) = 4" using assms by simp
  then show "map (\<lambda>i. HOST_c2l True (take 4 (drop (4 * i) data))) [0..<16] ! i = be_words data ! i"
    using i assms by (simp add: be_words_def length_blocks_list nth_blocks HOST_c2l_eq hash_word_def)
qed

lemma length_concat_words: "length (concat (map (\<lambda>w. be_bytes k (unat w)) ws)) = k * length ws"
  by (induction ws) simp_all

lemma md32_state_start: "length (md_data c) = 64 \<Longrightarrow> md_num c = 0 \<Longrightarrow> md_Nl c = 0 \<Longrightarrow> md_Nh c = 0 \<Longrightarrow> md32_state f (md_h c) c []"
  by (simp add: md32_state_def absorbed_def)

end
