(* ===== verification/Sha1.thy ===== *)
theory Sha1
  imports Sha2
begin

text \<open>
  \<^verbatim>\<open>fipsmodule/sha/sha1.c\<close> without assembly.  The block function is unrolled: its macros are called with the six working variables \<open>A\<close> to \<open>T\<close> rotated by
  one from call to call, and with words of a ring of 16.  It is shown to compute the rounds of FIPS 180-4, so that SHA-1 is that of the standard.
\<close>

section \<open>The code\<close>

definition SHA1_Init :: md32_ctx where
  "SHA1_Init =
     \<lparr>md_h = [0x67452301, 0xefcdab89, 0x98badcfe, 0x10325476, 0xc3d2e1f0],
      md_Nl = 0, md_Nh = 0, md_data = replicate 64 0, md_num = 0\<rparr>"

definition sha1_make_string :: "md32_ctx \<Rightarrow> bytes option" where
  "sha1_make_string c =
     Some (HOST_l2c True (md_h c ! 0) @ HOST_l2c True (md_h c ! 1) @ HOST_l2c True (md_h c ! 2) @ HOST_l2c True (md_h c ! 3) @ HOST_l2c True (md_h c ! 4))"

definition K_00_19 :: u32 where "K_00_19 = 0x5a827999"
definition K_20_39 :: u32 where "K_20_39 = 0x6ed9eba1"
definition K_40_59 :: u32 where "K_40_59 = 0x8f1bbcdc"
definition K_60_79 :: u32 where "K_60_79 = 0xca62c1d6"

definition F_00_19 :: "u32 \<Rightarrow> u32 \<Rightarrow> u32 \<Rightarrow> u32" where "F_00_19 b c d = ((c XOR d) AND b) XOR d"
definition F_20_39 :: "u32 \<Rightarrow> u32 \<Rightarrow> u32 \<Rightarrow> u32" where "F_20_39 b c d = b XOR c XOR d"
definition F_40_59 :: "u32 \<Rightarrow> u32 \<Rightarrow> u32 \<Rightarrow> u32" where "F_40_59 b c d = (b AND c) OR ((b OR c) AND d)"
definition F_60_79 :: "u32 \<Rightarrow> u32 \<Rightarrow> u32 \<Rightarrow> u32" where "F_60_79 b c d = F_20_39 b c d"

type_synonym regs6 = "nat \<times> nat \<times> nat \<times> nat \<times> nat \<times> nat"

text \<open>The argument lists of six consecutive calls, with \<open>A\<close> to \<open>E\<close> and \<open>T\<close> numbered from 0.\<close>

definition regs6 :: "regs6 list" where
  "regs6 =
     [(0, 1, 2, 3, 4, 5),
      (5, 0, 1, 2, 3, 4),
      (4, 5, 0, 1, 2, 3),
      (3, 4, 5, 0, 1, 2),
      (2, 3, 4, 5, 0, 1),
      (1, 2, 3, 4, 5, 0)]"

fun BODY_00_15 :: "regs6 \<Rightarrow> u32 list \<Rightarrow> u32 \<Rightarrow> u32 list" where
  "BODY_00_15 (a, b, c, d, e, f) v xi =
     (let v = v[f := xi + v ! e + K_00_19 + ROTATE (v ! a) 5 + F_00_19 (v ! b) (v ! c) (v ! d)]
      in v[b := ROTATE (v ! b) 30])"

definition Xupdate :: "u32 list \<Rightarrow> nat \<Rightarrow> nat \<Rightarrow> nat \<Rightarrow> nat \<Rightarrow> u32" where
  "Xupdate X ia ib ic i_d = ROTATE (X ! ia XOR X ! ib XOR X ! ic XOR X ! i_d) 1"

text \<open>
  The macros \<^verbatim>\<open>BODY_16_19\<close>, \<^verbatim>\<open>BODY_20_31\<close>, \<^verbatim>\<open>BODY_32_39\<close> and \<^verbatim>\<open>BODY_40_59\<close> differ in the function \<open>F\<close> and the constant \<open>K\<close> only; in each call the word that
  is replaced is also the first operand.
\<close>

fun BODY_16_59 :: "(u32 \<Rightarrow> u32 \<Rightarrow> u32 \<Rightarrow> u32) \<Rightarrow> u32 \<Rightarrow> regs6 \<Rightarrow> nat \<Rightarrow> nat \<Rightarrow> nat \<Rightarrow> nat \<Rightarrow> u32 list \<times> u32 list \<Rightarrow> u32 list \<times> u32 list" where
  "BODY_16_59 F K (a, b, c, d, e, f) xa xb xc xd (v, X) =
     (let x = Xupdate X xa xb xc xd;
          v = v[f := x];
          X = X[xa := x];
          v = v[f := v ! f + (v ! e + K + ROTATE (v ! a) 5 + F (v ! b) (v ! c) (v ! d))]
      in (v[b := ROTATE (v ! b) 30], X))"

fun BODY_60_79 :: "regs6 \<Rightarrow> nat \<Rightarrow> nat \<Rightarrow> nat \<Rightarrow> nat \<Rightarrow> u32 list \<times> u32 list \<Rightarrow> u32 list \<times> u32 list" where
  "BODY_60_79 (a, b, c, d, e, f) xa xb xc xd (v, X) =
     (let x = Xupdate X xa xb xc xd;
          v = v[f := x];
          X = X[xa := x];
          v = v[f := X ! xa + v ! e + K_60_79 + ROTATE (v ! a) 5 + F_60_79 (v ! b) (v ! c) (v ! d)]
      in (v[b := ROTATE (v ! b) 30], X))"

text \<open>The 80 calls.\<close>

definition sha1_step :: "nat \<Rightarrow> u32 list \<times> u32 list \<Rightarrow> u32 list \<times> u32 list" where
  "sha1_step i vX =
     (let args = regs6 ! (i mod 6);
          xa = i mod 16; xb = (i + 2) mod 16; xc = (i + 8) mod 16; xd = (i + 13) mod 16
      in if i < 16 then (BODY_00_15 args (fst vX) (snd vX ! i), snd vX)
         else if i < 20 then BODY_16_59 F_00_19 K_00_19 args xa xb xc xd vX
         else if i < 40 then BODY_16_59 F_20_39 K_20_39 args xa xb xc xd vX
         else if i < 60 then BODY_16_59 F_40_59 K_40_59 args xa xb xc xd vX
         else BODY_60_79 args xa xb xc xd vX)"

text \<open>One block; \<open>T\<close> is assigned before it is used.\<close>

definition sha1_one_block :: "u32 list \<Rightarrow> bytes \<Rightarrow> u32 list" where
  "sha1_one_block state data =
     (let X = map (\<lambda>i. HOST_c2l True (take 4 (drop (4 * i) data))) [0..<16];
          v = [state ! 0, state ! 1, state ! 2, state ! 3, state ! 4, 0];
          (v, X) = fold sha1_step [0..<80] (v, X);
          state = state[0 := (state ! 0 + v ! 4) AND 0xffffffff];
          state = state[1 := (state ! 1 + v ! 5) AND 0xffffffff];
          state = state[2 := (state ! 2 + v ! 0) AND 0xffffffff];
          state = state[3 := (state ! 3 + v ! 1) AND 0xffffffff]
      in state[4 := (state ! 4 + v ! 2) AND 0xffffffff])"

text \<open>The loop, which is entered with at least one block.\<close>

fun sha1_block_data_order :: "u32 list \<Rightarrow> bytes \<Rightarrow> nat \<Rightarrow> u32 list" where
  "sha1_block_data_order state data 0 = state"
| "sha1_block_data_order state data (Suc num) = sha1_block_data_order (sha1_one_block state (take 64 data)) (drop 64 data) num"

definition SHA1_Update :: "md32_ctx \<Rightarrow> bytes \<Rightarrow> md32_ctx" where
  "SHA1_Update = HASH_UPDATE sha1_block_data_order"

definition SHA1_Transform :: "md32_ctx \<Rightarrow> bytes \<Rightarrow> md32_ctx" where
  "SHA1_Transform = HASH_TRANSFORM sha1_block_data_order"

definition SHA1_Final :: "md32_ctx \<Rightarrow> bytes option \<times> md32_ctx" where
  "SHA1_Final = HASH_FINAL True sha1_block_data_order sha1_make_string"

definition SHA1 :: "bytes \<Rightarrow> bytes option" where
  "SHA1 data = fst (SHA1_Final (SHA1_Update SHA1_Init data))"

section \<open>FIPS 180-4\<close>

definition sha1_f :: "nat \<Rightarrow> u32 \<Rightarrow> u32 \<Rightarrow> u32 \<Rightarrow> u32" where
  "sha1_f t x y z = (if t < 20 then Ch x y z else if t < 40 then x XOR y XOR z else if t < 60 then Maj x y z else x XOR y XOR z)"

definition sha1_K :: "nat \<Rightarrow> u32" where
  "sha1_K t = (if t < 20 then 0x5a827999 else if t < 40 then 0x6ed9eba1 else if t < 60 then 0x8f1bbcdc else 0xca62c1d6)"

definition sha1_schedule :: "u32 list \<Rightarrow> u32 list" where
  "sha1_schedule M = grow (\<lambda>W. let t = length W in word_rotl 1 (W ! (t - 3) XOR W ! (t - 8) XOR W ! (t - 14) XOR W ! (t - 16))) 64 M"

type_synonym quint = "u32 \<times> u32 \<times> u32 \<times> u32 \<times> u32"

fun sha1_round :: "nat \<Rightarrow> u32 \<Rightarrow> quint \<Rightarrow> quint" where
  "sha1_round t W (a, b, c, d, e) = (word_rotl 5 a + sha1_f t b c d + e + sha1_K t + W, a, word_rotl 30 b, c, d)"

definition sha1_rounds :: "u32 list \<Rightarrow> nat \<Rightarrow> quint \<Rightarrow> quint" where
  "sha1_rounds W n = fold (\<lambda>t. sha1_round t (W ! t)) [0..<n]"

definition sha1_compress :: "u32 list \<Rightarrow> u32 list \<Rightarrow> u32 list" where
  "sha1_compress H M =
     (case sha1_rounds (sha1_schedule M) 80 (H ! 0, H ! 1, H ! 2, H ! 3, H ! 4) of
        (a, b, c, d, e) \<Rightarrow> [H ! 0 + a, H ! 1 + b, H ! 2 + c, H ! 3 + d, H ! 4 + e])"

definition fips_hash1 :: "bytes \<Rightarrow> bytes" where
  "fips_hash1 m =
     concat (map (\<lambda>w. be_bytes 4 (unat w)) (foldl (\<lambda>H b. sha1_compress H (be_words b))
       [0x67452301, 0xefcdab89, 0x98badcfe, 0x10325476, 0xc3d2e1f0] (blocks 64 (md_padded True 64 8 m))))"

section \<open>The rounds\<close>

lemma F_fips: "F_00_19 b c d = Ch b c d" "F_40_59 b c d = Maj b c d"
  by (rule bit_eqI; auto simp: F_00_19_def F_40_59_def Ch_def Maj_def bit_simps)+

fun read5 :: "u32 list \<Rightarrow> regs6 \<Rightarrow> quint" where
  "read5 v (a, b, c, d, e, f) = (v ! a, v ! b, v ! c, v ! d, v ! e)"

lemma sha1_bodies:
  assumes "length v = 6" and "r < 6"
  shows "read5 (BODY_00_15 (regs6 ! r) v w) (regs6 ! (Suc r mod 6)) =
      (case read5 v (regs6 ! r) of (a, b, c, d, e) \<Rightarrow> (ROTATE a 5 + F_00_19 b c d + e + K_00_19 + w, a, ROTATE b 30, c, d))"
    and "length (BODY_00_15 (regs6 ! r) v w) = 6"
    and "BODY_16_59 F K (regs6 ! r) xa xb xc xd (v, X) = (v', X') \<Longrightarrow>
      read5 v' (regs6 ! (Suc r mod 6)) = (case read5 v (regs6 ! r) of (a, b, c, d, e) \<Rightarrow>
        (ROTATE a 5 + F b c d + e + K + Xupdate X xa xb xc xd, a, ROTATE b 30, c, d)) \<and>
      X' = X[xa := Xupdate X xa xb xc xd] \<and> length v' = 6"
    and "xa < length X \<Longrightarrow> BODY_60_79 (regs6 ! r) xa xb xc xd (v, X) = (v', X') \<Longrightarrow>
      read5 v' (regs6 ! (Suc r mod 6)) = (case read5 v (regs6 ! r) of (a, b, c, d, e) \<Rightarrow>
        (ROTATE a 5 + F_60_79 b c d + e + K_60_79 + Xupdate X xa xb xc xd, a, ROTATE b 30, c, d)) \<and>
      X' = X[xa := Xupdate X xa xb xc xd] \<and> length v' = 6"
proof -
  obtain x0 x1 x2 x3 x4 x5 where v: "v = [x0, x1, x2, x3, x4, x5]" using assms(1) by (auto simp: numeral_eq_Suc length_Suc_conv)
  have r: "r = 0 \<or> r = 1 \<or> r = 2 \<or> r = 3 \<or> r = 4 \<or> r = 5" using assms(2) by auto
  show "read5 (BODY_00_15 (regs6 ! r) v w) (regs6 ! (Suc r mod 6)) =
      (case read5 v (regs6 ! r) of (a, b, c, d, e) \<Rightarrow> (ROTATE a 5 + F_00_19 b c d + e + K_00_19 + w, a, ROTATE b 30, c, d))"
    using r unfolding v by (elim disjE) (simp_all add: regs6_def Let_def ac_simps)
  show "length (BODY_00_15 (regs6 ! r) v w) = 6"
    using r unfolding v by (elim disjE) (simp_all add: regs6_def Let_def)
  show "BODY_16_59 F K (regs6 ! r) xa xb xc xd (v, X) = (v', X') \<Longrightarrow>
      read5 v' (regs6 ! (Suc r mod 6)) = (case read5 v (regs6 ! r) of (a, b, c, d, e) \<Rightarrow>
        (ROTATE a 5 + F b c d + e + K + Xupdate X xa xb xc xd, a, ROTATE b 30, c, d)) \<and>
      X' = X[xa := Xupdate X xa xb xc xd] \<and> length v' = 6"
    using r unfolding v by (elim disjE) (auto simp: regs6_def Let_def ac_simps)
  show "xa < length X \<Longrightarrow> BODY_60_79 (regs6 ! r) xa xb xc xd (v, X) = (v', X') \<Longrightarrow>
      read5 v' (regs6 ! (Suc r mod 6)) = (case read5 v (regs6 ! r) of (a, b, c, d, e) \<Rightarrow>
        (ROTATE a 5 + F_60_79 b c d + e + K_60_79 + Xupdate X xa xb xc xd, a, ROTATE b 30, c, d)) \<and>
      X' = X[xa := Xupdate X xa xb xc xd] \<and> length v' = 6"
    using r unfolding v by (elim disjE) (auto simp: regs6_def Let_def ac_simps)
qed

definition sha1_inv :: "u32 list \<Rightarrow> quint \<Rightarrow> nat \<Rightarrow> u32 list \<times> u32 list \<Rightarrow> bool" where
  "sha1_inv W H i s \<longleftrightarrow> length (fst s) = 6 \<and> read5 (fst s) (regs6 ! (i mod 6)) = sha1_rounds W i H \<and> ring16 W (i - 16) (snd s)"

lemma sha1_rounds_Suc: "sha1_rounds W (Suc i) H = sha1_round i (W ! i) (sha1_rounds W i H)"
  by (simp add: sha1_rounds_def)

lemma sha1_step_inv:
  assumes W: "W = sha1_schedule M" and M: "length M = 16" and inv: "sha1_inv W H i s" and i: "i < 80"
  shows "sha1_inv W H (Suc i) (sha1_step i s)"
proof -
  obtain v X where s: "s = (v, X)" by force
  obtain a b c d e where r: "sha1_rounds W i H = (a, b, c, d, e)" by (metis prod_cases5)
  have v: "length v = 6" "read5 v (regs6 ! (i mod 6)) = (a, b, c, d, e)" and X: "ring16 W (i - 16) X"
    using inv by (simp_all add: sha1_inv_def s r)
  have m: "Suc i mod 6 = Suc (i mod 6) mod 6" by (simp add: mod_simps)
  have rot: "ROTATE x 5 = word_rotl 5 x" "ROTATE x 30 = word_rotl 30 x" "ROTATE x 1 = word_rotl 1 x" for x
    by (rule ROTATE_rotl; simp)+
  have m6: "i mod 6 < 6" by simp
  note body = sha1_bodies [OF v(1) m6, unfolded v(2) prod.case rot, folded m]
  show ?thesis
  proof (cases "i < 16")
    case True
    then have "X ! i = W ! i" using ring16_nth [of W 0 X i] X by simp
    with True body(1,2) X show ?thesis
      by (simp add: sha1_inv_def sha1_step_def s sha1_rounds_Suc r sha1_f_def sha1_K_def F_fips K_00_19_def)
  next
    case False
    then obtain t where t: "i = t + 16" by (metis add.commute le_Suc_ex not_less)
    then have X: "ring16 W t X" using X by simp
    have nth: "X ! ((i + k) mod 16) = W ! (t + k)" if "k < 16" for k
    proof -
      have "(i + k) mod 16 = (t + k) mod 16" using mod_add_self2 [of "t + k" 16] by (simp add: t ac_simps)
      then show ?thesis using ring16_nth [OF X, of "t + k"] that by simp
    qed
    have d: "t + 16 - 3 = t + 13" "t + 16 - 8 = t + 8" "t + 16 - 14 = t + 2" "t + 16 - 16 = t" by simp_all
    have wi: "W ! i = word_rotl 1 (W ! (t + 13) XOR W ! (t + 8) XOR W ! (t + 2) XOR W ! t)"
      using nth_grow [of M i 64 "\<lambda>W. let t = length W in word_rotl 1 (W ! (t - 3) XOR W ! (t - 8) XOR W ! (t - 14) XOR W ! (t - 16))"]
        M i by (simp add: W sha1_schedule_def min_def t d)
    define xa xb xc xd where "xa = i mod 16" and "xb = (i + 2) mod 16" and "xc = (i + 8) mod 16" and "xd = (i + 13) mod 16"
    have "Xupdate X xa xb xc xd = word_rotl 1 (X ! xa XOR X ! xb XOR X ! xc XOR X ! xd)" unfolding Xupdate_def by (rule rot)
    also have "\<dots> = W ! i"
      using wi nth [of 0] nth [of 2] nth [of 8] nth [of 13] by (simp add: xa_def xb_def xc_def xd_def ac_simps)
    finally have x: "Xupdate X xa xb xc xd = W ! i" .
    have xa: "xa < length X" using X by (simp add: ring16_def xa_def)
    note b3 = body(3) [of _ _ xa xb xc xd X, unfolded x] and b4 = body(4) [OF xa, of xb xc xd, unfolded x]
    obtain v' X' where st: "sha1_step i s = (v', X')" by force
    have "read5 v' (regs6 ! (Suc i mod 6)) = sha1_round i (W ! i) (a, b, c, d, e) \<and> X' = X[xa := W ! i] \<and> length v' = 6"
    proof -
      consider "i < 20" | "20 \<le> i" "i < 40" | "40 \<le> i" "i < 60" | "60 \<le> i" by linarith
      then show ?thesis
      proof cases
        case 1
        then have "BODY_16_59 F_00_19 K_00_19 (regs6 ! (i mod 6)) xa xb xc xd (v, X) = (v', X')"
          using st False by (simp add: sha1_step_def Let_def s xa_def xb_def xc_def xd_def)
        from b3 [OF this] 1 show ?thesis by (simp add: sha1_f_def sha1_K_def F_fips K_00_19_def)
      next
        case 2
        then have "BODY_16_59 F_20_39 K_20_39 (regs6 ! (i mod 6)) xa xb xc xd (v, X) = (v', X')"
          using st False by (simp add: sha1_step_def Let_def s xa_def xb_def xc_def xd_def)
        from b3 [OF this] 2 show ?thesis by (simp add: sha1_f_def sha1_K_def F_20_39_def K_20_39_def)
      next
        case 3
        then have "BODY_16_59 F_40_59 K_40_59 (regs6 ! (i mod 6)) xa xb xc xd (v, X) = (v', X')"
          using st False by (simp add: sha1_step_def Let_def s xa_def xb_def xc_def xd_def)
        from b3 [OF this] 3 show ?thesis by (simp add: sha1_f_def sha1_K_def F_fips K_40_59_def)
      next
        case 4
        then have "BODY_60_79 (regs6 ! (i mod 6)) xa xb xc xd (v, X) = (v', X')"
          using st False by (simp add: sha1_step_def Let_def s xa_def xb_def xc_def xd_def)
        from b4 [OF this] 4 show ?thesis by (simp add: sha1_f_def sha1_K_def F_60_79_def F_20_39_def K_60_79_def)
      qed
    qed
    moreover have "ring16 W (Suc i - 16) (X[xa := W ! i])" using ring16_step [OF X] by (simp add: t xa_def)
    ultimately show ?thesis by (simp add: sha1_inv_def st sha1_rounds_Suc r)
  qed
qed

section \<open>The hash function\<close>

lemma sha1_one_block_eq:
  assumes "length state = 5" and "length data = 64"
  shows "sha1_one_block state data = sha1_compress state (be_words data)"
proof -
  let ?M = "be_words data :: u32 list"
  let ?W = "sha1_schedule ?M" and ?H = "(state ! 0, state ! 1, state ! 2, state ! 3, state ! 4)"
  let ?v = "[state ! 0, state ! 1, state ! 2, state ! 3, state ! 4, 0]"
  have M: "length ?M = 16" using assms(2) by (simp add: be_words_def length_blocks_list)
  have s0: "sha1_inv ?W ?H 0 (?v, ?M)"
    using M by (simp add: sha1_inv_def regs6_def sha1_rounds_def sha1_schedule_def ring16_start)
  have "sha1_inv ?W ?H (0 + 80) (fold sha1_step [0..<80] (?v, ?M))"
    by (rule fold_upt_inv [where P = "sha1_inv ?W ?H", OF s0]) (simp add: sha1_step_inv [OF refl M])
  then obtain v X where vX: "fold sha1_step [0..<80] (?v, ?M) = (v, X)" and v: "read5 v (4, 5, 0, 1, 2, 3) = sha1_rounds ?W 80 ?H"
    by (cases "fold sha1_step [0..<80] (?v, ?M)") (simp add: sha1_inv_def regs6_def)
  have m: "w AND 0xffffffff = w" for w :: u32
  proof -
    have "(0xffffffff :: u32) = -1" by simp
    then show ?thesis by (simp only: and.right_neutral)
  qed
  obtain y0 y1 y2 y3 y4 where st: "state = [y0, y1, y2, y3, y4]" using assms(1) by (auto simp: numeral_eq_Suc length_Suc_conv)
  have "sha1_one_block state data = [state ! 0 + v ! 4, state ! 1 + v ! 5, state ! 2 + v ! 0, state ! 3 + v ! 1, state ! 4 + v ! 2]"
    unfolding sha1_one_block_def Let_def loaded_words [OF assms(2)] vX prod.case m by (simp add: st)
  also have "\<dots> = sha1_compress state ?M" unfolding sha1_compress_def v [symmetric] by simp
  finally show ?thesis .
qed

lemma length_sha1_compress [simp]: "length (sha1_compress H M) = 5"
  by (simp add: sha1_compress_def split: prod.splits)

lemma sha1_fold:
  assumes "length H = 5"
  shows "foldl sha1_one_block H (blocks 64 xs) = foldl (\<lambda>H b. sha1_compress H (be_words b)) H (blocks 64 xs)"
    and "length (foldl sha1_one_block H (blocks 64 xs)) = 5"
proof -
  have "foldl sha1_one_block H bs = foldl (\<lambda>H b. sha1_compress H (be_words b)) H bs \<and> length (foldl sha1_one_block H bs) = 5"
    if "\<forall>b \<in> set bs. length b = 64" for bs
    using assms that
  proof (induction bs arbitrary: H)
    case (Cons b bs)
    then show ?case using Cons.IH [of "sha1_compress H (be_words b)"] by (simp add: sha1_one_block_eq)
  qed simp
  from this [of "blocks 64 xs"] show "foldl sha1_one_block H (blocks 64 xs) = foldl (\<lambda>H b. sha1_compress H (be_words b)) H (blocks 64 xs)"
    and "length (foldl sha1_one_block H (blocks 64 xs)) = 5" by (auto dest: length_blocks)
qed

interpretation sha1: md32 sha1_block_data_order sha1_one_block
  by unfold_locales (rule block_loop, simp_all)

lemma sha1_session: "fst (SHA1_Final (fold (\<lambda>x c. SHA1_Update c x) xs SHA1_Init)) = Some (fips_hash1 (concat xs))"
proof -
  let ?h = "foldl sha1_one_block (md_h SHA1_Init) (blocks 64 (md_padded True 64 8 (concat xs)))"
  have "md32_state sha1_one_block (md_h SHA1_Init) SHA1_Init []" by (rule md32_state_start; simp add: SHA1_Init_def)
  then obtain Nl Nh where f: "SHA1_Final (fold (\<lambda>x c. SHA1_Update c x) xs SHA1_Init) =
      (let c' = SHA1_Init\<lparr>md_h := ?h, md_Nl := Nl, md_Nh := Nh, md_data := replicate 64 0, md_num := 0\<rparr> in (sha1_make_string c', c'))"
    using sha1.session [of "md_h SHA1_Init" SHA1_Init True sha1_make_string xs] unfolding SHA1_Final_def SHA1_Update_def by blast
  have i: "length (md_h SHA1_Init) = 5" by (simp add: SHA1_Init_def)
  have l: "length ?h = 5" by (rule sha1_fold(2) [OF i])
  have "concat (map (\<lambda>w. be_bytes 4 (unat w)) ?h) = fips_hash1 (concat xs)"
    unfolding fips_hash1_def sha1_fold(1) [OF i] by (simp add: SHA1_Init_def)
  moreover have "concat (map (\<lambda>nn. HOST_l2c True (?h ! nn)) [0..<5]) = concat (map (\<lambda>w. be_bytes 4 (unat w)) ?h)"
    using make_string_words [of 5 ?h True] l length_concat_words [of 4 ?h] by (simp add: hash_bytes_def)
  moreover have "[0..<5] = [0, 1, 2, 3, 4 :: nat]" by (simp add: upt_rec)
  ultimately show ?thesis unfolding f by (simp add: sha1_make_string_def Let_def)
qed

section \<open>Property\<close>

text \<open>C20.
  SHA-1 is that of FIPS 180-4, however the input is cut into calls, and so is the one-shot function.
\<close>

theorem sha1_is_fips180_4:
  "fst (SHA1_Final (fold (\<lambda>x c. SHA1_Update c x) xs SHA1_Init)) = Some (fips_hash1 (concat xs)) \<and> SHA1 data = Some (fips_hash1 data)"
  using sha1_session [of xs] sha1_session [of "[data]"] by (simp add: SHA1_def)

end
