(* ===== verification/Sha512.thy ===== *)
theory Sha512
  imports Sha256
begin

text \<open>
  \<^verbatim>\<open>fipsmodule/sha/sha512.c\<close> without assembly, on a 64-bit machine that reads unaligned words (\<^verbatim>\<open>SHA512_BLOCK_CAN_MANAGE_UNALIGNED_DATA\<close>): it has its
  own collector, with blocks of 128 bytes and a counter of 128 bits.  SHA-512 and SHA-384 are shown to be those of FIPS 180-4, and the
  constants of both files to be the digits of roots of primes that the standard prescribes.
\<close>

section \<open>The code\<close>

record sha512_ctx =
  s5_h :: "u64 list"
  s5_Nl :: u64
  s5_Nh :: u64
  s5_p :: bytes
  s5_num :: nat
  s5_md_len :: nat

definition SHA384_DIGEST_LENGTH :: nat where "SHA384_DIGEST_LENGTH = 48"
definition SHA512_DIGEST_LENGTH :: nat where "SHA512_DIGEST_LENGTH = 64"

text \<open>The initialisations leave the buffer as it is, here \<open>p\<close>.\<close>

definition SHA384_Init :: "bytes \<Rightarrow> sha512_ctx" where
  "SHA384_Init p =
     \<lparr>s5_h = [0xcbbb9d5dc1059ed8, 0x629a292a367cd507, 0x9159015a3070dd17, 0x152fecd8f70e5939,
        0x67332667ffc00b31, 0x8eb44a8768581511, 0xdb0c2e0d64f98fa7, 0x47b5481dbefa4fa4],
      s5_Nl = 0, s5_Nh = 0, s5_p = p, s5_num = 0, s5_md_len = SHA384_DIGEST_LENGTH\<rparr>"

definition SHA512_Init :: "bytes \<Rightarrow> sha512_ctx" where
  "SHA512_Init p =
     \<lparr>s5_h = [0x6a09e667f3bcc908, 0xbb67ae8584caa73b, 0x3c6ef372fe94f82b, 0xa54ff53a5f1d36f1,
        0x510e527fade682d1, 0x9b05688c2b3e6c1f, 0x1f83d9abfb41bd6b, 0x5be0cd19137e2179],
      s5_Nl = 0, s5_Nh = 0, s5_p = p, s5_num = 0, s5_md_len = SHA512_DIGEST_LENGTH\<rparr>"

definition K512 :: "u64 list" where
  "K512 =
    [0x428a2f98d728ae22, 0x7137449123ef65cd, 0xb5c0fbcfec4d3b2f, 0xe9b5dba58189dbbc,
     0x3956c25bf348b538, 0x59f111f1b605d019, 0x923f82a4af194f9b, 0xab1c5ed5da6d8118,
     0xd807aa98a3030242, 0x12835b0145706fbe, 0x243185be4ee4b28c, 0x550c7dc3d5ffb4e2,
     0x72be5d74f27b896f, 0x80deb1fe3b1696b1, 0x9bdc06a725c71235, 0xc19bf174cf692694,
     0xe49b69c19ef14ad2, 0xefbe4786384f25e3, 0x0fc19dc68b8cd5b5, 0x240ca1cc77ac9c65,
     0x2de92c6f592b0275, 0x4a7484aa6ea6e483, 0x5cb0a9dcbd41fbd4, 0x76f988da831153b5,
     0x983e5152ee66dfab, 0xa831c66d2db43210, 0xb00327c898fb213f, 0xbf597fc7beef0ee4,
     0xc6e00bf33da88fc2, 0xd5a79147930aa725, 0x06ca6351e003826f, 0x142929670a0e6e70,
     0x27b70a8546d22ffc, 0x2e1b21385c26c926, 0x4d2c6dfc5ac42aed, 0x53380d139d95b3df,
     0x650a73548baf63de, 0x766a0abb3c77b2a8, 0x81c2c92e47edaee6, 0x92722c851482353b,
     0xa2bfe8a14cf10364, 0xa81a664bbc423001, 0xc24b8b70d0f89791, 0xc76c51a30654be30,
     0xd192e819d6ef5218, 0xd69906245565a910, 0xf40e35855771202a, 0x106aa07032bbd1b8,
     0x19a4c116b8d2d0c8, 0x1e376c085141ab53, 0x2748774cdf8eeb99, 0x34b0bcb5e19b48a8,
     0x391c0cb3c5c95a63, 0x4ed8aa4ae3418acb, 0x5b9cca4f7763e373, 0x682e6ff3d6b2b8a3,
     0x748f82ee5defb2fc, 0x78a5636f43172f60, 0x84c87814a1f0ab72, 0x8cc702081a6439ec,
     0x90befffa23631e28, 0xa4506cebde82bde9, 0xbef9a3f7b2c67915, 0xc67178f2e372532b,
     0xca273eceea26619c, 0xd186b8c721c0c207, 0xeada7dd6cde0eb1e, 0xf57d4f7fee6ed178,
     0x06f067aa72176fba, 0x0a637dc5a2c898a6, 0x113f9804bef90dae, 0x1b710b35131c471b,
     0x28db77f523047d84, 0x32caab7b40c72493, 0x3c9ebe0a15c9bebc, 0x431d67c49c100d4c,
     0x4cc5d4becb3e42b6, 0x597f299cfc657e2a, 0x5fcb6fab3ad6faec, 0x6c44198c4a475817]"

definition B :: "bytes \<Rightarrow> nat \<Rightarrow> u64" where
  "B x j = push_bit ((7 - j) * 8) (ucast (x ! j))"

definition PULL64 :: "bytes \<Rightarrow> u64" where
  "PULL64 x = B x 0 OR B x 1 OR B x 2 OR B x 3 OR B x 4 OR B x 5 OR B x 6 OR B x 7"

definition ROTR :: "u64 \<Rightarrow> nat \<Rightarrow> u64" where
  "ROTR x s = drop_bit s x OR push_bit (64 - s) x"

definition Sigma0_512 :: "u64 \<Rightarrow> u64" where "Sigma0_512 x = ROTR x 28 XOR ROTR x 34 XOR ROTR x 39"
definition Sigma1_512 :: "u64 \<Rightarrow> u64" where "Sigma1_512 x = ROTR x 14 XOR ROTR x 18 XOR ROTR x 41"
definition sigma0_512 :: "u64 \<Rightarrow> u64" where "sigma0_512 x = ROTR x 1 XOR ROTR x 8 XOR drop_bit 7 x"
definition sigma1_512 :: "u64 \<Rightarrow> u64" where "sigma1_512 x = ROTR x 19 XOR ROTR x 61 XOR drop_bit 6 x"

definition sha512_fns :: "u64 sha2" where
  "sha512_fns = \<lparr>s_Sigma0 = Sigma0_512, s_Sigma1 = Sigma1_512, s_sigma0 = sigma0_512, s_sigma1 = sigma1_512, s_K = K512\<rparr>"

definition sha512_one_block :: "u64 list \<Rightarrow> bytes \<Rightarrow> u64 list" where
  "sha512_one_block state W =
     (let X = map (\<lambda>i. PULL64 (take 8 (drop (8 * i) W))) [0..<16];
          v = state;
          (v, X) = fold (\<lambda>i (v, X). (ROUND_00_15 sha512_fns i (regs8 ! (i mod 8)) v (X ! i), X)) [0..<16] (v, X);
          (v, X) = fold (\<lambda>i vX. fold (\<lambda>j vX. ROUND_16 sha512_fns (16 + 16 * i + j) j (regs8 ! (j mod 8)) vX) [0..<16] vX) [0..<4] (v, X)
      in map2 (+) state v)"

fun sha512_block_data_order :: "u64 list \<Rightarrow> bytes \<Rightarrow> nat \<Rightarrow> u64 list" where
  "sha512_block_data_order state W 0 = state"
| "sha512_block_data_order state W (Suc num) = sha512_block_data_order (sha512_one_block state (take 128 W)) (drop 128 W) num"

definition SHA512_Transform :: "sha512_ctx \<Rightarrow> bytes \<Rightarrow> sha512_ctx" where
  "SHA512_Transform c data = c\<lparr>s5_h := sha512_block_data_order (s5_h c) data 1\<rparr>"

text \<open>The part of \<^verbatim>\<open>SHA512_Update\<close> after the buffer was completed or found empty.\<close>

definition sha512_rest :: "sha512_ctx \<Rightarrow> bytes \<Rightarrow> sha512_ctx" where
  "sha512_rest c data =
     (let len = length data;
          (c, data) = (if len \<ge> 128 then
             (c\<lparr>s5_h := sha512_block_data_order (s5_h c) data (len div 128)\<rparr>, drop (len - len mod 128) data) else (c, data))
      in if data \<noteq> [] then c\<lparr>s5_p := mem_write (s5_p c) 0 data, s5_num := length data\<rparr> else c)"

definition SHA512_Update :: "sha512_ctx \<Rightarrow> bytes \<Rightarrow> sha512_ctx" where
  "SHA512_Update c data =
     (let len = length data
      in if len = 0 then c
         else
           let l = (s5_Nl c + push_bit 3 (of_nat len)) AND 0xffffffffffffffff;
               c = (if l < s5_Nl c then c\<lparr>s5_Nh := s5_Nh c + 1\<rparr> else c);
               c = c\<lparr>s5_Nh := s5_Nh c + of_nat (drop_bit 61 len)\<rparr>;
               c = c\<lparr>s5_Nl := l\<rparr>
           in if s5_num c \<noteq> 0 then
                let n = 128 - s5_num c
                in if len < n then c\<lparr>s5_p := mem_write (s5_p c) (s5_num c) data, s5_num := s5_num c + len\<rparr>
                   else
                     let c = c\<lparr>s5_p := mem_write (s5_p c) (s5_num c) (take n data), s5_num := 0\<rparr>;
                         data = drop n data;
                         c = c\<lparr>s5_h := sha512_block_data_order (s5_h c) (s5_p c) 1\<rparr>
                     in sha512_rest c data
              else sha512_rest c data)"

definition sha512_pad :: "sha512_ctx \<Rightarrow> sha512_ctx" where
  "sha512_pad sha =
     (let p = s5_p sha;
          n = s5_num sha;
          p = p[n := 0x80];
          n = n + 1;
          (p, n, h) = (if n > 128 - 16 then
                         let p = mem_write p n (replicate (128 - n) 0)
                         in (p, 0, sha512_block_data_order (s5_h sha) p 1)
                       else (p, n, s5_h sha));
          p = mem_write p n (replicate (128 - 16 - n) 0);
          p = fold (\<lambda>i p. p[128 - 1 - i := ucast (drop_bit (8 * i) (s5_Nl sha))]) [0..<8] p;
          p = fold (\<lambda>i p. p[128 - 9 - i := ucast (drop_bit (8 * i) (s5_Nh sha))]) [0..<8] p
      in sha\<lparr>s5_p := p, s5_h := sha512_block_data_order h p 1\<rparr>)"

definition put_words :: "u64 list \<Rightarrow> nat \<Rightarrow> bytes" where
  "put_words h len = concat (map (\<lambda>n. map (\<lambda>i. ucast (drop_bit (56 - 8 * i) (h ! n))) [0..<8]) [0..<len div 8])"

definition SHA512_Final :: "bool \<Rightarrow> sha512_ctx \<Rightarrow> bytes option \<times> sha512_ctx" where
  "SHA512_Final md_is_null sha =
     (let sha = sha512_pad sha
      in if md_is_null then (None, sha)
         else if s5_md_len sha = SHA384_DIGEST_LENGTH then (Some (put_words (s5_h sha) SHA384_DIGEST_LENGTH), sha)
         else if s5_md_len sha = SHA512_DIGEST_LENGTH then (Some (put_words (s5_h sha) SHA512_DIGEST_LENGTH), sha)
         else (None, sha))"

definition SHA384_Update :: "sha512_ctx \<Rightarrow> bytes \<Rightarrow> sha512_ctx" where
  "SHA384_Update sha data = SHA512_Update sha data"

definition SHA384_Final :: "bool \<Rightarrow> sha512_ctx \<Rightarrow> bytes option \<times> sha512_ctx" where
  "SHA384_Final md_is_null sha = SHA512_Final md_is_null sha"

definition SHA384 :: "bytes \<Rightarrow> bytes \<Rightarrow> bytes option" where
  "SHA384 p data = fst (SHA384_Final False (SHA384_Update (SHA384_Init p) data))"

definition SHA512 :: "bytes \<Rightarrow> bytes \<Rightarrow> bytes option" where
  "SHA512 p data = fst (SHA512_Final False (SHA512_Update (SHA512_Init p) data))"

section \<open>The standard\<close>

definition fips_sha512 :: "u64 sha2" where
  "fips_sha512 =
     \<lparr>s_Sigma0 = (\<lambda>x. word_rotr 28 x XOR word_rotr 34 x XOR word_rotr 39 x),
      s_Sigma1 = (\<lambda>x. word_rotr 14 x XOR word_rotr 18 x XOR word_rotr 41 x),
      s_sigma0 = (\<lambda>x. word_rotr 1 x XOR word_rotr 8 x XOR drop_bit 7 x),
      s_sigma1 = (\<lambda>x. word_rotr 19 x XOR word_rotr 61 x XOR drop_bit 6 x),
      s_K = K512\<rparr>"

definition fips_hash512 :: "u64 list \<Rightarrow> bytes \<Rightarrow> bytes" where
  "fips_hash512 H0 m =
     concat (map (\<lambda>w. be_bytes 8 (unat w)) (foldl (\<lambda>H b. sha2_compress fips_sha512 80 H (be_words b)) H0 (blocks 128 (md_padded True 128 16 m))))"

lemma sha512_fns_eq: "sha512_fns = fips_sha512"
proof -
  have "ROTR x s = word_rotr s x" if "s < 64" for x s using rotate_rotr [of s x] that by (simp add: ROTR_def or.commute)
  then show ?thesis
    by (simp add: sha512_fns_def fips_sha512_def Sigma0_512_def [abs_def] Sigma1_512_def [abs_def] sigma0_512_def [abs_def] sigma1_512_def [abs_def])
qed

section \<open>Bytes and words\<close>

lemma PULL64_be:
  assumes "length x = 8"
  shows "PULL64 x = of_nat (be_nat x)"
proof (rule bit_eqI)
  fix j
  assume "possible_bit TYPE(64 word) j"
  then have j: "j < 64" by simp
  define d r where "d = j div 8" and "r = j mod 8"
  have jd: "j = 8 * d + r" "r < 8" by (simp_all add: d_def r_def)
  with j have d: "d = 0 \<or> d = 1 \<or> d = 2 \<or> d = 3 \<or> d = 4 \<or> d = 5 \<or> d = 6 \<or> d = 7" by auto
  then have d7: "d \<le> 7" by auto
  have byte: "\<not> bit (b :: u8) k" if "8 \<le> k" for b k using that by (auto dest: bit_imp_le_length)
  have B: "bit (B x i) j \<longleftrightarrow> i = 7 - d \<and> bit (x ! i) r" if "i < 8" for i
  proof -
    have "bit (B x i) j \<longleftrightarrow> (7 - i) * 8 \<le> j \<and> bit (x ! i) (j - (7 - i) * 8)"
      using j by (auto simp: B_def bit_push_bit_iff bit_ucast_iff)
    also have "\<dots> \<longleftrightarrow> i = 7 - d \<and> bit (x ! i) r"
    proof (cases "7 - i" d rule: linorder_cases)
      case less
      then have "8 \<le> j - (7 - i) * 8" using jd by simp
      then have "\<not> bit (x ! i) (j - (7 - i) * 8)" by (rule byte)
      moreover have "i \<noteq> 7 - d" using less d7 by arith
      ultimately show ?thesis by blast
    next
      case equal
      then show ?thesis using jd that by auto
    next
      case greater
      then have "\<not> (7 - i) * 8 \<le> j" using jd by simp
      moreover have "i \<noteq> 7 - d" using greater d7 by arith
      ultimately show ?thesis by blast
    qed
    finally show ?thesis .
  qed
  have "bit (of_nat (be_nat x) :: u64) j \<longleftrightarrow> bit (x ! (7 - d)) r"
    using j assms d7 by (simp add: bit_word_of_nat bit_be_nat flip: d_def r_def)
  moreover have "bit (PULL64 x) j \<longleftrightarrow> bit (x ! (7 - d)) r"
  proof -
    have "bit (PULL64 x) j \<longleftrightarrow> bit (B x 0) j \<or> bit (B x 1) j \<or> bit (B x 2) j \<or> bit (B x 3) j \<or> bit (B x 4) j \<or> bit (B x 5) j \<or>
        bit (B x 6) j \<or> bit (B x 7) j"
      by (simp add: PULL64_def bit_or_iff)
    then show ?thesis using d by (elim disjE) (simp_all add: B)
  qed
  ultimately show "bit (PULL64 x) j = bit (of_nat (be_nat x) :: u64) j" by simp
qed

lemma nth_be_bytes: "i < n \<Longrightarrow> be_bytes n v ! i = of_nat (v div 256 ^ (n - 1 - i))"
proof (induction n arbitrary: v)
  case (Suc n)
  then show ?case by (cases "i = n") (simp_all add: nth_append Suc_diff_Suc flip: div_mult2_eq power_Suc)
qed simp

lemma byte_of_word: "ucast (drop_bit (8 * k) (w :: 'a::len word)) = (of_nat (unat w div 256 ^ k) :: u8)"
  by (simp add: ucast_byte_unat unat_drop_bit_div power_mult)

lemma put_words_eq:
  assumes "n \<le> length h"
  shows "put_words h (8 * n) = take (8 * n) (concat (map (\<lambda>w. be_bytes 8 (unat w)) h))"
proof -
  have "map (\<lambda>i. ucast (drop_bit (56 - 8 * i) w)) [0..<8] = be_bytes 8 (unat w)" for w :: u64
  proof (rule nth_equalityI)
    fix i
    assume "i < length (map (\<lambda>i. ucast (drop_bit (56 - 8 * i) w) :: u8) [0..<8])"
    then have i: "i < 8" by simp
    have "56 - 8 * i = 8 * (7 - i)" by simp
    then show "map (\<lambda>i. ucast (drop_bit (56 - 8 * i) w)) [0..<8] ! i = be_bytes 8 (unat w) ! i"
      using i byte_of_word [of "7 - i" w] by (simp add: nth_be_bytes)
  qed simp
  then have "map (\<lambda>k. map (\<lambda>i. ucast (drop_bit (56 - 8 * i) (h ! k))) [0..<8]) [0..<n] = map (\<lambda>w. be_bytes 8 (unat w)) (take n h)"
    using assms by (intro nth_equalityI) simp_all
  then show ?thesis by (simp add: put_words_def take_concat_map)
qed

lemma put_bytes:
  "m + 8 \<le> length p \<Longrightarrow> fold (\<lambda>i p. p[m + 7 - i := ucast (drop_bit (8 * i) (w :: u64))]) [0..<8] p = mem_write p m (be_bytes 8 (unat w))"
proof (rule nth_equalityI)
  assume m: "m + 8 \<le> length p"
  have l: "length (fold (\<lambda>i p. p[m + 7 - i := ucast (drop_bit (8 * i) w)]) is p) = length p" for "is"
    by (induction "is" arbitrary: p) simp_all
  show "length (fold (\<lambda>i p. p[m + 7 - i := ucast (drop_bit (8 * i) w)]) [0..<8] p) = length (mem_write p m (be_bytes 8 (unat w)))"
    using m l by (simp add: length_mem_write)
  have n: "fold (\<lambda>i p. p[m + 7 - i := ucast (drop_bit (8 * i) w)]) [0..<k] p ! j =
      (if m + 8 - k \<le> j \<and> j < m + 8 then ucast (drop_bit (8 * (m + 7 - j)) w) else p ! j)" if "k \<le> 8" "j < length p" for k j
    using that(1)
  proof (induction k)
    case (Suc k)
    then show ?case using that(2) m by (cases "j = m + 7 - k") (auto simp: l nth_list_update)
  qed auto
  fix j
  assume "j < length (fold (\<lambda>i p. p[m + 7 - i := ucast (drop_bit (8 * i) w)]) [0..<8] p)"
  then have j: "j < length p" by (simp add: l)
  show "fold (\<lambda>i p. p[m + 7 - i := ucast (drop_bit (8 * i) w)]) [0..<8] p ! j = mem_write p m (be_bytes 8 (unat w)) ! j"
    using m j n [of 8 j] byte_of_word [of "m + 7 - j" w] by (auto simp: nth_mem_write nth_be_bytes add.commute)
qed

section \<open>The block function\<close>

lemma sha512_one_block_eq:
  assumes "length state = 8" and "length data = 128"
  shows "sha512_one_block state data = sha2_compress fips_sha512 80 state (be_words data)"
proof -
  let ?F = "fips_sha512" and ?M = "be_words data :: u64 list"
  let ?W = "sha2_schedule ?F 64 ?M" and ?H = "(state ! 0, state ! 1, state ! 2, state ! 3, state ! 4, state ! 5, state ! 6, state ! 7)"
  have M: "length ?M = 16" using assms(2) by (simp add: be_words_def length_blocks_list)
  have ld: "map (\<lambda>i. PULL64 (take 8 (drop (8 * i) data))) [0..<16] = ?M"
    using assms(2) by (intro nth_equalityI) (simp_all add: M be_words_def length_blocks_list nth_blocks PULL64_be)
  let ?s1 = "fold (\<lambda>i (v, X). (ROUND_00_15 ?F i (regs8 ! (i mod 8)) v (X ! i), X)) [0..<16] (state, ?M)"
  have s1: "sha2_inv ?F ?W ?H (0 + 16) ?s1"
    by (rule fold_upt_inv [where P = "sha2_inv ?F ?W ?H", OF sha2_inv_start [OF assms(1) M]]) (auto simp: ROUND_00_15_inv)
  let ?s2 = "fold (\<lambda>i vX. fold (\<lambda>j vX. ROUND_16 ?F (16 + 16 * i + j) j (regs8 ! (j mod 8)) vX) [0..<16] vX) [0..<4] ?s1"
  have "sha2_inv ?F ?W ?H (16 + 16 * (0 + 4)) ?s2"
  proof (rule fold_upt_inv [where P = "\<lambda>k. sha2_inv ?F ?W ?H (16 + 16 * k)"])
    fix k s
    assume k: "k < 4" and s: "sha2_inv ?F ?W ?H (16 + 16 * (0 + k)) s"
    have "sha2_inv ?F ?W ?H (16 + 16 * k + 16) (fold (\<lambda>j vX. ROUND_16 ?F (16 + 16 * k + j) j (regs8 ! (j mod 8)) vX) [0..<16] s)"
    proof (rule fold_upt_inv)
      fix j s
      assume j: "j < 16" and "sha2_inv ?F ?W ?H (16 + 16 * k + j) s"
      moreover have "j mod 16 = (16 + 16 * k + j) mod 16" using mod_mult_self2 [of j 16 "1 + k"] by (simp add: algebra_simps)
      ultimately have "sha2_inv ?F ?W ?H (Suc (16 + 16 * k + j)) (ROUND_16 ?F (16 + 16 * k + j) j (regs8 ! ((16 + 16 * k + j) mod 8)) s)"
        using k by (intro ROUND_16_inv [OF refl M]) simp_all
      moreover have "(16 + 16 * k + j) mod 8 = j mod 8" using mod_mult_self2 [of j 8 "2 + 2 * k"] by (simp add: algebra_simps)
      ultimately show "sha2_inv ?F ?W ?H (Suc (16 + 16 * k + j)) (ROUND_16 ?F (16 + 16 * k + j) j (regs8 ! (j mod 8)) s)"
        by (simp only:)
    qed (use s in simp)
    then show "sha2_inv ?F ?W ?H (16 + 16 * Suc (0 + k)) (fold (\<lambda>j vX. ROUND_16 ?F (16 + 16 * k + j) j (regs8 ! (j mod 8)) vX) [0..<16] s)"
      by (simp add: algebra_simps)
  qed (use s1 in simp)
  then have "map2 (+) state (fst ?s2) = sha2_compress ?F 80 state ?M" using sha2_inv_end [of ?F 80 ?M state ?s2] assms(1) by simp
  then show ?thesis by (simp add: sha512_one_block_def Let_def split_beta ld sha512_fns_eq)
qed

lemma sha512_fold:
  assumes "length H = 8"
  shows "foldl sha512_one_block H (blocks 128 xs) = foldl (\<lambda>H b. sha2_compress fips_sha512 80 H (be_words b)) H (blocks 128 xs)"
    and "length (foldl sha512_one_block H (blocks 128 xs)) = 8"
proof -
  have "foldl sha512_one_block H bs = foldl (\<lambda>H b. sha2_compress fips_sha512 80 H (be_words b)) H bs \<and> length (foldl sha512_one_block H bs) = 8"
    if "\<forall>b \<in> set bs. length b = 128" for bs
    using assms that
  proof (induction bs arbitrary: H)
    case (Cons b bs)
    then show ?case using Cons.IH [of "sha2_compress fips_sha512 80 H (be_words b)"] by (simp add: sha512_one_block_eq)
  qed simp
  from this [of "blocks 128 xs"] show "foldl sha512_one_block H (blocks 128 xs) = foldl (\<lambda>H b. sha2_compress fips_sha512 80 H (be_words b)) H (blocks 128 xs)"
    and "length (foldl sha512_one_block H (blocks 128 xs)) = 8" by (auto dest: length_blocks)
qed

section \<open>The collector\<close>

lemma sha512_blocks: "128 * n \<le> length data \<Longrightarrow> sha512_block_data_order h data n = foldl sha512_one_block h (blocks 128 (take (128 * n) data))"
  by (rule block_loop) simp_all

lemma sha512_block: "length data = 128 \<Longrightarrow> sha512_block_data_order h data (Suc 0) = sha512_one_block h data"
  by simp

definition sha512_state :: "u64 list \<Rightarrow> sha512_ctx \<Rightarrow> bytes \<Rightarrow> bool" where
  "sha512_state h0 c xs \<longleftrightarrow> absorbed sha512_one_block 128 h0 xs (s5_h c) (s5_p c) (s5_num c) \<and>
     unat (s5_Nh c) * 2 ^ 64 + unat (s5_Nl c) = 8 * length xs mod 2 ^ 128"

lemma sha512_rest_absorbed:
  assumes "absorbed sha512_one_block 128 h0 xs (s5_h c) (s5_p c) 0" and "s5_num c = 0"
  shows "absorbed sha512_one_block 128 h0 (xs @ ys) (s5_h (sha512_rest c ys)) (s5_p (sha512_rest c ys)) (s5_num (sha512_rest c ys)) \<and>
    s5_Nh (sha512_rest c ys) = s5_Nh c \<and> s5_Nl (sha512_rest c ys) = s5_Nl c \<and> s5_md_len (sha512_rest c ys) = s5_md_len c"
proof -
  define k where "k = length ys div 128"
  define h where "h = foldl sha512_one_block (s5_h c) (blocks 128 (take (k * 128) ys))"
  have kl: "k * 128 \<le> length ys" by (simp add: k_def)
  have h: "absorbed sha512_one_block 128 h0 (xs @ take (k * 128) ys) h (s5_p c) 0"
    using absorbed_blocks [OF _ assms(1), of ys] by (simp add: k_def h_def)
  have len: "length (drop (k * 128) ys) < 128" by (simp add: k_def minus_div_mult_eq_mod)
  have d: "length ys - length ys mod 128 = k * 128" by (simp add: k_def minus_mod_eq_div_mult)
  have r: "sha512_rest c ys = (let c = c\<lparr>s5_h := h\<rparr> in if drop (k * 128) ys \<noteq> []
      then c\<lparr>s5_p := mem_write (s5_p c) 0 (drop (k * 128) ys), s5_num := length (drop (k * 128) ys)\<rparr> else c)"
  proof (cases "128 \<le> length ys")
    case False
    then have "k = 0" by (simp add: k_def)
    then show ?thesis using False by (simp add: sha512_rest_def h_def)
  next
    case True
    have "sha512_block_data_order (s5_h c) ys k = h" using sha512_blocks [of k ys "s5_h c"] kl by (simp add: h_def mult.commute)
    with True show ?thesis by (simp add: sha512_rest_def Let_def d flip: k_def)
  qed
  show ?thesis
  proof (cases "drop (k * 128) ys = []")
    case True
    then have "take (k * 128) ys = ys" by simp
    then show ?thesis using h r True assms(2) by simp
  next
    case False
    then show ?thesis using absorbed_keep [OF _ h, of "drop (k * 128) ys"] len r assms(2) by (simp add: Let_def)
  qed
qed

lemma sha512_update_state:
  assumes "sha512_state h0 c xs"
  shows "sha512_state h0 (SHA512_Update c ys) (xs @ ys)" and "s5_md_len (SHA512_Update c ys) = s5_md_len c"
proof -
  have "sha512_state h0 (SHA512_Update c ys) (xs @ ys) \<and> s5_md_len (SHA512_Update c ys) = s5_md_len c"
  proof (cases "ys = []")
    case True
    then show ?thesis using assms by (simp add: SHA512_Update_def)
  next
    case False
    let ?len = "length ys" and ?num = "s5_num c"
    have m: "w AND 0xffffffffffffffff = w" for w :: u64
    proof -
      have "(0xffffffffffffffff :: u64) = -1" by simp
      then show ?thesis by (simp only: and.right_neutral)
    qed
    define l where "l = s5_Nl c + push_bit 3 (of_nat ?len)"
    define c1 where "c1 = c\<lparr>s5_Nh := (if l < s5_Nl c then s5_Nh c + 1 else s5_Nh c) + of_nat (drop_bit 61 ?len), s5_Nl := l\<rparr>"
    have a: "absorbed sha512_one_block 128 h0 xs (s5_h c) (s5_p c) ?num"
      and t: "unat (s5_Nh c) * 2 ^ 64 + unat (s5_Nl c) = 8 * length xs mod 2 ^ 128"
      using assms by (simp_all add: sha512_state_def)
    have t1: "unat (s5_Nh c1) * 2 ^ 64 + unat (s5_Nl c1) = 8 * length (xs @ ys) mod 2 ^ 128"
      using count_bits [of "s5_Nh c" "s5_Nl c" "8 * length xs" ?len] t by (simp add: c1_def l_def)
    have u: "SHA512_Update c ys = (if ?num \<noteq> 0 then
        if ?len < 128 - ?num then c1\<lparr>s5_p := mem_write (s5_p c) ?num ys, s5_num := ?num + ?len\<rparr>
        else sha512_rest (c1\<lparr>s5_p := mem_write (s5_p c) ?num (take (128 - ?num) ys), s5_num := 0,
            s5_h := sha512_block_data_order (s5_h c) (mem_write (s5_p c) ?num (take (128 - ?num) ys)) 1\<rparr>) (drop (128 - ?num) ys)
      else sha512_rest c1 ys)"
      unfolding SHA512_Update_def m using False by (simp add: Let_def c1_def flip: l_def)
    have f1: "s5_h c1 = s5_h c" "s5_p c1 = s5_p c" "s5_num c1 = ?num" "s5_md_len c1 = s5_md_len c"
      by (simp_all add: c1_def)
    have n: "?num < 128" using absorbed_num [OF _ a] by simp
    consider (empty) "?num = 0" | (keep) "?num \<noteq> 0" "?num + ?len < 128" | (fill) "?num \<noteq> 0" "128 \<le> ?num + ?len" by linarith
    then show ?thesis
    proof cases
      case empty
      then show ?thesis using sha512_rest_absorbed [of h0 xs c1 ys] a f1 t1 by (simp add: sha512_state_def u)
    next
      case keep
      then have "?len < 128 - ?num" by simp
      then show ?thesis using keep absorbed_keep [OF _ a, of ys] f1 t1 by (simp add: sha512_state_def u)
    next
      case fill
      let ?b = "mem_write (s5_p c) ?num (take (128 - ?num) ys)"
      have b: "length ?b = 128" using a fill n by (simp add: absorbed_def mem_write_def)
      have "absorbed sha512_one_block 128 h0 (xs @ take (128 - ?num) ys) (sha512_block_data_order (s5_h c) ?b 1) ?b 0"
        using absorbed_fill [OF _ a, of "take (128 - ?num) ys" ?b] fill b by (simp add: sha512_block [OF b])
      then show ?thesis
        using sha512_rest_absorbed [of h0 "xs @ take (128 - ?num) ys"
            "c1\<lparr>s5_p := ?b, s5_num := 0, s5_h := sha512_block_data_order (s5_h c) ?b 1\<rparr>" "drop (128 - ?num) ys"] fill f1 t1
        by (auto simp: sha512_state_def u)
    qed
  qed
  then show "sha512_state h0 (SHA512_Update c ys) (xs @ ys)" and "s5_md_len (SHA512_Update c ys) = s5_md_len c" by blast+
qed

lemma sha512_pad_state:
  assumes "sha512_state h0 c xs"
  shows "s5_h (sha512_pad c) = foldl sha512_one_block h0 (blocks 128 (md_padded True 128 16 xs))"
    and "s5_md_len (sha512_pad c) = s5_md_len c"
proof -
  let ?n = "s5_num c" and ?d = "s5_p c"
  define len where "len = hash_bytes True 16 (8 * length xs)"
  have a: "absorbed sha512_one_block 128 h0 xs (s5_h c) ?d ?n"
    and t: "unat (s5_Nh c) * 2 ^ 64 + unat (s5_Nl c) = 8 * length xs mod 2 ^ 128"
    using assms by (simp_all add: sha512_state_def)
  have n: "?n < 128" "length xs mod 128 = ?n" "length ?d = 128" using absorbed_num [OF _ a] a by (simp_all add: absorbed_def)
  have len: "be_bytes 8 (unat (s5_Nh c)) @ be_bytes 8 (unat (s5_Nl c)) = len"
    using hash_bytes_two [of 8 True "s5_Nh c" "s5_Nl c"] hash_bytes_mod [of True 16 "8 * length xs"] t
    by (simp add: len_def hash_bytes_def)
  have ll: "length len = 16" by (simp add: len_def)
  have w: "fold (\<lambda>i p. p[128 - 9 - i := ucast (drop_bit (8 * i) (s5_Nh c))]) [0..<8]
      (fold (\<lambda>i p. p[128 - 1 - i := ucast (drop_bit (8 * i) (s5_Nl c))]) [0..<8] (mem_write buf k (replicate (112 - k) 0))) =
      mem_write buf k (replicate (112 - k) 0 @ len)"
    if "k \<le> 112" "length buf = 128" for buf k
  proof -
    let ?b = "mem_write buf k (replicate (112 - k) 0)"
    have lb: "length ?b = 128" using that by (simp add: length_mem_write)
    have "fold (\<lambda>i p. p[128 - 1 - i := ucast (drop_bit (8 * i) (s5_Nl c))]) [0..<8] ?b = mem_write ?b 120 (be_bytes 8 (unat (s5_Nl c)))"
      using put_bytes [of 120 ?b "s5_Nl c"] lb by simp
    moreover have "fold (\<lambda>i p. p[128 - 9 - i := ucast (drop_bit (8 * i) (s5_Nh c))]) [0..<8] p = mem_write p 112 (be_bytes 8 (unat (s5_Nh c)))"
      if "length p = 128" for p using put_bytes [of 112 p "s5_Nh c"] that by simp
    moreover have "mem_write (mem_write p 120 (be_bytes 8 (unat (s5_Nl c)))) 112 (be_bytes 8 (unat (s5_Nh c))) = mem_write p 112 len"
      if "length p = 128" for p using that by (simp add: mem_write_def flip: len)
    moreover have "mem_write ?b 112 len = mem_write buf k (replicate (112 - k) 0 @ len)"
      using mem_write_append [of k "replicate (112 - k) 0" buf len] that by simp
    ultimately show ?thesis using lb by (simp add: length_mem_write)
  qed
  have "s5_h (sha512_pad c) = foldl sha512_one_block h0 (blocks 128 (md_padded True 128 16 xs)) \<and> s5_md_len (sha512_pad c) = s5_md_len c"
  proof (cases "?n < 112")
    case True
    let ?b = "mem_write ?d ?n (0x80 # replicate (111 - ?n) 0 @ len)"
    have "mem_write (?d[?n := 0x80]) (?n + 1) (replicate (111 - ?n) 0 @ len) = ?b"
      using mem_write_append [of ?n "[0x80]" ?d "replicate (111 - ?n) 0 @ len"] n by (simp add: mem_write_one)
    then have b: "sha512_pad c = c\<lparr>s5_p := ?b, s5_h := sha512_block_data_order (s5_h c) ?b 1\<rparr>"
      using w [of "?n + 1" "?d[?n := 0x80]"] True n by (simp add: sha512_pad_def Let_def)
    have p: "md_padded True 128 16 xs = xs @ 0x80 # replicate (111 - ?n) 0 @ len"
      using True n by (simp add: md_padded_def len_def mod_if)
    have lb: "length ?b = 128" using n True by (simp add: mem_write_def ll)
    have "absorbed sha512_one_block 128 h0 (xs @ 0x80 # replicate (111 - ?n) 0 @ len) (sha512_one_block (s5_h c) ?b) ?d 0"
      using absorbed_fill [OF _ a, of "0x80 # replicate (111 - ?n) 0 @ len" ?d] True n by (simp add: ll)
    then show ?thesis using b sha512_block [OF lb] p by (simp add: absorbed_def)
  next
    case False
    let ?b = "mem_write ?d ?n (0x80 # replicate (127 - ?n) 0)"
    have d1: "mem_write (?d[?n := 0x80]) (?n + 1) (replicate (127 - ?n) 0) = ?b"
      using mem_write_append [of ?n "[0x80]" ?d "replicate (127 - ?n) 0"] n by (simp add: mem_write_one)
    have lb: "length ?b = 128" using n by (simp add: mem_write_def)
    let ?b2 = "mem_write ?b 0 (replicate 112 0 @ len)"
    have l2: "length ?b2 = 128" using lb by (simp add: mem_write_def ll)
    have b: "sha512_pad c = c\<lparr>s5_p := ?b2, s5_h := sha512_block_data_order (sha512_block_data_order (s5_h c) ?b 1) ?b2 1\<rparr>"
      using w [of 0 ?b] False n lb d1 by (simp add: sha512_pad_def Let_def)
    have p: "md_padded True 128 16 xs = (xs @ 0x80 # replicate (127 - ?n) 0) @ replicate 112 0 @ len"
    proof -
      have "(239 - ?n) mod 128 = (127 - ?n) + 112" using False n by (simp add: mod_if)
      then have "replicate ((239 - ?n) mod 128) 0 = replicate (127 - ?n) (0 :: u8) @ replicate 112 0" by (simp only: replicate_add)
      then show ?thesis using n by (simp add: md_padded_def len_def)
    qed
    have a1: "absorbed sha512_one_block 128 h0 (xs @ 0x80 # replicate (127 - ?n) 0) (sha512_one_block (s5_h c) ?b) ?b 0"
      using absorbed_fill [OF _ a, of "0x80 # replicate (127 - ?n) 0" ?b] n lb by simp
    have "absorbed sha512_one_block 128 h0 ((xs @ 0x80 # replicate (127 - ?n) 0) @ replicate 112 0 @ len)
        (sha512_one_block (sha512_one_block (s5_h c) ?b) ?b2) ?d 0"
      using absorbed_fill [OF _ a1, of "replicate 112 0 @ len" ?d] n by (simp add: ll)
    then show ?thesis using b sha512_block [OF lb] sha512_block [OF l2] p by (simp add: absorbed_def)
  qed
  then show "s5_h (sha512_pad c) = foldl sha512_one_block h0 (blocks 128 (md_padded True 128 16 xs))"
    and "s5_md_len (sha512_pad c) = s5_md_len c" by blast+
qed

lemma sha512_updates_state:
  assumes "sha512_state h0 c xs"
  shows "sha512_state h0 (fold (\<lambda>y c. SHA512_Update c y) ys c) (xs @ concat ys) \<and>
    s5_md_len (fold (\<lambda>y c. SHA512_Update c y) ys c) = s5_md_len c"
  using assms
proof (induction ys arbitrary: c xs)
  case (Cons y ys)
  from Cons.IH [OF sha512_update_state(1) [OF Cons.prems]] sha512_update_state(2) [OF Cons.prems] show ?case by simp
qed simp

lemma sha512_session:
  assumes "sha512_state H c []" and "length H = 8" and "s5_md_len c = 48 \<or> s5_md_len c = 64"
  shows "fst (SHA512_Final False (fold (\<lambda>x c. SHA512_Update c x) xs c)) = Some (take (s5_md_len c) (fips_hash512 H (concat xs)))"
proof -
  let ?c = "fold (\<lambda>x c. SHA512_Update c x) xs c"
  let ?h = "s5_h (sha512_pad ?c)"
  have st: "sha512_state H ?c (concat xs)" and m: "s5_md_len ?c = s5_md_len c"
    using sha512_updates_state [OF assms(1), of xs] by simp_all
  note h = sha512_pad_state [OF st]
  have l: "length ?h = 8" unfolding h(1) by (rule sha512_fold(2) [OF assms(2)])
  have "concat (map (\<lambda>w. be_bytes 8 (unat w)) ?h) = fips_hash512 H (concat xs)"
    unfolding h(1) by (simp add: fips_hash512_def sha512_fold(1) [OF assms(2)])
  then have "put_words ?h (s5_md_len c) = take (s5_md_len c) (fips_hash512 H (concat xs))"
    using put_words_eq [of "s5_md_len c div 8" ?h] l assms(3) by auto
  then show ?thesis using assms(3) h(2) m
    by (auto simp: SHA512_Final_def SHA384_DIGEST_LENGTH_def SHA512_DIGEST_LENGTH_def Let_def)
qed

section \<open>Properties\<close>

text \<open>C19.
  SHA-512 and SHA-384 are those of FIPS 180-4, however the input is cut into calls and whatever the buffer held before, in the one-shot functions
  (whose buffer is on the stack), too.
\<close>

theorem sha512_is_fips180_4:
  assumes "length p = 128"
  shows "fst (SHA512_Final False (fold (\<lambda>x c. SHA512_Update c x) xs (SHA512_Init p))) = Some (fips_hash512 (s5_h (SHA512_Init p)) (concat xs)) \<and>
    fst (SHA384_Final False (fold (\<lambda>x c. SHA384_Update c x) xs (SHA384_Init p))) = Some (take 48 (fips_hash512 (s5_h (SHA384_Init p)) (concat xs))) \<and>
    SHA512 p data = Some (fips_hash512 (s5_h (SHA512_Init p)) data) \<and> SHA384 p data = Some (take 48 (fips_hash512 (s5_h (SHA384_Init p)) data))"
proof -
  have u: "SHA384_Update = SHA512_Update" by (rule ext; rule ext) (rule SHA384_Update_def)
  have i: "sha512_state (s5_h (SHA512_Init p)) (SHA512_Init p) []" "sha512_state (s5_h (SHA384_Init p)) (SHA384_Init p) []"
    using assms by (simp_all add: sha512_state_def absorbed_def SHA512_Init_def SHA384_Init_def)
  have l: "length (s5_h (SHA512_Init p)) = 8" "s5_md_len (SHA512_Init p) = 64" "length (s5_h (SHA384_Init p)) = 8" "s5_md_len (SHA384_Init p) = 48"
    by (simp_all add: SHA512_Init_def SHA384_Init_def SHA512_DIGEST_LENGTH_def SHA384_DIGEST_LENGTH_def)
  have "length (foldl (\<lambda>H b. sha2_compress fips_sha512 80 H (be_words b)) (s5_h (SHA512_Init p)) bs) = 8" for bs
    using l(1) by (cases bs rule: rev_cases) simp_all
  then have "length (fips_hash512 (s5_h (SHA512_Init p)) m) = 64" for m by (simp add: fips_hash512_def length_concat_words)
  then show ?thesis
    using sha512_session [OF i(1) l(1), of xs] sha512_session [OF i(2) l(3), of xs]
      sha512_session [OF i(1) l(1), of "[data]"] sha512_session [OF i(2) l(3), of "[data]"] l
    by (simp add: SHA384_Final_def SHA512_def SHA384_def u)
qed

lemma sha512_is_fips180_4_witness:
  "fst (SHA512_Final False (fold (\<lambda>x c. SHA512_Update c x) [[1], [], replicate 200 2] (SHA512_Init (replicate 128 9)))) =
     Some (fips_hash512 (s5_h (SHA512_Init (replicate 128 9))) (1 # replicate 200 2))"
  using sha512_is_fips180_4 [of "replicate 128 9" "[[1], [], replicate 200 2]"] by simp

text \<open>
  \<open>w\<close> is the first \<open>b\<close> bits of the fractional part of the \<open>k\<close>-th root of \<open>p\<close>, \<open>n\<close> its integral part: \<open>n * 2 ^ b + w\<close> is the root of
  \<open>p * 2 ^ (k * b)\<close>, rounded down.
\<close>

definition root_digits :: "nat \<Rightarrow> nat \<Rightarrow> nat \<Rightarrow> nat \<Rightarrow> nat \<Rightarrow> bool" where
  "root_digits k b n p w \<longleftrightarrow> w < 2 ^ b \<and> (n * 2 ^ b + w) ^ k \<le> p * 2 ^ (k * b) \<and> p * 2 ^ (k * b) < (n * 2 ^ b + w + 1) ^ k"

definition first_primes :: "nat list" where
  "first_primes =
    [2, 3, 5, 7, 11, 13, 17, 19, 23, 29, 31, 37, 41, 43, 47, 53, 59, 61, 67, 71,
     73, 79, 83, 89, 97, 101, 103, 107, 109, 113, 127, 131, 137, 139, 149, 151, 157, 163, 167, 173,
     179, 181, 191, 193, 197, 199, 211, 223, 227, 229, 233, 239, 241, 251, 257, 263, 269, 271, 277, 281,
     283, 293, 307, 311, 313, 317, 331, 337, 347, 349, 353, 359, 367, 373, 379, 383, 389, 397, 401, 409]"

text \<open>Each entry with the integral part of its root.\<close>

primrec all_root_digits :: "nat \<Rightarrow> nat \<Rightarrow> nat list \<Rightarrow> nat list \<Rightarrow> nat list \<Rightarrow> bool" where
  "all_root_digits k b [] ps ws \<longleftrightarrow> ps = [] \<and> ws = []"
| "all_root_digits k b (n # ns) ps ws \<longleftrightarrow> ps \<noteq> [] \<and> ws \<noteq> [] \<and> root_digits k b n (hd ps) (hd ws) \<and> all_root_digits k b ns (tl ps) (tl ws)"

lemma all_root_digits: "all_root_digits k b ns ps ws \<Longrightarrow> list_all2 (\<lambda>p w. \<exists>n. root_digits k b n p w) ps ws"
  by (induction ns arbitrary: ps ws) (auto simp: neq_Nil_conv)

lemma K256_roots: "all_root_digits 3 32
    [1, 1, 1, 1, 2, 2, 2, 2, 2, 3, 3, 3, 3, 3, 3, 3, 3, 3, 4, 4,
     4, 4, 4, 4, 4, 4, 4, 4, 4, 4, 5, 5, 5, 5, 5, 5, 5, 5, 5, 5,
     5, 5, 5, 5, 5, 5, 5, 6, 6, 6, 6, 6, 6, 6, 6, 6, 6, 6, 6, 6,
     6, 6, 6, 6] (take 64 first_primes) (map unat K256)"
  by (simp add: K256_def first_primes_def root_digits_def)

lemma K512_roots: "all_root_digits 3 64
    [1, 1, 1, 1, 2, 2, 2, 2, 2, 3, 3, 3, 3, 3, 3, 3, 3, 3, 4, 4,
     4, 4, 4, 4, 4, 4, 4, 4, 4, 4, 5, 5, 5, 5, 5, 5, 5, 5, 5, 5,
     5, 5, 5, 5, 5, 5, 5, 6, 6, 6, 6, 6, 6, 6, 6, 6, 6, 6, 6, 6,
     6, 6, 6, 6, 6, 6, 6, 6, 7, 7, 7, 7, 7, 7, 7, 7, 7, 7, 7, 7] first_primes (map unat K512)"
  by (simp add: K512_def first_primes_def root_digits_def)

lemma H256_roots: "all_root_digits 2 32 [1, 1, 2, 2, 3, 3, 4, 4] (take 8 first_primes) (map unat (md_h SHA256_Init))"
  by (simp add: SHA256_Init_def first_primes_def root_digits_def)

lemma H512_roots: "all_root_digits 2 64 [1, 1, 2, 2, 3, 3, 4, 4] (take 8 first_primes) (map unat (s5_h (SHA512_Init p)))"
  by (simp add: SHA512_Init_def first_primes_def root_digits_def)

lemma H384_roots: "all_root_digits 2 64 [4, 5, 5, 6, 6, 6, 6, 7] (take 8 (drop 8 first_primes)) (map unat (s5_h (SHA384_Init p)))"
  by (simp add: SHA384_Init_def first_primes_def root_digits_def)

text \<open>C23.
  The constants of the two files are those of FIPS 180-4: the tables are the first 32 and 64 bits of the fractional parts of the cube roots of
  the first primes, the initial hash values those of square roots, and the initial value of SHA-224 the second halves of SHA-384's.
\<close>

theorem sha2_constants:
  "list_all2 (\<lambda>p w. \<exists>n. root_digits 3 32 n p w) (take 64 first_primes) (map unat K256) \<and>
   list_all2 (\<lambda>p w. \<exists>n. root_digits 3 64 n p w) first_primes (map unat K512) \<and>
   list_all2 (\<lambda>p w. \<exists>n. root_digits 2 32 n p w) (take 8 first_primes) (map unat (md_h SHA256_Init)) \<and>
   list_all2 (\<lambda>p w. \<exists>n. root_digits 2 64 n p w) (take 8 first_primes) (map unat (s5_h (SHA512_Init p))) \<and>
   list_all2 (\<lambda>p w. \<exists>n. root_digits 2 64 n p w) (take 8 (drop 8 first_primes)) (map unat (s5_h (SHA384_Init p))) \<and>
   md_h SHA224_Init = map ucast (s5_h (SHA384_Init p))"
  using all_root_digits [OF K256_roots] all_root_digits [OF K512_roots] all_root_digits [OF H256_roots]
    all_root_digits [OF H512_roots, of p] all_root_digits [OF H384_roots, of p]
  by (intro conjI) (assumption | simp add: SHA224_Init_def SHA384_Init_def)+

end
