(* ===== verification/Md5.thy ===== *)
theory Md5
  imports Sha2
begin

text \<open>
  \<^verbatim>\<open>fipsmodule/md5/md5.c\<close> and \<^verbatim>\<open>fipsmodule/md4/md4.c\<close> without assembly.  The unrolled calls of the macros \<^verbatim>\<open>R0\<close> to \<^verbatim>\<open>R3\<close> are tables of their function, the index
  of the word, the shift and the constant; the arguments \<open>A\<close> to \<open>D\<close> rotate from call to call.  Both are shown to be the hash functions of
  RFC 1321 and RFC 1320, whose tables of words and shifts are written as formulas.
\<close>

section \<open>MD5\<close>

definition MD5_Init :: md32_ctx where
  "MD5_Init = \<lparr>md_h = [0x67452301, 0xefcdab89, 0x98badcfe, 0x10325476], md_Nl = 0, md_Nh = 0, md_data = replicate 64 0, md_num = 0\<rparr>"

definition md5_make_string :: "md32_ctx \<Rightarrow> bytes option" where
  "md5_make_string c = Some (HOST_l2c False (md_h c ! 0) @ HOST_l2c False (md_h c ! 1) @ HOST_l2c False (md_h c ! 2) @ HOST_l2c False (md_h c ! 3))"

definition md5_F :: "u32 \<Rightarrow> u32 \<Rightarrow> u32 \<Rightarrow> u32" where "md5_F b c d = ((c XOR d) AND b) XOR d"
definition md5_G :: "u32 \<Rightarrow> u32 \<Rightarrow> u32 \<Rightarrow> u32" where "md5_G b c d = ((b XOR c) AND d) XOR c"
definition md5_H :: "u32 \<Rightarrow> u32 \<Rightarrow> u32 \<Rightarrow> u32" where "md5_H b c d = b XOR c XOR d"
definition md5_I :: "u32 \<Rightarrow> u32 \<Rightarrow> u32 \<Rightarrow> u32" where "md5_I b c d = (NOT d OR b) XOR c"

type_synonym regs4 = "nat \<times> nat \<times> nat \<times> nat"
type_synonym md_call = "(u32 \<Rightarrow> u32 \<Rightarrow> u32 \<Rightarrow> u32) \<times> nat \<times> nat \<times> u32"

definition regs4 :: "regs4 list" where
  "regs4 = [(0, 1, 2, 3), (3, 0, 1, 2), (2, 3, 0, 1), (1, 2, 3, 0)]"

fun md5_R :: "(u32 \<Rightarrow> u32 \<Rightarrow> u32 \<Rightarrow> u32) \<Rightarrow> regs4 \<Rightarrow> u32 \<Rightarrow> nat \<Rightarrow> u32 \<Rightarrow> u32 list \<Rightarrow> u32 list" where
  "md5_R F (a, b, c, d) k s t v =
     (let v = v[a := v ! a + (k + t + F (v ! b) (v ! c) (v ! d))];
          v = v[a := ROTATE (v ! a) s]
      in v[a := v ! a + v ! b])"

definition md5_calls :: "md_call list" where
  "md5_calls =
    [(md5_F, 0, 7, 0xd76aa478), (md5_F, 1, 12, 0xe8c7b756), (md5_F, 2, 17, 0x242070db), (md5_F, 3, 22, 0xc1bdceee),
     (md5_F, 4, 7, 0xf57c0faf), (md5_F, 5, 12, 0x4787c62a), (md5_F, 6, 17, 0xa8304613), (md5_F, 7, 22, 0xfd469501),
     (md5_F, 8, 7, 0x698098d8), (md5_F, 9, 12, 0x8b44f7af), (md5_F, 10, 17, 0xffff5bb1), (md5_F, 11, 22, 0x895cd7be),
     (md5_F, 12, 7, 0x6b901122), (md5_F, 13, 12, 0xfd987193), (md5_F, 14, 17, 0xa679438e), (md5_F, 15, 22, 0x49b40821),
     (md5_G, 1, 5, 0xf61e2562), (md5_G, 6, 9, 0xc040b340), (md5_G, 11, 14, 0x265e5a51), (md5_G, 0, 20, 0xe9b6c7aa),
     (md5_G, 5, 5, 0xd62f105d), (md5_G, 10, 9, 0x02441453), (md5_G, 15, 14, 0xd8a1e681), (md5_G, 4, 20, 0xe7d3fbc8),
     (md5_G, 9, 5, 0x21e1cde6), (md5_G, 14, 9, 0xc33707d6), (md5_G, 3, 14, 0xf4d50d87), (md5_G, 8, 20, 0x455a14ed),
     (md5_G, 13, 5, 0xa9e3e905), (md5_G, 2, 9, 0xfcefa3f8), (md5_G, 7, 14, 0x676f02d9), (md5_G, 12, 20, 0x8d2a4c8a),
     (md5_H, 5, 4, 0xfffa3942), (md5_H, 8, 11, 0x8771f681), (md5_H, 11, 16, 0x6d9d6122), (md5_H, 14, 23, 0xfde5380c),
     (md5_H, 1, 4, 0xa4beea44), (md5_H, 4, 11, 0x4bdecfa9), (md5_H, 7, 16, 0xf6bb4b60), (md5_H, 10, 23, 0xbebfbc70),
     (md5_H, 13, 4, 0x289b7ec6), (md5_H, 0, 11, 0xeaa127fa), (md5_H, 3, 16, 0xd4ef3085), (md5_H, 6, 23, 0x04881d05),
     (md5_H, 9, 4, 0xd9d4d039), (md5_H, 12, 11, 0xe6db99e5), (md5_H, 15, 16, 0x1fa27cf8), (md5_H, 2, 23, 0xc4ac5665),
     (md5_I, 0, 6, 0xf4292244), (md5_I, 7, 10, 0x432aff97), (md5_I, 14, 15, 0xab9423a7), (md5_I, 5, 21, 0xfc93a039),
     (md5_I, 12, 6, 0x655b59c3), (md5_I, 3, 10, 0x8f0ccc92), (md5_I, 10, 15, 0xffeff47d), (md5_I, 1, 21, 0x85845dd1),
     (md5_I, 8, 6, 0x6fa87e4f), (md5_I, 15, 10, 0xfe2ce6e0), (md5_I, 6, 15, 0xa3014314), (md5_I, 13, 21, 0x4e0811a1),
     (md5_I, 4, 6, 0xf7537e82), (md5_I, 11, 10, 0xbd3af235), (md5_I, 2, 15, 0x2ad7d2bb), (md5_I, 9, 21, 0xeb86d391)]"

definition md5_one_block :: "u32 list \<Rightarrow> bytes \<Rightarrow> u32 list" where
  "md5_one_block state data =
     (let X = map (\<lambda>i. HOST_c2l False (take 4 (drop (4 * i) data))) [0..<16];
          v = fold (\<lambda>i v. case md5_calls ! i of (F, k, s, t) \<Rightarrow> md5_R F (regs4 ! (i mod 4)) (X ! k) s t v) [0..<64] state
      in map2 (+) state v)"

fun md5_block_data_order :: "u32 list \<Rightarrow> bytes \<Rightarrow> nat \<Rightarrow> u32 list" where
  "md5_block_data_order state data 0 = state"
| "md5_block_data_order state data (Suc num) = md5_block_data_order (md5_one_block state (take 64 data)) (drop 64 data) num"

definition MD5_Update :: "md32_ctx \<Rightarrow> bytes \<Rightarrow> md32_ctx" where
  "MD5_Update = HASH_UPDATE md5_block_data_order"

definition MD5_Transform :: "md32_ctx \<Rightarrow> bytes \<Rightarrow> md32_ctx" where
  "MD5_Transform = HASH_TRANSFORM md5_block_data_order"

definition MD5_Final :: "md32_ctx \<Rightarrow> bytes option \<times> md32_ctx" where
  "MD5_Final = HASH_FINAL False md5_block_data_order md5_make_string"

definition MD5 :: "bytes \<Rightarrow> bytes option" where
  "MD5 data = fst (MD5_Final (MD5_Update MD5_Init data))"

section \<open>MD4\<close>

definition MD4_Init :: md32_ctx where
  "MD4_Init = \<lparr>md_h = [0x67452301, 0xefcdab89, 0x98badcfe, 0x10325476], md_Nl = 0, md_Nh = 0, md_data = replicate 64 0, md_num = 0\<rparr>"

definition md4_make_string :: "md32_ctx \<Rightarrow> bytes option" where
  "md4_make_string c = Some (HOST_l2c False (md_h c ! 0) @ HOST_l2c False (md_h c ! 1) @ HOST_l2c False (md_h c ! 2) @ HOST_l2c False (md_h c ! 3))"

definition md4_F :: "u32 \<Rightarrow> u32 \<Rightarrow> u32 \<Rightarrow> u32" where "md4_F b c d = ((c XOR d) AND b) XOR d"
definition md4_G :: "u32 \<Rightarrow> u32 \<Rightarrow> u32 \<Rightarrow> u32" where "md4_G b c d = (b AND c) OR (b AND d) OR (c AND d)"
definition md4_H :: "u32 \<Rightarrow> u32 \<Rightarrow> u32 \<Rightarrow> u32" where "md4_H b c d = b XOR c XOR d"

fun md4_R :: "(u32 \<Rightarrow> u32 \<Rightarrow> u32 \<Rightarrow> u32) \<Rightarrow> regs4 \<Rightarrow> u32 \<Rightarrow> nat \<Rightarrow> u32 \<Rightarrow> u32 list \<Rightarrow> u32 list" where
  "md4_R F (a, b, c, d) k s t v =
     (let v = v[a := v ! a + (k + t + F (v ! b) (v ! c) (v ! d))]
      in v[a := ROTATE (v ! a) s])"

definition md4_calls :: "md_call list" where
  "md4_calls =
    [(md4_F, 0, 3, 0), (md4_F, 1, 7, 0), (md4_F, 2, 11, 0), (md4_F, 3, 19, 0),
     (md4_F, 4, 3, 0), (md4_F, 5, 7, 0), (md4_F, 6, 11, 0), (md4_F, 7, 19, 0),
     (md4_F, 8, 3, 0), (md4_F, 9, 7, 0), (md4_F, 10, 11, 0), (md4_F, 11, 19, 0),
     (md4_F, 12, 3, 0), (md4_F, 13, 7, 0), (md4_F, 14, 11, 0), (md4_F, 15, 19, 0),
     (md4_G, 0, 3, 0x5A827999), (md4_G, 4, 5, 0x5A827999), (md4_G, 8, 9, 0x5A827999), (md4_G, 12, 13, 0x5A827999),
     (md4_G, 1, 3, 0x5A827999), (md4_G, 5, 5, 0x5A827999), (md4_G, 9, 9, 0x5A827999), (md4_G, 13, 13, 0x5A827999),
     (md4_G, 2, 3, 0x5A827999), (md4_G, 6, 5, 0x5A827999), (md4_G, 10, 9, 0x5A827999), (md4_G, 14, 13, 0x5A827999),
     (md4_G, 3, 3, 0x5A827999), (md4_G, 7, 5, 0x5A827999), (md4_G, 11, 9, 0x5A827999), (md4_G, 15, 13, 0x5A827999),
     (md4_H, 0, 3, 0x6ED9EBA1), (md4_H, 8, 9, 0x6ED9EBA1), (md4_H, 4, 11, 0x6ED9EBA1), (md4_H, 12, 15, 0x6ED9EBA1),
     (md4_H, 2, 3, 0x6ED9EBA1), (md4_H, 10, 9, 0x6ED9EBA1), (md4_H, 6, 11, 0x6ED9EBA1), (md4_H, 14, 15, 0x6ED9EBA1),
     (md4_H, 1, 3, 0x6ED9EBA1), (md4_H, 9, 9, 0x6ED9EBA1), (md4_H, 5, 11, 0x6ED9EBA1), (md4_H, 13, 15, 0x6ED9EBA1),
     (md4_H, 3, 3, 0x6ED9EBA1), (md4_H, 11, 9, 0x6ED9EBA1), (md4_H, 7, 11, 0x6ED9EBA1), (md4_H, 15, 15, 0x6ED9EBA1)]"

definition md4_one_block :: "u32 list \<Rightarrow> bytes \<Rightarrow> u32 list" where
  "md4_one_block state data =
     (let X = map (\<lambda>i. HOST_c2l False (take 4 (drop (4 * i) data))) [0..<16];
          v = fold (\<lambda>i v. case md4_calls ! i of (F, k, s, t) \<Rightarrow> md4_R F (regs4 ! (i mod 4)) (X ! k) s t v) [0..<48] state
      in map2 (+) state v)"

fun md4_block_data_order :: "u32 list \<Rightarrow> bytes \<Rightarrow> nat \<Rightarrow> u32 list" where
  "md4_block_data_order state data 0 = state"
| "md4_block_data_order state data (Suc num) = md4_block_data_order (md4_one_block state (take 64 data)) (drop 64 data) num"

definition MD4_Update :: "md32_ctx \<Rightarrow> bytes \<Rightarrow> md32_ctx" where
  "MD4_Update = HASH_UPDATE md4_block_data_order"

definition MD4_Transform :: "md32_ctx \<Rightarrow> bytes \<Rightarrow> md32_ctx" where
  "MD4_Transform = HASH_TRANSFORM md4_block_data_order"

definition MD4_Final :: "md32_ctx \<Rightarrow> bytes option \<times> md32_ctx" where
  "MD4_Final = HASH_FINAL False md4_block_data_order md4_make_string"

definition MD4 :: "bytes \<Rightarrow> bytes option" where
  "MD4 data = fst (MD4_Final (MD4_Update MD4_Init data))"

section \<open>RFC 1321 and RFC 1320\<close>

type_synonym quad = "u32 \<times> u32 \<times> u32 \<times> u32"

definition rfc1321_T :: "u32 list" where
  "rfc1321_T =
    [0xd76aa478, 0xe8c7b756, 0x242070db, 0xc1bdceee, 0xf57c0faf, 0x4787c62a, 0xa8304613, 0xfd469501,
     0x698098d8, 0x8b44f7af, 0xffff5bb1, 0x895cd7be, 0x6b901122, 0xfd987193, 0xa679438e, 0x49b40821,
     0xf61e2562, 0xc040b340, 0x265e5a51, 0xe9b6c7aa, 0xd62f105d, 0x02441453, 0xd8a1e681, 0xe7d3fbc8,
     0x21e1cde6, 0xc33707d6, 0xf4d50d87, 0x455a14ed, 0xa9e3e905, 0xfcefa3f8, 0x676f02d9, 0x8d2a4c8a,
     0xfffa3942, 0x8771f681, 0x6d9d6122, 0xfde5380c, 0xa4beea44, 0x4bdecfa9, 0xf6bb4b60, 0xbebfbc70,
     0x289b7ec6, 0xeaa127fa, 0xd4ef3085, 0x04881d05, 0xd9d4d039, 0xe6db99e5, 0x1fa27cf8, 0xc4ac5665,
     0xf4292244, 0x432aff97, 0xab9423a7, 0xfc93a039, 0x655b59c3, 0x8f0ccc92, 0xffeff47d, 0x85845dd1,
     0x6fa87e4f, 0xfe2ce6e0, 0xa3014314, 0x4e0811a1, 0xf7537e82, 0xbd3af235, 0x2ad7d2bb, 0xeb86d391]"

definition rfc1321_call :: "nat \<Rightarrow> md_call" where
  "rfc1321_call i =
     (if i < 16 then (\<lambda>x y z. (x AND y) OR (NOT x AND z), i, [7, 12, 17, 22] ! (i mod 4), rfc1321_T ! i)
      else if i < 32 then (\<lambda>x y z. (x AND z) OR (y AND NOT z), (5 * i + 1) mod 16, [5, 9, 14, 20] ! (i mod 4), rfc1321_T ! i)
      else if i < 48 then (\<lambda>x y z. x XOR y XOR z, (3 * i + 5) mod 16, [4, 11, 16, 23] ! (i mod 4), rfc1321_T ! i)
      else (\<lambda>x y z. y XOR (x OR NOT z), 7 * i mod 16, [6, 10, 15, 21] ! (i mod 4), rfc1321_T ! i))"

fun rfc1321_step :: "md_call \<Rightarrow> u32 list \<Rightarrow> quad \<Rightarrow> quad" where
  "rfc1321_step (F, k, s, t) X (a, b, c, d) = (d, b + word_rotl s (a + F b c d + X ! k + t), b, c)"

definition rfc1320_call :: "nat \<Rightarrow> md_call" where
  "rfc1320_call i =
     (if i < 16 then (\<lambda>x y z. (x AND y) OR (NOT x AND z), i, [3, 7, 11, 19] ! (i mod 4), 0)
      else if i < 32 then (\<lambda>x y z. (x AND y) OR (x AND z) OR (y AND z), i mod 4 * 4 + (i - 16) div 4, [3, 5, 9, 13] ! (i mod 4), 0x5A827999)
      else (\<lambda>x y z. x XOR y XOR z, [0, 8, 4, 12] ! (i mod 4) + [0, 2, 1, 3] ! ((i - 32) div 4), [3, 9, 11, 15] ! (i mod 4), 0x6ED9EBA1))"

fun rfc1320_step :: "md_call \<Rightarrow> u32 list \<Rightarrow> quad \<Rightarrow> quad" where
  "rfc1320_step (F, k, s, t) X (a, b, c, d) = (d, word_rotl s (a + F b c d + X ! k + t), b, c)"

definition rfc_compress :: "(md_call \<Rightarrow> u32 list \<Rightarrow> quad \<Rightarrow> quad) \<Rightarrow> md_call list \<Rightarrow> u32 list \<Rightarrow> u32 list \<Rightarrow> u32 list" where
  "rfc_compress step calls H X =
     (case fold (\<lambda>call. step call X) calls (H ! 0, H ! 1, H ! 2, H ! 3) of
        (a, b, c, d) \<Rightarrow> [H ! 0 + a, H ! 1 + b, H ! 2 + c, H ! 3 + d])"

definition le_words :: "bytes \<Rightarrow> u32 list" where
  "le_words b = map (\<lambda>w. of_nat (le_nat w)) (blocks 4 b)"

definition rfc_hash :: "(u32 list \<Rightarrow> u32 list \<Rightarrow> u32 list) \<Rightarrow> bytes \<Rightarrow> bytes" where
  "rfc_hash compress m =
     concat (map (\<lambda>w. le_bytes 4 (unat w)) (foldl (\<lambda>H b. compress H (le_words b))
       [0x67452301, 0xefcdab89, 0x98badcfe, 0x10325476] (blocks 64 (md_padded False 64 8 m))))"

definition rfc1321_md5 :: "bytes \<Rightarrow> bytes" where
  "rfc1321_md5 = rfc_hash (rfc_compress rfc1321_step (map rfc1321_call [0..<64]))"

definition rfc1320_md4 :: "bytes \<Rightarrow> bytes" where
  "rfc1320_md4 = rfc_hash (rfc_compress rfc1320_step (map rfc1320_call [0..<48]))"

section \<open>The calls\<close>

lemma md5_functions:
  "(\<lambda>x y z. (x AND y) OR (NOT x AND z)) = md5_F" "(\<lambda>x y z. (x AND z) OR (y AND NOT z)) = md5_G"
  "(\<lambda>x y z. x XOR y XOR z) = md5_H" "(\<lambda>x y z. y XOR (x OR NOT z)) = md5_I"
  by (rule ext; rule ext; rule ext; rule bit_eqI; auto simp: md5_F_def md5_G_def md5_H_def md5_I_def bit_simps)+

lemma md4_functions:
  "(\<lambda>x y z. (x AND y) OR (NOT x AND z)) = md4_F" "(\<lambda>x y z. (x AND y) OR (x AND z) OR (y AND z)) = md4_G"
  "(\<lambda>x y z. x XOR y XOR z) = md4_H"
  by (rule ext; rule ext; rule ext; rule bit_eqI; auto simp: md4_F_def md4_G_def md4_H_def bit_simps)+

lemma md5_calls_rfc: "map rfc1321_call [0..<64] = md5_calls"
  by (simp add: rfc1321_call_def md5_functions md5_calls_def rfc1321_T_def upt_rec)

lemma md4_calls_rfc: "map rfc1320_call [0..<48] = md4_calls"
  by (simp add: rfc1320_call_def md4_functions md4_calls_def upt_rec)

section \<open>The block functions\<close>

fun read4 :: "u32 list \<Rightarrow> regs4 \<Rightarrow> quad" where
  "read4 v (a, b, c, d) = (v ! a, v ! b, v ! c, v ! d)"

lemma md_step:
  assumes "length v = 4" and "r < 4" and "0 < s" and "s < 32"
  shows "read4 (md5_R F (regs4 ! r) (X ! k) s t v) (regs4 ! (Suc r mod 4)) = rfc1321_step (F, k, s, t) X (read4 v (regs4 ! r))"
    and "read4 (md4_R F (regs4 ! r) (X ! k) s t v) (regs4 ! (Suc r mod 4)) = rfc1320_step (F, k, s, t) X (read4 v (regs4 ! r))"
    and "length (md5_R F (regs4 ! r) w s t v) = 4" and "length (md4_R F (regs4 ! r) w s t v) = 4"
proof -
  obtain x0 x1 x2 x3 where v: "v = [x0, x1, x2, x3]" using assms(1) by (auto simp: numeral_eq_Suc length_Suc_conv)
  have r: "r = 0 \<or> r = 1 \<or> r = 2 \<or> r = 3" using assms(2) by auto
  note rot = ROTATE_rotl [OF assms(3,4)]
  show "read4 (md5_R F (regs4 ! r) (X ! k) s t v) (regs4 ! (Suc r mod 4)) = rfc1321_step (F, k, s, t) X (read4 v (regs4 ! r))"
    using r unfolding v by (elim disjE) (simp_all add: regs4_def Let_def rot ac_simps)
  show "read4 (md4_R F (regs4 ! r) (X ! k) s t v) (regs4 ! (Suc r mod 4)) = rfc1320_step (F, k, s, t) X (read4 v (regs4 ! r))"
    using r unfolding v by (elim disjE) (simp_all add: regs4_def Let_def rot ac_simps)
  show "length (md5_R F (regs4 ! r) w s t v) = 4" "length (md4_R F (regs4 ! r) w s t v) = 4"
    using r unfolding v by (elim disjE; simp add: regs4_def Let_def)+
qed

lemma md_rounds:
  fixes R :: "(u32 \<Rightarrow> u32 \<Rightarrow> u32 \<Rightarrow> u32) \<Rightarrow> regs4 \<Rightarrow> u32 \<Rightarrow> nat \<Rightarrow> u32 \<Rightarrow> u32 list \<Rightarrow> u32 list"
  assumes R: "\<And>F k s t v r. length v = 4 \<Longrightarrow> r < 4 \<Longrightarrow> 0 < s \<Longrightarrow> s < 32 \<Longrightarrow>
      read4 (R F (regs4 ! r) (X ! k) s t v) (regs4 ! (Suc r mod 4)) = step (F, k, s, t) X (read4 v (regs4 ! r)) \<and>
      length (R F (regs4 ! r) (X ! k) s t v) = 4"
    and calls: "\<forall>(F, k, s, t) \<in> set calls. 0 < s \<and> s < 32" and n: "length calls = 4 * n" and st: "length state = 4"
  shows "map2 (+) state (fold (\<lambda>i v. case calls ! i of (F, k, s, t) \<Rightarrow> R F (regs4 ! (i mod 4)) (X ! k) s t v) [0..<4 * n] state) =
    rfc_compress step calls state X"
proof -
  let ?H = "(state ! 0, state ! 1, state ! 2, state ! 3)"
  let ?P = "\<lambda>i v. i \<le> 4 * n \<longrightarrow> length v = 4 \<and> read4 v (regs4 ! (i mod 4)) = fold (\<lambda>call. step call X) (take i calls) ?H"
  let ?g = "\<lambda>i v. case calls ! i of (F, k, s, t) \<Rightarrow> R F (regs4 ! (i mod 4)) (X ! k) s t v"
  have "?P (0 + 4 * n) (fold ?g [0..<4 * n] state)"
  proof (rule fold_upt_inv [where P = ?P])
    show "?P 0 state" using st by (simp add: regs4_def)
    fix i v
    assume i: "i < 4 * n" and P: "?P (0 + i) v"
    obtain F k s t where c: "calls ! i = (F, k, s, t)" by (metis prod_cases4)
    have "calls ! i \<in> set calls" using i n by simp
    then have s: "0 < s" "s < 32" using calls c by auto
    have m: "Suc i mod 4 = Suc (i mod 4) mod 4" by (simp add: mod_simps)
    have "read4 (?g i v) (regs4 ! (Suc i mod 4)) = step (calls ! i) X (read4 v (regs4 ! (i mod 4))) \<and> length (?g i v) = 4"
      unfolding c prod.case m using P i by (intro R s) simp_all
    then show "?P (Suc (0 + i)) (?g i v)" using P i n by (simp add: take_Suc_conv_app_nth)
  qed
  then have l: "length (fold ?g [0..<4 * n] state) = 4"
    and r: "read4 (fold ?g [0..<4 * n] state) (0, 1, 2, 3) = fold (\<lambda>call. step call X) calls ?H"
    by (simp_all add: regs4_def n)
  define v where "v = fold ?g [0..<4 * n] state"
  have "length v = 4" and rv: "fold (\<lambda>call. step call X) calls ?H = (v ! 0, v ! 1, v ! 2, v ! 3)"
    using l r by (simp_all add: v_def)
  then obtain x0 x1 x2 x3 where v: "v = [x0, x1, x2, x3]" by (auto simp: numeral_eq_Suc length_Suc_conv)
  obtain y0 y1 y2 y3 where st': "state = [y0, y1, y2, y3]" using st by (auto simp: numeral_eq_Suc length_Suc_conv)
  have "map2 (+) state v = rfc_compress step calls state X" unfolding rfc_compress_def rv prod.case by (simp add: v st')
  then show ?thesis by (simp only: v_def)
qed

lemma loaded_le_words:
  assumes "length data = 64"
  shows "map (\<lambda>i. HOST_c2l False (take 4 (drop (4 * i) data))) [0..<16] = le_words data"
  using assms by (intro nth_equalityI) (simp_all add: le_words_def length_blocks_list nth_blocks HOST_c2l_eq hash_word_def)

lemma md5_one_block_eq:
  assumes "length state = 4" and "length data = 64"
  shows "md5_one_block state data = rfc_compress rfc1321_step (map rfc1321_call [0..<64]) state (le_words data)"
proof -
  have "\<forall>(F, k, s, t) \<in> set md5_calls. 0 < s \<and> s < 32" by (simp add: md5_calls_def)
  moreover have "length md5_calls = 4 * 16" by (simp add: md5_calls_def)
  ultimately have "map2 (+) state (fold (\<lambda>i v. case md5_calls ! i of (F, k, s, t) \<Rightarrow> md5_R F (regs4 ! (i mod 4)) (le_words data ! k) s t v) [0..<4 * 16] state) =
      rfc_compress rfc1321_step md5_calls state (le_words data)"
    by (intro md_rounds conjI assms(1)) (rule md_step; assumption)+
  then show ?thesis by (simp add: md5_one_block_def loaded_le_words [OF assms(2)] md5_calls_rfc)
qed

lemma md4_one_block_eq:
  assumes "length state = 4" and "length data = 64"
  shows "md4_one_block state data = rfc_compress rfc1320_step (map rfc1320_call [0..<48]) state (le_words data)"
proof -
  have "\<forall>(F, k, s, t) \<in> set md4_calls. 0 < s \<and> s < 32" by (simp add: md4_calls_def)
  moreover have "length md4_calls = 4 * 12" by (simp add: md4_calls_def)
  ultimately have "map2 (+) state (fold (\<lambda>i v. case md4_calls ! i of (F, k, s, t) \<Rightarrow> md4_R F (regs4 ! (i mod 4)) (le_words data ! k) s t v) [0..<4 * 12] state) =
      rfc_compress rfc1320_step md4_calls state (le_words data)"
    by (intro md_rounds conjI assms(1)) (rule md_step; assumption)+
  then show ?thesis by (simp add: md4_one_block_def loaded_le_words [OF assms(2)] md4_calls_rfc)
qed

section \<open>The hash functions\<close>

lemma length_rfc_compress [simp]: "length (rfc_compress step calls H X) = 4"
  by (simp add: rfc_compress_def split: prod.splits)

lemma md_fold:
  assumes "\<And>state data. length state = 4 \<Longrightarrow> length data = 64 \<Longrightarrow> one_block state data = compress state (le_words data)"
    and "\<And>H X. length (compress H X) = 4" and "length H = 4"
  shows "foldl one_block H (blocks 64 xs) = foldl (\<lambda>H b. compress H (le_words b)) H (blocks 64 xs)"
    and "length (foldl one_block H (blocks 64 xs)) = 4"
proof -
  have "foldl one_block H bs = foldl (\<lambda>H b. compress H (le_words b)) H bs \<and> length (foldl one_block H bs) = 4"
    if "\<forall>b \<in> set bs. length b = 64" for bs
    using assms(3) that
  proof (induction bs arbitrary: H)
    case (Cons b bs)
    then show ?case using Cons.IH [of "compress H (le_words b)"] by (simp add: assms(1,2))
  qed simp
  from this [of "blocks 64 xs"] show "foldl one_block H (blocks 64 xs) = foldl (\<lambda>H b. compress H (le_words b)) H (blocks 64 xs)"
    and "length (foldl one_block H (blocks 64 xs)) = 4" by (auto dest: length_blocks)
qed

interpretation md5: md32 md5_block_data_order md5_one_block
  by unfold_locales (rule block_loop, simp_all)

interpretation md4: md32 md4_block_data_order md4_one_block
  by unfold_locales (rule block_loop, simp_all)

lemma length_concat_le: "length (concat (map (\<lambda>w. le_bytes k (unat w)) ws)) = k * length ws"
  by (induction ws) simp_all

lemma md_make_string:
  assumes "length h = 4"
  shows "HOST_l2c False (h ! 0) @ HOST_l2c False (h ! 1) @ HOST_l2c False (h ! 2) @ HOST_l2c False (h ! 3) =
    concat (map (\<lambda>w. le_bytes 4 (unat w)) h)"
proof -
  have "concat (map (\<lambda>nn. HOST_l2c False (h ! nn)) [0..<4]) = concat (map (\<lambda>w. le_bytes 4 (unat w)) h)"
    using make_string_words [of 4 h False] assms length_concat_le [of 4 h] by (simp add: hash_bytes_def)
  moreover have "[0..<4] = [0, 1, 2, 3 :: nat]" by (simp add: upt_rec)
  ultimately show ?thesis by simp
qed

lemma md5_session: "fst (MD5_Final (fold (\<lambda>x c. MD5_Update c x) xs MD5_Init)) = Some (rfc1321_md5 (concat xs))"
proof -
  let ?h = "foldl md5_one_block (md_h MD5_Init) (blocks 64 (md_padded False 64 8 (concat xs)))"
  have "md32_state md5_one_block (md_h MD5_Init) MD5_Init []" by (rule md32_state_start; simp add: MD5_Init_def)
  then obtain Nl Nh where f: "MD5_Final (fold (\<lambda>x c. MD5_Update c x) xs MD5_Init) =
      (let c' = MD5_Init\<lparr>md_h := ?h, md_Nl := Nl, md_Nh := Nh, md_data := replicate 64 0, md_num := 0\<rparr> in (md5_make_string c', c'))"
    using md5.session [of "md_h MD5_Init" MD5_Init False md5_make_string xs] unfolding MD5_Final_def MD5_Update_def by blast
  have i: "length (md_h MD5_Init) = 4" by (simp add: MD5_Init_def)
  have h: "foldl md5_one_block (md_h MD5_Init) (blocks 64 ys) =
        foldl (\<lambda>H b. rfc_compress rfc1321_step (map rfc1321_call [0..<64]) H (le_words b)) (md_h MD5_Init) (blocks 64 ys)"
      "length (foldl md5_one_block (md_h MD5_Init) (blocks 64 ys)) = 4" for ys
    by (rule md_fold [where compress = "rfc_compress rfc1321_step (map rfc1321_call [0..<64])", OF _ _ i]; simp add: md5_one_block_eq)+
  have "concat (map (\<lambda>w. le_bytes 4 (unat w)) ?h) = rfc1321_md5 (concat xs)"
    unfolding rfc1321_md5_def rfc_hash_def h(1) by (simp add: MD5_Init_def)
  then show ?thesis unfolding f using md_make_string [of ?h] h(2) by (simp add: md5_make_string_def Let_def)
qed

lemma md4_session: "fst (MD4_Final (fold (\<lambda>x c. MD4_Update c x) xs MD4_Init)) = Some (rfc1320_md4 (concat xs))"
proof -
  let ?h = "foldl md4_one_block (md_h MD4_Init) (blocks 64 (md_padded False 64 8 (concat xs)))"
  have "md32_state md4_one_block (md_h MD4_Init) MD4_Init []" by (rule md32_state_start; simp add: MD4_Init_def)
  then obtain Nl Nh where f: "MD4_Final (fold (\<lambda>x c. MD4_Update c x) xs MD4_Init) =
      (let c' = MD4_Init\<lparr>md_h := ?h, md_Nl := Nl, md_Nh := Nh, md_data := replicate 64 0, md_num := 0\<rparr> in (md4_make_string c', c'))"
    using md4.session [of "md_h MD4_Init" MD4_Init False md4_make_string xs] unfolding MD4_Final_def MD4_Update_def by blast
  have i: "length (md_h MD4_Init) = 4" by (simp add: MD4_Init_def)
  have h: "foldl md4_one_block (md_h MD4_Init) (blocks 64 ys) =
        foldl (\<lambda>H b. rfc_compress rfc1320_step (map rfc1320_call [0..<48]) H (le_words b)) (md_h MD4_Init) (blocks 64 ys)"
      "length (foldl md4_one_block (md_h MD4_Init) (blocks 64 ys)) = 4" for ys
    by (rule md_fold [where compress = "rfc_compress rfc1320_step (map rfc1320_call [0..<48])", OF _ _ i]; simp add: md4_one_block_eq)+
  have "concat (map (\<lambda>w. le_bytes 4 (unat w)) ?h) = rfc1320_md4 (concat xs)"
    unfolding rfc1320_md4_def rfc_hash_def h(1) by (simp add: MD4_Init_def)
  then show ?thesis unfolding f using md_make_string [of ?h] h(2) by (simp add: md4_make_string_def Let_def)
qed

section \<open>Property\<close>

text \<open>C21.
  MD5 and MD4 are those of RFC 1321 and RFC 1320, however the input is cut into calls, and so are the one-shot functions.
\<close>

theorem md5_md4_are_rfc:
  "fst (MD5_Final (fold (\<lambda>x c. MD5_Update c x) xs MD5_Init)) = Some (rfc1321_md5 (concat xs)) \<and>
   fst (MD4_Final (fold (\<lambda>x c. MD4_Update c x) xs MD4_Init)) = Some (rfc1320_md4 (concat xs)) \<and>
   MD5 data = Some (rfc1321_md5 data) \<and> MD4 data = Some (rfc1320_md4 data)"
  using md5_session [of xs] md4_session [of xs] md5_session [of "[data]"] md4_session [of "[data]"] by (simp add: MD5_def MD4_def)

end
