(* ===== verification/Digest.thy ===== *)
theory Digest
  imports Sha1 Sha512 Md5
begin

text \<open>
  \<^verbatim>\<open>fipsmodule/digest/digest.c\<close> and \<^verbatim>\<open>digests.c\<close>: a context holds a block of memory for the state of some hash function, and calls its methods
  through a table.  The block is kept as bytes, as the code copies and clears it; the methods read and write the structure of their hash
  function in it, so the layout of these structures is part of the model.
\<close>

section \<open>Structures in memory\<close>

text \<open>The layout on a little-endian machine: the words of the state, the two counters, the data, the number of bytes in it.\<close>

definition field :: "nat \<Rightarrow> nat \<Rightarrow> bytes \<Rightarrow> bytes" where
  "field off n b = take n (drop off b)"

definition load32 :: "nat \<Rightarrow> bytes \<Rightarrow> md32_ctx" where
  "load32 k b =
     \<lparr>md_h = map (\<lambda>i. of_nat (le_nat (field (4 * i) 4 b))) [0..<k],
      md_Nl = of_nat (le_nat (field (4 * k) 4 b)), md_Nh = of_nat (le_nat (field (4 * k + 4) 4 b)),
      md_data = field (4 * k + 8) 64 b, md_num = le_nat (field (4 * k + 72) 4 b)\<rparr>"

definition store32 :: "'a md32_ctx_scheme \<Rightarrow> bytes" where
  "store32 c =
     concat (map (\<lambda>w. le_bytes 4 (unat w)) (md_h c)) @ le_bytes 4 (unat (md_Nl c)) @ le_bytes 4 (unat (md_Nh c)) @
     md_data c @ le_bytes 4 (md_num c)"

definition load256 :: "bytes \<Rightarrow> sha256_ctx" where
  "load256 b = md32_ctx.extend (load32 8 b) (sha256_ctx.fields (le_nat (field 108 4 b)))"

definition store256 :: "sha256_ctx \<Rightarrow> bytes" where
  "store256 c = store32 c @ le_bytes 4 (md_len c)"

definition load512 :: "bytes \<Rightarrow> sha512_ctx" where
  "load512 b =
     \<lparr>s5_h = map (\<lambda>i. of_nat (le_nat (field (8 * i) 8 b))) [0..<8],
      s5_Nl = of_nat (le_nat (field 64 8 b)), s5_Nh = of_nat (le_nat (field 72 8 b)),
      s5_p = field 80 128 b, s5_num = le_nat (field 208 4 b), s5_md_len = le_nat (field 212 4 b)\<rparr>"

definition store512 :: "sha512_ctx \<Rightarrow> bytes" where
  "store512 c =
     concat (map (\<lambda>w. le_bytes 8 (unat w)) (s5_h c)) @ le_bytes 8 (unat (s5_Nl c)) @ le_bytes 8 (unat (s5_Nh c)) @
     s5_p c @ le_bytes 4 (s5_num c) @ le_bytes 4 (s5_md_len c)"

section \<open>Contexts and methods\<close>

text \<open>
  The methods are static objects, so a pointer to one is a value of \<open>evp_md\<close>.  What \<^verbatim>\<open>pctx\<close> points to belongs to another part of the library: its
  type is a parameter, and of its operations only \<^verbatim>\<open>dup\<close> has a result (\<^verbatim>\<open>free\<close> releases it).  Using a null pointer where the code does not
  check for one is \<open>the None\<close>, of which nothing can be proved.
\<close>

datatype evp_md = EVP_md4 | EVP_md5 | EVP_sha1 | EVP_sha224 | EVP_sha256 | EVP_sha384 | EVP_sha512 | EVP_md5_sha1

record 'p evp_md_pctx_ops =
  po_dup :: "'p \<Rightarrow> 'p option"

record 'p evp_md_ctx =
  ed_digest :: "evp_md option"
  ed_md_data :: "block option"
  ed_pctx :: "'p option"
  ed_pctx_ops :: "'p evp_md_pctx_ops option"

record 'p env_md_st =
  em_type :: int
  em_md_size :: nat
  em_flags :: u32
  em_init :: "'p evp_md_ctx \<Rightarrow> 'p evp_md_ctx"
  em_update :: "'p evp_md_ctx \<Rightarrow> bytes \<Rightarrow> 'p evp_md_ctx"
  em_final :: "'p evp_md_ctx \<Rightarrow> bytes option \<times> 'p evp_md_ctx"
  em_block_size :: nat
  em_ctx_size :: nat

text \<open>The memory of a context.\<close>

definition md_bytes :: "'p evp_md_ctx \<Rightarrow> bytes" where
  "md_bytes ctx = blk_data (the (ed_md_data ctx))"

definition set_md_bytes :: "bytes \<Rightarrow> 'p evp_md_ctx \<Rightarrow> 'p evp_md_ctx" where
  "set_md_bytes b ctx = ctx\<lparr>ed_md_data := Some ((the (ed_md_data ctx))\<lparr>blk_data := b\<rparr>)\<rparr>"

text \<open>
  The methods of \<^verbatim>\<open>digests.c\<close>.  A final function gives what it writes, \<open>None\<close> when it refuses (\<^verbatim>\<open>CHECK\<close> aborts in a debug build and
  ignores it otherwise; the lemmas show that it does not happen).
\<close>

definition md4_init :: "'p evp_md_ctx \<Rightarrow> 'p evp_md_ctx" where
  "md4_init ctx = set_md_bytes (store32 MD4_Init) ctx"
definition md4_update :: "'p evp_md_ctx \<Rightarrow> bytes \<Rightarrow> 'p evp_md_ctx" where
  "md4_update ctx data = set_md_bytes (store32 (MD4_Update (load32 4 (md_bytes ctx)) data)) ctx"
definition md4_final :: "'p evp_md_ctx \<Rightarrow> bytes option \<times> 'p evp_md_ctx" where
  "md4_final ctx = (let (out, c) = MD4_Final (load32 4 (md_bytes ctx)) in (out, set_md_bytes (store32 c) ctx))"

definition md5_init :: "'p evp_md_ctx \<Rightarrow> 'p evp_md_ctx" where
  "md5_init ctx = set_md_bytes (store32 MD5_Init) ctx"
definition md5_update :: "'p evp_md_ctx \<Rightarrow> bytes \<Rightarrow> 'p evp_md_ctx" where
  "md5_update ctx data = set_md_bytes (store32 (MD5_Update (load32 4 (md_bytes ctx)) data)) ctx"
definition md5_final :: "'p evp_md_ctx \<Rightarrow> bytes option \<times> 'p evp_md_ctx" where
  "md5_final ctx = (let (out, c) = MD5_Final (load32 4 (md_bytes ctx)) in (out, set_md_bytes (store32 c) ctx))"

definition sha1_init :: "'p evp_md_ctx \<Rightarrow> 'p evp_md_ctx" where
  "sha1_init ctx = set_md_bytes (store32 SHA1_Init) ctx"
definition sha1_update :: "'p evp_md_ctx \<Rightarrow> bytes \<Rightarrow> 'p evp_md_ctx" where
  "sha1_update ctx data = set_md_bytes (store32 (SHA1_Update (load32 5 (md_bytes ctx)) data)) ctx"
definition sha1_final :: "'p evp_md_ctx \<Rightarrow> bytes option \<times> 'p evp_md_ctx" where
  "sha1_final ctx = (let (out, c) = SHA1_Final (load32 5 (md_bytes ctx)) in (out, set_md_bytes (store32 c) ctx))"

definition sha224_init :: "'p evp_md_ctx \<Rightarrow> 'p evp_md_ctx" where
  "sha224_init ctx = set_md_bytes (store256 SHA224_Init) ctx"
definition sha224_update :: "'p evp_md_ctx \<Rightarrow> bytes \<Rightarrow> 'p evp_md_ctx" where
  "sha224_update ctx data = set_md_bytes (store256 (SHA224_Update (load256 (md_bytes ctx)) data)) ctx"
definition sha224_final :: "'p evp_md_ctx \<Rightarrow> bytes option \<times> 'p evp_md_ctx" where
  "sha224_final ctx = (let (out, c) = SHA224_Final (load256 (md_bytes ctx)) in (out, set_md_bytes (store256 c) ctx))"

definition sha256_init :: "'p evp_md_ctx \<Rightarrow> 'p evp_md_ctx" where
  "sha256_init ctx = set_md_bytes (store256 SHA256_Init) ctx"
definition sha256_update :: "'p evp_md_ctx \<Rightarrow> bytes \<Rightarrow> 'p evp_md_ctx" where
  "sha256_update ctx data = set_md_bytes (store256 (SHA256_Update (load256 (md_bytes ctx)) data)) ctx"
definition sha256_final :: "'p evp_md_ctx \<Rightarrow> bytes option \<times> 'p evp_md_ctx" where
  "sha256_final ctx = (let (out, c) = SHA256_Final (load256 (md_bytes ctx)) in (out, set_md_bytes (store256 c) ctx))"

text \<open>The initialisations of SHA-512 and SHA-384 leave the data buffer as it is.\<close>

definition sha384_init :: "'p evp_md_ctx \<Rightarrow> 'p evp_md_ctx" where
  "sha384_init ctx = set_md_bytes (store512 (SHA384_Init (s5_p (load512 (md_bytes ctx))))) ctx"
definition sha384_update :: "'p evp_md_ctx \<Rightarrow> bytes \<Rightarrow> 'p evp_md_ctx" where
  "sha384_update ctx data = set_md_bytes (store512 (SHA384_Update (load512 (md_bytes ctx)) data)) ctx"
definition sha384_final :: "'p evp_md_ctx \<Rightarrow> bytes option \<times> 'p evp_md_ctx" where
  "sha384_final ctx = (let (out, c) = SHA384_Final False (load512 (md_bytes ctx)) in (out, set_md_bytes (store512 c) ctx))"

definition sha512_init :: "'p evp_md_ctx \<Rightarrow> 'p evp_md_ctx" where
  "sha512_init ctx = set_md_bytes (store512 (SHA512_Init (s5_p (load512 (md_bytes ctx))))) ctx"
definition sha512_update :: "'p evp_md_ctx \<Rightarrow> bytes \<Rightarrow> 'p evp_md_ctx" where
  "sha512_update ctx data = set_md_bytes (store512 (SHA512_Update (load512 (md_bytes ctx)) data)) ctx"
definition sha512_final :: "'p evp_md_ctx \<Rightarrow> bytes option \<times> 'p evp_md_ctx" where
  "sha512_final ctx = (let (out, c) = SHA512_Final False (load512 (md_bytes ctx)) in (out, set_md_bytes (store512 c) ctx))"

text \<open>MD5 and SHA-1 side by side.\<close>

type_synonym md5_sha1_ctx = "md32_ctx \<times> md32_ctx"

definition load_md5_sha1 :: "bytes \<Rightarrow> md5_sha1_ctx" where
  "load_md5_sha1 b = (load32 4 (take 92 b), load32 5 (drop 92 b))"
definition store_md5_sha1 :: "md5_sha1_ctx \<Rightarrow> bytes" where
  "store_md5_sha1 c = store32 (fst c) @ store32 (snd c)"

definition md5_sha1_init :: "'p evp_md_ctx \<Rightarrow> 'p evp_md_ctx" where
  "md5_sha1_init ctx = set_md_bytes (store_md5_sha1 (MD5_Init, SHA1_Init)) ctx"
definition md5_sha1_update :: "'p evp_md_ctx \<Rightarrow> bytes \<Rightarrow> 'p evp_md_ctx" where
  "md5_sha1_update ctx data =
     (let (md5, sha1) = load_md5_sha1 (md_bytes ctx)
      in set_md_bytes (store_md5_sha1 (MD5_Update md5 data, SHA1_Update sha1 data)) ctx)"
definition md5_sha1_final :: "'p evp_md_ctx \<Rightarrow> bytes option \<times> 'p evp_md_ctx" where
  "md5_sha1_final ctx =
     (let (md5, sha1) = load_md5_sha1 (md_bytes ctx);
          (out1, md5) = MD5_Final md5
      in case out1 of
           None \<Rightarrow> (None, set_md_bytes (store_md5_sha1 (md5, sha1)) ctx)
         | Some d \<Rightarrow>
             let (out2, sha1) = SHA1_Final sha1
             in (map_option (\<lambda>e. d @ e) out2, set_md_bytes (store_md5_sha1 (md5, sha1)) ctx))"

definition MD4_DIGEST_LENGTH :: nat where "MD4_DIGEST_LENGTH = 16"
definition MD5_DIGEST_LENGTH :: nat where "MD5_DIGEST_LENGTH = 16"
definition SHA_DIGEST_LENGTH :: nat where "SHA_DIGEST_LENGTH = 20"

text \<open>The objects; the sizes of the structures are written out, as are the numbers of \<^verbatim>\<open>nid.h\<close>.\<close>

definition md4_method :: "'p env_md_st" where
  "md4_method = \<lparr>em_type = 257, em_md_size = MD4_DIGEST_LENGTH, em_flags = 0, em_init = md4_init, em_update = md4_update,
     em_final = md4_final, em_block_size = 64, em_ctx_size = 92\<rparr>"
definition md5_method :: "'p env_md_st" where
  "md5_method = \<lparr>em_type = 4, em_md_size = MD5_DIGEST_LENGTH, em_flags = 0, em_init = md5_init, em_update = md5_update,
     em_final = md5_final, em_block_size = 64, em_ctx_size = 92\<rparr>"
definition sha1_method :: "'p env_md_st" where
  "sha1_method = \<lparr>em_type = 64, em_md_size = SHA_DIGEST_LENGTH, em_flags = 0, em_init = sha1_init, em_update = sha1_update,
     em_final = sha1_final, em_block_size = 64, em_ctx_size = 96\<rparr>"
definition sha224_method :: "'p env_md_st" where
  "sha224_method = \<lparr>em_type = 675, em_md_size = SHA224_DIGEST_LENGTH, em_flags = 0, em_init = sha224_init, em_update = sha224_update,
     em_final = sha224_final, em_block_size = 64, em_ctx_size = 112\<rparr>"
definition sha256_method :: "'p env_md_st" where
  "sha256_method = \<lparr>em_type = 672, em_md_size = SHA256_DIGEST_LENGTH, em_flags = 0, em_init = sha256_init, em_update = sha256_update,
     em_final = sha256_final, em_block_size = 64, em_ctx_size = 112\<rparr>"
definition sha384_method :: "'p env_md_st" where
  "sha384_method = \<lparr>em_type = 673, em_md_size = SHA384_DIGEST_LENGTH, em_flags = 0, em_init = sha384_init, em_update = sha384_update,
     em_final = sha384_final, em_block_size = 128, em_ctx_size = 216\<rparr>"
definition sha512_method :: "'p env_md_st" where
  "sha512_method = \<lparr>em_type = 674, em_md_size = SHA512_DIGEST_LENGTH, em_flags = 0, em_init = sha512_init, em_update = sha512_update,
     em_final = sha512_final, em_block_size = 128, em_ctx_size = 216\<rparr>"
definition md5_sha1_method :: "'p env_md_st" where
  "md5_sha1_method = \<lparr>em_type = 114, em_md_size = MD5_DIGEST_LENGTH + SHA_DIGEST_LENGTH, em_flags = 0, em_init = md5_sha1_init,
     em_update = md5_sha1_update, em_final = md5_sha1_final, em_block_size = 64, em_ctx_size = 188\<rparr>"

primrec deref_md :: "evp_md \<Rightarrow> 'p env_md_st" where
  "deref_md EVP_md4 = md4_method"
| "deref_md EVP_md5 = md5_method"
| "deref_md EVP_sha1 = sha1_method"
| "deref_md EVP_sha224 = sha224_method"
| "deref_md EVP_sha256 = sha256_method"
| "deref_md EVP_sha384 = sha384_method"
| "deref_md EVP_sha512 = sha512_method"
| "deref_md EVP_md5_sha1 = md5_sha1_method"

section \<open>digest.c\<close>

definition EVP_MD_type :: "evp_md \<Rightarrow> int" where
  "EVP_MD_type md = em_type (deref_md md :: unit env_md_st)"
definition EVP_MD_flags :: "evp_md \<Rightarrow> u32" where
  "EVP_MD_flags md = em_flags (deref_md md :: unit env_md_st)"
definition EVP_MD_size :: "evp_md \<Rightarrow> nat" where
  "EVP_MD_size md = em_md_size (deref_md md :: unit env_md_st)"
definition EVP_MD_block_size :: "evp_md \<Rightarrow> nat" where
  "EVP_MD_block_size md = em_block_size (deref_md md :: unit env_md_st)"
definition ctx_size :: "evp_md \<Rightarrow> nat" where
  "ctx_size md = em_ctx_size (deref_md md :: unit env_md_st)"

definition EVP_MD_CTX_init :: "'p evp_md_ctx" where
  "EVP_MD_CTX_init = \<lparr>ed_digest = None, ed_md_data = None, ed_pctx = None, ed_pctx_ops = None\<rparr>"

definition EVP_MD_CTX_new :: "malloc \<Rightarrow> 'p evp_md_ctx option" where
  "EVP_MD_CTX_new m = (case OPENSSL_malloc m 32 of None \<Rightarrow> None | Some _ \<Rightarrow> Some EVP_MD_CTX_init)"

definition EVP_MD_CTX_create :: "malloc \<Rightarrow> 'p evp_md_ctx option" where
  "EVP_MD_CTX_create m = EVP_MD_CTX_new m"

text \<open>What is freed is cleared by \<^verbatim>\<open>OPENSSL_free\<close>; \<open>EVP_MD_CTX_cleanup\<close> gives the memory it hands to the allocator, too.\<close>

definition EVP_MD_CTX_cleanup :: "'p evp_md_ctx \<Rightarrow> bytes option \<times> 'p evp_md_ctx" where
  "EVP_MD_CTX_cleanup ctx = (OPENSSL_free (ed_md_data ctx), EVP_MD_CTX_init)"

definition EVP_MD_CTX_copy_ex :: "malloc \<Rightarrow> 'p evp_md_ctx \<Rightarrow> 'p evp_md_ctx option \<Rightarrow> unit option \<times> 'p evp_md_ctx" where
  "EVP_MD_CTX_copy_ex m out inp =
     (case inp of
        None \<Rightarrow> (None, out)
      | Some inp \<Rightarrow>
          (case ed_digest inp of
             None \<Rightarrow> (None, out)
           | Some md \<Rightarrow>
               (case (case ed_pctx inp of None \<Rightarrow> Some None | Some p \<Rightarrow> map_option Some (po_dup (the (ed_pctx_ops inp)) p)) of
                  None \<Rightarrow> (None, out)
                | Some pctx \<Rightarrow>
                    (case (if ed_digest out \<noteq> Some md then OPENSSL_malloc m (ctx_size md) else ed_md_data out) of
                       None \<Rightarrow> (None, out)
                     | Some tmp_buf \<Rightarrow>
                         (let out = snd (EVP_MD_CTX_cleanup out);
                              out = out\<lparr>ed_digest := Some md,
                                ed_md_data := Some (tmp_buf\<lparr>blk_data := mem_write (blk_data tmp_buf) 0 (take (ctx_size md) (md_bytes inp))\<rparr>),
                                ed_pctx := pctx, ed_pctx_ops := ed_pctx_ops inp\<rparr>
                          in (Some (), out))))))"

definition EVP_MD_CTX_copy :: "malloc \<Rightarrow> 'p evp_md_ctx option \<Rightarrow> unit option \<times> 'p evp_md_ctx" where
  "EVP_MD_CTX_copy m inp = EVP_MD_CTX_copy_ex m EVP_MD_CTX_init inp"

definition EVP_MD_CTX_reset :: "'p evp_md_ctx \<Rightarrow> 'p evp_md_ctx" where
  "EVP_MD_CTX_reset ctx = (let ctx = snd (EVP_MD_CTX_cleanup ctx) in EVP_MD_CTX_init)"

definition EVP_DigestInit_ex :: "malloc \<Rightarrow> 'p evp_md_ctx \<Rightarrow> evp_md \<Rightarrow> unit option \<times> 'p evp_md_ctx" where
  "EVP_DigestInit_ex m ctx type =
     (if ed_digest ctx \<noteq> Some type then
        (case OPENSSL_malloc m (ctx_size type) of
           None \<Rightarrow> (None, ctx)
         | Some data \<Rightarrow>
             (let ctx = ctx\<lparr>ed_md_data := Some data, ed_digest := Some type\<rparr>
              in (Some (), em_init (deref_md type) ctx)))
      else (Some (), em_init (deref_md type) ctx))"

definition EVP_DigestInit :: "malloc \<Rightarrow> evp_md \<Rightarrow> unit option \<times> 'p evp_md_ctx" where
  "EVP_DigestInit m type = EVP_DigestInit_ex m EVP_MD_CTX_init type"

definition EVP_DigestUpdate :: "'p evp_md_ctx \<Rightarrow> bytes \<Rightarrow> 'p evp_md_ctx" where
  "EVP_DigestUpdate ctx data = em_update (deref_md (the (ed_digest ctx))) ctx data"

text \<open>The digest, its size, and the context with its memory cleared.\<close>

definition EVP_DigestFinal_ex :: "'p evp_md_ctx \<Rightarrow> (bytes option \<times> nat) \<times> 'p evp_md_ctx" where
  "EVP_DigestFinal_ex ctx =
     (let md = the (ed_digest ctx);
          (md_out, ctx) = em_final (deref_md md) ctx
      in ((md_out, EVP_MD_size md), set_md_bytes (OPENSSL_cleanse (md_bytes ctx) (ctx_size md)) ctx))"

definition EVP_DigestFinal :: "'p evp_md_ctx \<Rightarrow> (bytes option \<times> nat) \<times> 'p evp_md_ctx" where
  "EVP_DigestFinal ctx = (let (md, ctx) = EVP_DigestFinal_ex ctx in (md, snd (EVP_MD_CTX_cleanup ctx)))"

definition EVP_Digest :: "malloc \<Rightarrow> bytes \<Rightarrow> evp_md \<Rightarrow> (bytes option \<times> nat) option" where
  "EVP_Digest m data type =
     (case EVP_DigestInit_ex m (EVP_MD_CTX_init :: unit evp_md_ctx) type of
        (None, ctx) \<Rightarrow> None
      | (Some _, ctx) \<Rightarrow>
          (let ctx = EVP_DigestUpdate ctx data;
               (out, ctx) = EVP_DigestFinal_ex ctx
           in Some out))"

definition EVP_MD_CTX_md :: "'p evp_md_ctx option \<Rightarrow> evp_md option" where
  "EVP_MD_CTX_md ctx = (case ctx of None \<Rightarrow> None | Some ctx \<Rightarrow> ed_digest ctx)"
definition EVP_MD_CTX_size :: "'p evp_md_ctx option \<Rightarrow> nat" where
  "EVP_MD_CTX_size ctx = EVP_MD_size (the (EVP_MD_CTX_md ctx))"
definition EVP_MD_CTX_block_size :: "'p evp_md_ctx option \<Rightarrow> nat" where
  "EVP_MD_CTX_block_size ctx = EVP_MD_block_size (the (EVP_MD_CTX_md ctx))"
definition EVP_MD_CTX_type :: "'p evp_md_ctx option \<Rightarrow> int" where
  "EVP_MD_CTX_type ctx = EVP_MD_type (the (EVP_MD_CTX_md ctx))"

section \<open>The layout\<close>

lemma field_append: "length a = off \<Longrightarrow> length b = n \<Longrightarrow> field off n (a @ b @ c) = b"
  by (simp add: field_def)

lemma field_end: "length a = off \<Longrightarrow> length b = n \<Longrightarrow> field off n (a @ b) = b"
  by (simp add: field_def)

lemma field_word:
  "i < length ws \<Longrightarrow> field (n * i) n (concat (map (\<lambda>w. le_bytes n (unat w)) ws) @ rest) = le_bytes n (unat (ws ! i))"
proof (induction ws arbitrary: i)
  case (Cons w ws)
  then show ?case by (cases i) (simp_all add: field_def)
qed simp

lemma of_le_bytes:
  fixes w :: "'a::len word"
  assumes "LENGTH('a) = 8 * n"
  shows "of_nat (le_nat (le_bytes n (unat w))) = w"
proof -
  have "(2 :: nat) ^ LENGTH('a) = 256 ^ n" by (simp add: assms power_mult)
  then have "unat w < 256 ^ n" using unsigned_less [of w, where ?'a = nat] by simp
  then show ?thesis by (simp add: le_nat_le_bytes)
qed

lemma le_nat_le_small: "v < 256 ^ n \<Longrightarrow> le_nat (le_bytes n v) = v"
  by (simp add: le_nat_le_bytes)

lemma load_words:
  fixes ws :: "'a::len word list"
  assumes "LENGTH('a) = 8 * n" and "length ws = k"
  shows "map (\<lambda>i. of_nat (le_nat (field (n * i) n (concat (map (\<lambda>w. le_bytes n (unat w)) ws) @ rest)))) [0..<k] = ws"
  using assms by (intro nth_equalityI) (simp_all add: field_word of_le_bytes)

definition ok32 :: "nat \<Rightarrow> 'a md32_ctx_scheme \<Rightarrow> bool" where
  "ok32 k c \<longleftrightarrow> length (md_h c) = k \<and> length (md_data c) = 64 \<and> md_num c < 64"

lemma length_store32: "ok32 k c \<Longrightarrow> length (store32 c) = 4 * k + 76"
  by (simp add: ok32_def store32_def length_concat_le)

lemma load32_store32:
  assumes "ok32 k c"
  shows "load32 k (store32 c @ rest) = md32_ctx.truncate c"
proof -
  let ?h = "concat (map (\<lambda>w. le_bytes 4 (unat w)) (md_h c))"
  have l: "length ?h = 4 * k" using assms by (simp add: ok32_def length_concat_le)
  have d: "length (md_data c) = 64" "md_num c < 256 ^ 4" using assms by (simp_all add: ok32_def)
  have s: "store32 c @ rest = ?h @ (le_bytes 4 (unat (md_Nl c)) @ le_bytes 4 (unat (md_Nh c)) @ md_data c @ le_bytes 4 (md_num c) @ rest)"
    by (simp add: store32_def)
  have f1: "field (4 * k) 4 (store32 c @ rest) = le_bytes 4 (unat (md_Nl c))"
    unfolding s by (rule field_append) (simp_all add: l)
  have f2: "field (4 * k + 4) 4 (store32 c @ rest) = le_bytes 4 (unat (md_Nh c))"
    using field_append [of "?h @ le_bytes 4 (unat (md_Nl c))" "4 * k + 4" "le_bytes 4 (unat (md_Nh c))" 4] by (simp add: s l)
  have f3: "field (4 * k + 8) 64 (store32 c @ rest) = md_data c"
    using field_append [of "?h @ le_bytes 4 (unat (md_Nl c)) @ le_bytes 4 (unat (md_Nh c))" "4 * k + 8" "md_data c" 64] by (simp add: s l d)
  have f4: "field (4 * k + 72) 4 (store32 c @ rest) = le_bytes 4 (md_num c)"
    using field_append [of "?h @ le_bytes 4 (unat (md_Nl c)) @ le_bytes 4 (unat (md_Nh c)) @ md_data c" "4 * k + 72" "le_bytes 4 (md_num c)" 4 rest]
    by (simp add: s l d)
  have f5: "map (\<lambda>i. of_nat (le_nat (field (4 * i) 4 (store32 c @ rest)))) [0..<k] = md_h c"
    unfolding s using assms by (intro load_words) (simp_all add: ok32_def)
  have w: "of_nat (le_nat (le_bytes 4 (unat w))) = w" for w :: u32 by (rule of_le_bytes) simp
  show ?thesis unfolding load32_def f1 f2 f3 f4 f5 w le_nat_le_small [OF d(2)] md32_ctx.truncate_def ..
qed

lemma load32_store: "ok32 k c \<Longrightarrow> load32 k (store32 c) = md32_ctx.truncate c"
  using load32_store32 [of k c "[]"] by simp

lemma truncate_md32 [simp]: "md32_ctx.truncate (c :: md32_ctx) = c"
  by (cases c) (simp add: md32_ctx.truncate_def)

lemma load256_store256:
  assumes "ok32 8 c" and "md_len c < 256"
  shows "load256 (store256 c) = c"
proof -
  have "field 108 4 (store256 c) = le_bytes 4 (md_len c)"
    unfolding store256_def by (rule field_end) (simp_all add: length_store32 [OF assms(1)])
  moreover have "load32 8 (store256 c) = md32_ctx.truncate c" by (simp add: store256_def load32_store32 [OF assms(1)])
  ultimately show ?thesis using assms(2)
    by (cases c) (simp add: load256_def md32_ctx.truncate_def md32_ctx.extend_def sha256_ctx.fields_def le_nat_le_bytes)
qed

definition ok512 :: "sha512_ctx \<Rightarrow> bool" where
  "ok512 c \<longleftrightarrow> length (s5_h c) = 8 \<and> length (s5_p c) = 128 \<and> s5_num c < 128 \<and> s5_md_len c < 256"

lemma length_store512: "ok512 c \<Longrightarrow> length (store512 c) = 216"
  by (simp add: ok512_def store512_def length_concat_le)

lemma load512_store512:
  assumes "ok512 c"
  shows "load512 (store512 c) = c"
proof -
  let ?h = "concat (map (\<lambda>w. le_bytes 8 (unat w)) (s5_h c))"
  let ?n = "le_bytes 8 (unat (s5_Nl c)) @ le_bytes 8 (unat (s5_Nh c))"
  have l: "length ?h = 64" using assms by (simp add: ok512_def length_concat_le)
  have d: "length (s5_p c) = 128" "s5_num c < 256 ^ 4" "s5_md_len c < 256 ^ 4" using assms by (simp_all add: ok512_def)
  have f1: "field 64 8 (store512 c) = le_bytes 8 (unat (s5_Nl c))"
    unfolding store512_def by (rule field_append) (simp_all add: l)
  have f2: "field 72 8 (store512 c) = le_bytes 8 (unat (s5_Nh c))"
    using field_append [of "?h @ le_bytes 8 (unat (s5_Nl c))" 72 "le_bytes 8 (unat (s5_Nh c))" 8] by (simp add: store512_def l)
  have f3: "field 80 128 (store512 c) = s5_p c"
    using field_append [of "?h @ ?n" 80 "s5_p c" 128] by (simp add: store512_def l d)
  have f4: "field 208 4 (store512 c) = le_bytes 4 (s5_num c)"
    using field_append [of "?h @ ?n @ s5_p c" 208 "le_bytes 4 (s5_num c)" 4] by (simp add: store512_def l d)
  have f5: "field 212 4 (store512 c) = le_bytes 4 (s5_md_len c)"
    using field_end [of "?h @ ?n @ s5_p c @ le_bytes 4 (s5_num c)" 212 "le_bytes 4 (s5_md_len c)" 4] by (simp add: store512_def l d)
  have f6: "map (\<lambda>i. of_nat (le_nat (field (8 * i) 8 (store512 c)))) [0..<8] = s5_h c"
    unfolding store512_def using assms by (intro load_words) (simp_all add: ok512_def)
  have w: "of_nat (le_nat (le_bytes 8 (unat w))) = w" for w :: u64 by (rule of_le_bytes) simp
  show ?thesis unfolding load512_def f1 f2 f3 f4 f5 f6 w le_nat_le_small [OF d(2)] le_nat_le_small [OF d(3)] by simp
qed

section \<open>Sessions in memory\<close>

text \<open>
  What a hash function promises to the layer above: after any updates its structure survives the way through memory, and the final function
  gives the hash of what was put in.
\<close>

definition holds_session :: "('c \<Rightarrow> bytes) \<Rightarrow> ('c \<Rightarrow> bytes \<Rightarrow> 'c) \<Rightarrow> ('c \<Rightarrow> bool) \<Rightarrow> bytes \<Rightarrow> bytes \<Rightarrow> bool" where
  "holds_session store upd start xs b \<longleftrightarrow> (\<exists>c ys. start c \<and> concat ys = xs \<and> b = store (fold (\<lambda>y c. upd c y) ys c))"

locale hash_struct =
  fixes load :: "bytes \<Rightarrow> 'c" and store :: "'c \<Rightarrow> bytes" and upd :: "'c \<Rightarrow> bytes \<Rightarrow> 'c" and fin :: "'c \<Rightarrow> bytes option \<times> 'c"
    and start :: "'c \<Rightarrow> bool" and sz :: nat and hash :: "bytes \<Rightarrow> bytes"
  assumes stored: "start c \<Longrightarrow> load (store (fold (\<lambda>y c. upd c y) ys c)) = fold (\<lambda>y c. upd c y) ys c"
    and stored_length: "start c \<Longrightarrow> length (store (fold (\<lambda>y c. upd c y) ys c)) = sz"
    and final: "start c \<Longrightarrow> \<exists>c'. fin (fold (\<lambda>y c. upd c y) ys c) = (Some (hash (concat ys)), c') \<and> length (store c') = sz"
begin

lemma session_start: "start c \<Longrightarrow> holds_session store upd start [] (store c)"
  unfolding holds_session_def by (intro exI [of _ c] exI [of _ "[]"]) simp

lemma session_length: "holds_session store upd start xs b \<Longrightarrow> length b = sz"
  by (auto simp: holds_session_def stored_length)

lemma session_update:
  assumes "holds_session store upd start xs b"
  shows "holds_session store upd start (xs @ ys) (store (upd (load b) ys))"
proof -
  from assms obtain c zs where c: "start c" "concat zs = xs" "b = store (fold (\<lambda>y c. upd c y) zs c)" by (auto simp: holds_session_def)
  then have "store (upd (load b) ys) = store (fold (\<lambda>y c. upd c y) (zs @ [ys]) c)" by (simp add: stored)
  moreover have "concat (zs @ [ys]) = xs @ ys" using c by simp
  ultimately show ?thesis using c(1) unfolding holds_session_def by blast
qed

lemma session_final: "holds_session store upd start xs b \<Longrightarrow> \<exists>c'. fin (load b) = (Some (hash xs), c') \<and> length (store c') = sz"
  using final by (auto simp: holds_session_def stored)

end

context md32
begin

lemma session_stored:
  fixes ys :: "bytes list"
  assumes "md32_state f h0 c []" and "\<And>ys. length (foldl f h0 (blocks 64 ys)) = k"
  defines "c' \<equiv> fold (\<lambda>y c. HASH_UPDATE block c y) ys c"
  shows "ok32 k c'" and "md32_ctx.more c' = md32_ctx.more c"
    and "\<exists>d. snd (HASH_FINAL big block mk c') = d \<and> ok32 k d \<and> md32_ctx.more d = md32_ctx.more c"
proof -
  show "md32_ctx.more c' = md32_ctx.more c" unfolding c'_def by (rule updates_state(2) [OF assms(1)])
  have a: "absorbed f 64 h0 (concat ys) (md_h c') (md_data c') (md_num c')"
    using updates_state(1) [OF assms(1), of ys] by (simp add: c'_def md32_state_def)
  then show "ok32 k c'" using absorbed_num [OF _ a] assms(2) by (simp add: ok32_def absorbed_def)
  show "\<exists>d. snd (HASH_FINAL big block mk c') = d \<and> ok32 k d \<and> md32_ctx.more d = md32_ctx.more c"
    using session [OF assms(1), of big mk ys] assms(2) by (auto simp: c'_def ok32_def Let_def)
qed

end

lemma hash32_struct:
  assumes upd: "upd = HASH_UPDATE block" and fin: "fin = HASH_FINAL big block mk" and md: "md32 block f"
    and start: "md32_state f (md_h c0) c0 []" and "\<And>ys. length (foldl f (md_h c0) (blocks 64 ys)) = k"
    and sess: "\<And>ys. fst (fin (fold (\<lambda>y c. upd c y) ys c0)) = Some (hash (concat ys))"
  shows "hash_struct (load32 k) store32 upd fin ((=) c0) (4 * k + 76) hash"
proof
  fix c :: md32_ctx and ys :: "bytes list"
  assume c: "c0 = c"
  note s = md32.session_stored [OF md start assms(5), where ys = ys]
  have ok: "ok32 k (fold (\<lambda>y c. upd c y) ys c)" using s(1) by (simp add: upd c)
  then show "load32 k (store32 (fold (\<lambda>y c. upd c y) ys c)) = fold (\<lambda>y c. upd c y) ys c" by (simp add: load32_store)
  show "length (store32 (fold (\<lambda>y c. upd c y) ys c)) = 4 * k + 76" by (rule length_store32 [OF ok])
  have "ok32 k (snd (fin (fold (\<lambda>y c. upd c y) ys c)))" using s(3) [where big = big and mk = mk] by (simp add: upd fin c)
  then show "\<exists>c'. fin (fold (\<lambda>y c. upd c y) ys c) = (Some (hash (concat ys)), c') \<and> length (store32 c') = 4 * k + 76"
    using sess [of ys] length_store32 c by (metis prod.collapse)
qed

lemma md4_length: "length (foldl md4_one_block (md_h MD4_Init) (blocks 64 ys)) = 4"
  by (rule md_fold(2) [where compress = "rfc_compress rfc1320_step (map rfc1320_call [0..<48])"]; simp add: md4_one_block_eq MD4_Init_def)

lemma md5_length: "length (foldl md5_one_block (md_h MD5_Init) (blocks 64 ys)) = 4"
  by (rule md_fold(2) [where compress = "rfc_compress rfc1321_step (map rfc1321_call [0..<64])"]; simp add: md5_one_block_eq MD5_Init_def)

interpretation md4_struct: hash_struct "load32 4" store32 MD4_Update MD4_Final "(=) MD4_Init" 92 rfc1320_md4
  using hash32_struct [OF MD4_Update_def MD4_Final_def md4.md32_axioms md32_state_start md4_length md4_session] by (simp add: MD4_Init_def)

interpretation md5_struct: hash_struct "load32 4" store32 MD5_Update MD5_Final "(=) MD5_Init" 92 rfc1321_md5
  using hash32_struct [OF MD5_Update_def MD5_Final_def md5.md32_axioms md32_state_start md5_length md5_session] by (simp add: MD5_Init_def)

interpretation sha1_struct: hash_struct "load32 5" store32 SHA1_Update SHA1_Final "(=) SHA1_Init" 96 fips_hash1
  using hash32_struct [OF SHA1_Update_def SHA1_Final_def sha1.md32_axioms md32_state_start sha1_fold(2) sha1_session] by (simp add: SHA1_Init_def)

text \<open>SHA-256 and SHA-224 differ in the initial value and the length in the context.\<close>

lemma hash256_struct:
  assumes start: "md32_state sha256_one_block (md_h c0) c0 []" and h: "length (md_h c0) = 8" and len: "md_len c0 = 28 \<or> md_len c0 = 32"
  shows "hash_struct load256 store256 SHA256_Update SHA256_Final ((=) c0) 112 (\<lambda>xs. take (md_len c0) (fips_hash256 (md_h c0) xs))"
proof
  fix c :: sha256_ctx and ys :: "bytes list"
  assume c: "c0 = c"
  let ?c = "fold (\<lambda>y c. SHA256_Update c y) ys c"
  note s = md32.session_stored [OF sha256.md32_axioms start sha256_fold(2) [OF h], where ys = ys]
  have ok: "ok32 8 ?c" and m: "md32_ctx.more ?c = md32_ctx.more c0" using s(1,2) by (simp_all add: SHA256_Update_def c)
  have l: "md_len d = md_len c0" if "md32_ctx.more d = md32_ctx.more c0" for d :: sha256_ctx using that by (cases d; cases c0) simp
  show "load256 (store256 ?c) = ?c" using ok l [OF m] len by (intro load256_store256) auto
  show "length (store256 ?c) = 112" using length_store32 [OF ok] by (simp add: store256_def)
  obtain d where "snd (SHA256_Final ?c) = d" "ok32 8 d" using s(3) by (auto simp: SHA256_Final_def SHA256_Update_def c)
  then show "\<exists>c'. SHA256_Final ?c = (Some (take (md_len c0) (fips_hash256 (md_h c0) (concat ys))), c') \<and> length (store256 c') = 112"
    using sha256_session [OF start h len, of ys] length_store32 [of 8 d] c by (cases "SHA256_Final ?c") (auto simp: store256_def)
qed

definition sha256_hash :: "bytes \<Rightarrow> bytes" where
  "sha256_hash xs = fips_hash256 (md_h SHA256_Init) xs"
definition sha224_hash :: "bytes \<Rightarrow> bytes" where
  "sha224_hash xs = take 28 (fips_hash256 (md_h SHA224_Init) xs)"

lemma length_fips_hash256: "length H = 8 \<Longrightarrow> length (fips_hash256 H m) = 32"
proof -
  assume "length H = 8"
  then have "length (foldl (\<lambda>H b. sha2_compress fips_sha256 64 H (be_words b)) H bs) = 8" for bs
    by (cases bs rule: rev_cases) simp_all
  then show ?thesis by (simp add: fips_hash256_def length_concat_words)
qed

interpretation sha256_struct: hash_struct load256 store256 SHA256_Update SHA256_Final "(=) SHA256_Init" 112 sha256_hash
proof -
  have "take 32 (fips_hash256 (md_h SHA256_Init) xs) = sha256_hash xs" for xs
    using length_fips_hash256 [of "md_h SHA256_Init" xs] by (simp add: sha256_hash_def SHA256_Init_def)
  then show "hash_struct load256 store256 SHA256_Update SHA256_Final ((=) SHA256_Init) 112 sha256_hash"
    using hash256_struct [OF md32_state_start, of SHA256_Init] by (simp add: SHA256_Init_def SHA256_DIGEST_LENGTH_def)
qed

interpretation sha224_struct: hash_struct load256 store256 SHA224_Update SHA224_Final "(=) SHA224_Init" 112 sha224_hash
  using hash256_struct [OF md32_state_start, of SHA224_Init]
  by (simp add: SHA224_Init_def SHA224_DIGEST_LENGTH_def sha224_hash_def [abs_def] SHA224_Update_def [abs_def] SHA224_Final_def [abs_def])

lemma length_pad512: "ok512 c \<Longrightarrow> length (s5_p (sha512_pad c)) = 128 \<and> s5_num (sha512_pad c) = s5_num c"
proof -
  have f: "length (fold (\<lambda>i p. p[g i := h i]) is p) = length p" for g h and "is" :: "nat list" and p :: bytes
    by (induction "is" arbitrary: p) simp_all
  assume "ok512 c"
  then show ?thesis
    by (cases "s5_num c + 1 > 112") (simp_all add: ok512_def sha512_pad_def Let_def f length_mem_write)
qed

lemma hash512_struct:
  assumes start: "\<And>c. start c \<Longrightarrow> sha512_state H c [] \<and> s5_md_len c = n" and h: "length H = 8" and n: "n = 48 \<or> n = 64"
  shows "hash_struct load512 store512 SHA512_Update (SHA512_Final False) start 216 (\<lambda>xs. take n (fips_hash512 H xs))"
proof
  fix c :: sha512_ctx and ys :: "bytes list"
  assume c: "start c"
  let ?c = "fold (\<lambda>y c. SHA512_Update c y) ys c"
  have i: "sha512_state H c []" "s5_md_len c = n" using start [OF c] by simp_all
  have s: "sha512_state H ?c (concat ys)" and m: "s5_md_len ?c = n" using sha512_updates_state [OF i(1), of ys] i(2) by simp_all
  have a: "absorbed sha512_one_block 128 H (concat ys) (s5_h ?c) (s5_p ?c) (s5_num ?c)" using s by (simp add: sha512_state_def)
  have ok: "ok512 ?c" using absorbed_num [OF _ a] a m n sha512_fold(2) [OF h] by (auto simp: ok512_def absorbed_def)
  show "load512 (store512 ?c) = ?c" by (rule load512_store512 [OF ok])
  show "length (store512 ?c) = 216" by (rule length_store512 [OF ok])
  have "ok512 (sha512_pad ?c)"
    using ok length_pad512 [OF ok] sha512_pad_state [OF s] sha512_fold(2) [OF h] by (simp add: ok512_def)
  then have "length (store512 (snd (SHA512_Final False ?c))) = 216" using length_store512 by (simp add: SHA512_Final_def Let_def)
  then show "\<exists>c'. SHA512_Final False ?c = (Some (take n (fips_hash512 H (concat ys))), c') \<and> length (store512 c') = 216"
    using sha512_session [OF i(1) h, of ys] i(2) n by (cases "SHA512_Final False ?c") auto
qed

definition sha512_hash :: "bytes \<Rightarrow> bytes" where
  "sha512_hash xs = fips_hash512 (s5_h (SHA512_Init [])) xs"
definition sha384_hash :: "bytes \<Rightarrow> bytes" where
  "sha384_hash xs = take 48 (fips_hash512 (s5_h (SHA384_Init [])) xs)"

text \<open>They start with any contents of the buffer.\<close>

definition sha512_start :: "sha512_ctx \<Rightarrow> bool" where
  "sha512_start c \<longleftrightarrow> length (s5_p c) = 128 \<and> c = SHA512_Init (s5_p c)"
definition sha384_start :: "sha512_ctx \<Rightarrow> bool" where
  "sha384_start c \<longleftrightarrow> length (s5_p c) = 128 \<and> c = SHA384_Init (s5_p c)"

lemma length_fips_hash512: "length H = 8 \<Longrightarrow> length (fips_hash512 H m) = 64"
proof -
  assume "length H = 8"
  then have "length (foldl (\<lambda>H b. sha2_compress fips_sha512 80 H (be_words b)) H bs) = 8" for bs
    by (cases bs rule: rev_cases) simp_all
  then show ?thesis by (simp add: fips_hash512_def length_concat_words)
qed

interpretation sha512_struct: hash_struct load512 store512 SHA512_Update "SHA512_Final False" sha512_start 216 sha512_hash
proof -
  let ?H = "s5_h (SHA512_Init [])"
  have "sha512_state ?H c [] \<and> s5_md_len c = 64" if "sha512_start c" for c
  proof -
    from that obtain p where "length p = 128" "c = SHA512_Init p" by (auto simp: sha512_start_def)
    then show ?thesis by (simp add: SHA512_Init_def SHA512_DIGEST_LENGTH_def sha512_state_def absorbed_def)
  qed
  moreover have "take 64 (fips_hash512 ?H xs) = sha512_hash xs" for xs
    using length_fips_hash512 [of ?H xs] by (simp add: sha512_hash_def SHA512_Init_def)
  moreover have "length ?H = 8" by (simp add: SHA512_Init_def)
  ultimately show "hash_struct load512 store512 SHA512_Update (SHA512_Final False) sha512_start 216 sha512_hash"
    using hash512_struct [of sha512_start ?H 64] by simp
qed

interpretation sha384_struct: hash_struct load512 store512 SHA384_Update "SHA384_Final False" sha384_start 216 sha384_hash
proof -
  let ?H = "s5_h (SHA384_Init [])"
  have "sha512_state ?H c [] \<and> s5_md_len c = 48" if "sha384_start c" for c
  proof -
    from that obtain p where "length p = 128" "c = SHA384_Init p" by (auto simp: sha384_start_def)
    then show ?thesis by (simp add: SHA384_Init_def SHA384_DIGEST_LENGTH_def sha512_state_def absorbed_def)
  qed
  moreover have "length ?H = 8" by (simp add: SHA384_Init_def)
  ultimately show "hash_struct load512 store512 SHA384_Update (SHA384_Final False) sha384_start 216 sha384_hash"
    using hash512_struct [of sha384_start ?H 48]
    by (simp add: SHA384_Update_def [abs_def] SHA384_Final_def [abs_def] sha384_hash_def [abs_def])
qed

text \<open>Two structures side by side.\<close>

definition both_update :: "md5_sha1_ctx \<Rightarrow> bytes \<Rightarrow> md5_sha1_ctx" where
  "both_update c data = (MD5_Update (fst c) data, SHA1_Update (snd c) data)"

definition both_final :: "md5_sha1_ctx \<Rightarrow> bytes option \<times> md5_sha1_ctx" where
  "both_final c =
     (case MD5_Final (fst c) of
        (None, md5) \<Rightarrow> (None, (md5, snd c))
      | (Some d, md5) \<Rightarrow> (case SHA1_Final (snd c) of (out2, sha1) \<Rightarrow> (map_option (\<lambda>e. d @ e) out2, (md5, sha1))))"

definition md5_sha1_hash :: "bytes \<Rightarrow> bytes" where
  "md5_sha1_hash xs = rfc1321_md5 xs @ fips_hash1 xs"

lemma fold_both: "fold (\<lambda>y c. both_update c y) ys (a, b) = (fold (\<lambda>y c. MD5_Update c y) ys a, fold (\<lambda>y c. SHA1_Update c y) ys b)"
  by (induction ys arbitrary: a b) (simp_all add: both_update_def)

interpretation md5_sha1_struct: hash_struct load_md5_sha1 store_md5_sha1 both_update both_final "(=) (MD5_Init, SHA1_Init)" 188 md5_sha1_hash
proof
  fix c :: md5_sha1_ctx and ys :: "bytes list"
  assume c: "(MD5_Init, SHA1_Init) = c"
  let ?a = "fold (\<lambda>y c. MD5_Update c y) ys MD5_Init" and ?b = "fold (\<lambda>y c. SHA1_Update c y) ys SHA1_Init"
  have f: "fold (\<lambda>y c. both_update c y) ys c = (?a, ?b)" by (simp add: fold_both flip: c)
  have l: "length (store32 ?a) = 92" "length (store32 ?b) = 96" by (simp_all add: md5_struct.stored_length sha1_struct.stored_length)
  show "load_md5_sha1 (store_md5_sha1 (fold (\<lambda>y c. both_update c y) ys c)) = fold (\<lambda>y c. both_update c y) ys c"
    using l by (simp add: f load_md5_sha1_def store_md5_sha1_def md5_struct.stored sha1_struct.stored)
  show "length (store_md5_sha1 (fold (\<lambda>y c. both_update c y) ys c)) = 188"
    using l by (simp add: f store_md5_sha1_def)
  obtain c1 where c1: "MD5_Final ?a = (Some (rfc1321_md5 (concat ys)), c1)" "length (store32 c1) = 92" using md5_struct.final [OF refl, of ys] by blast
  obtain c2 where c2: "SHA1_Final ?b = (Some (fips_hash1 (concat ys)), c2)" "length (store32 c2) = 96" using sha1_struct.final [OF refl, of ys] by blast
  show "\<exists>c'. both_final (fold (\<lambda>y c. both_update c y) ys c) = (Some (md5_sha1_hash (concat ys)), c') \<and> length (store_md5_sha1 c') = 188"
    using c1 c2 by (simp add: f both_final_def md5_sha1_hash_def store_md5_sha1_def)
qed

section \<open>Any hash function\<close>

primrec md_hash :: "evp_md \<Rightarrow> bytes \<Rightarrow> bytes" where
  "md_hash EVP_md4 = rfc1320_md4"
| "md_hash EVP_md5 = rfc1321_md5"
| "md_hash EVP_sha1 = fips_hash1"
| "md_hash EVP_sha224 = sha224_hash"
| "md_hash EVP_sha256 = sha256_hash"
| "md_hash EVP_sha384 = sha384_hash"
| "md_hash EVP_sha512 = sha512_hash"
| "md_hash EVP_md5_sha1 = md5_sha1_hash"

text \<open>The memory holds the state of the hash function after the input \<open>xs\<close>.\<close>

primrec md_rep :: "evp_md \<Rightarrow> bytes \<Rightarrow> bytes \<Rightarrow> bool" where
  "md_rep EVP_md4 = holds_session store32 MD4_Update ((=) MD4_Init)"
| "md_rep EVP_md5 = holds_session store32 MD5_Update ((=) MD5_Init)"
| "md_rep EVP_sha1 = holds_session store32 SHA1_Update ((=) SHA1_Init)"
| "md_rep EVP_sha224 = holds_session store256 SHA224_Update ((=) SHA224_Init)"
| "md_rep EVP_sha256 = holds_session store256 SHA256_Update ((=) SHA256_Init)"
| "md_rep EVP_sha384 = holds_session store512 SHA384_Update sha384_start"
| "md_rep EVP_sha512 = holds_session store512 SHA512_Update sha512_start"
| "md_rep EVP_md5_sha1 = holds_session store_md5_sha1 both_update ((=) (MD5_Init, SHA1_Init))"

named_theorems method_defs

lemmas [method_defs] = md4_method_def md5_method_def sha1_method_def sha224_method_def sha256_method_def sha384_method_def
  sha512_method_def md5_sha1_method_def

lemma ctx_size_deref: "em_ctx_size (deref_md md :: 'p env_md_st) = ctx_size md"
  by (cases md) (simp_all add: ctx_size_def method_defs)

lemma md_rep_length: "md_rep md xs b \<Longrightarrow> length b = ctx_size md"
  by (cases md) (auto simp: ctx_size_def method_defs md4_struct.session_length md5_struct.session_length sha1_struct.session_length
      sha224_struct.session_length sha256_struct.session_length sha384_struct.session_length sha512_struct.session_length
      md5_sha1_struct.session_length)

lemma md_bytes_set [simp]: "md_bytes (set_md_bytes b ctx) = b" "ed_digest (set_md_bytes b ctx) = ed_digest ctx"
    "ed_pctx (set_md_bytes b ctx) = ed_pctx ctx" "ed_pctx_ops (set_md_bytes b ctx) = ed_pctx_ops ctx"
    "\<exists>y. ed_md_data (set_md_bytes b ctx) = Some y" "set_md_bytes c (set_md_bytes b ctx) = set_md_bytes c ctx"
  by (simp_all add: md_bytes_def set_md_bytes_def)

lemma method_init:
  assumes "length (md_bytes ctx) = ctx_size md"
  shows "\<exists>b. em_init (deref_md md) ctx = set_md_bytes b ctx \<and> md_rep md [] b"
proof -
  have "length (s5_p (load512 (md_bytes ctx))) = 128" if "ctx_size md = 216"
    using assms that by (simp add: load512_def field_def)
  then have "sha384_start (SHA384_Init (s5_p (load512 (md_bytes ctx))))" "sha512_start (SHA512_Init (s5_p (load512 (md_bytes ctx))))"
    if "ctx_size md = 216"
    using that by (simp_all add: sha384_start_def sha512_start_def SHA384_Init_def SHA512_Init_def)
  then show ?thesis
    by (cases md) (auto simp: method_defs ctx_size_def md4_init_def md5_init_def sha1_init_def sha224_init_def sha256_init_def sha384_init_def
        sha512_init_def md5_sha1_init_def md4_struct.session_start md5_struct.session_start sha1_struct.session_start
        sha224_struct.session_start sha256_struct.session_start sha384_struct.session_start sha512_struct.session_start
        md5_sha1_struct.session_start)
qed

lemma method_update:
  assumes "md_rep md xs (md_bytes ctx)"
  shows "\<exists>b. em_update (deref_md md) ctx ys = set_md_bytes b ctx \<and> md_rep md (xs @ ys) b"
proof -
  have both: "md5_sha1_update ctx ys = set_md_bytes (store_md5_sha1 (both_update (load_md5_sha1 (md_bytes ctx)) ys)) ctx"
    by (simp add: md5_sha1_update_def both_update_def split_beta)
  show ?thesis using assms
  by (cases md) (auto simp: method_defs md4_update_def md5_update_def sha1_update_def sha224_update_def sha256_update_def sha384_update_def
      sha512_update_def both
      intro!: exI md4_struct.session_update md5_struct.session_update sha1_struct.session_update
      sha224_struct.session_update sha256_struct.session_update sha384_struct.session_update sha512_struct.session_update
      md5_sha1_struct.session_update)
qed

lemma method_final:
  assumes "md_rep md xs (md_bytes ctx)"
  shows "\<exists>b. em_final (deref_md md) ctx = (Some (md_hash md xs), set_md_bytes b ctx) \<and> length b = ctx_size md"
proof -
  have both: "md5_sha1_final ctx = (let (out, c) = both_final (load_md5_sha1 (md_bytes ctx)) in (out, set_md_bytes (store_md5_sha1 c) ctx))"
    by (simp add: md5_sha1_final_def both_final_def split_beta Let_def split: option.split)
  show ?thesis using assms
    by (cases md) (auto simp: method_defs ctx_size_def md4_final_def md5_final_def sha1_final_def sha224_final_def sha256_final_def sha384_final_def
        sha512_final_def both Let_def
        dest!: md4_struct.session_final md5_struct.session_final sha1_struct.session_final
        sha224_struct.session_final sha256_struct.session_final sha384_struct.session_final sha512_struct.session_final
        md5_sha1_struct.session_final)
qed

lemma length_fips_hash1: "length (fips_hash1 m) = 20"
proof -
  have "length (foldl (\<lambda>H b. sha1_compress H (be_words b)) (md_h SHA1_Init) (blocks 64 ys)) = 5" for ys
    using sha1_fold [of "md_h SHA1_Init" ys] by (simp add: SHA1_Init_def)
  then show ?thesis by (simp add: fips_hash1_def length_concat_words SHA1_Init_def)
qed

lemma length_rfc_hash: "length (rfc_hash (rfc_compress step calls) m) = 16"
proof -
  have "length (rfc_compress step calls H X) = 4" for H X by (simp add: rfc_compress_def split: prod.splits)
  then have "length (foldl (\<lambda>H b. rfc_compress step calls H (le_words b)) [0x67452301, 0xefcdab89, 0x98badcfe, 0x10325476] bs) = 4" for bs
    by (cases bs rule: rev_cases) simp_all
  then show ?thesis by (simp add: rfc_hash_def length_concat_le)
qed

lemma length_sha2_hash:
  "length (sha224_hash m) = 28" "length (sha256_hash m) = 32" "length (sha384_hash m) = 48" "length (sha512_hash m) = 64"
  by (simp_all add: sha224_hash_def sha256_hash_def sha384_hash_def sha512_hash_def length_fips_hash256 length_fips_hash512
      SHA224_Init_def SHA256_Init_def SHA384_Init_def SHA512_Init_def)

lemma EVP_MD_size_values:
  "EVP_MD_size EVP_md4 = 16" "EVP_MD_size EVP_md5 = 16" "EVP_MD_size EVP_sha1 = 20" "EVP_MD_size EVP_sha224 = 28"
  "EVP_MD_size EVP_sha256 = 32" "EVP_MD_size EVP_sha384 = 48" "EVP_MD_size EVP_sha512 = 64" "EVP_MD_size EVP_md5_sha1 = 36"
  by (simp_all add: EVP_MD_size_def method_defs MD4_DIGEST_LENGTH_def MD5_DIGEST_LENGTH_def SHA_DIGEST_LENGTH_def
      SHA224_DIGEST_LENGTH_def SHA256_DIGEST_LENGTH_def SHA384_DIGEST_LENGTH_def SHA512_DIGEST_LENGTH_def)

lemma EVP_MD_block_size_eq: "EVP_MD_block_size md = (if md = EVP_sha384 \<or> md = EVP_sha512 then 128 else 64)"
  by (cases md) (simp_all add: EVP_MD_block_size_def method_defs)

lemma length_md_hash: "length (md_hash md xs) = EVP_MD_size md"
  by (cases md) (simp_all add: EVP_MD_size_values length_sha2_hash length_fips_hash1 rfc1321_md5_def rfc1320_md4_def length_rfc_hash md5_sha1_hash_def)

lemma EVP_MD_size_bounds: "0 < EVP_MD_size md" "EVP_MD_size md \<le> 64" "EVP_MD_size md \<le> EVP_MD_block_size md" "EVP_MD_block_size md \<le> 128"
  by (cases md; simp add: EVP_MD_size_values EVP_MD_block_size_eq)+

section \<open>Contexts\<close>

text \<open>A context that owns the memory its method needs, and one whose memory holds the state after the input \<open>xs\<close>.\<close>

definition md_ctx_ok :: "'p evp_md_ctx \<Rightarrow> bool" where
  "md_ctx_ok ctx \<longleftrightarrow> (\<forall>md. ed_digest ctx = Some md \<longrightarrow> ed_md_data ctx \<noteq> None \<and> length (md_bytes ctx) = ctx_size md)"

definition md_state :: "evp_md \<Rightarrow> bytes \<Rightarrow> 'p evp_md_ctx \<Rightarrow> bool" where
  "md_state md xs ctx \<longleftrightarrow> ed_digest ctx = Some md \<and> ed_md_data ctx \<noteq> None \<and> md_rep md xs (md_bytes ctx)"

lemma md_ctx_ok_init [simp]: "md_ctx_ok EVP_MD_CTX_init"
  by (simp add: md_ctx_ok_def EVP_MD_CTX_init_def)

lemma md_state_ok: "md_state md xs ctx \<Longrightarrow> md_ctx_ok ctx"
  by (auto simp: md_state_def md_ctx_ok_def dest: md_rep_length)

lemma ctx_size_small: "0 < ctx_size md" "ctx_size md < 1000"
  by (cases md; simp add: ctx_size_def method_defs)+

lemma malloc_ctx:
  assumes "malloc_spec m" and "OPENSSL_malloc m (ctx_size md) = Some b"
  shows "length (blk_data b) = ctx_size md"
  using OPENSSL_malloc_Some [OF assms] ctx_size_small(2) [of md] by simp

lemma DigestInit_state:
  assumes "malloc_spec m" and "md_ctx_ok ctx" and "EVP_DigestInit_ex m ctx md = (Some u, ctx')"
  shows "md_state md [] ctx' \<and> ed_pctx ctx' = ed_pctx ctx \<and> ed_pctx_ops ctx' = ed_pctx_ops ctx"
proof -
  define c where "c = (if ed_digest ctx \<noteq> Some md then ctx\<lparr>ed_md_data := OPENSSL_malloc m (ctx_size md), ed_digest := Some md\<rparr> else ctx)"
  have c': "ctx' = em_init (deref_md md) c" and d: "ed_md_data c \<noteq> None"
    using assms(2,3) by (auto simp: EVP_DigestInit_ex_def c_def md_ctx_ok_def split: if_splits option.splits)
  have "length (md_bytes c) = ctx_size md"
    using malloc_ctx [OF assms(1)] assms(2) d by (auto simp: c_def md_bytes_def md_ctx_ok_def split: if_splits)
  then obtain b where "ctx' = set_md_bytes b c" "md_rep md [] b" using method_init [of c md] c' by auto
  then show ?thesis by (simp add: md_state_def) (simp add: c_def)
qed

lemma DigestInit_total:
  assumes "malloc_total m"
  shows "fst (EVP_DigestInit_ex m ctx md) = Some ()"
  using OPENSSL_malloc_total [OF assms, of "ctx_size md"] ctx_size_small(2) [of md]
  by (auto simp: EVP_DigestInit_ex_def split: option.split)

lemma DigestInit_fails: "EVP_DigestInit_ex m ctx md = (None, ctx') \<Longrightarrow> ctx' = ctx"
  by (simp add: EVP_DigestInit_ex_def split: if_splits option.splits)

lemma DigestUpdate_state:
  assumes "md_state md xs ctx"
  shows "md_state md (xs @ ys) (EVP_DigestUpdate ctx ys) \<and> ed_pctx (EVP_DigestUpdate ctx ys) = ed_pctx ctx \<and>
    ed_pctx_ops (EVP_DigestUpdate ctx ys) = ed_pctx_ops ctx"
  using method_update [of md xs ctx ys] assms by (auto simp: md_state_def EVP_DigestUpdate_def)

lemma DigestUpdates_state:
  "md_state md xs ctx \<Longrightarrow> md_state md (xs @ concat ys) (fold (\<lambda>y c. EVP_DigestUpdate c y) ys ctx)"
proof (induction ys arbitrary: xs ctx)
  case (Cons y ys)
  from Cons.IH [of "xs @ y" "EVP_DigestUpdate ctx y"] DigestUpdate_state [OF Cons.prems] show ?case by simp
qed simp

lemma DigestUpdates_pctx:
  "md_state md xs ctx \<Longrightarrow> ed_pctx (fold (\<lambda>y c. EVP_DigestUpdate c y) ys ctx) = ed_pctx ctx"
proof (induction ys arbitrary: xs ctx)
  case (Cons y ys)
  from Cons.IH [of "xs @ y" "EVP_DigestUpdate ctx y"] DigestUpdate_state [OF Cons.prems] show ?case by simp
qed simp

lemma DigestFinal_state:
  assumes "md_state md xs ctx"
  shows "EVP_DigestFinal_ex ctx = ((Some (md_hash md xs), EVP_MD_size md), set_md_bytes (replicate (ctx_size md) 0) ctx)"
  using method_final [of md xs ctx] assms
  by (auto simp: md_state_def EVP_DigestFinal_ex_def OPENSSL_cleanse_def mem_write_def Let_def)

lemma copy_state:
  assumes "malloc_spec m" and "md_ctx_ok out" and "md_state md xs inp" and "ed_pctx inp = None"
  shows "EVP_MD_CTX_copy_ex m out (Some inp) = (Some u, out') \<Longrightarrow> md_state md xs out' \<and> ed_pctx out' = None"
    and "EVP_MD_CTX_copy_ex m out (Some inp) = (None, out') \<Longrightarrow> out' = out \<and> \<not> malloc_total m \<and> ed_digest out \<noteq> Some md"
proof -
  let ?buf = "if ed_digest out \<noteq> Some md then OPENSSL_malloc m (ctx_size md) else ed_md_data out"
  have inp: "ed_digest inp = Some md" "md_rep md xs (md_bytes inp)" using assms(3) by (simp_all add: md_state_def)
  then have c: "EVP_MD_CTX_copy_ex m out (Some inp) = (case ?buf of None \<Rightarrow> (None, out)
      | Some tmp_buf \<Rightarrow> (Some (), \<lparr>ed_digest = Some md,
          ed_md_data = Some (tmp_buf\<lparr>blk_data := mem_write (blk_data tmp_buf) 0 (take (ctx_size md) (md_bytes inp))\<rparr>),
          ed_pctx = None, ed_pctx_ops = ed_pctx_ops inp\<rparr>))"
    using assms(4) by (simp add: EVP_MD_CTX_copy_ex_def EVP_MD_CTX_cleanup_def EVP_MD_CTX_init_def Let_def split: option.split)
  show "md_state md xs out' \<and> ed_pctx out' = None" if "EVP_MD_CTX_copy_ex m out (Some inp) = (Some u, out')"
  proof -
    from that obtain buf where buf: "?buf = Some buf" and out': "out' = \<lparr>ed_digest = Some md,
          ed_md_data = Some (buf\<lparr>blk_data := mem_write (blk_data buf) 0 (take (ctx_size md) (md_bytes inp))\<rparr>),
          ed_pctx = None, ed_pctx_ops = ed_pctx_ops inp\<rparr>"
      unfolding c by (auto split: option.splits)
    have "length (blk_data buf) = ctx_size md"
      using buf malloc_ctx [OF assms(1)] assms(2) by (auto simp: md_ctx_ok_def md_bytes_def split: if_splits)
    then have "mem_write (blk_data buf) 0 (take (ctx_size md) (md_bytes inp)) = md_bytes inp"
      using md_rep_length [OF inp(2)] by (simp add: mem_write_def)
    then show ?thesis using inp(2) by (simp add: out' md_state_def md_bytes_def)
  qed
  show "out' = out \<and> \<not> malloc_total m \<and> ed_digest out \<noteq> Some md" if "EVP_MD_CTX_copy_ex m out (Some inp) = (None, out')"
  proof -
    from that have n: "?buf = None" "out' = out" unfolding c by (auto split: option.splits)
    moreover from n have "ed_digest out \<noteq> Some md" using assms(2) by (auto simp: md_ctx_ok_def)
    ultimately show ?thesis using OPENSSL_malloc_total [of m "ctx_size md"] ctx_size_small(2) [of md] by auto
  qed
qed

section \<open>Properties\<close>

text \<open>C15.
  The interface computes the hash function it is asked for: in a fresh context or one used before with any method, the input in any pieces gives the
  digest of the standard, of the announced size, and the state in memory is cleared; so does the one-shot function.
\<close>

theorem digest_is_hash:
  assumes "malloc_spec m" and "malloc_total m" and "md_ctx_ok ctx"
  shows "fst (EVP_DigestInit_ex m ctx md) = Some () \<and>
    EVP_DigestFinal_ex (fold (\<lambda>x c. EVP_DigestUpdate c x) xs (snd (EVP_DigestInit_ex m ctx md))) =
      ((Some (md_hash md (concat xs)), EVP_MD_size md),
       set_md_bytes (replicate (ctx_size md) 0) (fold (\<lambda>x c. EVP_DigestUpdate c x) xs (snd (EVP_DigestInit_ex m ctx md)))) \<and>
    length (md_hash md (concat xs)) = EVP_MD_size md \<and>
    EVP_Digest m (concat xs) md = Some (Some (md_hash md (concat xs)), EVP_MD_size md)"
proof -
  obtain c where c: "EVP_DigestInit_ex m ctx md = (Some (), c)" using DigestInit_total [OF assms(2), of ctx md] by (metis prod.collapse)
  have st: "md_state md [] c" using DigestInit_state [OF assms(1,3) c] by simp
  obtain d :: "unit evp_md_ctx" where d: "EVP_DigestInit_ex m EVP_MD_CTX_init md = (Some (), d)"
    using DigestInit_total [OF assms(2), of EVP_MD_CTX_init md] by (metis prod.collapse)
  have "md_state md (concat xs) (EVP_DigestUpdate d (concat xs))"
    using DigestUpdate_state [of md "[]" d "concat xs"] DigestInit_state [OF assms(1) _ d] by simp
  from DigestFinal_state [OF this] have "EVP_Digest m (concat xs) md = Some (Some (md_hash md (concat xs)), EVP_MD_size md)"
    by (auto simp: EVP_Digest_def d)
  then show ?thesis using DigestFinal_state [OF DigestUpdates_state [OF st, of xs]] c by (simp add: length_md_hash)
qed

lemma digest_is_hash_witness:
  "EVP_Digest zero_malloc [97, 98, 99] EVP_sha384 = Some (Some (sha384_hash [97, 98, 99]), 48)"
  using digest_is_hash [OF malloc_zero_malloc md_ctx_ok_init [where ?'a = unit], of EVP_sha384 "[[97], [98, 99]]"] by (simp add: EVP_MD_size_values)

text \<open>A copy of a context has absorbed what the original has: going on with it gives the digest of the common beginning followed by its own input.
\<close>

theorem digest_copy_forks:
  assumes "malloc_spec m" and "malloc_total m" and "md_ctx_ok ctx" and "md_ctx_ok out" and "ed_pctx ctx = None"
  shows "case EVP_MD_CTX_copy_ex m out (Some (fold (\<lambda>x c. EVP_DigestUpdate c x) xs (snd (EVP_DigestInit_ex m ctx md)))) of
    (r, copy) \<Rightarrow> r = Some () \<and>
      fst (EVP_DigestFinal_ex (fold (\<lambda>x c. EVP_DigestUpdate c x) ys copy)) = (Some (md_hash md (concat xs @ concat ys)), EVP_MD_size md)"
proof -
  obtain c where c: "EVP_DigestInit_ex m ctx md = (Some (), c)" using DigestInit_total [OF assms(2), of ctx md] by (metis prod.collapse)
  have st: "md_state md [] c" "ed_pctx c = None" using DigestInit_state [OF assms(1,3) c] assms(5) by simp_all
  let ?a = "fold (\<lambda>x c. EVP_DigestUpdate c x) xs c"
  have a: "md_state md (concat xs) ?a" "ed_pctx ?a = None"
    using DigestUpdates_state [OF st(1), of xs] DigestUpdates_pctx [OF st(1), of xs] st(2) by simp_all
  obtain r b where b: "EVP_MD_CTX_copy_ex m out (Some ?a) = (r, b)" by (cases "EVP_MD_CTX_copy_ex m out (Some ?a)")
  with copy_state(2) [OF assms(1,4) a, of b] assms(2) have r: "r = Some ()" by (cases r) simp_all
  have "md_state md (concat xs) b" using copy_state(1) [OF assms(1,4) a, of "()" b] b r by simp
  from DigestFinal_state [OF DigestUpdates_state [OF this, of ys]] show ?thesis
    using b r by (simp add: c)
qed

lemma digest_copy_forks_witness:
  "fst (EVP_DigestFinal_ex (EVP_DigestUpdate (snd (EVP_MD_CTX_copy_ex zero_malloc EVP_MD_CTX_init
     (Some (EVP_DigestUpdate (snd (EVP_DigestInit_ex zero_malloc (EVP_MD_CTX_init :: unit evp_md_ctx) EVP_sha1)) [1])))) [2])) =
   (Some (fips_hash1 [1, 2]), 20)"
  using digest_copy_forks [OF malloc_zero_malloc md_ctx_ok_init [where ?'a = unit] md_ctx_ok_init, where xs = "[[1]]" and md = EVP_sha1 and ys = "[[2]]"]
  by (simp add: EVP_MD_CTX_init_def EVP_MD_size_values split_beta)

end
