(* ===== verification/Hmac.thy ===== *)
theory Hmac
  imports Digest
begin

text \<open>
  \<^verbatim>\<open>fipsmodule/hmac/hmac.c\<close> and \<^verbatim>\<open>hkdf/hkdf.c\<close>.  A context of HMAC keeps three digest contexts: the inner and the outer hash function after their padded
  key, and the one at work, which is copied from them.
\<close>

section \<open>hmac.c\<close>

record 'p hmac_ctx =
  hm_md :: "evp_md option"
  hm_md_ctx :: "'p evp_md_ctx"
  hm_i_ctx :: "'p evp_md_ctx"
  hm_o_ctx :: "'p evp_md_ctx"

definition EVP_MAX_MD_BLOCK_SIZE :: nat where "EVP_MAX_MD_BLOCK_SIZE = 128"

definition HMAC_CTX_init :: "'p hmac_ctx" where
  "HMAC_CTX_init = \<lparr>hm_md = None, hm_md_ctx = EVP_MD_CTX_init, hm_i_ctx = EVP_MD_CTX_init, hm_o_ctx = EVP_MD_CTX_init\<rparr>"

definition HMAC_CTX_new :: "malloc \<Rightarrow> 'p hmac_ctx option" where
  "HMAC_CTX_new m = (case OPENSSL_malloc m 104 of None \<Rightarrow> None | Some _ \<Rightarrow> Some HMAC_CTX_init)"

text \<open>Clearing the structure leaves null pointers.\<close>

definition HMAC_CTX_cleanup :: "'p hmac_ctx \<Rightarrow> 'p hmac_ctx" where
  "HMAC_CTX_cleanup ctx =
     (let ctx = ctx\<lparr>hm_i_ctx := snd (EVP_MD_CTX_cleanup (hm_i_ctx ctx))\<rparr>;
          ctx = ctx\<lparr>hm_o_ctx := snd (EVP_MD_CTX_cleanup (hm_o_ctx ctx))\<rparr>;
          ctx = ctx\<lparr>hm_md_ctx := snd (EVP_MD_CTX_cleanup (hm_md_ctx ctx))\<rparr>
      in \<lparr>hm_md = None, hm_md_ctx = EVP_MD_CTX_init, hm_i_ctx = EVP_MD_CTX_init, hm_o_ctx = EVP_MD_CTX_init\<rparr>)"

text \<open>The first part of setting a key: long keys are hashed in \<open>hm_md_ctx\<close>, and the key is padded with zeros.\<close>

definition hmac_key_block :: "malloc \<Rightarrow> 'p hmac_ctx \<Rightarrow> evp_md \<Rightarrow> bytes \<Rightarrow> bytes option \<times> 'p hmac_ctx" where
  "hmac_key_block m ctx md key =
     chain
       (if EVP_MD_block_size md < length key then
          (case EVP_DigestInit_ex m (hm_md_ctx ctx) md of
             (None, c) \<Rightarrow> (None, ctx\<lparr>hm_md_ctx := c\<rparr>)
           | (Some _, c) \<Rightarrow>
               (let c = EVP_DigestUpdate c key;
                    ((out, key_block_len), c) = EVP_DigestFinal_ex c
                in (Some (the out, key_block_len), ctx\<lparr>hm_md_ctx := c\<rparr>)))
        else (Some (key, length key), ctx))
       (\<lambda>(key_block, key_block_len) ctx.
          (Some (if key_block_len \<noteq> EVP_MAX_MD_BLOCK_SIZE
                 then take key_block_len key_block @ replicate (EVP_MAX_MD_BLOCK_SIZE - key_block_len) 0
                 else key_block), ctx))"

text \<open>A digest context is started with the padded key, exclusive-or a constant.\<close>

definition hmac_pad_ctx :: "malloc \<Rightarrow> 'p evp_md_ctx \<Rightarrow> evp_md \<Rightarrow> u8 \<Rightarrow> bytes \<Rightarrow> unit option \<times> 'p evp_md_ctx" where
  "hmac_pad_ctx m c md x key_block =
     (let pad = map (\<lambda>k. x XOR k) key_block
      in chain (EVP_DigestInit_ex m c md) (\<lambda>_ c. (Some (), EVP_DigestUpdate c (take (EVP_MD_block_size md) pad))))"

definition hmac_set_key :: "malloc \<Rightarrow> 'p hmac_ctx \<Rightarrow> evp_md \<Rightarrow> bytes \<Rightarrow> unit option \<times> 'p hmac_ctx" where
  "hmac_set_key m ctx md key =
     chain (hmac_key_block m ctx md key) (\<lambda>key_block ctx.
       (case hmac_pad_ctx m (hm_i_ctx ctx) md 0x36 key_block of
          (None, c) \<Rightarrow> (None, ctx\<lparr>hm_i_ctx := c\<rparr>)
        | (Some _, c) \<Rightarrow>
            (let ctx = ctx\<lparr>hm_i_ctx := c\<rparr>
             in case hmac_pad_ctx m (hm_o_ctx ctx) md 0x5c key_block of
                  (None, c) \<Rightarrow> (None, ctx\<lparr>hm_o_ctx := c\<rparr>)
                | (Some _, c) \<Rightarrow> (Some (), ctx\<lparr>hm_o_ctx := c, hm_md := Some md\<rparr>))))"

text \<open>The key is \<open>None\<close> for a null pointer (of which the code copies no bytes), and so is the method.\<close>

definition HMAC_Init_ex :: "malloc \<Rightarrow> 'p hmac_ctx \<Rightarrow> bytes option \<Rightarrow> evp_md option \<Rightarrow> unit option \<times> 'p hmac_ctx" where
  "HMAC_Init_ex m ctx key md =
     (let md = (case md of None \<Rightarrow> hm_md ctx | Some _ \<Rightarrow> md)
      in chain
        (if md \<noteq> hm_md ctx \<or> key \<noteq> None then hmac_set_key m ctx (the md) (case key of None \<Rightarrow> [] | Some key \<Rightarrow> key)
         else (Some (), ctx))
        (\<lambda>_ ctx. (case EVP_MD_CTX_copy_ex m (hm_md_ctx ctx) (Some (hm_i_ctx ctx)) of (r, c) \<Rightarrow> (r, ctx\<lparr>hm_md_ctx := c\<rparr>))))"

definition HMAC_Update :: "'p hmac_ctx \<Rightarrow> bytes \<Rightarrow> 'p hmac_ctx" where
  "HMAC_Update ctx data = ctx\<lparr>hm_md_ctx := EVP_DigestUpdate (hm_md_ctx ctx) data\<rparr>"

definition HMAC_Final :: "malloc \<Rightarrow> 'p hmac_ctx \<Rightarrow> (bytes option \<times> nat) option \<times> 'p hmac_ctx" where
  "HMAC_Final m ctx =
     (let ((buf, i), c) = EVP_DigestFinal_ex (hm_md_ctx ctx)
      in case EVP_MD_CTX_copy_ex m c (Some (hm_o_ctx ctx)) of
           (None, c) \<Rightarrow> (None, ctx\<lparr>hm_md_ctx := c\<rparr>)
         | (Some _, c) \<Rightarrow>
             (let c = EVP_DigestUpdate c (take i (the buf));
                  (out, c) = EVP_DigestFinal_ex c
              in (Some out, ctx\<lparr>hm_md_ctx := c\<rparr>)))"

definition HMAC :: "malloc \<Rightarrow> evp_md \<Rightarrow> bytes option \<Rightarrow> bytes \<Rightarrow> (bytes option \<times> nat) option" where
  "HMAC m evp_md key data =
     (case HMAC_Init_ex m (HMAC_CTX_init :: unit hmac_ctx) key (Some evp_md) of
        (None, ctx) \<Rightarrow> None
      | (Some _, ctx) \<Rightarrow> fst (HMAC_Final m (HMAC_Update ctx data)))"

definition HMAC_size :: "'p hmac_ctx \<Rightarrow> nat" where
  "HMAC_size ctx = EVP_MD_size (the (hm_md ctx))"

definition HMAC_CTX_copy_ex :: "malloc \<Rightarrow> 'p hmac_ctx \<Rightarrow> 'p hmac_ctx \<Rightarrow> unit option \<times> 'p hmac_ctx" where
  "HMAC_CTX_copy_ex m dest src =
     (case EVP_MD_CTX_copy_ex m (hm_i_ctx dest) (Some (hm_i_ctx src)) of
        (None, c) \<Rightarrow> (None, dest\<lparr>hm_i_ctx := c\<rparr>)
      | (Some _, c) \<Rightarrow>
          (let dest = dest\<lparr>hm_i_ctx := c\<rparr>
           in case EVP_MD_CTX_copy_ex m (hm_o_ctx dest) (Some (hm_o_ctx src)) of
                (None, c) \<Rightarrow> (None, dest\<lparr>hm_o_ctx := c\<rparr>)
              | (Some _, c) \<Rightarrow>
                  (let dest = dest\<lparr>hm_o_ctx := c\<rparr>
                   in case EVP_MD_CTX_copy_ex m (hm_md_ctx dest) (Some (hm_md_ctx src)) of
                        (None, c) \<Rightarrow> (None, dest\<lparr>hm_md_ctx := c\<rparr>)
                      | (Some _, c) \<Rightarrow> (Some (), dest\<lparr>hm_md_ctx := c, hm_md := hm_md src\<rparr>))))"

definition HMAC_CTX_reset :: "'p hmac_ctx \<Rightarrow> 'p hmac_ctx" where
  "HMAC_CTX_reset ctx = (let ctx = HMAC_CTX_cleanup ctx in HMAC_CTX_init)"

definition HMAC_Init :: "malloc \<Rightarrow> 'p hmac_ctx \<Rightarrow> bytes option \<Rightarrow> evp_md option \<Rightarrow> unit option \<times> 'p hmac_ctx" where
  "HMAC_Init m ctx key md =
     (let ctx = (if key \<noteq> None \<and> md \<noteq> None then HMAC_CTX_init else ctx)
      in HMAC_Init_ex m ctx key md)"

definition HMAC_CTX_copy :: "malloc \<Rightarrow> 'p hmac_ctx \<Rightarrow> unit option \<times> 'p hmac_ctx" where
  "HMAC_CTX_copy m src = HMAC_CTX_copy_ex m HMAC_CTX_init src"

section \<open>hkdf.c\<close>

text \<open>One round of the loop, with the output so far; \<open>previous\<close> is the last block.\<close>

definition hkdf_round :: "malloc \<Rightarrow> nat \<Rightarrow> bytes \<Rightarrow> nat \<Rightarrow> nat \<Rightarrow> unit hmac_ctx \<Rightarrow> bytes \<Rightarrow> bytes \<Rightarrow> ((bytes \<times> bytes) \<times> unit hmac_ctx) option" where
  "hkdf_round m out_len info digest_len i hmac previous out_key =
     (let ctr = of_nat (i + 1) :: u8
      in case (if i \<noteq> 0 then
                 (case HMAC_Init_ex m hmac None None of
                    (None, hmac) \<Rightarrow> None
                  | (Some _, hmac) \<Rightarrow> Some (HMAC_Update hmac (take digest_len previous)))
               else Some hmac) of
           None \<Rightarrow> None
         | Some hmac \<Rightarrow>
             (let hmac = HMAC_Update hmac info;
                  hmac = HMAC_Update hmac [ctr]
              in case HMAC_Final m hmac of
                   (None, hmac) \<Rightarrow> None
                 | (Some (previous, _), hmac) \<Rightarrow>
                     (let todo = digest_len;
                          todo = (if length out_key + todo > out_len then out_len - length out_key else todo)
                      in Some ((the previous, out_key @ take todo (the previous)), hmac))))"

primrec hkdf_loop :: "malloc \<Rightarrow> nat \<Rightarrow> bytes \<Rightarrow> nat \<Rightarrow> nat list \<Rightarrow> unit hmac_ctx \<Rightarrow> bytes \<Rightarrow> bytes \<Rightarrow> bytes option" where
  "hkdf_loop m out_len info digest_len [] hmac previous out_key = Some out_key"
| "hkdf_loop m out_len info digest_len (i # is) hmac previous out_key =
     (case hkdf_round m out_len info digest_len i hmac previous out_key of
        None \<Rightarrow> None
      | Some ((previous, out_key), hmac) \<Rightarrow> hkdf_loop m out_len info digest_len is hmac previous out_key)"

definition HKDF_extract :: "malloc \<Rightarrow> evp_md \<Rightarrow> bytes \<Rightarrow> bytes option \<Rightarrow> (bytes option \<times> nat) option" where
  "HKDF_extract m digest secret salt = HMAC m digest salt secret"

definition HKDF_expand :: "malloc \<Rightarrow> nat \<Rightarrow> evp_md \<Rightarrow> bytes \<Rightarrow> bytes \<Rightarrow> bytes option" where
  "HKDF_expand m out_len digest prk info =
     (let digest_len = EVP_MD_size digest;
          n = (size_add out_len digest_len + 2 ^ 64 - 1) mod 2 ^ 64 div digest_len
      in if size_add out_len digest_len < out_len \<or> n > 255 then None
         else
           (case HMAC_Init_ex m (HMAC_CTX_init :: unit hmac_ctx) (Some prk) (Some digest) of
              (None, hmac) \<Rightarrow> None
            | (Some _, hmac) \<Rightarrow> hkdf_loop m out_len info digest_len [0..<n] hmac [] []))"

definition HKDF :: "malloc \<Rightarrow> nat \<Rightarrow> evp_md \<Rightarrow> bytes \<Rightarrow> bytes option \<Rightarrow> bytes \<Rightarrow> bytes option" where
  "HKDF m out_len digest secret salt info =
     (case HKDF_extract m digest secret salt of
        None \<Rightarrow> None
      | Some (prk, prk_len) \<Rightarrow> HKDF_expand m out_len digest (take prk_len (the prk)) info)"

section \<open>FIPS 198-1\<close>

definition fips198_key :: "evp_md \<Rightarrow> bytes \<Rightarrow> bytes" where
  "fips198_key md key =
     (let k = if EVP_MD_block_size md < length key then md_hash md key else key
      in k @ replicate (EVP_MD_block_size md - length k) 0)"

definition fips198_pad :: "evp_md \<Rightarrow> u8 \<Rightarrow> bytes \<Rightarrow> bytes" where
  "fips198_pad md x key = map (\<lambda>k. x XOR k) (fips198_key md key)"

definition fips198_hmac :: "evp_md \<Rightarrow> bytes \<Rightarrow> bytes \<Rightarrow> bytes" where
  "fips198_hmac md key text = md_hash md (fips198_pad md 0x5c key @ md_hash md (fips198_pad md 0x36 key @ text))"

lemma length_fips198_hmac: "length (fips198_hmac md key text) = EVP_MD_size md"
  by (simp add: fips198_hmac_def length_md_hash)

section \<open>Contexts\<close>

text \<open>The digest contexts own their memory and have no further context attached.\<close>

definition plain_ctx :: "'p evp_md_ctx \<Rightarrow> bool" where
  "plain_ctx c \<longleftrightarrow> md_ctx_ok c \<and> ed_pctx c = None"

definition holds :: "evp_md \<Rightarrow> bytes \<Rightarrow> 'p evp_md_ctx \<Rightarrow> bool" where
  "holds md xs c \<longleftrightarrow> md_state md xs c \<and> ed_pctx c = None"

definition hmac_ok :: "'p hmac_ctx \<Rightarrow> bool" where
  "hmac_ok ctx \<longleftrightarrow> plain_ctx (hm_md_ctx ctx) \<and> plain_ctx (hm_i_ctx ctx) \<and> plain_ctx (hm_o_ctx ctx)"

text \<open>A key has been set.\<close>

definition hmac_keyed :: "evp_md \<Rightarrow> bytes \<Rightarrow> 'p hmac_ctx \<Rightarrow> bool" where
  "hmac_keyed md key ctx \<longleftrightarrow> hm_md ctx = Some md \<and> plain_ctx (hm_md_ctx ctx) \<and>
     holds md (fips198_pad md 0x36 key) (hm_i_ctx ctx) \<and> holds md (fips198_pad md 0x5c key) (hm_o_ctx ctx)"

definition hmac_state :: "evp_md \<Rightarrow> bytes \<Rightarrow> bytes \<Rightarrow> 'p hmac_ctx \<Rightarrow> bool" where
  "hmac_state md key text ctx \<longleftrightarrow> hmac_keyed md key ctx \<and> holds md (fips198_pad md 0x36 key @ text) (hm_md_ctx ctx)"

lemma holds_plain: "holds md xs c \<Longrightarrow> plain_ctx c"
  by (auto simp: holds_def plain_ctx_def dest: md_state_ok)

lemma plain_init [simp]: "plain_ctx EVP_MD_CTX_init"
  by (simp add: plain_ctx_def EVP_MD_CTX_init_def md_ctx_ok_def)

lemma hmac_ok_init [simp]: "hmac_ok HMAC_CTX_init"
  by (simp add: hmac_ok_def HMAC_CTX_init_def)

lemma hmac_keyed_ok: "hmac_keyed md key ctx \<Longrightarrow> hmac_ok ctx"
  by (auto simp: hmac_keyed_def hmac_ok_def intro: holds_plain)

lemma holds_init:
  assumes "malloc_spec m" and "malloc_total m" and "plain_ctx c"
  obtains c' where "EVP_DigestInit_ex m c md = (Some (), c')" and "holds md [] c'"
proof -
  obtain c' where c': "EVP_DigestInit_ex m c md = (Some (), c')" using DigestInit_total [OF assms(2), of c md] by (metis prod.collapse)
  from that [OF this] DigestInit_state [OF assms(1) _ c'] assms(3) show ?thesis by (simp add: plain_ctx_def holds_def)
qed

lemma holds_update: "holds md xs c \<Longrightarrow> holds md (xs @ ys) (EVP_DigestUpdate c ys)"
  using DigestUpdate_state [of md xs c ys] by (simp add: holds_def)

lemma holds_final:
  assumes "holds md xs c"
  shows "\<exists>c'. EVP_DigestFinal_ex c = ((Some (md_hash md xs), EVP_MD_size md), c') \<and> plain_ctx c'"
  using DigestFinal_state [of md xs c] assms by (auto simp: holds_def plain_ctx_def md_ctx_ok_def md_state_def)

lemma holds_copy:
  assumes "malloc_spec m" and "malloc_total m" and "plain_ctx out" and "holds md xs c"
  obtains c' where "EVP_MD_CTX_copy_ex m out (Some c) = (Some (), c')" and "holds md xs c'"
proof -
  obtain r c' where c': "EVP_MD_CTX_copy_ex m out (Some c) = (r, c')" by (cases "EVP_MD_CTX_copy_ex m out (Some c)")
  have p: "md_ctx_ok out" "md_state md xs c" "ed_pctx c = None" using assms(3,4) by (simp_all add: plain_ctx_def holds_def)
  have "r = Some ()" using copy_state(2) [OF assms(1) p, of c'] assms(2) c' by (cases r) simp_all
  with that [of c'] c' copy_state(1) [OF assms(1) p, of "()" c'] show ?thesis by (simp add: holds_def)
qed

section \<open>Keys and messages\<close>

lemma key_block:
  assumes "malloc_spec m" and "malloc_total m" and "hmac_ok ctx"
  obtains b ctx' where "hmac_key_block m ctx md key = (Some b, ctx')" and "hmac_ok ctx'"
    and "\<And>x. take (EVP_MD_block_size md) (map (\<lambda>k. x XOR k) b) = fips198_pad md x key"
proof -
  define k where "k = (if EVP_MD_block_size md < length key then md_hash md key else key)"
  have k: "length k \<le> EVP_MD_block_size md" "length k \<le> 128"
    using EVP_MD_size_bounds [of md] by (auto simp: k_def length_md_hash)
  define b where "b = k @ replicate (128 - length k) 0"
  have "take (EVP_MD_block_size md) b = fips198_key md key"
    using k EVP_MD_size_bounds(4) [of md] by (simp add: b_def fips198_key_def k_def [symmetric] Let_def min_def)
  then have pad: "take (EVP_MD_block_size md) (map (\<lambda>k. x XOR k) b) = fips198_pad md x key" for x
    by (simp add: fips198_pad_def take_map)
  show ?thesis
  proof (cases "EVP_MD_block_size md < length key")
    case True
    obtain c where c: "EVP_DigestInit_ex m (hm_md_ctx ctx) md = (Some (), c)" "holds md [] c"
      using holds_init [OF assms(1,2)] assms(3) unfolding hmac_ok_def by blast
    obtain d where d: "EVP_DigestFinal_ex (EVP_DigestUpdate c key) = ((Some k, length k), d)" "plain_ctx d"
      using holds_final [OF holds_update [OF c(2), of key]] True by (auto simp: k_def length_md_hash)
    have "hmac_key_block m ctx md key = (Some b, ctx\<lparr>hm_md_ctx := d\<rparr>)"
      using True c(1) d(1) k(2) by (simp add: hmac_key_block_def b_def EVP_MAX_MD_BLOCK_SIZE_def)
    then show ?thesis using that pad d(2) assms(3) by (simp add: hmac_ok_def)
  next
    case False
    then have "hmac_key_block m ctx md key = (Some b, ctx)"
      using k(2) by (simp add: hmac_key_block_def b_def EVP_MAX_MD_BLOCK_SIZE_def k_def)
    then show ?thesis using that pad assms(3) by simp
  qed
qed

lemma pad_ctx:
  assumes "malloc_spec m" and "malloc_total m" and "plain_ctx c"
    and "\<And>x. take (EVP_MD_block_size md) (map (\<lambda>k. x XOR k) b) = fips198_pad md x key"
  obtains c' where "hmac_pad_ctx m c md x b = (Some (), c')" and "holds md (fips198_pad md x key) c'"
proof -
  obtain c1 where c1: "EVP_DigestInit_ex m c md = (Some (), c1)" "holds md [] c1" using holds_init [OF assms(1-3)] by blast
  from that [of "EVP_DigestUpdate c1 (fips198_pad md x key)"] c1(1) holds_update [OF c1(2), of "fips198_pad md x key"]
  show ?thesis by (simp add: hmac_pad_ctx_def assms(4))
qed

lemma set_key:
  assumes "malloc_spec m" and "malloc_total m" and "hmac_ok ctx"
  obtains ctx' where "hmac_set_key m ctx md key = (Some (), ctx')" and "hmac_keyed md key ctx'"
proof -
  obtain b c where b: "hmac_key_block m ctx md key = (Some b, c)" "hmac_ok c"
    and pad: "\<And>x. take (EVP_MD_block_size md) (map (\<lambda>k. x XOR k) b) = fips198_pad md x key"
    using key_block [OF assms] by metis
  have p: "plain_ctx (hm_i_ctx c)" "plain_ctx (hm_o_ctx c)" "plain_ctx (hm_md_ctx c)" using b(2) by (simp_all add: hmac_ok_def)
  obtain i where i: "hmac_pad_ctx m (hm_i_ctx c) md 0x36 b = (Some (), i)" "holds md (fips198_pad md 0x36 key) i"
    using pad_ctx [OF assms(1,2) p(1) pad] by blast
  obtain d where d: "hmac_pad_ctx m (hm_o_ctx c) md 0x5c b = (Some (), d)" "holds md (fips198_pad md 0x5c key) d"
    using pad_ctx [OF assms(1,2) p(2) pad] by blast
  from that [of "c\<lparr>hm_i_ctx := i, hm_o_ctx := d, hm_md := Some md\<rparr>"] b i d p(3) show ?thesis
    by (simp add: hmac_set_key_def hmac_keyed_def)
qed

lemma rewind:
  assumes "malloc_spec m" and "malloc_total m" and "hmac_keyed md key ctx"
  obtains c where "EVP_MD_CTX_copy_ex m (hm_md_ctx ctx) (Some (hm_i_ctx ctx)) = (Some (), c)" and "hmac_state md key [] (ctx\<lparr>hm_md_ctx := c\<rparr>)"
proof -
  obtain c where "EVP_MD_CTX_copy_ex m (hm_md_ctx ctx) (Some (hm_i_ctx ctx)) = (Some (), c)" "holds md (fips198_pad md 0x36 key) c"
    using holds_copy [OF assms(1,2)] assms(3) unfolding hmac_keyed_def by blast
  with that [of c] assms(3) show ?thesis by (simp add: hmac_state_def hmac_keyed_def holds_plain)
qed

lemma init_key:
  assumes "malloc_spec m" and "malloc_total m" and "hmac_ok ctx"
  obtains ctx' where "HMAC_Init_ex m ctx (Some key) (Some md) = (Some (), ctx')" and "hmac_state md key [] ctx'"
proof -
  obtain c where c: "hmac_set_key m ctx md key = (Some (), c)" "hmac_keyed md key c" using set_key [OF assms] by blast
  obtain d where "EVP_MD_CTX_copy_ex m (hm_md_ctx c) (Some (hm_i_ctx c)) = (Some (), d)" "hmac_state md key [] (c\<lparr>hm_md_ctx := d\<rparr>)"
    using rewind [OF assms(1,2) c(2)] by blast
  from that [OF _ this(2)] this(1) c(1) show ?thesis by (simp add: HMAC_Init_ex_def)
qed

text \<open>A null pointer for the key is the empty key in a context with no method, and keeps the key otherwise.\<close>

lemma init_null_key:
  assumes "malloc_spec m" and "malloc_total m"
  obtains ctx' :: "'p hmac_ctx" where "HMAC_Init_ex m HMAC_CTX_init None (Some md) = (Some (), ctx')" and "hmac_state md [] [] ctx'"
proof -
  obtain c :: "'p hmac_ctx" where c: "hmac_set_key m HMAC_CTX_init md [] = (Some (), c)" "hmac_keyed md [] c" using set_key [OF assms hmac_ok_init] by blast
  obtain d where "EVP_MD_CTX_copy_ex m (hm_md_ctx c) (Some (hm_i_ctx c)) = (Some (), d)" "hmac_state md [] [] (c\<lparr>hm_md_ctx := d\<rparr>)"
    using rewind [OF assms c(2)] by blast
  from that [OF _ this(2)] this(1) c(1) show ?thesis by (simp add: HMAC_Init_ex_def HMAC_CTX_init_def)
qed

lemma init_again:
  assumes "malloc_spec m" and "malloc_total m" and "hmac_keyed md key ctx" and "md' = None \<or> md' = Some md"
  obtains ctx' where "HMAC_Init_ex m ctx None md' = (Some (), ctx')" and "hmac_state md key [] ctx'"
proof -
  obtain d where "EVP_MD_CTX_copy_ex m (hm_md_ctx ctx) (Some (hm_i_ctx ctx)) = (Some (), d)" "hmac_state md key [] (ctx\<lparr>hm_md_ctx := d\<rparr>)"
    using rewind [OF assms(1-3)] by blast
  moreover have "hm_md ctx = Some md" using assms(3) by (simp add: hmac_keyed_def)
  ultimately show ?thesis using that assms(4) by (auto simp: HMAC_Init_ex_def)
qed

lemma hmac_update:
  "hmac_state md key xs ctx \<Longrightarrow> hmac_state md key (xs @ ys) (HMAC_Update ctx ys)"
  using holds_update [of md "fips198_pad md 0x36 key @ xs" "hm_md_ctx ctx" ys]
  by (simp add: hmac_state_def hmac_keyed_def HMAC_Update_def holds_plain)

lemma hmac_updates: "hmac_state md key xs ctx \<Longrightarrow> hmac_state md key (xs @ concat ys) (fold (\<lambda>y c. HMAC_Update c y) ys ctx)"
proof (induction ys arbitrary: xs ctx)
  case (Cons y ys)
  from Cons.IH [OF hmac_update [OF Cons.prems]] show ?case by simp
qed simp

lemma hmac_final:
  assumes "malloc_spec m" and "malloc_total m" and "hmac_state md key text ctx"
  obtains ctx' where "HMAC_Final m ctx = (Some (Some (fips198_hmac md key text), EVP_MD_size md), ctx')" and "hmac_keyed md key ctx'"
proof -
  have i: "holds md (fips198_pad md 0x36 key @ text) (hm_md_ctx ctx)" and d: "holds md (fips198_pad md 0x5c key) (hm_o_ctx ctx)"
    using assms(3) by (simp_all add: hmac_state_def hmac_keyed_def)
  obtain c where c: "EVP_DigestFinal_ex (hm_md_ctx ctx) = ((Some (md_hash md (fips198_pad md 0x36 key @ text)), EVP_MD_size md), c)" "plain_ctx c"
    using holds_final [OF i] by blast
  obtain e where e: "EVP_MD_CTX_copy_ex m c (Some (hm_o_ctx ctx)) = (Some (), e)" "holds md (fips198_pad md 0x5c key) e"
    using holds_copy [OF assms(1,2) c(2) d] by blast
  obtain g where g: "EVP_DigestFinal_ex (EVP_DigestUpdate e (md_hash md (fips198_pad md 0x36 key @ text))) =
      ((Some (fips198_hmac md key text), EVP_MD_size md), g)" "plain_ctx g"
    using holds_final [OF holds_update [OF e(2)]] unfolding fips198_hmac_def by blast
  from that [of "ctx\<lparr>hm_md_ctx := g\<rparr>"] c e g assms(3) show ?thesis
    by (simp add: HMAC_Final_def hmac_state_def hmac_keyed_def length_md_hash)
qed

lemma HMAC_eq:
  assumes "malloc_spec m" and "malloc_total m"
  shows "HMAC m md key data = Some (Some (fips198_hmac md (case key of None \<Rightarrow> [] | Some k \<Rightarrow> k) data), EVP_MD_size md)"
proof -
  let ?key = "case key of None \<Rightarrow> [] | Some k \<Rightarrow> k"
  have "\<exists>c :: unit hmac_ctx. HMAC_Init_ex m HMAC_CTX_init key (Some md) = (Some (), c) \<and> hmac_state md ?key [] c"
  proof (cases key)
    case None
    then show ?thesis using init_null_key [OF assms, of md] by (metis option.case(1))
  next
    case (Some k)
    then show ?thesis using init_key [OF assms hmac_ok_init, of k md] by (metis option.case(2))
  qed
  then obtain c :: "unit hmac_ctx" where c: "HMAC_Init_ex m HMAC_CTX_init key (Some md) = (Some (), c)" "hmac_state md ?key [] c" by blast
  have "hmac_state md ?key data (HMAC_Update c data)" using hmac_update [OF c(2), of data] by simp
  then obtain d where "HMAC_Final m (HMAC_Update c data) = (Some (Some (fips198_hmac md ?key data), EVP_MD_size md), d)"
    using hmac_final [OF assms] by blast
  then show ?thesis using c(1) by (simp add: HMAC_def)
qed

text \<open>Many messages under one key: each is given in pieces, and the key is not given again.\<close>

primrec hmac_messages :: "malloc \<Rightarrow> 'p hmac_ctx \<Rightarrow> bytes list list \<Rightarrow> (bytes option \<times> nat) list option" where
  "hmac_messages m ctx [] = Some []"
| "hmac_messages m ctx (ys # yss) =
     (case HMAC_Init_ex m ctx None None of
        (None, ctx) \<Rightarrow> None
      | (Some _, ctx) \<Rightarrow>
          (case HMAC_Final m (fold (\<lambda>y c. HMAC_Update c y) ys ctx) of
             (None, ctx) \<Rightarrow> None
           | (Some mac, ctx) \<Rightarrow> map_option (\<lambda>macs. mac # macs) (hmac_messages m ctx yss)))"

lemma hmac_messages_keyed:
  assumes "malloc_spec m" and "malloc_total m" and "hmac_keyed md key ctx"
  shows "hmac_messages m ctx yss = Some (map (\<lambda>ys. (Some (fips198_hmac md key (concat ys)), EVP_MD_size md)) yss)"
  using assms(3)
proof (induction yss arbitrary: ctx)
  case (Cons ys yss)
  obtain c where c: "HMAC_Init_ex m ctx None None = (Some (), c)" "hmac_state md key [] c"
    using init_again [OF assms(1,2) Cons.prems] by blast
  have s: "hmac_state md key (concat ys) (fold (\<lambda>y c. HMAC_Update c y) ys c)" using hmac_updates [OF c(2), of ys] by simp
  obtain d where d: "HMAC_Final m (fold (\<lambda>y c. HMAC_Update c y) ys c) =
      (Some (Some (fips198_hmac md key (concat ys)), EVP_MD_size md), d)" "hmac_keyed md key d"
    using hmac_final [OF assms(1,2) s] by blast
  show ?case using c(1) d Cons.IH [OF d(2)] by simp
qed simp

section \<open>RFC 5869\<close>

definition rfc5869_extract :: "evp_md \<Rightarrow> bytes option \<Rightarrow> bytes \<Rightarrow> bytes" where
  "rfc5869_extract md salt ikm = fips198_hmac md (case salt of None \<Rightarrow> replicate (EVP_MD_size md) 0 | Some salt \<Rightarrow> salt) ikm"

primrec rfc5869_T :: "evp_md \<Rightarrow> bytes \<Rightarrow> bytes \<Rightarrow> nat \<Rightarrow> bytes" where
  "rfc5869_T md prk info 0 = []"
| "rfc5869_T md prk info (Suc i) = fips198_hmac md prk (rfc5869_T md prk info i @ info @ [of_nat (Suc i)])"

definition rfc5869_expand :: "evp_md \<Rightarrow> bytes \<Rightarrow> bytes \<Rightarrow> nat \<Rightarrow> bytes" where
  "rfc5869_expand md prk info L =
     take L (concat (map (rfc5869_T md prk info) [1..<Suc ((L + EVP_MD_size md - 1) div EVP_MD_size md)]))"

lemma fips198_key_zeros: "n \<le> EVP_MD_block_size md \<Longrightarrow> fips198_key md (replicate n 0) = fips198_key md []"
  by (simp add: fips198_key_def replicate_add [symmetric])

lemma length_T: "length (rfc5869_T md prk info i) = (if i = 0 then 0 else EVP_MD_size md)"
  by (cases i) (simp_all add: length_fips198_hmac)

lemma length_Ts: "length (concat (map (rfc5869_T md prk info) [1..<Suc i])) = i * EVP_MD_size md"
  by (induction i) (simp_all add: length_fips198_hmac)

text \<open>Before round \<open>i\<close> the output is what the first \<open>i\<close> blocks give, and the context has the key.\<close>

lemma hkdf_round_T:
  assumes "malloc_spec m" and "malloc_total m" and "i * EVP_MD_size md < out_len"
    and "if i = 0 then hmac_state md prk [] hmac else hmac_keyed md prk hmac"
    and out: "out_key = take out_len (concat (map (rfc5869_T md prk info) [1..<Suc i]))"
  obtains hmac' where "hkdf_round m out_len info (EVP_MD_size md) i hmac (rfc5869_T md prk info i) out_key =
      Some ((rfc5869_T md prk info (Suc i), take out_len (concat (map (rfc5869_T md prk info) [1..<Suc (Suc i)]))), hmac')"
    and "hmac_keyed md prk hmac'"
proof -
  let ?H = "EVP_MD_size md" and ?T = "rfc5869_T md prk info" and ?Ts = "concat (map (rfc5869_T md prk info) [1..<Suc i])"
  define start where "start = (if i \<noteq> 0 then
         (case HMAC_Init_ex m hmac None None of (None, hmac) \<Rightarrow> None | (Some _, hmac) \<Rightarrow> Some (HMAC_Update hmac (take ?H (?T i))))
       else Some hmac)"
  obtain h where h: "start = Some h" "hmac_state md prk (?T i) h"
  proof (cases "i = 0")
    case True
    with that [of hmac] assms(4) show ?thesis by (simp add: start_def)
  next
    case False
    then obtain c where "HMAC_Init_ex m hmac None None = (Some (), c)" "hmac_state md prk [] c"
      using init_again [OF assms(1,2), of md prk hmac None] assms(4) by auto
    with that [of "HMAC_Update c (?T i)"] hmac_update [of md prk "[]" c "?T i"] False show ?thesis
      by (simp add: start_def length_T)
  qed
  have "hmac_state md prk (?T i @ info @ [of_nat (Suc i)]) (HMAC_Update (HMAC_Update h info) [of_nat (Suc i)])"
    using hmac_update [OF hmac_update [OF h(2), of info], of "[of_nat (Suc i)]"] by simp
  then obtain g where g: "HMAC_Final m (HMAC_Update (HMAC_Update h info) [of_nat (Suc i)]) = (Some (Some (?T (Suc i)), ?H), g)"
      "hmac_keyed md prk g"
    using hmac_final [OF assms(1,2)] unfolding rfc5869_T.simps(2) by metis
  have l: "length ?Ts = i * ?H" by (rule length_Ts)
  then have o: "out_key = ?Ts" using assms(3) out by simp
  have "take out_len (concat (map ?T [1..<Suc (Suc i)])) = ?Ts @ take (out_len - i * ?H) (?T (Suc i))"
    using l assms(3) by (simp del: rfc5869_T.simps)
  also have "take (out_len - i * ?H) (?T (Suc i)) = take (if i * ?H + ?H > out_len then out_len - i * ?H else ?H) (?T (Suc i))"
    using length_T [of md prk info "Suc i"] by (simp del: rfc5869_T.simps)
  finally have T: "?Ts @ take (if i * ?H + ?H > out_len then out_len - i * ?H else ?H) (?T (Suc i)) =
      take out_len (concat (map ?T [1..<Suc (Suc i)]))" by (rule sym)
  have "i + 1 = Suc i" by simp
  then have "hkdf_round m out_len info ?H i hmac (?T i) out_key =
      Some ((?T (Suc i), ?Ts @ take (if i * ?H + ?H > out_len then out_len - i * ?H else ?H) (?T (Suc i))), g)"
    unfolding hkdf_round_def Let_def start_def [symmetric] h(1) o l by (simp only: option.case prod.case g(1) option.sel)
  then have "hkdf_round m out_len info ?H i hmac (?T i) out_key = Some ((?T (Suc i), take out_len (concat (map ?T [1..<Suc (Suc i)]))), g)"
    by (simp only: T)
  then show ?thesis using that g(2) by blast
qed

lemma hkdf_loop_T:
  assumes "malloc_spec m" and "malloc_total m" and "i \<le> n" and "n * EVP_MD_size md < out_len + EVP_MD_size md"
    and "if i = 0 then hmac_state md prk [] hmac else hmac_keyed md prk hmac"
  shows "hkdf_loop m out_len info (EVP_MD_size md) [i..<n] hmac (rfc5869_T md prk info i)
      (take out_len (concat (map (rfc5869_T md prk info) [1..<Suc i]))) =
    Some (take out_len (concat (map (rfc5869_T md prk info) [1..<Suc n])))"
  using assms(3,5)
proof (induction "n - i" arbitrary: i hmac)
  case 0
  then show ?case by simp
next
  case (Suc k)
  have "Suc i * EVP_MD_size md \<le> n * EVP_MD_size md" by (rule mult_le_mono1) (use Suc.hyps in simp)
  then have i: "i * EVP_MD_size md < out_len" using assms(4) by simp
  obtain h where h: "hkdf_round m out_len info (EVP_MD_size md) i hmac (rfc5869_T md prk info i)
      (take out_len (concat (map (rfc5869_T md prk info) [1..<Suc i]))) =
      Some ((rfc5869_T md prk info (Suc i), take out_len (concat (map (rfc5869_T md prk info) [1..<Suc (Suc i)]))), h)"
    "hmac_keyed md prk h"
    using hkdf_round_T [OF assms(1,2) i Suc.prems(2) refl] by metis
  have "[i..<n] = i # [Suc i..<n]" using Suc.hyps(2) by (simp add: upt_conv_Cons)
  then show ?case
    using Suc.hyps(1) [of "Suc i" h] Suc.hyps(2) h by (simp del: rfc5869_T.simps upt_Suc)
qed

lemma expand_is_rfc5869:
  assumes "malloc_spec m" and "malloc_total m" and "out_len < 2 ^ 64"
  shows "HKDF_expand m out_len md prk info = (if out_len \<le> 255 * EVP_MD_size md then Some (rfc5869_expand md prk info out_len) else None)"
proof -
  let ?H = "EVP_MD_size md"
  define n where "n = (out_len + ?H - 1) div ?H"
  have H: "0 < ?H" "?H \<le> 64" by (rule EVP_MD_size_bounds)+
  have wrap: "size_add out_len ?H < out_len \<longleftrightarrow> 2 ^ 64 \<le> out_len + ?H" by (rule size_add_wraps) (use assms(3) H in simp_all)
  have big: "255 < n \<longleftrightarrow> 255 * ?H < out_len"
  proof -
    have "255 < n \<longleftrightarrow> 256 \<le> n" by auto
    also have "\<dots> \<longleftrightarrow> 256 * ?H \<le> out_len + ?H - 1" unfolding n_def by (rule less_eq_div_iff_mult_less_eq [OF H(1)])
    finally show ?thesis using H(1) by auto
  qed
  obtain c :: "unit hmac_ctx" where c: "HMAC_Init_ex m HMAC_CTX_init (Some prk) (Some md) = (Some (), c)" "hmac_state md prk [] c"
    using init_key [OF assms(1,2) hmac_ok_init] by blast
  have n: "n * ?H < out_len + ?H"
    using div_times_less_eq_dividend [of "out_len + ?H - 1" ?H] H(1) unfolding n_def by linarith
  have loop: "hkdf_loop m out_len info ?H [0..<n] c [] [] = Some (rfc5869_expand md prk info out_len)"
    using hkdf_loop_T [OF assms(1,2) _ n, of 0 prk c info] c(2) by (simp add: rfc5869_expand_def n_def [symmetric] del: upt_Suc One_nat_def)
  show ?thesis
  proof (cases "2 ^ 64 \<le> out_len + ?H")
    case True
    then show ?thesis using wrap H assms(3) by (simp add: HKDF_expand_def)
  next
    case False
    then have a: "size_add out_len ?H = out_len + ?H" by (simp add: size_add_no_wrap)
    have "(out_len + ?H + 2 ^ 64 - 1) mod 2 ^ 64 = out_len + ?H - 1"
    proof -
      have "out_len + ?H + 2 ^ 64 - 1 = (out_len + ?H - 1) + 2 ^ 64" using H(1) by simp
      then have "(out_len + ?H + 2 ^ 64 - 1) mod 2 ^ 64 = (out_len + ?H - 1) mod 2 ^ 64" by (simp only: mod_add_self2)
      also have "\<dots> = out_len + ?H - 1" by (rule mod_less) (use False in simp)
      finally show ?thesis .
    qed
    then have "(size_add out_len ?H + 2 ^ 64 - 1) mod 2 ^ 64 div ?H = n" by (simp only: a n_def)
    then show ?thesis using False wrap big loop c(1) unfolding HKDF_expand_def Let_def by auto
  qed
qed

section \<open>Properties\<close>

text \<open>C13.
  HMAC is that of FIPS 198-1 for every hash function: in a context in any state, once a key is set, any number of messages given in any pieces get
  their codes, with a null key standing for the same key again; and so does the one-shot function, for which a null key is the empty one.
\<close>

theorem hmac_is_fips198:
  assumes "malloc_spec m" and "malloc_total m" and "hmac_ok ctx"
  shows "fst (HMAC_Init_ex m ctx (Some key) (Some md)) = Some () \<and>
    hmac_messages m (snd (HMAC_Init_ex m ctx (Some key) (Some md))) yss =
      Some (map (\<lambda>ys. (Some (fips198_hmac md key (concat ys)), EVP_MD_size md)) yss) \<and>
    HMAC m md k data = Some (Some (fips198_hmac md (case k of None \<Rightarrow> [] | Some k \<Rightarrow> k) data), EVP_MD_size md)"
proof -
  obtain c where c: "HMAC_Init_ex m ctx (Some key) (Some md) = (Some (), c)" "hmac_state md key [] c"
    using init_key [OF assms] by blast
  have keyed: "hmac_keyed md key c" using c(2) by (simp add: hmac_state_def)
  show ?thesis using c(1) hmac_messages_keyed [OF assms(1,2) keyed, of yss] HMAC_eq [OF assms(1,2), of md k data] by simp
qed

lemma hmac_is_fips198_witness:
  "HMAC zero_malloc EVP_sha256 (Some [1, 2]) [3] = Some (Some (fips198_hmac EVP_sha256 [1, 2] [3]), 32)"
  using hmac_is_fips198 [OF malloc_zero_malloc hmac_ok_init [where ?'a = unit], of "[]" EVP_sha256 "[]" "Some [1, 2]" "[3]"]
  by (simp add: EVP_MD_size_values)

text \<open>C14.
  HKDF is that of RFC 5869: the output has the length asked for and is the beginning of the chained blocks, exactly up to 255 of them; more is
  refused, also when computing the number of blocks would wrap around.  A missing salt is a salt of zeros.
\<close>

theorem hkdf_is_rfc5869:
  assumes "malloc_spec m" and "malloc_total m" and "out_len < 2 ^ 64"
  shows "HKDF m out_len md secret salt info =
    (if out_len \<le> 255 * EVP_MD_size md then Some (rfc5869_expand md (rfc5869_extract md salt secret) info out_len) else None)"
proof -
  have "fips198_hmac md (case salt of None \<Rightarrow> [] | Some k \<Rightarrow> k) secret = rfc5869_extract md salt secret"
    using fips198_key_zeros [OF EVP_MD_size_bounds(3)]
    by (cases salt) (simp_all add: rfc5869_extract_def fips198_hmac_def fips198_pad_def)
  moreover have "length (rfc5869_extract md salt secret) = EVP_MD_size md" by (simp add: rfc5869_extract_def length_fips198_hmac)
  ultimately show ?thesis by (simp add: HKDF_def HKDF_extract_def expand_is_rfc5869 [OF assms] HMAC_eq [OF assms(1,2)])
qed

lemma hkdf_is_rfc5869_witness:
  "HKDF zero_malloc 42 EVP_sha1 [1] None [2] = Some (rfc5869_expand EVP_sha1 (rfc5869_extract EVP_sha1 None [1]) [2] 42)"
  using hkdf_is_rfc5869 [OF malloc_zero_malloc, of 42 EVP_sha1 "[1]" None "[2]"] by (simp add: EVP_MD_size_values)

end
