(* ===== verification/DigestExtra.thy ===== *)
theory DigestExtra
  imports Asn1 Digest
begin

text \<open>
  \<^verbatim>\<open>digest_extra/digest_extra.c\<close>: looking up a digest by number, name and object identifier, and reading and writing the \<^verbatim>\<open>AlgorithmIdentifier\<close>
  of a digest.
\<close>

section \<open>The code\<close>

definition CBS_ASN1_NULL :: u32 where "CBS_ASN1_NULL = 0x5"
definition CBS_ASN1_OBJECT :: u32 where "CBS_ASN1_OBJECT = 0x6"
definition CBS_ASN1_SEQUENCE :: u32 where "CBS_ASN1_SEQUENCE = 0x10 OR CBS_ASN1_CONSTRUCTED"

definition NID_undef :: int where "NID_undef = 0"

record nid_to_digest =
  nd_nid :: int
  nd_md_func :: evp_md
  nd_short_name :: "string option"
  nd_long_name :: "string option"

definition nid_to_digest_mapping :: "nid_to_digest list" where
  "nid_to_digest_mapping =
    [\<lparr>nd_nid = 257, nd_md_func = EVP_md4, nd_short_name = Some ''MD4'', nd_long_name = Some ''md4''\<rparr>,
     \<lparr>nd_nid = 4, nd_md_func = EVP_md5, nd_short_name = Some ''MD5'', nd_long_name = Some ''md5''\<rparr>,
     \<lparr>nd_nid = 64, nd_md_func = EVP_sha1, nd_short_name = Some ''SHA1'', nd_long_name = Some ''sha1''\<rparr>,
     \<lparr>nd_nid = 675, nd_md_func = EVP_sha224, nd_short_name = Some ''SHA224'', nd_long_name = Some ''sha224''\<rparr>,
     \<lparr>nd_nid = 672, nd_md_func = EVP_sha256, nd_short_name = Some ''SHA256'', nd_long_name = Some ''sha256''\<rparr>,
     \<lparr>nd_nid = 673, nd_md_func = EVP_sha384, nd_short_name = Some ''SHA384'', nd_long_name = Some ''sha384''\<rparr>,
     \<lparr>nd_nid = 674, nd_md_func = EVP_sha512, nd_short_name = Some ''SHA512'', nd_long_name = Some ''sha512''\<rparr>,
     \<lparr>nd_nid = 114, nd_md_func = EVP_md5_sha1, nd_short_name = Some ''MD5-SHA1'', nd_long_name = Some ''md5-sha1''\<rparr>,
     \<lparr>nd_nid = NID_undef, nd_md_func = EVP_sha1, nd_short_name = Some ''DSA-SHA'', nd_long_name = Some ''dsaWithSHA''\<rparr>,
     \<lparr>nd_nid = NID_undef, nd_md_func = EVP_sha1, nd_short_name = Some ''DSA-SHA1'', nd_long_name = Some ''dsaWithSHA1''\<rparr>,
     \<lparr>nd_nid = NID_undef, nd_md_func = EVP_sha1, nd_short_name = Some ''ecdsa-with-SHA1'', nd_long_name = None\<rparr>,
     \<lparr>nd_nid = NID_undef, nd_md_func = EVP_md5, nd_short_name = Some ''RSA-MD5'', nd_long_name = Some ''md5WithRSAEncryption''\<rparr>,
     \<lparr>nd_nid = NID_undef, nd_md_func = EVP_sha1, nd_short_name = Some ''RSA-SHA1'', nd_long_name = Some ''sha1WithRSAEncryption''\<rparr>,
     \<lparr>nd_nid = NID_undef, nd_md_func = EVP_sha224, nd_short_name = Some ''RSA-SHA224'', nd_long_name = Some ''sha224WithRSAEncryption''\<rparr>,
     \<lparr>nd_nid = NID_undef, nd_md_func = EVP_sha256, nd_short_name = Some ''RSA-SHA256'', nd_long_name = Some ''sha256WithRSAEncryption''\<rparr>,
     \<lparr>nd_nid = NID_undef, nd_md_func = EVP_sha384, nd_short_name = Some ''RSA-SHA384'', nd_long_name = Some ''sha384WithRSAEncryption''\<rparr>,
     \<lparr>nd_nid = NID_undef, nd_md_func = EVP_sha512, nd_short_name = Some ''RSA-SHA512'', nd_long_name = Some ''sha512WithRSAEncryption''\<rparr>]"

definition EVP_get_digestbynid :: "int \<Rightarrow> evp_md option" where
  "EVP_get_digestbynid nid =
     (if nid = NID_undef then None
      else map_option nd_md_func (find (\<lambda>e. nd_nid e = nid) nid_to_digest_mapping))"

text \<open>The object identifiers, each with its number.\<close>

definition kMDOIDs :: "(bytes \<times> int) list" where
  "kMDOIDs =
    [([0x2a, 0x86, 0x48, 0x86, 0xf7, 0x0d, 0x02, 0x04], 257),
     ([0x2a, 0x86, 0x48, 0x86, 0xf7, 0x0d, 0x02, 0x05], 4),
     ([0x2b, 0x0e, 0x03, 0x02, 0x1a], 64),
     ([0x60, 0x86, 0x48, 0x01, 0x65, 0x03, 0x04, 0x02, 0x01], 672),
     ([0x60, 0x86, 0x48, 0x01, 0x65, 0x03, 0x04, 0x02, 0x02], 673),
     ([0x60, 0x86, 0x48, 0x01, 0x65, 0x03, 0x04, 0x02, 0x03], 674),
     ([0x60, 0x86, 0x48, 0x01, 0x65, 0x03, 0x04, 0x02, 0x04], 675)]"

definition cbs_to_md :: "cbs \<Rightarrow> evp_md option" where
  "cbs_to_md cbs =
     (case find (\<lambda>(oid, nid). CBS_len cbs = length oid \<and> OPENSSL_memcmp (CBS_data cbs) oid = 0) kMDOIDs of
        None \<Rightarrow> None
      | Some (oid, nid) \<Rightarrow> EVP_get_digestbynid nid)"

text \<open>Of an object the number and the contents with their length are used.\<close>

record asn1_object =
  ao_nid :: int
  ao_length :: nat
  ao_data :: bytes

definition EVP_get_digestbyobj :: "asn1_object \<Rightarrow> evp_md option" where
  "EVP_get_digestbyobj obj =
     (if ao_nid obj \<noteq> NID_undef then EVP_get_digestbynid (ao_nid obj)
      else cbs_to_md (CBS_init (ao_data obj) (ao_length obj)))"

definition EVP_parse_digest_algorithm :: "cbs \<Rightarrow> evp_md option \<times> cbs" where
  "EVP_parse_digest_algorithm cbs =
     chain (CBS_get_asn1 cbs CBS_ASN1_SEQUENCE) (\<lambda>algorithm cbs.
       case CBS_get_asn1 algorithm CBS_ASN1_OBJECT of
         (None, _) \<Rightarrow> (None, cbs)
       | (Some oid, algorithm) \<Rightarrow>
           (case cbs_to_md oid of
              None \<Rightarrow> (None, cbs)
            | Some ret \<Rightarrow>
                if CBS_len algorithm > 0 then
                  (case CBS_get_asn1 algorithm CBS_ASN1_NULL of
                     (None, _) \<Rightarrow> (None, cbs)
                   | (Some param, algorithm) \<Rightarrow>
                       if CBS_len param \<noteq> 0 \<or> CBS_len algorithm \<noteq> 0 then (None, cbs) else (Some ret, cbs))
                else (Some ret, cbs)))"

text \<open>\<open>algorithm\<close> is the child of the builder, \<open>oid\<close> and then \<open>null\<close> are children of it.\<close>

definition EVP_marshal_digest_algorithm :: "malloc \<Rightarrow> cbb_state \<Rightarrow> evp_md \<Rightarrow> cbb_result" where
  "EVP_marshal_digest_algorithm m cbb md =
     chain (CBB_add_asn1 m cbb CBS_ASN1_SEQUENCE) (\<lambda>_ cbb.
       chain (on_child (\<lambda>algorithm. CBB_add_asn1 m algorithm CBS_ASN1_OBJECT) cbb) (\<lambda>_ cbb.
         (let nid = EVP_MD_type md
          in case find (\<lambda>(oid, n). nid = n) kMDOIDs of
               None \<Rightarrow> (None, cbb)
             | Some (oid, n) \<Rightarrow>
                 chain (on_child (on_child (\<lambda>c. CBB_add_bytes m c oid)) cbb) (\<lambda>_ cbb.
                   chain (on_child (\<lambda>algorithm. CBB_add_asn1 m algorithm CBS_ASN1_NULL) cbb) (\<lambda>_ cbb.
                     CBB_flush m cbb)))))"

definition EVP_get_digestbyname :: "string \<Rightarrow> evp_md option" where
  "EVP_get_digestbyname name =
     map_option nd_md_func (find (\<lambda>e. nd_short_name e = Some name \<or> nd_long_name e = Some name) nid_to_digest_mapping)"

section \<open>Lookups\<close>

primrec md_oid :: "evp_md \<Rightarrow> bytes option" where
  "md_oid EVP_md4 = Some [0x2a, 0x86, 0x48, 0x86, 0xf7, 0x0d, 0x02, 0x04]"
| "md_oid EVP_md5 = Some [0x2a, 0x86, 0x48, 0x86, 0xf7, 0x0d, 0x02, 0x05]"
| "md_oid EVP_sha1 = Some [0x2b, 0x0e, 0x03, 0x02, 0x1a]"
| "md_oid EVP_sha224 = Some [0x60, 0x86, 0x48, 0x01, 0x65, 0x03, 0x04, 0x02, 0x04]"
| "md_oid EVP_sha256 = Some [0x60, 0x86, 0x48, 0x01, 0x65, 0x03, 0x04, 0x02, 0x01]"
| "md_oid EVP_sha384 = Some [0x60, 0x86, 0x48, 0x01, 0x65, 0x03, 0x04, 0x02, 0x02]"
| "md_oid EVP_sha512 = Some [0x60, 0x86, 0x48, 0x01, 0x65, 0x03, 0x04, 0x02, 0x03]"
| "md_oid EVP_md5_sha1 = None"

lemma EVP_MD_type_values [simp]:
  "EVP_MD_type EVP_md4 = 257" "EVP_MD_type EVP_md5 = 4" "EVP_MD_type EVP_sha1 = 64" "EVP_MD_type EVP_sha224 = 675"
  "EVP_MD_type EVP_sha256 = 672" "EVP_MD_type EVP_sha384 = 673" "EVP_MD_type EVP_sha512 = 674" "EVP_MD_type EVP_md5_sha1 = 114"
  by (simp_all add: EVP_MD_type_def method_defs)

lemma find_SomeD: "find P xs = Some x \<Longrightarrow> x \<in> set xs \<and> P x"
  by (induction xs) (auto split: if_splits)

lemma digestbynid: "EVP_get_digestbynid nid = Some md \<longleftrightarrow> nid = EVP_MD_type md"
proof
  assume "EVP_get_digestbynid nid = Some md"
  then obtain e where "e \<in> set nid_to_digest_mapping" "nd_nid e = nid" "nid \<noteq> NID_undef" "md = nd_md_func e"
    by (auto simp: EVP_get_digestbynid_def dest: find_SomeD split: if_splits)
  then show "nid = EVP_MD_type md" by (auto simp: nid_to_digest_mapping_def)
next
  assume nid: "nid = EVP_MD_type md"
  show "EVP_get_digestbynid nid = Some md"
    unfolding nid by (cases md) (simp_all add: EVP_get_digestbynid_def nid_to_digest_mapping_def NID_undef_def)
qed

lemma memcmp_eq: "length as = length bs \<Longrightarrow> OPENSSL_memcmp as bs = 0 \<longleftrightarrow> as = bs"
  by (induction as bs rule: OPENSSL_memcmp.induct) (auto simp: word_uint_eq_iff)

lemma find_oid:
  "find (\<lambda>(oid, nid). CBS_len cbs = length oid \<and> OPENSSL_memcmp (CBS_data cbs) oid = 0) kMDOIDs = find (\<lambda>(oid, nid). cbs = oid) kMDOIDs"
  by (rule arg_cong [where f = "\<lambda>p. find p kMDOIDs"]) (auto simp: CBS_len_def CBS_data_def fun_eq_iff memcmp_eq)

lemma cbs_to_md_iff: "cbs_to_md cbs = Some md \<longleftrightarrow> md_oid md = Some cbs"
proof
  assume "cbs_to_md cbs = Some md"
  then obtain nid where "(cbs, nid) \<in> set kMDOIDs" "nid = EVP_MD_type md"
    by (auto simp: cbs_to_md_def find_oid digestbynid dest!: find_SomeD split: option.splits)
  then show "md_oid md = Some cbs" by (cases md) (auto simp: kMDOIDs_def)
next
  assume "md_oid md = Some cbs"
  then have "find (\<lambda>(oid, nid). cbs = oid) kMDOIDs = Some (cbs, EVP_MD_type md)" by (cases md) (auto simp: kMDOIDs_def)
  then show "cbs_to_md cbs = Some md" by (simp add: cbs_to_md_def find_oid digestbynid)
qed

lemma marshal_oid: "map_option fst (find (\<lambda>(oid, n). EVP_MD_type md = n) kMDOIDs) = md_oid md"
  by (cases md) (simp_all add: kMDOIDs_def)

section \<open>Reading and writing\<close>

definition algorithm_with_null :: "bytes \<Rightarrow> bytes" where
  "algorithm_with_null oid = asn1_tlv (asn1_tlv (oid, CBS_ASN1_OBJECT) @ asn1_tlv ([], CBS_ASN1_NULL), CBS_ASN1_SEQUENCE)"

definition algorithm_bare :: "bytes \<Rightarrow> bytes" where
  "algorithm_bare oid = asn1_tlv (asn1_tlv (oid, CBS_ASN1_OBJECT), CBS_ASN1_SEQUENCE)"

lemma add_asn1_child: "CBB_add_asn1 m s tag = (Some u, s') \<Longrightarrow> child (snd s') \<noteq> None"
  by (auto simp: CBB_add_asn1_def chain_eq_Some Let_def split: option.splits prod.splits)

lemma add_asn1_empty: "chain (CBB_add_asn1 m s tag) (\<lambda>_. on_child (\<lambda>s. (Some (), s))) = CBB_add_asn1 m s tag"
proof (cases "fst (CBB_add_asn1 m s tag)")
  case (Some u)
  then show ?thesis using add_asn1_child [of m s tag u] by (cases "CBB_add_asn1 m s tag") (simp add: on_child_id)
qed (cases "CBB_add_asn1 m s tag"; simp)

lemma marshal_eq:
  assumes "md_oid md = Some oid"
  shows "EVP_marshal_digest_algorithm m s md =
    chain (chain (CBB_add_asn1 m s CBS_ASN1_SEQUENCE) (\<lambda>_. on_child (\<lambda>s.
      chain (chain (CBB_add_asn1 m s CBS_ASN1_OBJECT) (\<lambda>_. on_child (\<lambda>c. CBB_add_bytes m c oid)))
        (\<lambda>_ s. chain (CBB_add_asn1 m s CBS_ASN1_NULL) (\<lambda>_. on_child (\<lambda>s. (Some (), s))))))) (\<lambda>_ s. CBB_flush m s)"
proof -
  obtain n where f: "find (\<lambda>(oid, n). EVP_MD_type md = n) kMDOIDs = Some (oid, n)"
    using marshal_oid [of md] assms by auto
  show ?thesis
    by (simp add: EVP_marshal_digest_algorithm_def f Let_def chain_assoc add_asn1_empty flip: on_child_chain)
qed

lemma md_oid_length: "md_oid md = Some oid \<Longrightarrow> length oid \<le> 9"
  by (cases md) auto

lemma algorithm_length:
  assumes "length oid \<le> 9"
  shows "length (asn1_tlv (oid, CBS_ASN1_OBJECT)) = 2 + length oid" and "length (asn1_tlv ([], CBS_ASN1_NULL)) = 2"
    and "length (algorithm_with_null oid) = 6 + length oid"
  using assms
  by (simp_all add: algorithm_with_null_def asn1_tlv_def asn1_header_def asn1_identifier_def asn1_length_def Let_def
      CBS_ASN1_OBJECT_def CBS_ASN1_NULL_def CBS_ASN1_SEQUENCE_def CBS_ASN1_CONSTRUCTED_def CBS_ASN1_TAG_SHIFT_def CBS_ASN1_TAG_NUMBER_MASK_def)

lemma adds_marshal:
  assumes "malloc_spec m" and "md_oid md = Some oid"
  shows "adds m (\<lambda>s. EVP_marshal_digest_algorithm m s md) (algorithm_with_null oid) True"
proof -
  have "length oid < 2 ^ 63" using md_oid_length [OF assms(2)] by simp
  from adds_then_flush [OF assms(1) adds_asn1 [OF assms(1) adds_chain [OF adds_asn1 [OF assms(1) adds_bytes [OF assms(1) this]]
        adds_asn1 [OF assms(1) adds_id]]]]
  show ?thesis
    unfolding marshal_eq [OF assms(2)] algorithm_with_null_def
    by (rule adds_cong) (use md_oid_length [OF assms(2)] in \<open>simp_all add: algorithm_length\<close>)
qed

lemma chain_None1: "fst r = None \<Longrightarrow> fst (chain r k) = None"
  by (cases r) (simp add: chain_def split: option.splits)

lemma chain_None2: "(\<And>v s. fst (k v s) = None) \<Longrightarrow> fst (chain r k) = None"
  by (cases r) (simp add: chain_def split: option.splits)

lemma marshal_None: "md_oid md = None \<Longrightarrow> fst (EVP_marshal_digest_algorithm m s md) = None"
proof -
  assume "md_oid md = None"
  then have "find (\<lambda>(oid, n). EVP_MD_type md = n) kMDOIDs = None" using marshal_oid [of md] by simp
  then show ?thesis
    by (auto simp: EVP_marshal_digest_algorithm_def Let_def chain_def split: option.splits prod.splits)
qed

lemma parse_iff:
  "EVP_parse_digest_algorithm cbs = (Some md, rest) \<longleftrightarrow>
    (\<exists>oid. md_oid md = Some oid \<and> (cbs = algorithm_with_null oid @ rest \<or> cbs = algorithm_bare oid @ rest))"
proof
  assume "EVP_parse_digest_algorithm cbs = (Some md, rest)"
  then obtain alg s where a: "CBS_get_asn1 cbs CBS_ASN1_SEQUENCE = (Some alg, s)"
      and k: "(case CBS_get_asn1 alg CBS_ASN1_OBJECT of (None, _) \<Rightarrow> (None, s)
        | (Some oid, algorithm) \<Rightarrow> (case cbs_to_md oid of None \<Rightarrow> (None, s) | Some ret \<Rightarrow>
            if CBS_len algorithm > 0 then (case CBS_get_asn1 algorithm CBS_ASN1_NULL of (None, _) \<Rightarrow> (None, s)
              | (Some param, algorithm) \<Rightarrow> if CBS_len param \<noteq> 0 \<or> CBS_len algorithm \<noteq> 0 then (None, s) else (Some ret, s))
            else (Some ret, s))) = (Some md, rest)"
    unfolding EVP_parse_digest_algorithm_def by (rule chain_SomeE)
  obtain r alg2 where o: "CBS_get_asn1 alg CBS_ASN1_OBJECT = (r, alg2)" by (cases "CBS_get_asn1 alg CBS_ASN1_OBJECT")
  with k obtain oid where oid: "r = Some oid" by (cases r) simp_all
  obtain q alg3 where p: "CBS_get_asn1 alg2 CBS_ASN1_NULL = (q, alg3)" by (cases "CBS_get_asn1 alg2 CBS_ASN1_NULL")
  have "md_oid md = Some oid" "s = rest" and n: "alg2 = [] \<or> q = Some [] \<and> alg3 = []"
    using k o oid p by (auto simp: CBS_len_def cbs_to_md_iff split: option.splits if_splits)
  with a o oid have a: "CBS_get_asn1 cbs CBS_ASN1_SEQUENCE = (Some alg, rest)" "CBS_get_asn1 alg CBS_ASN1_OBJECT = (Some oid, alg2)"
      "md_oid md = Some oid" by simp_all
  have "cbs = asn1_tlv (alg, CBS_ASN1_SEQUENCE) @ rest" "alg = asn1_tlv (oid, CBS_ASN1_OBJECT) @ alg2"
    using a(1,2) by (simp_all add: CBS_get_asn1_iff)
  moreover have "alg2 = [] \<or> alg2 = asn1_tlv ([], CBS_ASN1_NULL)" using n p by (auto simp: CBS_get_asn1_iff)
  ultimately show "\<exists>oid. md_oid md = Some oid \<and> (cbs = algorithm_with_null oid @ rest \<or> cbs = algorithm_bare oid @ rest)"
    using a(3) by (auto simp: algorithm_with_null_def algorithm_bare_def)
next
  assume "\<exists>oid. md_oid md = Some oid \<and> (cbs = algorithm_with_null oid @ rest \<or> cbs = algorithm_bare oid @ rest)"
  then obtain oid where oid: "md_oid md = Some oid" and c: "cbs = algorithm_with_null oid @ rest \<or> cbs = algorithm_bare oid @ rest" by blast
  have l: "length oid \<le> 9" by (rule md_oid_length [OF oid])
  define alg where "alg = asn1_tlv (oid, CBS_ASN1_OBJECT) @ (if cbs = algorithm_bare oid @ rest then [] else asn1_tlv ([], CBS_ASN1_NULL))"
  have "CBS_get_asn1 cbs CBS_ASN1_SEQUENCE = (Some alg, rest)"
    using c l by (auto simp: CBS_get_asn1_iff alg_def algorithm_with_null_def algorithm_bare_def algorithm_length)
  moreover have "CBS_get_asn1 alg CBS_ASN1_OBJECT = (Some oid, if cbs = algorithm_bare oid @ rest then [] else asn1_tlv ([], CBS_ASN1_NULL))"
    using l by (simp add: CBS_get_asn1_iff alg_def)
  moreover have "CBS_get_asn1 (asn1_tlv ([], CBS_ASN1_NULL)) CBS_ASN1_NULL = (Some [], [])" by (simp add: CBS_get_asn1_iff)
  moreover have "cbs_to_md oid = Some md" using oid by (simp add: cbs_to_md_iff)
  ultimately show "EVP_parse_digest_algorithm cbs = (Some md, rest)"
    using l by (simp add: EVP_parse_digest_algorithm_def CBS_len_def algorithm_length)
qed

section \<open>Properties\<close>

text \<open>C16.
  The algorithm identifier that \<^verbatim>\<open>EVP_marshal_digest_algorithm\<close> builds is read back as the same digest by \<^verbatim>\<open>EVP_parse_digest_algorithm\<close>, whatever
  follows; with memory to be had, building fails for no digest but MD5 with SHA-1, which has no object identifier.
\<close>

theorem digest_algorithm_roundtrip:
  fixes md :: evp_md
  assumes "malloc_spec m" and "malloc_total m" and "cap \<le> 2 ^ 62"
  defines "built \<equiv> cbb_build m cap (\<lambda>s. EVP_marshal_digest_algorithm m s md)"
  shows "(built = None \<longleftrightarrow> md = EVP_md5_sha1) \<and> (\<forall>out. built = Some out \<longrightarrow> EVP_parse_digest_algorithm (out @ rest) = (Some md, rest))"
proof (cases "md_oid md")
  case None
  then have "md = EVP_md5_sha1" by (cases md) simp_all
  moreover have "built = None"
    unfolding built_def cbb_build_def by (intro chain_None1 chain_None2 marshal_None [OF None])
  ultimately show ?thesis by simp
next
  case (Some oid)
  have "built = Some (algorithm_with_null oid)"
    unfolding built_def using md_oid_length [OF Some]
    by (intro cbb_build_total [OF assms(1-3) adds_marshal [OF assms(1) Some]]) (simp_all add: algorithm_length)
  moreover have "md \<noteq> EVP_md5_sha1" using Some by auto
  ultimately show ?thesis using Some by (simp add: parse_iff)
qed

lemma digest_algorithm_roundtrip_witness:
  "\<exists>out. cbb_build zero_malloc 0 (\<lambda>s. EVP_marshal_digest_algorithm zero_malloc s EVP_sha256) = Some out \<and>
     EVP_parse_digest_algorithm (out @ [1]) = (Some EVP_sha256, [1])"
  using digest_algorithm_roundtrip [of zero_malloc 0 EVP_sha256 "[1]"]
  by (cases "cbb_build zero_malloc 0 (\<lambda>s. EVP_marshal_digest_algorithm zero_malloc s EVP_sha256)") simp_all

text \<open>C17.
  The parser accepts nothing else but the form without parameters: what it reads as a digest is the DER encoding of the object identifier of that digest in a
  sequence, alone or followed by a NULL.
\<close>

theorem digest_algorithm_exact:
  "EVP_parse_digest_algorithm cbs = (Some md, rest) \<longleftrightarrow>
    (\<exists>oid. md_oid md = Some oid \<and> (cbs = algorithm_with_null oid @ rest \<or> cbs = algorithm_bare oid @ rest))"
  by (rule parse_iff)

end
