(* ===== verification/Spec2Isabelle.thy ===== *)
theory Spec2Isabelle
  imports Buf SetOf Oid Ber Base64 LHash BioClients Gcm Polyval Hmac DigestExtra
begin

text \<open>
  A verification library for the C code of the repository's pods: the byte-string and encoding layer of BoringSSL
  (\<^verbatim>\<open>src/Shopping List/Pods/BoringSSL/crypto\<close>), its containers and I/O objects, with the memory primitives they stand on.

  \<^bold>\<open>Conventions.\<close>  A buffer is the list of its bytes, a machine integer a word of its width, a \<^verbatim>\<open>size_t\<close> a natural number with
  the wrap-around written out (\<open>size_add\<close>, \<open>size_mul\<close>) where the code computes one that is not known to fit.  A function that
  returns 1 or 0 gives \<open>Some\<close> or \<open>None\<close>, together with the state it leaves, on failure too; \<open>chain\<close> sequences such calls.
  The C library's allocator is a parameter \<open>m\<close>: \<open>malloc_spec\<close> says that it hands out what was asked for and nothing of 2^63
  bytes or more, \<open>malloc_total\<close> that it has memory left; the witnesses use \<open>zero_malloc\<close>.  It is a function of the size, so that
  requests for the same size all succeed or all fail.

  \<^bold>\<open>Parts.\<close>  \<open>Prelude\<close> has the integer types, big- and little-endian numbers and \<open>chain\<close>.  \<open>Mem\<close> is \<^verbatim>\<open>mem.c\<close>, \<open>Buf\<close> is
  \<^verbatim>\<open>buf/buf.c\<close>; \<open>ConstTime\<close> the branch-free primitives of \<^verbatim>\<open>internal.h\<close>.  \<open>Cbs\<close> is the reader \<^verbatim>\<open>bytestring/cbs.c\<close>; a \<^verbatim>\<open>CBS\<close> is the
  list of bytes left.  \<open>Codec\<close> states the interface of readers as the locales \<open>codec\<close> and \<open>canonical_codec\<close>, which \<open>Der\<close>
  interprets for the reader's functions: what each accepts is exactly one encoding of each value.  \<open>Cbb\<close> is the builder
  \<^verbatim>\<open>bytestring/cbb.c\<close>: the shared buffer and the chain of pending children, flushed when their parent is used again.
  \<open>CbbWriter\<close> proves one law per operation, \<open>adds m f d ok\<close>: \<open>f\<close> appends \<open>d\<close> when it succeeds, then \<open>ok\<close> holds, and with
  memory it succeeds when \<open>ok\<close> holds.  \<open>Asn1\<close> joins builder and reader in the locales \<open>writer\<close> and \<open>wire_format\<close> and treats
  documents of nested children.  \<open>Oid\<close> has the conversions of object identifiers, \<open>SetOf\<close> the sorting of a SET OF, \<open>Ber\<close> is
  \<^verbatim>\<open>bytestring/ber.c\<close>.  \<open>Blocks\<close> is the interface of code that buffers its input (locale \<open>block_stream\<close>), and \<open>Base64\<close> is
  \<^verbatim>\<open>base64/base64.c\<close>.

  \<open>Sorting\<close> states what the code relies on in the C library's \<^verbatim>\<open>qsort\<close> and \<^verbatim>\<open>bsearch\<close> and gives an instance of each.  \<open>Stack\<close> is
  \<^verbatim>\<open>stack/stack.c\<close>: a vector of pointers with its capacity and its sorted flag, refined to the list operations.  \<open>LHash\<close> is
  \<^verbatim>\<open>lhash/lhash.c\<close>: buckets of chained items, the resizing rules and the walk with a callback; the locale \<open>keyed_table\<close> is the
  finite map it promises.  The \<^verbatim>\<open>bio\<close> directory is split in six: \<open>Bio\<close> has the \<^verbatim>\<open>BIO\<close> structure, the heap of objects with their
  reference counts, flags, fields and chains; \<open>BioMem\<close> is \<^verbatim>\<open>bio_mem.c\<close>, \<open>BioPair\<close> is \<^verbatim>\<open>pair.c\<close>, and \<open>BioIo\<close> the calls of \<^verbatim>\<open>bio.c\<close> and
  \<^verbatim>\<open>hexdump.c\<close> that dispatch to a method.  \<open>BioQueue\<close> shows that the ring buffer of a pair is a queue, states what a client may expect of an
  object that is read and written in the locales \<open>byte_source\<close> and \<open>byte_channel\<close>, and interprets them for the pair; \<open>BioClients\<close> does so for
  the memory object and proves \<^verbatim>\<open>BIO_read_asn1\<close> equivalent to the byte-string reader on it.

  The modes of operation of \<^verbatim>\<open>fipsmodule/modes\<close> take the block cipher as a parameter; \<open>block_fun\<close> says that it maps 16 bytes to 16 bytes.
  \<open>BlockWords\<close> has the word accesses of \<^verbatim>\<open>modes/internal.h\<close>.  \<open>Cbc\<close> is \<^verbatim>\<open>cbc.c\<close> over a memory in which input and output may overlap.
  \<open>StreamModes\<close> is \<^verbatim>\<open>ctr.c\<close>, \<^verbatim>\<open>ofb.c\<close> and \<^verbatim>\<open>cfb.c\<close> on input and output lists (the same buffer, or disjoint ones): the locale \<open>byte_stream\<close> says that a function
  that works on blocks does what its byte-wise form does, whatever is left of the block before, and \<open>inverse_streams\<close> that two such functions
  undo each other; both are interpreted for every mode.  \<open>Counter\<close> reads the counter block as a 128-bit number and shows that the two drivers of
  CTR agree; \<open>Ccm\<close> is \<^verbatim>\<open>ccm.c\<close>, compared with the formatting and counter blocks of RFC 3610.  \<open>Ghash\<close> has the multiplication of \<^verbatim>\<open>gcm.c\<close> with its
  tables of 4-bit products, shown to be that of the field of 2^128 elements; \<open>Gcm\<close> has the context of \<^verbatim>\<open>gcm.c\<close> and its calls: a call of any
  length is a step per byte, and a session of calls gives the ciphertext and the tag of SP 800-38D.  \<open>Polyval\<close> is \<^verbatim>\<open>polyval.c\<close>, which computes
  POLYVAL with the tables of GHASH; it is compared with the field of RFC 8452, whose bit order is the other one.

  The hash functions: \<open>Md32\<close> is the collector \<^verbatim>\<open>digest/md32_common.h\<close> with the macros a hash function defines as parameters; \<open>absorbed\<close> relates a
  context to the input so far, and the locale \<open>md32\<close> proves once that any cutting of the input into calls gives the digest of the padded
  message.  \<open>Sha2\<close> has the rounds that SHA-256 and SHA-512 share, with their ring of 16 words and their eight variables that change
  places, \<open>Sha256\<close> is \<^verbatim>\<open>sha256.c\<close>, \<open>Sha512\<close> is \<^verbatim>\<open>sha512.c\<close>, which has its own collector, \<open>Sha1\<close> is \<^verbatim>\<open>sha1.c\<close> and \<open>Md5\<close> is \<^verbatim>\<open>md5.c\<close> and \<^verbatim>\<open>md4.c\<close>.  The
  specifications follow FIPS 180-4, RFC 1321 and RFC 1320.  The constants of SHA-2 are shown to be digits of square and cube roots of
  primes; the table of MD5 is taken as RFC 1321 prints it.
  \<open>Digest\<close> is \<^verbatim>\<open>digest.c\<close> and \<^verbatim>\<open>digests.c\<close>: contexts whose memory is bytes, in which the methods keep the structures of the hash functions; the locale
  \<open>hash_struct\<close> is what a hash function promises to this layer, interpreted for all eight.  \<open>DigestExtra\<close> is \<^verbatim>\<open>digest_extra.c\<close>, \<open>Hmac\<close> is \<^verbatim>\<open>hmac.c\<close> and
  \<^verbatim>\<open>hkdf.c\<close>, compared with FIPS 198-1 and RFC 5869.

  The properties that span the builder and the readers are in this theory, the others at the end of the theory of their component.

  \<^bold>\<open>Bounds.\<close>  Loops are total functions, with the remaining input as the measure, with two exceptions.  Where termination rests on the
  state (a chain of objects, a walk whose callback changes the table, reading until the end of an object that may never end) the loop is a
  \<^verbatim>\<open>partial_function\<close> on options, and the properties show that it returns.  The copies in and out of a ring have fuel 2: with the ring's invariant
  the data wraps around at most once, and the lemmas of \<open>BioQueue\<close> show that the fuel is never used up.  Sizes in the theorems
  that promise success stay below 2^61, so that the doubling of a buffer and the size prefix of an allocation fit below the 2^63
  limit of the allocator.

  \<^bold>\<open>Limits of the code\<close> that the theorems spell out.  The first walk of \<^verbatim>\<open>CBS_asn1_ber_to_der\<close> misses some BER: \<open>ber_noticed\<close> says of which values
  it notices any.  \<^verbatim>\<open>BUF_MEM_reserve\<close> is unsound for the six capacities from 3 * 2^62 - 9 on, where the size prefix of the allocation wraps
  around.  The assertion on overlaps in \<^verbatim>\<open>CRYPTO_cbc128_decrypt\<close> does not count the end of a partial last block, which is read.
  \<^verbatim>\<open>EVP_EncodeUpdate\<close> reports no output when there is more than an \<^verbatim>\<open>int\<close> can count; \<open>encode_call_max\<close> bounds its input so that there is not.

  The modes are those of a 64-bit little-endian machine with \<^verbatim>\<open>STRICT_ALIGNMENT\<close> 0 and \<^verbatim>\<open>OPENSSL_NO_ASM\<close>.  So are the
  hash functions; SHA-512 takes the branch for machines that load unaligned words.

  \<^bold>\<open>Not modelled.\<close>  What output parameters hold after a failure, aliasing of caller buffers (but for \<open>Cbc\<close>), the error queue (so neither \<^verbatim>\<open>ERR_print_errors\<close> nor
  the formatted output of \<^verbatim>\<open>bio/printf.c\<close>), and the I/O objects over files, descriptors and sockets, which are system calls; the other
  directories of BoringSSL, and the pods in C++ and Objective-C, as the manifest lists them.
\<close>

section \<open>Building messages\<close>

text \<open>C5.
  A document of nested length-prefixed vectors and ASN.1 elements, built by the \<^verbatim>\<open>CBB\<close> calls that open a child, fill it and go on with
  its parent, comes out of \<^verbatim>\<open>CBB_finish\<close> as its encoding, with every length prefix filled in later and the contents moved along where
  a long DER length needs more room; when a body does not fit its prefix, building fails.
\<close>

theorem document_built:
  assumes "malloc_spec m" and "malloc_total m" and "cap \<le> 2 ^ 62" and "doc_sane d"
    and "length (doc_bytes d) \<le> 2 ^ 61"
  shows "cbb_build m cap (emit m d) = (if doc_ok d then Some (doc_bytes d) else None)"
proof (cases "cbb_build m cap (emit m d)")
  case None
  with doc.build_total [OF assms(1-4) _ assms(5)] show ?thesis by auto
next
  case (Some out)
  have "cap < 2 ^ 63" using assms(3) by (rule le_less_trans) simp
  from doc.build_sound [OF assms(1) this assms(4) Some] Some show ?thesis by simp
qed

definition example_doc :: cbb_doc where
  "example_doc = Prefixed 1 [Element 0x20000010 [Bytes [1, 2]], Prefixed 1 []]"

lemma document_built_witness:
  "cbb_build zero_malloc 0 (emit zero_malloc example_doc) = Some [5, 0x30, 2, 1, 2, 0]"
  using document_built [of zero_malloc 0 example_doc]
  by (simp add: example_doc_def enc_prefixed_def asn1_tlv_def asn1_header_def asn1_identifier_def asn1_length_def
      CBS_ASN1_TAG_SHIFT_def CBS_ASN1_TAG_NUMBER_MASK_def)

text \<open>C6.
  Whatever allocations fail on the way, a build that delivers a result delivers the encoding of the document, and all its bodies fit
  their prefixes: no partial or truncated message is ever handed out.
\<close>

theorem document_never_truncated:
  assumes "malloc_spec m" and "cap < 2 ^ 63" and "doc_sane d" and "cbb_build m cap (emit m d) = Some out"
  shows "out = doc_bytes d \<and> doc_ok d"
  using doc.build_sound [OF assms] by blast

lemma document_never_truncated_witness:
  "\<exists>out. cbb_build zero_malloc 0 (emit zero_malloc (Bytes [9])) = Some out \<and> out = [9]"
proof -
  have b: "cbb_build zero_malloc 0 (emit zero_malloc (Bytes [9])) = Some [9]"
    using doc.build_total [of zero_malloc 0 "Bytes [9]"] by simp
  from document_never_truncated [OF _ _ _ b] b show ?thesis by simp
qed

text \<open>A list of 64-bit integers written with \<^verbatim>\<open>CBB_add_asn1_uint64\<close> is read back by as many calls of \<^verbatim>\<open>CBS_get_asn1_uint64\<close>, which leave exactly what
  follows the message.
\<close>

theorem uint64_list_roundtrip:
  assumes "malloc_spec m" and "cap < 2 ^ 63"
    and "cbb_build m cap (wr_list (\<lambda>m v s. CBB_add_asn1_uint64 m s v) m vs) = Some out"
  shows "dec_list CBS_get_asn1_uint64 (length vs) (out @ rest) = (Some vs, rest)"
  using wuint64.build_list_read [OF assms(1,2) _ assms(3)] by simp

lemma uint64_list_roundtrip_witness:
  "\<exists>out. cbb_build zero_malloc 9 (wr_list (\<lambda>m v s. CBB_add_asn1_uint64 m s v) zero_malloc [5, 0x8000]) = Some out \<and>
     dec_list CBS_get_asn1_uint64 2 (out @ [7]) = (Some [5, 0x8000], [7])"
proof -
  let ?vs = "[5, 0x8000] :: u64 list"
  let ?d = "concat (map (\<lambda>v. asn1_tlv (der_uint (unat v), CBS_ASN1_INTEGER)) ?vs)"
  have "length ?d \<le> 2 ^ 61" using uint64_element_short [of 5] uint64_element_short [of "0x8000"] by simp
  then have b: "cbb_build zero_malloc 9 (wr_list (\<lambda>m v s. CBB_add_asn1_uint64 m s v) zero_malloc ?vs) = Some ?d"
    using cbb_build_total [OF _ _ _ wuint64.adds_list [of zero_malloc ?vs], of 9] by simp
  from uint64_list_roundtrip [OF _ _ b, of "[7]"] b show ?thesis by (simp del: dec_list.simps flip: numeral_2_eq_2)
qed

text \<open>An octet string written with \<^verbatim>\<open>CBB_add_asn1_octet_string\<close> is read back by \<^verbatim>\<open>CBS_get_asn1\<close>; with memory to be had, writing fails exactly for
  contents of more than 2^32 - 2 bytes.
\<close>

theorem octet_string_roundtrip:
  assumes "malloc_spec m" and "malloc_total m" and "cap \<le> 2 ^ 62" and "length d < 2 ^ 60"
  defines "built \<equiv> cbb_build m cap (\<lambda>s. CBB_add_asn1_octet_string m s d)"
  shows "(built = None \<longleftrightarrow> 0xfffffffe < length d) \<and>
    (\<forall>out. built = Some out \<longrightarrow> CBS_get_asn1 (out @ rest) CBS_ASN1_OCTETSTRING = (Some d, rest))"
proof -
  have cap: "cap < 2 ^ 63" using assms(3) by (rule le_less_trans) simp
  have d: "length d < 2 ^ 63" using assms(4) by simp
  have "built \<noteq> None" if "length d \<le> 0xfffffffe"
  proof -
    have "length (asn1_tlv (d, CBS_ASN1_OCTETSTRING)) \<le> 2 ^ 61"
      using that by (simp add: asn1_tlv_def asn1_header_def asn1_identifier_def asn1_length_def Let_def length_octets_def
          CBS_ASN1_OCTETSTRING_def CBS_ASN1_TAG_SHIFT_def CBS_ASN1_TAG_NUMBER_MASK_def)
    from woctets.build_total [OF assms(1-3) d that this] show ?thesis by (simp add: built_def)
  qed
  moreover have "length d \<le> 0xfffffffe" if "built = Some out" for out
    using woctets.build_sound(2) [OF assms(1) cap d that [unfolded built_def]] .
  moreover have "CBS_get_asn1 (out @ rest) CBS_ASN1_OCTETSTRING = (Some d, rest)" if "built = Some out" for out
    using woctets.build_read [OF assms(1) cap d that [unfolded built_def]] .
  ultimately show ?thesis by (cases built) (auto simp: not_le [symmetric])
qed

lemma octet_string_roundtrip_witness:
  "\<exists>out. cbb_build zero_malloc 4 (\<lambda>s. CBB_add_asn1_octet_string zero_malloc s [1, 2]) = Some out \<and>
     CBS_get_asn1 (out @ [3]) CBS_ASN1_OCTETSTRING = (Some [1, 2], [3])"
  using octet_string_roundtrip [of zero_malloc 4 "[1, 2]" "[3]"]
  by (cases "cbb_build zero_malloc 4 (\<lambda>s. CBB_add_asn1_octet_string zero_malloc s [1, 2])") simp_all

text \<open>C30.
  Conversion of object identifiers is a bijection: for valid components, building from the dotted text gives the DER contents, and
  \<^verbatim>\<open>CBS_asn1_oid_to_text\<close> gives the text back (with its terminator).
\<close>

theorem oid_text_roundtrip:
  assumes "malloc_spec m" and "malloc_total m" and "oid_valid cs" and "length (dotted cs) < 2 ^ 60"
    and "length (oid_der cs) < 2 ^ 60"
  shows "cbb_build m 0 (\<lambda>s. CBB_add_asn1_oid_from_text m s (dotted cs) (length (dotted cs))) = Some (oid_der cs) \<and>
    CBS_asn1_oid_to_text m (oid_der cs) = Some (dotted cs @ [0])"
proof -
  have l: "length (oid_der cs) \<le> 2 ^ 61" "length (dotted cs @ [0]) \<le> 2 ^ 61" using assms(4,5) by simp_all
  show ?thesis
    using cbb_build_total [OF assms(1,2) _ adds_oid_from_text [OF assms(1,3)] _ l(1), of 0]
      cbb_build_total [OF assms(1,2) _ adds_oid_text [OF assms(1,3)] _ l(2), of 32]
    by (simp add: CBS_asn1_oid_to_text_def)
qed

lemma oid_text_roundtrip_witness:
  "CBS_asn1_oid_to_text zero_malloc (oid_der [1, 2, 840]) = Some (dotted [1, 2, 840] @ [0])"
proof -
  have "length (oid_der [1, 2, 840]) < 2 ^ 60" "length (dotted [1, 2, 840]) < 2 ^ 60"
    by (simp_all add: base128_def base128_hi.simps component_text_def decimal.simps)
  from oid_text_roundtrip [OF malloc_zero_malloc _ this(2,1)] show ?thesis by simp
qed

text \<open>C31.
  Nothing else converts: text that is not the dotted form of valid components is rejected by \<^verbatim>\<open>CBB_add_asn1_oid_from_text\<close>, and contents that
  are not the encoding of valid components are rejected by \<^verbatim>\<open>CBS_asn1_oid_to_text\<close>.
\<close>

theorem oid_text_strict:
  "(fst (CBB_add_asn1_oid_from_text m s text len) \<noteq> None \<longrightarrow> (\<exists>cs. oid_valid cs \<and> take len text = dotted cs)) \<and>
   (CBS_asn1_oid_to_text m cbs \<noteq> None \<longrightarrow> (\<exists>cs. oid_valid cs \<and> cbs = oid_der cs))"
proof -
  have "CBS_asn1_oid_to_text m cbs = None" if "\<nexists>cs. oid_valid cs \<and> cbs = oid_der cs"
  proof -
    have none: "chain p (\<lambda>_. oid_text m cbs) = (None, snd (chain p (\<lambda>_. oid_text m cbs)))" for p :: cbb_result
    proof (cases p)
      case (fields r b c)
      then show ?thesis using oid_text_None [OF that, of m "(b, c)"] by (cases r; cases "oid_text m cbs (b, c)") simp_all
    qed
    show ?thesis unfolding CBS_asn1_oid_to_text_def cbb_build_def by (subst none) simp
  qed
  then have "\<exists>cs. oid_valid cs \<and> cbs = oid_der cs" if "CBS_asn1_oid_to_text m cbs \<noteq> None"
    using that by metis
  moreover have "\<exists>cs. oid_valid cs \<and> take len text = dotted cs"
    if "fst (CBB_add_asn1_oid_from_text m s text len) \<noteq> None"
    using that oid_from_text_None [of len "text" m s] by metis
  ultimately show ?thesis by simp
qed

lemma oid_text_strict_witness:
  "\<exists>cs. oid_valid cs \<and> oid_der [1, 2] = oid_der cs"
proof -
  have "length (dotted [1, 2] @ [0]) \<le> 2 ^ 61" by (simp add: component_text_def decimal.simps)
  from cbb_build_total [OF _ _ _ adds_oid_text _ this, of zero_malloc 32]
  have "CBS_asn1_oid_to_text zero_malloc (oid_der [1, 2]) \<noteq> None" by (simp add: CBS_asn1_oid_to_text_def)
  with oid_text_strict [of zero_malloc CBB_zero "[]" 0 "oid_der [1, 2]"] show ?thesis by blast
qed

end
